(* ===== verification/Prelude.thy ===== *)
theory Prelude
  imports Main "HOL-Library.AList"
begin

text \<open>
  Shared vocabulary of the development: Python exceptions as values of a sum type, the
  insertion-ordered dictionary as an association list without repeated keys, and the
  list facts the components have in common.

  A Python operation that may raise returns \<open>'a res\<close>: \<open>Inl e\<close> for the exception
  \<open>e\<close>, \<open>Inr x\<close> for the value \<open>x\<close>.  An operation that mutates an object returns
  the updated object.

  A Python \<open>dict\<close> keeps its keys in insertion order and overwriting a key leaves it in
  place; this is exactly \<open>AList.update\<close> on an association list.  The locale
  \<open>ordered_dict\<close> states the interface the components rely on, and it is
  interpreted here on association lists.
\<close>

section \<open>Exceptions\<close>

datatype py_error =
    KeyError | IndexError | ValueError | TypeError | AttributeError
  | NotImplementedError | RuntimeError | AssertionError | ZeroDivisionError | MemoryError | OverflowError

type_synonym 'a res = "py_error + 'a"

fun rbind :: "'a res \<Rightarrow> ('a \<Rightarrow> 'b res) \<Rightarrow> 'b res" where
  "rbind (Inl e) f = Inl e"
| "rbind (Inr x) f = f x"

definition of_option :: "py_error \<Rightarrow> 'a option \<Rightarrow> 'a res" where
  "of_option e x = (case x of None \<Rightarrow> Inl e | Some v \<Rightarrow> Inr v)"

text \<open>A comprehension whose body may raise: evaluated from left to right, stopping at the
  first exception.\<close>

fun rmap :: "('a \<Rightarrow> 'b res) \<Rightarrow> 'a list \<Rightarrow> 'b list res" where
  "rmap f [] = Inr []"
| "rmap f (x # xs) = rbind (f x) (\<lambda>y. rbind (rmap f xs) (\<lambda>ys. Inr (y # ys)))"

named_theorems res_simps "rewriting of computations that may raise"

lemma rbind_Inr_iff [res_simps]: "rbind m f = Inr y \<longleftrightarrow> (\<exists>x. m = Inr x \<and> f x = Inr y)"
  by (cases m) auto

lemma rbind_Inl_iff: "rbind m f = Inl e \<longleftrightarrow> m = Inl e \<or> (\<exists>x. m = Inr x \<and> f x = Inl e)"
  by (cases m) auto

lemma rbind_assoc [res_simps]: "rbind (rbind m f) g = rbind m (\<lambda>x. rbind (f x) g)"
  by (cases m) auto

lemma of_option_simps [simp]:
  "of_option e None = Inl e" "of_option e (Some v) = Inr v"
  by (simp_all add: of_option_def)

lemma of_option_Inr_iff [res_simps]: "of_option e x = Inr v \<longleftrightarrow> x = Some v"
  by (cases x) auto

lemma rmap_Inr_iff: "rmap f xs = Inr ys \<longleftrightarrow> list_all2 (\<lambda>x y. f x = Inr y) xs ys"
proof (induction xs arbitrary: ys)
  case Nil
  then show ?case by auto
next
  case (Cons x xs)
  then show ?case by (cases ys) (auto simp: rbind_Inr_iff)
qed

lemma rmap_all_Inr: "(\<And>x. x \<in> set xs \<Longrightarrow> f x = Inr (g x)) \<Longrightarrow> rmap f xs = Inr (map g xs)"
  by (induction xs) auto

section \<open>Insertion-ordered dictionaries\<close>

type_synonym ('k, 'v) pydict = "('k \<times> 'v) list"

abbreviation dkeys :: "('k, 'v) pydict \<Rightarrow> 'k list" where
  "dkeys d \<equiv> map fst d"

abbreviation dvalues :: "('k, 'v) pydict \<Rightarrow> 'v list" where
  "dvalues d \<equiv> map snd d"

abbreviation dset :: "'k \<Rightarrow> 'v \<Rightarrow> ('k, 'v) pydict \<Rightarrow> ('k, 'v) pydict" where
  "dset k v d \<equiv> AList.update k v d"

abbreviation ddel :: "'k \<Rightarrow> ('k, 'v) pydict \<Rightarrow> ('k, 'v) pydict" where
  "ddel k d \<equiv> AList.delete k d"

abbreviation dict_ok :: "('k, 'v) pydict \<Rightarrow> bool" where
  "dict_ok d \<equiv> distinct (dkeys d)"

text \<open>\<open>dict(pairs)\<close> and a dict comprehension: later pairs overwrite earlier ones.\<close>

fun dict_from :: "('k, 'v) pydict \<Rightarrow> ('k \<times> 'v) list \<Rightarrow> ('k, 'v) pydict" where
  "dict_from d [] = d"
| "dict_from d (p # ps) = dict_from (dset (fst p) (snd p) d) ps"

definition dict_of :: "('k \<times> 'v) list \<Rightarrow> ('k, 'v) pydict" where
  "dict_of ps = dict_from [] ps"

lemma dkeys_update: "dkeys (dset k v d) = (if k \<in> set (dkeys d) then dkeys d else dkeys d @ [k])"
  by (rule update_keys)

lemma update_append_new: "k \<notin> set (dkeys d) \<Longrightarrow> dset k v d = d @ [(k, v)]"
  by (induction d) auto

lemma dict_ok_update [simp]: "dict_ok d \<Longrightarrow> dict_ok (dset k v d)"
  by (rule distinct_update)

lemma dict_ok_delete [simp]: "dict_ok d \<Longrightarrow> dict_ok (ddel k d)"
  by (rule distinct_delete)

lemma dict_from_ok: "dict_ok d \<Longrightarrow> dict_ok (dict_from d ps)"
  by (induction ps arbitrary: d) auto

lemma dict_of_ok [simp]: "dict_ok (dict_of ps)"
  by (simp add: dict_of_def dict_from_ok)

lemma dict_from_append:
  "distinct (dkeys d @ map fst ps) \<Longrightarrow> dict_from d ps = d @ ps"
  by (induction ps arbitrary: d) (auto simp: update_append_new)

lemma dict_of_distinct: "distinct (map fst ps) \<Longrightarrow> dict_of ps = ps"
  by (simp add: dict_of_def dict_from_append)

lemma set_dkeys_dict_from: "fst ` set (dict_from d ps) = fst ` set d \<union> fst ` set ps"
proof (induction ps arbitrary: d)
  case Nil
  then show ?case by simp
next
  case (Cons p ps)
  then show ?case using dom_update [of "fst p" "snd p" d] by auto
qed

lemma set_dkeys_dict_of: "fst ` set (dict_of ps) = fst ` set ps"
  by (simp add: dict_of_def set_dkeys_dict_from)

lemma map_of_dict_from: "map_of (dict_from d ps) = map_of d ++ map_of (rev ps)"
proof (induction ps arbitrary: d)
  case Nil
  then show ?case by simp
next
  case (Cons p ps)
  have "map_of (dict_from d (p # ps)) = (map_of d)(fst p \<mapsto> snd p) ++ map_of (rev ps)"
    using Cons [of "dset (fst p) (snd p) d"] by (simp only: dict_from.simps update_conv')
  also have "\<dots> = map_of d ++ map_of (rev (p # ps))"
    by (cases p) (auto simp: map_add_def fun_eq_iff split: option.splits)
  finally show ?case .
qed

lemma map_of_dict_of: "map_of (dict_of ps) = map_of (rev ps)"
  by (simp add: dict_of_def map_of_dict_from)

lemma length_dict_from: "length (dict_from d ps) \<le> length d + length ps"
proof (induction ps arbitrary: d)
  case Nil
  then show ?case by simp
next
  case (Cons p ps)
  have "length (dset (fst p) (snd p) d) \<le> Suc (length d)"
    using arg_cong [OF dkeys_update [of "fst p" "snd p" d], of length] by (auto split: if_splits)
  with Cons [of "dset (fst p) (snd p) d"] show ?case by simp
qed

lemma length_dict_of_iff: "length (dict_of ps) = length ps \<longleftrightarrow> distinct (map fst ps)"
proof
  assume "length (dict_of ps) = length ps"
  then have "card (set (map fst ps)) = length (map fst ps)"
    using distinct_card [OF dict_of_ok [of ps]] set_dkeys_dict_of [of ps] by simp
  then show "distinct (map fst ps)" by (rule card_distinct)
next
  assume "distinct (map fst ps)"
  then show "length (dict_of ps) = length ps" by (simp add: dict_of_distinct)
qed

text \<open>The interface: a lookup, an insertion, a deletion and the key order.\<close>

locale ordered_dict =
  fixes lookup :: "'d \<Rightarrow> 'k \<Rightarrow> 'v option"
    and insert :: "'k \<Rightarrow> 'v \<Rightarrow> 'd \<Rightarrow> 'd"
    and remove :: "'k \<Rightarrow> 'd \<Rightarrow> 'd"
    and order :: "'d \<Rightarrow> 'k list"
    and inv :: "'d \<Rightarrow> bool"
  assumes lookup_insert: "inv d \<Longrightarrow> lookup (insert k v d) = (lookup d)(k \<mapsto> v)"
    and lookup_remove: "inv d \<Longrightarrow> lookup (remove k d) = (lookup d)(k := None)"
    and order_insert: "inv d \<Longrightarrow>
      order (insert k v d) = (if lookup d k = None then order d @ [k] else order d)"
    and order_remove: "inv d \<Longrightarrow> order (remove k d) = removeAll k (order d)"
    and order_dom: "inv d \<Longrightarrow> set (order d) = dom (lookup d)"
    and order_distinct: "inv d \<Longrightarrow> distinct (order d)"
    and inv_insert: "inv d \<Longrightarrow> inv (insert k v d)"
    and inv_remove: "inv d \<Longrightarrow> inv (remove k d)"
begin

lemma lookup_insert_same: "inv d \<Longrightarrow> lookup (insert k v d) k = Some v"
  by (simp add: lookup_insert)

lemma lookup_insert_other: "inv d \<Longrightarrow> k' \<noteq> k \<Longrightarrow> lookup (insert k v d) k' = lookup d k'"
  by (simp add: lookup_insert)

lemma insert_remove_fresh:
  assumes "inv d" and "lookup d k = None"
  shows "order (remove k (insert k v d)) = order d" and "lookup (remove k (insert k v d)) = lookup d"
proof -
  have fresh: "k \<notin> set (order d)" using assms by (auto simp: order_dom)
  show "order (remove k (insert k v d)) = order d"
    using assms fresh by (simp add: order_remove order_insert inv_insert)
  show "lookup (remove k (insert k v d)) = lookup d"
    using assms by (auto simp: lookup_remove lookup_insert inv_insert fun_eq_iff)
qed

lemma length_order_insert:
  "inv d \<Longrightarrow> length (order (insert k v d)) = length (order d) + (if lookup d k = None then 1 else 0)"
  by (simp add: order_insert)

end

interpretation adict: ordered_dict "map_of" AList.update AList.delete "map fst" dict_ok
proof (unfold_locales, goal_cases)
  case (1 d k v)
  then show ?case by (simp add: update_conv')
next
  case (2 d k)
  then show ?case by (simp add: delete_conv')
next
  case (3 d k v)
  then show ?case by (simp add: dkeys_update map_of_eq_None_iff)
next
  case (4 d k)
  then show ?case by (simp add: delete_keys)
next
  case (5 d)
  then show ?case by (simp add: dom_map_of_conv_image_fst)
qed auto

section \<open>Runs of a step function\<close>

text \<open>Several components are state machines: a step function, and an invariant that every
  step keeps.  A run is a fold over a list of events.\<close>

fun run :: "('s \<Rightarrow> 'e \<Rightarrow> 's) \<Rightarrow> 's \<Rightarrow> 'e list \<Rightarrow> 's" where
  "run step s [] = s"
| "run step s (e # es) = run step (step s e) es"

locale step_system =
  fixes step :: "'s \<Rightarrow> 'e \<Rightarrow> 's"
    and inv :: "'s \<Rightarrow> bool"
    and ok :: "'e \<Rightarrow> bool"
  assumes step_inv: "inv s \<Longrightarrow> ok e \<Longrightarrow> inv (step s e)"
begin

lemma run_inv: "inv s \<Longrightarrow> list_all ok es \<Longrightarrow> inv (run step s es)"
  by (induction es arbitrary: s) (auto intro: step_inv)

end

section \<open>Lists\<close>

lemma map_of_dkeys_nth: "dict_ok d \<Longrightarrow> i < length d \<Longrightarrow> map_of d (fst (d ! i)) = Some (snd (d ! i))"
  by (simp add: map_of_eq_Some_iff)

lemma removeAll_notin: "x \<notin> set xs \<Longrightarrow> removeAll x xs = xs"
  by (rule removeAll_id)

lemma take_drop_insert_distinct:
  "distinct xs \<Longrightarrow> x \<notin> set xs \<Longrightarrow> distinct (take n xs @ x # drop n xs)"
proof -
  assume "distinct xs" "x \<notin> set xs"
  moreover have "xs = take n xs @ drop n xs" by simp
  ultimately show ?thesis
    by (metis distinct_append distinct.simps(2) Un_iff append_take_drop_id
        disjoint_insert(1) list.simps(15) set_append)
qed

end
