(* ===== verification/PyRange.thy ===== *)
theory PyRange
  imports Prelude
begin

text \<open>
  The part of Python's standard library that the row-index code computes with: the
  \<open>range\<close> object (its length, elements, membership, equality), \<open>slice.indices\<close>
  and the slicing of a range.  Python integers do not overflow and \<open>//\<close> and \<open>%\<close>
  round towards minus infinity, as \<open>div\<close> and \<open>mod\<close> on \<open>int\<close> do.  The
  component theories build on \<open>mem_rlist\<close>, the arithmetic form of membership.
\<close>

record pyrange =
  rstart :: int
  rstop :: int
  rstep :: int

definition rlen :: "pyrange \<Rightarrow> nat" where
  "rlen r =
     (if 0 < rstep r
      then (if rstart r < rstop r then nat (1 + (rstop r - 1 - rstart r) div rstep r) else 0)
      else (if rstop r < rstart r then nat (1 + (rstart r - 1 - rstop r) div (- rstep r)) else 0))"

definition rlist :: "pyrange \<Rightarrow> int list" where
  "rlist r = map (\<lambda>i. rstart r + int i * rstep r) [0..<rlen r]"

text \<open>\<open>range(start, stop, step)\<close>: a zero step raises ValueError.\<close>

definition mk_range :: "int \<Rightarrow> int \<Rightarrow> int \<Rightarrow> pyrange res" where
  "mk_range a b s =
     (if s = 0 then Inl ValueError else Inr \<lparr>rstart = a, rstop = b, rstep = s\<rparr>)"

definition range_ok :: "pyrange \<Rightarrow> bool" where
  "range_ok r \<longleftrightarrow> rstep r \<noteq> 0"

definition rmem :: "int \<Rightarrow> pyrange \<Rightarrow> bool" where
  "rmem x r \<longleftrightarrow> x \<in> set (rlist r)"

text \<open>Two ranges are equal when they are equal as sequences.\<close>

definition req :: "pyrange \<Rightarrow> pyrange \<Rightarrow> bool" where
  "req r r' \<longleftrightarrow> rlist r = rlist r'"

section \<open>Slices\<close>

record pyslice =
  sl_start :: "int option"
  sl_stop :: "int option"
  sl_step :: "int option"

definition slice_all :: pyslice where
  "slice_all = \<lparr>sl_start = None, sl_stop = None, sl_step = None\<rparr>"

definition slice_reverse :: pyslice where
  "slice_reverse = \<lparr>sl_start = None, sl_stop = None, sl_step = Some (- 1)\<rparr>"

definition slice_empty :: pyslice where
  "slice_empty = \<lparr>sl_start = None, sl_stop = Some 0, sl_step = None\<rparr>"

definition clip_bound :: "int \<Rightarrow> int \<Rightarrow> int \<Rightarrow> int \<Rightarrow> int" where
  "clip_bound lower upper n x = (if x < 0 then max (x + n) lower else min x upper)"

text \<open>\<open>slice.indices(n)\<close>.\<close>

definition slice_indices :: "pyslice \<Rightarrow> nat \<Rightarrow> (int \<times> int \<times> int) res" where
  "slice_indices s n =
     (let st = (case sl_step s of None \<Rightarrow> 1 | Some k \<Rightarrow> k);
          lower = (if st < 0 then - 1 else 0);
          upper = (if st < 0 then int n - 1 else int n);
          a = (case sl_start s of
                 None \<Rightarrow> (if st < 0 then upper else lower)
               | Some x \<Rightarrow> clip_bound lower upper (int n) x);
          b = (case sl_stop s of
                 None \<Rightarrow> (if st < 0 then lower else upper)
               | Some x \<Rightarrow> clip_bound lower upper (int n) x)
      in if st = 0 then Inl ValueError else Inr (a, b, st))"

text \<open>Slicing a list: the elements at the positions \<open>range(a, b, st)\<close>.\<close>

definition list_slice :: "'a list \<Rightarrow> pyslice \<Rightarrow> 'a list res" where
  "list_slice xs s =
     rbind (slice_indices s (length xs)) (\<lambda>(a, b, st).
       Inr (map (\<lambda>i. xs ! nat i) (rlist \<lparr>rstart = a, rstop = b, rstep = st\<rparr>)))"

text \<open>Slicing a range gives a range.\<close>

definition range_slice :: "pyrange \<Rightarrow> pyslice \<Rightarrow> pyrange res" where
  "range_slice r s =
     rbind (slice_indices s (rlen r)) (\<lambda>(a, b, st).
       Inr \<lparr>rstart = rstart r + a * rstep r, rstop = rstart r + b * rstep r,
            rstep = rstep r * st\<rparr>)"

text \<open>\<open>r[::-1]\<close>.\<close>

definition range_rev :: "pyrange \<Rightarrow> pyrange" where
  "range_rev r = \<lparr>rstart = rstart r + (int (rlen r) - 1) * rstep r,
                  rstop = rstart r - rstep r, rstep = - rstep r\<rparr>"

text \<open>\<open>xs[i]\<close> with Python's negative indices.\<close>

definition py_index :: "'a list \<Rightarrow> int \<Rightarrow> 'a res" where
  "py_index xs i =
     (let n = int (length xs); j = (if i < 0 then i + n else i)
      in if 0 \<le> j \<and> j < n then Inr (xs ! nat j) else Inl IndexError)"

definition py_set :: "'a list \<Rightarrow> int \<Rightarrow> 'a \<Rightarrow> 'a list res" where
  "py_set xs i v =
     (let n = int (length xs); j = (if i < 0 then i + n else i)
      in if 0 \<le> j \<and> j < n then Inr (xs[nat j := v]) else Inl IndexError)"

text \<open>\<open>zip(xs, ys, strict=True)\<close>.\<close>

definition zip_strict :: "'a list \<Rightarrow> 'b list \<Rightarrow> ('a \<times> 'b) list res" where
  "zip_strict xs ys = (if length xs = length ys then Inr (zip xs ys) else Inl ValueError)"

section \<open>Facts about ranges\<close>

lemma range_eta [simp]: "\<lparr>rstart = rstart r, rstop = rstop r, rstep = rstep r\<rparr> = r"
  by simp

lemma length_rlist [simp]: "length (rlist r) = rlen r"
  by (simp add: rlist_def)

lemma nth_rlist [simp]: "i < rlen r \<Longrightarrow> rlist r ! i = rstart r + int i * rstep r"
  by (simp add: rlist_def)

lemma rlist_eq_Nil [simp]: "rlist r = [] \<longleftrightarrow> rlen r = 0"
  by (simp add: rlist_def)

lemma le_div_iff_int: "0 < (q::int) \<Longrightarrow> m \<le> n div q \<longleftrightarrow> m * q \<le> n"
proof
  assume q: "0 < q" and "m \<le> n div q"
  then have "m * q \<le> n div q * q" by simp
  also have "\<dots> \<le> n" using q by (simp add: minus_mod_eq_div_mult [symmetric])
  finally show "m * q \<le> n" .
next
  assume q: "0 < q" and "m * q \<le> n"
  then have "(m * q) div q \<le> n div q" by (intro zdiv_mono1)
  then show "m \<le> n div q" using q by simp
qed

lemma rlen_up:
  assumes "0 < rstep r"
  shows "i < rlen r \<longleftrightarrow> rstart r + int i * rstep r < rstop r"
proof (cases "rstart r < rstop r")
  case True
  let ?d = "rstop r - 1 - rstart r"
  have "0 \<le> ?d div rstep r" using assms True by (simp add: pos_imp_zdiv_nonneg_iff)
  then have "i < rlen r \<longleftrightarrow> int i \<le> ?d div rstep r"
    using assms True unfolding rlen_def by simp linarith
  also have "\<dots> \<longleftrightarrow> int i * rstep r \<le> ?d" using assms by (rule le_div_iff_int)
  finally show ?thesis by linarith
next
  case False
  moreover have "0 \<le> int i * rstep r" using assms by simp
  ultimately have "\<not> rstart r + int i * rstep r < rstop r" by linarith
  then show ?thesis using assms False by (simp add: rlen_def)
qed

text \<open>A descending range is the mirror image of an ascending one.\<close>

definition rneg :: "pyrange \<Rightarrow> pyrange" where
  "rneg r = \<lparr>rstart = - rstart r, rstop = - rstop r, rstep = - rstep r\<rparr>"

lemma rneg_simps [simp]:
  "rstart (rneg r) = - rstart r" "rstop (rneg r) = - rstop r" "rstep (rneg r) = - rstep r"
  by (simp_all add: rneg_def)

lemma rlen_rneg: "rstep r \<noteq> 0 \<Longrightarrow> rlen (rneg r) = rlen r"
  by (cases "0 < rstep r") (simp_all add: rlen_def algebra_simps)

lemma rlen_down:
  assumes "rstep r < 0"
  shows "i < rlen r \<longleftrightarrow> rstop r < rstart r + int i * rstep r"
  using rlen_up [of "rneg r" i] rlen_rneg [of r] assms by simp linarith

lemma rlist_rneg: "rstep r \<noteq> 0 \<Longrightarrow> rlist (rneg r) = map uminus (rlist r)"
  by (simp add: rlist_def rlen_rneg)

lemma rlen_eq_0_up: "0 < rstep r \<Longrightarrow> rlen r = 0 \<longleftrightarrow> rstop r \<le> rstart r"
  using rlen_up [of r 0] by auto

lemma rlen_eq_0_down: "rstep r < 0 \<Longrightarrow> rlen r = 0 \<longleftrightarrow> rstart r \<le> rstop r"
  using rlen_down [of r 0] by auto

lemma mem_rlist_up:
  assumes "0 < rstep r"
  shows "x \<in> set (rlist r) \<longleftrightarrow> rstart r \<le> x \<and> x < rstop r \<and> (x - rstart r) mod rstep r = 0"
proof
  assume "x \<in> set (rlist r)"
  then obtain i where "i < rlen r" and x: "x = rstart r + int i * rstep r"
    by (auto simp: rlist_def)
  then show "rstart r \<le> x \<and> x < rstop r \<and> (x - rstart r) mod rstep r = 0"
    using assms by (simp add: rlen_up)
next
  assume *: "rstart r \<le> x \<and> x < rstop r \<and> (x - rstart r) mod rstep r = 0"
  then obtain k where k: "x - rstart r = rstep r * k" by (auto simp: mod_eq_0_iff_dvd dvd_def)
  have "0 \<le> rstep r * k" using * unfolding k [symmetric] by simp
  then have "0 \<le> k" using assms by (simp add: zero_le_mult_iff)
  with k have x: "x = rstart r + int (nat k) * rstep r" by (simp add: mult.commute)
  then have "nat k < rlen r" using * assms by (simp add: rlen_up)
  then have "rlist r ! nat k \<in> set (rlist r)" by (intro nth_mem) simp
  with x \<open>nat k < rlen r\<close> show "x \<in> set (rlist r)" by simp
qed

lemma mem_rlist_down:
  assumes "rstep r < 0"
  shows "x \<in> set (rlist r) \<longleftrightarrow> rstop r < x \<and> x \<le> rstart r \<and> (x - rstart r) mod rstep r = 0"
proof -
  have "x \<in> set (rlist r) \<longleftrightarrow> - x \<in> set (rlist (rneg r))" using assms by (auto simp: rlist_rneg)
  also have "\<dots> \<longleftrightarrow> - rstart r \<le> - x \<and> - x < - rstop r \<and> (rstart r - x) mod (- rstep r) = 0"
    using assms by (simp add: mem_rlist_up)
  also have "(rstart r - x) mod (- rstep r) = 0 \<longleftrightarrow> (x - rstart r) mod rstep r = 0"
    by (metis minus_diff_eq mod_eq_0_iff_dvd dvd_minus_iff minus_dvd_iff)
  finally show ?thesis by auto
qed

lemmas mem_rlist = mem_rlist_up mem_rlist_down

lemma rlist_cong:
  "rlen r = rlen r' \<Longrightarrow> rstart r = rstart r' \<Longrightarrow> rstep r = rstep r' \<Longrightarrow> rlist r = rlist r'"
  by (simp add: rlist_def)

lemma distinct_rlist: "range_ok r \<Longrightarrow> distinct (rlist r)"
  by (auto simp: rlist_def distinct_map inj_on_def range_ok_def)

lemma rlist_ascending: "0 < rstep r \<Longrightarrow> sorted (rlist r)"
  by (auto simp: sorted_iff_nth_mono rlist_def mult_right_mono)

lemma rlist_descending: "rstep r < 0 \<Longrightarrow> sorted (rev (rlist r))"
  unfolding sorted_rev_iff_nth_mono by (auto simp: rlist_def mult_right_mono_neg)

section \<open>Reversal and slicing\<close>

lemma range_rev_simps [simp]:
  "rstart (range_rev r) = rstart r + (int (rlen r) - 1) * rstep r"
  "rstop (range_rev r) = rstart r - rstep r" "rstep (range_rev r) = - rstep r"
  by (simp_all add: range_rev_def)

lemma rlen_range_rev: "range_ok r \<Longrightarrow> rlen (range_rev r) = rlen r"
proof -
  assume ok: "range_ok r"
  have "i < rlen (range_rev r) \<longleftrightarrow> i < rlen r" for i
  proof (cases "0 < rstep r")
    case True
    then have "i < rlen (range_rev r) \<longleftrightarrow> 0 < (int (rlen r) - int i) * rstep r"
      by (simp add: rlen_down algebra_simps)
    also have "\<dots> \<longleftrightarrow> i < rlen r" using True by (simp add: zero_less_mult_iff)
    finally show ?thesis .
  next
    case False
    with ok have neg: "rstep r < 0" by (simp add: range_ok_def)
    then have "i < rlen (range_rev r) \<longleftrightarrow> (int (rlen r) - int i) * rstep r < 0"
      by (simp add: rlen_up algebra_simps)
    also have "\<dots> \<longleftrightarrow> i < rlen r" using neg by (simp add: mult_less_0_iff)
    finally show ?thesis .
  qed
  then show ?thesis by (meson linorder_neqE_nat less_irrefl)
qed

lemma rlist_range_rev: "range_ok r \<Longrightarrow> rlist (range_rev r) = rev (rlist r)"
  by (rule nth_equalityI)
    (auto simp: rlen_range_rev rev_nth of_nat_diff algebra_simps)

lemma range_slice_reverse: "range_slice r slice_reverse = Inr (range_rev r)"
  by (simp add: range_slice_def slice_indices_def slice_reverse_def Let_def range_rev_def)

lemma range_ok_rev [simp]: "range_ok (range_rev r) = range_ok r"
  by (simp add: range_ok_def)

text \<open>Scaling a range does not change its length; this is why slicing a range is again a
  range.\<close>

lemma rlen_scale:
  assumes "k \<noteq> 0" and "st \<noteq> 0"
  shows "rlen \<lparr>rstart = c + a * k, rstop = c + b * k, rstep = k * st\<rparr>
       = rlen \<lparr>rstart = a, rstop = b, rstep = st\<rparr>" (is "rlen ?x = rlen ?y")
proof -
  have "i < rlen ?x \<longleftrightarrow> i < rlen ?y" for i
  proof -
    have e: "c + a * k + int i * (k * st) - (c + b * k) = (a + int i * st - b) * k"
      by (simp add: algebra_simps)
    consider "0 < k" "0 < st" | "0 < k" "st < 0" | "k < 0" "0 < st" | "k < 0" "st < 0"
      using assms by linarith
    then show ?thesis
    proof cases
      case 1
      have "(a + int i * st - b) * k < 0 \<longleftrightarrow> a + int i * st - b < 0"
        using 1 by (simp add: mult_less_0_iff)
      then show ?thesis using 1 e by (simp add: rlen_up) linarith
    next
      case 2
      have "0 < (a + int i * st - b) * k \<longleftrightarrow> 0 < a + int i * st - b"
        using 2 by (simp add: zero_less_mult_iff)
      then show ?thesis using 2 e mult_pos_neg [of k st] by (simp add: rlen_down) linarith
    next
      case 3
      have "0 < (a + int i * st - b) * k \<longleftrightarrow> a + int i * st - b < 0"
        using 3 by (simp add: zero_less_mult_iff)
      then show ?thesis using 3 e mult_neg_pos [of k st] by (simp add: rlen_up rlen_down) linarith
    next
      case 4
      have "(a + int i * st - b) * k < 0 \<longleftrightarrow> 0 < a + int i * st - b"
        using 4 by (simp add: mult_less_0_iff)
      then show ?thesis using 4 e mult_neg_neg [of k st] by (simp add: rlen_up rlen_down) linarith
    qed
  qed
  then show ?thesis by (meson linorder_neqE_nat less_irrefl)
qed

lemma slice_indices_bounds:
  assumes "slice_indices s n = Inr (a, b, st)"
    and "i \<in> set (rlist \<lparr>rstart = a, rstop = b, rstep = st\<rparr>)"
  shows "0 \<le> i" and "i < int n"
proof -
  have st: "st \<noteq> 0" and ab: "if st < 0 then a \<le> int n - 1 \<and> - 1 \<le> b else 0 \<le> a \<and> b \<le> int n"
    using assms(1) by (auto simp: slice_indices_def clip_bound_def Let_def split: if_splits option.splits)
  have "0 \<le> i \<and> i < int n"
  proof (cases "0 < st")
    case True
    then show ?thesis using ab assms(2) by (simp add: mem_rlist_up)
  next
    case False
    with st have "st < 0" by simp
    then show ?thesis using ab assms(2) by (simp add: mem_rlist_down)
  qed
  then show "0 \<le> i" and "i < int n" by simp_all
qed

text \<open>Slicing a range and then listing it is listing it and then slicing the list.\<close>

lemma range_slice_list:
  assumes ok: "range_ok r" and slice: "range_slice r s = Inr r'"
  shows "list_slice (rlist r) s = Inr (rlist r')" and "range_ok r'"
proof -
  from slice obtain a b st where ind: "slice_indices s (rlen r) = Inr (a, b, st)"
    and r': "r' = \<lparr>rstart = rstart r + a * rstep r, rstop = rstart r + b * rstep r, rstep = rstep r * st\<rparr>"
    by (auto simp: range_slice_def rbind_Inr_iff)
  have st: "st \<noteq> 0" using ind by (auto simp: slice_indices_def Let_def split: if_splits)
  let ?x = "\<lparr>rstart = a, rstop = b, rstep = st\<rparr>"
  have len: "rlen r' = rlen ?x"
    unfolding r' using ok st by (intro rlen_scale) (auto simp: range_ok_def)
  show "range_ok r'" using ok st by (simp add: r' range_ok_def)
  have "map (\<lambda>i. rlist r ! nat i) (rlist ?x) = rlist r'"
  proof (rule nth_equalityI)
    show "length (map (\<lambda>i. rlist r ! nat i) (rlist ?x)) = length (rlist r')" by (simp add: len)
  next
    fix j assume "j < length (map (\<lambda>i. rlist r ! nat i) (rlist ?x))"
    then have j: "j < rlen ?x" by simp
    then have "rlist ?x ! j \<in> set (rlist ?x)" by (intro nth_mem) simp
    from slice_indices_bounds [OF ind this] j have "0 \<le> a + int j * st" "a + int j * st < int (rlen r)"
      by simp_all
    with j len show "map (\<lambda>i. rlist r ! nat i) (rlist ?x) ! j = rlist r' ! j"
      by (simp add: r' algebra_simps)
  qed
  with ind show "list_slice (rlist r) s = Inr (rlist r')" by (simp add: list_slice_def)
qed

section \<open>Fixed-width dtypes\<close>

text \<open>The value of an integer in a NumPy dtype of the given signedness and width, and the
  differences of neighbours (\<open>diff\<close>) computed in it.\<close>

definition wrap_dtype :: "bool \<Rightarrow> nat \<Rightarrow> int \<Rightarrow> int" where
  "wrap_dtype signed bits x =
     (if signed then (x + 2 ^ (bits - 1)) mod 2 ^ bits - 2 ^ (bits - 1) else x mod 2 ^ bits)"

lemma wrap_dtype_signed:
  assumes "0 < bits" and "- (2 ^ (bits - 1)) \<le> x" and "x < 2 ^ (bits - 1)"
  shows "wrap_dtype True bits x = x"
proof -
  have "(2 :: int) ^ bits = 2 * 2 ^ (bits - 1)" using assms(1) by (cases bits) simp_all
  then show ?thesis using assms by (simp add: wrap_dtype_def)
qed

definition dtype_diffs :: "bool \<Rightarrow> nat \<Rightarrow> int list \<Rightarrow> int list" where
  "dtype_diffs signed bits xs = map (\<lambda>(x, y). wrap_dtype signed bits (y - x)) (zip xs (tl xs))"

end
