(* ===== verification/RangeIndexModel.thy ===== *)
theory RangeIndexModel
  imports PyRange
begin

text \<open>
  \<open>cudf.RangeIndex\<close> (\<open>cudf/core/index.py\<close>): an immutable index given by a Python
  \<open>range\<close> and a name.  Names are strings or None.  An operation of the class either
  stays in the range representation or hands over to the materialised integer index
  (\<open>_as_int_index\<close>, a libcudf column); the second case is the value \<open>Fallback x\<close>,
  where \<open>x\<close> is what the generic operation is called with.

  True divisions of the source (\<open>get_loc\<close>, \<open>get_indexer\<close>) are modelled as exact: a
  float quotient of integers below \<open>2 ^ 53\<close> is integral exactly when the division is.  The target of
  \<open>get_indexer\<close> is an array of integers; a Python integer that its dtype cannot hold is taken to raise
  OverflowError, and a store of \<open>-1\<close> to wrap.
\<close>

section \<open>State and construction\<close>

record rangeindex =
  ri_range :: pyrange
  ri_name :: "string option"

datatype scalar_arg = SInt int | SNonInt

datatype start_arg = StartRange pyrange | StartIndex rangeindex | StartScalar "scalar_arg option"

datatype 'o outcome = Ranged rangeindex | Fallback 'o

fun validate_range_arg :: "scalar_arg option \<Rightarrow> int res" where
  "validate_range_arg (Some (SInt i)) = Inr i"
| "validate_range_arg _ = Inl TypeError"

text \<open>\<open>dtype_kind_ok\<close>: None when no dtype is given, else whether its kind is \<open>i\<close>.\<close>

fun range_index_init ::
  "start_arg \<Rightarrow> scalar_arg option \<Rightarrow> scalar_arg option \<Rightarrow> bool option \<Rightarrow> bool \<Rightarrow> string option
   \<Rightarrow> rangeindex res" where
  "range_index_init start stop step dtype_kind_ok name_hashable name =
     (if \<not> name_hashable then Inl ValueError
      else if dtype_kind_ok = Some False then Inl ValueError
      else (case start of
          StartRange r \<Rightarrow> Inr \<lparr>ri_range = r, ri_name = name\<rparr>
        | StartIndex ix \<Rightarrow> Inr \<lparr>ri_range = ri_range ix,
                                  ri_name = (if name = None then ri_name ix else name)\<rparr>
        | StartScalar s \<Rightarrow>
            (let (start', stop') = (if stop = None then (Some (SInt 0), s) else (s, stop)) in
             rbind (validate_range_arg start') (\<lambda>a.
             rbind (validate_range_arg stop') (\<lambda>b.
             rbind (if step = None then Inr 1 else validate_range_arg step) (\<lambda>k.
             rbind (mk_range a b k) (\<lambda>r. Inr \<lparr>ri_range = r, ri_name = name\<rparr>)))))))"

text \<open>The calls \<open>RangeIndex(start, stop, step, name=name)\<close> and \<open>RangeIndex(range, name=name)\<close>
  of the class's own methods.\<close>

definition new_range_index :: "int \<Rightarrow> int \<Rightarrow> int \<Rightarrow> string option \<Rightarrow> rangeindex res" where
  "new_range_index a b k name =
     range_index_init (StartScalar (Some (SInt a))) (Some (SInt b)) (Some (SInt k)) None True name"

definition of_range :: "pyrange \<Rightarrow> string option \<Rightarrow> rangeindex" where
  "of_range r name = \<lparr>ri_range = r, ri_name = name\<rparr>"

abbreviation empty_range :: pyrange where
  "empty_range \<equiv> \<lparr>rstart = 0, rstop = 0, rstep = 1\<rparr>"

lemma rlist_empty_range [simp]: "rlist empty_range = []" "rlen empty_range = 0"
  by (simp_all add: rlen_def)

abbreviation ri_start :: "rangeindex \<Rightarrow> int" where "ri_start ix \<equiv> rstart (ri_range ix)"
abbreviation ri_stop :: "rangeindex \<Rightarrow> int" where "ri_stop ix \<equiv> rstop (ri_range ix)"
abbreviation ri_step :: "rangeindex \<Rightarrow> int" where "ri_step ix \<equiv> rstep (ri_range ix)"
abbreviation ri_len :: "rangeindex \<Rightarrow> nat" where "ri_len ix \<equiv> rlen (ri_range ix)"
abbreviation ri_values :: "rangeindex \<Rightarrow> int list" where "ri_values ix \<equiv> rlist (ri_range ix)"

definition ri_copy :: "rangeindex \<Rightarrow> string option \<Rightarrow> rangeindex" where
  "ri_copy ix name = of_range (ri_range ix) (if name = None then ri_name ix else name)"

section \<open>Reading\<close>

text \<open>A float is \<open>m / 2 ^ k\<close>; NaN and the infinities are \<open>INonFinite\<close>.\<close>

datatype item = IInt int | IBool bool | IFloat int nat | INonFinite | IOtherHashable | IUnhashable

fun ri_contains :: "rangeindex \<Rightarrow> item \<Rightarrow> bool res" where
  "ri_contains ix IUnhashable = Inl TypeError"
| "ri_contains ix IOtherHashable = Inr False"
| "ri_contains ix (IBool b) = Inr False"
| "ri_contains ix INonFinite = Inr False"
| "ri_contains ix (IInt i) = Inr (rmem i (ri_range ix))"
| "ri_contains ix (IFloat m k) =
     (let int_item = (if 0 \<le> m then m div 2 ^ k else - ((- m) div 2 ^ k))
      in Inr (int_item * 2 ^ k = m \<and> rmem int_item (ri_range ix)))"

datatype index_key = XEllipsis | XSlice pyslice | XInt int | XScalar | XArray

datatype item_result = GotIndex rangeindex | GotInt int | GotFallback

fun ri_getitem :: "rangeindex \<Rightarrow> index_key \<Rightarrow> item_result res" where
  "ri_getitem ix XEllipsis =
     rbind (range_slice (ri_range ix) slice_all) (\<lambda>r. Inr (GotIndex (of_range r (ri_name ix))))"
| "ri_getitem ix (XSlice s) =
     rbind (range_slice (ri_range ix) s) (\<lambda>r. Inr (GotIndex (of_range r (ri_name ix))))"
| "ri_getitem ix (XInt i) = rbind (py_index (ri_values ix) i) (\<lambda>v. Inr (GotInt v))"
| "ri_getitem ix XScalar = Inl IndexError"
| "ri_getitem ix XArray = Inr GotFallback"

text \<open>\<open>self[::-1]\<close> and \<open>self[:0]\<close>, the two slices the methods use.\<close>

definition ri_reverse :: "rangeindex \<Rightarrow> rangeindex" where
  "ri_reverse ix = of_range (range_rev (ri_range ix)) (ri_name ix)"

definition ri_take0 :: "rangeindex \<Rightarrow> rangeindex" where
  "ri_take0 ix = of_range \<lparr>rstart = ri_start ix, rstop = ri_start ix, rstep = ri_step ix\<rparr> (ri_name ix)"

text \<open>The other operand of \<open>equals\<close>: a range, another index with its length, whether its
  dtype (or that of its categories) is numeric, and its values, or not an index.\<close>

datatype 'v other_index =
    OtherRange rangeindex
  | OtherIndex (other_len: nat) (other_numeric: bool) (other_values: 'v)
  | NotAnIndex

fun ri_equals :: "(int list \<Rightarrow> 'v \<Rightarrow> bool) \<Rightarrow> rangeindex \<Rightarrow> 'v other_index \<Rightarrow> bool" where
  "ri_equals column_equals ix (OtherRange o') = req (ri_range ix) (ri_range o')"
| "ri_equals column_equals ix NotAnIndex = False"
| "ri_equals column_equals ix (OtherIndex n numeric vs) =
     (if ri_len ix \<noteq> n then False
      else if \<not> numeric then False
      else column_equals (ri_values ix) vs)"

definition ri_is_monotonic_increasing :: "rangeindex \<Rightarrow> bool" where
  "ri_is_monotonic_increasing ix \<longleftrightarrow> 0 < ri_step ix \<or> ri_len ix \<le> 1"

definition ri_is_monotonic_decreasing :: "rangeindex \<Rightarrow> bool" where
  "ri_is_monotonic_decreasing ix \<longleftrightarrow> ri_step ix < 0 \<or> ri_len ix \<le> 1"

text \<open>\<open>_minmax\<close>: None stands for \<open>np.nan\<close>, the answer on an empty index.\<close>

datatype minmax = MethMin | MethMax

definition ri_minmax :: "rangeindex \<Rightarrow> minmax \<Rightarrow> int option" where
  "ri_minmax ix meth =
     (let no_steps = int (ri_len ix) - 1 in
      if no_steps = - 1 then None
      else if (meth = MethMin \<and> 0 < ri_step ix) \<or> (meth = MethMax \<and> ri_step ix < 0)
      then Some (ri_start ix)
      else Some (ri_start ix + ri_step ix * no_steps))"

definition ri_min :: "rangeindex \<Rightarrow> int option" where "ri_min ix = ri_minmax ix MethMin"
definition ri_max :: "rangeindex \<Rightarrow> int option" where "ri_max ix = ri_minmax ix MethMax"

definition ri_any :: "rangeindex \<Rightarrow> bool" where
  "ri_any ix \<longleftrightarrow> (\<exists>x \<in> set (ri_values ix). x \<noteq> 0)"

definition ri_all :: "rangeindex \<Rightarrow> bool" where
  "ri_all ix \<longleftrightarrow> \<not> rmem 0 (ri_range ix)"

text \<open>\<open>isna\<close> and \<open>notna\<close> and their aliases; the source says \<open>notnull = isna\<close>.\<close>

definition ri_isna :: "rangeindex \<Rightarrow> bool list" where
  "ri_isna ix = replicate (ri_len ix) False"

definition ri_notna :: "rangeindex \<Rightarrow> bool list" where
  "ri_notna ix = replicate (ri_len ix) True"

definition ri_notnull :: "rangeindex \<Rightarrow> bool list" where
  "ri_notnull = ri_isna"

text \<open>The values of a range are unique: \<open>unique\<close>, \<open>nunique\<close>, \<open>drop_duplicates\<close>,
  \<open>duplicated\<close>.\<close>

definition ri_unique :: "rangeindex \<Rightarrow> rangeindex" where "ri_unique ix = ri_copy ix None"
definition ri_nunique :: "rangeindex \<Rightarrow> nat" where "ri_nunique ix = ri_len ix"
definition ri_drop_duplicates :: "rangeindex \<Rightarrow> rangeindex" where "ri_drop_duplicates ix = ix"
definition ri_duplicated :: "rangeindex \<Rightarrow> bool list" where
  "ri_duplicated ix = replicate (ri_len ix) False"

section \<open>Locating\<close>

text \<open>\<open>get_indexer\<close> of integer targets computes in the dtype of the target, which is given by its
  signedness and width: a Python integer that the dtype cannot hold raises OverflowError, and what the
  operations and the stores compute wraps.\<close>

definition ri_get_indexer :: "bool \<Rightarrow> nat \<Rightarrow> rangeindex \<Rightarrow> int list \<Rightarrow> int list res" where
  "ri_get_indexer signed bits ix target =
     (let (start, stop, step) =
            (if 0 < ri_step ix then (ri_start ix, ri_stop ix, ri_step ix)
             else (let rv = range_rev (ri_range ix) in (rstart rv, rstop rv, rstep rv)));
          wrap = wrap_dtype signed bits;
          reversed = (step \<noteq> ri_step ix);
          top = int (ri_len ix) - 1
      in if wrap start \<noteq> start \<or> wrap step \<noteq> step \<or> (reversed \<and> wrap top \<noteq> top) then Inl OverflowError
         else Inr (map (\<lambda>v.
           let loc = wrap (v - start);
               valid = (loc mod step = 0 \<and> 0 \<le> loc \<and> v < stop);
               loc = (if valid then wrap (loc div step) else wrap (- 1))
           in if reversed \<and> valid then wrap (top - loc) else loc) target))"

text \<open>\<open>get_loc\<close>: \<open>idx\<close> is the exact quotient \<open>(key - start) / step\<close>; comparing it with
  an integer bound \<open>u\<close> multiplies out by the step.\<close>

definition ri_get_loc :: "rangeindex \<Rightarrow> int \<Rightarrow> int res" where
  "ri_get_loc ix key =
     (let num = key - ri_start ix;
          upper = (ri_stop ix - ri_start ix) div ri_step ix;
          idx_gt = (\<lambda>u. if 0 < ri_step ix then u * ri_step ix < num else num < u * ri_step ix);
          idx_neg = (if 0 < ri_step ix then num < 0 else 0 < num)
      in if idx_gt upper \<or> idx_neg then Inl KeyError
         else if num div ri_step ix * ri_step ix \<noteq> num then Inl KeyError
         else Inr (num div ri_step ix))"

datatype side = SideLeft | SideRight | SideOther

definition ri_searchsorted :: "rangeindex \<Rightarrow> int \<Rightarrow> side \<Rightarrow> bool \<Rightarrow> int res" where
  "ri_searchsorted ix v side ascending =
     (if \<not> (ri_len ix \<le> 1 \<or> ascending = (0 < ri_step ix)) then Inl AssertionError
      else if side = SideOther then Inl ValueError
      else
        (let flip = (ri_step ix < 0);
             ri = (if flip then range_rev (ri_range ix) else ri_range ix);
             shift = (if flip then (if side = SideRight then 1 else 0)
                      else (if side = SideLeft then 1 else 0));
             offset = (v - rstart ri - shift) div rstep ri + 1;
             offset' = (if flip then int (rlen ri) - offset else offset)
         in Inr (max (min (int (rlen ri)) offset') 0)))"

text \<open>\<open>_indices_of\<close>: the position of a value, as a column of length at most one.\<close>

fun ri_indices_of :: "rangeindex \<Rightarrow> item \<Rightarrow> nat list res" where
  "ri_indices_of ix (IBool b) = Inl ValueError"
| "ri_indices_of ix (IInt i) =
     Inr (if rmem i (ri_range ix) then [nat ((i - ri_start ix) div ri_step ix)] else [])"
| "ri_indices_of ix (IFloat m k) =
     (let i = m div 2 ^ k in
      Inr (if i * 2 ^ k = m \<and> rmem i (ri_range ix)
           then [nat ((i - ri_start ix) div ri_step ix)] else []))"
| "ri_indices_of ix _ = Inr []"

section \<open>Ordering\<close>

datatype na_position = NaFirst | NaLast | NaOther

definition ri_flips :: "rangeindex \<Rightarrow> bool \<Rightarrow> bool" where
  "ri_flips ix ascending \<longleftrightarrow>
     (ascending \<and> ri_step ix < 0) \<or> (\<not> ascending \<and> 0 < ri_step ix)"

definition ri_argsort :: "rangeindex \<Rightarrow> bool \<Rightarrow> na_position \<Rightarrow> nat list res" where
  "ri_argsort ix ascending pos =
     (if pos = NaOther then Inl ValueError
      else if ri_flips ix ascending then Inr (rev [0..<ri_len ix])
      else Inr [0..<ri_len ix])"

definition ri_sort_values ::
  "rangeindex \<Rightarrow> bool \<Rightarrow> bool \<Rightarrow> na_position \<Rightarrow> bool \<Rightarrow> (rangeindex \<times> nat list option) res" where
  "ri_sort_values ix return_indexer ascending pos has_key =
     (if has_key then Inl NotImplementedError
      else if pos = NaOther then Inl ValueError
      else
        (let sorted_index = (if ri_flips ix ascending then ri_reverse ix else ix) in
         if return_indexer
         then rbind (ri_argsort ix ascending pos) (\<lambda>p. Inr (sorted_index, Some p))
         else Inr (sorted_index, None)))"

text \<open>\<open>sort_values()\<close> with its defaults.\<close>

definition ri_sorted :: "rangeindex \<Rightarrow> rangeindex" where
  "ri_sorted ix = (if ri_flips ix True then ri_reverse ix else ix)"

definition ri_factorize :: "rangeindex \<Rightarrow> bool \<Rightarrow> nat list \<times> rangeindex" where
  "ri_factorize ix srt =
     (if srt \<and> ri_step ix < 0 then (rev [0..<ri_len ix], ri_reverse ix)
      else ([0..<ri_len ix], ix))"

section \<open>Arithmetic\<close>

text \<open>The operand of a binary operation: an int, a Python bool (a subclass of int), a
  zero-dimensional integer array (read with \<open>item()\<close>), or anything else.\<close>

datatype operand = OInt int | OBool bool | OArray0 int | OOther

datatype binop = OpAdd | OpRAdd | OpSub | OpRSub | OpMul | OpRMul | OpFloorDiv | OpOther

fun ri_binop_int :: "rangeindex \<Rightarrow> int \<Rightarrow> bool \<Rightarrow> operand \<Rightarrow> binop \<Rightarrow> operand outcome res" where
  "ri_binop_int ix k is_bool other op =
     (if op = OpAdd \<or> op = OpRAdd
      then rbind (new_range_index (ri_start ix + k) (ri_stop ix + k) (ri_step ix) (ri_name ix)) (Inr \<circ> Ranged)
      else if op = OpSub
      then rbind (new_range_index (ri_start ix - k) (ri_stop ix - k) (ri_step ix) (ri_name ix)) (Inr \<circ> Ranged)
      else if op = OpRSub
      then rbind (new_range_index (k - ri_start ix) (k - ri_stop ix) (- ri_step ix) (ri_name ix)) (Inr \<circ> Ranged)
      else if op = OpMul \<or> op = OpRMul
      then (if k \<noteq> 0
            then rbind (new_range_index (ri_start ix * k) (ri_stop ix * k) (ri_step ix * k) (ri_name ix)) (Inr \<circ> Ranged)
            else Inr (Fallback (OInt k)))
      else if op = OpFloorDiv \<and> k \<noteq> 0 \<and> \<not> is_bool
      then (if ri_len ix = 0 \<or> (ri_start ix mod k = 0 \<and> ri_step ix mod k = 0)
            then (let start = ri_start ix div k; step = ri_step ix div k;
                      stop = start + int (ri_len ix) * step
                  in rbind (new_range_index start stop (if step = 0 then 1 else step) (ri_name ix)) (Inr \<circ> Ranged))
            else if ri_len ix = 1
            then (let start = ri_start ix div k
                  in rbind (new_range_index start (start + 1) 1 (ri_name ix)) (Inr \<circ> Ranged))
            else Inr (Fallback other))
      else Inr (Fallback other))"

fun ri_binaryop :: "rangeindex \<Rightarrow> operand \<Rightarrow> binop \<Rightarrow> operand outcome res" where
  "ri_binaryop ix (OInt k) op = ri_binop_int ix k False (OInt k) op"
| "ri_binaryop ix (OArray0 k) op = ri_binop_int ix k False (OInt k) op"
| "ri_binaryop ix (OBool b) op = ri_binop_int ix (if b then 1 else 0) True (OBool b) op"
| "ri_binaryop ix OOther op = Inr (Fallback OOther)"

definition ri_neg :: "rangeindex \<Rightarrow> rangeindex" where
  "ri_neg ix = of_range \<lparr>rstart = - ri_start ix, rstop = - ri_stop ix, rstep = - ri_step ix\<rparr> (ri_name ix)"

definition ri_invert :: "rangeindex \<Rightarrow> rangeindex" where
  "ri_invert ix =
     (if ri_len ix = 0 then ri_copy ix None
      else of_range \<lparr>rstart = - ri_start ix - 1, rstop = - ri_stop ix - 1, rstep = - ri_step ix\<rparr> (ri_name ix))"

definition ri_abs :: "rangeindex \<Rightarrow> unit outcome" where
  "ri_abs ix =
     (if ri_len ix = 0 \<or> (case ri_min ix of Some m \<Rightarrow> 0 \<le> m | None \<Rightarrow> False) then Ranged (ri_copy ix None)
      else if (case ri_max ix of Some m \<Rightarrow> m \<le> 0 | None \<Rightarrow> False) then Ranged (ri_neg ix)
      else Fallback ())"

section \<open>Set operations\<close>

fun result_name :: "string option \<Rightarrow> string option \<Rightarrow> string option" where
  "result_name left right = (if left = right then left else None)"

definition reconciled_name :: "rangeindex \<Rightarrow> string option \<Rightarrow> rangeindex" where
  "reconciled_name ix other_name =
     (let name = result_name (ri_name ix) other_name in
      if ri_name ix \<noteq> name then ix\<lparr>ri_name := name\<rparr> else ix)"

text \<open>\<open>_extended_gcd\<close>: Euclid's algorithm with floor division.  Each turn replaces \<open>r\<close>
  by \<open>old_r mod r\<close>, which is smaller in absolute value.\<close>

function egcd_loop :: "int \<Rightarrow> int \<Rightarrow> int \<Rightarrow> int \<Rightarrow> int \<Rightarrow> int \<Rightarrow> int \<times> int \<times> int" where
  "egcd_loop old_r r old_s s old_t t =
     (if r = 0 then (old_r, old_s, old_t)
      else (let quotient = old_r div r in
            egcd_loop r (old_r - quotient * r) s (old_s - quotient * s) t (old_t - quotient * t)))"
  by pat_completeness auto
termination
  by (relation "measure (\<lambda>(old_r, r, _). nat \<bar>r\<bar>)")
    (auto simp: minus_div_mult_eq_mod abs_mod_less)

declare egcd_loop.simps [simp del]

definition extended_gcd :: "int \<Rightarrow> int \<Rightarrow> int \<times> int \<times> int" where
  "extended_gcd a b = egcd_loop a b 1 0 0 1"

text \<open>\<open>_try_reconstruct_range_index\<close> on a materialised integer index: its values,
  whether it has nulls, the signedness and width of its dtype, and its name.  The
  differences and \<open>index[-1] + diff\<close> are computed in that dtype and wrap around.  None:
  the index is returned as it is.\<close>

definition try_reconstruct ::
  "int list \<Rightarrow> bool \<Rightarrow> bool \<Rightarrow> nat \<Rightarrow> string option \<Rightarrow> rangeindex option" where
  "try_reconstruct vals has_nulls signed bits name =
     (if has_nulls then None
      else if 1 < length vals
      then (case remdups (dtype_diffs signed bits vals) of
              [diff] \<Rightarrow> (if diff \<noteq> 0
                 then Some (of_range \<lparr>rstart = hd vals,
                                     rstop = wrap_dtype signed bits (last vals + diff),
                                     rstep = diff\<rparr> name)
                 else None)
            | _ \<Rightarrow> None)
      else if signed \<and> bits = 64
      then (case vals of
              [] \<Rightarrow> Some (of_range empty_range name)
            | start # _ \<Rightarrow>
                if start < 2 ^ 63 - 1
                then Some (of_range \<lparr>rstart = start, rstop = start + 1, rstep = 1\<rparr> name)
                else None)
      else None)"

type_synonym sort_arg = "bool option"

text \<open>The bounds \<open>_union\<close> computes with: start, last element and step of each operand,
  turned into ascending form, with the step of a one-element operand taken from the other.\<close>

definition union_ascending :: "rangeindex \<Rightarrow> int \<times> int \<times> int" where
  "union_ascending ix =
     (let last_el = ri_start ix + ri_step ix * (int (ri_len ix) - 1) in
      if ri_step ix < 0 then (last_el, - ri_step ix, ri_start ix)
      else (ri_start ix, ri_step ix, last_el))"

definition union_params :: "rangeindex \<Rightarrow> rangeindex \<Rightarrow> (int \<times> int \<times> int) \<times> (int \<times> int \<times> int)" where
  "union_params ix other =
     (let (start_s, step_s, end_s) = union_ascending ix;
          (start_o, step_o, end_o) = union_ascending other;
          (step_s', step_o') =
            (if ri_len ix = 1 \<and> ri_len other = 1
             then (\<bar>ri_start ix - ri_start other\<bar>, \<bar>ri_start ix - ri_start other\<bar>)
             else if ri_len ix = 1 then (step_o, step_o)
             else if ri_len other = 1 then (step_s, step_s)
             else (step_s, step_o))
      in ((start_s, step_s', end_s), (start_o, step_o', end_o)))"

text \<open>The range found by the case analysis, if any.  The last case calls
  \<open>type(self)(start_r, end_r + step_s / 2, step_s / 2)\<close>, whose float arguments the
  constructor's \<open>validate_range_arg\<close> rejects.\<close>

definition union_fast :: "rangeindex \<Rightarrow> rangeindex \<Rightarrow> rangeindex option res" where
  "union_fast ix other =
     (let ((start_s, step_s, end_s), (start_o, step_o, end_o)) = union_params ix other;
          start_r = min start_s start_o;
          end_r = max end_s end_o;
          min_step = min step_o step_s;
          found = (\<lambda>a b k. rbind (new_range_index a b k None) (Inr \<circ> Some))
      in if min_step = 0 then Inl ZeroDivisionError
         else if (start_s - start_o) mod min_step = 0
         then (if step_o = step_s \<and> start_s - end_o \<le> step_s \<and> start_o - end_s \<le> step_s
               then found start_r (end_r + step_s) step_s
               else if step_o mod step_s = 0 \<and> start_s \<le> start_o + step_s \<and> end_o - step_s \<le> end_s
               then found start_r (end_r + step_s) step_s
               else if step_s mod step_o = 0 \<and> start_o \<le> start_s + step_o \<and> end_s - step_o \<le> end_o
               then found start_r (end_r + step_o) step_o
               else Inr None)
         else if step_o = step_s \<and> step_s mod 2 = 0
                 \<and> 2 * \<bar>start_s - start_o\<bar> \<le> step_s \<and> 2 * \<bar>end_s - end_o\<bar> \<le> step_s
         then rbind (range_index_init (StartScalar (Some (SInt start_r))) (Some SNonInt) (Some SNonInt)
                       None True None) (Inr \<circ> Some)
         else Inr None)"

definition ri_union :: "rangeindex \<Rightarrow> rangeindex \<Rightarrow> sort_arg \<Rightarrow> rangeindex outcome res" where
  "ri_union ix other srt =
     rbind (union_fast ix other) (\<lambda>found.
       case found of
         None \<Rightarrow> Inr (Fallback other)
       | Some result \<Rightarrow>
           Inr (Ranged (if srt \<noteq> Some False \<and> \<not> ri_is_monotonic_increasing result
                        then ri_sorted result else result)))"

definition ri_intersection :: "rangeindex \<Rightarrow> rangeindex \<Rightarrow> sort_arg \<Rightarrow> rangeindex" where
  "ri_intersection ix other srt =
     (let empty = of_range empty_range None in
      if ri_len ix = 0 \<or> ri_len other = 0 then empty
      else
        (let first = (if ri_step ix < 0 then range_rev (ri_range ix) else ri_range ix);
             second = (if ri_step other < 0 then range_rev (ri_range other) else ri_range other);
             int_low = max (rstart first) (rstart second);
             int_high = min (rstop first) (rstop second)
         in if int_high \<le> int_low then empty
            else
              (let (gcd, s, _) = extended_gcd (rstep first) (rstep second) in
               if (rstart first - rstart second) mod gcd \<noteq> 0 then empty
               else
                 (let tmp_start = rstart first + ((rstart second - rstart first) * rstep first) div gcd * s;
                      new_step = (rstep first * rstep second) div gcd;
                      no_steps = - ((- (int_low - tmp_start)) div \<bar>new_step\<bar>);
                      new_start = tmp_start + \<bar>new_step\<bar> * no_steps;
                      new_index = of_range \<lparr>rstart = new_start, rstop = int_high, rstep = new_step\<rparr> None;
                      new_index' = (if (ri_step ix < 0 \<and> ri_step other < 0) \<noteq> (ri_step new_index < 0)
                                    then ri_reverse new_index else new_index)
                  in if srt \<noteq> Some False then ri_sorted new_index' else new_index'))))"

definition ri_difference :: "rangeindex \<Rightarrow> rangeindex \<Rightarrow> rangeindex outcome" where
  "ri_difference ix other =
     (if req (ri_range ix) (ri_range other)
      then Ranged (reconciled_name (ri_take0 ix) (ri_name other))
      else Fallback other)"

text \<open>\<open>append\<close>: only an empty other operand is decided here.\<close>

definition ri_append :: "rangeindex \<Rightarrow> nat \<Rightarrow> unit outcome" where
  "ri_append ix n = (if n = 0 then Ranged (ri_copy ix None) else Fallback ())"

text \<open>\<open>_concat_range_index\<close>: the loop variables are \<open>start\<close>, \<open>step\<close> and \<open>next_\<close>; the
  answer None is the fallback to concatenated columns.\<close>

fun concat_loop ::
  "int option \<Rightarrow> int option \<Rightarrow> int option \<Rightarrow> rangeindex list
   \<Rightarrow> (int option \<times> int option \<times> int option) option" where
  "concat_loop start step next [] = Some (start, step, next)"
| "concat_loop start step next (obj # objs) =
     (let init = (case start of
            None \<Rightarrow> Some (ri_start obj, if step = None \<and> 1 < ri_len obj then Some (ri_step obj) else step)
          | Some a \<Rightarrow>
              (case step of
                 None \<Rightarrow> (if ri_start obj = a then None else Some (a, Some (ri_start obj - a)))
               | Some k \<Rightarrow> Some (a, Some k)))
      in case init of
           None \<Rightarrow> None
         | Some (a, k) \<Rightarrow>
             if (k \<noteq> Some (ri_step obj) \<and> 1 < ri_len obj)
                \<or> (case next of None \<Rightarrow> False | Some n \<Rightarrow> ri_start obj \<noteq> n)
             then None
             else concat_loop (Some a) k
                    (case k of
                       None \<Rightarrow> next
                     | Some s \<Rightarrow> Some (ri_start obj + ri_step obj * (int (ri_len obj) - 1) + s)) objs)"

definition concat_range_index :: "rangeindex list \<Rightarrow> rangeindex option res" where
  "concat_range_index indexes =
     (let non_empty = filter (\<lambda>obj. ri_len obj \<noteq> 0) indexes in
      if non_empty = [] then Inr (Some (of_range empty_range None))
      else
        (case concat_loop None None None non_empty of
           None \<Rightarrow> Inr None
         | Some (start, step, next) \<Rightarrow>
             rbind (new_range_index (case start of None \<Rightarrow> 0 | Some a \<Rightarrow> a)
                      (case next of None \<Rightarrow> ri_stop (last non_empty) | Some n \<Rightarrow> n)
                      (case step of None \<Rightarrow> 1 | Some k \<Rightarrow> k) None) (Inr \<circ> Some)))"

section \<open>Serialisation\<close>

record ri_header =
  h_start :: int
  h_stop :: int
  h_step :: "int option"
  h_name :: "string option"
  h_dtype_signed :: bool
  h_frame_count :: nat

definition ri_serialize :: "rangeindex \<Rightarrow> ri_header" where
  "ri_serialize ix = \<lparr>h_start = ri_start ix, h_stop = ri_stop ix, h_step = Some (ri_step ix),
     h_name = ri_name ix, h_dtype_signed = True, h_frame_count = 0\<rparr>"

definition ri_deserialize :: "ri_header \<Rightarrow> rangeindex res" where
  "ri_deserialize h =
     range_index_init (StartScalar (Some (SInt (h_start h)))) (Some (SInt (h_stop h)))
       (Some (SInt (case h_step h of None \<Rightarrow> 1 | Some k \<Rightarrow> k))) (Some (h_dtype_signed h)) True (h_name h)"

section \<open>Well-formedness\<close>

definition ri_ok :: "rangeindex \<Rightarrow> bool" where
  "ri_ok ix \<longleftrightarrow> range_ok (ri_range ix)"

lemma of_range_simps [simp]:
  "ri_range (of_range r n) = r" "ri_name (of_range r n) = n"
  "of_range (ri_range ix) (ri_name ix) = ix"
  by (simp_all add: of_range_def)

lemma new_range_index_simp:
  "new_range_index a b k name =
     (if k = 0 then Inl ValueError else Inr (of_range \<lparr>rstart = a, rstop = b, rstep = k\<rparr> name))"
  by (simp add: new_range_index_def mk_range_def of_range_def)

lemma rlist_affine:
  assumes "k \<noteq> 0" and "st \<noteq> 0"
  shows "rlist \<lparr>rstart = c + a * k, rstop = c + b * k, rstep = k * st\<rparr>
       = map (\<lambda>x. c + x * k) (rlist \<lparr>rstart = a, rstop = b, rstep = st\<rparr>)"
  unfolding rlist_def rlen_scale [OF assms] by (simp add: algebra_simps)

lemma rlist_shift:
  "range_ok r \<Longrightarrow> rlist \<lparr>rstart = rstart r + c, rstop = rstop r + c, rstep = rstep r\<rparr> = map (\<lambda>x. x + c) (rlist r)"
  using rlist_affine [of 1 "rstep r" c "rstart r" "rstop r"] by (simp add: range_ok_def add.commute)

lemma rlist_scale:
  "range_ok r \<Longrightarrow> k \<noteq> 0 \<Longrightarrow>
   rlist \<lparr>rstart = rstart r * k, rstop = rstop r * k, rstep = rstep r * k\<rparr> = map (\<lambda>x. x * k) (rlist r)"
  using rlist_affine [of k "rstep r" 0 "rstart r" "rstop r"] by (simp add: range_ok_def mult.commute)

lemma rlist_flip:
  "range_ok r \<Longrightarrow> rlist \<lparr>rstart = c - rstart r, rstop = c - rstop r, rstep = - rstep r\<rparr> = map (\<lambda>x. c - x) (rlist r)"
  using rlist_affine [of "- 1" "rstep r" c "rstart r" "rstop r"] by (simp add: range_ok_def)

lemma rlen_exact: "s \<noteq> 0 \<Longrightarrow> rlen \<lparr>rstart = a, rstop = a + int n * s, rstep = s\<rparr> = n" (is "_ \<Longrightarrow> rlen ?r = n")
proof -
  assume s: "s \<noteq> 0"
  have "i < rlen ?r \<longleftrightarrow> i < n" for i
  proof (cases "0 < s")
    case True
    then show ?thesis by (simp add: rlen_up)
  next
    case False
    with s have "s < 0" by simp
    then show ?thesis by (simp add: rlen_down)
  qed
  then show ?thesis by (meson linorder_neqE_nat less_irrefl)
qed

lemma rlist_exact:
  "s \<noteq> 0 \<Longrightarrow> rlist \<lparr>rstart = a, rstop = a + int n * s, rstep = s\<rparr> = map (\<lambda>i. a + int i * s) [0..<n]"
  by (simp add: rlist_def rlen_exact)

lemma ri_reverse_values: "ri_ok ix \<Longrightarrow> ri_values (ri_reverse ix) = rev (ri_values ix)"
  by (simp add: ri_reverse_def ri_ok_def rlist_range_rev)

lemma ri_reverse_ok [simp]: "ri_ok (ri_reverse ix) = ri_ok ix"
  by (simp add: ri_reverse_def ri_ok_def)

lemma ri_reverse_getitem:
  "ri_getitem ix (XSlice slice_reverse) = Inr (GotIndex (ri_reverse ix))"
  by (simp add: range_slice_reverse ri_reverse_def)

lemma ri_take0_getitem:
  "ri_getitem ix (XSlice slice_empty) = Inr (GotIndex (ri_take0 ix))"
  by (simp add: range_slice_def slice_indices_def slice_empty_def ri_take0_def clip_bound_def Let_def)

section \<open>Arithmetic stays elementwise\<close>

fun binop_value :: "binop \<Rightarrow> int \<Rightarrow> int \<Rightarrow> int option" where
  "binop_value OpAdd x k = Some (x + k)"
| "binop_value OpRAdd x k = Some (k + x)"
| "binop_value OpSub x k = Some (x - k)"
| "binop_value OpRSub x k = Some (k - x)"
| "binop_value OpMul x k = Some (x * k)"
| "binop_value OpRMul x k = Some (k * x)"
| "binop_value OpFloorDiv x k = (if k = 0 then None else Some (x div k))"
| "binop_value OpOther x k = None"

fun operand_value :: "operand \<Rightarrow> int option" where
  "operand_value (OInt k) = Some k"
| "operand_value (OBool b) = Some (if b then 1 else 0)"
| "operand_value (OArray0 k) = Some k"
| "operand_value OOther = None"

lemma floordiv_exact:
  assumes ok: "range_ok r" and k: "k \<noteq> 0"
    and "rlen r = 0 \<or> (rstart r mod k = 0 \<and> rstep r mod k = 0)"
    and st: "st = rstep r div k"
  shows "rlist \<lparr>rstart = rstart r div k, rstop = rstart r div k + int (rlen r) * st,
                rstep = (if st = 0 then 1 else st)\<rparr> = map (\<lambda>x. x div k) (rlist r)"
proof (cases "rlen r = 0")
  case True
  then have "rlist \<lparr>rstart = rstart r div k, rstop = rstart r div k + int (rlen r) * st,
                rstep = (if st = 0 then 1 else st)\<rparr> = []"
    using rlen_exact [of "if st = 0 then 1 else st" "rstart r div k" 0] by simp
  moreover have "rlist r = []" using True by simp
  ultimately show ?thesis by (simp only: list.map)
next
  case False
  with assms have m: "rstart r mod k = 0" "rstep r mod k = 0" by auto
  then obtain a s where a: "rstart r = k * a" and s: "rstep r = k * s" by (auto elim!: dvdE simp: mod_eq_0_iff_dvd)
  with k ok st have st': "st = s" "s \<noteq> 0" by (auto simp: range_ok_def)
  have "(rstart r + int i * rstep r) div k = a + int i * s" for i
  proof -
    have "rstart r + int i * rstep r = k * (a + int i * s)" by (simp add: a s algebra_simps)
    then show ?thesis using k by simp
  qed
  then show ?thesis using st' a k by (simp add: rlist_exact) (simp add: rlist_def)
qed

lemma ri_binop_int_values:
  assumes ok: "ri_ok ix" and res: "ri_binop_int ix k is_bool other op = Inr (Ranged r)"
  shows "map (\<lambda>x. binop_value op x k) (ri_values ix) = map Some (ri_values r)"
    and "ri_name r = ri_name ix" and "ri_ok r"
proof -
  have r0: "range_ok (ri_range ix)" "ri_step ix \<noteq> 0" using ok by (auto simp: ri_ok_def range_ok_def)
  have *: "map (\<lambda>x. binop_value op x k) (ri_values ix) = map Some (ri_values r)
     \<and> ri_name r = ri_name ix \<and> ri_ok r"
  proof (cases op)
    case OpFloorDiv
    then have k: "k \<noteq> 0" using res by (auto split: if_splits)
    show ?thesis
    proof (cases "ri_len ix = 0 \<or> (ri_start ix mod k = 0 \<and> ri_step ix mod k = 0)")
      case True
      then have r: "r = of_range \<lparr>rstart = ri_start ix div k,
          rstop = ri_start ix div k + int (ri_len ix) * (ri_step ix div k),
          rstep = (if ri_step ix div k = 0 then 1 else ri_step ix div k)\<rparr> (ri_name ix)"
        using res OpFloorDiv k by (auto simp: new_range_index_simp Let_def split: if_splits)
      show ?thesis
        using floordiv_exact [OF r0(1) k True refl] k OpFloorDiv by (simp add: r ri_ok_def range_ok_def)
    next
      case False
      then have one: "ri_len ix = 1"
        and r: "r = of_range \<lparr>rstart = ri_start ix div k, rstop = ri_start ix div k + 1, rstep = 1\<rparr> (ri_name ix)"
        using res OpFloorDiv k by (auto simp: new_range_index_simp Let_def split: if_splits)
      have "ri_values r = [ri_start ix div k]"
        using rlist_exact [of 1 "ri_start ix div k" 1] by (simp add: r)
      moreover have "ri_values ix = [ri_start ix]" using one by (simp add: rlist_def)
      ultimately show ?thesis using k OpFloorDiv by (simp add: r ri_ok_def range_ok_def)
    qed
  next
    case OpAdd
    then show ?thesis using res r0 by (auto simp: new_range_index_simp ri_ok_def range_ok_def rlist_shift)
  next
    case OpRAdd
    then show ?thesis using res r0 rlist_shift [OF r0(1), of k]
      by (auto simp: new_range_index_simp ri_ok_def range_ok_def add.commute)
  next
    case OpSub
    then show ?thesis using res r0 rlist_shift [OF r0(1), of "- k"]
      by (auto simp: new_range_index_simp ri_ok_def range_ok_def)
  next
    case OpRSub
    then show ?thesis using res r0 rlist_flip [OF r0(1), of k]
      by (auto simp: new_range_index_simp ri_ok_def range_ok_def)
  next
    case OpMul
    then show ?thesis using res r0 rlist_scale [OF r0(1), of k]
      by (auto simp: new_range_index_simp ri_ok_def range_ok_def split: if_splits)
  next
    case OpRMul
    then show ?thesis using res r0 rlist_scale [OF r0(1), of k]
      by (auto simp: new_range_index_simp ri_ok_def range_ok_def mult.commute split: if_splits)
  next
    case OpOther
    then show ?thesis using res by auto
  qed
  show "map (\<lambda>x. binop_value op x k) (ri_values ix) = map Some (ri_values r)" using * by simp
  show "ri_name r = ri_name ix" using * by simp
  show "ri_ok r" using * by simp
qed

section \<open>Locating values\<close>

lemma index_of_rlist:
  assumes "range_ok r" and "x \<in> set (rlist r)"
  shows "0 \<le> (x - rstart r) div rstep r" and "(x - rstart r) div rstep r < int (rlen r)"
    and "rlist r ! nat ((x - rstart r) div rstep r) = x"
    and "(x - rstart r) mod rstep r = 0"
proof -
  obtain i where i: "i < rlen r" "x = rstart r + int i * rstep r"
    using assms(2) by (auto simp: rlist_def)
  have "(x - rstart r) div rstep r = int i" using assms(1) i by (simp add: range_ok_def)
  then show "0 \<le> (x - rstart r) div rstep r" and "(x - rstart r) div rstep r < int (rlen r)"
    and "rlist r ! nat ((x - rstart r) div rstep r) = x" and "(x - rstart r) mod rstep r = 0"
    using i by simp_all
qed

lemma div_exact_iff: "(num::int) div k * k = num \<longleftrightarrow> num mod k = 0"
  by (metis add.right_neutral add_left_imp_eq div_mult_mod_eq)

text \<open>The quotient bound of \<open>get_loc\<close>, multiplied out.\<close>

lemma get_loc_spec:
  assumes "ri_ok ix"
  shows "ri_get_loc ix key =
    (let d = (key - ri_start ix) div ri_step ix in
     if (key - ri_start ix) mod ri_step ix = 0 \<and> 0 \<le> d \<and> d \<le> (ri_stop ix - ri_start ix) div ri_step ix
     then Inr d else Inl KeyError)"
proof (cases "(key - ri_start ix) mod ri_step ix = 0")
  case True
  then obtain d where d: "key - ri_start ix = d * ri_step ix"
    by (metis div_exact_iff)
  have nz: "ri_step ix \<noteq> 0" using assms by (simp add: ri_ok_def range_ok_def)
  have lt: "0 < ri_step ix \<Longrightarrow> (u * ri_step ix < d * ri_step ix) = (u < d)"
    "ri_step ix < 0 \<Longrightarrow> (d * ri_step ix < u * ri_step ix) = (u < d)" for u
    by (simp_all add: mult_less_cancel_right_disj)
  show ?thesis
    using nz lt [of 0] lt [of "(ri_stop ix - ri_start ix) div ri_step ix"] True
    by (cases "0 < ri_step ix") (auto simp: ri_get_loc_def d Let_def)
next
  case False
  then show ?thesis by (auto simp: ri_get_loc_def Let_def div_exact_iff)
qed

lemma get_loc_cases:
  assumes ok: "ri_ok ix"
  shows "ri_get_loc ix key =
    (if key \<in> set (ri_values ix)
        \<or> (key = ri_stop ix \<and> (ri_stop ix - ri_start ix) mod ri_step ix = 0
            \<and> 0 \<le> (ri_stop ix - ri_start ix) div ri_step ix)
     then Inr ((key - ri_start ix) div ri_step ix) else Inl KeyError)"
proof (cases "(key - ri_start ix) mod ri_step ix = 0")
  case True
  then obtain d where d: "key - ri_start ix = d * ri_step ix" by (metis div_exact_iff)
  then have key: "key = ri_start ix + d * ri_step ix" by simp
  consider "0 < ri_step ix" | "ri_step ix < 0" using ok by (fastforce simp: ri_ok_def range_ok_def)
  then show ?thesis
  proof cases
    case 1
    have "d \<le> (ri_stop ix - ri_start ix) div ri_step ix \<longleftrightarrow> key \<le> ri_stop ix"
      using 1 by (simp add: le_div_iff_int key) linarith
    moreover have "0 \<le> d \<longleftrightarrow> ri_start ix \<le> key" using 1 by (simp add: key zero_le_mult_iff)
    moreover have "key \<in> set (ri_values ix) \<longleftrightarrow> ri_start ix \<le> key \<and> key < ri_stop ix"
      using 1 d by (simp add: mem_rlist_up)
    moreover have "(key - ri_start ix) div ri_step ix = d" using 1 d by simp
    ultimately show ?thesis
      using True by (auto simp: get_loc_spec [OF ok] Let_def)
  next
    case 2
    have "d \<le> (ri_stop ix - ri_start ix) div ri_step ix \<longleftrightarrow> ri_stop ix \<le> key"
    proof -
      have "(ri_stop ix - ri_start ix) div ri_step ix = (ri_start ix - ri_stop ix) div (- ri_step ix)"
        using div_minus_minus [of "ri_start ix - ri_stop ix" "- ri_step ix"] by simp
      then show ?thesis using 2 by (simp add: le_div_iff_int key) linarith
    qed
    moreover have "0 \<le> d \<longleftrightarrow> key \<le> ri_start ix"
      using 2 by (simp add: key mult_le_0_iff)
    moreover have "key \<in> set (ri_values ix) \<longleftrightarrow> ri_stop ix < key \<and> key \<le> ri_start ix"
      using 2 d by (simp add: mem_rlist_down)
    moreover have "(key - ri_start ix) div ri_step ix = d" using 2 d by simp
    ultimately show ?thesis
      using True by (auto simp: get_loc_spec [OF ok] Let_def)
  qed
next
  case False
  then have "key \<notin> set (ri_values ix)" using index_of_rlist(4) [of "ri_range ix" key] ok
    by (auto simp: ri_ok_def)
  with False show ?thesis by (auto simp: get_loc_spec [OF ok] Let_def)
qed

text \<open>The first position of a value, or \<open>- 1\<close>.\<close>

fun position_of :: "int list \<Rightarrow> int \<Rightarrow> int" where
  "position_of xs v = (if v \<in> set xs then int (length (takeWhile (\<lambda>x. x \<noteq> v) xs)) else - 1)"

lemma position_of_rlist:
  assumes "range_ok r" and "v \<in> set (rlist r)"
  shows "position_of (rlist r) v = (v - rstart r) div rstep r"
proof -
  let ?i = "nat ((v - rstart r) div rstep r)"
  note i = index_of_rlist [OF assms]
  have lt: "?i < rlen r" using i(1,2) by linarith
  have split: "rlist r = take ?i (rlist r) @ v # drop (Suc ?i) (rlist r)"
    using lt i(3) id_take_nth_drop [of ?i "rlist r"] by simp
  have "v \<notin> set (take ?i (rlist r))"
    using distinct_rlist [OF assms(1)] split
    by (metis distinct_append distinct.simps(2) disjoint_iff list.set_intros(1))
  then have "takeWhile (\<lambda>x. x \<noteq> v) (take ?i (rlist r) @ v # drop (Suc ?i) (rlist r)) = take ?i (rlist r)"
    by (subst takeWhile_append2) auto
  then have "takeWhile (\<lambda>x. x \<noteq> v) (rlist r) = take ?i (rlist r)" using split by simp
  then show ?thesis using assms(2) lt i(1) by simp
qed

text \<open>The position by the arithmetic of \<open>get_indexer\<close> without a bound on the integers.\<close>

definition exact_position :: "rangeindex \<Rightarrow> int \<Rightarrow> int" where
  "exact_position ix v =
     (let r = (if 0 < ri_step ix then ri_range ix else range_rev (ri_range ix));
          loc = v - rstart r
      in if \<not> (loc mod rstep r = 0 \<and> 0 \<le> loc \<and> v < rstop r) then - 1
         else if 0 < ri_step ix then loc div rstep r else int (ri_len ix) - 1 - loc div rstep r)"

lemma exact_position_correct:
  assumes ok: "ri_ok ix"
  shows "exact_position ix v = position_of (ri_values ix) v"
proof -
  let ?r = "ri_range ix" and ?rv = "range_rev (ri_range ix)"
  have r: "range_ok ?r" using ok by (simp add: ri_ok_def)
  have pos: "position_of (rlist ?r) v = (if v \<in> set (rlist ?r) then (v - rstart ?r) div rstep ?r else - 1)"
    using position_of_rlist [OF r] by auto
  consider "0 < ri_step ix" | "ri_step ix < 0" using r by (fastforce simp: range_ok_def)
  then show ?thesis
  proof cases
    case 1
    then have "(v - ri_start ix) mod ri_step ix = 0 \<and> 0 \<le> v - ri_start ix \<and> v < ri_stop ix \<longleftrightarrow> v \<in> set (rlist ?r)"
      by (auto simp: mem_rlist_up)
    then show ?thesis using 1 pos by (auto simp: exact_position_def Let_def simp del: position_of.simps)
  next
    case 2
    have mem: "(v - rstart ?rv) mod rstep ?rv = 0 \<and> 0 \<le> v - rstart ?rv \<and> v < rstop ?rv \<longleftrightarrow> v \<in> set (rlist ?r)"
      using 2 rlist_range_rev [OF r] mem_rlist_up [of ?rv v] by (auto simp del: range_rev_simps(1,2))
    have idx: "v \<in> set (rlist ?r) \<Longrightarrow>
       int (rlen ?r) - 1 - (v - rstart ?rv) div rstep ?rv = (v - rstart ?r) div rstep ?r"
    proof -
      assume "v \<in> set (rlist ?r)"
      then obtain i where v: "v = rstart ?r + int i * rstep ?r" by (auto simp: rlist_def)
      have "v - rstart ?rv = (int (rlen ?r) - 1 - int i) * rstep ?rv" by (simp add: v algebra_simps)
      then show ?thesis using 2 by (simp add: v)
    qed
    show ?thesis using 2 pos mem idx
      by (auto simp: exact_position_def Let_def simp del: position_of.simps range_rev_simps(1,2))
  qed
qed

lemma position_of_bounds: "- 1 \<le> position_of xs v \<and> position_of xs v < int (length xs)"
  by (induction xs) auto

text \<open>The first value of the ascending view of a range.\<close>

definition least_value :: "rangeindex \<Rightarrow> int" where
  "least_value ix = (if 0 < ri_step ix then ri_start ix else rstart (range_rev (ri_range ix)))"

definition holds_signed :: "nat \<Rightarrow> int \<Rightarrow> bool" where
  "holds_signed bits x \<longleftrightarrow> - (2 ^ (bits - 1)) \<le> x \<and> x < 2 ^ (bits - 1)"

lemma get_indexer_positions:
  assumes ok: "ri_ok ix" and bits: "0 < bits"
    and fits: "holds_signed bits (least_value ix)" "holds_signed bits \<bar>ri_step ix\<bar>" "holds_signed bits (int (ri_len ix))"
    and target: "\<forall>v \<in> set target. holds_signed bits (v - least_value ix)"
  shows "ri_get_indexer True bits ix target = Inr (map (position_of (ri_values ix)) target)"
proof -
  have wrap: "holds_signed bits x \<Longrightarrow> wrap_dtype True bits x = x" for x
    using wrap_dtype_signed [OF bits] by (simp add: holds_signed_def)
  define r where "r = (if 0 < ri_step ix then ri_range ix else range_rev (ri_range ix))"
  define top where "top = int (ri_len ix) - 1"
  have nz: "ri_step ix \<noteq> 0" using ok by (simp add: ri_ok_def range_ok_def)
  then have step: "0 < rstep r" "rstep r = \<bar>ri_step ix\<bar>" by (auto simp: r_def range_rev_def)
  have start: "rstart r = least_value ix" by (simp add: r_def least_value_def)
  have "(1 :: int) \<le> 2 ^ (bits - 1)" by simp
  then have one: "holds_signed bits (- 1)" and topf: "holds_signed bits top"
    using fits(3) unfolding holds_signed_def top_def by linarith+
  have rev: "rstep r \<noteq> ri_step ix \<longleftrightarrow> \<not> 0 < ri_step ix" using nz step(2) by auto
  have val: "(let loc = wrap_dtype True bits (v - rstart r);
               valid = (loc mod rstep r = 0 \<and> 0 \<le> loc \<and> v < rstop r);
               loc = (if valid then wrap_dtype True bits (loc div rstep r) else wrap_dtype True bits (- 1))
           in if rstep r \<noteq> ri_step ix \<and> valid then wrap_dtype True bits (top - loc) else loc) = position_of (ri_values ix) v"
    if v: "v \<in> set target" for v
  proof -
    define loc where "loc = v - rstart r"
    have lf: "holds_signed bits loc" using target v by (simp add: loc_def start)
    have q: "holds_signed bits (loc div rstep r)" if "0 \<le> loc"
    proof -
      have "loc div rstep r \<le> loc" using zdiv_mono2 [of loc 1 "rstep r"] that step(1) by simp
      moreover have "0 \<le> loc div rstep r" using that step(1) by (simp add: pos_imp_zdiv_nonneg_iff)
      ultimately show ?thesis using lf one unfolding holds_signed_def by linarith
    qed
    have e: "exact_position ix v =
        (if \<not> (loc mod rstep r = 0 \<and> 0 \<le> loc \<and> v < rstop r) then - 1
         else if 0 < ri_step ix then loc div rstep r else top - loc div rstep r)"
      by (simp only: exact_position_def r_def [symmetric] Let_def loc_def top_def)
    have p: "exact_position ix v = position_of (ri_values ix) v" by (rule exact_position_correct [OF ok])
    have "holds_signed bits (exact_position ix v)"
      using position_of_bounds [of "ri_values ix" v] fits(3) one unfolding p holds_signed_def length_rlist by linarith
    then show ?thesis
      unfolding p [symmetric] rev loc_def [symmetric] wrap [OF lf] Let_def
      using q one by (auto simp: e wrap split: if_splits)
  qed
  have "ri_get_indexer True bits ix target = Inr (map (\<lambda>v.
           let loc = wrap_dtype True bits (v - rstart r);
               valid = (loc mod rstep r = 0 \<and> 0 \<le> loc \<and> v < rstop r);
               loc = (if valid then wrap_dtype True bits (loc div rstep r) else wrap_dtype True bits (- 1))
           in if rstep r \<noteq> ri_step ix \<and> valid then wrap_dtype True bits (top - loc) else loc) target)"
  proof -
    have view: "(if 0 < ri_step ix then (ri_start ix, ri_stop ix, ri_step ix)
             else (let rv = range_rev (ri_range ix) in (rstart rv, rstop rv, rstep rv))) = (rstart r, rstop r, rstep r)"
      by (simp add: r_def Let_def)
    have w: "wrap_dtype True bits (rstart r) = rstart r" "wrap_dtype True bits (rstep r) = rstep r"
      "wrap_dtype True bits top = top"
      using wrap [OF fits(1)] wrap [OF fits(2)] wrap [OF topf] by (simp_all only: start step(2))
    show ?thesis
      unfolding ri_get_indexer_def view unfolding Let_def prod.case top_def [symmetric] by (simp only: w simp_thms if_False)
  qed
  then show ?thesis using val by (simp cong: map_cong del: position_of.simps)
qed

text \<open>An unsigned target below the start of the range is found at the wrapped difference.\<close>

lemma get_indexer_unsigned_wraps:
  "ri_get_indexer False 8 (of_range \<lparr>rstart = 10, rstop = 20, rstep = 1\<rparr> None) [5] = Inr [251]"
  "5 \<notin> set (ri_values (of_range \<lparr>rstart = 10, rstop = 20, rstep = 1\<rparr> None))"
  by (simp_all add: ri_get_indexer_def wrap_dtype_def Let_def mem_rlist_up)

text \<open>Counting the elements of a range below a bound.\<close>

lemma count_below: "length (filter (\<lambda>i. int i < q) [0..<n]) = nat (max 0 (min (int n) q))"
  by (induction n) auto

lemma count_range_up:
  assumes "0 < rstep r"
  shows "int (length (filter (\<lambda>x. x \<le> b) (rlist r))) = max (min (int (rlen r)) ((b - rstart r) div rstep r + 1)) 0"
proof -
  have "(rstart r + int i * rstep r \<le> b) = (int i < (b - rstart r) div rstep r + 1)" for i
    using le_div_iff_int [OF assms, of "int i" "b - rstart r"] by linarith
  then have "length (filter (\<lambda>x. x \<le> b) (rlist r)) = length (filter (\<lambda>i. int i < (b - rstart r) div rstep r + 1) [0..<rlen r])"
    by (simp add: rlist_def filter_map comp_def)
  also have "\<dots> = nat (max 0 (min (int (rlen r)) ((b - rstart r) div rstep r + 1)))"
    by (rule count_below)
  finally show ?thesis by simp
qed

lemma count_range_less:
  assumes "0 < rstep r"
  shows "int (length (filter (\<lambda>x. x < b) (rlist r))) = max (min (int (rlen r)) ((b - rstart r - 1) div rstep r + 1)) 0"
proof -
  have "(x < b) = (x \<le> b - 1)" for x by linarith
  moreover have "b - 1 - rstart r = b - rstart r - 1" by simp
  ultimately show ?thesis using count_range_up [OF assms, of "b - 1"] by presburger
qed

lemma count_complement: "int (length (filter (\<lambda>x. \<not> P x) xs)) = int (length xs) - int (length (filter P xs))"
  using sum_length_filter_compl [of P xs] by linarith

definition searchsorted_spec :: "rangeindex \<Rightarrow> int \<Rightarrow> side \<Rightarrow> int" where
  "searchsorted_spec ix v side =
     int (length (filter (\<lambda>x.
       if 0 < ri_step ix then (if side = SideLeft then x < v else x \<le> v)
       else (if side = SideLeft then v < x else v \<le> x)) (ri_values ix)))"

lemma searchsorted_counts:
  assumes ok: "ri_ok ix" and side: "side \<noteq> SideOther" and asc: "ascending = (0 < ri_step ix)"
  shows "ri_searchsorted ix v side ascending = Inr (searchsorted_spec ix v side)"
proof -
  let ?r = "ri_range ix"
  have r: "range_ok ?r" using ok by (simp add: ri_ok_def)
  consider "0 < ri_step ix" | "ri_step ix < 0" using r by (fastforce simp: range_ok_def)
  then show ?thesis
  proof cases
    case 1
    then show ?thesis using side asc
      by (cases side)
        (simp_all add: ri_searchsorted_def searchsorted_spec_def Let_def count_range_up count_range_less)
  next
    case 2
    let ?rv = "range_rev ?r"
    have up: "0 < rstep ?rv" using 2 by simp
    have rev: "int (length (filter (\<lambda>x. \<not> P x) (rlist ?r))) = int (rlen ?r) - int (length (filter P (rlist ?rv)))" for P
      unfolding count_complement by (simp add: rlist_range_rev [OF r] flip: rev_filter)
    have max_compl: "n - max (min n q) 0 = max (min n (n - q)) 0" if "0 \<le> n" for n q :: int
      using that by linarith
    have "ri_searchsorted ix v SideLeft ascending = Inr (int (length (filter (\<lambda>x. \<not> x \<le> v) (rlist ?r))))"
      using 2 asc unfolding rev count_range_up [OF up] rlen_range_rev [OF r]
      by (simp add: ri_searchsorted_def Let_def max_compl rlen_range_rev [OF r] del: range_rev_simps)
    moreover have "ri_searchsorted ix v SideRight ascending = Inr (int (length (filter (\<lambda>x. \<not> x < v) (rlist ?r))))"
      using 2 asc unfolding rev count_range_less [OF up] rlen_range_rev [OF r]
      by (simp add: ri_searchsorted_def Let_def max_compl rlen_range_rev [OF r] del: range_rev_simps)
    ultimately show ?thesis using 2 side
      by (cases side) (simp_all add: searchsorted_spec_def not_le not_less)
  qed
qed

section \<open>Order and extrema\<close>

lemma rlist_last: "0 < rlen r \<Longrightarrow> last (rlist r) = rstart r + rstep r * (int (rlen r) - 1)"
  by (simp add: last_conv_nth of_nat_diff mult.commute)

lemma rlist_hd: "0 < rlen r \<Longrightarrow> hd (rlist r) = rstart r"
  by (simp add: hd_conv_nth)

lemma Min_sorted: "sorted xs \<Longrightarrow> xs \<noteq> [] \<Longrightarrow> Min (set xs) = hd (xs :: int list)"
  by (cases xs) (auto intro!: Min_eqI)

lemma Max_sorted: "sorted xs \<Longrightarrow> xs \<noteq> [] \<Longrightarrow> Max (set xs) = last (xs :: int list)"
proof (rule Max_eqI)
  fix y assume "sorted xs" "xs \<noteq> []" "y \<in> set xs"
  then show "y \<le> last xs" by (auto simp: in_set_conv_nth last_conv_nth intro: sorted_nth_mono)
qed auto

lemma ri_extrema:
  assumes ok: "ri_ok ix" and ne: "ri_values ix \<noteq> []"
  shows "ri_min ix = Some (Min (set (ri_values ix)))" and "ri_max ix = Some (Max (set (ri_values ix)))"
proof -
  have n: "0 < ri_len ix" using ne by (simp del: rlist_eq_Nil add: rlist_def)
  consider "0 < ri_step ix" | "ri_step ix < 0" using ok by (fastforce simp: ri_ok_def range_ok_def)
  then have "ri_min ix = Some (Min (set (ri_values ix))) \<and> ri_max ix = Some (Max (set (ri_values ix)))"
  proof cases
    case 1
    note s = rlist_ascending [OF 1]
    show ?thesis using 1 n Min_sorted [OF s ne] Max_sorted [OF s ne]
      by (simp add: ri_min_def ri_max_def ri_minmax_def Let_def rlist_hd rlist_last)
  next
    case 2
    note s = rlist_descending [OF 2]
    have ne': "rev (ri_values ix) \<noteq> []" using ne by (simp del: rlist_eq_Nil)
    show ?thesis using 2 n Min_sorted [OF s ne'] Max_sorted [OF s ne'] ne
      by (simp add: ri_min_def ri_max_def ri_minmax_def Let_def rlist_hd rlist_last hd_rev last_rev
          del: rlist_eq_Nil)
  qed
  then show "ri_min ix = Some (Min (set (ri_values ix)))" and "ri_max ix = Some (Max (set (ri_values ix)))"
    by simp_all
qed

lemma ri_sorted_values:
  assumes ok: "ri_ok ix"
  shows "sorted (ri_values (ri_sorted ix))" and "set (ri_values (ri_sorted ix)) = set (ri_values ix)"
    and "ri_ok (ri_sorted ix)" and "ri_name (ri_sorted ix) = ri_name ix"
proof -
  have "ri_step ix \<noteq> 0" using ok by (simp add: ri_ok_def range_ok_def)
  then show "sorted (ri_values (ri_sorted ix))" and "set (ri_values (ri_sorted ix)) = set (ri_values ix)"
    and "ri_ok (ri_sorted ix)" and "ri_name (ri_sorted ix) = ri_name ix"
    using ok ri_reverse_values [OF ok]
    by (auto simp: ri_sorted_def ri_flips_def rlist_ascending rlist_descending ri_reverse_def ri_ok_def)
qed

section \<open>Extended gcd and intersection\<close>

lemma egcd_loop_bezout:
  assumes "old_r = old_s * a + old_t * b" and "r = s * a + t * b"
    and "egcd_loop old_r r old_s s old_t t = (g, x, y)"
  shows "g = x * a + y * b"
  using assms
proof (induction old_r r old_s s old_t t rule: egcd_loop.induct)
  case (1 old_r r old_s s old_t t)
  show ?case
  proof (cases "r = 0")
    case True
    then show ?thesis using 1(2,4) by (auto simp: egcd_loop.simps)
  next
    case False
    let ?q = "old_r div r"
    have e: "egcd_loop r (old_r - ?q * r) s (old_s - ?q * s) t (old_t - ?q * t) = (g, x, y)"
      using 1(4) False by (subst (asm) egcd_loop.simps) (simp add: Let_def)
    have "old_r - ?q * r = (old_s - ?q * s) * a + (old_t - ?q * t) * b"
      using 1(2,3) by (simp add: algebra_simps)
    from 1(1) [OF False refl 1(3) this e] show ?thesis .
  qed
qed

lemma egcd_loop_dvd:
  "egcd_loop old_r r old_s s old_t t = (g, x, y) \<Longrightarrow> g dvd old_r \<and> g dvd r"
proof (induction old_r r old_s s old_t t rule: egcd_loop.induct)
  case (1 old_r r old_s s old_t t)
  show ?case
  proof (cases "r = 0")
    case True
    then show ?thesis using 1 by (simp add: egcd_loop.simps)
  next
    case False
    let ?q = "old_r div r"
    have e: "egcd_loop r (old_r - ?q * r) s (old_s - ?q * s) t (old_t - ?q * t) = (g, x, y)"
      using 1(2) False by (subst (asm) egcd_loop.simps) (simp add: Let_def)
    have "g dvd r \<and> g dvd old_r - ?q * r" using 1(1) [OF False refl e] by simp
    moreover from this have "g dvd (old_r - ?q * r) + ?q * r" by (intro dvd_add) auto
    ultimately show ?thesis by simp
  qed
qed

lemma egcd_loop_pos:
  "0 < old_r \<Longrightarrow> 0 \<le> r \<Longrightarrow> egcd_loop old_r r old_s s old_t t = (g, x, y) \<Longrightarrow> 0 < g"
proof (induction old_r r old_s s old_t t rule: egcd_loop.induct)
  case (1 old_r r old_s s old_t t)
  show ?case
  proof (cases "r = 0")
    case True
    then show ?thesis using 1 by (simp add: egcd_loop.simps)
  next
    case False
    let ?q = "old_r div r"
    have e: "egcd_loop r (old_r - ?q * r) s (old_s - ?q * s) t (old_t - ?q * t) = (g, x, y)"
      using 1(4) False by (subst (asm) egcd_loop.simps) (simp add: Let_def)
    have "0 \<le> old_r - ?q * r" using False 1(3) by (simp add: minus_div_mult_eq_mod)
    with 1(1) [OF False refl _ _ e] 1(3) False show ?thesis by simp
  qed
qed

lemma extended_gcd_spec:
  assumes "0 < a" and "0 < b" and "extended_gcd a b = (g, x, y)"
  shows "g = x * a + y * b" and "g dvd a" and "g dvd b" and "0 < g"
  using egcd_loop_bezout [of a 1 a 0 b b 0 1 g x y] egcd_loop_dvd [of a b 1 0 0 1 g x y]
    egcd_loop_pos [of a b 1 0 0 1 g x y] assms
  by (simp_all add: extended_gcd_def)

text \<open>The Diophantine step: a number congruent to \<open>a\<close> modulo \<open>p\<close> and to \<open>b\<close> modulo
  \<open>q\<close>, and the common step.\<close>

lemma diophantine:
  fixes a b p q g x y :: int
  assumes bez: "g = x * p + y * q" and g: "g dvd p" "g dvd q" "0 < g" and d: "g dvd b - a"
  defines "tmp \<equiv> a + ((b - a) * p) div g * x"
  shows "p dvd v - a \<and> q dvd v - b \<longleftrightarrow> (p * q div g) dvd v - tmp"
proof -
  from g d obtain u w k where p: "p = g * u" and q: "q = g * w" and k: "b - a = g * k"
    by (auto elim!: dvdE)
  have one: "x * u + y * w = 1" using bez g(3) unfolding p q by (simp add: algebra_simps flip: distrib_left)
  have "((b - a) * p) div g = k * p" using g(3) by (simp add: k)
  then have tmp: "tmp = a + k * x * p" by (simp add: tmp_def algebra_simps)
  have "k * x * p = k * (g - y * q)" using bez by (simp add: algebra_simps)
  with tmp k have tmp': "tmp = b - k * y * q" by (simp add: algebra_simps)
  have step: "p * q div g = g * u * w" using g(3) by (simp add: p q)
  have "p dvd v - a \<longleftrightarrow> p dvd v - tmp"
  proof -
    have "v - a = (v - tmp) + k * x * p" by (simp add: tmp)
    then show ?thesis by (simp only: dvd_add_left_iff dvd_triv_right)
  qed
  moreover have "q dvd v - b \<longleftrightarrow> q dvd v - tmp"
  proof -
    have "v - b = (v - tmp) + (- k * y) * q" by (simp add: tmp')
    then show ?thesis by (simp only: dvd_add_left_iff dvd_triv_right)
  qed
  moreover have "p dvd e \<and> q dvd e \<longleftrightarrow> (g * u * w) dvd e" for e
  proof
    assume "p dvd e \<and> q dvd e"
    then obtain m n where m: "e = g * u * m" and n: "e = g * w * n" unfolding p q by (metis dvdE)
    have "e = e * (x * u + y * w)" by (simp add: one)
    also have "\<dots> = e * (x * u) + e * (y * w)" by (simp add: distrib_left)
    also have "\<dots> = (g * w * n) * (x * u) + (g * u * m) * (y * w)" using m n by simp
    also have "\<dots> = (g * u * w) * (n * x + m * y)" by (simp add: algebra_simps)
    finally show "(g * u * w) dvd e" by (metis dvd_triv_left)
  next
    assume "(g * u * w) dvd e"
    then show "p dvd e \<and> q dvd e" by (auto simp: p q elim!: dvdE)
  qed
  ultimately show ?thesis by (simp add: step)
qed

text \<open>The smallest number of a residue class above a bound.\<close>

lemma first_above:
  fixes low tmp L v :: int
  assumes L: "0 < L"
  defines "start \<equiv> tmp + L * (- ((- (low - tmp)) div L))"
  shows "L dvd v - start \<longleftrightarrow> L dvd v - tmp" and "L dvd v - tmp \<Longrightarrow> start \<le> v \<longleftrightarrow> low \<le> v"
proof -
  have dv: "L dvd v - start \<longleftrightarrow> L dvd v - tmp" for v
  proof -
    have "v - tmp = (v - start) + L * (- ((- (low - tmp)) div L))" by (simp add: start_def)
    then show ?thesis by (simp only: dvd_add_left_iff dvd_triv_left)
  qed
  then show "L dvd v - start \<longleftrightarrow> L dvd v - tmp" .
  assume "L dvd v - tmp"
  then obtain k where k: "v = tmp + L * k" by (metis dvdE diff_eq_eq add.commute)
  have "start \<le> v \<longleftrightarrow> - k \<le> (- (low - tmp)) div L"
    using L by (simp add: start_def k mult_le_cancel_left_pos flip: mult_minus_right)
      linarith
  also have "\<dots> \<longleftrightarrow> - k * L \<le> - (low - tmp)" by (rule le_div_iff_int [OF L])
  also have "\<dots> \<longleftrightarrow> low \<le> v" by (simp add: k algebra_simps)
  finally show "start \<le> v \<longleftrightarrow> low \<le> v" .
qed

text \<open>An ascending view of a range.\<close>

definition ascending_view :: "pyrange \<Rightarrow> pyrange" where
  "ascending_view r = (if rstep r < 0 then range_rev r else r)"

lemma ascending_view:
  assumes "range_ok r"
  shows "0 < rstep (ascending_view r)" and "set (rlist (ascending_view r)) = set (rlist r)"
    and "rlen (ascending_view r) = rlen r"
  using assms by (auto simp: ascending_view_def rlist_range_rev rlen_range_rev range_ok_def)

lemma common_range:
  assumes f: "0 < rstep f" and s: "0 < rstep s"
    and e: "extended_gcd (rstep f) (rstep s) = (g, x, y)"
    and d: "(rstart f - rstart s) mod g = 0"
  defines "tmp \<equiv> rstart f + ((rstart s - rstart f) * rstep f) div g * x"
    and "new_step \<equiv> (rstep f * rstep s) div g"
  shows "0 < new_step"
    and "set (rlist \<lparr>rstart = tmp + \<bar>new_step\<bar> * (- ((- (max (rstart f) (rstart s) - tmp)) div \<bar>new_step\<bar>)),
                     rstop = min (rstop f) (rstop s), rstep = new_step\<rparr>)
       = set (rlist f) \<inter> set (rlist s)"
proof -
  note g = extended_gcd_spec [OF f s e]
  obtain k where k: "rstep f * rstep s = g * k" using g(2) by (metis dvdE dvd_mult2)
  moreover have "0 < rstep f * rstep s" using f s by simp
  ultimately have "0 < g * k" by simp
  with g(4) k show pos: "0 < new_step" by (simp add: new_step_def zero_less_mult_iff)
  have "g dvd rstart s - rstart f" using d by (metis dvd_diff_commute mod_eq_0_iff_dvd)
  note dio = diophantine [OF g(1,2,3,4) this, folded tmp_def new_step_def]
  note fa = first_above [OF pos, where low = "max (rstart f) (rstart s)" and tmp = tmp]
  show "set (rlist \<lparr>rstart = tmp + \<bar>new_step\<bar> * (- ((- (max (rstart f) (rstart s) - tmp)) div \<bar>new_step\<bar>)),
                     rstop = min (rstop f) (rstop s), rstep = new_step\<rparr>)
       = set (rlist f) \<inter> set (rlist s)"
  proof (rule set_eqI)
    fix v
    have abs: "\<bar>new_step\<bar> = new_step" using pos by simp
    have "v \<in> set (rlist f) \<inter> set (rlist s) \<longleftrightarrow>
        max (rstart f) (rstart s) \<le> v \<and> v < min (rstop f) (rstop s)
        \<and> new_step dvd v - tmp"
      using f s dio [of v] by (auto simp: mem_rlist_up mod_eq_0_iff_dvd)
    then show "v \<in> set (rlist \<lparr>rstart = tmp + \<bar>new_step\<bar> * (- ((- (max (rstart f) (rstart s) - tmp)) div \<bar>new_step\<bar>)),
                     rstop = min (rstop f) (rstop s), rstep = new_step\<rparr>)
       \<longleftrightarrow> v \<in> set (rlist f) \<inter> set (rlist s)"
      unfolding abs using pos fa [of v] by (simp add: mem_rlist_up mod_eq_0_iff_dvd) blast
  qed
qed

lemma ri_intersection_set:
  assumes ok: "ri_ok ix" "ri_ok other"
  shows "set (ri_values (ri_intersection ix other srt)) = set (ri_values ix) \<inter> set (ri_values other)"
    and "ri_ok (ri_intersection ix other srt)"
    and "srt \<noteq> Some False \<Longrightarrow> sorted (ri_values (ri_intersection ix other srt))"
proof -
  define f s where "f = ascending_view (ri_range ix)" and "s = ascending_view (ri_range other)"
  have f: "0 < rstep f" "set (rlist f) = set (ri_values ix)" "rlen f = ri_len ix"
    and s: "0 < rstep s" "set (rlist s) = set (ri_values other)" "rlen s = ri_len other"
    using ok ascending_view [of "ri_range ix"] ascending_view [of "ri_range other"]
    by (auto simp: f_def s_def ri_ok_def)
  obtain g x y where e: "extended_gcd (rstep f) (rstep s) = (g, x, y)" by (metis prod_cases3)
  define tmp where "tmp = rstart f + ((rstart s - rstart f) * rstep f) div g * x"
  define new_step where "new_step = (rstep f * rstep s) div g"
  define n where "n = of_range \<lparr>rstart = tmp + \<bar>new_step\<bar> * (- ((- (max (rstart f) (rstart s) - tmp)) div \<bar>new_step\<bar>)),
                     rstop = min (rstop f) (rstop s), rstep = new_step\<rparr> None"
  have empty: "ri_values (of_range empty_range None) = []" "ri_ok (of_range empty_range None)"
    by (simp_all add: rlen_def ri_ok_def range_ok_def)
  have unf: "ri_intersection ix other srt =
     (if ri_len ix = 0 \<or> ri_len other = 0 \<or> min (rstop f) (rstop s) \<le> max (rstart f) (rstart s)
         \<or> (rstart f - rstart s) mod g \<noteq> 0
      then of_range empty_range None
      else (let n' = (if (ri_step ix < 0 \<and> ri_step other < 0) \<noteq> (ri_step n < 0) then ri_reverse n else n)
            in if srt \<noteq> Some False then ri_sorted n' else n'))"
    by (simp add: ri_intersection_def ascending_view_def [symmetric] f_def [symmetric] s_def [symmetric]
        e Let_def tmp_def n_def new_step_def)
  consider (none) "ri_len ix = 0 \<or> ri_len other = 0" | (apart) "min (rstop f) (rstop s) \<le> max (rstart f) (rstart s)"
    | (residue) "(rstart f - rstart s) mod g \<noteq> 0"
    | (common) "ri_len ix \<noteq> 0" "ri_len other \<noteq> 0" "\<not> min (rstop f) (rstop s) \<le> max (rstart f) (rstart s)"
        "(rstart f - rstart s) mod g = 0"
    by argo
  then have "set (ri_values (ri_intersection ix other srt)) = set (ri_values ix) \<inter> set (ri_values other)
     \<and> ri_ok (ri_intersection ix other srt)
     \<and> (srt \<noteq> Some False \<longrightarrow> sorted (ri_values (ri_intersection ix other srt)))"
  proof cases
    case none
    then have "ri_values ix = [] \<or> ri_values other = []" by simp
    then have i: "set (ri_values ix) \<inter> set (ri_values other) = {}" by (metis inf_bot_left inf_bot_right list.set(1))
    have "ri_intersection ix other srt = of_range empty_range None" using none unfolding unf by argo
    then show ?thesis by (simp only: i empty) simp
  next
    case apart
    then have "set (rlist f) \<inter> set (rlist s) = {}"
      using f(1) s(1) by (auto simp: mem_rlist_up)
    with apart empty f s show ?thesis by (simp add: unf)
  next
    case residue
    note g = extended_gcd_spec [OF f(1) s(1) e]
    have "set (rlist f) \<inter> set (rlist s) = {}"
    proof (rule ccontr)
      assume "set (rlist f) \<inter> set (rlist s) \<noteq> {}"
      then obtain v where "v \<in> set (rlist f)" "v \<in> set (rlist s)" by auto
      then have "rstep f dvd v - rstart f" "rstep s dvd v - rstart s"
        using f(1) s(1) by (auto simp: mem_rlist_up mod_eq_0_iff_dvd)
      then have "g dvd v - rstart f" "g dvd v - rstart s" using g(2,3) by (meson dvd_trans)+
      then have "g dvd (v - rstart s) - (v - rstart f)" by (rule dvd_diff [rotated])
      then show False using residue by (simp add: mod_eq_0_iff_dvd)
    qed
    with residue empty f s show ?thesis by (simp add: unf)
  next
    case common
    note n = common_range [OF f(1) s(1) e common(4), folded tmp_def, folded new_step_def]
    have nok: "ri_ok n" using n(1) by (simp add: n_def ri_ok_def range_ok_def)
    have nset: "set (ri_values n) = set (ri_values ix) \<inter> set (ri_values other)"
      using n(2) f s by (simp add: n_def)
    show ?thesis using common nok nset
      by (auto simp: unf Let_def ri_reverse_values ri_sorted_values)
  qed
  then show "set (ri_values (ri_intersection ix other srt)) = set (ri_values ix) \<inter> set (ri_values other)"
    and "ri_ok (ri_intersection ix other srt)"
    and "srt \<noteq> Some False \<Longrightarrow> sorted (ri_values (ri_intersection ix other srt))" by simp_all
qed

section \<open>Union\<close>

text \<open>The set of an arithmetic progression given by its first and last element and a
  step; the step of a one-element progression is arbitrary.\<close>

lemma dvd_stepE: "(k::int) dvd x - a \<Longrightarrow> (\<And>j. x = a + j * k \<Longrightarrow> P) \<Longrightarrow> P"
proof (elim dvdE)
  fix j assume "x - a = k * j" and *: "\<And>j. x = a + j * k \<Longrightarrow> P"
  then have "x = a + j * k" by (simp add: algebra_simps)
  then show P by (rule *)
qed

definition progression :: "int \<times> int \<times> int \<Rightarrow> int set" where
  "progression p = (case p of (a, k, e) \<Rightarrow> {x. a \<le> x \<and> x \<le> e \<and> k dvd x - a})"

definition prog_ok :: "int \<times> int \<times> int \<Rightarrow> bool" where
  "prog_ok p = (case p of (a, k, e) \<Rightarrow> 0 < k \<and> a \<le> e \<and> k dvd e - a)"

lemma union_ascending_progression:
  assumes ok: "ri_ok ix" and ne: "0 < ri_len ix"
  shows "prog_ok (union_ascending ix)" and "progression (union_ascending ix) = set (ri_values ix)"
    and "ri_len ix = 1 \<Longrightarrow> union_ascending ix = (ri_start ix, \<bar>ri_step ix\<bar>, ri_start ix)"
proof -
  let ?n = "int (ri_len ix) - 1"
  have n: "0 \<le> ?n" using ne by simp
  have last: "ri_len ix - 1 < ri_len ix" "\<not> Suc (ri_len ix - 1) < ri_len ix" using ne by simp_all
  have nat: "int (ri_len ix - 1) = ?n" "int (Suc (ri_len ix - 1)) = ?n + 1" using ne by simp_all
  consider "0 < ri_step ix" | "ri_step ix < 0" using ok by (fastforce simp: ri_ok_def range_ok_def)
  then have *: "prog_ok (union_ascending ix) \<and> progression (union_ascending ix) = set (ri_values ix)"
  proof cases
    case 1
    have 2: "x \<le> ri_start ix + ri_step ix * ?n \<longleftrightarrow> x < ri_stop ix" if d: "ri_step ix dvd x - ri_start ix" for x
    proof -
      obtain k where k: "x = ri_start ix + k * ri_step ix" using d
        by (rule dvd_stepE)
      have "ri_start ix + ?n * ri_step ix < ri_stop ix" "\<not> ri_start ix + (?n + 1) * ri_step ix < ri_stop ix"
        using last unfolding rlen_up [OF 1] nat by simp_all
      moreover have "k \<le> ?n \<longleftrightarrow> k * ri_step ix \<le> ?n * ri_step ix" using 1 by simp
      moreover have "?n + 1 \<le> k \<longleftrightarrow> (?n + 1) * ri_step ix \<le> k * ri_step ix" using 1 by simp
      ultimately show ?thesis unfolding k by (simp add: mult.commute) linarith
    qed
    show ?thesis using 1 n
      by (auto simp: union_ascending_def Let_def prog_ok_def progression_def mem_rlist_up 2
          mod_eq_0_iff_dvd)
  next
    case neg: 2
    have 2: "ri_start ix + ri_step ix * ?n \<le> x \<longleftrightarrow> ri_stop ix < x" if d: "ri_step ix dvd x - ri_start ix" for x
    proof -
      obtain k where k: "x = ri_start ix + k * ri_step ix" using d
        by (rule dvd_stepE)
      have "ri_stop ix < ri_start ix + ?n * ri_step ix" "\<not> ri_stop ix < ri_start ix + (?n + 1) * ri_step ix"
        using last unfolding rlen_down [OF neg] nat by simp_all
      moreover have "k \<le> ?n \<longleftrightarrow> ?n * ri_step ix \<le> k * ri_step ix" using neg by simp
      moreover have "?n + 1 \<le> k \<longleftrightarrow> k * ri_step ix \<le> (?n + 1) * ri_step ix" using neg by simp
      ultimately show ?thesis unfolding k by (simp add: mult.commute) linarith
    qed
    have dv: "ri_step ix dvd x - (ri_start ix + ri_step ix * ?n) \<longleftrightarrow> ri_step ix dvd x - ri_start ix" for x
    proof -
      have "x - ri_start ix = (x - (ri_start ix + ri_step ix * ?n)) + ri_step ix * ?n" by simp
      then show ?thesis by (simp only: dvd_add_left_iff dvd_triv_left)
    qed
    have "ri_step ix * ?n \<le> 0" using neg n by (simp add: mult_le_0_iff)
    then show ?thesis using neg
      by (auto simp: union_ascending_def Let_def prog_ok_def progression_def mem_rlist_down 2 dv
          mod_eq_0_iff_dvd simp del: diff_diff_add diff_add_eq_diff_diff_swap)
  qed
  then show "prog_ok (union_ascending ix)" and "progression (union_ascending ix) = set (ri_values ix)"
    by simp_all
  assume "ri_len ix = 1"
  then show "union_ascending ix = (ri_start ix, \<bar>ri_step ix\<bar>, ri_start ix)"
    by (simp add: union_ascending_def Let_def)
qed

lemma progression_single: "progression (a, k, a) = {a}"
  by (auto simp: progression_def)

lemma prog_single_step: "prog_ok (a, k, e) \<Longrightarrow> a = e \<Longrightarrow> 0 < k' \<Longrightarrow> prog_ok (a, k', e)"
  by (simp add: prog_ok_def)

lemma rlist_progression:
  assumes "prog_ok (a, k, e)"
  shows "set (rlist \<lparr>rstart = a, rstop = e + k, rstep = k\<rparr>) = progression (a, k, e)"
proof -
  have k: "0 < k" and e: "k dvd e - a" using assms by (auto simp: prog_ok_def)
  have "x < e + k \<longleftrightarrow> x \<le> e" if "k dvd x - a" for x
  proof
    assume lt: "x < e + k"
    show "x \<le> e"
    proof (rule ccontr)
      assume "\<not> x \<le> e"
      then have "0 < x - e" by simp
      moreover have "k dvd x - e" using that e by (metis diff_diff_eq2 diff_add_cancel dvd_diff)
      ultimately have "k \<le> x - e" by (rule zdvd_imp_le [rotated])
      with lt show False by simp
    qed
  qed (use k in simp)
  then show ?thesis using k by (auto simp: mem_rlist_up progression_def mod_eq_0_iff_dvd)
qed

text \<open>A progression with step \<open>k\<close> and one whose step is a multiple of \<open>k\<close>, in the same
  residue class, with gaps of at most one step at either end (case \<open>near\<close>), or two of
  equal step at most one step apart.\<close>

lemma dvd_gap: "(k::int) dvd x - y \<Longrightarrow> y < x \<Longrightarrow> y + k \<le> x"
  using zdvd_imp_le [of k "x - y"] by simp

lemma progression_union_equal:
  assumes p: "prog_ok (a, k, e)" and q: "prog_ok (b, k, f)" and same: "k dvd a - b"
    and near: "a - f \<le> k" "b - e \<le> k"
  shows "prog_ok (min a b, k, max e f)"
    and "progression (min a b, k, max e f) = progression (a, k, e) \<union> progression (b, k, f)"
proof -
  have k: "0 < k" "k dvd e - a" "k dvd f - b" "a \<le> e" "b \<le> f" using p q by (auto simp: prog_ok_def)
  have ab: "k dvd x - a \<longleftrightarrow> k dvd x - b" for x
  proof -
    have "x - b = (x - a) + (a - b)" by simp
    then show ?thesis using same by (simp only: dvd_add_left_iff)
  qed
  have mn: "k dvd x - min a b \<longleftrightarrow> k dvd x - a" for x using ab by (simp add: min_def)
  have "k dvd max e f - a" using k(2,3) ab by (simp add: max_def)
  then show "prog_ok (min a b, k, max e f)" using k mn by (auto simp: prog_ok_def)
  have 1: "x \<le> e \<or> b \<le> x" if "k dvd x - a" for x
  proof (rule disjCI)
    assume "\<not> b \<le> x"
    show "x \<le> e"
    proof (rule ccontr)
      assume "\<not> x \<le> e"
      have "x - e = (x - a) - (e - a)" by simp
      then have "k dvd x - e" using that k(2) by (metis dvd_diff)
      then have "e + k \<le> x" using \<open>\<not> x \<le> e\<close> by (intro dvd_gap) auto
      with near(2) \<open>\<not> b \<le> x\<close> show False by simp
    qed
  qed
  have 2: "x \<le> f \<or> a \<le> x" if "k dvd x - a" for x
  proof (rule disjCI)
    assume "\<not> a \<le> x"
    show "x \<le> f"
    proof (rule ccontr)
      assume "\<not> x \<le> f"
      have "x - f = (x - b) - (f - b)" by simp
      then have "k dvd x - f" using that ab k(3) by (metis dvd_diff)
      then have "f + k \<le> x" using \<open>\<not> x \<le> f\<close> by (intro dvd_gap) auto
      with near(1) \<open>\<not> a \<le> x\<close> show False by simp
    qed
  qed
  have "x \<in> progression (min a b, k, max e f) \<longleftrightarrow> x \<in> progression (a, k, e) \<union> progression (b, k, f)" for x
  proof (cases "k dvd x - a")
    case True
    with mn ab [of x] have m: "k dvd x - min a b" "k dvd x - b" by simp_all
    show ?thesis using 1 [OF True] 2 [OF True] True m
      by (simp add: progression_def min_le_iff_disj le_max_iff_disj) linarith
  next
    case False
    with mn [of x] ab [of x] show ?thesis by (simp add: progression_def)
  qed
  then show "progression (min a b, k, max e f) = progression (a, k, e) \<union> progression (b, k, f)" by blast
qed

lemma progression_union_multiple:
  assumes p: "prog_ok (a, k, e)" and q: "prog_ok (b, k', f)" and m: "k dvd k'" and same: "k dvd a - b"
    and near: "a \<le> b + k" "f - k \<le> e"
  shows "prog_ok (min a b, k, max e f)"
    and "progression (min a b, k, max e f) = progression (a, k, e) \<union> progression (b, k', f)"
proof -
  have k: "0 < k" "0 < k'" "k dvd e - a" "k' dvd f - b" "a \<le> e" "b \<le> f" using p q by (auto simp: prog_ok_def)
  have ab: "k dvd x - a \<longleftrightarrow> k dvd x - b" for x
  proof -
    have "x - b = (x - a) + (a - b)" by simp
    then show ?thesis using same by (simp only: dvd_add_left_iff)
  qed
  have mn: "k dvd x - min a b \<longleftrightarrow> k dvd x - a" for x using ab by (simp add: min_def)
  have fb: "k dvd f - b" using k(4) m by (rule dvd_trans [rotated])
  have "k dvd max e f - a" using k(3) fb ab by (simp add: max_def)
  then show "prog_ok (min a b, k, max e f)" using k mn by (auto simp: prog_ok_def)
  have low: "x = b" if "k dvd x - a" "b \<le> x" "x < a" for x
  proof (rule ccontr)
    assume "x \<noteq> b"
    then have "b + k \<le> x" using that ab by (intro dvd_gap) auto
    with near(1) that(3) show False by simp
  qed
  have high: "x = f" if "k dvd x - a" "e < x" "x \<le> f" for x
  proof (rule ccontr)
    assume "x \<noteq> f"
    have "f - x = (f - b) - (x - b)" by simp
    then have "k dvd f - x" using fb that(1) ab by (metis dvd_diff)
    then have "x + k \<le> f" using that \<open>x \<noteq> f\<close> by (intro dvd_gap) auto
    moreover have "e + k \<le> x"
    proof -
      have "x - e = (x - a) - (e - a)" by simp
      then have "k dvd x - e" using that(1) k(3) by (metis dvd_diff)
      then show ?thesis using that(2) by (rule dvd_gap)
    qed
    ultimately show False using near(2) k(1) by linarith
  qed
  have sub: "k dvd x - a" if "k' dvd x - b" for x using that m ab by (meson dvd_trans)
  have "x \<in> progression (min a b, k, max e f) \<longleftrightarrow> x \<in> progression (a, k, e) \<union> progression (b, k', f)" for x
  proof (cases "a \<le> x \<and> x \<le> e")
    case True
    then show ?thesis using mn sub by (auto simp: progression_def)
  next
    case False
    have b: "b \<in> progression (b, k', f)" and f: "f \<in> progression (b, k', f)"
      using k by (simp_all add: progression_def)
    have "x = b \<or> x = f" if "x \<in> progression (min a b, k, max e f)"
      using that False low [of x] high [of x]
      by (auto simp: progression_def mn min_le_iff_disj le_max_iff_disj)
    moreover have "x \<in> progression (min a b, k, max e f)" if "x \<in> progression (b, k', f)"
      using that sub [of x] by (auto simp: progression_def mn)
    moreover have "x \<notin> progression (a, k, e)" using False by (auto simp: progression_def)
    ultimately show ?thesis using b f by blast
  qed
  then show "progression (min a b, k, max e f) = progression (a, k, e) \<union> progression (b, k', f)" by blast
qed

lemma union_params_progressions:
  assumes ok: "ri_ok ix" "ri_ok other" and ne: "0 < ri_len ix" "0 < ri_len other"
    and e: "union_params ix other = ((a, k, e), (b, k', f))" and pos: "0 < min k' k"
  shows "prog_ok (a, k, e)" and "progression (a, k, e) = set (ri_values ix)"
    and "prog_ok (b, k', f)" and "progression (b, k', f) = set (ri_values other)"
proof -
  obtain a1 k1 e1 where u: "union_ascending ix = (a1, k1, e1)" by (metis prod_cases3)
  obtain b1 k2 f1 where w: "union_ascending other = (b1, k2, f1)" by (metis prod_cases3)
  note p = union_ascending_progression [OF ok(1) ne(1), unfolded u]
  note q = union_ascending_progression [OF ok(2) ne(2), unfolded w]
  have eq: "a = a1" "e = e1" "b = b1" "f = f1" using e by (auto simp: union_params_def u w split: if_splits)
  have k: "k = k1 \<or> ri_len ix = 1" "k' = k2 \<or> ri_len other = 1"
    using e by (auto simp: union_params_def u w split: if_splits)
  have "prog_ok (a, k, e) \<and> progression (a, k, e) = set (ri_values ix)"
    using k(1)
  proof
    assume "ri_len ix = 1"
    with p(3) have "a1 = e1" by simp
    then show ?thesis using p(2) pos by (simp add: eq progression_single) (simp add: prog_ok_def)
  qed (use p in \<open>simp add: eq\<close>)
  moreover have "prog_ok (b, k', f) \<and> progression (b, k', f) = set (ri_values other)"
    using k(2)
  proof
    assume "ri_len other = 1"
    with q(3) have "b1 = f1" by simp
    then show ?thesis using q(2) pos by (simp add: eq progression_single) (simp add: prog_ok_def)
  qed (use q in \<open>simp add: eq\<close>)
  ultimately show "prog_ok (a, k, e)" and "progression (a, k, e) = set (ri_values ix)"
    and "prog_ok (b, k', f)" and "progression (b, k', f) = set (ri_values other)" by simp_all
qed

lemma found_range:
  "prog_ok (a, k, e) \<Longrightarrow> rbind (new_range_index a (e + k) k None) (Inr \<circ> Some) = Inr (Some r) \<Longrightarrow>
   set (ri_values r) = progression (a, k, e) \<and> 0 < ri_step r"
proof -
  assume p: "prog_ok (a, k, e)" and *: "rbind (new_range_index a (e + k) k None) (Inr \<circ> Some) = Inr (Some r)"
  have k: "0 < k" using p by (simp add: prog_ok_def)
  then have "r = of_range \<lparr>rstart = a, rstop = e + k, rstep = k\<rparr> None" using * by (simp add: new_range_index_simp)
  with k rlist_progression [OF p] show ?thesis by simp
qed

lemma union_fast_set:
  assumes ok: "ri_ok ix" "ri_ok other" and ne: "0 < ri_len ix" "0 < ri_len other"
    and pos: "ri_len ix = 1 \<Longrightarrow> ri_len other = 1 \<Longrightarrow> ri_start ix \<noteq> ri_start other"
    and res: "union_fast ix other = Inr (Some r)"
  shows "set (ri_values r) = set (ri_values ix) \<union> set (ri_values other) \<and> 0 < ri_step r"
proof -
  obtain a k e b k' f where e: "union_params ix other = ((a, k, e), (b, k', f))" by (metis prod_cases3 surj_pair)
  have "0 < min k' k"
    using e ok pos union_ascending_progression(1) [OF ok(1) ne(1)] union_ascending_progression(1) [OF ok(2) ne(2)]
    by (auto simp: union_params_def prog_ok_def split: prod.splits if_splits)
  note prog = union_params_progressions [OF ok ne e this]
  have kk: "0 < k" "0 < k'" using prog by (auto simp: prog_ok_def)
  let ?found = "\<lambda>k. rbind (new_range_index (min a b) (max e f + k) k None) (Inr \<circ> Some)"
  have min_dvd: "m dvd n \<Longrightarrow> 0 < n \<Longrightarrow> min n m = m" "m dvd n \<Longrightarrow> 0 < n \<Longrightarrow> min m n = m" for m n :: int
    using zdvd_imp_le [of m n] by auto
  consider (equal) "k dvd a - b" "k' = k" "a - f \<le> k" "b - e \<le> k" "?found k = Inr (Some r)"
    | (other) "k dvd a - b" "k dvd k'" "a \<le> b + k" "f - k \<le> e" "?found k = Inr (Some r)"
    | (self) "k' dvd a - b" "k' dvd k" "b \<le> a + k'" "e - k' \<le> f" "?found k' = Inr (Some r)"
  proof -
    have "(k' = k \<and> a - f \<le> k \<and> b - e \<le> k \<and> (a - b) mod (min k' k) = 0 \<and> ?found k = Inr (Some r))
        \<or> (k' mod k = 0 \<and> a \<le> b + k \<and> f - k \<le> e \<and> (a - b) mod (min k' k) = 0 \<and> ?found k = Inr (Some r))
        \<or> (k mod k' = 0 \<and> b \<le> a + k' \<and> e - k' \<le> f \<and> (a - b) mod (min k' k) = 0 \<and> ?found k' = Inr (Some r))"
      using res by (simp add: union_fast_def e Let_def split: if_splits)
    then show thesis
      using that kk min_dvd [of k k'] min_dvd [of k' k] by (auto simp: mod_eq_0_iff_dvd)
  qed
  then show ?thesis
  proof cases
    case equal
    have "prog_ok (b, k, f)" using prog(3) equal(2) by simp
    note u = progression_union_equal [OF prog(1) this equal(1,3,4)]
    show ?thesis using found_range [OF u(1) equal(5)] u(2) prog equal(2) by simp
  next
    case other
    note u = progression_union_multiple [OF prog(1) prog(3) other(2,1,3,4)]
    show ?thesis using found_range [OF u(1) other(5)] u(2) prog by simp
  next
    case self
    have "k' dvd b - a" using self(1) by (subst dvd_diff_commute)
    note u = progression_union_multiple [OF prog(3) prog(1) self(2) this self(3,4)]
    have c: "min b a = min a b" "max f e = max e f" by (simp_all add: min.commute max.commute)
    show ?thesis using found_range [OF u(1) [unfolded c] self(5)] u(2) prog by (simp add: c Un_commute)
  qed
qed

section \<open>Reconstruction of a range from values\<close>

lemma evenly_spaced:
  "set (map (\<lambda>(x, y). y - x) (zip (x # xs) xs)) \<subseteq> {d} \<Longrightarrow>
   (x :: int) # xs = map (\<lambda>i. x + int i * d) [0..<Suc (length xs)]"
proof (induction xs arbitrary: x)
  case Nil
  then show ?case by simp
next
  case (Cons y ys)
  then have y: "y = x + d" and "y # ys = map (\<lambda>i. y + int i * d) [0..<Suc (length ys)]" by auto
  then have "x # y # ys = map (\<lambda>i. x + int i * d) (0 # map Suc [0..<Suc (length ys)])"
    by (simp add: algebra_simps)
  also have "0 # map Suc [0..<Suc (length ys)] = [0..<Suc (length (y # ys))]"
    by (simp add: map_Suc_upt upt_conv_Cons del: upt_Suc)
  finally show ?case .
qed

section \<open>Concatenation\<close>

text \<open>What the loop variables say about the values concatenated so far.\<close>

fun concat_state :: "int list \<Rightarrow> int option \<Rightarrow> int option \<Rightarrow> int option \<Rightarrow> bool" where
  "concat_state vs start step next =
     (case start of
        None \<Rightarrow> vs = [] \<and> step = None \<and> next = None
      | Some a \<Rightarrow>
          (case step of
             None \<Rightarrow> vs = [a] \<and> next = None
           | Some s \<Rightarrow> s \<noteq> 0 \<and> vs \<noteq> [] \<and> vs = map (\<lambda>i. a + int i * s) [0..<length vs]
                       \<and> next = Some (a + int (length vs) * s)))"

lemma progression_append:
  "map (\<lambda>i. a + int i * s) [0..<n] @ map (\<lambda>i. a + int n * s + int i * s) [0..<m]
   = map (\<lambda>i. a + int i * s) [0..<n + m]"
  by (rule nth_equalityI) (auto simp: nth_append algebra_simps of_nat_diff)

lemma rlist_one: "rlen r = 1 \<Longrightarrow> rlist r = [rstart r]"
  by (simp add: rlist_def)

lemma rlist_as_progression:
  "rlen r = 1 \<or> rstep r = s \<Longrightarrow> rlist r = map (\<lambda>i. rstart r + int i * s) [0..<rlen r]"
  by (auto simp: rlist_def)

lemma concat_step:
  assumes st: "concat_state vs start step next" and ok: "ri_ok obj" and ne: "ri_len obj \<noteq> 0"
    and res: "concat_loop start step next (obj # objs) = Some out"
  shows "\<exists>start' step' next'. concat_state (vs @ ri_values obj) start' step' next'
     \<and> concat_loop start' step' next' objs = Some out"
proof (cases start)
  case None
  with st have vs: "vs = []" "step = None" "next = None" by simp_all
  show ?thesis
  proof (cases "1 < ri_len obj")
    case True
    then have "concat_loop (Some (ri_start obj)) (Some (ri_step obj))
        (Some (ri_start obj + ri_step obj * (int (ri_len obj) - 1) + ri_step obj)) objs = Some out"
      using res None vs by simp
    moreover have "concat_state (vs @ ri_values obj) (Some (ri_start obj)) (Some (ri_step obj))
        (Some (ri_start obj + ri_step obj * (int (ri_len obj) - 1) + ri_step obj))"
      using vs ok ne by (simp add: ri_ok_def range_ok_def algebra_simps) (simp add: rlist_def algebra_simps)
    ultimately show ?thesis by blast
  next
    case False
    with ne have one: "ri_len obj = 1" by simp
    then have "concat_loop (Some (ri_start obj)) None None objs = Some out"
      using res None vs by simp
    moreover have "concat_state (vs @ ri_values obj) (Some (ri_start obj)) None None"
      using vs rlist_one [OF one] by simp
    ultimately show ?thesis by blast
  qed
next
  case (Some a)
  obtain s where s: "s \<noteq> 0" "vs \<noteq> []" "vs = map (\<lambda>i. a + int i * s) [0..<length vs]"
    and start: "ri_start obj = a + int (length vs) * s" and one: "ri_len obj = 1 \<or> ri_step obj = s"
    and out: "concat_loop (Some a) (Some s)
      (Some (ri_start obj + ri_step obj * (int (ri_len obj) - 1) + s)) objs = Some out"
  proof (cases step)
    case None
    with st Some have vs: "vs = [a]" "next = None" by simp_all
    have "ri_start obj \<noteq> a" and "ri_len obj = 1 \<or> ri_step obj = ri_start obj - a"
      using res Some None ne by (auto split: if_splits)
    then show thesis using that [of "ri_start obj - a"] res Some None vs by (auto split: if_splits)
  next
    case s: (Some s)
    then have "next = Some (a + int (length vs) * s)" using st Some by simp
    then show thesis using that [of s] st res Some s ne by (auto split: if_splits)
  qed
  have vals: "ri_values obj = map (\<lambda>i. a + int (length vs) * s + int i * s) [0..<ri_len obj]"
    using rlist_as_progression [OF one] start by simp
  have "vs @ ri_values obj = map (\<lambda>i. a + int i * s) [0..<length vs + ri_len obj]"
    unfolding vals by (subst s(3)) (rule progression_append)
  moreover have "ri_start obj + ri_step obj * (int (ri_len obj) - 1) + s
      = a + int (length vs + ri_len obj) * s"
    using one start by (auto simp: algebra_simps)
  ultimately have "concat_state (vs @ ri_values obj) (Some a) (Some s)
      (Some (ri_start obj + ri_step obj * (int (ri_len obj) - 1) + s))"
    using s by simp
  with out show ?thesis by blast
qed

lemma concat_loop_state:
  "concat_state vs start step next \<Longrightarrow> list_all (\<lambda>ob. ri_ok ob \<and> ri_len ob \<noteq> 0) objs \<Longrightarrow>
   concat_loop start step next objs = Some (start', step', next') \<Longrightarrow>
   concat_state (vs @ concat (map ri_values objs)) start' step' next'"
proof (induction objs arbitrary: vs start step "next")
  case Nil
  then show ?case by (simp del: concat_state.simps)
next
  case (Cons obj objs)
  from concat_step [OF Cons.prems(1) _ _ Cons.prems(3)] Cons.prems(2)
  obtain s k n where "concat_state (vs @ ri_values obj) s k n" "concat_loop s k n objs = Some (start', step', next')"
    by auto
  from Cons.IH [OF this(1) _ this(2)] Cons.prems(2) show ?case by simp
qed

lemma concat_non_empty: "concat (map ri_values (filter (\<lambda>obj. ri_len obj \<noteq> 0) xs)) = concat (map ri_values xs)"
  by (induction xs) (auto simp: rlist_def)

lemma concat_range_values:
  assumes ok: "list_all ri_ok indexes" and res: "concat_range_index indexes = Inr (Some r)"
    and len: "length (concat (map ri_values indexes)) \<noteq> 1"
  shows "ri_values r = concat (map ri_values indexes)"
proof (cases "filter (\<lambda>obj. ri_len obj \<noteq> 0) indexes = []")
  case True
  then have "concat (map ri_values indexes) = []" using concat_non_empty [of indexes] by (simp only: list.map concat.simps)
  moreover have "r = of_range empty_range None" using True res by (simp add: concat_range_index_def)
  ultimately show ?thesis by (simp only: of_range_simps rlist_empty_range)
next
  case False
  let ?ne = "filter (\<lambda>obj. ri_len obj \<noteq> 0) indexes"
  let ?vs = "concat (map ri_values indexes)"
  from res False obtain start step "next" where loop: "concat_loop None None None ?ne = Some (start, step, next)"
    and r: "rbind (new_range_index (case start of None \<Rightarrow> 0 | Some a \<Rightarrow> a)
                      (case next of None \<Rightarrow> ri_stop (last ?ne) | Some n \<Rightarrow> n)
                      (case step of None \<Rightarrow> 1 | Some k \<Rightarrow> k) None) (Inr \<circ> Some) = Inr (Some r)"
    by (auto simp: concat_range_index_def Let_def split: option.splits prod.splits)
  have "list_all (\<lambda>ob. ri_ok ob \<and> ri_len ob \<noteq> 0) ?ne" using ok by (auto simp: list_all_iff)
  from concat_loop_state [OF _ this loop, of "[]", unfolded concat_non_empty]
  have st: "concat_state ?vs start step next" by simp
  have "?vs \<noteq> []" using False concat_non_empty [of indexes]
    by (cases ?ne) (auto simp: filter_eq_Cons_iff rlist_def)
  then obtain a s where "start = Some a" "step = Some s" "s \<noteq> 0" "next = Some (a + int (length ?vs) * s)"
    and vs: "?vs = map (\<lambda>i. a + int i * s) [0..<length ?vs]"
    using st len by (auto split: option.splits simp del: length_concat)
  then have "r = of_range \<lparr>rstart = a, rstop = a + int (length ?vs) * s, rstep = s\<rparr> None"
    using r by (simp add: new_range_index_simp del: length_concat)
  then show ?thesis using rlist_exact [OF \<open>s \<noteq> 0\<close>, of a "length ?vs"] vs by simp
qed

definition dtype_fits :: "bool \<Rightarrow> nat \<Rightarrow> int list \<Rightarrow> bool" where
  "dtype_fits signed bits xs \<longleftrightarrow> list_all (\<lambda>x. wrap_dtype signed bits x = x) xs"

definition exact_diffs :: "int list \<Rightarrow> int list" where
  "exact_diffs xs = map (\<lambda>(x, y). y - x) (zip xs (tl xs))"

lemma dtype_diffs_exact: "dtype_fits signed bits (exact_diffs xs) \<Longrightarrow> dtype_diffs signed bits xs = exact_diffs xs"
  by (auto simp: dtype_fits_def list_all_iff dtype_diffs_def exact_diffs_def)

lemma remdups_single: "remdups xs = [d] \<Longrightarrow> set xs = {d}"
  by (metis set_remdups list.set(1,2))

lemma try_reconstruct_values:
  assumes res: "try_reconstruct vals False signed bits name = Some r"
    and fits: "dtype_fits signed bits ((last vals + hd (exact_diffs vals)) # exact_diffs vals)"
  shows "ri_values r = vals \<and> ri_name r = name \<and> ri_ok r"
proof (cases "1 < length vals")
  case True
  then obtain x xs where vals: "vals = x # xs" and xs: "xs \<noteq> []" by (cases vals) auto
  have dd: "dtype_diffs signed bits vals = exact_diffs vals"
    using fits by (intro dtype_diffs_exact) (simp add: dtype_fits_def)
  from res True dd obtain d where d: "remdups (exact_diffs vals) = [d]" "d \<noteq> 0"
    and r: "r = of_range \<lparr>rstart = hd vals, rstop = wrap_dtype signed bits (last vals + d), rstep = d\<rparr> name"
    by (auto simp: try_reconstruct_def split: list.splits if_splits)
  have set: "set (exact_diffs vals) = {d}" using d(1) by (rule remdups_single)
  have "hd (exact_diffs vals) = d"
    using set xs by (cases xs) (auto simp: vals exact_diffs_def)
  with fits have wrap: "wrap_dtype signed bits (last vals + d) = last vals + d" by (simp add: dtype_fits_def)
  have vs: "vals = map (\<lambda>i. x + int i * d) [0..<Suc (length xs)]"
    using evenly_spaced [of x xs d] set unfolding vals exact_diffs_def by simp
  then have "last vals = x + int (length xs) * d" by simp
  then have "r = of_range \<lparr>rstart = x, rstop = x + int (Suc (length xs)) * d, rstep = d\<rparr> name"
    using r wrap by (simp add: vals algebra_simps)
  then show ?thesis using rlist_exact [OF d(2), of x "Suc (length xs)"] vs d(2)
    by (simp add: ri_ok_def range_ok_def del: upt_Suc)
next
  case False
  then consider "vals = []" | x where "vals = [x]" by (cases vals) (auto simp: length_Suc_conv)
  then show ?thesis
  proof cases
    case 1
    then show ?thesis using res by (auto simp: try_reconstruct_def ri_ok_def range_ok_def split: if_splits)
  next
    case 2
    then have "r = of_range \<lparr>rstart = x, rstop = x + 1, rstep = 1\<rparr> name"
      using res by (auto simp: try_reconstruct_def split: if_splits)
    then show ?thesis using rlist_exact [of 1 x 1] 2 by (simp add: ri_ok_def range_ok_def)
  qed
qed

section \<open>Properties\<close>

text \<open>C19: An arithmetic operation that stays in the range representation computes the
  elementwise result: adding, subtracting (on either side), multiplying or floor-dividing
  a RangeIndex by an integer, a bool or a zero-dimensional integer array.  The name is kept
  and the result is a well-formed range.\<close>

theorem range_binaryop_elementwise:
  assumes "ri_ok ix" and "operand_value other = Some k" and "ri_binaryop ix other op = Inr (Ranged r)"
  shows "map (\<lambda>x. binop_value op x k) (ri_values ix) = map Some (ri_values r)
     \<and> ri_name r = ri_name ix \<and> ri_ok r"
proof -
  obtain b other' where "ri_binop_int ix k b other' op = Inr (Ranged r)"
    using assms(2,3) by (cases other) (auto simp del: ri_binop_int.simps)
  from ri_binop_int_values [OF assms(1) this] show ?thesis by simp
qed

theorem range_binaryop_elementwise_witness:
  "map (\<lambda>x. binop_value OpFloorDiv x (- 2)) (ri_values (of_range \<lparr>rstart = 4, rstop = 13, rstep = 4\<rparr> None))
     = map Some (ri_values (of_range \<lparr>rstart = - 2, rstop = - 8, rstep = - 2\<rparr> None))"
proof -
  let ?ix = "of_range \<lparr>rstart = 4, rstop = 13, rstep = 4\<rparr> None"
  have "ri_binaryop ?ix (OInt (- 2)) OpFloorDiv
     = Inr (Ranged (of_range \<lparr>rstart = - 2, rstop = - 8, rstep = - 2\<rparr> None))"
    by (simp add: new_range_index_simp rlen_def)
  from range_binaryop_elementwise [OF _ _ this] show ?thesis by (simp add: ri_ok_def range_ok_def)
qed

text \<open>C18: The intersection of two RangeIndexes, computed by the extended Euclidean
  algorithm without materialising either operand, has exactly the common elements; unless
  \<open>sort\<close> is False they are in ascending order.\<close>

theorem range_intersection_correct:
  assumes "ri_ok ix" and "ri_ok other"
  shows "set (ri_values (ri_intersection ix other srt)) = set (ri_values ix) \<inter> set (ri_values other)
     \<and> ri_ok (ri_intersection ix other srt)
     \<and> (srt \<noteq> Some False \<longrightarrow> sorted (ri_values (ri_intersection ix other srt)))"
  using ri_intersection_set [OF assms] by blast

theorem range_intersection_correct_witness:
  "set (ri_values (ri_intersection (of_range \<lparr>rstart = 20, rstop = 0, rstep = - 3\<rparr> None)
          (of_range \<lparr>rstart = 0, rstop = 40, rstep = 4\<rparr> None) None))
   = set (ri_values (of_range \<lparr>rstart = 20, rstop = 0, rstep = - 3\<rparr> None))
     \<inter> set (ri_values (of_range \<lparr>rstart = 0, rstop = 40, rstep = 4\<rparr> None))"
  using range_intersection_correct [of "of_range \<lparr>rstart = 20, rstop = 0, rstep = - 3\<rparr> None"
      "of_range \<lparr>rstart = 0, rstop = 40, rstep = 4\<rparr> None" None]
  by (simp add: ri_ok_def range_ok_def)

text \<open>C17: When \<open>_union\<close> answers with a range, that range has exactly the elements of
  both operands, in ascending order.  The caller guarantees the two operands to be
  non-empty and different.\<close>

theorem range_union_correct:
  assumes "ri_ok ix" and "ri_ok other" and "0 < ri_len ix" and "0 < ri_len other"
    and "ri_values ix \<noteq> ri_values other" and "ri_union ix other srt = Inr (Ranged r)"
  shows "set (ri_values r) = set (ri_values ix) \<union> set (ri_values other) \<and> sorted (ri_values r)"
proof -
  obtain r' where f: "union_fast ix other = Inr (Some r')"
    and r: "r = (if srt \<noteq> Some False \<and> \<not> ri_is_monotonic_increasing r' then ri_sorted r' else r')"
    using assms(6) by (auto simp: ri_union_def rbind_Inr_iff split: option.splits)
  have "ri_len ix = 1 \<Longrightarrow> ri_len other = 1 \<Longrightarrow> ri_start ix \<noteq> ri_start other"
    using assms(5) by (auto simp: rlist_def)
  from union_fast_set [OF assms(1-4) this f]
  have r': "set (ri_values r') = set (ri_values ix) \<union> set (ri_values other)" "0 < ri_step r'" by simp_all
  then have "r = r'" by (simp add: r ri_is_monotonic_increasing_def)
  with r' show ?thesis by (simp add: rlist_ascending)
qed

theorem range_union_correct_witness:
  "set (ri_values (of_range \<lparr>rstart = 0, rstop = 12, rstep = 2\<rparr> None))
   = set (ri_values (of_range \<lparr>rstart = 0, rstop = 6, rstep = 2\<rparr> None))
     \<union> set (ri_values (of_range \<lparr>rstart = 10, rstop = 4, rstep = - 2\<rparr> None))"
proof -
  have l: "ri_len (of_range \<lparr>rstart = 0, rstop = 6, rstep = 2\<rparr> None) = 3"
    "ri_len (of_range \<lparr>rstart = 10, rstop = 4, rstep = - 2\<rparr> None) = 3" by (simp_all add: rlen_def)
  have v: "ri_values (of_range \<lparr>rstart = 0, rstop = 6, rstep = 2\<rparr> None)
      \<noteq> ri_values (of_range \<lparr>rstart = 10, rstop = 4, rstep = - 2\<rparr> None)"
    by (simp add: rlist_def rlen_def upt_rec)
  have "ri_union (of_range \<lparr>rstart = 0, rstop = 6, rstep = 2\<rparr> None)
          (of_range \<lparr>rstart = 10, rstop = 4, rstep = - 2\<rparr> None) None
      = Inr (Ranged (of_range \<lparr>rstart = 0, rstop = 12, rstep = 2\<rparr> None))"
    using l by (simp add: ri_union_def union_fast_def union_params_def union_ascending_def Let_def
        new_range_index_simp ri_is_monotonic_increasing_def)
  moreover have "0 < ri_len (of_range \<lparr>rstart = 0, rstop = 6, rstep = 2\<rparr> None)"
    "0 < ri_len (of_range \<lparr>rstart = 10, rstop = 4, rstep = - 2\<rparr> None)" unfolding l by simp_all
  moreover have "ri_ok (of_range \<lparr>rstart = 0, rstop = 6, rstep = 2\<rparr> None)"
    "ri_ok (of_range \<lparr>rstart = 10, rstop = 4, rstep = - 2\<rparr> None)" by (simp_all add: ri_ok_def range_ok_def)
  ultimately show ?thesis using range_union_correct v by blast
qed

text \<open>The union of two interleaving ranges of the same even step, each of two or more
  elements, always raises TypeError instead of returning the range of half the step:
  \<open>step_s / 2\<close> is a float and the constructor rejects it.\<close>

theorem range_union_half_step_raises:
  assumes "0 < k" and "2 \<le> n"
  shows "ri_union (of_range \<lparr>rstart = a, rstop = a + int n * (2 * k), rstep = 2 * k\<rparr> name)
      (of_range \<lparr>rstart = a + k, rstop = a + k + int n * (2 * k), rstep = 2 * k\<rparr> name') srt = Inl TypeError"
proof -
  have l: "rlen \<lparr>rstart = b, rstop = b + int n * (2 * k), rstep = 2 * k\<rparr> = n" for b
    using assms by (intro rlen_exact) simp
  have m: "(- k) mod (2 * k) = k" using assms(1) mod_add_self2 [of "- k" "2 * k"] by simp
  show ?thesis using assms l [of a] l [of "a + k"] m
    by (simp add: ri_union_def union_fast_def union_params_def union_ascending_def Let_def)
qed

theorem range_union_half_step_raises_witness:
  "ri_union (of_range \<lparr>rstart = 0, rstop = 10, rstep = 2\<rparr> None)
     (of_range \<lparr>rstart = 1, rstop = 11, rstep = 2\<rparr> None) None = Inl TypeError"
  using range_union_half_step_raises [of 1 5 0 None None None] by simp

text \<open>\<open>get_loc\<close> returns the position of every key in the index and raises KeyError
  for every other key except one: when the step divides \<open>stop - start\<close> the bound test lets
  \<open>key = stop\<close>, which is not in the index, through, and its out-of-range position is
  returned.\<close>

theorem range_get_loc:
  assumes "ri_ok ix"
  shows "ri_get_loc ix key =
    (if key \<in> set (ri_values ix) then Inr (position_of (ri_values ix) key)
     else if key = ri_stop ix \<and> (ri_stop ix - ri_start ix) mod ri_step ix = 0
             \<and> 0 \<le> (ri_stop ix - ri_start ix) div ri_step ix
     then Inr ((ri_stop ix - ri_start ix) div ri_step ix)
     else Inl KeyError)"
  using assms position_of_rlist [of "ri_range ix" key]
  by (simp add: get_loc_cases ri_ok_def del: position_of.simps)

theorem range_get_loc_witness:
  "ri_get_loc (of_range \<lparr>rstart = 0, rstop = 10, rstep = 1\<rparr> None) 10 = Inr 10
   \<and> 10 \<notin> set (ri_values (of_range \<lparr>rstart = 0, rstop = 10, rstep = 1\<rparr> None))"
proof -
  have "10 \<notin> set (ri_values (of_range \<lparr>rstart = 0, rstop = 10, rstep = 1\<rparr> None))"
    by (simp add: mem_rlist_up)
  then show ?thesis
    using range_get_loc [of "of_range \<lparr>rstart = 0, rstop = 10, rstep = 1\<rparr> None" 10]
    by (simp add: ri_ok_def range_ok_def)
qed

text \<open>C21: The positions that \<open>get_indexer\<close> computes by arithmetic in the dtype of the target are the
  right ones when nothing overflows: for a signed target dtype that holds the least value of the range,
  its step, its length and the difference of every target value and the least value, and a range of at
  most 2 to the power 53 from end to end (so that the true division is exact), no exception is raised,
  each target value in the index gets its position, and every other one gets \<open>-1\<close>, for ascending and
  descending ranges.  The differences of an unsigned target wrap, so no such claim holds of them.\<close>

theorem range_get_indexer:
  assumes "ri_ok ix" and "0 < bits"
    and "holds_signed bits (least_value ix)" and "holds_signed bits \<bar>ri_step ix\<bar>" and "holds_signed bits (int (ri_len ix))"
    and "\<forall>v \<in> set target. holds_signed bits (v - least_value ix)"
    and "\<bar>ri_stop ix - ri_start ix\<bar> \<le> 2 ^ 53"
  shows "ri_get_indexer True bits ix target = Inr (map (position_of (ri_values ix)) target)"
  by (rule get_indexer_positions [OF assms(1-6)])

theorem range_get_indexer_witness:
  "ri_get_indexer True 8 (of_range \<lparr>rstart = 9, rstop = 0, rstep = - 3\<rparr> None) [3, 9, 0, 4] = Inr [2, 0, - 1, - 1]"
  using range_get_indexer [of "of_range \<lparr>rstart = 9, rstop = 0, rstep = - 3\<rparr> None" 8 "[3, 9, 0, 4]"]
  by (simp add: ri_ok_def range_ok_def rlist_def rlen_def upt_rec holds_signed_def least_value_def range_rev_def)

text \<open>C20: \<open>searchsorted\<close> is the number of elements that precede the insertion point: those
  below \<open>v\<close> (left) or not above \<open>v\<close> (right) in an ascending range, those above \<open>v\<close>
  (left) or not below \<open>v\<close> (right) in a descending one.\<close>

theorem range_searchsorted:
  assumes "ri_ok ix" and "side \<noteq> SideOther" and "ascending = (0 < ri_step ix)"
  shows "ri_searchsorted ix v side ascending = Inr (searchsorted_spec ix v side)"
  using assms by (rule searchsorted_counts)

theorem range_searchsorted_witness:
  "ri_searchsorted (of_range \<lparr>rstart = 9, rstop = 0, rstep = - 3\<rparr> None) 6 SideRight False = Inr 2"
  using range_searchsorted [of "of_range \<lparr>rstart = 9, rstop = 0, rstep = - 3\<rparr> None" SideRight False 6]
  by (simp add: ri_ok_def range_ok_def searchsorted_spec_def rlist_def rlen_def upt_rec)

text \<open>C22: Slicing a RangeIndex never leaves the ranges: for every slice with optional, negative and
  out-of-range bounds and a step of either sign, \<open>__getitem__\<close> returns a well formed RangeIndex with the
  same name whose values are the slice of the values; it raises ValueError exactly for the step zero.\<close>

theorem range_getitem_slice:
  assumes "ri_ok ix"
  shows "if sl_step s = Some 0 then ri_getitem ix (XSlice s) = Inl ValueError
     else \<exists>r. ri_getitem ix (XSlice s) = Inr (GotIndex r) \<and> list_slice (ri_values ix) s = Inr (ri_values r)
       \<and> ri_name r = ri_name ix \<and> ri_ok r"
proof (cases "sl_step s = Some 0")
  case True
  then show ?thesis by (simp add: range_slice_def slice_indices_def)
next
  case False
  then have "(case sl_step s of None \<Rightarrow> 1 | Some k \<Rightarrow> k) \<noteq> 0" by (auto split: option.splits)
  then have "\<exists>a b st. slice_indices s (ri_len ix) = Inr (a, b, st)" by (simp add: slice_indices_def Let_def)
  then obtain r where r: "range_slice (ri_range ix) s = Inr r" by (auto simp: range_slice_def)
  then show ?thesis using range_slice_list [OF _ r] assms False by (simp add: ri_ok_def)
qed

theorem range_getitem_slice_witness:
  "\<exists>r. ri_getitem (of_range \<lparr>rstart = 0, rstop = 10, rstep = 3\<rparr> None)
      (XSlice \<lparr>sl_start = Some (- 1), sl_stop = None, sl_step = Some (- 2)\<rparr>) = Inr (GotIndex r)
    \<and> list_slice (ri_values (of_range \<lparr>rstart = 0, rstop = 10, rstep = 3\<rparr> None))
      \<lparr>sl_start = Some (- 1), sl_stop = None, sl_step = Some (- 2)\<rparr> = Inr (ri_values r)
    \<and> ri_ok r"
proof -
  have "ri_ok (of_range \<lparr>rstart = 0, rstop = 10, rstep = 3\<rparr> None)" by (simp add: ri_ok_def range_ok_def)
  from range_getitem_slice [OF this, of "\<lparr>sl_start = Some (- 1), sl_stop = None, sl_step = Some (- 2)\<rparr>"]
  show ?thesis unfolding pyslice.select_convs by auto
qed

text \<open>\<open>sort_values\<close> with \<open>return_indexer\<close> returns the values in the requested
  order together with the permutation that produces them; only a step is compared, no
  value is.\<close>

theorem range_sort_values:
  assumes "ri_ok ix" and "pos \<noteq> NaOther"
  shows "\<exists>s p. ri_sort_values ix True ascending pos False = Inr (s, Some p)
     \<and> ri_values s = map ((!) (ri_values ix)) p
     \<and> distinct p \<and> set p = {..<ri_len ix}
     \<and> (if ascending then sorted (ri_values s) else sorted (rev (ri_values s)))"
proof -
  have nz: "ri_step ix \<noteq> 0" using assms(1) by (simp add: ri_ok_def range_ok_def)
  have up: "map ((!) (ri_values ix)) [0..<ri_len ix] = ri_values ix"
    using map_nth [of "ri_values ix"] by simp
  have down: "map ((!) (ri_values ix)) (rev [0..<ri_len ix]) = rev (ri_values ix)"
    unfolding rev_map [symmetric] up ..
  have asc: "0 < ri_step ix \<Longrightarrow> sorted (ri_values ix)" "ri_step ix < 0 \<Longrightarrow> sorted (rev (ri_values ix))"
    by (simp_all add: rlist_ascending rlist_descending)
  have set: "set (rev [0..<ri_len ix]) = {..<ri_len ix}" "set [0..<ri_len ix] = {..<ri_len ix}"
    by (simp_all add: atLeast0LessThan)
  show ?thesis
  proof (cases "ri_flips ix ascending")
    case True
    then have "ri_sort_values ix True ascending pos False = Inr (ri_reverse ix, Some (rev [0..<ri_len ix]))"
      using assms by (simp add: ri_sort_values_def ri_argsort_def)
    moreover have "if ascending then sorted (ri_values (ri_reverse ix)) else sorted (rev (ri_values (ri_reverse ix)))"
      using True asc nz by (auto simp: ri_reverse_values assms(1) ri_flips_def)
    ultimately show ?thesis using down set ri_reverse_values [OF assms(1)]
      by (metis distinct_rev distinct_upt)
  next
    case False
    then have "ri_sort_values ix True ascending pos False = Inr (ix, Some [0..<ri_len ix])"
      using assms by (simp add: ri_sort_values_def ri_argsort_def)
    moreover have "if ascending then sorted (ri_values ix) else sorted (rev (ri_values ix))"
      using False asc nz by (auto simp: ri_flips_def)
    ultimately show ?thesis using up set by (metis distinct_upt)
  qed
qed

theorem range_sort_values_witness:
  "\<exists>s p. ri_sort_values (of_range \<lparr>rstart = 0, rstop = 10, rstep = 3\<rparr> None) True False NaLast False = Inr (s, Some p)
     \<and> sorted (rev (ri_values s))"
  using range_sort_values [of "of_range \<lparr>rstart = 0, rstop = 10, rstep = 3\<rparr> None" NaLast False]
  by (auto simp: ri_ok_def range_ok_def)

text \<open>A RangeIndex survives serialisation: deserialising the header gives back the same
  range and name.\<close>

theorem range_serialize_roundtrip:
  assumes "ri_ok ix"
  shows "ri_deserialize (ri_serialize ix) = Inr ix"
  using assms
  by (simp add: ri_deserialize_def ri_serialize_def mk_range_def ri_ok_def range_ok_def)

theorem range_serialize_roundtrip_witness:
  "ri_deserialize (ri_serialize (of_range \<lparr>rstart = 5, rstop = - 4, rstep = - 2\<rparr> (Some ''a'')))
   = Inr (of_range \<lparr>rstart = 5, rstop = - 4, rstep = - 2\<rparr> (Some ''a''))"
  by (rule range_serialize_roundtrip) (simp add: ri_ok_def range_ok_def)

text \<open>A range reconstructed from a materialised integer index lists exactly the values
  of that index and keeps its name, as long as the differences of neighbours and the last
  value plus one difference fit the dtype.\<close>

theorem range_try_reconstruct:
  assumes "try_reconstruct vals False signed bits name = Some r"
    and "dtype_fits signed bits ((last vals + hd (exact_diffs vals)) # exact_diffs vals)"
  shows "ri_values r = vals \<and> ri_name r = name \<and> ri_ok r"
  using assms by (rule try_reconstruct_values)

theorem range_try_reconstruct_witness:
  "ri_values (of_range \<lparr>rstart = 7, rstop = - 2, rstep = - 3\<rparr> None) = [7, 4, 1]"
proof -
  have "try_reconstruct [7, 4, 1] False True 8 None = Some (of_range \<lparr>rstart = 7, rstop = - 2, rstep = - 3\<rparr> None)"
    by (simp add: try_reconstruct_def dtype_diffs_def wrap_dtype_def)
  from range_try_reconstruct [OF this] show ?thesis
    by (simp add: dtype_fits_def exact_diffs_def wrap_dtype_def)
qed

text \<open>Without that bound the reconstruction loses the values: two neighbouring int64
  values that end at the largest one become an empty range, because \<open>index[-1] + diff\<close> wraps
  around; the one-element case guards against exactly this, the general case does not.\<close>

theorem range_reconstruct_overflow:
  "\<exists>r. try_reconstruct [2 ^ 63 - 2, 2 ^ 63 - 1] False True 64 name = Some r \<and> ri_values r = []"
  by (simp add: try_reconstruct_def dtype_diffs_def wrap_dtype_def rlen_def)

text \<open>\<open>RangeIndex.notnull\<close> is bound to \<open>isna\<close>: on every non-empty RangeIndex it
  answers the opposite of its alias \<open>notna\<close> at every position.\<close>

theorem range_notnull_is_isna:
  "ri_notnull ix = map Not (ri_notna ix) \<and> (ri_notnull ix = ri_notna ix) = (ri_values ix = [])"
  by (simp add: ri_notnull_def ri_isna_def ri_notna_def)

text \<open>When concatenating RangeIndexes yields a RangeIndex, its values are the
  concatenated values, provided the result does not have exactly one element.\<close>

theorem range_concat_values:
  assumes "list_all ri_ok indexes" and "concat_range_index indexes = Inr (Some r)"
    and "length (concat (map ri_values indexes)) \<noteq> 1"
  shows "ri_values r = concat (map ri_values indexes)"
  using assms by (rule concat_range_values)

theorem range_concat_values_witness:
  "ri_values (of_range \<lparr>rstart = 7, rstop = - 1, rstep = - 2\<rparr> None) = [7, 5, 3, 1]"
proof -
  let ?xs = "[of_range \<lparr>rstart = 7, rstop = 8, rstep = 1\<rparr> None, of_range \<lparr>rstart = 0, rstop = 0, rstep = 1\<rparr> None,
    of_range \<lparr>rstart = 5, rstop = 2, rstep = - 2\<rparr> None, of_range \<lparr>rstart = 1, rstop = 9, rstep = 8\<rparr> None]"
  have "concat_range_index ?xs = Inr (Some (of_range \<lparr>rstart = 7, rstop = - 1, rstep = - 2\<rparr> None))"
    by (simp add: concat_range_index_def new_range_index_simp rlen_def)
  from range_concat_values [OF _ this] show ?thesis
    by (simp add: ri_ok_def range_ok_def rlist_def rlen_def upt_rec)
qed

text \<open>With exactly one element the step of the operand is forgotten and 1 is used: for
  every \<open>n\<close>, concatenating a single one-element index whose stop lies \<open>n\<close> after its start
  gives \<open>n\<close> elements.\<close>

theorem range_concat_single_wrong:
  "\<exists>r. concat_range_index [of_range \<lparr>rstart = a, rstop = a + int (Suc n), rstep = int (Suc n)\<rparr> name] = Inr (Some r)
     \<and> ri_values (of_range \<lparr>rstart = a, rstop = a + int (Suc n), rstep = int (Suc n)\<rparr> name) = [a]
     \<and> ri_len r = Suc n"
proof -
  have one: "rlen \<lparr>rstart = a, rstop = a + int (Suc n), rstep = int (Suc n)\<rparr> = 1"
    using rlen_exact [of "int (Suc n)" a 1] by simp
  have len: "rlen \<lparr>rstart = a, rstop = a + int (Suc n), rstep = 1\<rparr> = Suc n"
    using rlen_exact [of 1 a "Suc n"] by simp
  show ?thesis using one len rlist_one [OF one]
    by (simp add: concat_range_index_def new_range_index_simp del: of_nat_Suc)
qed

end
