(* ===== verification/ColumnAccessorModel.thy ===== *)
theory ColumnAccessorModel
  imports PyRange
begin

text \<open>
  \<open>ColumnAccessor\<close> (\<open>cudf/core/column_accessor.py\<close>): the ordered mapping from column
  labels to columns that underlies every cuDF frame, with its hierarchical labels, its
  cached properties and its selection operations.

  A label is a Python object: a string, an int, a float NaN (with the identity of the
  object, \<open>LNaN 0\<close> being \<open>np.nan\<close>), None, \<open>pd.NA\<close>, \<open>slice(None)\<close> in a selection
  key, or a tuple.  Equality of the datatype is what a dict lookup uses: identity first,
  then \<open>==\<close>.  The dict is an association list.  The cached properties are fields that are
  None until they are computed; a method that reads one finds the cached value, so a
  method is only right on an object whose caches agree with its data.
\<close>

section \<open>Labels\<close>

datatype label =
    LStr string | LInt int | LNaN nat | LNone | LNA | LSlice
  | LTup (label_parts: "label list")

fun is_tuple :: "label \<Rightarrow> bool" where
  "is_tuple (LTup _) = True"
| "is_tuple _ = False"

fun is_nan_scalar :: "label \<Rightarrow> bool" where
  "is_nan_scalar (LNaN _) = True"
| "is_nan_scalar _ = False"

fun label_contains_nan :: "label \<Rightarrow> bool" where
  "label_contains_nan (LTup xs) = list_ex is_nan_scalar xs"
| "label_contains_nan l = is_nan_scalar l"

fun canonicalize_nan_label :: "label \<Rightarrow> label" where
  "canonicalize_nan_label (LTup xs) = LTup (map (\<lambda>lv. if is_nan_scalar lv then LNaN 0 else lv) xs)"
| "canonicalize_nan_label l = (if is_nan_scalar l then LNaN 0 else l)"

text \<open>\<open>c is canon or bool(c == canon)\<close>; the comparison of tuples goes element by element,
  identity first, and the truth value of a comparison with \<open>pd.NA\<close> raises: None.\<close>

function item_eq :: "label \<Rightarrow> label \<Rightarrow> bool option" and tuple_eq :: "label list \<Rightarrow> label list \<Rightarrow> bool option" where
  "item_eq a b =
     (if a = b then Some True
      else if a = LNA \<or> b = LNA then None
      else (case (a, b) of (LTup xs, LTup ys) \<Rightarrow> tuple_eq xs ys | _ \<Rightarrow> Some False))"
| "tuple_eq [] [] = Some True"
| "tuple_eq [] (y # ys) = Some False"
| "tuple_eq (x # xs) [] = Some False"
| "tuple_eq (x # xs) (y # ys) =
     (case item_eq x y of Some True \<Rightarrow> tuple_eq xs ys | r \<Rightarrow> r)"
  by pat_completeness auto
termination
  by (relation "measure (case_sum (\<lambda>(a, b). size a) (\<lambda>(xs, ys). size_list size xs))")
    auto

text \<open>The scalar \<open>==\<close> of a test, without the identity shortcut.\<close>

fun scalar_eq :: "label \<Rightarrow> label \<Rightarrow> bool res" where
  "scalar_eq a b =
     (if a = LNA \<or> b = LNA then Inl TypeError
      else if is_nan_scalar a \<or> is_nan_scalar b then Inr False
      else (case (a, b) of
          (LTup xs, LTup ys) \<Rightarrow> of_option TypeError (tuple_eq xs ys)
        | _ \<Rightarrow> Inr (a = b)))"

text \<open>Iterating over a label: the elements of a tuple, the characters of a string.\<close>

fun label_iter :: "label \<Rightarrow> label list res" where
  "label_iter (LTup xs) = Inr xs"
| "label_iter (LStr s) = Inr (map (\<lambda>c. LStr [c]) s)"
| "label_iter _ = Inl TypeError"

text \<open>\<open>_keys_equal\<close>: the loop over \<open>zip_longest(target, key)\<close>.\<close>

fun zip_longest_equal :: "label list \<Rightarrow> label list \<Rightarrow> bool res" where
  "zip_longest_equal [] [] = Inr True"
| "zip_longest_equal (k1 # t) [] = rbind (scalar_eq k1 LNone) (\<lambda>e. if e then zip_longest_equal t [] else Inr False)"
| "zip_longest_equal [] (k2 # k) =
     (if k2 = LSlice then zip_longest_equal [] k
      else rbind (scalar_eq LNone k2) (\<lambda>e. if e then zip_longest_equal [] k else Inr False))"
| "zip_longest_equal (k1 # t) (k2 # k) =
     (if k2 = LSlice then zip_longest_equal t k
      else rbind (scalar_eq k1 k2) (\<lambda>e. if e then zip_longest_equal t k else Inr False))"

fun keys_equal :: "label \<Rightarrow> label \<Rightarrow> bool res" where
  "keys_equal (LTup t) key = rbind (label_iter key) (zip_longest_equal t)"
| "keys_equal target key = scalar_eq target key"

text \<open>\<open>_remove_key_level\<close> and \<open>_get_level\<close>.\<close>

text \<open>\<open>xs[:i] + xs[i + 1:]\<close>.\<close>

definition without_level :: "'a list \<Rightarrow> int \<Rightarrow> 'a list" where
  "without_level xs i =
     (let cut = (\<lambda>j. nat (if j < 0 then j + int (length xs) else j))
      in take (cut i) xs @ drop (cut (i + 1)) xs)"

fun remove_key_level :: "label \<Rightarrow> int \<Rightarrow> label res" where
  "remove_key_level (LTup key) level =
     Inr (case without_level key level of [x] \<Rightarrow> x | result \<Rightarrow> LTup result)"
| "remove_key_level (LStr key) level = Inr (LStr (without_level key level))"
| "remove_key_level key level = Inl TypeError"

fun index_of :: "'a \<Rightarrow> 'a list \<Rightarrow> nat option" where
  "index_of x [] = None"
| "index_of x (y # ys) = (if x = y then Some 0 else map_option Suc (index_of x ys))"

fun get_level :: "label \<Rightarrow> nat \<Rightarrow> label list \<Rightarrow> int res" where
  "get_level (LInt x) nlevels level_names =
     (let x' = (if x < 0 then x + int nlevels else x)
      in if int nlevels \<le> x' then Inl IndexError else Inr x')"
| "get_level x nlevels level_names = of_option ValueError (map_option int (index_of x level_names))"

section \<open>State\<close>

text \<open>A column is its list of values; \<open>NotCol n\<close> is an object of length \<open>n\<close> that is not a
  column.\<close>

datatype 'v colval = Col (col_values: "'v list") | NotCol nat

fun colval_len :: "'v colval \<Rightarrow> nat" where
  "colval_len (Col vs) = length vs"
| "colval_len (NotCol n) = n"

fun is_column :: "'v colval \<Rightarrow> bool" where
  "is_column (Col _) = True"
| "is_column (NotCol _) = False"

datatype 'v tree = Leaf "'v colval" | Branch "(label \<times> 'v tree) list"

type_synonym 'v forest = "(label \<times> 'v tree) list"

datatype 'v grouped = GAlias | GNested "'v forest"

datatype pandas_index =
    PMulti "label list" "label list"
  | PRange pyrange label
  | PIndex "label list" label "string option"

record 'v accessor =
  a_data :: "(label, 'v colval) pydict"
  a_multiindex :: bool
  a_level_names :: "label list option"
  a_rangeindex :: bool
  a_label_dtype :: "string option"
  a_level_dtypes :: "string list option"
  k_names :: "label list option"
  k_columns :: "'v colval list option"
  k_grouped :: "'v grouped option"
  k_nrows :: "nat option"
  k_pandas :: "pandas_index option"

definition ca_len :: "'v accessor \<Rightarrow> nat" where
  "ca_len s = length (a_data s)"

section \<open>Construction\<close>

text \<open>The validation of \<open>__init__\<close>: the first column gives the length.\<close>

fun verify_columns :: "nat \<Rightarrow> (label, 'v colval) pydict \<Rightarrow> bool" where
  "verify_columns n [] = True"
| "verify_columns n ((k, c) # d) = (is_column c \<and> colval_len c = n \<and> verify_columns n d)"

fun pindex_is_multi :: "pandas_index \<Rightarrow> bool" where
  "pindex_is_multi (PMulti _ _) = True"
| "pindex_is_multi _ = False"

fun pindex_labels :: "pandas_index \<Rightarrow> label list" where
  "pindex_labels (PMulti ls _) = ls"
| "pindex_labels (PRange r _) = map LInt (rlist r)"
| "pindex_labels (PIndex ls _ _) = ls"

fun pindex_names :: "pandas_index \<Rightarrow> label list" where
  "pindex_names (PMulti _ ns) = ns"
| "pindex_names (PRange _ n) = [n]"
| "pindex_names (PIndex _ n _) = [n]"

definition prime_to_pandas_index :: "'v accessor \<Rightarrow> pandas_index \<Rightarrow> 'v accessor" where
  "prime_to_pandas_index s index =
     (if a_multiindex s \<and> pindex_is_multi index \<and> length (a_data s) = length (pindex_labels index)
      then s\<lparr>k_pandas := Some index\<rparr> else s)"

definition ca_init ::
  "(label, 'v colval) pydict \<Rightarrow> bool \<Rightarrow> label list option \<Rightarrow> bool \<Rightarrow> string option \<Rightarrow> bool
   \<Rightarrow> string list option \<Rightarrow> pandas_index option \<Rightarrow> 'v accessor res" where
  "ca_init data multiindex level_names rangeindex label_dtype verify level_dtypes pindex =
     (if data \<noteq> [] \<and> verify \<and> \<not> verify_columns (colval_len (snd (hd data))) data then Inl ValueError
      else if rangeindex \<and> multiindex then Inl ValueError
      else
        (let s = \<lparr>a_data = data, a_multiindex = multiindex, a_level_names = level_names,
                  a_rangeindex = rangeindex, a_label_dtype = label_dtype, a_level_dtypes = level_dtypes,
                  k_names = None, k_columns = None, k_grouped = None, k_nrows = None, k_pandas = None\<rparr>
         in Inr (case pindex of None \<Rightarrow> s | Some ix \<Rightarrow> prime_to_pandas_index s ix)))"

section \<open>Properties of an accessor\<close>

definition is_cached_pandas :: "'v accessor \<Rightarrow> bool" where
  "is_cached_pandas s \<longleftrightarrow> k_pandas s \<noteq> None"

text \<open>\<open>nlevels\<close> takes \<open>len\<close> of the first key, which fails on a scalar that is not a string.\<close>

definition ca_nlevels :: "'v accessor \<Rightarrow> nat res" where
  "ca_nlevels s =
     (if ca_len s = 0 then Inr 0
      else if \<not> a_multiindex s then Inr 1
      else rbind (label_iter (fst (hd (a_data s)))) (Inr \<circ> length))"

definition ca_level_names :: "'v accessor \<Rightarrow> label list res" where
  "ca_level_names s =
     (case k_pandas s of
        Some ix \<Rightarrow> Inr (pindex_names ix)
      | None \<Rightarrow>
          (case a_level_names s of
             Some (n # ns) \<Rightarrow> Inr (n # ns)
           | _ \<Rightarrow> rbind (ca_nlevels s) (\<lambda>n. Inr (replicate (max 1 n) LNone))))"

definition ca_name :: "'v accessor \<Rightarrow> label res" where
  "ca_name s = rbind (ca_level_names s) (\<lambda>ns. if ns = [] then Inl IndexError else Inr (last ns))"

definition ca_names :: "'v accessor \<Rightarrow> label list" where
  "ca_names s = (case k_names s of Some ns \<Rightarrow> ns | None \<Rightarrow> dkeys (a_data s))"

definition ca_columns :: "'v accessor \<Rightarrow> 'v colval list" where
  "ca_columns s = (case k_columns s of Some cs \<Rightarrow> cs | None \<Rightarrow> dvalues (a_data s))"

definition compute_nrows :: "(label, 'v colval) pydict \<Rightarrow> nat" where
  "compute_nrows d = (case d of [] \<Rightarrow> 0 | (k, c) # _ \<Rightarrow> colval_len c)"

definition ca_nrows :: "'v accessor \<Rightarrow> nat" where
  "ca_nrows s = (case k_nrows s of Some n \<Rightarrow> n | None \<Rightarrow> compute_nrows (a_data s))"

section \<open>Nested data\<close>

text \<open>\<open>_NestedGetItemDict.from_zip\<close>: walking down with \<open>setdefault\<close> and storing at the
  last element of the key.  Keys of different lengths can make the walk meet a column.\<close>

fun nested_set :: "label list \<Rightarrow> 'v colval \<Rightarrow> 'v forest \<Rightarrow> 'v forest res" where
  "nested_set [] v d = Inl IndexError"
| "nested_set [k] v d = Inr (dset k (Leaf v) d)"
| "nested_set (k # ks) v d =
     (case map_of d k of
        Some (Leaf _) \<Rightarrow> Inl AttributeError
      | Some (Branch d') \<Rightarrow> rbind (nested_set ks v d') (\<lambda>d''. Inr (dset k (Branch d'') d))
      | None \<Rightarrow> rbind (nested_set ks v []) (\<lambda>d''. Inr (dset k (Branch d'') d)))"

fun from_zip :: "'v forest \<Rightarrow> (label \<times> 'v colval) list \<Rightarrow> 'v forest res" where
  "from_zip obj [] = Inr obj"
| "from_zip obj ((key, value) # data) =
     rbind (label_iter key) (\<lambda>path. rbind (nested_set path value obj) (\<lambda>obj'. from_zip obj' data))"

text \<open>\<open>_NestedGetItemDict.__getitem__\<close>: a tuple is followed element by element.\<close>

fun nested_get :: "'v tree \<Rightarrow> label list \<Rightarrow> 'v tree res" where
  "nested_get t [] = Inr t"
| "nested_get (Leaf c) (k # ks) = Inl TypeError"
| "nested_get (Branch d) (k # ks) =
     (case map_of d k of None \<Rightarrow> Inl KeyError | Some t \<Rightarrow> nested_get t ks)"

fun nested_getitem :: "'v forest \<Rightarrow> label \<Rightarrow> 'v tree res" where
  "nested_getitem d (LTup ks) = nested_get (Branch d) ks"
| "nested_getitem d k = of_option KeyError (map_of d k)"

text \<open>\<open>_to_flat_dict_inner\<close>.\<close>

fun to_flat_tree :: "label list \<Rightarrow> label \<Rightarrow> 'v tree \<Rightarrow> (label \<times> 'v colval) list" where
  "to_flat_tree parents k (Leaf c) = [(if parents = [] then k else LTup (parents @ [k]), c)]"
| "to_flat_tree parents k (Branch d) = concat (map (\<lambda>(k', t). to_flat_tree (parents @ [k]) k' t) d)"

definition to_flat_dict :: "'v forest \<Rightarrow> (label \<times> 'v colval) list" where
  "to_flat_dict d = concat (map (\<lambda>(k, t). to_flat_tree [] k t) d)"

definition ca_grouped :: "'v accessor \<Rightarrow> 'v grouped res" where
  "ca_grouped s =
     (case k_grouped s of
        Some g \<Rightarrow> Inr g
      | None \<Rightarrow> if a_multiindex s
                then rbind (from_zip [] (zip (ca_names s) (ca_columns s))) (Inr \<circ> GNested)
                else Inr GAlias)"

definition as_forest :: "'v accessor \<Rightarrow> 'v grouped \<Rightarrow> 'v forest" where
  "as_forest s g = (case g of GAlias \<Rightarrow> map (\<lambda>(k, c). (k, Leaf c)) (a_data s) | GNested d \<Rightarrow> d)"

definition grouped_getitem :: "'v accessor \<Rightarrow> 'v grouped \<Rightarrow> label \<Rightarrow> 'v tree res" where
  "grouped_getitem s g k =
     (case g of
        GAlias \<Rightarrow> of_option KeyError (map_option Leaf (map_of (a_data s) k))
      | GNested d \<Rightarrow> nested_getitem d k)"

section \<open>The pandas index of the labels\<close>

fun label_int :: "label \<Rightarrow> int option" where
  "label_int (LInt i) = Some i"
| "label_int _ = None"

text \<open>The integer labels as a range: one label, or evenly spaced ones.  The differences are
  computed in int64.\<close>

definition labels_range :: "label list \<Rightarrow> pyrange option" where
  "labels_range names =
     (if names = [] then Some \<lparr>rstart = 0, rstop = 0, rstep = 1\<rparr>
      else
        (case those (map label_int names) of
           None \<Rightarrow> None
         | Some [start] \<Rightarrow> Some \<lparr>rstart = start, rstop = start + 1, rstep = 1\<rparr>
         | Some is \<Rightarrow>
             (case remdups (dtype_diffs True 64 is) of
                [diff] \<Rightarrow> (if diff \<noteq> 0
                   then Some \<lparr>rstart = hd is, rstop = wrap_dtype True 64 (last is + diff), rstep = diff\<rparr>
                   else None)
              | _ \<Rightarrow> None)))"

text \<open>\<open>to_pandas_index\<close>: pandas' constructors hold the labels they are given; the dtypes of
  their levels are not modelled.\<close>

definition compute_pandas_index :: "'v accessor \<Rightarrow> pandas_index res" where
  "compute_pandas_index s =
     rbind (ca_level_names s) (\<lambda>level_names.
       if a_multiindex s \<and> level_names \<noteq> []
       then Inr (PMulti (ca_names s) level_names)
       else
         rbind (ca_name s) (\<lambda>name.
           case (if a_rangeindex s then labels_range (ca_names s) else None) of
             Some r \<Rightarrow> Inr (PRange r name)
           | None \<Rightarrow>
               Inr (PIndex (ca_names s) name
                      (if a_label_dtype s \<noteq> None \<or> ca_names s \<noteq> [] then a_label_dtype s
                       else Some ''str''))))"

definition ca_pandas_index :: "'v accessor \<Rightarrow> pandas_index res" where
  "ca_pandas_index s = (case k_pandas s of Some ix \<Rightarrow> Inr ix | None \<Rightarrow> compute_pandas_index s)"

section \<open>Caching\<close>

text \<open>Reading a cached property stores its value on the object.\<close>

datatype cached_attr = ANames | AColumns | AGrouped | ANrows | APandas

fun touch :: "'v accessor \<Rightarrow> cached_attr \<Rightarrow> 'v accessor" where
  "touch s ANames = s\<lparr>k_names := Some (ca_names s)\<rparr>"
| "touch s AColumns = s\<lparr>k_columns := Some (ca_columns s)\<rparr>"
| "touch s AGrouped = (case ca_grouped s of Inl _ \<Rightarrow> s | Inr g \<Rightarrow> s\<lparr>k_grouped := Some g\<rparr>)"
| "touch s ANrows = s\<lparr>k_nrows := Some (ca_nrows s)\<rparr>"
| "touch s APandas = (case ca_pandas_index s of Inl _ \<Rightarrow> s | Inr ix \<Rightarrow> s\<lparr>k_pandas := Some ix\<rparr>)"

definition clear_cache :: "nat \<Rightarrow> nat \<Rightarrow> 'v accessor \<Rightarrow> 'v accessor" where
  "clear_cache old_ncols new_ncols s =
     (let s' = s\<lparr>k_columns := None, k_names := None, k_grouped := None, k_pandas := None\<rparr>
      in if (old_ncols = 0) \<noteq> (new_ncols = 0) then s'\<lparr>k_nrows := None\<rparr> else s')"

section \<open>Lookup and mutation\<close>

fun find_nan_match :: "label \<Rightarrow> (label, 'v colval) pydict \<Rightarrow> 'v colval option" where
  "find_nan_match canon [] = None"
| "find_nan_match canon ((existing, c) # d) =
     (if item_eq (canonicalize_nan_label existing) canon = Some True then Some c
      else find_nan_match canon d)"

definition ca_getitem :: "'v accessor \<Rightarrow> label \<Rightarrow> 'v colval res" where
  "ca_getitem s key =
     (case map_of (a_data s) key of
        Some c \<Rightarrow> Inr c
      | None \<Rightarrow>
          if label_contains_nan key
          then of_option KeyError (find_nan_match (canonicalize_nan_label key) (a_data s))
          else Inl KeyError)"

definition pad_key :: "'v accessor \<Rightarrow> label \<Rightarrow> label \<Rightarrow> label res" where
  "pad_key s key pad =
     (if \<not> a_multiindex s then Inr key
      else
        (let parts = (case key of LTup xs \<Rightarrow> xs | k \<Rightarrow> [k]) in
         rbind (ca_nlevels s) (\<lambda>n. Inr (LTup (parts @ replicate (n - length parts) pad)))))"

definition ca_set_by_label :: "'v accessor \<Rightarrow> label \<Rightarrow> 'v colval \<Rightarrow> 'v accessor res" where
  "ca_set_by_label s key value =
     rbind (pad_key s key (LStr [])) (\<lambda>key'.
       if \<not> is_column value then Inl ValueError
       else if 0 < ca_len s \<and> colval_len value \<noteq> ca_nrows s then Inl ValueError
       else
         (let old_ncols = ca_len s;
              s1 = (if 0 < ca_len s then touch s ANrows else s);
              s2 = s1\<lparr>a_data := dset key' value (a_data s1)\<rparr>
          in Inr (clear_cache old_ncols (ca_len s2) s2)))"

definition ca_delitem :: "'v accessor \<Rightarrow> label \<Rightarrow> 'v accessor res" where
  "ca_delitem s key =
     (if key \<notin> set (dkeys (a_data s)) then Inl KeyError
      else
        (let s' = s\<lparr>a_data := ddel key (a_data s)\<rparr>
         in Inr (clear_cache (ca_len s) (ca_len s') s')))"

text \<open>\<open>insert\<close>: \<open>pandas_mode\<close> is the option \<open>mode.pandas_compatible\<close> and \<open>mixed\<close> pandas' answer
  whether the labels with the new one mix types under the label dtype
  (\<open>MixedTypeError\<close>, a TypeError).\<close>

definition ca_insert ::
  "(label list \<Rightarrow> string option \<Rightarrow> bool) \<Rightarrow> bool \<Rightarrow> 'v accessor \<Rightarrow> label \<Rightarrow> 'v colval \<Rightarrow> int
   \<Rightarrow> 'v accessor res" where
  "ca_insert mixed pandas_mode s name value loc =
     rbind (pad_key s name (LStr [])) (\<lambda>name'.
       if name' \<in> set (dkeys (a_data s)) then Inl ValueError
       else
         (let old_ncols = ca_len s; loc' = (if loc = - 1 then int old_ncols else loc) in
          if loc \<noteq> - 1 \<and> \<not> (0 \<le> loc \<and> loc \<le> int old_ncols) then Inl ValueError
          else if \<not> is_column value then Inl ValueError
          else if 0 < old_ncols \<and> colval_len value \<noteq> ca_nrows s then Inl ValueError
          else if pandas_mode \<and> mixed (ca_names s @ [name']) (a_label_dtype s) then Inl TypeError
          else
            (let s1 = (if 0 < old_ncols then touch s ANrows else s);
                 s2 = (if pandas_mode then s1 else s1\<lparr>a_label_dtype := None\<rparr>);
                 n = nat loc'
             in rbind (if n = old_ncols then Inr (dset name' value (a_data s2))
                       else rbind (zip_strict (take n (ca_names s2) @ name' # drop n (ca_names s2))
                                              (take n (ca_columns s2) @ value # drop n (ca_columns s2)))
                              (Inr \<circ> dict_of))
                  (\<lambda>data. Inr (clear_cache old_ncols (old_ncols + 1) (s2\<lparr>a_data := data\<rparr>))))))"

definition ca_droplevel :: "'v accessor \<Rightarrow> int \<Rightarrow> 'v accessor res" where
  "ca_droplevel s level =
     rbind (if level < 0 then rbind (ca_nlevels s) (\<lambda>n. Inr (level + int n)) else Inr level) (\<lambda>lv.
     rbind (rmap (\<lambda>(key, value). rbind (remove_key_level key lv) (\<lambda>key'. Inr (key', value))) (a_data s)) (\<lambda>pairs.
     let old_ncols = ca_len s;
         s1 = s\<lparr>a_data := dict_of pairs\<rparr>;
         new_ncols = ca_len s1
     in rbind (ca_level_names s1) (\<lambda>names.
        let s2 = s1\<lparr>a_level_names := Some (without_level names lv),
                    a_level_dtypes := map_option (\<lambda>ds. without_level ds lv) (a_level_dtypes s1)\<rparr>
        in rbind (ca_level_names s2) (\<lambda>names2.
           Inr (clear_cache old_ncols new_ncols
                  (if length names2 = 1 then s2\<lparr>a_multiindex := False\<rparr> else s2))))))"

section \<open>Copies\<close>

text \<open>The constructor call that carries over the metadata of an accessor.\<close>

definition ca_like ::
  "'v accessor \<Rightarrow> (label, 'v colval) pydict \<Rightarrow> bool \<Rightarrow> bool \<Rightarrow> 'v accessor res" where
  "ca_like s data rangeindex verify =
     rbind (ca_level_names s) (\<lambda>names.
       ca_init data (a_multiindex s) (Some names) rangeindex (a_label_dtype s) verify (a_level_dtypes s) None)"

definition ca_from_columns_like_self :: "'v accessor \<Rightarrow> 'v colval list \<Rightarrow> bool \<Rightarrow> 'v accessor res" where
  "ca_from_columns_like_self s columns verify =
     rbind (zip_strict (ca_names s) columns) (\<lambda>ps. ca_like s (dict_of ps) (a_rangeindex s) verify)"

definition ca_copy :: "'v accessor \<Rightarrow> 'v accessor res" where
  "ca_copy s = ca_like s (a_data s) (a_rangeindex s) False"

text \<open>\<open>ColumnAccessor(other)\<close>: the data is shared and a cached pandas index carried over.\<close>

definition ca_from_accessor :: "'v accessor \<Rightarrow> 'v accessor res" where
  "ca_from_accessor s =
     rbind (ca_level_names s) (\<lambda>names.
       Inr \<lparr>a_data = a_data s, a_multiindex = a_multiindex s, a_level_names = Some names,
            a_rangeindex = a_rangeindex s, a_label_dtype = a_label_dtype s, a_level_dtypes = a_level_dtypes s,
            k_names = None, k_columns = None, k_grouped = None, k_nrows = None, k_pandas = k_pandas s\<rparr>)"

section \<open>Selection by position\<close>

datatype mask_elem = EBool bool | EInt int

datatype col_index = CSlice pyslice | CInt int | CList "mask_elem list" bool

fun elem_bool :: "mask_elem \<Rightarrow> bool option" where
  "elem_bool (EBool b) = Some b"
| "elem_bool (EInt _) = None"

fun elem_int :: "mask_elem \<Rightarrow> int" where
  "elem_int (EBool b) = (if b then 1 else 0)"
| "elem_int (EInt i) = i"

text \<open>The flag of \<open>CList\<close> says whether the list is a Series.  The slice branch slices with
  the triple that \<open>slice.indices\<close> returned.\<close>

fun ca_get_labels_by_index :: "'v accessor \<Rightarrow> col_index \<Rightarrow> label list res" where
  "ca_get_labels_by_index s (CSlice sl) =
     rbind (slice_indices sl (ca_len s)) (\<lambda>(start, stop, step).
       list_slice (ca_names s) \<lparr>sl_start = Some start, sl_stop = Some stop, sl_step = Some step\<rparr>)"
| "ca_get_labels_by_index s (CInt i) = rbind (py_index (ca_names s) i) (\<lambda>n. Inr [n])"
| "ca_get_labels_by_index s (CList index is_series) =
     (case (if index = [] then None else those (map elem_bool index)) of
        Some flags \<Rightarrow>
          (if length flags \<noteq> ca_len s then Inl IndexError
           else if is_series then Inl NotImplementedError
           else rbind (zip_strict (ca_names s) flags) (\<lambda>ps. Inr (map fst (filter snd ps))))
      | None \<Rightarrow>
          (if \<not> distinct (map elem_int index) then Inl NotImplementedError
           else rmap (\<lambda>i. py_index (ca_names s) (elem_int i)) index))"

definition select_keys :: "'v accessor \<Rightarrow> label list \<Rightarrow> (label, 'v colval) pydict res" where
  "select_keys s keys =
     rbind (rmap (\<lambda>k. rbind (of_option KeyError (map_of (a_data s) k)) (\<lambda>c. Inr (k, c))) keys)
       (Inr \<circ> dict_of)"

definition ca_select_by_index :: "'v accessor \<Rightarrow> col_index \<Rightarrow> 'v accessor res" where
  "ca_select_by_index s index =
     rbind (ca_get_labels_by_index s index) (\<lambda>keys.
     rbind (select_keys s keys) (\<lambda>data. ca_like s data False False))"

section \<open>Levels\<close>

text \<open>\<open>new[i], new[j] = row[j], row[i]\<close> on a list.\<close>

definition swap_at :: "'a list \<Rightarrow> int \<Rightarrow> int \<Rightarrow> 'a list res" where
  "swap_at row i j =
     rbind (py_index row j) (\<lambda>rj. rbind (py_index row i) (\<lambda>ri.
       rbind (py_set row i rj) (\<lambda>new. py_set new j ri)))"

definition swap_label :: "int \<Rightarrow> int \<Rightarrow> label \<Rightarrow> label res" where
  "swap_label i j row = rbind (label_iter row) (\<lambda>xs. rbind (swap_at xs i j) (Inr \<circ> LTup))"

definition ca_swaplevel :: "'v accessor \<Rightarrow> label \<Rightarrow> label \<Rightarrow> 'v accessor res" where
  "ca_swaplevel s i j =
     (if \<not> a_multiindex s then Inl ValueError
      else
        rbind (ca_nlevels s) (\<lambda>n. rbind (ca_level_names s) (\<lambda>level_names.
        rbind (get_level i n level_names) (\<lambda>i'. rbind (get_level j n level_names) (\<lambda>j'.
        rbind (rmap (\<lambda>row. rbind (swap_label i' j' row) (\<lambda>row'. Inr (row, row'))) (ca_names s)) (\<lambda>new_dict.
        rbind (rmap (\<lambda>(k, v). rbind (of_option KeyError (map_of (rev new_dict) k)) (\<lambda>k'. Inr (k', v))) (a_data s)) (\<lambda>new_data.
        rbind (swap_at level_names i' j') (\<lambda>new_names.
        rbind (case a_level_dtypes s of None \<Rightarrow> Inr None
               | Some ds \<Rightarrow> rbind (swap_at ds i' j') (Inr \<circ> Some)) (\<lambda>new_level_dtypes.
          ca_init (dict_of new_data) (a_multiindex s) (Some new_names) (a_rangeindex s)
            (a_label_dtype s) False new_level_dtypes None)))))))))"

text \<open>The mapper of \<open>rename_levels\<close>: a mapping or a function.\<close>

datatype mapper = MapDict "(label \<times> label) list" | MapFun "label \<Rightarrow> label res"

fun apply_mapper :: "mapper \<Rightarrow> label \<Rightarrow> label res" where
  "apply_mapper (MapDict m) x = Inr (case map_of m x of Some y \<Rightarrow> y | None \<Rightarrow> x)"
| "apply_mapper (MapFun f) x = f x"

definition rename_column :: "mapper \<Rightarrow> int \<Rightarrow> label \<Rightarrow> label res" where
  "rename_column mapper level x =
     rbind (label_iter x) (\<lambda>xs. rbind (py_index xs level) (\<lambda>v. rbind (apply_mapper mapper v) (\<lambda>v'.
       rbind (py_set xs level v') (Inr \<circ> LTup))))"

fun same_type :: "label \<Rightarrow> label \<Rightarrow> bool" where
  "same_type (LStr _) (LStr _) = True"
| "same_type (LInt _) (LInt _) = True"
| "same_type (LNaN _) (LNaN _) = True"
| "same_type (LTup _) (LTup _) = True"
| "same_type a b = (a = b)"

text \<open>\<open>all(...)\<close> over the new labels stops at the first failure.  With hierarchical labels
  they come from a generator: what \<open>all\<close> consumed is gone when the labels are zipped with
  the columns.\<close>

fun consume_all :: "('a \<Rightarrow> bool) \<Rightarrow> 'a list \<Rightarrow> bool \<times> 'a list" where
  "consume_all P [] = (True, [])"
| "consume_all P (x # xs) = (if P x then consume_all P xs else (False, xs))"

definition ca_rename_levels :: "'v accessor \<Rightarrow> mapper \<Rightarrow> int option \<Rightarrow> 'v accessor res" where
  "ca_rename_levels s mapper level =
     (let lv = (case level of None \<Rightarrow> 0 | Some l \<Rightarrow> l) in
      if \<not> a_multiindex s \<and> lv \<noteq> 0 then Inl IndexError
      else
        rbind (rmap (if a_multiindex s then rename_column mapper lv else apply_mapper mapper)
                 (dkeys (a_data s))) (\<lambda>new_col_names.
        if \<not> a_multiindex s \<and> \<not> distinct new_col_names then Inl ValueError
        else
          (let check = (0 < ca_len s \<and> a_label_dtype s \<noteq> None);
               (same, rest) = consume_all (same_type (fst (hd (a_data s)))) new_col_names;
               label_dtype = (if check \<and> \<not> same then None else a_label_dtype s);
               remaining = (if check \<and> a_multiindex s then rest else new_col_names)
           in rbind (zip_strict remaining (dvalues (a_data s))) (\<lambda>pairs.
              rbind (ca_level_names s) (\<lambda>names.
                ca_init (dict_of pairs) (a_multiindex s) (Some names) False label_dtype False
                  (a_level_dtypes s) None)))))"

section \<open>Selection by label\<close>

datatype sel_elem = SLabel label | SBool bool

datatype sel_key =
    KSlice "label option" "label option" "label option"
  | KList "sel_elem list"
  | KLabel label

fun sel_bool :: "sel_elem \<Rightarrow> bool option" where
  "sel_bool (SBool b) = Some b"
| "sel_bool (SLabel _) = None"

text \<open>A bool used as a label is found under the integer it equals.\<close>

fun sel_label :: "sel_elem \<Rightarrow> label" where
  "sel_label (SLabel l) = l"
| "sel_label (SBool b) = LInt (if b then 1 else 0)"

definition ca_select_list_like :: "'v accessor \<Rightarrow> sel_elem list \<Rightarrow> 'v accessor res" where
  "ca_select_list_like s key =
     rbind (ca_grouped s) (\<lambda>g.
     rbind (case (if key = [] then None else those (map sel_bool key)) of
              Some flags \<Rightarrow>
                (if length flags \<noteq> ca_len s then Inl IndexError
                 else rbind (zip_strict (as_forest s g) flags) (\<lambda>ps. Inr (map fst (filter snd ps))))
            | None \<Rightarrow>
                rbind (rmap (\<lambda>e. rbind (grouped_getitem s g (sel_label e)) (\<lambda>t. Inr (sel_label e, t))) key) (\<lambda>ps.
                  if length (dict_of ps) \<noteq> length key then Inl ValueError else Inr (dict_of ps))) (\<lambda>data.
     ca_like s (dict_of (to_flat_dict data)) False False))"

definition ca_select_grouped :: "'v accessor \<Rightarrow> label \<Rightarrow> 'v accessor res" where
  "ca_select_grouped s key =
     rbind (ca_grouped s) (\<lambda>g. rbind (grouped_getitem s g key) (\<lambda>result.
       case result of
         Leaf c \<Rightarrow> ca_init [(key, c)] (a_multiindex s) None False (a_label_dtype s) False None None
       | Branch d \<Rightarrow>
           (let n = (case key of LTup ks \<Rightarrow> length ks | _ \<Rightarrow> 1) in
            rbind (ca_nlevels s) (\<lambda>nlevels. rbind (ca_level_names s) (\<lambda>names.
              ca_init (dict_of (to_flat_dict d)) (1 < int nlevels - int n) (Some (drop n names)) False None False
                (map_option (drop n) (a_level_dtypes s)) None)))))"

fun first_equal :: "label \<Rightarrow> label list \<Rightarrow> nat option res" where
  "first_equal key [] = Inr None"
| "first_equal key (n # ns) =
     rbind (keys_equal n key) (\<lambda>e. if e then Inr (Some 0)
       else rbind (first_equal key ns) (\<lambda>r. Inr (map_option Suc r)))"

text \<open>\<open>slice_locs\<close> is pandas' answer for a bound that is not a label.\<close>

definition ca_select_slice ::
  "(pandas_index \<Rightarrow> label option \<Rightarrow> label option \<Rightarrow> (int \<times> int) res) \<Rightarrow> 'v accessor
   \<Rightarrow> label option \<Rightarrow> label option \<Rightarrow> label option \<Rightarrow> 'v accessor res" where
  "ca_select_slice slice_locs s start stop step =
     (if ca_len s = 0 then ca_from_columns_like_self s [] False
      else if step \<noteq> None then Inl TypeError
      else
        (let names = ca_names s in
         rbind (pad_key s (case start of None \<Rightarrow> hd names | Some l \<Rightarrow> l) LSlice) (\<lambda>start'.
         rbind (pad_key s (case stop of None \<Rightarrow> last names | Some l \<Rightarrow> l) LSlice) (\<lambda>stop'.
         rbind (first_equal start' names) (\<lambda>start_idx.
         rbind (first_equal stop' (rev names)) (\<lambda>stop_rev.
         rbind (case (start_idx, stop_rev) of
                  (Some i, Some j) \<Rightarrow> Inr (int i, int (ca_len s) - int j)
                | _ \<Rightarrow> rbind (ca_pandas_index s) (\<lambda>ix. slice_locs ix start stop)) (\<lambda>(i, j).
         rbind (list_slice names \<lparr>sl_start = Some i, sl_stop = Some j, sl_step = None\<rparr>) (\<lambda>keys.
         rbind (select_keys s keys) (\<lambda>data. ca_like s data False False)))))))))"

definition ca_select_wildcard :: "'v accessor \<Rightarrow> label \<Rightarrow> 'v accessor res" where
  "ca_select_wildcard s key =
     rbind (pad_key s key LSlice) (\<lambda>pad.
     rbind (rmap (\<lambda>k. rbind (keys_equal k pad) (\<lambda>e. Inr (k, e))) (ca_names s)) (\<lambda>ps.
     rbind (select_keys s (map fst (filter snd ps))) (\<lambda>data. ca_like s data False False)))"

fun ca_select_by_label ::
  "(pandas_index \<Rightarrow> label option \<Rightarrow> label option \<Rightarrow> (int \<times> int) res) \<Rightarrow> 'v accessor
   \<Rightarrow> sel_key \<Rightarrow> 'v accessor res" where
  "ca_select_by_label slice_locs s (KSlice start stop step) = ca_select_slice slice_locs s start stop step"
| "ca_select_by_label slice_locs s (KList key) = ca_select_list_like s key"
| "ca_select_by_label slice_locs s (KLabel (LTup ks)) =
     (if LSlice \<in> set ks then ca_select_wildcard s (LTup ks) else ca_select_grouped s (LTup ks))"
| "ca_select_by_label slice_locs s (KLabel key) = ca_select_grouped s key"

section \<open>Invariant\<close>

text \<open>Every cached property is what would be computed from the data now; all values are
  columns of one length; the keys are distinct.\<close>

fun cache_is :: "'a option \<Rightarrow> 'a \<Rightarrow> bool" where
  "cache_is None v = True"
| "cache_is (Some w) v = (w = v)"

definition fresh_grouped :: "bool \<Rightarrow> (label, 'v colval) pydict \<Rightarrow> 'v grouped res" where
  "fresh_grouped multi d = (if multi then rbind (from_zip [] d) (Inr \<circ> GNested) else Inr GAlias)"

text \<open>The accessor without its caches, and the pandas index (its class, labels, names and dtype) that
  it would compute.\<close>

definition uncached :: "'v accessor \<Rightarrow> 'v accessor" where
  "uncached s = s\<lparr>k_names := None, k_columns := None, k_grouped := None, k_nrows := None, k_pandas := None\<rparr>"

definition fresh_pandas :: "'v accessor \<Rightarrow> pandas_index res" where
  "fresh_pandas s = compute_pandas_index (uncached s)"

definition caches_ok :: "'v accessor \<Rightarrow> bool" where
  "caches_ok s \<longleftrightarrow>
     cache_is (k_names s) (dkeys (a_data s)) \<and> cache_is (k_columns s) (dvalues (a_data s))
     \<and> cache_is (k_nrows s) (compute_nrows (a_data s))
     \<and> (k_grouped s = None \<or> map_option Inr (k_grouped s) = Some (fresh_grouped (a_multiindex s) (a_data s)))
     \<and> (k_pandas s = None \<or> map_option Inr (k_pandas s) = Some (fresh_pandas s))"

definition ca_wf :: "'v accessor \<Rightarrow> bool" where
  "ca_wf s \<longleftrightarrow> dict_ok (a_data s) \<and> verify_columns (compute_nrows (a_data s)) (a_data s) \<and> caches_ok s"

lemma cache_is_iff: "cache_is c v \<longleftrightarrow> c = None \<or> c = Some v"
  by (cases c) auto

lemma verify_columns_iff: "verify_columns n d \<longleftrightarrow> (\<forall>c \<in> set (dvalues d). is_column c \<and> colval_len c = n)"
  by (induction d) auto

lemma caches_reads:
  assumes "caches_ok s"
  shows "ca_names s = dkeys (a_data s)" and "ca_columns s = dvalues (a_data s)"
    and "ca_nrows s = compute_nrows (a_data s)"
    and "ca_grouped s = fresh_grouped (a_multiindex s) (a_data s)"
proof -
  show n: "ca_names s = dkeys (a_data s)" and c: "ca_columns s = dvalues (a_data s)"
    and "ca_nrows s = compute_nrows (a_data s)"
    using assms by (auto simp: caches_ok_def ca_names_def ca_columns_def ca_nrows_def cache_is_iff)
  show "ca_grouped s = fresh_grouped (a_multiindex s) (a_data s)"
    using assms n c by (auto simp: ca_grouped_def fresh_grouped_def caches_ok_def zip_map_fst_snd)
qed

lemma uncached_touch [simp]: "uncached (touch s attr) = uncached s"
  by (cases attr) (simp_all add: uncached_def split: sum.splits)

lemma uncached_reads [simp]:
  "a_data (uncached s) = a_data s" "a_multiindex (uncached s) = a_multiindex s" "ca_names (uncached s) = dkeys (a_data s)"
  "a_rangeindex (uncached s) = a_rangeindex s" "a_label_dtype (uncached s) = a_label_dtype s"
  "uncached (uncached s) = uncached s" "ca_nlevels (uncached s) = ca_nlevels s"
  "a_level_names (uncached s) = a_level_names s" "k_pandas (uncached s) = None"
  by (simp_all add: uncached_def ca_names_def ca_nlevels_def ca_len_def)

lemma level_names_uncached: "k_pandas s = None \<Longrightarrow> ca_level_names s = ca_level_names (uncached s)"
  by (simp add: ca_level_names_def split: option.split list.split)

lemma pandas_index_fresh:
  assumes "caches_ok s"
  shows "ca_pandas_index s = fresh_pandas s"
proof (cases "k_pandas s")
  case None
  have eq: "compute_pandas_index s = fresh_pandas s"
    unfolding fresh_pandas_def compute_pandas_index_def ca_name_def uncached_reads level_names_uncached [OF None]
      caches_reads(1) [OF assms] ..
  show ?thesis using None eq by (simp add: ca_pandas_index_def)
qed (use assms in \<open>simp add: ca_pandas_index_def caches_ok_def\<close>)

lemma ca_name_fresh:
  assumes "caches_ok s"
  shows "ca_name s = ca_name (uncached s)"
proof (cases "k_pandas s")
  case None
  then show ?thesis using level_names_uncached [OF None] by (simp add: ca_name_def)
next
  case (Some ix)
  then have "fresh_pandas s = Inr ix" using assms by (simp add: caches_ok_def)
  moreover obtain ns where "ca_level_names (uncached s) = Inr ns"
    using calculation by (auto simp: fresh_pandas_def compute_pandas_index_def rbind_Inr_iff)
  ultimately show ?thesis
    using Some by (auto simp: fresh_pandas_def compute_pandas_index_def ca_name_def ca_level_names_def [of s] rbind_Inr_iff
        split: if_splits option.splits)
qed

lemma caches_ok_touch: "caches_ok s \<Longrightarrow> caches_ok (touch s attr)"
proof (cases attr)
  case AGrouped
  assume "caches_ok s"
  then show ?thesis using AGrouped caches_reads(4) [of s] uncached_touch [of s AGrouped]
    by (auto simp: caches_ok_def fresh_pandas_def simp del: uncached_touch split: sum.splits)
next
  case APandas
  assume ok: "caches_ok s"
  show ?thesis
  proof (cases "ca_pandas_index s")
    case (Inl e)
    then show ?thesis using ok APandas by simp
  next
    case (Inr ix)
    then have "fresh_pandas s = Inr ix" using pandas_index_fresh [OF ok] by simp
    moreover have "fresh_pandas (touch s APandas) = fresh_pandas s" by (simp only: fresh_pandas_def uncached_touch)
    ultimately show ?thesis using ok APandas Inr by (simp add: caches_ok_def)
  qed
next
  case ANames
  assume ok: "caches_ok s"
  have "fresh_pandas (touch s ANames) = fresh_pandas s" by (simp only: fresh_pandas_def uncached_touch)
  then show ?thesis using ok ANames by (simp add: caches_ok_def caches_reads)
next
  case AColumns
  assume ok: "caches_ok s"
  have "fresh_pandas (touch s AColumns) = fresh_pandas s" by (simp only: fresh_pandas_def uncached_touch)
  then show ?thesis using ok AColumns by (simp add: caches_ok_def caches_reads)
next
  case ANrows
  assume ok: "caches_ok s"
  have "fresh_pandas (touch s ANrows) = fresh_pandas s" by (simp only: fresh_pandas_def uncached_touch)
  then show ?thesis using ok ANrows by (simp add: caches_ok_def caches_reads)
qed

lemma touch_data [simp]:
  "a_data (touch s attr) = a_data s" "a_multiindex (touch s attr) = a_multiindex s"
  "a_level_names (touch s attr) = a_level_names s" "a_rangeindex (touch s attr) = a_rangeindex s"
  "a_label_dtype (touch s attr) = a_label_dtype s" "a_level_dtypes (touch s attr) = a_level_dtypes s"
  by (cases attr; simp split: sum.splits)+

lemma ca_wf_touch: "ca_wf s \<Longrightarrow> ca_wf (touch s attr)"
  by (simp add: ca_wf_def caches_ok_touch)

text \<open>Replacing the data is safe when the caches are cleared and the row count stays or one
  of the two sides is empty.\<close>

lemma caches_ok_clear:
  assumes "cache_is (k_nrows s) n" and "compute_nrows d = n \<or> (old = 0) \<noteq> (length d = 0)"
  shows "caches_ok (clear_cache old (length d) (s\<lparr>a_data := d\<rparr>))"
  using assms by (auto simp: clear_cache_def caches_ok_def Let_def)

lemma compute_nrows_eq:
  assumes "verify_columns n d" and "d \<noteq> []"
  shows "compute_nrows d = n"
  using assms by (cases d) (auto simp: compute_nrows_def)

lemma update_clear_wf:
  assumes wf: "ca_wf s" and dict: "dict_ok d" and v: "verify_columns n d"
    and n: "a_data s \<noteq> [] \<Longrightarrow> n = compute_nrows (a_data s)"
    and k: "cache_is nr (compute_nrows (a_data s))"
  shows "ca_wf (clear_cache (ca_len s) (length d) (s\<lparr>k_nrows := nr, a_label_dtype := dt, a_data := d\<rparr>))"
proof -
  have "compute_nrows d = compute_nrows (a_data s) \<or> (ca_len s = 0) \<noteq> (length d = 0)"
  proof (cases "d = []")
    case True
    then show ?thesis by (cases "a_data s") (auto simp: ca_len_def compute_nrows_def)
  next
    case False
    with v have "compute_nrows d = n" by (rule compute_nrows_eq)
    then show ?thesis using n False by (auto simp: ca_len_def)
  qed
  then have c: "caches_ok (clear_cache (ca_len s) (length d) (s\<lparr>k_nrows := nr, a_label_dtype := dt, a_data := d\<rparr>))"
    using caches_ok_clear [of "s\<lparr>k_nrows := nr, a_label_dtype := dt\<rparr>" _ d "ca_len s"] k by simp
  have "verify_columns (compute_nrows d) d" using compute_nrows_eq [OF v] v by (cases "d = []") auto
  with c dict show ?thesis by (simp add: ca_wf_def clear_cache_def Let_def)
qed

text \<open>What a successful \<open>set_by_label\<close>, \<open>insert\<close> and \<open>__delitem__\<close> do.\<close>

definition nrows_read :: "'v accessor \<Rightarrow> nat option" where
  "nrows_read s = (if 0 < ca_len s then Some (ca_nrows s) else k_nrows s)"

lemma nrows_read_ok: "ca_wf s \<Longrightarrow> cache_is (nrows_read s) (compute_nrows (a_data s))"
  by (auto simp: nrows_read_def ca_wf_def caches_reads) (simp add: caches_ok_def)

lemma set_by_label_Inr:
  assumes "ca_set_by_label s key value = Inr s'"
  obtains key' where "pad_key s key (LStr []) = Inr key'" and "is_column value"
    and "0 < ca_len s \<Longrightarrow> colval_len value = ca_nrows s"
    and "s' = clear_cache (ca_len s) (length (dset key' value (a_data s)))
          (s\<lparr>k_nrows := nrows_read s, a_label_dtype := a_label_dtype s, a_data := dset key' value (a_data s)\<rparr>)"
  using assms
  by (auto simp: ca_set_by_label_def rbind_Inr_iff nrows_read_def Let_def ca_len_def split: if_splits)

lemma verify_update:
  "verify_columns n d \<Longrightarrow> is_column v \<Longrightarrow> colval_len v = n \<Longrightarrow> verify_columns n (dset k v d)"
  by (induction d) auto

lemma verify_delete: "verify_columns n d \<Longrightarrow> verify_columns n (ddel k d)"
  by (induction d) auto

lemma fits_nrows:
  assumes wf: "ca_wf s" and n: "0 < ca_len s \<Longrightarrow> colval_len value = ca_nrows s"
  shows "a_data s \<noteq> [] \<Longrightarrow> colval_len value = compute_nrows (a_data s)"
    and "verify_columns (colval_len value) (a_data s)"
proof -
  show nr: "a_data s \<noteq> [] \<Longrightarrow> colval_len value = compute_nrows (a_data s)"
    using n wf by (auto simp: ca_len_def ca_wf_def caches_reads)
  then show "verify_columns (colval_len value) (a_data s)"
    using wf by (cases "a_data s = []") (auto simp: ca_wf_def)
qed

lemma ca_wf_set_by_label:
  assumes wf: "ca_wf s" and res: "ca_set_by_label s key value = Inr s'"
  shows "ca_wf s'"
proof -
  from set_by_label_Inr [OF res] obtain key' where c: "is_column value"
    and n: "0 < ca_len s \<Longrightarrow> colval_len value = ca_nrows s"
    and s': "s' = clear_cache (ca_len s) (length (dset key' value (a_data s)))
          (s\<lparr>k_nrows := nrows_read s, a_label_dtype := a_label_dtype s, a_data := dset key' value (a_data s)\<rparr>)"
    by blast
  show ?thesis unfolding s'
  proof (rule update_clear_wf [OF wf _ verify_update [OF fits_nrows(2) [OF wf n] c refl]])
    show "dict_ok (dset key' value (a_data s))" using wf by (simp add: ca_wf_def)
    show "a_data s \<noteq> [] \<Longrightarrow> colval_len value = compute_nrows (a_data s)"
      by (rule fits_nrows(1) [OF wf n])
    show "cache_is (nrows_read s) (compute_nrows (a_data s))" by (rule nrows_read_ok [OF wf])
  qed
qed

lemma ca_wf_delitem:
  assumes wf: "ca_wf s" and res: "ca_delitem s key = Inr s'"
  shows "ca_wf s'"
proof -
  have s': "s' = clear_cache (ca_len s) (length (ddel key (a_data s)))
      (s\<lparr>k_nrows := k_nrows s, a_label_dtype := a_label_dtype s, a_data := ddel key (a_data s)\<rparr>)"
    using res by (auto simp: ca_delitem_def Let_def ca_len_def split: if_splits)
  show ?thesis unfolding s'
    by (rule update_clear_wf [OF wf, of _ "compute_nrows (a_data s)"])
      (use wf in \<open>auto simp: ca_wf_def caches_ok_def verify_delete\<close>)
qed

text \<open>The data after an insertion at position \<open>n\<close>.\<close>

definition insert_at :: "nat \<Rightarrow> 'a \<Rightarrow> 'a list \<Rightarrow> 'a list" where
  "insert_at n x xs = take n xs @ x # drop n xs"

lemma length_insert_at [simp]: "length (insert_at n x xs) = Suc (length xs)"
  by (cases "n \<le> length xs") (simp_all add: insert_at_def)

lemma map_insert_at: "map f (insert_at n x xs) = insert_at n (f x) (map f xs)"
  by (simp add: insert_at_def take_map drop_map)

lemma set_insert_at: "set (insert_at n x xs) = insert x (set xs)"
  by (metis Un_insert_right append_take_drop_id insert_at_def list.simps(15) set_append)

lemma zip_insert_at:
  "length xs = length ys \<Longrightarrow> zip (insert_at n x xs) (insert_at n y ys) = insert_at n (x, y) (zip xs ys)"
  by (simp add: insert_at_def take_zip drop_zip)

lemma map_of_insert_at:
  assumes "k \<notin> set (dkeys d)"
  shows "map_of (insert_at n (k, v) d) = (map_of d)(k \<mapsto> v)"
proof -
  have "k \<notin> dom (map_of (take n d))" using assms set_take_subset [of n d] by (auto simp: dom_map_of_conv_image_fst)
  then have "map_of (insert_at n (k, v) d) = (map_of (drop n d) ++ map_of (take n d))(k \<mapsto> v)"
    by (auto simp: insert_at_def map_add_def fun_eq_iff split: option.splits)
  also have "map_of (drop n d) ++ map_of (take n d) = map_of d"
    by (metis append_take_drop_id map_of_append)
  finally show ?thesis .
qed

lemma distinct_insert_at: "distinct xs \<Longrightarrow> x \<notin> set xs \<Longrightarrow> distinct (insert_at n x xs)"
  unfolding insert_at_def by (rule take_drop_insert_distinct)

lemma insert_Inr:
  assumes wf: "ca_wf s" and res: "ca_insert mixed pandas_mode s name value loc = Inr s'"
  obtains name' n where "pad_key s name (LStr []) = Inr name'" and "name' \<notin> set (dkeys (a_data s))"
    and "n \<le> ca_len s" and "loc = - 1 \<and> n = ca_len s \<or> 0 \<le> loc \<and> loc \<le> int (ca_len s) \<and> n = nat loc" and "is_column value"
    and "0 < ca_len s \<Longrightarrow> colval_len value = ca_nrows s"
    and "s' = clear_cache (ca_len s) (length (insert_at n (name', value) (a_data s)))
          (s\<lparr>k_nrows := nrows_read s, a_label_dtype := (if pandas_mode then a_label_dtype s else None),
             a_data := insert_at n (name', value) (a_data s)\<rparr>)"
proof -
  define s2 where "s2 = (let s1 = (if 0 < ca_len s then touch s ANrows else s)
    in if pandas_mode then s1 else s1\<lparr>a_label_dtype := None\<rparr>)"
  have s2: "s2 = s\<lparr>k_nrows := nrows_read s, a_label_dtype := (if pandas_mode then a_label_dtype s else None)\<rparr>"
    by (auto simp: s2_def Let_def nrows_read_def)
  have c2: "ca_names s2 = dkeys (a_data s)" "ca_columns s2 = dvalues (a_data s)" "a_data s2 = a_data s"
    using wf caches_reads(1,2) [of s] by (auto simp: s2 ca_names_def ca_columns_def ca_wf_def split: option.splits)
  from res obtain name' where p: "pad_key s name (LStr []) = Inr name'" and new: "name' \<notin> set (dkeys (a_data s))"
    and loc: "loc = - 1 \<or> (0 \<le> loc \<and> loc \<le> int (ca_len s))" and c: "is_column value"
    and n: "0 < ca_len s \<Longrightarrow> colval_len value = ca_nrows s"
    and s': "rbind (if nat (if loc = - 1 then int (ca_len s) else loc) = ca_len s then Inr (dset name' value (a_data s2))
        else rbind (zip_strict (take (nat (if loc = - 1 then int (ca_len s) else loc)) (ca_names s2) @ name' # drop (nat (if loc = - 1 then int (ca_len s) else loc)) (ca_names s2))
                 (take (nat (if loc = - 1 then int (ca_len s) else loc)) (ca_columns s2) @ value # drop (nat (if loc = - 1 then int (ca_len s) else loc)) (ca_columns s2)))
               (Inr \<circ> dict_of))
        (\<lambda>data. Inr (clear_cache (ca_len s) (ca_len s + 1) (s2\<lparr>a_data := data\<rparr>))) = Inr s'"
    by (simp add: ca_insert_def rbind_Inr_iff Let_def s2_def split: if_splits)
  let ?n = "nat (if loc = - 1 then int (ca_len s) else loc)"
  have le: "?n \<le> ca_len s" using loc by auto
  have data: "(if ?n = ca_len s then Inr (dset name' value (a_data s2))
        else rbind (zip_strict (take ?n (ca_names s2) @ name' # drop ?n (ca_names s2))
                 (take ?n (ca_columns s2) @ value # drop ?n (ca_columns s2))) (Inr \<circ> dict_of))
      = Inr (insert_at ?n (name', value) (a_data s))"
  proof (cases "?n = ca_len s")
    case True
    then show ?thesis using new by (simp add: c2 update_append_new insert_at_def ca_len_def)
  next
    case False
    have z: "zip (insert_at ?n name' (dkeys (a_data s))) (insert_at ?n value (dvalues (a_data s)))
        = insert_at ?n (name', value) (a_data s)"
      by (simp add: zip_insert_at zip_map_fst_snd)
    have "distinct (map fst (insert_at ?n (name', value) (a_data s)))"
      using wf new by (simp add: map_insert_at distinct_insert_at ca_wf_def)
    then show ?thesis using False z
      by (simp add: c2 zip_strict_def dict_of_distinct flip: insert_at_def)
  qed
  have "length (insert_at ?n (name', value) (a_data s)) = ca_len s + 1"
    using le by (simp add: insert_at_def ca_len_def)
  with s' data have "s' = clear_cache (ca_len s) (length (insert_at ?n (name', value) (a_data s)))
          (s\<lparr>k_nrows := nrows_read s, a_label_dtype := (if pandas_mode then a_label_dtype s else None),
             a_data := insert_at ?n (name', value) (a_data s)\<rparr>)"
    by (simp only: rbind.simps s2) simp
  moreover have "loc = - 1 \<and> ?n = ca_len s \<or> 0 \<le> loc \<and> loc \<le> int (ca_len s) \<and> ?n = nat loc" using loc by auto
  ultimately show thesis using that [of name' ?n] p new le c n by blast
qed

lemma ca_wf_insert:
  assumes wf: "ca_wf s" and res: "ca_insert mixed pandas_mode s name value loc = Inr s'"
  shows "ca_wf s'"
proof -
  from insert_Inr [OF assms] obtain name' n where new: "name' \<notin> set (dkeys (a_data s))" and c: "is_column value"
    and len: "0 < ca_len s \<Longrightarrow> colval_len value = ca_nrows s"
    and s': "s' = clear_cache (ca_len s) (length (insert_at n (name', value) (a_data s)))
          (s\<lparr>k_nrows := nrows_read s, a_label_dtype := (if pandas_mode then a_label_dtype s else None),
             a_data := insert_at n (name', value) (a_data s)\<rparr>)" by metis
  note fit = fits_nrows [OF wf len]
  show ?thesis unfolding s'
  proof (rule update_clear_wf [OF wf])
    show "dict_ok (insert_at n (name', value) (a_data s))"
      using wf new by (simp add: map_insert_at distinct_insert_at ca_wf_def)
    show "verify_columns (colval_len value) (insert_at n (name', value) (a_data s))"
      using fit(2) c by (auto simp: verify_columns_iff set_insert_at)
    show "a_data s \<noteq> [] \<Longrightarrow> colval_len value = compute_nrows (a_data s)" by (rule fit(1))
    show "cache_is (nrows_read s) (compute_nrows (a_data s))" by (rule nrows_read_ok [OF wf])
  qed
qed

section \<open>Runs of mutations and reads\<close>

datatype 'v ca_event =
    EvInsert label "'v colval" int
  | EvSet label "'v colval"
  | EvDel label
  | EvRead cached_attr

text \<open>An operation that raises leaves the accessor as it was.\<close>

fun ca_step ::
  "(label list \<Rightarrow> string option \<Rightarrow> bool) \<Rightarrow> bool \<Rightarrow> 'v accessor \<Rightarrow> 'v ca_event \<Rightarrow> 'v accessor" where
  "ca_step mixed pandas_mode s (EvInsert name value loc) =
     (case ca_insert mixed pandas_mode s name value loc of Inl _ \<Rightarrow> s | Inr s' \<Rightarrow> s')"
| "ca_step mixed pandas_mode s (EvSet key value) =
     (case ca_set_by_label s key value of Inl _ \<Rightarrow> s | Inr s' \<Rightarrow> s')"
| "ca_step mixed pandas_mode s (EvDel key) = (case ca_delitem s key of Inl _ \<Rightarrow> s | Inr s' \<Rightarrow> s')"
| "ca_step mixed pandas_mode s (EvRead attr) = touch s attr"

lemma ca_wf_step: "ca_wf s \<Longrightarrow> ca_wf (ca_step mixed pandas_mode s e)"
  by (cases e) (auto intro: ca_wf_touch ca_wf_insert ca_wf_set_by_label ca_wf_delitem split: sum.splits)

interpretation accessor_run: step_system "ca_step mixed pandas_mode" ca_wf "\<lambda>_. True"
  for mixed pandas_mode
  by unfold_locales (rule ca_wf_step)

lemma ca_init_wf:
  assumes "dict_ok data" and "ca_init data m ns r dt True lds None = Inr s"
  shows "ca_wf s"
  using assms
  by (cases data) (auto simp: ca_init_def ca_wf_def caches_ok_def compute_nrows_def Let_def split: if_splits)

section \<open>NaN labels\<close>

lemma item_tuple_eq_iff:
  "item_eq a b = Some True \<longleftrightarrow> a = b" "tuple_eq xs ys = Some True \<longleftrightarrow> xs = ys"
proof (induction a b and xs ys rule: item_eq_tuple_eq.induct)
  case (1 a b)
  then show ?case by (auto split: label.splits)
next
  case (5 x xs y ys)
  then show ?case by (auto split: option.splits bool.splits)
qed auto

lemma find_nan_match_find:
  "find_nan_match canon d = map_option snd (find (\<lambda>p. canonicalize_nan_label (fst p) = canon) d)"
  by (induction d) (auto simp: item_tuple_eq_iff simp del: item_eq.simps)

lemma canonicalize_id: "\<not> label_contains_nan l \<Longrightarrow> canonicalize_nan_label l = l"
  by (cases l) (auto simp: list_ex_iff intro: map_idI)

lemma canonicalize_contains: "label_contains_nan (canonicalize_nan_label l) = label_contains_nan l"
proof (cases l)
  case (LTup xs)
  have "list_ex is_nan_scalar (map (\<lambda>lv. if is_nan_scalar lv then LNaN 0 else lv) xs) = list_ex is_nan_scalar xs"
    by (induction xs) auto
  with LTup show ?thesis by simp
qed auto

lemma distinct_map_inj: "distinct (map f d) \<Longrightarrow> p \<in> set d \<Longrightarrow> q \<in> set d \<Longrightarrow> f p = f q \<Longrightarrow> p = q"
  by (auto simp: distinct_map dest: inj_onD)

lemma find_distinct:
  "distinct (map f d) \<Longrightarrow> p \<in> set d \<Longrightarrow> find (\<lambda>q. f q = f p) d = Some p"
  by (induction d) (auto simp: image_iff)

lemma getitem_nan:
  assumes wf: "ca_wf s" and canon: "distinct (map (\<lambda>p. canonicalize_nan_label (fst p)) (a_data s))"
    and p: "(k, c) \<in> set (a_data s)" and k': "canonicalize_nan_label k' = canonicalize_nan_label k"
  shows "ca_getitem s k' = Inr c"
proof (cases "map_of (a_data s) k'")
  case None
  then have "k' \<noteq> k" using p by (auto simp: map_of_eq_None_iff rev_image_eqI)
  then have "label_contains_nan k'"
    using k' canonicalize_id canonicalize_contains by metis
  then show ?thesis using None k' find_distinct [OF canon p]
    by (simp add: ca_getitem_def find_nan_match_find)
next
  case (Some c')
  then have "(k', c') \<in> set (a_data s)" by (rule map_of_SomeD)
  with canon p k' have "(k', c') = (k, c)" by (intro distinct_map_inj [OF canon]) auto
  with Some show ?thesis by (simp add: ca_getitem_def)
qed

section \<open>Grouping and flattening\<close>

text \<open>Following a path of labels below a nested dictionary.\<close>

definition path_get :: "'v forest \<Rightarrow> label list \<Rightarrow> 'v colval option" where
  "path_get d ks = (case nested_get (Branch d) ks of Inr (Leaf c) \<Rightarrow> Some c | _ \<Rightarrow> None)"

text \<open>Every path to a column has \<open>n\<close> labels, and every dictionary has distinct keys.\<close>

fun tree_depth :: "nat \<Rightarrow> 'v tree \<Rightarrow> bool" where
  "tree_depth n (Leaf c) = (n = 0)"
| "tree_depth n (Branch d) = (\<exists>m. n = Suc m \<and> dict_ok d \<and> (\<forall>(k, t) \<in> set d. tree_depth m t))"

definition forest_depth :: "nat \<Rightarrow> 'v forest \<Rightarrow> bool" where
  "forest_depth n d \<longleftrightarrow> dict_ok d \<and> (\<forall>(k, t) \<in> set d. tree_depth n t)"

lemma tree_depth_Branch: "tree_depth (Suc n) (Branch d) = forest_depth n d"
  by (simp add: forest_depth_def)

lemma forest_depth_map_of: "forest_depth n d \<Longrightarrow> map_of d k = Some t \<Longrightarrow> tree_depth n t"
  by (auto simp: forest_depth_def dest!: map_of_SomeD)

lemma forest_depth_update: "forest_depth n d \<Longrightarrow> tree_depth n t \<Longrightarrow> forest_depth n (dset k t d)"
proof -
  assume d: "forest_depth n d" and t: "tree_depth n t"
  have "\<forall>(k', t') \<in> set (dset k t d). tree_depth n t'"
    using d t unfolding forest_depth_def by (induction d) (auto split: if_splits)
  then show ?thesis using d by (simp add: forest_depth_def)
qed

lemma nested_set_depth:
  assumes "forest_depth n d" and "length path = Suc n"
  shows "\<exists>d'. nested_set path v d = Inr d' \<and> forest_depth n d'
     \<and> (\<forall>q. length q = Suc n \<longrightarrow> path_get d' q = (if q = path then Some v else path_get d q))"
  using assms
proof (induction path v d arbitrary: n rule: nested_set.induct)
  case (1 v d)
  then show ?case by simp
next
  case (2 k v d)
  then have n: "n = 0" by simp
  have "path_get (dset k (Leaf v) d) q = (if q = [k] then Some v else path_get d q)" if "length q = 1" for q
    using that by (cases q) (auto simp: path_get_def update_conv' split: option.splits)
  then show ?case using n 2 forest_depth_update [of 0 d "Leaf v" k] by auto
next
  case (3 k k2 ks v d)
  obtain m where n: "n = Suc m" and len: "length (k2 # ks) = Suc m" using 3(4) by auto
  define sub where "sub = (case map_of d k of Some (Branch d') \<Rightarrow> d' | _ \<Rightarrow> [])"
  have branch: "\<exists>d'. t = Branch d' \<and> forest_depth m d'" if "map_of d k = Some t" for t
    using forest_depth_map_of [OF 3(3) that] n by (cases t) (auto simp: forest_depth_def)
  have "\<exists>d'. nested_set (k2 # ks) v sub = Inr d' \<and> forest_depth m d'
     \<and> (\<forall>q. length q = Suc m \<longrightarrow> path_get d' q = (if q = k2 # ks then Some v else path_get sub q))"
  proof (cases "map_of d k")
    case None
    then have e: "sub = []" by (simp add: sub_def)
    show ?thesis unfolding e by (rule 3(1) [OF None _ len]) (simp add: forest_depth_def)
  next
    case (Some t)
    then obtain d' where t: "t = Branch d'" and d': "forest_depth m d'" using branch by blast
    with Some have e: "sub = d'" by (simp add: sub_def)
    show ?thesis unfolding e by (rule 3(2) [OF Some t d' len])
  qed
  then obtain sub' where s: "nested_set (k2 # ks) v sub = Inr sub'" "forest_depth m sub'"
    and get: "\<And>q. length q = Suc m \<Longrightarrow> path_get sub' q = (if q = k2 # ks then Some v else path_get sub q)" by blast
  have notleaf: "map_of d k \<noteq> Some (Leaf c)" for c using branch by blast
  have res: "nested_set (k # k2 # ks) v d = Inr (dset k (Branch sub') d)"
    using s notleaf by (auto simp: sub_def split: option.splits tree.splits)
  have "forest_depth n (dset k (Branch sub') d)"
    using 3(3) s(2) n by (simp add: forest_depth_update tree_depth_Branch del: tree_depth.simps)
  moreover have "path_get (dset k (Branch sub') d) q = (if q = k # k2 # ks then Some v else path_get d q)"
    if q: "length q = Suc n" for q
  proof -
    obtain a b qs where qs: "q = a # b # qs" and "length (b # qs) = Suc m"
      using q n by (cases q; cases "tl q") auto
    then show ?thesis using get [of "b # qs"] notleaf
      by (auto simp: path_get_def update_conv' sub_def split: option.splits tree.splits if_splits)
  qed
  ultimately show ?case using res by auto
qed

text \<open>Hierarchical labels of \<open>n\<close> levels.\<close>

definition levels_are :: "nat \<Rightarrow> (label, 'v colval) pydict \<Rightarrow> bool" where
  "levels_are n d \<longleftrightarrow> (\<forall>k \<in> set (dkeys d). \<exists>xs. k = LTup xs \<and> length xs = n)"

lemma from_zip_depth:
  assumes "forest_depth n g" and "levels_are (Suc n) data"
  shows "\<exists>g'. from_zip g data = Inr g' \<and> forest_depth n g'
     \<and> (\<forall>q. length q = Suc n \<longrightarrow>
           path_get g' q = (case map_of (rev data) (LTup q) of Some c \<Rightarrow> Some c | None \<Rightarrow> path_get g q))"
  using assms
proof (induction data arbitrary: g)
  case Nil
  then show ?case by simp
next
  case (Cons p data)
  then obtain xs v where p: "p = (LTup xs, v)" and len: "length xs = Suc n" and lv: "levels_are (Suc n) data"
    by (cases p) (auto simp: levels_are_def)
  obtain g1 where g1: "nested_set xs v g = Inr g1" "forest_depth n g1"
    and get: "\<And>q. length q = Suc n \<Longrightarrow> path_get g1 q = (if q = xs then Some v else path_get g q)"
    using nested_set_depth [OF Cons(2) len] by blast
  from Cons.IH [OF g1(2) lv] obtain g' where "from_zip g1 data = Inr g'" "forest_depth n g'"
    "\<And>q. length q = Suc n \<Longrightarrow>
       path_get g' q = (case map_of (rev data) (LTup q) of Some c \<Rightarrow> Some c | None \<Rightarrow> path_get g1 q)" by blast
  then show ?case using g1 get
    by (auto simp: p map_add_def split: option.splits)
qed

lemma grouped_paths:
  assumes "caches_ok s" and "dict_ok (a_data s)" and "a_multiindex s" and "levels_are (Suc n) (a_data s)"
  shows "\<exists>g. ca_grouped s = Inr (GNested g) \<and> forest_depth n g
     \<and> (\<forall>q. length q = Suc n \<longrightarrow> path_get g q = map_of (a_data s) (LTup q))"
proof -
  have "forest_depth n []" by (simp add: forest_depth_def)
  from from_zip_depth [OF this assms(4)] obtain g where "from_zip [] (a_data s) = Inr g" "forest_depth n g"
    and "\<And>q. length q = Suc n \<Longrightarrow>
       path_get g q = (case map_of (rev (a_data s)) (LTup q) of Some c \<Rightarrow> Some c | None \<Rightarrow> path_get [] q)" by blast
  moreover have "path_get [] q = None" if "length q = Suc n" for q using that by (cases q) (auto simp: path_get_def)
  moreover have "map_of (rev (a_data s)) = map_of (a_data s)"
    using assms(2) by (metis dict_of_distinct map_of_dict_of)
  ultimately show ?thesis using assms(3)
    by (auto simp: caches_reads(4) [OF assms(1)] fresh_grouped_def split: option.splits)
qed

lemma nested_get_append:
  "nested_get t (p @ q) = rbind (nested_get t p) (\<lambda>t'. nested_get t' q)"
  by (induction t p rule: nested_get.induct) (auto split: option.splits)

lemma nested_get_depth:
  "tree_depth n t \<Longrightarrow> nested_get t p = Inr t' \<Longrightarrow> length p \<le> n \<and> tree_depth (n - length p) t'"
proof (induction t p arbitrary: n rule: nested_get.induct)
  case (3 d k ks)
  then obtain m t where n: "n = Suc m" and t: "map_of d k = Some t" "nested_get t ks = Inr t'"
    by (auto split: option.splits)
  have "tree_depth m t" using 3(2) n t(1) by (auto dest!: map_of_SomeD)
  from 3(1) [OF t(1) this t(2)] show ?case by (simp add: n)
qed auto

lemma flat_tree_items:
  "tree_depth m t \<Longrightarrow> (key, c) \<in> set (to_flat_tree parents k0 t) \<longleftrightarrow>
     (\<exists>q. length q = m \<and> nested_get t q = Inr (Leaf c)
        \<and> key = (if parents = [] \<and> q = [] then k0 else LTup (parents @ k0 # q)))"
proof (induction t arbitrary: m parents k0)
  case (Leaf x)
  then show ?case by auto
next
  case (Branch d)
  from Branch.prems obtain m' where m: "m = Suc m'" and d0: "dict_ok d" "\<forall>(k, t) \<in> set d. tree_depth m' t"
    by auto
  have d: "dict_ok d" "\<And>k t. (k, t) \<in> set d \<Longrightarrow> tree_depth m' t" using d0 by auto
  have item: "(key, c) \<in> set (to_flat_tree (parents @ [k0]) k t) \<longleftrightarrow>
     (\<exists>q. length q = m' \<and> nested_get t q = Inr (Leaf c) \<and> key = LTup (parents @ k0 # k # q))"
    if "(k, t) \<in> set d" for k t
    using Branch.IH [of "(k, t)" t m' "parents @ [k0]" k] that d(2) by simp
  have "(key, c) \<in> set (to_flat_tree parents k0 (Branch d)) \<longleftrightarrow>
     (\<exists>k t. (k, t) \<in> set d \<and> (key, c) \<in> set (to_flat_tree (parents @ [k0]) k t))" by auto
  also have "\<dots> \<longleftrightarrow> (\<exists>k t q. (k, t) \<in> set d \<and> length q = m' \<and> nested_get t q = Inr (Leaf c)
        \<and> key = LTup (parents @ k0 # k # q))" using item by blast
  also have "\<dots> \<longleftrightarrow> (\<exists>q. length q = m \<and> nested_get (Branch d) q = Inr (Leaf c)
        \<and> key = (if parents = [] \<and> q = [] then k0 else LTup (parents @ k0 # q)))" (is "?l \<longleftrightarrow> ?r")
  proof
    assume ?l
    then obtain k t q where "(k, t) \<in> set d" "length q = m'" "nested_get t q = Inr (Leaf c)"
      "key = LTup (parents @ k0 # k # q)" by blast
    then show ?r using d(1) m by (intro exI [of _ "k # q"]) auto
  next
    assume ?r
    then obtain q where q: "length q = m" "nested_get (Branch d) q = Inr (Leaf c)"
      "key = (if parents = [] \<and> q = [] then k0 else LTup (parents @ k0 # q))" by blast
    then obtain k q' where "q = k # q'" using m by (cases q) auto
    with q m show ?l by (auto dest!: map_of_SomeD split: option.splits)
  qed
  finally show ?case .
qed

lemma flat_dict_items:
  assumes "forest_depth m d"
  shows "(key, c) \<in> set (to_flat_dict d) \<longleftrightarrow>
     (\<exists>q. length q = Suc m \<and> path_get d q = Some c \<and> key = (if m = 0 then hd q else LTup q))"
proof -
  have item: "(key, c) \<in> set (to_flat_tree [] k t) \<longleftrightarrow>
     (\<exists>q. length q = m \<and> nested_get t q = Inr (Leaf c) \<and> key = (if m = 0 then k else LTup (k # q)))"
    if "(k, t) \<in> set d" for k t
  proof -
    have "tree_depth m t" using that assms by (auto simp: forest_depth_def)
    moreover have "(length q = m \<and> nested_get t q = Inr (Leaf c) \<and> key = (if [] = [] \<and> q = [] then k else LTup ([] @ k # q)))
       = (length q = m \<and> nested_get t q = Inr (Leaf c) \<and> key = (if m = 0 then k else LTup (k # q)))" for q
      by auto
    ultimately show ?thesis using flat_tree_items [of m t key c "[]" k] by presburger
  qed
  have "(key, c) \<in> set (to_flat_dict d) \<longleftrightarrow> (\<exists>k t. (k, t) \<in> set d \<and> (key, c) \<in> set (to_flat_tree [] k t))"
    by (auto simp: to_flat_dict_def)
  also have "\<dots> \<longleftrightarrow> (\<exists>k t q. map_of d k = Some t \<and> length q = m \<and> nested_get t q = Inr (Leaf c)
      \<and> key = (if m = 0 then k else LTup (k # q)))"
  proof -
    have "dict_ok d" using assms by (simp add: forest_depth_def)
    then have "(k, t) \<in> set d \<longleftrightarrow> map_of d k = Some t" for k t by simp
    then show ?thesis using item by metis
  qed
  also have "\<dots> \<longleftrightarrow> (\<exists>q. length q = Suc m \<and> path_get d q = Some c \<and> key = (if m = 0 then hd q else LTup q))"
    (is "?l \<longleftrightarrow> ?r")
  proof
    assume ?l
    then obtain k t q where "map_of d k = Some t" "length q = m" "nested_get t q = Inr (Leaf c)"
      "key = (if m = 0 then k else LTup (k # q))" by blast
    then show ?r by (intro exI [of _ "k # q"]) (auto simp: path_get_def)
  next
    assume ?r
    then obtain q where q: "length q = Suc m" "path_get d q = Some c" "key = (if m = 0 then hd q else LTup q)" by blast
    then obtain k q' where k: "q = k # q'" by (cases q) auto
    with q obtain t where "map_of d k = Some t" "nested_get t q' = Inr (Leaf c)"
      by (auto simp: path_get_def split: option.splits sum.splits tree.splits)
    then show ?l using q k by (intro exI [of _ k] exI [of _ t] exI [of _ q']) auto
  qed
  finally show ?thesis .
qed

section \<open>Selecting below a label\<close>

lemma path_get_below:
  assumes "forest_depth n d" and "nested_get (Branch d) p = Inr (Branch d')" and "length p \<le> n"
  shows "forest_depth (n - length p) d'" and "path_get d' q = path_get d (p @ q)"
proof -
  have "tree_depth (Suc n) (Branch d)" using assms(1) by (simp add: tree_depth_Branch del: tree_depth.simps)
  from nested_get_depth [OF this assms(2)] assms(3)
  show "forest_depth (n - length p) d'"
    by (simp add: Suc_diff_le tree_depth_Branch del: tree_depth.simps)
  show "path_get d' q = path_get d (p @ q)" by (simp add: path_get_def nested_get_append assms(2))
qed

lemma map_of_dict_of_set:
  assumes "\<And>k c. (k, c) \<in> set ps \<longleftrightarrow> f k = Some c"
  shows "map_of (dict_of ps) k = f k"
proof (cases "f k")
  case None
  then have "k \<notin> fst ` set (rev ps)" using assms by force
  then show ?thesis using None by (simp add: map_of_dict_of map_of_eq_None_iff)
next
  case (Some c)
  then have "map_of (rev ps) k \<noteq> None" using assms [of k c] by (auto simp: map_of_eq_None_iff rev_image_eqI)
  then obtain c' where c': "map_of (rev ps) k = Some c'" by auto
  then have "(k, c') \<in> set ps" by (auto dest!: map_of_SomeD)
  with Some assms c' show ?thesis by (simp add: map_of_dict_of)
qed

lemma select_grouped_branch:
  assumes wf: "ca_wf s" and multi: "a_multiindex s" and lv: "levels_are (Suc n) (a_data s)"
    and res: "ca_select_grouped s (LTup p) = Inr s'" and p: "length p \<le> n" and p0: "p \<noteq> []"
  shows "map_of (a_data s') k
    = (if length p = n then map_of (a_data s) (LTup (p @ [k]))
       else case k of LTup q \<Rightarrow> if length p + length q = Suc n then map_of (a_data s) (LTup (p @ q)) else None
                    | _ \<Rightarrow> None)"
    and "a_multiindex s' \<longleftrightarrow> length p < n"
proof -
  obtain g where g: "ca_grouped s = Inr (GNested g)" "forest_depth n g"
    and get: "\<And>q. length q = Suc n \<Longrightarrow> path_get g q = map_of (a_data s) (LTup q)"
    using grouped_paths [OF _ _ multi lv] wf by (auto simp: ca_wf_def)
  have td: "tree_depth (Suc n) (Branch g)" using g(2) by (simp add: tree_depth_Branch del: tree_depth.simps)
  from res g(1) obtain t where t: "nested_get (Branch g) p = Inr t"
    by (auto simp: ca_select_grouped_def grouped_getitem_def rbind_Inr_iff)
  have "t \<noteq> Leaf c" for c using nested_get_depth [OF td t] p by auto
  then obtain d where d: "t = Branch d" by (cases t) auto
  note below = path_get_below [OF g(2) t [unfolded d] p]
  have ne: "a_data s \<noteq> []"
  proof
    assume "a_data s = []"
    then have "g = []" using g(1) wf multi by (simp add: caches_reads ca_wf_def fresh_grouped_def)
    then show False using t d p0 by (cases p) auto
  qed
  obtain nl where nl: "ca_nlevels s = Inr nl" and s': "a_data s' = dict_of (to_flat_dict d)"
    and m: "a_multiindex s' = (1 < int nl - int (length p))"
    using res g(1) t d
    by (auto simp: ca_select_grouped_def grouped_getitem_def rbind_Inr_iff ca_init_def Let_def split: if_splits)
  have "nl = Suc n"
    using nl ne multi lv by (cases "a_data s") (auto simp: ca_nlevels_def ca_len_def levels_are_def)
  with m p show "a_multiindex s' \<longleftrightarrow> length p < n" by auto
  define f where "f = (\<lambda>k. if length p = n then map_of (a_data s) (LTup (p @ [k]))
       else case k of LTup q \<Rightarrow> if length p + length q = Suc n then map_of (a_data s) (LTup (p @ q)) else None
                    | _ \<Rightarrow> None)"
  have "(k, c) \<in> set (to_flat_dict d) \<longleftrightarrow> f k = Some c" for k c
  proof -
    have "(k, c) \<in> set (to_flat_dict d) \<longleftrightarrow>
       (\<exists>q. length q = Suc (n - length p) \<and> map_of (a_data s) (LTup (p @ q)) = Some c
          \<and> k = (if n - length p = 0 then hd q else LTup q))"
      unfolding flat_dict_items [OF below(1)] using below(2) get p by auto
    also have "\<dots> \<longleftrightarrow> f k = Some c"
    proof (cases "length p = n")
      case True
      then show ?thesis by (auto simp: f_def length_Suc_conv intro: exI [of _ "[k]"])
    next
      case False
      then show ?thesis using p by (auto simp: f_def Suc_diff_le split: label.splits if_splits)
    qed
    finally show ?thesis .
  qed
  from map_of_dict_of_set [of "to_flat_dict d" f, OF this] show "map_of (a_data s') k
    = (if length p = n then map_of (a_data s) (LTup (p @ [k]))
       else case k of LTup q \<Rightarrow> if length p + length q = Suc n then map_of (a_data s) (LTup (p @ q)) else None
                    | _ \<Rightarrow> None)"
    by (simp add: s' f_def)
qed

section \<open>Swapping levels\<close>

lemma swap_at_eq:
  assumes "0 \<le> i" "i < int (length xs)" "0 \<le> j" "j < int (length xs)"
  shows "swap_at xs i j = Inr (xs[nat i := xs ! nat j, nat j := xs ! nat i])"
  using assms by (simp add: swap_at_def py_index_def py_set_def Let_def)

definition swap_list :: "nat \<Rightarrow> nat \<Rightarrow> 'a list \<Rightarrow> 'a list" where
  "swap_list i j xs = xs[i := xs ! j, j := xs ! i]"

lemma swap_list_twice: "i < length xs \<Longrightarrow> j < length xs \<Longrightarrow> swap_list i j (swap_list i j xs) = xs"
  by (rule nth_equalityI) (auto simp: swap_list_def nth_list_update)

definition swap_lbl :: "nat \<Rightarrow> nat \<Rightarrow> label \<Rightarrow> label" where
  "swap_lbl i j l = LTup (swap_list i j (label_parts l))"

lemma swap_lbl_twice:
  assumes "levels_are (Suc n) d" and "k \<in> set (dkeys d)" and "i \<le> n" and "j \<le> n"
  shows "swap_lbl i j (swap_lbl i j k) = k"
proof -
  obtain xs where "k = LTup xs" "length xs = Suc n" using assms(1,2) by (auto simp: levels_are_def)
  then show ?thesis using assms(3,4) by (simp add: swap_lbl_def swap_list_twice)
qed

lemma swaplevel_data:
  assumes wf: "ca_wf s" and multi: "a_multiindex s" and lv: "levels_are (Suc n) (a_data s)" and ne: "a_data s \<noteq> []"
    and i: "0 \<le> i" "i \<le> int n" and j: "0 \<le> j" "j \<le> int n"
    and res: "ca_swaplevel s (LInt i) (LInt j) = Inr s'"
  shows "a_data s' = map (\<lambda>(k, v). (swap_lbl (nat i) (nat j) k, v)) (a_data s)"
    and "a_multiindex s'" and "ca_wf s'" and "levels_are (Suc n) (a_data s')"
    and "a_level_names s' \<noteq> None"
proof -
  let ?sw = "swap_lbl (nat i) (nat j)"
  have nl: "ca_nlevels s = Inr (Suc n)"
    using ne multi lv by (cases "a_data s") (auto simp: ca_nlevels_def ca_len_def levels_are_def)
  have sw: "swap_label i j k = Inr (?sw k)" if "k \<in> set (dkeys (a_data s))" for k
  proof -
    obtain xs where "k = LTup xs" "length xs = Suc n" using lv \<open>k \<in> set (dkeys (a_data s))\<close> by (auto simp: levels_are_def)
    then show ?thesis using i j by (simp add: swap_label_def swap_at_eq swap_lbl_def swap_list_def)
  qed
  let ?nd = "map (\<lambda>k. (k, ?sw k)) (dkeys (a_data s))"
  have nd: "rmap (\<lambda>row. rbind (swap_label i j row) (\<lambda>row'. Inr (row, row'))) (ca_names s) = Inr ?nd"
    using wf sw by (intro rmap_all_Inr [THEN trans]) (auto simp: caches_reads ca_wf_def)
  have lookup: "map_of (rev ?nd) k = Some (?sw k)" if "k \<in> set (dkeys (a_data s))" for k
    unfolding rev_map map_of_map_restrict using that by (simp add: restrict_map_def)
  have data: "rmap (\<lambda>(k, v). rbind (of_option KeyError (map_of (rev ?nd) k)) (\<lambda>k'. Inr (k', v))) (a_data s)
     = Inr (map (\<lambda>(k, v). (?sw k, v)) (a_data s))"
    using lookup by (intro rmap_all_Inr) force
  have inj: "inj_on ?sw (set (dkeys (a_data s)))"
  proof (rule inj_onI)
    fix k k' assume k: "k \<in> set (dkeys (a_data s))" "k' \<in> set (dkeys (a_data s))" and e: "?sw k = ?sw k'"
    have "nat i \<le> n" "nat j \<le> n" using i j by auto
    from swap_lbl_twice [OF lv k(1) this] swap_lbl_twice [OF lv k(2) this] show "k = k'" unfolding e by simp
  qed
  have keys: "map fst (map (\<lambda>(k, v). (?sw k, v)) (a_data s)) = map ?sw (dkeys (a_data s))" by auto
  have "distinct (map ?sw (dkeys (a_data s)))"
    using wf inj by (simp add: distinct_map ca_wf_def del: map_map)
  then have dict: "dict_of (map (\<lambda>(k, v). (?sw k, v)) (a_data s)) = map (\<lambda>(k, v). (?sw k, v)) (a_data s)"
    by (intro dict_of_distinct) (simp only: keys)
  have get: "get_level (LInt i) (Suc n) ns = Inr i" "get_level (LInt j) (Suc n) ns = Inr j" for ns
    using i j by (auto simp: Let_def)
  from res obtain new_names lds r where init: "ca_init (map (\<lambda>(k, v). (?sw k, v)) (a_data s)) True (Some new_names)
      (a_rangeindex s) (a_label_dtype s) False lds None = Inr s'"
    using multi nl get nd data dict by (auto simp: ca_swaplevel_def rbind_Inr_iff)
  show d: "a_data s' = map (\<lambda>(k, v). (?sw k, v)) (a_data s)" and "a_multiindex s'" and "a_level_names s' \<noteq> None"
    using init by (auto simp: ca_init_def Let_def split: if_splits)
  show "levels_are (Suc n) (a_data s')"
    using lv by (fastforce simp: d levels_are_def swap_lbl_def swap_list_def)
  have cn: "compute_nrows (a_data s') = compute_nrows (a_data s)"
    using ne by (cases "a_data s") (auto simp: d compute_nrows_def)
  have "dvalues (a_data s') = dvalues (a_data s)" by (auto simp: d)
  then have "verify_columns (compute_nrows (a_data s')) (a_data s')"
    using wf unfolding ca_wf_def verify_columns_iff cn by simp
  moreover have "dict_ok (a_data s')" using \<open>distinct (map ?sw (dkeys (a_data s)))\<close> unfolding d keys .
  moreover have "caches_ok s'" using init by (auto simp: ca_init_def Let_def caches_ok_def split: if_splits)
  ultimately show "ca_wf s'" by (simp add: ca_wf_def)
qed

section \<open>Top-level groups\<close>

lemma nested_set_keys: "nested_set path v d = Inr d' \<Longrightarrow> fst ` set d' = insert (hd path) (fst ` set d)"
proof (induction path v d arbitrary: d' rule: nested_set.induct)
  case (2 k v d)
  then show ?case using dom_update [of k "Leaf v" d] by auto
next
  case (3 k k2 ks v d)
  then obtain t where "d' = dset k t d" by (auto simp: rbind_Inr_iff split: option.splits tree.splits)
  then show ?case using dom_update [of k t d] by auto
qed auto

lemma from_zip_keys:
  "levels_are (Suc n) data \<Longrightarrow> from_zip g data = Inr g' \<Longrightarrow>
   fst ` set g' = fst ` set g \<union> (\<lambda>p. hd (label_parts (fst p))) ` set data"
proof (induction data arbitrary: g)
  case (Cons p data)
  obtain xs v where p: "p = (LTup xs, v)" using Cons.prems(1) by (cases p) (auto simp: levels_are_def)
  with Cons.prems obtain g1 where g1: "nested_set xs v g = Inr g1" "from_zip g1 data = Inr g'"
    by (auto simp: rbind_Inr_iff)
  have "levels_are (Suc n) data" using Cons.prems(1) by (simp add: levels_are_def)
  from Cons.IH [OF this g1(2)] nested_set_keys [OF g1(1)] show ?case by (auto simp: p)
qed simp

lemma grouped_length:
  assumes "caches_ok s" and "dict_ok (a_data s)" and "a_multiindex s" and "levels_are (Suc n) (a_data s)"
    and "ca_grouped s = Inr (GNested g)"
  shows "length g = card (set (map (\<lambda>p. hd (label_parts (fst p))) (a_data s)))"
proof -
  from grouped_paths [OF assms(1-4)] assms(5) have "dict_ok g" by (auto simp: forest_depth_def)
  then have "length g = card (set (dkeys g))" using distinct_card [of "dkeys g"] by simp
  moreover have "from_zip [] (a_data s) = Inr g"
    using assms(5,3) by (simp add: caches_reads(4) [OF assms(1)] fresh_grouped_def rbind_Inr_iff)
  ultimately show ?thesis using from_zip_keys [OF assms(4)] by simp
qed

section \<open>Properties\<close>

abbreviation accessor_of ::
  "(label, 'v colval) pydict \<Rightarrow> bool \<Rightarrow> label list option \<Rightarrow> string option \<Rightarrow> 'v accessor" where
  "accessor_of d m ns dt \<equiv> \<lparr>a_data = d, a_multiindex = m, a_level_names = ns, a_rangeindex = False,
     a_label_dtype = dt, a_level_dtypes = None, k_names = None, k_columns = None, k_grouped = None,
     k_nrows = None, k_pandas = None\<rparr>"

text \<open>C30: The invariant of the accessor is kept by every sequence of \<open>insert\<close>,
  \<open>set_by_label\<close>, \<open>__delitem__\<close> and reads of cached properties, successful or
  raising: keys stay distinct, all values are columns of one length, and every cached
  property equals what would be computed from the current data without a cache.  In particular no
  read after the run sees a stale cache: the labels, the columns, the row count, the grouped data, the
  pandas index with its class, labels, names and dtype, and the name.  At the start a cached pandas
  index, also one handed over by the caller, has to be the one the accessor would compute.\<close>

theorem accessor_caches_never_stale:
  assumes "ca_wf s" and "s' = run (ca_step mixed pandas_mode) s es"
  shows "ca_wf s' \<and> ca_names s' = dkeys (a_data s') \<and> ca_columns s' = dvalues (a_data s')
     \<and> ca_nrows s' = compute_nrows (a_data s')
     \<and> ca_grouped s' = fresh_grouped (a_multiindex s') (a_data s')
     \<and> ca_pandas_index s' = compute_pandas_index (uncached s') \<and> ca_name s' = ca_name (uncached s')"
proof -
  have "ca_wf s'" unfolding assms(2)
    by (rule accessor_run.run_inv [OF assms(1)]) (simp add: list_all_iff)
  then show ?thesis
    by (simp add: caches_reads ca_wf_def pandas_index_fresh ca_name_fresh flip: fresh_pandas_def)
qed

theorem accessor_caches_never_stale_witness:
  "ca_names (run (ca_step (\<lambda>_ _. False) False) (accessor_of [] False None None)
     [EvRead ANrows, EvSet (LStr ''a'') (Col [1 :: int, 2]), EvRead APandas, EvInsert (LStr ''b'') (Col [3, 4]) 0, EvRead APandas])
   = [LStr ''b'', LStr ''a'']
   \<and> ca_pandas_index (run (ca_step (\<lambda>_ _. False) False) (accessor_of [] False None None)
     [EvRead ANrows, EvSet (LStr ''a'') (Col [1 :: int, 2]), EvRead APandas, EvInsert (LStr ''b'') (Col [3, 4]) 0, EvRead APandas])
   = Inr (PIndex [LStr ''b'', LStr ''a''] LNone None)"
proof -
  let ?es = "[EvRead ANrows, EvSet (LStr ''a'') (Col [1 :: int, 2]), EvRead APandas, EvInsert (LStr ''b'') (Col [3, 4]) 0, EvRead APandas]"
  let ?s = "run (ca_step (\<lambda>_ _. False) False) (accessor_of [] False None None) ?es"
  have wf: "ca_wf (accessor_of [] False None None)" by (simp add: ca_wf_def caches_ok_def)
  have data: "a_data ?s = [(LStr ''b'', Col [3, 4]), (LStr ''a'', Col [1, 2])]
      \<and> a_multiindex ?s = False \<and> a_rangeindex ?s = False \<and> a_level_names ?s = None \<and> a_label_dtype ?s = None"
    by code_simp
  have "ca_names ?s = dkeys (a_data ?s) \<and> ca_pandas_index ?s = compute_pandas_index (uncached ?s)"
    using accessor_caches_never_stale [OF wf refl, of "\<lambda>_ _. False" False ?es] by blast
  moreover have "compute_pandas_index (uncached ?s) = Inr (PIndex [LStr ''b'', LStr ''a''] LNone None)"
    using data by (simp add: compute_pandas_index_def ca_level_names_def ca_name_def ca_nlevels_def ca_len_def
        ca_names_def uncached_def del: run.simps)
  ultimately show ?thesis using data by simp
qed

text \<open>C31: A successful \<open>insert\<close> puts the new column, under its padded label, at the
  requested position and leaves every other label, column and their order unchanged; it
  only succeeds for a new label, a column of the common length, and a position between 0 and the
  number of columns, or -1 for the end.\<close>

theorem accessor_insert:
  assumes "ca_wf s" and "ca_insert mixed pandas_mode s name value loc = Inr s'"
  shows "\<exists>name' n. pad_key s name (LStr []) = Inr name' \<and> name' \<notin> set (dkeys (a_data s))
     \<and> (loc = - 1 \<and> n = ca_len s \<or> 0 \<le> loc \<and> loc \<le> int (ca_len s) \<and> n = nat loc)
     \<and> is_column value \<and> (0 < ca_len s \<longrightarrow> colval_len value = compute_nrows (a_data s))
     \<and> dkeys (a_data s') = take n (dkeys (a_data s)) @ name' # drop n (dkeys (a_data s))
     \<and> map_of (a_data s') = (map_of (a_data s))(name' \<mapsto> value)"
proof -
  from insert_Inr [OF assms] obtain name' n where *: "pad_key s name (LStr []) = Inr name'"
    "name' \<notin> set (dkeys (a_data s))" "loc = - 1 \<and> n = ca_len s \<or> 0 \<le> loc \<and> loc \<le> int (ca_len s) \<and> n = nat loc"
    "is_column value" "0 < ca_len s \<Longrightarrow> colval_len value = ca_nrows s"
    and s': "s' = clear_cache (ca_len s) (length (insert_at n (name', value) (a_data s)))
          (s\<lparr>k_nrows := nrows_read s, a_label_dtype := (if pandas_mode then a_label_dtype s else None),
             a_data := insert_at n (name', value) (a_data s)\<rparr>)" by metis
  have d: "a_data s' = insert_at n (name', value) (a_data s)" by (simp add: s' clear_cache_def Let_def)
  have "ca_nrows s = compute_nrows (a_data s)" using assms(1) by (simp add: caches_reads ca_wf_def)
  moreover have "dkeys (a_data s') = take n (dkeys (a_data s)) @ name' # drop n (dkeys (a_data s))"
    by (simp add: d map_insert_at) (simp add: insert_at_def)
  moreover have "map_of (a_data s') = (map_of (a_data s))(name' \<mapsto> value)"
    using map_of_insert_at [OF *(2)] by (simp add: d)
  ultimately show ?thesis using * by (intro exI [of _ name'] exI [of _ n]) simp
qed

theorem accessor_insert_witness:
  "\<exists>name' n. pad_key (accessor_of [(LStr ''a'', Col [1 :: int])] False None None) (LInt 7) (LStr []) = Inr name' \<and> n = 0
     \<and> dkeys [(LInt 7, Col [2 :: int]), (LStr ''a'', Col [1])]
       = take n (dkeys (a_data (accessor_of [(LStr ''a'', Col [1 :: int])] False None None))) @ name'
         # drop n (dkeys (a_data (accessor_of [(LStr ''a'', Col [1 :: int])] False None None)))"
proof -
  let ?s = "accessor_of [(LStr ''a'', Col [1 :: int])] False None None"
  have wf: "ca_wf ?s" by (simp add: ca_wf_def caches_ok_def compute_nrows_def)
  have "ca_insert (\<lambda>_ _. False) False ?s (LInt 7) (Col [2]) 0
      = Inr (clear_cache 1 2 (?s\<lparr>a_data := [(LInt 7, Col [2 :: int]), (LStr ''a'', Col [1])], k_nrows := Some 1\<rparr>))"
    by (simp add: ca_insert_def pad_key_def ca_len_def ca_nrows_def compute_nrows_def ca_names_def ca_columns_def
        zip_strict_def dict_of_def Let_def numeral_2_eq_2)
  from accessor_insert [OF wf this] show ?thesis by (auto simp: clear_cache_def ca_len_def Let_def)
qed

text \<open>Looking a label up finds the column even when the NaNs in it are other objects
  than those of the stored label, as long as no two stored labels agree up to the identity
  of their NaNs; labels without NaN are looked up exactly.\<close>

theorem accessor_getitem_nan:
  assumes "ca_wf s" and "distinct (map (\<lambda>p. canonicalize_nan_label (fst p)) (a_data s))"
    and "(k, c) \<in> set (a_data s)" and "canonicalize_nan_label k' = canonicalize_nan_label k"
  shows "ca_getitem s k' = Inr c"
  using assms by (rule getitem_nan)

theorem accessor_getitem_nan_witness:
  "ca_getitem (accessor_of [(LStr ''a'', Col [1 :: int]), (LTup [LNaN 5, LInt 2], Col [9])] False None None)
     (LTup [LNaN 8, LInt 2]) = Inr (Col [9])"
  by (rule accessor_getitem_nan [where k = "LTup [LNaN 5, LInt 2]"])
    (simp_all add: ca_wf_def caches_ok_def compute_nrows_def)

text \<open>C32: Selecting with a tuple that names the first levels of hierarchical labels returns
  exactly the columns below it, with the named levels removed from their labels: tuples of
  the remaining levels, or scalars when one level remains; the result is hierarchical
  exactly when more than one level remains.\<close>

theorem accessor_select_below_label:
  assumes "ca_wf s" and "a_multiindex s" and "levels_are (Suc n) (a_data s)"
    and "ca_select_grouped s (LTup p) = Inr s'" and "length p \<le> n" and "p \<noteq> []"
  shows "(\<forall>q. map_of (a_data s') (LTup q)
            = (if length p = n then map_of (a_data s) (LTup (p @ [LTup q]))
               else if length p + length q = Suc n then map_of (a_data s) (LTup (p @ q)) else None))
     \<and> (\<forall>x. \<not> is_tuple x \<longrightarrow>
            map_of (a_data s') x = (if length p = n then map_of (a_data s) (LTup (p @ [x])) else None))
     \<and> (a_multiindex s' \<longleftrightarrow> length p < n)"
proof -
  note b = select_grouped_branch [OF assms]
  have "map_of (a_data s') x = (if length p = n then map_of (a_data s) (LTup (p @ [x])) else None)"
    if "\<not> is_tuple x" for x
    using that b(1) [of x] by (cases x) simp_all
  moreover have "map_of (a_data s') (LTup q)
            = (if length p = n then map_of (a_data s) (LTup (p @ [LTup q]))
               else if length p + length q = Suc n then map_of (a_data s) (LTup (p @ q)) else None)" for q
    using b(1) [of "LTup q"] by simp
  ultimately show ?thesis using b(2) by blast
qed

theorem accessor_select_below_label_witness:
  "map_of (a_data (accessor_of [(LStr ''x'', Col [1 :: int]), (LStr ''y'', Col [3])] False (Some [LNone]) None)) (LStr ''y'')
   = map_of [(LTup [LStr ''a'', LStr ''x''], Col [1]), (LTup [LStr ''b'', LStr ''x''], Col [2]),
             (LTup [LStr ''a'', LStr ''y''], Col [3])] (LTup [LStr ''a'', LStr ''y''])"
proof -
  let ?s = "accessor_of [(LTup [LStr ''a'', LStr ''x''], Col [1 :: int]), (LTup [LStr ''b'', LStr ''x''], Col [2]),
             (LTup [LStr ''a'', LStr ''y''], Col [3])] True None None"
  let ?s' = "accessor_of [(LStr ''x'', Col [1 :: int]), (LStr ''y'', Col [3])] False (Some [LNone]) None"
  have wf: "ca_wf ?s" by (simp add: ca_wf_def caches_ok_def compute_nrows_def)
  have lv: "levels_are (Suc 1) (a_data ?s)" by (simp add: levels_are_def)
  have "ca_select_grouped ?s (LTup [LStr ''a'']) = Inr ?s'"
    by (simp add: ca_select_grouped_def ca_grouped_def ca_names_def ca_columns_def grouped_getitem_def
        ca_nlevels_def ca_len_def ca_level_names_def to_flat_dict_def dict_of_def ca_init_def Let_def
        numeral_2_eq_2)
  from accessor_select_below_label [OF wf _ lv this] show ?thesis by simp
qed

text \<open>Selecting columns by position with a slice whose step is positive gives the
  labels Python's slice of the label list gives, for every combination of missing,
  negative and out-of-range bounds.\<close>

theorem accessor_columns_slice:
  assumes "ca_wf s" and "(case sl_step sl of None \<Rightarrow> 1 | Some k \<Rightarrow> k) > 0"
  shows "ca_get_labels_by_index s (CSlice sl) = list_slice (dkeys (a_data s)) sl"
proof -
  let ?n = "ca_len s"
  let ?st = "case sl_step sl of None \<Rightarrow> 1 | Some k \<Rightarrow> k"
  let ?a = "case sl_start sl of None \<Rightarrow> 0 | Some x \<Rightarrow> clip_bound 0 (int ?n) (int ?n) x"
  let ?b = "case sl_stop sl of None \<Rightarrow> int ?n | Some x \<Rightarrow> clip_bound 0 (int ?n) (int ?n) x"
  have ind: "slice_indices sl ?n = Inr (?a, ?b, ?st)" using assms(2) by (simp add: slice_indices_def Let_def)
  have "0 \<le> ?a \<and> ?a \<le> int ?n \<and> 0 \<le> ?b \<and> ?b \<le> int ?n" by (auto simp: clip_bound_def split: option.splits)
  then have "slice_indices \<lparr>sl_start = Some ?a, sl_stop = Some ?b, sl_step = Some ?st\<rparr> ?n = Inr (?a, ?b, ?st)"
    using assms(2) by (simp add: slice_indices_def Let_def clip_bound_def)
  then show ?thesis using ind assms(1)
    by (simp add: list_slice_def caches_reads ca_wf_def ca_len_def)
qed

theorem accessor_columns_slice_witness:
  "ca_get_labels_by_index (accessor_of [(LStr ''a'', Col [1 :: int]), (LStr ''b'', Col [2]), (LStr ''c'', Col [3])] False None None)
     (CSlice \<lparr>sl_start = Some (- 2), sl_stop = Some 9, sl_step = None\<rparr>) = Inr [LStr ''b'', LStr ''c'']"
proof -
  let ?s = "accessor_of [(LStr ''a'', Col [1 :: int]), (LStr ''b'', Col [2]), (LStr ''c'', Col [3])] False None None"
  have wf: "ca_wf ?s" by (simp add: ca_wf_def caches_ok_def compute_nrows_def)
  show ?thesis
    using accessor_columns_slice [OF wf, of "\<lparr>sl_start = Some (- 2), sl_stop = Some 9, sl_step = None\<rparr>"]
    by (simp add: list_slice_def slice_indices_def clip_bound_def rlist_def rlen_def upt_rec)
qed

text \<open>Reversing the columns by position selects none of them: \<open>slice.indices\<close> of
  \<open>[::-1]\<close> gives the stop \<open>-1\<close>, which slicing the labels a second time reads as the last
  position.\<close>

theorem accessor_columns_reverse_empty:
  assumes "ca_wf s"
  shows "ca_get_labels_by_index s (CSlice slice_reverse) = Inr []
     \<and> list_slice (dkeys (a_data s)) slice_reverse = Inr (rev (dkeys (a_data s)))"
proof -
  let ?n = "int (ca_len s)"
  have "slice_indices slice_reverse (ca_len s) = Inr (?n - 1, - 1, - 1)"
    by (simp add: slice_indices_def slice_reverse_def Let_def)
  moreover have "slice_indices \<lparr>sl_start = Some (?n - 1), sl_stop = Some (- 1), sl_step = Some (- 1)\<rparr> (ca_len s)
     = Inr (?n - 1, ?n - 1, - 1)"
    by (auto simp: slice_indices_def clip_bound_def Let_def ca_len_def)
  moreover have "rlen \<lparr>rstart = ?n - 1, rstop = ?n - 1, rstep = - 1\<rparr> = 0" by (simp add: rlen_def)
  ultimately have "ca_get_labels_by_index s (CSlice slice_reverse) = Inr []"
    using assms by (simp add: list_slice_def caches_reads ca_wf_def ca_len_def)
  moreover have "list_slice xs slice_reverse = Inr (rev xs)" for xs :: "label list"
  proof -
    have "rlen \<lparr>rstart = int (length xs) - 1, rstop = - 1, rstep = - 1\<rparr> = length xs" by (simp add: rlen_def)
    then have "map (\<lambda>i. xs ! nat i) (rlist \<lparr>rstart = int (length xs) - 1, rstop = - 1, rstep = - 1\<rparr>) = rev xs"
      by (intro nth_equalityI) (auto simp: rev_nth nat_diff_distrib intro!: arg_cong [of _ _ "(!) xs"])
    then show ?thesis by (simp add: list_slice_def slice_indices_def slice_reverse_def Let_def)
  qed
  ultimately show ?thesis by blast
qed

theorem accessor_columns_reverse_empty_witness:
  "ca_get_labels_by_index (accessor_of [(LStr ''a'', Col [1 :: int]), (LStr ''b'', Col [2])] False None None)
     (CSlice slice_reverse) = Inr []"
  using accessor_columns_reverse_empty
    [of "accessor_of [(LStr ''a'', Col [1 :: int]), (LStr ''b'', Col [2])] False None None"]
  by (simp add: ca_wf_def caches_ok_def compute_nrows_def)

text \<open>Swapping two levels twice gives back the data: the same labels in the same order
  with the same columns; once, it swaps the two parts in every label and keeps all columns
  and the invariant.\<close>

theorem accessor_swaplevel_twice:
  assumes "ca_wf s" and "a_multiindex s" and "levels_are (Suc n) (a_data s)" and "a_data s \<noteq> []"
    and "0 \<le> i" and "i \<le> int n" and "0 \<le> j" and "j \<le> int n"
    and "ca_swaplevel s (LInt i) (LInt j) = Inr s'" and "ca_swaplevel s' (LInt i) (LInt j) = Inr s''"
  shows "a_data s'' = a_data s \<and> ca_wf s'
     \<and> a_data s' = map (\<lambda>(k, v). (swap_lbl (nat i) (nat j) k, v)) (a_data s)"
proof -
  note one = swaplevel_data [OF assms(1-9)]
  have ne: "a_data s' \<noteq> []" using one(1) assms(4) by simp
  note two = swaplevel_data [OF one(3,2,4) ne assms(5-8,10)]
  have "nat i \<le> n" "nat j \<le> n" using assms(5-8) by auto
  then have "swap_lbl (nat i) (nat j) (swap_lbl (nat i) (nat j) k) = k" if "(k, v) \<in> set (a_data s)" for k v
    using swap_lbl_twice [OF assms(3), of k] that by force
  then have "a_data s'' = a_data s"
    unfolding two(1) one(1) by (auto intro!: map_idI)
  with one show ?thesis by blast
qed

theorem accessor_swaplevel_twice_witness:
  "a_data (accessor_of [(LTup [LStr ''a'', LStr ''x''], Col [1 :: int])] True (Some [LStr ''p'', LStr ''q'']) None)
   = [(LTup [LStr ''a'', LStr ''x''], Col [1])]"
proof -
  let ?s = "accessor_of [(LTup [LStr ''a'', LStr ''x''], Col [1 :: int])] True (Some [LStr ''p'', LStr ''q'']) None"
  let ?t = "accessor_of [(LTup [LStr ''x'', LStr ''a''], Col [1 :: int])] True (Some [LStr ''q'', LStr ''p'']) None"
  have wf: "ca_wf ?s" by (simp add: ca_wf_def caches_ok_def compute_nrows_def)
  have lv: "levels_are (Suc 1) (a_data ?s)" by (simp add: levels_are_def)
  have "ca_swaplevel ?s (LInt 0) (LInt 1) = Inr ?t" "ca_swaplevel ?t (LInt 0) (LInt 1) = Inr ?s"
    by (simp_all add: ca_swaplevel_def ca_nlevels_def ca_level_names_def ca_len_def ca_names_def swap_label_def
        swap_at_def py_index_def py_set_def dict_of_def ca_init_def Let_def numeral_2_eq_2)
  from accessor_swaplevel_twice [OF wf _ lv _ _ _ _ _ this] show ?thesis by simp
qed

text \<open>Renaming a level of hierarchical columns always raises ValueError when the
  accessor has a label dtype and a column and no label fails to be renamed: the new labels come from a
  generator, which the type check has exhausted before the labels are zipped with the
  columns.\<close>

theorem accessor_rename_exhausts_generator:
  assumes "a_multiindex s" and "a_data s \<noteq> []" and "a_label_dtype s = Some dt"
    and "levels_are n (a_data s)" and "lv < n" and "level = Some (int lv)"
  shows "ca_rename_levels s (MapDict m) level = Inl ValueError"
proof -
  let ?r = "\<lambda>k. LTup ((label_parts k)[lv := (case map_of m (label_parts k ! lv) of Some y \<Rightarrow> y | None \<Rightarrow> label_parts k ! lv)])"
  have r: "rename_column (MapDict m) (int lv) k = Inr (?r k)" if k: "k \<in> set (dkeys (a_data s))" for k
  proof -
    obtain xs where "k = LTup xs" "length xs = n" using assms(4) k by (auto simp: levels_are_def)
    then show ?thesis using assms(5)
      by (simp add: rename_column_def py_index_def py_set_def Let_def split: option.splits)
  qed
  have new: "rmap (rename_column (MapDict m) (int lv)) (dkeys (a_data s)) = Inr (map ?r (dkeys (a_data s)))"
    by (rule rmap_all_Inr) (rule r)
  obtain xs where "fst (hd (a_data s)) = LTup xs" using assms(2,4) by (cases "a_data s") (auto simp: levels_are_def)
  then have "same_type (fst (hd (a_data s))) (LTup zs) = True" for zs by simp
  then have "consume_all (same_type (fst (hd (a_data s)))) (map ?r ks) = (True, [])" for ks
    by (induction ks) auto
  then show ?thesis using assms new
    by (simp add: ca_rename_levels_def ca_len_def zip_strict_def Let_def del: map_map)
qed

theorem accessor_rename_exhausts_generator_witness:
  "ca_rename_levels (accessor_of [(LTup [LStr ''a'', LStr ''x''], Col [1 :: int])] True None (Some ''object''))
     (MapDict [(LStr ''x'', LStr ''z'')]) (Some 1) = Inl ValueError"
  using accessor_rename_exhausts_generator
    [of "accessor_of [(LTup [LStr ''a'', LStr ''x''], Col [1 :: int])] True None (Some ''object'')" "''object''" 2 1 "Some 1"]
  by (simp add: levels_are_def)

text \<open>Selecting columns with a boolean mask as long as the columns raises ValueError on
  hierarchical columns as soon as two of them share their first label: the mask is zipped
  strictly with the top-level groups, of which there are fewer.\<close>

theorem accessor_mask_hierarchical_raises:
  assumes "ca_wf s" and "a_multiindex s" and "levels_are (Suc n) (a_data s)"
    and "\<not> distinct (map (\<lambda>p. hd (label_parts (fst p))) (a_data s))"
    and "length flags = ca_len s"
  shows "ca_select_list_like s (map SBool flags) = Inl ValueError"
proof -
  have ok: "caches_ok s" "dict_ok (a_data s)" using assms(1) by (simp_all add: ca_wf_def)
  obtain g where g: "ca_grouped s = Inr (GNested g)" using grouped_paths [OF ok assms(2,3)] by blast
  have "length g \<noteq> ca_len s"
    using grouped_length [OF ok assms(2,3) g] assms(4) card_distinct
    by (metis ca_len_def length_map)
  moreover have "a_data s \<noteq> []" using assms(4) by auto
  then have "flags \<noteq> []" using assms(5) by (auto simp: ca_len_def)
  moreover have "those (map sel_bool (map SBool bs)) = Some bs" for bs
    by (induction bs) auto
  ultimately show ?thesis using g assms(5)
    by (simp add: ca_select_list_like_def as_forest_def zip_strict_def del: map_map)
qed

theorem accessor_mask_hierarchical_raises_witness:
  "ca_select_list_like (accessor_of [(LTup [LStr ''a'', LStr ''x''], Col [1 :: int]), (LTup [LStr ''a'', LStr ''y''], Col [2])]
     True None None) [SBool True, SBool False] = Inl ValueError"
  using accessor_mask_hierarchical_raises
    [of "accessor_of [(LTup [LStr ''a'', LStr ''x''], Col [1 :: int]), (LTup [LStr ''a'', LStr ''y''], Col [2])] True None None"
      1 "[True, False]"]
  by (simp add: ca_wf_def caches_ok_def compute_nrows_def levels_are_def ca_len_def)

text \<open>Dropping one of two levels makes the accessor flat only when the pandas index of the
  labels is not cached: otherwise \<open>level_names\<close> still answers with the two names of the
  cached index, and the accessor is left hierarchical although its labels are scalars.\<close>

theorem accessor_droplevel_stale_names:
  assumes "a_multiindex s" and "levels_are 2 (a_data s)" and "a_level_names s = Some [n1, n2]"
    and "lv = 0 \<or> lv = 1"
  shows "\<exists>fresh stale. ca_droplevel (s\<lparr>k_pandas := None\<rparr>) lv = Inr fresh
     \<and> ca_droplevel (s\<lparr>k_pandas := Some (PMulti (dkeys (a_data s)) [n1, n2])\<rparr>) lv = Inr stale
     \<and> a_data stale = a_data fresh \<and> a_level_names stale = a_level_names fresh
     \<and> \<not> a_multiindex fresh \<and> a_multiindex stale"
proof -
  let ?f = "\<lambda>k. (case k of LTup xs \<Rightarrow> xs ! nat (1 - lv) | l \<Rightarrow> l)"
  have two: "without_level [x, y] lv = [[x, y] ! nat (1 - lv)]" for x y :: 'b
    using assms(4) by (auto simp: without_level_def Let_def)
  have key: "remove_key_level k lv = Inr (?f k)" if k: "k \<in> set (dkeys (a_data s))" for k
  proof -
    obtain xs where "k = LTup xs" "length xs = 2" using assms(2) k by (auto simp: levels_are_def)
    then obtain x y where "k = LTup [x, y]" by (auto simp: numeral_2_eq_2 length_Suc_conv)
    then show ?thesis using assms(4) by (auto simp: without_level_def Let_def)
  qed
  have pairs: "rmap (\<lambda>(key, value). rbind (remove_key_level key lv) (\<lambda>key'. Inr (key', value))) (a_data s)
      = Inr (map (\<lambda>(k, v). (?f k, v)) (a_data s))"
    using key by (intro rmap_all_Inr) force
  show ?thesis using assms(1,3,4) pairs two [of n1 n2]
    by (auto simp: ca_droplevel_def ca_level_names_def Let_def clear_cache_def without_level_def)
qed

theorem accessor_droplevel_stale_names_witness:
  "\<exists>fresh stale. ca_droplevel (accessor_of [(LTup [LStr ''a'', LStr ''x''], Col [1 :: int])] True (Some [LNone, LNone]) None) 0 = Inr fresh
     \<and> ca_droplevel (accessor_of [(LTup [LStr ''a'', LStr ''x''], Col [1 :: int])] True (Some [LNone, LNone]) None
         \<lparr>k_pandas := Some (PMulti [LTup [LStr ''a'', LStr ''x'']] [LNone, LNone])\<rparr>) 0 = Inr stale
     \<and> \<not> a_multiindex fresh \<and> a_multiindex stale"
  using accessor_droplevel_stale_names
    [of "accessor_of [(LTup [LStr ''a'', LStr ''x''], Col [1 :: int])] True (Some [LNone, LNone]) None" LNone LNone 0]
  by (auto simp: levels_are_def)

end
