(* ===== verification/OptionsModel.thy ===== *)
theory OptionsModel
  imports Prelude
begin

text \<open>
  cuDF's global options (\<open>cudf/options.py\<close>): the registry of options with their validators,
  the environment variables that give defaults, \<open>get_option\<close>, \<open>set_option\<close> and the
  context manager \<open>option_context\<close>.  The descriptions are texts and are not modelled.
\<close>

section \<open>Values\<close>

text \<open>A float is \<open>m / 2 ^ k\<close>; a list stands for any unhashable object.\<close>

datatype optval = VNone | VBool bool | VInt int | VFloat int nat | VStr string | VList

fun numeric :: "optval \<Rightarrow> (int \<times> nat) option" where
  "numeric (VBool b) = Some (if b then 1 else 0, 0)"
| "numeric (VInt i) = Some (i, 0)"
| "numeric (VFloat m k) = Some (m, k)"
| "numeric _ = None"

text \<open>Python's \<open>==\<close>: bools, ints and floats compare by value.\<close>

definition val_eq :: "optval \<Rightarrow> optval \<Rightarrow> bool" where
  "val_eq a b =
     (case (numeric a, numeric b) of
        (Some (m, k), Some (m', k')) \<Rightarrow> m * 2 ^ k' = m' * 2 ^ k
      | _ \<Rightarrow> a = b)"

section \<open>Parsing\<close>

definition is_space :: "char \<Rightarrow> bool" where
  "is_space c \<longleftrightarrow> (let n = (of_char c :: nat) in
     (9 \<le> n \<and> n \<le> 13) \<or> (28 \<le> n \<and> n \<le> 32) \<or> n = 133 \<or> n = 160)"

definition strip :: "string \<Rightarrow> string" where
  "strip s = rev (dropWhile is_space (rev (dropWhile is_space s)))"

definition lower_char :: "char \<Rightarrow> char" where
  "lower_char c = (let n = (of_char c :: nat) in if 65 \<le> n \<and> n \<le> 90 then char_of (n + 32) else c)"

definition digit :: "char \<Rightarrow> int option" where
  "digit c = (let n = (of_char c :: nat) in if 48 \<le> n \<and> n \<le> 57 then Some (int n - 48) else None)"

text \<open>The digits of an integer literal, single underscores between digits allowed; the flag
  says whether the previous character was a digit.\<close>

fun parse_digits :: "bool \<Rightarrow> int \<Rightarrow> string \<Rightarrow> int option" where
  "parse_digits prev acc [] = (if prev then Some acc else None)"
| "parse_digits prev acc (c # cs) =
     (case digit c of
        Some d \<Rightarrow> parse_digits True (10 * acc + d) cs
      | None \<Rightarrow> if prev \<and> c = CHR ''_'' then parse_digits False acc cs else None)"

definition parse_int :: "string \<Rightarrow> int option" where
  "parse_int s =
     (case strip s of
        [] \<Rightarrow> None
      | c # cs \<Rightarrow>
          if c = CHR ''-'' then map_option uminus (parse_digits False 0 cs)
          else if c = CHR ''+'' then parse_digits False 0 cs
          else parse_digits False 0 (c # cs))"

text \<open>\<open>int(val)\<close>.\<close>

fun to_int :: "optval \<Rightarrow> int res" where
  "to_int VNone = Inl TypeError"
| "to_int (VBool b) = Inr (if b then 1 else 0)"
| "to_int (VInt i) = Inr i"
| "to_int (VFloat m k) = Inr (if 0 \<le> m then m div 2 ^ k else - ((- m) div 2 ^ k))"
| "to_int (VStr s) = of_option ValueError (parse_int s)"
| "to_int VList = Inl TypeError"

type_synonym environment = "string \<Rightarrow> string option"

definition env_get_int :: "environment \<Rightarrow> string \<Rightarrow> optval \<Rightarrow> optval" where
  "env_get_int env name dflt =
     (case to_int (case env name of None \<Rightarrow> dflt | Some s \<Rightarrow> VStr s) of
        Inr i \<Rightarrow> VInt i
      | Inl _ \<Rightarrow> dflt)"

definition env_get_bool :: "environment \<Rightarrow> string \<Rightarrow> optval \<Rightarrow> optval" where
  "env_get_bool env name dflt =
     (case env name of
        None \<Rightarrow> dflt
      | Some s \<Rightarrow>
          (let as_a_int = env_get_int env name VNone;
               s' = strip (map lower_char s)
           in if s' = ''true'' \<or> s' = ''on'' \<or> (case as_a_int of VInt i \<Rightarrow> i \<noteq> 0 | _ \<Rightarrow> False) then VBool True
              else if s' = ''false'' \<or> s' = ''off'' \<or> as_a_int = VInt 0 then VBool False
              else dflt))"

section \<open>Validators\<close>

datatype validator = Contains "optval list" | SpillValidator | IntegerValidator | IntegerOrNone

fun validate :: "validator \<Rightarrow> optval \<Rightarrow> unit res" where
  "validate (Contains valid) v = (if list_ex (val_eq v) valid then Inr () else Inl ValueError)"
| "validate SpillValidator v =
     (if v = VList then Inl TypeError
      else if val_eq v (VBool False) \<or> val_eq v (VBool True) then Inr () else Inl ValueError)"
| "validate IntegerValidator v = rbind (to_int v) (\<lambda>_. Inr ())"
| "validate IntegerOrNone v = (if v = VNone then Inr () else rbind (to_int v) (\<lambda>_. Inr ()))"

section \<open>The registry\<close>

record opt =
  o_default :: optval
  o_value :: optval
  o_validator :: validator

type_synonym registry = "(string, opt) pydict"

definition register_option :: "registry \<Rightarrow> string \<Rightarrow> optval \<Rightarrow> validator \<Rightarrow> registry res" where
  "register_option r name dflt v =
     rbind (validate v dflt) (\<lambda>_.
       Inr (dset name \<lparr>o_default = dflt, o_value = dflt, o_validator = v\<rparr> r))"

definition get_option :: "registry \<Rightarrow> string \<Rightarrow> optval res" where
  "get_option r name = of_option KeyError (map_option o_value (map_of r name))"

definition set_option :: "registry \<Rightarrow> string \<Rightarrow> optval \<Rightarrow> registry res" where
  "set_option r name val =
     rbind (of_option KeyError (map_of r name)) (\<lambda>option.
     rbind (validate (o_validator option) val) (\<lambda>_. Inr (dset name (option\<lparr>o_value := val\<rparr>) r)))"

text \<open>\<open>describe_option\<close>: what is printed for each option, name, default and current value.\<close>

definition describe_option :: "registry \<Rightarrow> string option \<Rightarrow> (string \<times> optval \<times> optval) list res" where
  "describe_option r name =
     rmap (\<lambda>n. rbind (of_option KeyError (map_of r n)) (\<lambda>opt. Inr (n, o_default opt, o_value opt)))
       (case name of None \<Rightarrow> dkeys r | Some n \<Rightarrow> [n])"

text \<open>The options registered when the module is imported.\<close>

definition registrations :: "environment \<Rightarrow> (string \<times> optval \<times> validator) list" where
  "registrations env =
     [(''default_integer_bitwidth'', VNone, Contains [VNone, VInt 32, VInt 64]),
      (''default_float_bitwidth'', VNone, Contains [VNone, VInt 32, VInt 64]),
      (''spill'', env_get_bool env ''CUDF_SPILL'' (VBool False), SpillValidator),
      (''spill_on_demand'', env_get_bool env ''CUDF_SPILL_ON_DEMAND'' (VBool True), Contains [VBool False, VBool True]),
      (''spill_device_limit'', env_get_int env ''CUDF_SPILL_DEVICE_LIMIT'' VNone, IntegerOrNone),
      (''spill_stats'', env_get_int env ''CUDF_SPILL_STATS'' (VInt 0), IntegerValidator),
      (''mode.pandas_compatible'', VBool False, Contains [VBool False, VBool True]),
      (''memory_profiling'', env_get_bool env ''CUDF_MEMORY_PROFILING'' (VBool False), Contains [VBool False, VBool True]),
      (''io.parquet.low_memory'', VBool False, Contains [VBool False, VBool True]),
      (''io.json.low_memory'', VBool False, Contains [VBool False, VBool True]),
      (''kvikio_remote_io'', env_get_bool env ''CUDF_KVIKIO_REMOTE_IO'' (VBool False), Contains [VBool False, VBool True])]"

fun register_all :: "registry \<Rightarrow> (string \<times> optval \<times> validator) list \<Rightarrow> registry res" where
  "register_all r [] = Inr r"
| "register_all r ((name, dflt, v) # rest) =
     rbind (register_option r name dflt v) (\<lambda>r'. register_all r' rest)"

section \<open>The context manager\<close>

record option_context =
  oc_ops :: "(string \<times> optval) list"
  oc_undo :: "(string \<times> optval) list list"

text \<open>\<open>odd\<close>: whether a name without a value trails the arguments.\<close>

definition option_context_init ::
  "registry \<Rightarrow> (string \<times> optval) list \<Rightarrow> bool \<Rightarrow> option_context res" where
  "option_context_init r args odd_args =
     (if odd_args then Inl ValueError
      else rbind (rmap (\<lambda>(pat, _). get_option r pat) args) (\<lambda>_.
             Inr \<lparr>oc_ops = args, oc_undo = []\<rparr>))"

text \<open>The loop of \<open>__enter__\<close>: an exception comes with the registry and what was applied,
  and the rollback sets the old values back in reverse order.\<close>

fun set_all :: "registry \<Rightarrow> (string \<times> optval) list \<Rightarrow> registry res" where
  "set_all r [] = Inr r"
| "set_all r ((pat, val) # rest) = rbind (set_option r pat val) (\<lambda>r'. set_all r' rest)"

fun apply_ops ::
  "registry \<Rightarrow> ((string \<times> optval) \<times> optval) list \<Rightarrow> (string \<times> optval) list
   \<Rightarrow> (py_error option \<times> registry \<times> (string \<times> optval) list)" where
  "apply_ops r [] applied = (None, r, applied)"
| "apply_ops r (((pat, val), old_val) # rest) applied =
     (case set_option r pat val of
        Inl e \<Rightarrow> (Some e, r, applied)
      | Inr r' \<Rightarrow> apply_ops r' rest (applied @ [(pat, old_val)]))"

text \<open>The result is the exception, if any, with the registry and the context afterwards.\<close>

definition oc_enter ::
  "registry \<Rightarrow> option_context \<Rightarrow> py_error option \<times> registry \<times> option_context" where
  "oc_enter r c =
     (case rmap (\<lambda>(pat, _). get_option r pat) (oc_ops c) of
        Inl e \<Rightarrow> (Some e, r, c)
      | Inr olds \<Rightarrow>
          (case apply_ops r (zip (oc_ops c) olds) [] of
             (None, r', _) \<Rightarrow> (None, r', c\<lparr>oc_undo := oc_undo c @ [zip (map fst (oc_ops c)) olds]\<rparr>)
           | (Some e, r', applied) \<Rightarrow>
               (case set_all r' (rev applied) of
                  Inl e' \<Rightarrow> (Some e', r', c)
                | Inr r'' \<Rightarrow> (Some e, r'', c))))"

definition oc_exit :: "registry \<Rightarrow> option_context \<Rightarrow> (registry \<times> option_context) res" where
  "oc_exit r c =
     (if oc_undo c = [] then Inl IndexError
      else rbind (set_all r (last (oc_undo c))) (\<lambda>r'. Inr (r', c\<lparr>oc_undo := butlast (oc_undo c)\<rparr>)))"

section \<open>Valid registries\<close>

definition opt_valid :: "opt \<Rightarrow> bool" where
  "opt_valid opt \<longleftrightarrow> validate (o_validator opt) (o_value opt) = Inr ()"

definition reg_ok :: "registry \<Rightarrow> bool" where
  "reg_ok r \<longleftrightarrow> dict_ok r \<and> list_all opt_valid (dvalues r)"

text \<open>The current values, and which value each name accepts.\<close>

definition values_of :: "registry \<Rightarrow> string \<Rightarrow> optval option" where
  "values_of r n = map_option o_value (map_of r n)"

definition accepts :: "registry \<Rightarrow> string \<Rightarrow> optval \<Rightarrow> bool" where
  "accepts r n v \<longleftrightarrow> (case map_of r n of None \<Rightarrow> False | Some opt \<Rightarrow> validate (o_validator opt) v = Inr ())"

lemma get_option_values: "get_option r n = of_option KeyError (values_of r n)"
  by (simp add: get_option_def values_of_def)

lemma reg_ok_accepts: "reg_ok r \<Longrightarrow> values_of r n = Some v \<Longrightarrow> accepts r n v"
  by (auto simp: reg_ok_def values_of_def accepts_def opt_valid_def list_all_iff dest!: map_of_SomeD)

lemma set_option_iff:
  "set_option r n v = Inr r' \<longleftrightarrow>
     (\<exists>opt. map_of r n = Some opt \<and> validate (o_validator opt) v = Inr () \<and> r' = dset n (opt\<lparr>o_value := v\<rparr>) r)"
  by (auto simp: set_option_def rbind_Inr_iff of_option_Inr_iff)

lemma set_option_ok: "(\<exists>r'. set_option r n v = Inr r') \<longleftrightarrow> accepts r n v"
  by (auto simp: set_option_iff accepts_def split: option.splits)

lemma set_option_values: "set_option r n v = Inr r' \<Longrightarrow> values_of r' = (values_of r)(n \<mapsto> v)"
  by (auto simp: set_option_iff values_of_def update_conv' fun_eq_iff)

lemma set_option_accepts: "set_option r n v = Inr r' \<Longrightarrow> accepts r' = accepts r"
  by (auto simp: set_option_iff accepts_def update_conv' fun_eq_iff split: option.splits if_splits)

lemma reg_ok_update: "reg_ok r \<Longrightarrow> opt_valid opt \<Longrightarrow> reg_ok (dset n opt r)"
proof -
  assume r: "reg_ok r" and opt: "opt_valid opt"
  have "list_all opt_valid (dvalues (dset n opt r))"
    using r opt unfolding reg_ok_def by (induction r) auto
  then show ?thesis using r by (simp add: reg_ok_def)
qed

lemma set_option_reg_ok: "reg_ok r \<Longrightarrow> set_option r n v = Inr r' \<Longrightarrow> reg_ok r'"
  by (auto simp: set_option_iff opt_valid_def intro!: reg_ok_update)

definition set_event :: "registry \<Rightarrow> string \<times> optval \<Rightarrow> registry" where
  "set_event r e = (case set_option r (fst e) (snd e) of Inl _ \<Rightarrow> r | Inr r' \<Rightarrow> r')"

lemma reg_ok_set_event: "reg_ok r \<Longrightarrow> reg_ok (set_event r e)"
  by (auto simp: set_event_def intro: set_option_reg_ok split: sum.splits)

lemma accepts_set_event: "accepts (set_event r e) = accepts r"
  by (auto simp: set_event_def dest: set_option_accepts split: sum.splits)

interpretation option_run: step_system set_event reg_ok "\<lambda>_. True"
  by unfold_locales (rule reg_ok_set_event)

lemma accepts_run: "accepts (run set_event r es) = accepts r"
  by (induction es arbitrary: r) (simp_all add: accepts_set_event)

section \<open>Setting several options\<close>

lemma set_all_accepted:
  "(\<forall>(n, v) \<in> set ops. accepts r n v) \<Longrightarrow>
   \<exists>r'. set_all r ops = Inr r' \<and> values_of r' = values_of r ++ map_of (rev ops) \<and> accepts r' = accepts r
     \<and> (reg_ok r \<longrightarrow> reg_ok r')"
proof (induction ops arbitrary: r)
  case Nil
  then show ?case by simp
next
  case (Cons p ops)
  obtain n v where p: "p = (n, v)" by (cases p)
  with Cons.prems obtain r1 where r1: "set_option r n v = Inr r1" using set_option_ok by fastforce
  note acc = set_option_accepts [OF r1] and vals = set_option_values [OF r1]
  from Cons.IH [of r1] Cons.prems acc obtain r' where "set_all r1 ops = Inr r'"
    "values_of r' = values_of r1 ++ map_of (rev ops)" "accepts r' = accepts r1" "reg_ok r1 \<longrightarrow> reg_ok r'" by auto
  then show ?case using r1 acc vals set_option_reg_ok [OF _ r1]
    by (auto simp: p map_add_def fun_eq_iff split: option.splits)
qed

text \<open>What \<open>__enter__\<close> applied before an exception, and that the rollback undoes it.\<close>

lemma apply_ops_steps:
  "apply_ops r (zip ops olds) applied = (err, r', applied') \<Longrightarrow> length ops = length olds \<Longrightarrow>
   \<exists>k \<le> length ops. applied' = applied @ zip (map fst (take k ops)) (take k olds)
     \<and> set_all r (take k ops) = Inr r' \<and> (err = None \<longrightarrow> k = length ops)"
proof (induction ops arbitrary: r olds applied)
  case Nil
  then show ?case by simp
next
  case (Cons p ops)
  obtain n v where p: "p = (n, v)" by (cases p)
  from Cons.prems(2) obtain old_v olds' where olds: "olds = old_v # olds'" and len: "length ops = length olds'"
    by (cases olds) auto
  show ?case
  proof (cases "set_option r n v")
    case (Inl e)
    then show ?thesis using Cons.prems(1) by (intro exI [of _ 0]) (auto simp: p olds)
  next
    case (Inr r1)
    with Cons.prems(1) have "apply_ops r1 (zip ops olds') (applied @ [(n, old_v)]) = (err, r', applied')"
      by (simp add: p olds)
    from Cons.IH [OF this len] obtain k where "k \<le> length ops"
      "applied' = (applied @ [(n, old_v)]) @ zip (map fst (take k ops)) (take k olds')"
      "set_all r1 (take k ops) = Inr r'" "err = None \<longrightarrow> k = length ops" by blast
    then show ?thesis using Inr by (intro exI [of _ "Suc k"]) (auto simp: p olds)
  qed
qed

lemma get_all_values:
  "rmap (\<lambda>(pat, _). get_option r pat) ops = Inr olds \<Longrightarrow>
   length olds = length ops \<and> map Some olds = map (\<lambda>p. values_of r (fst p)) ops"
  by (induction ops arbitrary: olds) (auto simp: get_option_values rbind_Inr_iff of_option_Inr_iff)

lemma snapshot_entries:
  assumes "map Some olds = map (\<lambda>p. values_of r (fst p)) ops" and "(n, v) \<in> set (zip (map fst (take k ops)) (take k olds))"
  shows "values_of r n = Some v"
proof -
  obtain i where i: "i < length (take k ops)" "i < length (take k olds)" "n = fst (take k ops ! i)" "v = take k olds ! i"
    using assms(2) by (auto simp: in_set_conv_nth)
  then have "map Some olds ! i = map (\<lambda>p. values_of r (fst p)) ops ! i" using assms(1) by simp
  with i show ?thesis by simp
qed

lemma restore_snapshot:
  assumes "\<And>n v. (n, v) \<in> set snap \<Longrightarrow> f n = Some v" and "\<And>n. n \<notin> fst ` set snap \<Longrightarrow> g n = f n"
  shows "g ++ map_of snap = f"
proof
  fix n
  show "(g ++ map_of snap) n = f n"
  proof (cases "map_of snap n")
    case None
    then have "n \<notin> fst ` set snap" by (simp add: map_of_eq_None_iff)
    then show ?thesis using None assms(2) [of n] by (simp add: map_add_def)
  next
    case (Some v)
    then show ?thesis using assms(1) [of n v] by (auto simp: map_add_def dest: map_of_SomeD)
  qed
qed

lemma set_all_values_outside:
  "set_all r ops = Inr r' \<Longrightarrow> n \<notin> fst ` set ops \<Longrightarrow> values_of r' n = values_of r n"
proof (induction ops arbitrary: r)
  case (Cons p ops)
  obtain m v where p: "p = (m, v)" by (cases p)
  with Cons.prems obtain r1 where "set_option r m v = Inr r1" "set_all r1 ops = Inr r'" by (auto simp: rbind_Inr_iff)
  with Cons p show ?case by (auto dest: set_option_values)
qed simp

lemma set_all_accepts: "set_all r ops = Inr r' \<Longrightarrow> accepts r' = accepts r"
proof (induction ops arbitrary: r)
  case (Cons p ops)
  obtain m v where p: "p = (m, v)" by (cases p)
  with Cons.prems obtain r1 where "set_option r m v = Inr r1" "set_all r1 ops = Inr r'" by (auto simp: rbind_Inr_iff)
  with Cons.IH [of r1] show ?case by (simp add: set_option_accepts)
qed simp

lemma set_all_reg_ok: "set_all r ops = Inr r' \<Longrightarrow> reg_ok r \<Longrightarrow> reg_ok r'"
proof (induction ops arbitrary: r)
  case (Cons p ops)
  obtain m v where p: "p = (m, v)" by (cases p)
  with Cons.prems obtain r1 where "set_option r m v = Inr r1" "set_all r1 ops = Inr r'" by (auto simp: rbind_Inr_iff)
  with Cons show ?case by (auto intro: set_option_reg_ok)
qed simp

section \<open>Properties\<close>

text \<open>C33: Leaving an \<open>option_context\<close> never raises and gives every option named in it the
  value it had on entry, whatever valid or invalid settings the body made in between and
  even when a name is repeated; all other options keep the value the body left.\<close>

theorem option_context_restores:
  assumes "reg_ok r" and "oc_enter r c = (None, r1, c1)" and "r2 = run set_event r1 es"
  shows "\<exists>r3. oc_exit r2 c1 = Inr (r3, c) \<and> reg_ok r3
     \<and> (\<forall>n \<in> fst ` set (oc_ops c). values_of r3 n = values_of r n)
     \<and> (\<forall>n. n \<notin> fst ` set (oc_ops c) \<longrightarrow> values_of r3 n = values_of r2 n)"
proof -
  obtain olds where olds: "rmap (\<lambda>(pat, _). get_option r pat) (oc_ops c) = Inr olds"
    using assms(2) by (auto simp: oc_enter_def split: sum.splits)
  let ?snap = "zip (map fst (oc_ops c)) olds"
  obtain applied where app: "apply_ops r (zip (oc_ops c) olds) [] = (None, r1, applied)"
    and c1: "c1 = c\<lparr>oc_undo := oc_undo c @ [?snap]\<rparr>"
    using assms(2) olds by (auto simp: oc_enter_def split: prod.splits option.splits sum.splits)
  note vals = get_all_values [OF olds]
  from apply_ops_steps [OF app] vals have set1: "set_all r (oc_ops c) = Inr r1" by auto
  have entries: "values_of r n = Some v" if "(n, v) \<in> set ?snap" for n v
    using snapshot_entries [of olds r "oc_ops c" n v "length (oc_ops c)"] vals that by simp
  have names: "fst ` set ?snap = fst ` set (oc_ops c)"
    using vals by (metis length_map list.set_map map_fst_zip)
  have "accepts r2 = accepts r" using assms(3) set_all_accepts [OF set1] by (simp add: accepts_run)
  then have "\<forall>(n, v) \<in> set ?snap. accepts r2 n v" using entries reg_ok_accepts [OF assms(1)] by auto
  from set_all_accepted [OF this] obtain r3 where r3: "set_all r2 ?snap = Inr r3"
    "values_of r3 = values_of r2 ++ map_of (rev ?snap)" "reg_ok r2 \<longrightarrow> reg_ok r3" by blast
  have "reg_ok r2" unfolding assms(3)
    by (rule option_run.run_inv [OF set_all_reg_ok [OF set1 assms(1)]]) (simp add: list_all_iff)
  with r3 have ok: "reg_ok r3" by blast
  have inside: "values_of r3 n = values_of r n" if "n \<in> fst ` set (oc_ops c)" for n
  proof -
    have "map_of (rev ?snap) n \<noteq> None" using that names by (simp add: map_of_eq_None_iff)
    then obtain v where v: "map_of (rev ?snap) n = Some v" by auto
    then have "(n, v) \<in> set ?snap" by (auto dest: map_of_SomeD)
    then show ?thesis using entries v r3(2) by (simp add: map_add_def)
  qed
  have outside: "values_of r3 n = values_of r2 n" if "n \<notin> fst ` set (oc_ops c)" for n
    using set_all_values_outside [OF r3(1)] that names by simp
  have "oc_exit r2 c1 = Inr (r3, c)" using r3(1) by (simp add: oc_exit_def c1)
  with ok inside outside show ?thesis by blast
qed

theorem option_context_restores_witness:
  "\<exists>r3. oc_exit (run set_event [(''a'', \<lparr>o_default = VInt 1, o_value = VInt 3, o_validator = IntegerValidator\<rparr>)]
         [(''a'', VInt 9), (''a'', VNone)])
       \<lparr>oc_ops = [(''a'', VInt 2), (''a'', VInt 3)], oc_undo = [[(''a'', VInt 1), (''a'', VInt 1)]]\<rparr>
     = Inr (r3, \<lparr>oc_ops = [(''a'', VInt 2), (''a'', VInt 3)], oc_undo = []\<rparr>) \<and> values_of r3 ''a'' = Some (VInt 1)"
proof -
  let ?r = "[(''a'', \<lparr>o_default = VInt 1, o_value = VInt 1, o_validator = IntegerValidator\<rparr>)]"
  let ?c = "\<lparr>oc_ops = [(''a'', VInt 2), (''a'', VInt 3)], oc_undo = []\<rparr>"
  have ok: "reg_ok ?r" by (simp add: reg_ok_def opt_valid_def)
  have "oc_enter ?r ?c = (None, [(''a'', \<lparr>o_default = VInt 1, o_value = VInt 3, o_validator = IntegerValidator\<rparr>)],
      \<lparr>oc_ops = [(''a'', VInt 2), (''a'', VInt 3)], oc_undo = [[(''a'', VInt 1), (''a'', VInt 1)]]\<rparr>)"
    by (simp add: oc_enter_def get_option_def set_option_def)
  from option_context_restores [OF ok this refl, of "[(''a'', VInt 9), (''a'', VNone)]"] show ?thesis
    by (auto simp: values_of_def)
qed

text \<open>C34: Entering an \<open>option_context\<close> is atomic: when one of the values is rejected, every
  option has the value it had before and the context remembers nothing.\<close>

theorem option_context_enter_atomic:
  assumes "reg_ok r" and "oc_enter r c = (Some e, r', c')"
  shows "values_of r' = values_of r \<and> c' = c \<and> reg_ok r'"
proof (cases "rmap (\<lambda>(pat, _). get_option r pat) (oc_ops c)")
  case (Inl e0)
  then show ?thesis using assms by (simp add: oc_enter_def)
next
  case (Inr olds)
  note vals = get_all_values [OF Inr]
  obtain e0 r1 applied where app: "apply_ops r (zip (oc_ops c) olds) [] = (Some e0, r1, applied)"
    using assms(2) Inr by (cases "apply_ops r (zip (oc_ops c) olds) []") (auto simp: oc_enter_def split: option.splits)
  from apply_ops_steps [OF app] vals obtain k where a: "applied = zip (map fst (take k (oc_ops c))) (take k olds)"
    and s: "set_all r (take k (oc_ops c)) = Inr r1" by auto
  have entries: "values_of r n = Some v" if "(n, v) \<in> set applied" for n v
    using snapshot_entries [of olds r "oc_ops c" n v k] vals that a by simp
  have names: "fst ` set applied = fst ` set (take k (oc_ops c))"
    using vals unfolding a by (metis length_map length_take list.set_map map_fst_zip)
  have "\<forall>(n, v) \<in> set (rev applied). accepts r1 n v"
    using entries reg_ok_accepts [OF assms(1)] set_all_accepts [OF s] by auto
  from set_all_accepted [OF this] obtain r2 where r2: "set_all r1 (rev applied) = Inr r2"
    "values_of r2 = values_of r1 ++ map_of applied" "reg_ok r1 \<longrightarrow> reg_ok r2" by auto
  have "values_of r1 ++ map_of applied = values_of r"
    by (rule restore_snapshot) (use entries names set_all_values_outside [OF s] in auto)
  moreover have "r' = r2 \<and> c' = c" using assms(2) Inr app r2(1) by (simp add: oc_enter_def)
  ultimately show ?thesis using r2 set_all_reg_ok [OF s assms(1)] by simp
qed

theorem option_context_enter_atomic_witness:
  "values_of [(''a'', \<lparr>o_default = VInt 1, o_value = VInt 1, o_validator = IntegerValidator\<rparr>)]
   = values_of [(''a'', \<lparr>o_default = VInt 1, o_value = VInt 1, o_validator = IntegerValidator\<rparr>)]
   \<and> oc_enter [(''a'', \<lparr>o_default = VInt 1, o_value = VInt 1, o_validator = IntegerValidator\<rparr>)]
       \<lparr>oc_ops = [(''a'', VInt 2), (''a'', VList)], oc_undo = []\<rparr>
     = (Some TypeError, [(''a'', \<lparr>o_default = VInt 1, o_value = VInt 1, o_validator = IntegerValidator\<rparr>)],
        \<lparr>oc_ops = [(''a'', VInt 2), (''a'', VList)], oc_undo = []\<rparr>)"
proof -
  let ?r = "[(''a'', \<lparr>o_default = VInt 1, o_value = VInt 1, o_validator = IntegerValidator\<rparr>)]"
  let ?c = "\<lparr>oc_ops = [(''a'', VInt 2), (''a'', VList)], oc_undo = []\<rparr>"
  have ok: "reg_ok ?r" by (simp add: reg_ok_def opt_valid_def)
  have e: "oc_enter ?r ?c = (Some TypeError, ?r, ?c)"
    by (simp add: oc_enter_def get_option_def set_option_def)
  from option_context_enter_atomic [OF ok e] e show ?thesis by blast
qed

lemma env_get_bool_cases: "env_get_bool env n (VBool b) = VBool True \<or> env_get_bool env n (VBool b) = VBool False"
  by (auto simp: env_get_bool_def Let_def split: option.splits)

lemma env_get_int_cases: "env_get_int env n d = d \<or> (\<exists>i. env_get_int env n d = VInt i)"
  by (auto simp: env_get_int_def split: sum.splits)

lemma register_all_ok:
  "list_all (\<lambda>(n, d, v). validate v d = Inr ()) regs \<Longrightarrow> reg_ok r \<Longrightarrow>
   \<exists>r'. register_all r regs = Inr r' \<and> reg_ok r' \<and> fst ` set r' = fst ` set r \<union> fst ` set regs"
proof (induction regs arbitrary: r)
  case (Cons p regs)
  obtain n d v where p: "p = (n, d, v)" by (cases p)
  let ?r = "dset n \<lparr>o_default = d, o_value = d, o_validator = v\<rparr> r"
  have "register_option r n d v = Inr ?r" using Cons.prems(1) by (simp add: p register_option_def)
  moreover have "reg_ok ?r" using Cons.prems by (intro reg_ok_update) (auto simp: p opt_valid_def)
  ultimately show ?case using Cons.IH [of ?r] Cons.prems(1) dom_update [of n "\<lparr>o_default = d, o_value = d, o_validator = v\<rparr>" r]
    by (auto simp: p)
qed simp

text \<open>Importing the module never fails, whatever the environment variables say: a value
  that is not a bool or an integer literal falls back to the default, every default passes
  its validator, and all eleven options are registered with valid values.\<close>

theorem options_register_any_environment:
  "\<exists>r. register_all [] (registrations env) = Inr r \<and> reg_ok r
     \<and> fst ` set r = fst ` set (registrations env) \<and> length (registrations env) = 11"
proof -
  have b: "validate (Contains [VBool False, VBool True]) (env_get_bool env n (VBool b)) = Inr ()"
    "validate SpillValidator (env_get_bool env n (VBool b)) = Inr ()" for n b
    using env_get_bool_cases [of env n b] by (auto simp: val_eq_def)
  have i: "validate IntegerOrNone (env_get_int env n VNone) = Inr ()"
    "validate IntegerValidator (env_get_int env n (VInt 0)) = Inr ()" for n
    using env_get_int_cases [of env n VNone] env_get_int_cases [of env n "VInt 0"] by auto
  have l: "list_all (\<lambda>(n, d, v). validate v d = Inr ()) (registrations env)"
    using b i unfolding registrations_def by (simp add: val_eq_def)
  have e: "reg_ok []" by (simp add: reg_ok_def)
  have u: "fst ` set ([] :: registry) \<union> A = A" for A by simp
  from register_all_ok [OF l e, unfolded u] obtain r where "register_all [] (registrations env) = Inr r"
    "reg_ok r" "fst ` set r = fst ` set (registrations env)" by blast
  moreover have "length (registrations env) = 11" by (simp add: registrations_def)
  ultimately show ?thesis by blast
qed

end
