(* ===== verification/IndexingModel.thy ===== *)
theory IndexingModel
  imports PyRange "HOL-Library.Product_Lexorder" "HOL-Library.Multiset"
begin

text \<open>
  Row and column indexing of frames (\<open>cudf/core/indexing_utils.py\<close>) and the validated
  gather maps and boolean masks it produces (\<open>cudf/core/copy_types.py\<close>).  A key is
  picked apart into one indexer per dimension, and the row indexer is turned into a tagged
  \<open>IndexingSpec\<close>.  What libcudf and pandas do for these functions is an argument: the
  left join and the casts of \<open>ordered_find\<close>, the label range of a slice.
\<close>

section \<open>Keys\<close>

text \<open>A user key.  \<open>IBoolSeries n\<close> is a boolean Series of length \<open>n\<close>; \<open>ISlice s b\<close> a slice
  whose bounds are (\<open>b\<close>) bools; \<open>ICall k\<close> a callable that gives \<open>k\<close> on the indexed
  frame; \<open>IObj\<close> any other object, list-like or not.\<close>

datatype 'a ikey =
    IEllipsis | IBool bool | ISlice pyslice bool | ITuple "'a ikey list" | IBoolSeries nat
  | ICall "'a ikey" | ISet | IDict | IObj bool 'a

text \<open>\<open>f_bool_index\<close>: the index, or the first level of a MultiIndex, has bool dtype.\<close>

record frame_info =
  f_dim :: nat
  f_len :: nat
  f_bool_index :: bool

datatype method_type = MIloc | MLoc

fun ikey_list_like :: "'a ikey \<Rightarrow> bool" where
  "ikey_list_like (ITuple _) = True"
| "ikey_list_like (IBoolSeries _) = True"
| "ikey_list_like ISet = True"
| "ikey_list_like IDict = True"
| "ikey_list_like (IObj l _) = l"
| "ikey_list_like _ = False"

fun validate_scalar_key :: "'a ikey \<Rightarrow> unit res" where
  "validate_scalar_key (ITuple ks) = (if list_ex ikey_list_like ks then Inl ValueError else Inr ())"
| "validate_scalar_key k = (if ikey_list_like k then Inl ValueError else Inr ())"

fun check_dict_or_set_indexers :: "'a ikey \<Rightarrow> unit res" where
  "check_dict_or_set_indexers ISet = Inl TypeError"
| "check_dict_or_set_indexers IDict = Inl TypeError"
| "check_dict_or_set_indexers (ITuple ks) =
     (if list_ex (\<lambda>k. check_dict_or_set_indexers k \<noteq> Inr ()) ks then Inl TypeError else Inr ())"
| "check_dict_or_set_indexers _ = Inr ()"

fun call_key :: "'a ikey \<Rightarrow> 'a ikey" where
  "call_key (ICall k) = k"
| "call_key k = k"

fun is_bool_key :: "frame_info \<Rightarrow> method_type \<Rightarrow> 'a ikey \<Rightarrow> bool" where
  "is_bool_key fr mt (IBool _) = True"
| "is_bool_key fr mt (IBoolSeries n) = (mt = MIloc \<or> n \<noteq> f_len fr)"
| "is_bool_key fr mt _ = False"

definition slice_none :: "'a ikey" where
  "slice_none = ISlice slice_all False"

fun is_ellipsis :: "'a ikey \<Rightarrow> bool" where
  "is_ellipsis IEllipsis = True"
| "is_ellipsis _ = False"

fun is_tuple_key :: "'a ikey \<Rightarrow> bool" where
  "is_tuple_key (ITuple _) = True"
| "is_tuple_key _ = False"

definition expand_key :: "'a ikey \<Rightarrow> frame_info \<Rightarrow> method_type \<Rightarrow> 'a ikey list res" where
  "expand_key key fr mt =
     (if is_bool_key fr mt key \<and> \<not> f_bool_index fr then Inl KeyError
      else
        (case key of
           ISlice s True \<Rightarrow> Inl TypeError
         | ITuple ks \<Rightarrow>
             (if 1 < length ks \<and> 1 < length (filter is_ellipsis ks) then Inl IndexError
              else
                (let indexers = ks @ replicate (f_dim fr - length ks) slice_none in
                 if f_dim fr < length indexers then Inl IndexError
                 else Inr (map call_key indexers)))
         | _ \<Rightarrow> Inr (map call_key (key # replicate (f_dim fr - 1) slice_none))))"

definition destructure_iloc_key :: "'a ikey \<Rightarrow> frame_info \<Rightarrow> 'a ikey list res" where
  "destructure_iloc_key key fr =
     rbind (expand_key key fr MIloc) (\<lambda>indexers.
       if list_ex is_tuple_key indexers then Inl IndexError else Inr indexers)"

definition destructure_loc_key :: "'a ikey \<Rightarrow> frame_info \<Rightarrow> 'a ikey list res" where
  "destructure_loc_key key fr = expand_key key fr MLoc"

text \<open>\<open>destructure_dataframe_indexer\<close>: \<open>get_ca\<close> is the accessor method that selects the
  columns, \<open>is_scalar\<close> says whether the key names one column, \<open>ncols\<close> counts the
  columns of the answer.\<close>

definition destructure_dataframe_indexer ::
  "('a ikey list res) \<Rightarrow> ('a ikey \<Rightarrow> 'c \<Rightarrow> bool) \<Rightarrow> ('a ikey \<Rightarrow> 'c res) \<Rightarrow> ('c \<Rightarrow> nat)
   \<Rightarrow> ('a ikey \<times> bool \<times> 'c) res" where
  "destructure_dataframe_indexer parts is_scalar get_ca ncols =
     rbind parts (\<lambda>ks.
       case ks of
         [rows, cols0] \<Rightarrow>
           (let cols = (if is_ellipsis cols0 then slice_none else cols0) in
            rbind (get_ca cols) (\<lambda>ca.
              let scalar = is_scalar cols ca in
              if scalar \<and> ncols ca \<noteq> 1 then Inl AssertionError else Inr (rows, scalar, ca)))
       | _ \<Rightarrow> Inl ValueError)"

definition destructure_dataframe_iloc_indexer ::
  "('a ikey \<Rightarrow> bool) \<Rightarrow> ('a ikey \<Rightarrow> 'c res) \<Rightarrow> ('c \<Rightarrow> nat) \<Rightarrow> 'a ikey \<Rightarrow> frame_info
   \<Rightarrow> ('a ikey \<times> bool \<times> 'c) res" where
  "destructure_dataframe_iloc_indexer is_integer select_by_index ncols key fr =
     destructure_dataframe_indexer (destructure_iloc_key key fr) (\<lambda>col _. is_integer col) select_by_index ncols"

definition destructure_dataframe_loc_indexer ::
  "('a ikey \<Rightarrow> 'c \<Rightarrow> bool) \<Rightarrow> ('a ikey \<Rightarrow> 'c res) \<Rightarrow> ('c \<Rightarrow> nat) \<Rightarrow> 'a ikey \<Rightarrow> frame_info
   \<Rightarrow> ('a ikey \<times> bool \<times> 'c) res" where
  "destructure_dataframe_loc_indexer name_in select_by_label ncols key fr =
     destructure_dataframe_indexer (destructure_loc_key key fr) name_in select_by_label ncols"

definition single_indexer :: "'a ikey list res \<Rightarrow> 'a ikey res" where
  "single_indexer parts = rbind parts (\<lambda>ks. case ks of [rows] \<Rightarrow> Inr rows | _ \<Rightarrow> Inl ValueError)"

definition destructure_series_iloc_indexer :: "'a ikey \<Rightarrow> frame_info \<Rightarrow> 'a ikey res" where
  "destructure_series_iloc_indexer key fr = single_indexer (destructure_iloc_key key fr)"

definition destructure_series_loc_indexer :: "'a ikey \<Rightarrow> frame_info \<Rightarrow> 'a ikey res" where
  "destructure_series_loc_indexer key fr = single_indexer (destructure_loc_key key fr)"

section \<open>Gather maps and masks\<close>

datatype dtype_kind = KindI | KindU | KindF | KindB | KindO | KindM | KindOther

record gather_map =
  gm_column :: "int list"
  gm_nrows :: nat
  gm_nullify :: bool

definition mk_gather_map :: "dtype_kind \<Rightarrow> int list \<Rightarrow> nat \<Rightarrow> bool \<Rightarrow> gather_map res" where
  "mk_gather_map kind column nrows nullify =
     (if column = [] then Inr \<lparr>gm_column = [], gm_nrows = nrows, gm_nullify = nullify\<rparr>
      else if kind \<noteq> KindI \<and> kind \<noteq> KindU then Inl TypeError
      else if \<not> nullify \<and> (Min (set column) < - int nrows \<or> int nrows \<le> Max (set column)) then Inl IndexError
      else Inr \<lparr>gm_column = column, gm_nrows = nrows, gm_nullify = nullify\<rparr>)"

definition gather_map_unchecked :: "int list \<Rightarrow> nat \<Rightarrow> bool \<Rightarrow> gather_map" where
  "gather_map_unchecked column nrows nullify = \<lparr>gm_column = column, gm_nrows = nrows, gm_nullify = nullify\<rparr>"

definition mk_boolean_mask :: "dtype_kind \<Rightarrow> bool list \<Rightarrow> nat \<Rightarrow> bool list res" where
  "mk_boolean_mask kind column nrows =
     (if kind \<noteq> KindB then Inl TypeError
      else if length column \<noteq> nrows then Inl IndexError
      else Inr column)"

datatype indexing_spec =
    EmptyIndexer | MapIndexer gather_map | MaskIndexer "bool list" | SliceIndexer pyslice
  | ScalarIndexer gather_map

section \<open>Positional rows\<close>

text \<open>The row key of \<open>iloc\<close> after destructuring; a column that is neither boolean nor
  integer is \<open>RColumn\<close> with its length.  A categorical key is cast to its codes before this point.\<close>

datatype row_key =
    REllipsis | RSlice pyslice | RScalar dtype_kind int
  | RBools "bool list" | RInts dtype_kind "int list" | RColumn nat

fun parse_row_iloc_indexer :: "row_key \<Rightarrow> nat \<Rightarrow> indexing_spec res" where
  "parse_row_iloc_indexer REllipsis n = Inr (SliceIndexer slice_all)"
| "parse_row_iloc_indexer (RSlice s) n = Inr (SliceIndexer s)"
| "parse_row_iloc_indexer (RScalar kind i) n = rbind (mk_gather_map kind [i] n False) (Inr \<circ> ScalarIndexer)"
| "parse_row_iloc_indexer (RBools bs) n = rbind (mk_boolean_mask KindB bs n) (Inr \<circ> MaskIndexer)"
| "parse_row_iloc_indexer (RInts kind is) n =
     (if is = [] then Inr EmptyIndexer
      else if kind = KindI \<or> kind = KindU then rbind (mk_gather_map kind is n False) (Inr \<circ> MapIndexer)
      else Inl TypeError)"
| "parse_row_iloc_indexer (RColumn m) n = (if m = 0 then Inr EmptyIndexer else Inl TypeError)"

section \<open>Label rows\<close>

text \<open>\<open>ordered_find\<close>: \<open>left_join\<close> is libcudf's join of row numbers, in any order, None for
  a row without partner; \<open>cast_to\<close> is \<open>astype\<close> to the dtype of the haystack (None: it
  raises ValueError).\<close>

record 'v column =
  c_kind :: dtype_kind
  c_dtype :: string
  c_interval :: bool
  c_vals :: "'v list"

definition match_dtypes :: "('v column \<Rightarrow> string \<Rightarrow> 'v list option) \<Rightarrow> 'v column \<Rightarrow> 'v column \<Rightarrow> 'v list res" where
  "match_dtypes cast_to needles haystack =
     (let numeric = [KindI, KindU, KindF] in
      if c_kind haystack = KindO \<and> \<not> c_interval haystack
      then of_option KeyError (cast_to needles (c_dtype haystack))
      else if c_kind needles = c_kind haystack
              \<or> (c_kind needles \<in> set numeric \<and> c_kind haystack \<in> set numeric)
      then of_option ValueError (cast_to needles (c_dtype haystack))
      else if c_dtype needles \<noteq> c_dtype haystack then Inl KeyError
      else Inr (c_vals needles))"

fun joined_pairs :: "(nat \<times> nat option) list \<Rightarrow> (nat \<times> nat) list option" where
  "joined_pairs [] = Some []"
| "joined_pairs ((l, r) # ps) =
     (case r of None \<Rightarrow> None | Some j \<Rightarrow> map_option ((#) (l, j)) (joined_pairs ps))"

definition ordered_find ::
  "('v list \<Rightarrow> 'v list \<Rightarrow> (nat \<times> nat option) list) \<Rightarrow> ('v column \<Rightarrow> string \<Rightarrow> 'v list option)
   \<Rightarrow> 'v column \<Rightarrow> 'v column \<Rightarrow> gather_map res" where
  "ordered_find left_join cast_to needles haystack =
     rbind (match_dtypes cast_to needles haystack) (\<lambda>vals.
     rbind (of_option KeyError (joined_pairs (left_join vals (c_vals haystack)))) (\<lambda>pairs.
       Inr (gather_map_unchecked (map (\<lambda>p. int (snd p)) (sort_key (\<lambda>p. p) pairs))
              (length (c_vals haystack)) False)))"

text \<open>\<open>find_label_range_or_mask\<close>, given what \<open>index.find_label_range\<close> answered.\<close>

definition find_label_range_or_mask :: "pyslice res \<Rightarrow> nat \<Rightarrow> indexing_spec res" where
  "find_label_range_or_mask label_range n =
     rbind label_range (\<lambda>parsed.
     rbind (range_slice \<lparr>rstart = 0, rstop = int n, rstep = 1\<rparr> parsed) (\<lambda>r.
       Inr (if rlen r = 0 then EmptyIndexer else SliceIndexer parsed)))"

text \<open>The row key of \<open>loc\<close>: a slice with its label range; a boolean Series with whether its
  index equals the frame's, whether labels of the frame are missing from it, its own mask
  and the mask reindexed to the frame; or a column of labels, which is scalar or not.\<close>

datatype 'v loc_key =
    LKSlice "pyslice res"
  | LKBoolSeries bool bool "bool list" "bool list"
  | LKBools bool "bool list"
  | LKColumn bool bool "'v column"

text \<open>The second flag of \<open>LKColumn\<close>: a categorical column whose dtype differs from the index;
  \<open>decategorize\<close>, \<open>to_datetime\<close> (None: out of bounds) and the functions of
  \<open>ordered_find\<close> are libcudf's.\<close>

fun parse_single_row_loc_key ::
  "('v list \<Rightarrow> 'v list \<Rightarrow> (nat \<times> nat option) list) \<Rightarrow> ('v column \<Rightarrow> string \<Rightarrow> 'v list option)
   \<Rightarrow> ('v column \<Rightarrow> 'v column) \<Rightarrow> ('v column \<Rightarrow> 'v column option)
   \<Rightarrow> 'v loc_key \<Rightarrow> 'v column \<Rightarrow> indexing_spec res" where
  "parse_single_row_loc_key left_join cast_to decategorize to_datetime (LKSlice r) index =
     find_label_range_or_mask r (length (c_vals index))"
| "parse_single_row_loc_key left_join cast_to decategorize to_datetime
     (LKBoolSeries same_index missing own aligned) index =
     (if \<not> same_index \<and> missing then Inl ValueError
      else
        (let flags = (if same_index then own else aligned) in
         if flags = [] then Inr EmptyIndexer
         else rbind (mk_boolean_mask KindB flags (length (c_vals index))) (Inr \<circ> MaskIndexer)))"
| "parse_single_row_loc_key left_join cast_to decategorize to_datetime (LKBools is_scalar flags) index =
     (if flags = [] then Inr EmptyIndexer
      else if is_scalar \<and> c_kind index \<noteq> KindB then Inl KeyError
      else rbind (mk_boolean_mask KindB flags (length (c_vals index))) (Inr \<circ> MaskIndexer))"
| "parse_single_row_loc_key left_join cast_to decategorize to_datetime (LKColumn is_scalar foreign_cat key) index =
     (let key' = (if foreign_cat then decategorize key else key) in
      if c_vals key' = [] then Inr EmptyIndexer
      else
        rbind (if c_kind index = KindM
               then of_option (if is_scalar then KeyError else ValueError) (to_datetime key')
               else Inr key') (\<lambda>key''.
        rbind (ordered_find left_join cast_to key'' index) (\<lambda>gather.
          Inr (if is_scalar \<and> length (gm_column gather) = 1 then ScalarIndexer gather
               else MapIndexer gather))))"

fun parse_row_loc_indexer ::
  "('v list \<Rightarrow> 'v list \<Rightarrow> (nat \<times> nat option) list) \<Rightarrow> ('v column \<Rightarrow> string \<Rightarrow> 'v list option)
   \<Rightarrow> ('v column \<Rightarrow> 'v column) \<Rightarrow> ('v column \<Rightarrow> 'v column option)
   \<Rightarrow> 'v loc_key option \<Rightarrow> bool \<Rightarrow> 'v column \<Rightarrow> indexing_spec res" where
  "parse_row_loc_indexer left_join cast_to decategorize to_datetime key is_multiindex index =
     (if is_multiindex then Inl NotImplementedError
      else
        (case key of
           None \<Rightarrow> Inr (SliceIndexer slice_all)
         | Some k \<Rightarrow> parse_single_row_loc_key left_join cast_to decategorize to_datetime k index))"

section \<open>The dimension of a destructured key\<close>

lemma expand_key_length:
  assumes "expand_key key fr mt = Inr ks" and "0 < f_dim fr"
  shows "length ks = f_dim fr"
  using assms by (auto simp: expand_key_def Let_def split: ikey.splits if_splits bool.splits)

lemma expand_key_padding:
  assumes "expand_key (ITuple ks) fr mt = Inr indexers"
  shows "indexers = map call_key ks @ replicate (f_dim fr - length ks) slice_none"
  using assms by (auto simp: expand_key_def Let_def slice_none_def split: if_splits)

section \<open>Ordered lookup\<close>

text \<open>The left join of two columns in row order.\<close>

definition matches :: "'v \<Rightarrow> 'v list \<Rightarrow> nat list" where
  "matches x ys = filter (\<lambda>j. ys ! j = x) [0..<length ys]"

definition join_rows :: "'v list \<Rightarrow> 'v list \<Rightarrow> (nat \<times> nat option) list" where
  "join_rows xs ys =
     concat (map (\<lambda>i. if matches (xs ! i) ys = [] then [(i, None)]
                      else map (\<lambda>j. (i, Some j)) (matches (xs ! i) ys)) [0..<length xs])"

definition match_pairs :: "'v list \<Rightarrow> 'v list \<Rightarrow> (nat \<times> nat) list" where
  "match_pairs xs ys = concat (map (\<lambda>i. map (\<lambda>j. (i, j)) (matches (xs ! i) ys)) [0..<length xs])"

lemma matches_Nil: "matches x ys = [] \<longleftrightarrow> x \<notin> set ys"
  by (auto simp: matches_def filter_empty_conv in_set_conv_nth)

lemma joined_pairs_None: "joined_pairs ps = None \<longleftrightarrow> (\<exists>l. (l, None) \<in> set ps)"
  by (induction ps rule: joined_pairs.induct) (auto split: option.splits)

lemma joined_pairs_Some: "joined_pairs ps = Some qs \<Longrightarrow> ps = map (\<lambda>(l, r). (l, Some r)) qs"
  by (induction ps arbitrary: qs rule: joined_pairs.induct) (auto split: option.splits)

lemma join_rows_all:
  assumes "set xs \<subseteq> set ys"
  shows "join_rows xs ys = map (\<lambda>(l, r). (l, Some r)) (match_pairs xs ys)"
proof -
  have "matches (xs ! i) ys \<noteq> []" if "i < length xs" for i
    using assms that by (auto simp: matches_Nil)
  then show ?thesis by (auto simp: join_rows_def match_pairs_def map_concat intro!: arg_cong [of _ _ concat])
qed

lemma join_rows_missing: "\<not> set xs \<subseteq> set ys \<Longrightarrow> \<exists>l. (l, None) \<in> set (join_rows xs ys)"
  by (auto simp: join_rows_def matches_Nil in_set_conv_nth subset_iff)

lemma match_pairs_sorted: "sorted (match_pairs xs ys)"
proof -
  have "sorted (concat (map (\<lambda>i. map (\<lambda>j. (i, j)) (matches (xs ! i) ys)) [0..<n]))" for n
  proof (induction n)
    case (Suc n)
    have "sorted (map (\<lambda>j. (n, j)) js)" if "sorted js" for js :: "nat list"
      using that by (induction js) (auto simp: less_eq_prod_def)
    then have last: "sorted (map (\<lambda>j. (n, j)) (matches (xs ! n) ys))"
      by (simp add: matches_def sorted_wrt_filter)
    have le: "p \<le> q"
      if "p \<in> set (concat (map (\<lambda>i. map (\<lambda>j. (i, j)) (matches (xs ! i) ys)) [0..<n]))"
        and "q \<in> set (map (\<lambda>j. (n, j)) (matches (xs ! n) ys))" for p q
      using that by (auto simp: less_eq_prod_def)
    have "[0..<Suc n] = [0..<n] @ [n]" by simp
    then show ?case unfolding \<open>[0..<Suc n] = [0..<n] @ [n]\<close> map_append concat_append
      using Suc last le by (simp add: sorted_append)
  qed simp
  then show ?thesis by (simp add: match_pairs_def)
qed

lemma match_pairs_snd:
  "map snd (match_pairs xs ys) = concat (map (\<lambda>x. matches x ys) xs)"
proof -
  have "map snd (match_pairs xs ys) = concat (map (\<lambda>i. matches (xs ! i) ys) [0..<length xs])"
    by (simp add: match_pairs_def map_concat comp_def)
  also have "map (\<lambda>i. matches (xs ! i) ys) [0..<length xs] = map (\<lambda>x. matches x ys) xs"
    by (rule nth_equalityI) auto
  finally show ?thesis .
qed

lemma map_Some_inj: "map (\<lambda>(l, r). (l, Some r)) ps = map (\<lambda>(l, r). (l, Some r)) qs \<Longrightarrow> ps = qs"
  by (rule map_injective [of "\<lambda>(l, r). (l, Some r)"]) (auto simp: inj_def)

section \<open>Properties\<close>

lemma ordered_find_joined:
  assumes join: "\<And>xs ys. mset (left_join xs ys) = mset (join_rows xs ys)"
    and vals: "match_dtypes cast_to needles haystack = Inr vals"
  shows "ordered_find left_join cast_to needles haystack =
     (if set vals \<subseteq> set (c_vals haystack)
      then Inr \<lparr>gm_column = map int (concat (map (\<lambda>x. matches x (c_vals haystack)) vals)),
                gm_nrows = length (c_vals haystack), gm_nullify = False\<rparr>
      else Inl KeyError)"
proof (cases "set vals \<subseteq> set (c_vals haystack)")
  case True
  let ?ps = "left_join vals (c_vals haystack)" and ?ms = "match_pairs vals (c_vals haystack)"
  have m: "mset ?ps = mset (map (\<lambda>(l, r). (l, Some r)) ?ms)" using join join_rows_all [OF True] by metis
  have "joined_pairs ?ps \<noteq> None"
    using mset_eq_setD [OF m] by (auto simp: joined_pairs_None)
  then obtain qs where qs: "joined_pairs ?ps = Some qs" by auto
  note eq = joined_pairs_Some [OF qs]
  have "image_mset (\<lambda>(l, r). (l, Some r)) (mset qs) = image_mset (\<lambda>(l, r). (l, Some r)) (mset ?ms)"
    using m eq by simp
  moreover have "inj (\<lambda>(l :: nat, r :: nat). (l, Some r))" by (auto simp: inj_def)
  ultimately have "mset qs = mset ?ms" by (auto dest: multiset.inj_map_strong [rotated] simp: inj_def)
  then have "sort_key (\<lambda>p. p) qs = ?ms" using match_pairs_sorted by (intro properties_for_sort) auto
  then have "map (\<lambda>p. int (snd p)) (sort_key (\<lambda>p. p) qs) = map int (concat (map (\<lambda>x. matches x (c_vals haystack)) vals))"
    using match_pairs_snd [of vals "c_vals haystack"] by (metis (no_types, lifting) comp_def map_map map_eq_conv)
  then show ?thesis using True vals qs by (simp add: ordered_find_def gather_map_unchecked_def)
next
  case False
  from join_rows_missing [OF this] obtain l where "(l, None) \<in> set (join_rows vals (c_vals haystack))" by blast
  then have "(l, None) \<in> set (left_join vals (c_vals haystack))" using mset_eq_setD [OF join] by blast
  then have "joined_pairs (left_join vals (c_vals haystack)) = None" by (auto simp: joined_pairs_None)
  with False vals show ?thesis by (simp add: ordered_find_def)
qed

text \<open>C35: What is looked up are the needles after the cast to the dtype of the haystack, which
  \<open>match_dtypes\<close> makes for kinds that convert; what it raises is raised.  Whatever the order in which
  the left join returns its pairs, the gather map lists, for each cast needle in the order given, every
  position of the haystack that holds it in ascending order, and KeyError is raised if a cast needle
  is nowhere in the haystack.  So a needle that is not in the haystack raises KeyError if the cast
  leaves it as it is; a cast that changes it may find it (1.5 in a haystack of integers is
  looked up as 1).\<close>

theorem ordered_find_positions:
  assumes join: "\<And>xs ys. mset (left_join xs ys) = mset (join_rows xs ys)"
  shows "ordered_find left_join cast_to needles haystack =
     (case match_dtypes cast_to needles haystack of
        Inl err \<Rightarrow> Inl err
      | Inr vals \<Rightarrow>
          if set vals \<subseteq> set (c_vals haystack)
          then Inr \<lparr>gm_column = map int (concat (map (\<lambda>x. matches x (c_vals haystack)) vals)),
                    gm_nrows = length (c_vals haystack), gm_nullify = False\<rparr>
          else Inl KeyError)"
  using ordered_find_joined [OF join] by (cases "match_dtypes cast_to needles haystack") (simp_all add: ordered_find_def)

theorem ordered_find_positions_witness:
  "ordered_find (\<lambda>xs ys. rev (join_rows xs ys)) (\<lambda>c _. Some (c_vals c))
     \<lparr>c_kind = KindI, c_dtype = ''int64'', c_interval = False, c_vals = [7 :: int, 5]\<rparr>
     \<lparr>c_kind = KindI, c_dtype = ''int64'', c_interval = False, c_vals = [5, 7, 5]\<rparr>
   = Inr \<lparr>gm_column = [1, 0, 2], gm_nrows = 3, gm_nullify = False\<rparr>"
proof -
  let ?n = "\<lparr>c_kind = KindI, c_dtype = ''int64'', c_interval = False, c_vals = [7 :: int, 5]\<rparr>"
  let ?h = "\<lparr>c_kind = KindI, c_dtype = ''int64'', c_interval = False, c_vals = [5 :: int, 7, 5]\<rparr>"
  have "match_dtypes (\<lambda>c _. Some (c_vals c)) ?n ?h = Inr [7, 5]" by (simp add: match_dtypes_def)
  then show ?thesis
    using ordered_find_positions [of "\<lambda>xs ys. rev (join_rows xs ys)" "\<lambda>c _. Some (c_vals c)" ?n ?h]
    by (simp add: matches_def upt_rec)
qed

text \<open>Values are halves: a cast to integers rounds towards zero, so 3 (1.5) is found as 2 (1).\<close>

lemma ordered_find_changed_needle:
  "ordered_find join_rows (\<lambda>c _. Some (map (\<lambda>h. h div 2 * 2) (c_vals c)))
     \<lparr>c_kind = KindF, c_dtype = ''float64'', c_interval = False, c_vals = [3 :: nat]\<rparr>
     \<lparr>c_kind = KindI, c_dtype = ''int64'', c_interval = False, c_vals = [2]\<rparr>
   = Inr \<lparr>gm_column = [0], gm_nrows = 1, gm_nullify = False\<rparr>"
proof -
  let ?n = "\<lparr>c_kind = KindF, c_dtype = ''float64'', c_interval = False, c_vals = [3 :: nat]\<rparr>"
  let ?h = "\<lparr>c_kind = KindI, c_dtype = ''int64'', c_interval = False, c_vals = [2 :: nat]\<rparr>"
  have "match_dtypes (\<lambda>c _. Some (map (\<lambda>h. h div 2 * 2) (c_vals c))) ?n ?h = Inr [2]" by (simp add: match_dtypes_def)
  then show ?thesis using ordered_find_joined [of join_rows _ ?n ?h] by (simp add: matches_def)
qed

text \<open>A list of integer positions is accepted by \<open>iloc\<close> exactly when every one of them,
  read with Python's negative indices, is a row of the frame; otherwise IndexError.\<close>

theorem iloc_positions_in_bounds:
  assumes "is \<noteq> []"
  shows "parse_row_iloc_indexer (RInts KindI is) n =
     (case rmap (py_index [0..<n]) is of
        Inr _ \<Rightarrow> Inr (MapIndexer \<lparr>gm_column = is, gm_nrows = n, gm_nullify = False\<rparr>)
      | Inl _ \<Rightarrow> Inl IndexError)"
proof -
  have one: "(\<exists>v. py_index [0..<n] i = Inr v) \<longleftrightarrow> - int n \<le> i \<and> i < int n" for i
    by (auto simp: py_index_def Let_def)
  have all: "(\<exists>vs. rmap (py_index [0..<n]) js = Inr vs) \<longleftrightarrow> (\<forall>i \<in> set js. - int n \<le> i \<and> i < int n)" for js
    using one by (induction js) (auto simp: rbind_Inr_iff)
  have "(Min (set is) < - int n \<or> int n \<le> Max (set is)) \<longleftrightarrow> \<not> (\<forall>i \<in> set is. - int n \<le> i \<and> i < int n)"
    using assms by (auto simp: Min_less_iff Max_ge_iff not_le not_less)
  then show ?thesis using assms all [of "is"]
    by (cases "rmap (py_index [0..<n]) is") (auto simp: mk_gather_map_def)
qed

theorem iloc_positions_in_bounds_witness:
  "parse_row_iloc_indexer (RInts KindI [0, - 3]) 3
     = Inr (MapIndexer \<lparr>gm_column = [0, - 3], gm_nrows = 3, gm_nullify = False\<rparr>)
   \<and> parse_row_iloc_indexer (RInts KindI [0, 3]) 3 = Inl IndexError"
  using iloc_positions_in_bounds [of "[0, - 3]" 3] iloc_positions_in_bounds [of "[0, 3]" 3]
  by (simp add: py_index_def Let_def)

text \<open>Destructuring a key gives one indexer per dimension of the frame: a tuple keeps its
  entries and is padded with \<open>slice(None)\<close>, a longer tuple or a second ellipsis raises
  IndexError.\<close>

theorem expand_key_dimensions:
  assumes "0 < f_dim fr"
  shows "(case expand_key (ITuple ks) fr mt of
           Inr indexers \<Rightarrow> length indexers = f_dim fr \<and> length ks \<le> f_dim fr
              \<and> indexers = map call_key ks @ replicate (f_dim fr - length ks) slice_none
         | Inl e \<Rightarrow> e = IndexError \<and> (f_dim fr < length ks \<or> 1 < length (filter is_ellipsis ks)))"
  using assms by (auto simp: expand_key_def Let_def slice_none_def split: sum.splits if_splits)

theorem expand_key_dimensions_witness:
  "length ([IObj False (1 :: int), slice_none]) = 2"
proof -
  have "expand_key (ITuple [ICall (IObj False (1 :: int))]) \<lparr>f_dim = 2, f_len = 5, f_bool_index = False\<rparr> MLoc
     = Inr [IObj False 1, slice_none]"
    by (simp add: expand_key_def slice_none_def)
  then show ?thesis
    using expand_key_dimensions [of "\<lparr>f_dim = 2, f_len = 5, f_bool_index = False\<rparr>" "[ICall (IObj False (1 :: int))]" MLoc]
    by simp
qed

end
