(* ===== verification/BufferModel.thy ===== *)
theory BufferModel
  imports PyRange
begin

text \<open>
  Device buffers with copy-on-write (\<open>cudf/core/buffer/buffer.py\<close>, the factory in
  \<open>cudf/core/buffer/utils.py\<close>).  An owner holds device memory and the set of live buffers
  that point to it; a buffer is a slice of an owner.  The store numbers the owners and keeps
  the live buffers by an identity; \<open>drop_buffer\<close> is the garbage collector taking one, which
  also removes it from the weak set of its owner.  Addresses of new allocations are
  arguments.  A history of events keeps the pointers that were handed out, so that a store may go through
  a pointer obtained before a later copy.
\<close>

section \<open>State\<close>

datatype mode = ModeRead | ModeWrite

record 'a buffer_owner =
  ow_ptr :: int
  ow_data :: "'a list"
  ow_slices :: "nat list"

record buffer =
  bf_owner :: nat
  bf_offset :: nat
  bf_size :: nat
  bf_modes :: "mode option list"
  bf_pending :: "mode option"

record 'a buffer_store =
  bs_owners :: "'a buffer_owner list"
  bs_buffers :: "(nat, buffer) pydict"
  bs_next :: nat

definition the_buffer :: "'a buffer_store \<Rightarrow> nat \<Rightarrow> buffer res" where
  "the_buffer st b = of_option RuntimeError (map_of (bs_buffers st) b)"

definition put_buffer :: "nat \<Rightarrow> buffer \<Rightarrow> 'a buffer_store \<Rightarrow> 'a buffer_store" where
  "put_buffer b buf st = st\<lparr>bs_buffers := dset b buf (bs_buffers st)\<rparr>"

definition map_owner :: "nat \<Rightarrow> ('a buffer_owner \<Rightarrow> 'a buffer_owner) \<Rightarrow> 'a buffer_store \<Rightarrow> 'a buffer_store" where
  "map_owner o' f st = st\<lparr>bs_owners := (bs_owners st)[o' := f (bs_owners st ! o')]\<rparr>"

definition slices_add :: "nat \<Rightarrow> nat \<Rightarrow> 'a buffer_store \<Rightarrow> 'a buffer_store" where
  "slices_add o' b = map_owner o' (\<lambda>ow. ow\<lparr>ow_slices := List.insert b (ow_slices ow)\<rparr>)"

definition slices_remove :: "nat \<Rightarrow> nat \<Rightarrow> 'a buffer_store \<Rightarrow> 'a buffer_store" where
  "slices_remove o' b = map_owner o' (\<lambda>ow. ow\<lparr>ow_slices := removeAll b (ow_slices ow)\<rparr>)"

section \<open>Owners\<close>

text \<open>\<open>BufferOwner(ptr, size, owner)\<close>, the size being that of the data.\<close>

definition new_owner :: "int \<Rightarrow> 'a list \<Rightarrow> 'a buffer_store \<Rightarrow> nat \<times> 'a buffer_store" where
  "new_owner p data st =
     (length (bs_owners st),
      st\<lparr>bs_owners := bs_owners st @ [\<lparr>ow_ptr = p, ow_data = data, ow_slices = []\<rparr>]\<rparr>)"

definition owner_from_host_memory ::
  "int \<Rightarrow> bool \<Rightarrow> 'a list \<Rightarrow> 'a buffer_store \<Rightarrow> (nat \<times> 'a buffer_store) res" where
  "owner_from_host_memory p c_contiguous data st =
     (if \<not> c_contiguous then Inl ValueError else Inr (new_owner p data st))"

definition ow_size :: "'a buffer_owner \<Rightarrow> nat" where
  "ow_size ow = length (ow_data ow)"

definition owner_memoryview :: "'a buffer_owner \<Rightarrow> nat \<Rightarrow> nat option \<Rightarrow> 'a list" where
  "owner_memoryview ow offset sz =
     take (case sz of None \<Rightarrow> ow_size ow | Some n \<Rightarrow> n) (drop offset (ow_data ow))"

section \<open>Buffers\<close>

definition new_buffer ::
  "nat \<Rightarrow> int \<Rightarrow> int option \<Rightarrow> 'a buffer_store \<Rightarrow> (nat \<times> 'a buffer_store) res" where
  "new_buffer o' offset nbytes st =
     (let owner_size = int (ow_size (bs_owners st ! o'));
          sz = (case nbytes of None \<Rightarrow> owner_size | Some n \<Rightarrow> n)
      in if sz < 0 then Inl ValueError
         else if offset < 0 then Inl ValueError
         else if owner_size < offset + sz then Inl ValueError
         else
           (let b = bs_next st;
                buf = \<lparr>bf_owner = o', bf_offset = nat offset, bf_size = nat sz, bf_modes = [], bf_pending = None\<rparr>
            in Inr (b, slices_add o' b ((put_buffer b buf st)\<lparr>bs_next := b + 1\<rparr>))))"

definition drop_buffer :: "nat \<Rightarrow> 'a buffer_store \<Rightarrow> 'a buffer_store" where
  "drop_buffer b st =
     (case map_of (bs_buffers st) b of
        None \<Rightarrow> st
      | Some buf \<Rightarrow> slices_remove (bf_owner buf) b (st\<lparr>bs_buffers := ddel b (bs_buffers st)\<rparr>))"

text \<open>\<open>buf.access(mode=m)\<close>, and entering and leaving the context it returns.\<close>

definition buffer_access :: "nat \<Rightarrow> mode \<Rightarrow> 'a buffer_store \<Rightarrow> 'a buffer_store res" where
  "buffer_access b m st =
     rbind (the_buffer st b) (\<lambda>buf. Inr (put_buffer b (buf\<lparr>bf_pending := Some m\<rparr>) st))"

definition context_enter :: "nat \<Rightarrow> 'a buffer_store \<Rightarrow> 'a buffer_store res" where
  "context_enter b st =
     rbind (the_buffer st b) (\<lambda>buf.
       Inr (put_buffer b (buf\<lparr>bf_modes := bf_modes buf @ [bf_pending buf]\<rparr>) st))"

definition context_exit :: "nat \<Rightarrow> 'a buffer_store \<Rightarrow> 'a buffer_store res" where
  "context_exit b st =
     (case map_of (bs_buffers st) b of
        None \<Rightarrow> Inr st
      | Some buf \<Rightarrow>
          (if bf_modes buf = [] then Inl IndexError
           else Inr (put_buffer b (buf\<lparr>bf_modes := butlast (bf_modes buf)\<rparr>) st)))"

definition buffer_memoryview :: "'a buffer_store \<Rightarrow> nat \<Rightarrow> 'a list res" where
  "buffer_memoryview st b =
     rbind (the_buffer st b) (\<lambda>buf.
       Inr (owner_memoryview (bs_owners st ! bf_owner buf) (bf_offset buf) (Some (bf_size buf))))"

definition buffer_getitem :: "nat \<Rightarrow> pyslice \<Rightarrow> 'a buffer_store \<Rightarrow> (nat \<times> 'a buffer_store) res" where
  "buffer_getitem b key st =
     rbind (the_buffer st b) (\<lambda>buf.
     rbind (slice_indices key (bf_size buf)) (\<lambda>(start, stop, step).
       if step \<noteq> 1 then Inl ValueError
       else new_buffer (bf_owner buf) (int (bf_offset buf) + start) (Some (stop - start)) st))"

text \<open>\<open>copy\<close>: \<open>p\<close> is the address of the allocation of a deep copy.\<close>

definition buffer_copy :: "int \<Rightarrow> nat \<Rightarrow> bool \<Rightarrow> 'a buffer_store \<Rightarrow> (nat \<times> 'a buffer_store) res" where
  "buffer_copy p b deep st =
     rbind (the_buffer st b) (\<lambda>buf.
       if \<not> deep then new_buffer (bf_owner buf) (int (bf_offset buf)) (Some (int (bf_size buf))) st
       else
         (let (o', st1) = new_owner p (owner_memoryview (bs_owners st ! bf_owner buf) (bf_offset buf) (Some (bf_size buf))) st
          in new_buffer o' 0 None st1))"

definition make_single_owner_inplace :: "int \<Rightarrow> nat \<Rightarrow> 'a buffer_store \<Rightarrow> 'a buffer_store res" where
  "make_single_owner_inplace p b st =
     rbind (the_buffer st b) (\<lambda>buf.
       if 1 < length (ow_slices (bs_owners st ! bf_owner buf))
       then
         (let st1 = slices_remove (bf_owner buf) b st in
          rbind (buffer_copy p b True st1) (\<lambda>(t, st2).
          rbind (the_buffer st2 t) (\<lambda>tb.
            Inr (drop_buffer t
              (slices_add (bf_owner tb) b
                (put_buffer b (buf\<lparr>bf_owner := bf_owner tb, bf_offset := bf_offset tb, bf_size := bf_size tb\<rparr>) st2))))))
       else Inr st)"

definition current_mode :: "buffer \<Rightarrow> mode option" where
  "current_mode buf = (if bf_modes buf = [] then Some ModeRead else last (bf_modes buf))"

text \<open>\<open>ptr\<close>: the device address, after making the buffer the single user of its memory when
  the access mode is write.\<close>

definition buffer_ptr :: "int \<Rightarrow> nat \<Rightarrow> 'a buffer_store \<Rightarrow> (int \<times> 'a buffer_store) res" where
  "buffer_ptr p b st =
     rbind (the_buffer st b) (\<lambda>buf.
     rbind (if current_mode buf = Some ModeWrite then make_single_owner_inplace p b st else Inr st) (\<lambda>st1.
     rbind (the_buffer st1 b) (\<lambda>buf1.
       Inr (ow_ptr (bs_owners st1 ! bf_owner buf1) + int (bf_offset buf1), st1))))"

text \<open>\<open>__cuda_array_interface__\<close>: the pointer is taken in write mode.\<close>

definition buffer_cai :: "int \<Rightarrow> nat \<Rightarrow> 'a buffer_store \<Rightarrow> ((int \<times> nat) \<times> 'a buffer_store) res" where
  "buffer_cai p b st =
     rbind (buffer_access b ModeWrite st) (\<lambda>st1.
     rbind (context_enter b st1) (\<lambda>st2.
     rbind (buffer_ptr p b st2) (\<lambda>(q, st3).
     rbind (the_buffer st3 b) (\<lambda>buf.
     rbind (context_exit b st3) (\<lambda>st4. Inr ((q, bf_size buf), st4))))))"

text \<open>A device kernel storing \<open>v\<close> at byte \<open>i\<close> of a buffer through its pointer.\<close>

definition write_through :: "int \<Rightarrow> nat \<Rightarrow> nat \<Rightarrow> 'a \<Rightarrow> 'a buffer_store \<Rightarrow> 'a buffer_store res" where
  "write_through p b i v st =
     rbind (buffer_ptr p b st) (\<lambda>(_, st1).
     rbind (the_buffer st1 b) (\<lambda>buf.
       if current_mode buf = Some ModeWrite \<and> i < bf_size buf
       then Inr (map_owner (bf_owner buf) (\<lambda>ow. ow\<lparr>ow_data := (ow_data ow)[bf_offset buf + i := v]\<rparr>) st1)
       else Inl RuntimeError))"

section \<open>Serialisation and the factory\<close>

datatype 'a frame = FrameBuffer nat | FrameDevice int "'a list" | FrameHost bool "'a list"

definition buffer_serialize :: "nat \<Rightarrow> nat \<times> 'a frame list" where
  "buffer_serialize b = (1, [FrameBuffer b])"

text \<open>\<open>deserialize\<close> with the frame count of the header; \<open>p\<close> is the address of the copy of a
  host frame.\<close>

definition buffer_deserialize ::
  "int \<Rightarrow> nat \<times> 'a frame list \<Rightarrow> 'a buffer_store \<Rightarrow> (nat \<times> 'a buffer_store) res" where
  "buffer_deserialize p hf st =
     (if fst hf \<noteq> 1 then Inl ValueError
      else
        (case snd hf of
           [] \<Rightarrow> Inl IndexError
         | FrameBuffer b # _ \<Rightarrow> Inr (b, st)
         | FrameDevice q data # _ \<Rightarrow> (let (o', st1) = new_owner q data st in new_buffer o' 0 None st1)
         | FrameHost contiguous data # _ \<Rightarrow>
             rbind (owner_from_host_memory p contiguous data st) (\<lambda>(o', st1). new_buffer o' 0 None st1)))"

text \<open>\<open>get_ptr_and_size\<close> on a CUDA array interface; \<open>contiguous\<close> is pylibcudf's answer for
  explicit strides.\<close>

record cai =
  cai_ptr :: "int option"
  cai_shape :: "int list"
  cai_strides :: "int list option"
  cai_itemsize :: int

definition get_ptr_and_size :: "(int list \<Rightarrow> int list \<Rightarrow> int \<Rightarrow> bool) \<Rightarrow> cai \<Rightarrow> (int \<times> int) res" where
  "get_ptr_and_size contiguous c =
     (let shape = (if cai_shape c = [] then [1] else cai_shape c) in
      if (case cai_strides c of None \<Rightarrow> True | Some s \<Rightarrow> contiguous shape s (cai_itemsize c))
      then Inr (case cai_ptr c of None \<Rightarrow> 0 | Some q \<Rightarrow> q, prod_list shape * cai_itemsize c)
      else Inl ValueError)"

text \<open>\<open>get_buffer_owner\<close>: following the \<open>owner\<close> attributes of an object.\<close>

datatype owned_object = ObjOwner nat | ObjOwnedBy owned_object | ObjOther

fun get_buffer_owner :: "owned_object \<Rightarrow> nat option" where
  "get_buffer_owner (ObjOwner o') = Some o'"
| "get_buffer_owner (ObjOwnedBy d) = get_buffer_owner d"
| "get_buffer_owner ObjOther = None"

text \<open>\<open>as_buffer\<close>: what is wrapped, with the memory of new device data.  \<open>same_class\<close> says
  whether an owner is of the class the configuration asks for and \<open>pinned\<close> whether a
  spillable owner is exposed or spill locked (True for every owner without spilling).\<close>

datatype 'a buffer_data =
    DataBuffer nat | DataHost bool "'a list" | DataOpaque | DataDevice owned_object cai "'a list"

definition as_buffer ::
  "(int list \<Rightarrow> int list \<Rightarrow> int \<Rightarrow> bool) \<Rightarrow> (nat \<Rightarrow> bool) \<Rightarrow> (nat \<Rightarrow> bool) \<Rightarrow> int
   \<Rightarrow> 'a buffer_data \<Rightarrow> 'a buffer_store \<Rightarrow> (nat \<times> 'a buffer_store) res" where
  "as_buffer contiguous same_class pinned p data st =
     (case data of
        DataBuffer b \<Rightarrow> Inr (b, st)
      | DataHost c bytes \<Rightarrow> rbind (owner_from_host_memory p c bytes st) (\<lambda>(o', st1). new_buffer o' 0 None st1)
      | DataOpaque \<Rightarrow> Inl ValueError
      | DataDevice obj c bytes \<Rightarrow>
          (case get_buffer_owner obj of
             None \<Rightarrow>
               rbind (get_ptr_and_size contiguous c) (\<lambda>(q, _).
                 let (o', st1) = new_owner q bytes st in new_buffer o' 0 None st1)
           | Some o' \<Rightarrow>
               (if \<not> same_class o' then Inl AssertionError
                else if \<not> pinned o' then Inl ValueError
                else rbind (get_ptr_and_size contiguous c) (\<lambda>(q, nbytes).
                  let base = ow_ptr (bs_owners st ! o') in
                  if 0 < nbytes \<and> base = 0 then Inl ValueError
                  else new_buffer o' (q - base) (Some nbytes) st))))"

section \<open>Invariant\<close>

text \<open>Every live buffer lies inside its owner, and the slices of an owner are exactly the live
  buffers that point to it.\<close>

definition store_ok :: "'a buffer_store \<Rightarrow> bool" where
  "store_ok st \<longleftrightarrow>
     (\<forall>b buf. map_of (bs_buffers st) b = Some buf \<longrightarrow>
        b < bs_next st \<and> bf_owner buf < length (bs_owners st)
        \<and> bf_offset buf + bf_size buf \<le> ow_size (bs_owners st ! bf_owner buf))
     \<and> (\<forall>k < length (bs_owners st). distinct (ow_slices (bs_owners st ! k))
          \<and> set (ow_slices (bs_owners st ! k))
            = {b. \<exists>buf. map_of (bs_buffers st) b = Some buf \<and> bf_owner buf = k})"

text \<open>The bytes a live buffer shows.\<close>

definition contents :: "'a buffer_store \<Rightarrow> nat \<Rightarrow> 'a list option" where
  "contents st b =
     (case map_of (bs_buffers st) b of
        None \<Rightarrow> None
      | Some buf \<Rightarrow> Some (take (bf_size buf) (drop (bf_offset buf) (ow_data (bs_owners st ! bf_owner buf)))))"

lemma store_okD:
  assumes "store_ok st" and "map_of (bs_buffers st) b = Some buf"
  shows "b < bs_next st" and "bf_owner buf < length (bs_owners st)"
    and "bf_offset buf + bf_size buf \<le> ow_size (bs_owners st ! bf_owner buf)"
    and "b \<in> set (ow_slices (bs_owners st ! bf_owner buf))"
proof -
  from assms have 1: "b < bs_next st \<and> bf_owner buf < length (bs_owners st)
        \<and> bf_offset buf + bf_size buf \<le> ow_size (bs_owners st ! bf_owner buf)"
    unfolding store_ok_def by blast
  with assms have "set (ow_slices (bs_owners st ! bf_owner buf))
      = {c. \<exists>buf'. map_of (bs_buffers st) c = Some buf' \<and> bf_owner buf' = bf_owner buf}"
    unfolding store_ok_def by blast
  then show "b \<in> set (ow_slices (bs_owners st ! bf_owner buf))" using assms(2) by simp
  show "b < bs_next st" and "bf_owner buf < length (bs_owners st)"
    and "bf_offset buf + bf_size buf \<le> ow_size (bs_owners st ! bf_owner buf)" using 1 by simp_all
qed

lemma memoryview_contents: "buffer_memoryview st b = of_option RuntimeError (contents st b)"
  by (simp add: buffer_memoryview_def the_buffer_def contents_def owner_memoryview_def split: option.splits)

lemma slices_one:
  assumes ok: "store_ok st" and b: "map_of (bs_buffers st) b = Some buf"
    and one: "\<not> 1 < length (ow_slices (bs_owners st ! bf_owner buf))"
    and c: "map_of (bs_buffers st) c = Some cbuf" and same: "bf_owner cbuf = bf_owner buf"
  shows "c = b"
proof -
  have "b \<in> set (ow_slices (bs_owners st ! bf_owner buf))" "c \<in> set (ow_slices (bs_owners st ! bf_owner buf))"
    using store_okD(4) [OF ok b] store_okD(4) [OF ok c] same by simp_all
  with one show ?thesis by (cases "ow_slices (bs_owners st ! bf_owner buf)") (auto simp: not_less)
qed

lemma owners_put [simp]: "bs_owners (put_buffer b buf st) = bs_owners st" "bs_next (put_buffer b buf st) = bs_next st"
  by (simp_all add: put_buffer_def)

lemma buffers_put [simp]: "map_of (bs_buffers (put_buffer b buf st)) = (map_of (bs_buffers st))(b \<mapsto> buf)"
  by (simp add: put_buffer_def update_conv')

lemma map_owner_simps [simp]:
  "bs_owners (map_owner k f st) = (bs_owners st)[k := f (bs_owners st ! k)]"
  "bs_buffers (map_owner k f st) = bs_buffers st" "bs_next (map_owner k f st) = bs_next st"
  by (simp_all add: map_owner_def)

text \<open>Changing the modes of a buffer.\<close>

lemma put_modes:
  assumes ok: "store_ok st" and b: "map_of (bs_buffers st) b = Some buf"
    and same: "bf_owner buf' = bf_owner buf" "bf_offset buf' = bf_offset buf" "bf_size buf' = bf_size buf"
  shows "store_ok (put_buffer b buf' st)" and "contents (put_buffer b buf' st) = contents st"
proof -
  have "{c. \<exists>x. ((map_of (bs_buffers st))(b \<mapsto> buf')) c = Some x \<and> bf_owner x = k}
      = {c. \<exists>x. map_of (bs_buffers st) c = Some x \<and> bf_owner x = k}" for k
    using b same(1) by auto
  then show "store_ok (put_buffer b buf' st)" using ok same b by (simp add: store_ok_def)
  show "contents (put_buffer b buf' st) = contents st"
    using b same by (auto simp: contents_def fun_eq_iff split: option.splits)
qed

lemma new_owner_ok:
  assumes ok: "store_ok st" and n: "new_owner p data st = (k, st')"
  shows "store_ok st'" and "k = length (bs_owners st)" and "contents st' = contents st"
    and "bs_owners st' = bs_owners st @ [\<lparr>ow_ptr = p, ow_data = data, ow_slices = []\<rparr>]"
    and "bs_buffers st' = bs_buffers st" and "bs_next st' = bs_next st"
proof -
  show e: "k = length (bs_owners st)"
    "bs_owners st' = bs_owners st @ [\<lparr>ow_ptr = p, ow_data = data, ow_slices = []\<rparr>]"
    "bs_buffers st' = bs_buffers st" "bs_next st' = bs_next st"
    using n by (auto simp: new_owner_def)
  have none: "map_of (bs_buffers st) b = Some buf \<Longrightarrow> bf_owner buf \<noteq> length (bs_owners st)" for b buf
    using store_okD(2) [OF ok] by fastforce
  show "contents st' = contents st"
    using store_okD(2) [OF ok] by (auto simp: contents_def fun_eq_iff e nth_append split: option.splits)
  show "store_ok st'" using ok none by (auto simp: store_ok_def e nth_append less_Suc_eq)
qed

lemma new_buffer_ok:
  assumes ok: "store_ok st" and n: "new_buffer k off sz st = Inr (b, st')" and k: "k < length (bs_owners st)"
  shows "store_ok st'" and "b = bs_next st" and "\<And>c. c \<noteq> b \<Longrightarrow> contents st' c = contents st c"
    and "contents st' b = Some (take (case sz of None \<Rightarrow> ow_size (bs_owners st ! k) | Some n \<Rightarrow> nat n)
                                 (drop (nat off) (ow_data (bs_owners st ! k))))"
proof -
  define n where "n = (case sz of None \<Rightarrow> int (ow_size (bs_owners st ! k)) | Some n \<Rightarrow> n)"
  have c: "0 \<le> n" "0 \<le> off" "off + n \<le> int (ow_size (bs_owners st ! k))" and b: "b = bs_next st"
    and st': "st' = slices_add k b ((put_buffer b \<lparr>bf_owner = k, bf_offset = nat off, bf_size = nat n, bf_modes = [],
        bf_pending = None\<rparr> st)\<lparr>bs_next := b + 1\<rparr>)"
    using n by (auto simp: new_buffer_def n_def Let_def split: if_splits)
  have fresh: "map_of (bs_buffers st) b = None" using store_okD(1) [OF ok, of b] b by (cases "map_of (bs_buffers st) b") auto
  show "b = bs_next st" by (rule b)
  have data: "ow_data (bs_owners st' ! j) = ow_data (bs_owners st ! j)" for j
    by (cases "j = k") (simp_all add: st' slices_add_def nth_list_update k)
  show "contents st' c = contents st c" if "c \<noteq> b" for c
  proof -
    have "map_of (bs_buffers st') c = map_of (bs_buffers st) c" using that by (simp add: st' slices_add_def)
    then show ?thesis by (simp only: contents_def data cong: option.case_cong)
  qed
  show "contents st' b = Some (take (case sz of None \<Rightarrow> ow_size (bs_owners st ! k) | Some n \<Rightarrow> nat n)
                                 (drop (nat off) (ow_data (bs_owners st ! k))))"
    using k by (simp add: contents_def st' slices_add_def n_def split: option.splits)
  have set: "{c. \<exists>x. ((map_of (bs_buffers st))(b \<mapsto> \<lparr>bf_owner = k, bf_offset = nat off, bf_size = nat n, bf_modes = [],
        bf_pending = None\<rparr>)) c = Some x \<and> bf_owner x = j}
     = (if j = k then insert b else id) {c. \<exists>x. map_of (bs_buffers st) c = Some x \<and> bf_owner x = j}" for j
    using fresh by auto
  have bnd: "nat off + nat n \<le> ow_size (bs_owners st ! k)" using c by linarith
  show "store_ok st'"
    unfolding store_ok_def
  proof (intro conjI allI impI)
    fix c x assume "map_of (bs_buffers st') c = Some x"
    then show "c < bs_next st'" "bf_owner x < length (bs_owners st')"
      "bf_offset x + bf_size x \<le> ow_size (bs_owners st' ! bf_owner x)"
      using store_okD(1,2,3) [OF ok, of c x] bnd k b data
      by (auto simp: st' slices_add_def ow_size_def split: if_splits)
  next
    fix j assume "j < length (bs_owners st')"
    then have j: "j < length (bs_owners st)" by (simp add: st' slices_add_def)
    show "distinct (ow_slices (bs_owners st' ! j))"
      using ok j k by (simp add: st' slices_add_def store_ok_def nth_list_update)
    show "set (ow_slices (bs_owners st' ! j)) = {c. \<exists>x. map_of (bs_buffers st') c = Some x \<and> bf_owner x = j}"
      using ok j k set [of j] by (auto simp: st' slices_add_def store_ok_def nth_list_update)
  qed
qed

text \<open>The store after a buffer has been given memory of its own.\<close>

lemma make_single_owner_shared:
  fixes st :: "'a buffer_store"
  assumes ok: "store_ok st" and b: "map_of (bs_buffers st) b = Some buf"
    and shared: "1 < length (ow_slices (bs_owners st ! bf_owner buf))"
  defines "k \<equiv> bf_owner buf"
  defines "d \<equiv> take (bf_size buf) (drop (bf_offset buf) (ow_data (bs_owners st ! k)))"
  obtains st' where "make_single_owner_inplace p b st = Inr st'"
    and "bs_owners st' = (bs_owners st)[k := (bs_owners st ! k)\<lparr>ow_slices := removeAll b (ow_slices (bs_owners st ! k))\<rparr>]
           @ [\<lparr>ow_ptr = p, ow_data = d, ow_slices = [b]\<rparr>]"
    and "map_of (bs_buffers st') = (map_of (bs_buffers st))(b \<mapsto> buf\<lparr>bf_owner := length (bs_owners st), bf_offset := 0,
           bf_size := length d\<rparr>)"
    and "bs_next st' = bs_next st + 1"
proof -
  have k: "k < length (bs_owners st)" using store_okD(2) [OF ok b] by (simp add: k_def)
  define t where "t = bs_next st"
  have bt: "b \<noteq> t" using store_okD(1) [OF ok b] by (simp add: t_def)
  have fresh: "map_of (bs_buffers st) t = None"
    using store_okD(1) [OF ok, of t] by (cases "map_of (bs_buffers st) t") (auto simp: t_def)
  define st1 where "st1 = slices_remove k b st"
  define n where "n = length (bs_owners st)"
  define st2 where "st2 = slices_add n t ((put_buffer t \<lparr>bf_owner = n, bf_offset = 0, bf_size = length d, bf_modes = [],
      bf_pending = None\<rparr> (st1\<lparr>bs_owners := bs_owners st1 @ [\<lparr>ow_ptr = p, ow_data = d, ow_slices = []\<rparr>]\<rparr>))\<lparr>bs_next := t + 1\<rparr>)"
  have st1: "bs_owners st1 = (bs_owners st)[k := (bs_owners st ! k)\<lparr>ow_slices := removeAll b (ow_slices (bs_owners st ! k))\<rparr>]"
    "bs_buffers st1 = bs_buffers st" "bs_next st1 = t"
    by (simp_all add: st1_def slices_remove_def t_def)
  have d1: "ow_data (bs_owners st1 ! k) = ow_data (bs_owners st ! k)" using k by (simp add: st1)
  have copy: "buffer_copy p b True st1 = Inr (t, st2)"
    using b k by (simp add: buffer_copy_def the_buffer_def st1(2,3) owner_memoryview_def d1 new_owner_def
        new_buffer_def ow_size_def flip: k_def) (simp add: st2_def n_def st1 d_def ow_size_def)
  have st2: "bs_owners st2 = bs_owners st1 @ [\<lparr>ow_ptr = p, ow_data = d, ow_slices = [t]\<rparr>]"
    "map_of (bs_buffers st2) = (map_of (bs_buffers st))(t \<mapsto> \<lparr>bf_owner = n, bf_offset = 0, bf_size = length d,
      bf_modes = [], bf_pending = None\<rparr>)" "bs_next st2 = t + 1"
    by (simp_all add: st2_def slices_add_def st1 n_def list_update_append nth_append)
  define st3 where "st3 = slices_add n b (put_buffer b (buf\<lparr>bf_owner := n, bf_offset := 0, bf_size := length d\<rparr>) st2)"
  have st3: "bs_owners st3 = bs_owners st1 @ [\<lparr>ow_ptr = p, ow_data = d, ow_slices = [b, t]\<rparr>]"
    "map_of (bs_buffers st3) = (map_of (bs_buffers st2))(b \<mapsto> buf\<lparr>bf_owner := n, bf_offset := 0, bf_size := length d\<rparr>)"
    "bs_next st3 = t + 1"
    using bt by (simp_all add: st3_def slices_add_def st2 st1 n_def list_update_append nth_append)
  have eq: "make_single_owner_inplace p b st = Inr (drop_buffer t st3)"
    using b shared copy by (simp add: make_single_owner_inplace_def the_buffer_def flip: k_def)
      (simp add: flip: st1_def, simp add: st2(2) st3_def)
  have drop: "map_of (bs_buffers st3) t = Some \<lparr>bf_owner = n, bf_offset = 0, bf_size = length d, bf_modes = [], bf_pending = None\<rparr>"
    using bt by (simp add: st3(2) st2(2))
  have deq: "drop_buffer t st3 = slices_remove n t (st3\<lparr>bs_buffers := ddel t (bs_buffers st3)\<rparr>)"
    by (simp add: drop_buffer_def drop)
  have "bs_owners (drop_buffer t st3) = bs_owners st1 @ [\<lparr>ow_ptr = p, ow_data = d, ow_slices = [b]\<rparr>]"
    using bt by (simp add: deq slices_remove_def st3(1) n_def st1(1) list_update_append nth_append)
  moreover have "map_of (bs_buffers (drop_buffer t st3)) = (map_of (bs_buffers st))(b \<mapsto> buf\<lparr>bf_owner := n, bf_offset := 0,
      bf_size := length d\<rparr>)"
    using bt fresh by (auto simp: deq slices_remove_def delete_conv' st3(2) st2(2) fun_eq_iff)
  moreover have "bs_next (drop_buffer t st3) = t + 1"
    by (simp add: deq slices_remove_def st3(3))
  ultimately show thesis using that eq st1(1) by (simp add: n_def t_def)
qed

text \<open>Afterwards the buffer is the only one on its memory, and nobody sees a difference.\<close>

lemma make_single_owner_effect:
  assumes ok: "store_ok st" and b: "map_of (bs_buffers st) b = Some buf"
  obtains st' buf' where "make_single_owner_inplace p b st = Inr st'" and "store_ok st'" and "contents st' = contents st"
    and "map_of (bs_buffers st') b = Some buf'" and "bf_modes buf' = bf_modes buf" and "bf_size buf' = bf_size buf"
    and "\<And>c cbuf. map_of (bs_buffers st') c = Some cbuf \<Longrightarrow> bf_owner cbuf = bf_owner buf' \<Longrightarrow> c = b"
proof (cases "1 < length (ow_slices (bs_owners st ! bf_owner buf))")
  case False
  then have "make_single_owner_inplace p b st = Inr st" using b by (simp add: make_single_owner_inplace_def the_buffer_def)
  then show thesis using that ok b slices_one [OF ok b False] by blast
next
  case True
  define k where "k = bf_owner buf"
  define d where "d = take (bf_size buf) (drop (bf_offset buf) (ow_data (bs_owners st ! k)))"
  define buf' where "buf' = buf\<lparr>bf_owner := length (bs_owners st), bf_offset := 0, bf_size := length d\<rparr>"
  obtain st' where run: "make_single_owner_inplace p b st = Inr st'"
    and o: "bs_owners st' = (bs_owners st)[k := (bs_owners st ! k)\<lparr>ow_slices := removeAll b (ow_slices (bs_owners st ! k))\<rparr>]
           @ [\<lparr>ow_ptr = p, ow_data = d, ow_slices = [b]\<rparr>]"
    and m: "map_of (bs_buffers st') = (map_of (bs_buffers st))(b \<mapsto> buf')"
    and n: "bs_next st' = bs_next st + 1"
    using make_single_owner_shared [OF ok b True, of p] unfolding buf'_def d_def k_def by metis
  have k: "k < length (bs_owners st)" and size: "length d = bf_size buf"
    using store_okD(2,3) [OF ok b] by (simp_all add: k_def d_def ow_size_def)
  have old: "ow_data (bs_owners st' ! j) = ow_data (bs_owners st ! j)" if "j < length (bs_owners st)" for j
    using that k by (simp add: o nth_append nth_list_update)
  have new: "bs_owners st' ! length (bs_owners st) = \<lparr>ow_ptr = p, ow_data = d, ow_slices = [b]\<rparr>"
    by (simp add: o nth_append)
  have con: "contents st' c = contents st c" for c
  proof (cases "c = b")
    case True
    then show ?thesis using b size by (simp add: contents_def m buf'_def new) (simp add: d_def k_def)
  next
    case False
    then show ?thesis using old store_okD(2) [OF ok, of c]
      by (cases "map_of (bs_buffers st) c") (simp_all add: contents_def m)
  qed
  have sole: "c = b" if "map_of (bs_buffers st') c = Some cbuf" "bf_owner cbuf = bf_owner buf'" for c cbuf
    using that store_okD(2) [OF ok, of c cbuf] by (auto simp: m buf'_def split: if_splits)
  have "store_ok st'"
    unfolding store_ok_def
  proof (intro conjI allI impI)
    fix c x assume c: "map_of (bs_buffers st') c = Some x"
    show "c < bs_next st'" "bf_owner x < length (bs_owners st')"
      using c store_okD(1,2) [OF ok, of c x] store_okD(1) [OF ok b] by (auto simp: m n o buf'_def split: if_splits)
    show "bf_offset x + bf_size x \<le> ow_size (bs_owners st' ! bf_owner x)"
      using c store_okD(2,3) [OF ok, of c x] old new by (auto simp: m buf'_def ow_size_def split: if_splits)
  next
    fix j assume j: "j < length (bs_owners st')"
    show "distinct (ow_slices (bs_owners st' ! j))"
      using ok j k by (auto simp: o nth_append nth_list_update store_ok_def less_Suc_eq distinct_removeAll)
    show "set (ow_slices (bs_owners st' ! j)) = {c. \<exists>x. map_of (bs_buffers st') c = Some x \<and> bf_owner x = j}"
    proof (cases "j < length (bs_owners st)")
      case True
      then have "set (ow_slices (bs_owners st ! j)) = {c. \<exists>x. map_of (bs_buffers st) c = Some x \<and> bf_owner x = j}"
        using ok by (simp add: store_ok_def)
      then show ?thesis using True k b by (auto simp: o m nth_append nth_list_update buf'_def k_def)
    next
      case False
      then have "j = length (bs_owners st)" using j by (simp add: o)
      then show ?thesis using store_okD(2) [OF ok] by (auto simp: new m buf'_def) fastforce
    qed
  qed
  moreover have "contents st' = contents st" by (rule ext) (rule con)
  moreover have "map_of (bs_buffers st') b = Some buf'" "bf_modes buf' = bf_modes buf" "bf_size buf' = bf_size buf"
    by (simp_all add: m) (simp_all add: buf'_def size)
  ultimately show thesis using that run sole by blast
qed

section \<open>Copy on write\<close>

text \<open>Storing into the data of the owner of a buffer that no other buffer points to.\<close>

lemma store_byte:
  assumes ok: "store_ok st" and b: "map_of (bs_buffers st) b = Some buf"
    and sole: "\<And>c cbuf. map_of (bs_buffers st) c = Some cbuf \<Longrightarrow> bf_owner cbuf = bf_owner buf \<Longrightarrow> c = b"
    and i: "i < bf_size buf"
    and st': "st' = map_owner (bf_owner buf) (\<lambda>ow. ow\<lparr>ow_data := (ow_data ow)[bf_offset buf + i := v]\<rparr>) st"
  shows "store_ok st'" and "\<And>c. c \<noteq> b \<Longrightarrow> contents st' c = contents st c"
    and "contents st' b = map_option (\<lambda>xs. xs[i := v]) (contents st b)"
proof -
  define k where "k = bf_owner buf"
  have k: "k < length (bs_owners st)" using store_okD(2) [OF ok b] by (simp add: k_def)
  have m: "bs_buffers st' = bs_buffers st" by (simp add: st')
  have other: "bs_owners st' ! j = bs_owners st ! j" if "j \<noteq> k" for j
    using that by (simp add: st' flip: k_def)
  have upd: "bs_owners st' ! k = (bs_owners st ! k)\<lparr>ow_data := (ow_data (bs_owners st ! k))[bf_offset buf + i := v]\<rparr>"
    using k by (simp add: st' flip: k_def)
  have sz: "ow_size (bs_owners st' ! j) = ow_size (bs_owners st ! j)"
    and sl: "ow_slices (bs_owners st' ! j) = ow_slices (bs_owners st ! j)" for j
    using other upd by (cases "j = k"; simp add: ow_size_def)+
  show "store_ok st'" using ok unfolding store_ok_def sz sl by (simp add: st')
  show "contents st' c = contents st c" if "c \<noteq> b" for c
  proof (cases "map_of (bs_buffers st) c")
    case (Some cbuf)
    then have "bf_owner cbuf \<noteq> k" using sole that by (auto simp: k_def)
    then show ?thesis using Some other by (simp add: contents_def) (simp add: st')
  qed (simp add: contents_def st')
  have "drop (bf_offset buf) ((ow_data (bs_owners st ! k))[bf_offset buf + i := v]) =
      (drop (bf_offset buf) (ow_data (bs_owners st ! k)))[i := v]"
    by (simp add: drop_update_swap)
  then show "contents st' b = map_option (\<lambda>xs. xs[i := v]) (contents st b)"
    using b upd i m by (simp add: contents_def take_update_swap flip: k_def)
qed

lemma buffer_ptr_write:
  assumes ok: "store_ok st" and b: "map_of (bs_buffers st) b = Some buf" and w: "current_mode buf = Some ModeWrite"
  obtains q st' buf' where "buffer_ptr p b st = Inr (q, st')" and "store_ok st'" and "contents st' = contents st"
    and "map_of (bs_buffers st') b = Some buf'" and "current_mode buf' = Some ModeWrite" and "bf_size buf' = bf_size buf"
    and "\<And>c cbuf. map_of (bs_buffers st') c = Some cbuf \<Longrightarrow> bf_owner cbuf = bf_owner buf' \<Longrightarrow> c = b"
proof -
  obtain st' buf' where r: "make_single_owner_inplace p b st = Inr st'" "store_ok st'" "contents st' = contents st"
    "map_of (bs_buffers st') b = Some buf'" "bf_modes buf' = bf_modes buf" "bf_size buf' = bf_size buf"
    and sole: "\<And>c cbuf. map_of (bs_buffers st') c = Some cbuf \<Longrightarrow> bf_owner cbuf = bf_owner buf' \<Longrightarrow> c = b"
    using make_single_owner_effect [OF ok b] by metis
  have "current_mode buf' = Some ModeWrite" using w r(5) by (simp add: current_mode_def split: if_splits)
  moreover have "buffer_ptr p b st = Inr (ow_ptr (bs_owners st' ! bf_owner buf') + int (bf_offset buf'), st')"
    using b w r by (simp add: buffer_ptr_def the_buffer_def)
  ultimately show thesis using that r sole by blast
qed

lemma copy_on_write_effect:
  assumes "store_ok st" and "map_of (bs_buffers st) b = Some buf"
    and "current_mode buf = Some ModeWrite" and "i < bf_size buf"
  shows "\<exists>st'. write_through p b i v st = Inr st' \<and> store_ok st'
           \<and> contents st' = (contents st)(b := map_option (\<lambda>xs. xs[i := v]) (contents st b))"
proof -
  obtain q st1 buf' where r: "buffer_ptr p b st = Inr (q, st1)" "store_ok st1" "contents st1 = contents st"
    "map_of (bs_buffers st1) b = Some buf'" "current_mode buf' = Some ModeWrite" "bf_size buf' = bf_size buf"
    and sole: "\<And>c cbuf. map_of (bs_buffers st1) c = Some cbuf \<Longrightarrow> bf_owner cbuf = bf_owner buf' \<Longrightarrow> c = b"
    using buffer_ptr_write [OF assms(1-3)] by metis
  define st' where "st' = map_owner (bf_owner buf') (\<lambda>ow. ow\<lparr>ow_data := (ow_data ow)[bf_offset buf' + i := v]\<rparr>) st1"
  have "write_through p b i v st = Inr st'" using r assms(4) by (simp add: write_through_def the_buffer_def st'_def)
  moreover have "i < bf_size buf'" using r(6) assms(4) by simp
  note store_byte [OF r(2,4) sole this st'_def]
  ultimately show ?thesis using r(3) by (auto simp: fun_eq_iff)
qed

text \<open>C23: copy on write isolates the buffers.  In a store where every live buffer lies inside its
  owner and the weak set of each owner is its live buffers, a write through the pointer of a
  buffer accessed in write mode succeeds, keeps that invariant, changes exactly the written
  byte of that buffer, and changes the bytes of no other live buffer, whichever buffers
  shared its memory before (slices, shallow copies and copies of copies).\<close>

theorem copy_on_write_isolates:
  assumes "store_ok st" and "map_of (bs_buffers st) b = Some buf"
    and "current_mode buf = Some ModeWrite" and "i < bf_size buf"
  shows "\<exists>st'. write_through p b i v st = Inr st' \<and> store_ok st'
           \<and> contents st' = (contents st)(b := map_option (\<lambda>xs. xs[i := v]) (contents st b))"
  by (rule copy_on_write_effect [OF assms])

lemma copy_on_write_isolates_witness:
  "let st0 = \<lparr>bs_owners = [\<lparr>ow_ptr = 64, ow_data = [1::nat, 2, 3, 4], ow_slices = [0, 1]\<rparr>],
        bs_buffers = [(0, \<lparr>bf_owner = 0, bf_offset = 0, bf_size = 4, bf_modes = [Some ModeWrite], bf_pending = Some ModeWrite\<rparr>),
                      (1, \<lparr>bf_owner = 0, bf_offset = 1, bf_size = 3, bf_modes = [], bf_pending = None\<rparr>)], bs_next = 2\<rparr>
   in \<exists>st'. write_through 128 0 1 9 st0 = Inr st' \<and> store_ok st'
        \<and> contents st' = (contents st0)(0 := map_option (\<lambda>xs. xs[1 := 9]) (contents st0 0))"
  unfolding Let_def
proof (rule copy_on_write_isolates [where buf = "\<lparr>bf_owner = 0, bf_offset = 0, bf_size = 4,
      bf_modes = [Some ModeWrite], bf_pending = Some ModeWrite\<rparr>"])
  let ?st = "\<lparr>bs_owners = [\<lparr>ow_ptr = 64, ow_data = [1::nat, 2, 3, 4], ow_slices = [0, 1]\<rparr>],
        bs_buffers = [(0, \<lparr>bf_owner = 0, bf_offset = 0, bf_size = 4, bf_modes = [Some ModeWrite], bf_pending = Some ModeWrite\<rparr>),
                      (1, \<lparr>bf_owner = 0, bf_offset = 1, bf_size = 3, bf_modes = [], bf_pending = None\<rparr>)], bs_next = 2\<rparr>"
  show "store_ok ?st" by (auto simp: store_ok_def ow_size_def)
qed (simp_all add: current_mode_def)

section \<open>Histories\<close>

text \<open>A program that uses buffers: the store, and the pointers that were handed out in write mode, each
  with the buffer it was taken from and the memory it points to.  A pointer outlives the access
  context; a store through it does not ask for the pointer again.  An operation that raises leaves
  the state as it is.\<close>

record held_pointer =
  hp_buffer :: nat
  hp_owner :: nat
  hp_offset :: nat
  hp_size :: nat

record 'a history =
  hs_store :: "'a buffer_store"
  hs_held :: "held_pointer list"

datatype 'a buffer_event =
    EvNew int "'a list" | EvSlice nat pyslice | EvCopy int nat bool | EvDrop nat
  | EvAccess nat mode | EvEnter nat | EvExit nat | EvPtr int nat | EvStore nat nat 'a

definition or_same :: "'s \<Rightarrow> 's res \<Rightarrow> 's" where
  "or_same st r = (case r of Inl _ \<Rightarrow> st | Inr st' \<Rightarrow> st')"

definition new_memory :: "int \<Rightarrow> 'a list \<Rightarrow> 'a buffer_store \<Rightarrow> (nat \<times> 'a buffer_store) res" where
  "new_memory p data st = (let (k, st1) = new_owner p data st in new_buffer k 0 None st1)"

definition in_store :: "('a buffer_store \<Rightarrow> 'a buffer_store res) \<Rightarrow> 'a history \<Rightarrow> 'a history" where
  "in_store f s = s\<lparr>hs_store := or_same (hs_store s) (f (hs_store s))\<rparr>"

definition hand_out :: "'a buffer_store \<Rightarrow> nat \<Rightarrow> held_pointer list" where
  "hand_out st b =
     (case map_of (bs_buffers st) b of
        None \<Rightarrow> []
      | Some buf \<Rightarrow>
          if current_mode buf = Some ModeWrite
          then [\<lparr>hp_buffer = b, hp_owner = bf_owner buf, hp_offset = bf_offset buf, hp_size = bf_size buf\<rparr>] else [])"

fun buffer_step :: "'a history \<Rightarrow> 'a buffer_event \<Rightarrow> 'a history" where
  "buffer_step s (EvNew p data) = in_store (\<lambda>st. map_sum id snd (new_memory p data st)) s"
| "buffer_step s (EvSlice b key) = in_store (\<lambda>st. map_sum id snd (buffer_getitem b key st)) s"
| "buffer_step s (EvCopy p b deep) = in_store (\<lambda>st. map_sum id snd (buffer_copy p b deep st)) s"
| "buffer_step s (EvDrop b) = s\<lparr>hs_store := drop_buffer b (hs_store s)\<rparr>"
| "buffer_step s (EvAccess b m) = in_store (buffer_access b m) s"
| "buffer_step s (EvEnter b) = in_store (context_enter b) s"
| "buffer_step s (EvExit b) = in_store (context_exit b) s"
| "buffer_step s (EvPtr p b) =
     (case buffer_ptr p b (hs_store s) of
        Inl _ \<Rightarrow> s
      | Inr (_, st) \<Rightarrow> \<lparr>hs_store = st, hs_held = hs_held s @ hand_out st b\<rparr>)"
| "buffer_step s (EvStore n j v) =
     (if n < length (hs_held s) \<and> j < hp_size (hs_held s ! n)
      then s\<lparr>hs_store := map_owner (hp_owner (hs_held s ! n))
             (\<lambda>ow. ow\<lparr>ow_data := (ow_data ow)[hp_offset (hs_held s ! n) + j := v]\<rparr>) (hs_store s)\<rparr>
      else s)"

text \<open>What a program may do that leaves the bytes of the buffer \<open>c\<close> alone: it does not drop \<open>c\<close>,
  it stores only through pointers of other live buffers, and it makes no slice and no shallow copy
  of memory that a pointer was handed out to.\<close>

definition exposed :: "'a history \<Rightarrow> nat \<Rightarrow> bool" where
  "exposed s b \<longleftrightarrow>
     (case map_of (bs_buffers (hs_store s)) b of
        None \<Rightarrow> False
      | Some buf \<Rightarrow> bf_owner buf \<in> hp_owner ` set (hs_held s))"

fun permitted :: "nat \<Rightarrow> 'a history \<Rightarrow> 'a buffer_event \<Rightarrow> bool" where
  "permitted c s (EvDrop b) \<longleftrightarrow> b \<noteq> c"
| "permitted c s (EvSlice b key) \<longleftrightarrow> \<not> exposed s b"
| "permitted c s (EvCopy p b deep) \<longleftrightarrow> deep \<or> \<not> exposed s b"
| "permitted c s (EvStore n j v) \<longleftrightarrow>
     n < length (hs_held s) \<and> hp_buffer (hs_held s ! n) \<noteq> c
     \<and> map_of (bs_buffers (hs_store s)) (hp_buffer (hs_held s ! n)) \<noteq> None"
| "permitted c s _ \<longleftrightarrow> True"

fun history_ok :: "nat \<Rightarrow> 'a history \<Rightarrow> 'a buffer_event list \<Rightarrow> bool" where
  "history_ok c s [] \<longleftrightarrow> True"
| "history_ok c s (e # es) \<longleftrightarrow> permitted c s e \<and> history_ok c (buffer_step s e) es"

definition keeps :: "'a buffer_store \<Rightarrow> 'a buffer_store \<Rightarrow> (nat \<Rightarrow> bool) \<Rightarrow> bool" where
  "keeps st st' P \<longleftrightarrow> store_ok st' \<and> (\<forall>c xs. P c \<longrightarrow> contents st c = Some xs \<longrightarrow> contents st' c = Some xs)"

lemma keepsI:
  "store_ok st' \<Longrightarrow> (\<And>c xs. P c \<Longrightarrow> contents st c = Some xs \<Longrightarrow> contents st' c = Some xs) \<Longrightarrow> keeps st st' P"
  by (simp add: keeps_def)

lemma keeps_refl: "store_ok st \<Longrightarrow> keeps st st P"
  by (simp add: keeps_def)

lemma keeps_or_same: "store_ok st \<Longrightarrow> (\<And>st'. r = Inr st' \<Longrightarrow> keeps st st' P) \<Longrightarrow> keeps st (or_same st r) P"
  by (cases r) (simp_all add: or_same_def keeps_refl)

lemma contents_live: "contents st c = Some xs \<Longrightarrow> store_ok st \<Longrightarrow> c < bs_next st"
  using store_okD(1) [of st c] by (auto simp: contents_def split: option.splits)

lemma keeps_event:
  "store_ok st \<Longrightarrow> (\<And>b st'. r = Inr (b, st') \<Longrightarrow> keeps st st' P) \<Longrightarrow> keeps st (or_same st (map_sum id snd r)) P"
  by (cases r) (auto simp: or_same_def keeps_refl)

lemma new_buffer_keeps:
  assumes ok: "store_ok st" and n: "new_buffer k off sz st = Inr (b, st')" and k: "k < length (bs_owners st)"
  shows "keeps st st' P"
proof (rule keepsI)
  note nb = new_buffer_ok [OF ok n k]
  show "store_ok st'" by (rule nb(1))
  show "contents st' c = Some xs" if "contents st c = Some xs" for c xs
    using that nb(2) nb(3) [of c] contents_live [OF that ok] by auto
qed

lemma new_memory_keeps:
  assumes ok: "store_ok st" and n: "new_memory p data st = Inr (b, st')"
  shows "keeps st st' P"
proof -
  obtain k st1 where o: "new_owner p data st = (k, st1)" by fastforce
  note no = new_owner_ok [OF ok o]
  have "new_buffer k 0 None st1 = Inr (b, st')" using n o by (simp add: new_memory_def)
  then have "keeps st1 st' P" using new_buffer_keeps [OF no(1)] no(2,4) by simp
  then show ?thesis using no(3) by (simp add: keeps_def)
qed

lemma buffer_getitem_keeps:
  assumes ok: "store_ok st" and n: "buffer_getitem b key st = Inr (c, st')"
  shows "keeps st st' P"
proof -
  obtain buf off sz where b: "map_of (bs_buffers st) b = Some buf"
    and r: "new_buffer (bf_owner buf) off (Some sz) st = Inr (c, st')"
    using n by (auto simp: buffer_getitem_def the_buffer_def res_simps split: if_splits prod.splits)
  show ?thesis by (rule new_buffer_keeps [OF ok r store_okD(2) [OF ok b]])
qed

lemma buffer_copy_keeps:
  assumes ok: "store_ok st" and n: "buffer_copy p b deep st = Inr (c, st')"
  shows "keeps st st' P"
proof (cases deep)
  case False
  then obtain buf where b: "map_of (bs_buffers st) b = Some buf"
    and r: "new_buffer (bf_owner buf) (int (bf_offset buf)) (Some (int (bf_size buf))) st = Inr (c, st')"
    using n by (auto simp: buffer_copy_def the_buffer_def res_simps)
  show ?thesis by (rule new_buffer_keeps [OF ok r store_okD(2) [OF ok b]])
next
  case True
  then obtain data where "new_memory p data st = Inr (c, st')"
    using n by (auto simp: buffer_copy_def the_buffer_def new_memory_def res_simps)
  then show ?thesis by (rule new_memory_keeps [OF ok])
qed

lemma put_modes_keeps:
  assumes "store_ok st" and "map_of (bs_buffers st) b = Some buf"
    and "bf_owner buf' = bf_owner buf" "bf_offset buf' = bf_offset buf" "bf_size buf' = bf_size buf"
  shows "keeps st (put_buffer b buf' st) P"
  using put_modes [OF assms] by (simp add: keeps_def)

lemma mode_events_keep:
  assumes ok: "store_ok st"
  shows "buffer_access b m st = Inr st' \<Longrightarrow> keeps st st' P"
    and "context_enter b st = Inr st' \<Longrightarrow> keeps st st' P"
    and "context_exit b st = Inr st' \<Longrightarrow> keeps st st' P"
  using ok by (auto simp: buffer_access_def context_enter_def context_exit_def the_buffer_def res_simps keeps_refl
      intro!: put_modes_keeps split: option.splits if_splits)

lemma drop_buffer_keeps:
  assumes ok: "store_ok st"
  shows "keeps st (drop_buffer b st) (\<lambda>c. c \<noteq> b)"
proof (cases "map_of (bs_buffers st) b")
  case None
  then show ?thesis by (simp add: drop_buffer_def keeps_refl ok)
next
  case (Some buf)
  define st' where "st' = drop_buffer b st"
  define k where "k = bf_owner buf"
  have k: "k < length (bs_owners st)" using store_okD(2) [OF ok Some] by (simp add: k_def)
  have e: "bs_owners st' = (bs_owners st)[k := (bs_owners st ! k)\<lparr>ow_slices := removeAll b (ow_slices (bs_owners st ! k))\<rparr>]"
    "map_of (bs_buffers st') = (map_of (bs_buffers st))(b := None)" "bs_next st' = bs_next st"
    by (simp_all add: st'_def drop_buffer_def Some slices_remove_def k_def delete_conv')
  have data: "ow_data (bs_owners st' ! j) = ow_data (bs_owners st ! j)" for j
    using k by (cases "j = k") (simp_all add: e)
  have sl: "ow_slices (bs_owners st' ! j) = (if j = k then removeAll b else id) (ow_slices (bs_owners st ! j))" for j
    using k by (cases "j = k") (simp_all add: e)
  show ?thesis
  proof (rule keepsI, fold st'_def)
    show "store_ok st'"
      unfolding store_ok_def
    proof (intro conjI allI impI)
      fix c x assume "map_of (bs_buffers st') c = Some x"
      then have c: "map_of (bs_buffers st) c = Some x" by (simp add: e split: if_splits)
      show "c < bs_next st'" "bf_owner x < length (bs_owners st')"
        "bf_offset x + bf_size x \<le> ow_size (bs_owners st' ! bf_owner x)"
        using store_okD(1-3) [OF ok c] by (simp_all add: ow_size_def data) (simp_all add: e)
    next
      fix j assume "j < length (bs_owners st')"
      then have j: "j < length (bs_owners st)" by (simp add: e)
      show "distinct (ow_slices (bs_owners st' ! j))"
        using ok j by (simp add: sl store_ok_def distinct_removeAll)
      have "set (ow_slices (bs_owners st ! j)) = {c. \<exists>x. map_of (bs_buffers st) c = Some x \<and> bf_owner x = j}"
        using ok j by (simp add: store_ok_def)
      then show "set (ow_slices (bs_owners st' ! j)) = {c. \<exists>x. map_of (bs_buffers st') c = Some x \<and> bf_owner x = j}"
        using Some by (auto simp: sl e(2) k_def)
    qed
    show "contents st' c = Some xs" if "c \<noteq> b" "contents st c = Some xs" for c xs
      using that by (simp add: contents_def data e(2) split: option.splits)
  qed
qed

lemma buffer_ptr_keeps:
  assumes ok: "store_ok st" and p: "buffer_ptr p b st = Inr (q, st')"
  shows "keeps st st' P"
proof -
  obtain buf where b: "map_of (bs_buffers st) b = Some buf"
    using p by (auto simp: buffer_ptr_def the_buffer_def res_simps)
  show ?thesis
  proof (cases "current_mode buf = Some ModeWrite")
    case True
    obtain q1 st1 buf1 where r: "buffer_ptr p b st = Inr (q1, st1)" "store_ok st1" "contents st1 = contents st"
      using buffer_ptr_write [OF ok b True, of p] by metis
    then show ?thesis using p by (simp add: keeps_def)
  next
    case False
    then show ?thesis using p b ok by (auto simp: buffer_ptr_def the_buffer_def res_simps keeps_refl)
  qed
qed

text \<open>Memory that buffers point to after an operation: what they pointed to before, new memory, or the
  memory \<open>K\<close> of a buffer that was sliced.\<close>

definition memory_frame :: "nat set \<Rightarrow> 'a buffer_store \<Rightarrow> 'a buffer_store \<Rightarrow> bool" where
  "memory_frame K st st' \<longleftrightarrow>
     length (bs_owners st) \<le> length (bs_owners st')
     \<and> (\<forall>c x'. map_of (bs_buffers st') c = Some x' \<longrightarrow>
          (\<exists>x. map_of (bs_buffers st) c = Some x \<and> bf_owner x = bf_owner x')
          \<or> length (bs_owners st) \<le> bf_owner x' \<or> bf_owner x' \<in> K)"

lemma memory_frame_refl: "memory_frame K st st"
  by (auto simp: memory_frame_def)

lemma new_buffer_frame:
  assumes "new_buffer k off sz st = Inr (b, st')"
  shows "memory_frame {k} st st'"
  using assms by (auto simp: new_buffer_def Let_def memory_frame_def slices_add_def split: if_splits)

lemma new_memory_frame:
  assumes "new_memory p data st = Inr (b, st')"
  shows "memory_frame {} st st'"
  using assms by (auto simp: new_memory_def new_owner_def new_buffer_def Let_def memory_frame_def slices_add_def
      split: if_splits)

lemma buffer_getitem_frame:
  assumes "buffer_getitem b key st = Inr (c, st')" and "map_of (bs_buffers st) b = Some buf"
  shows "memory_frame {bf_owner buf} st st'"
  using assms by (auto simp: buffer_getitem_def the_buffer_def res_simps split: if_splits prod.splits intro: new_buffer_frame)

lemma buffer_copy_frame:
  assumes "buffer_copy p b deep st = Inr (c, st')" and "map_of (bs_buffers st) b = Some buf"
  shows "memory_frame (if deep then {} else {bf_owner buf}) st st'"
proof (cases deep)
  case True
  then obtain data where "new_memory p data st = Inr (c, st')"
    using assms(1) by (auto simp: buffer_copy_def the_buffer_def new_memory_def res_simps)
  then show ?thesis using True new_memory_frame by auto
qed (use assms in \<open>auto simp: buffer_copy_def the_buffer_def res_simps intro: new_buffer_frame\<close>)

lemma mode_events_frame:
  shows "buffer_access b m st = Inr st' \<Longrightarrow> memory_frame {} st st'"
    and "context_enter b st = Inr st' \<Longrightarrow> memory_frame {} st st'"
    and "context_exit b st = Inr st' \<Longrightarrow> memory_frame {} st st'"
  by (auto simp: buffer_access_def context_enter_def context_exit_def the_buffer_def res_simps memory_frame_def
      split: option.splits if_splits)

lemma drop_buffer_frame: "memory_frame {} st (drop_buffer b st)"
  by (auto simp: memory_frame_def drop_buffer_def slices_remove_def delete_conv' split: option.splits if_splits)

lemma buffer_ptr_frame:
  assumes ok: "store_ok st" and p: "buffer_ptr p b st = Inr (q, st')"
  shows "memory_frame {} st st'"
proof -
  obtain buf where b: "map_of (bs_buffers st) b = Some buf"
    using p by (auto simp: buffer_ptr_def the_buffer_def res_simps)
  show ?thesis
  proof (cases "current_mode buf = Some ModeWrite \<and> 1 < length (ow_slices (bs_owners st ! bf_owner buf))")
    case True
    then obtain st1 d where r: "make_single_owner_inplace p b st = Inr st1"
      "length (bs_owners st1) = length (bs_owners st) + 1"
      "map_of (bs_buffers st1) = (map_of (bs_buffers st))(b \<mapsto> buf\<lparr>bf_owner := length (bs_owners st), bf_offset := 0, bf_size := d\<rparr>)"
      by (rule_tac make_single_owner_shared [OF ok b, of p]) auto
    then have "st' = st1" using p b True by (auto simp: buffer_ptr_def the_buffer_def res_simps)
    then show ?thesis using r by (auto simp: memory_frame_def)
  next
    case False
    then have "st' = st"
      using p b by (auto simp: buffer_ptr_def the_buffer_def res_simps make_single_owner_inplace_def split: if_splits)
    then show ?thesis by (simp add: memory_frame_refl)
  qed
qed

text \<open>Memory that a pointer was handed out to is used by the buffer of the pointer alone.\<close>

definition held_ok :: "'a history \<Rightarrow> bool" where
  "held_ok s \<longleftrightarrow>
     (\<forall>h \<in> set (hs_held s). hp_owner h < length (bs_owners (hs_store s))
        \<and> (\<forall>c x. map_of (bs_buffers (hs_store s)) c = Some x \<and> bf_owner x = hp_owner h \<longrightarrow> c = hp_buffer h))"

lemma held_ok_frame:
  assumes "held_ok s" and "memory_frame K (hs_store s) st'" and "K \<inter> hp_owner ` set (hs_held s) = {}"
  shows "held_ok (s\<lparr>hs_store := st'\<rparr>)"
  unfolding held_ok_def
proof (intro ballI conjI allI impI, simp_all)
  fix h assume h: "h \<in> set (hs_held s)"
  then have lt: "hp_owner h < length (bs_owners (hs_store s))"
    and sole: "\<And>c x. map_of (bs_buffers (hs_store s)) c = Some x \<Longrightarrow> bf_owner x = hp_owner h \<Longrightarrow> c = hp_buffer h"
    using assms(1) by (auto simp: held_ok_def)
  show "hp_owner h < length (bs_owners st')" using lt assms(2) by (simp add: memory_frame_def)
  fix c x' assume x': "map_of (bs_buffers st') c = Some x' \<and> bf_owner x' = hp_owner h"
  moreover have "bf_owner x' \<notin> K" using assms(3) h x' by auto
  ultimately obtain x where "map_of (bs_buffers (hs_store s)) c = Some x" "bf_owner x = hp_owner h"
    using assms(2) lt unfolding memory_frame_def by (metis not_le)
  then show "c = hp_buffer h" by (rule sole)
qed

text \<open>What a permitted event keeps.\<close>

definition isolated :: "nat \<Rightarrow> 'a list \<Rightarrow> 'a history \<Rightarrow> bool" where
  "isolated c xs s \<longleftrightarrow> store_ok (hs_store s) \<and> held_ok s \<and> contents (hs_store s) c = Some xs"

lemma isolated_in_store:
  assumes s: "isolated c xs s"
    and f: "\<And>st'. f (hs_store s) = Inr st' \<Longrightarrow> keeps (hs_store s) st' (\<lambda>_. True)
        \<and> (\<exists>K. memory_frame K (hs_store s) st' \<and> K \<inter> hp_owner ` set (hs_held s) = {})"
  shows "isolated c xs (in_store f s)"
proof (cases "f (hs_store s)")
  case (Inr st')
  then obtain K where "keeps (hs_store s) st' (\<lambda>_. True)" "memory_frame K (hs_store s) st'" "K \<inter> hp_owner ` set (hs_held s) = {}"
    using f by blast
  then show ?thesis using s Inr held_ok_frame by (auto simp: isolated_def in_store_def or_same_def keeps_def)
qed (use s in \<open>simp add: in_store_def or_same_def\<close>)

lemma isolated_memory_event:
  assumes "isolated c xs s"
    and "\<And>b st'. f (hs_store s) = Inr (b, st') \<Longrightarrow> keeps (hs_store s) st' (\<lambda>_. True)
        \<and> (\<exists>K. memory_frame K (hs_store s) st' \<and> K \<inter> hp_owner ` set (hs_held s) = {})"
  shows "isolated c xs (in_store (\<lambda>st. map_sum id snd (f st)) s)"
  by (rule isolated_in_store [OF assms(1)]) (use assms(2) in \<open>cases "f (hs_store s)"; fastforce\<close>)

lemma isolated_ptr:
  assumes s: "isolated c xs s"
  shows "isolated c xs (buffer_step s (EvPtr p b))"
proof (cases "buffer_ptr p b (hs_store s)")
  case (Inr r)
  obtain q st' where r: "r = (q, st')" by (cases r)
  have ok: "store_ok (hs_store s)" using s by (simp add: isolated_def)
  have ptr: "buffer_ptr p b (hs_store s) = Inr (q, st')" using Inr r by simp
  have frame: "memory_frame {} (hs_store s) st'" by (rule buffer_ptr_frame [OF ok ptr])
  have k: "keeps (hs_store s) st' (\<lambda>_. True)" by (rule buffer_ptr_keeps [OF ok ptr])
  have old: "held_ok (s\<lparr>hs_store := st'\<rparr>)" using held_ok_frame [OF _ frame] s by (simp add: isolated_def)
  have new: "hp_owner h < length (bs_owners st')
      \<and> (\<forall>c x. map_of (bs_buffers st') c = Some x \<and> bf_owner x = hp_owner h \<longrightarrow> c = hp_buffer h)"
    if h: "h \<in> set (hand_out st' b)" for h
  proof -
    obtain buf' where b': "map_of (bs_buffers st') b = Some buf'"
      using h by (cases "map_of (bs_buffers st') b") (auto simp: hand_out_def)
    have w: "current_mode buf' = Some ModeWrite" and hb: "hp_buffer h = b" "hp_owner h = bf_owner buf'"
      using h by (auto simp: hand_out_def b' split: if_splits)
    obtain buf where b0: "map_of (bs_buffers (hs_store s)) b = Some buf"
      using ptr by (auto simp: buffer_ptr_def the_buffer_def res_simps)
    have "current_mode buf = Some ModeWrite"
    proof (rule ccontr)
      assume n: "current_mode buf \<noteq> Some ModeWrite"
      then have "st' = hs_store s" using ptr b0 by (auto simp: buffer_ptr_def the_buffer_def res_simps)
      then show False using n b0 b' w by simp
    qed
    then obtain buf1 where "map_of (bs_buffers st') b = Some buf1"
      "\<And>c x. map_of (bs_buffers st') c = Some x \<Longrightarrow> bf_owner x = bf_owner buf1 \<Longrightarrow> c = b"
      using buffer_ptr_write [OF ok b0, of p] ptr by (metis Pair_inject sum.inject(2))
    then have "\<And>c x. map_of (bs_buffers st') c = Some x \<Longrightarrow> bf_owner x = bf_owner buf' \<Longrightarrow> c = b" using b' by simp
    moreover have "store_ok st'" using k by (simp add: keeps_def)
    then have "bf_owner buf' < length (bs_owners st')" by (rule store_okD(2) [OF _ b'])
    ultimately show ?thesis unfolding hb by blast
  qed
  have "held_ok \<lparr>hs_store = st', hs_held = hs_held s @ hand_out st' b\<rparr>"
    using old new unfolding held_ok_def by auto
  then show ?thesis using s k by (simp add: ptr isolated_def keeps_def)
qed (use s in simp)

lemma isolated_store:
  assumes s: "isolated c xs s" and p: "permitted c s (EvStore n j v)"
  shows "isolated c xs (buffer_step s (EvStore n j v))"
proof (cases "n < length (hs_held s) \<and> j < hp_size (hs_held s ! n)")
  case True
  define h where "h = hs_held s ! n"
  define st' where "st' = map_owner (hp_owner h) (\<lambda>ow. ow\<lparr>ow_data := (ow_data ow)[hp_offset h + j := v]\<rparr>) (hs_store s)"
  have h: "h \<in> set (hs_held s)" using True by (simp add: h_def)
  have other: "bs_owners st' ! k = bs_owners (hs_store s) ! k" if "k \<noteq> hp_owner h" for k using that by (simp add: st'_def)
  have same: "ow_size (bs_owners st' ! k) = ow_size (bs_owners (hs_store s) ! k)
      \<and> ow_slices (bs_owners st' ! k) = ow_slices (bs_owners (hs_store s) ! k)" for k
    using h s by (cases "k = hp_owner h") (auto simp: st'_def ow_size_def isolated_def held_ok_def)
  have bufs: "bs_buffers st' = bs_buffers (hs_store s)" "bs_next st' = bs_next (hs_store s)"
    "length (bs_owners st') = length (bs_owners (hs_store s))" by (simp_all add: st'_def)
  have "store_ok st'" using s by (simp add: isolated_def store_ok_def same bufs)
  moreover have "held_ok (s\<lparr>hs_store := st'\<rparr>)" using s by (simp add: isolated_def held_ok_def bufs)
  moreover have "contents st' c = Some xs"
  proof -
    obtain x where x: "map_of (bs_buffers (hs_store s)) c = Some x" using s by (auto simp: isolated_def contents_def split: option.splits)
    have "hp_buffer h \<noteq> c" using p by (simp add: h_def)
    then have "bf_owner x \<noteq> hp_owner h" using s h x by (auto simp: isolated_def held_ok_def)
    then show ?thesis using s x other by (simp add: isolated_def contents_def bufs(1))
  qed
  ultimately show ?thesis using True by (simp add: isolated_def st'_def h_def)
qed (use s in auto)

lemma isolated_step:
  assumes s: "isolated c xs s" and p: "permitted c s e"
  shows "isolated c xs (buffer_step s e)"
proof (cases e)
  case (EvNew q data)
  have ok: "store_ok (hs_store s)" using s by (simp add: isolated_def)
  show ?thesis unfolding EvNew buffer_step.simps
    by (rule isolated_memory_event [OF s]) (use new_memory_keeps [OF ok] new_memory_frame in blast)
next
  case (EvSlice b key)
  have ok: "store_ok (hs_store s)" using s by (simp add: isolated_def)
  have "\<exists>K. memory_frame K (hs_store s) st' \<and> K \<inter> hp_owner ` set (hs_held s) = {}"
    if r: "buffer_getitem b key (hs_store s) = Inr (d, st')" for d st'
  proof -
    obtain buf where b: "map_of (bs_buffers (hs_store s)) b = Some buf" using r by (auto simp: buffer_getitem_def the_buffer_def res_simps)
    then show ?thesis using buffer_getitem_frame [OF r b] p EvSlice by (auto simp: exposed_def)
  qed
  then show ?thesis unfolding EvSlice buffer_step.simps
    by (intro isolated_memory_event [OF s]) (use buffer_getitem_keeps [OF ok] in blast)
next
  case (EvCopy q b deep)
  have ok: "store_ok (hs_store s)" using s by (simp add: isolated_def)
  have "\<exists>K. memory_frame K (hs_store s) st' \<and> K \<inter> hp_owner ` set (hs_held s) = {}"
    if r: "buffer_copy q b deep (hs_store s) = Inr (d, st')" for d st'
  proof -
    obtain buf where b: "map_of (bs_buffers (hs_store s)) b = Some buf" using r by (auto simp: buffer_copy_def the_buffer_def res_simps)
    then show ?thesis using buffer_copy_frame [OF r b] p EvCopy by (cases deep) (auto simp: exposed_def)
  qed
  then show ?thesis unfolding EvCopy buffer_step.simps
    by (intro isolated_memory_event [OF s]) (use buffer_copy_keeps [OF ok] in blast)
next
  case (EvDrop b)
  then show ?thesis
    using s p drop_buffer_keeps [of "hs_store s" b] held_ok_frame [OF _ drop_buffer_frame [of "hs_store s" b]]
    by (auto simp: isolated_def keeps_def)
next
  case (EvAccess b m)
  have ok: "store_ok (hs_store s)" using s by (simp add: isolated_def)
  show ?thesis unfolding EvAccess buffer_step.simps
    by (rule isolated_in_store [OF s]) (use mode_events_keep(1) [OF ok] mode_events_frame(1) in blast)
next
  case (EvEnter b)
  have ok: "store_ok (hs_store s)" using s by (simp add: isolated_def)
  show ?thesis unfolding EvEnter buffer_step.simps
    by (rule isolated_in_store [OF s]) (use mode_events_keep(2) [OF ok] mode_events_frame(2) in blast)
next
  case (EvExit b)
  have ok: "store_ok (hs_store s)" using s by (simp add: isolated_def)
  show ?thesis unfolding EvExit buffer_step.simps
    by (rule isolated_in_store [OF s]) (use mode_events_keep(3) [OF ok] mode_events_frame(3) in blast)
next
  case (EvPtr q b)
  show ?thesis unfolding EvPtr by (rule isolated_ptr [OF s])
next
  case (EvStore n j v)
  show ?thesis unfolding EvStore by (rule isolated_store [OF s p [unfolded EvStore]])
qed

text \<open>The step that skips what is not permitted is a step system; a permitted history never skips.\<close>

definition permitted_step :: "nat \<Rightarrow> 'a history \<Rightarrow> 'a buffer_event \<Rightarrow> 'a history" where
  "permitted_step c s e = (if permitted c s e then buffer_step s e else s)"

interpretation buffer_frame: step_system "permitted_step c" "isolated c xs" "\<lambda>_. True" for c xs
  by unfold_locales (simp add: permitted_step_def isolated_step)

lemma permitted_run: "history_ok c s es \<Longrightarrow> run (permitted_step c) s es = run buffer_step s es"
  by (induction c s es rule: history_ok.induct) (simp_all add: permitted_step_def)

text \<open>C24: Value semantics over any history.  Start with a store that satisfies the invariant and no
  pointer handed out, and take any sequence of allocations, slices, shallow and deep copies, garbage
  collections, access contexts, pointer requests and stores, where a store goes through a pointer that
  was handed out in write mode at any earlier time and does not request it again.  If the sequence
  does not collect the buffer \<open>c\<close>, stores only through pointers of other live buffers, and makes no
  slice or shallow copy of memory while a pointer to it has been handed out (the developer guide
  promises true copies there, the code shares the memory), then \<open>c\<close> shows the same bytes at the
  end, whatever it shared memory with, and the invariant still holds.\<close>

theorem buffer_history_isolated:
  assumes "store_ok (hs_store s)" and "hs_held s = []" and "contents (hs_store s) c = Some xs" and "history_ok c s es"
  shows "store_ok (hs_store (run buffer_step s es)) \<and> contents (hs_store (run buffer_step s es)) c = Some xs"
proof -
  have "isolated c xs s" using assms(1-3) by (simp add: isolated_def held_ok_def)
  then have "isolated c xs (run buffer_step s es)"
    using buffer_frame.run_inv [of c xs s es] permitted_run [OF assms(4)] by (simp add: list_all_iff)
  then show ?thesis by (simp add: isolated_def)
qed

definition sample_history :: "nat history" where
  "sample_history = \<lparr>hs_store =
      \<lparr>bs_owners = [\<lparr>ow_ptr = 64, ow_data = [1, 2, 3, 4], ow_slices = [0]\<rparr>],
       bs_buffers = [(0, \<lparr>bf_owner = 0, bf_offset = 0, bf_size = 4, bf_modes = [], bf_pending = None\<rparr>)], bs_next = 1\<rparr>,
     hs_held = []\<rparr>"

text \<open>The copy is given memory of its own when its pointer is taken; the store comes after the context.\<close>

definition sample_events :: "nat buffer_event list" where
  "sample_events = [EvCopy 0 0 False, EvAccess 1 ModeWrite, EvEnter 1, EvPtr 128 1, EvExit 1, EvStore 0 2 7]"

lemma sample_store_ok: "store_ok (hs_store sample_history)"
  by (auto simp: sample_history_def store_ok_def ow_size_def)

lemma sample_history_ok: "history_ok 0 sample_history sample_events"
  by code_simp

lemma buffer_history_isolated_witness:
  "contents (hs_store (run buffer_step sample_history sample_events)) 0 = Some [1, 2, 3, 4]
     \<and> contents (hs_store (run buffer_step sample_history sample_events)) 1 = Some [1, 2, 7, 4]"
proof -
  have "contents (hs_store (run buffer_step sample_history sample_events)) 1 = Some [1, 2, 7, 4]"
    by code_simp
  moreover have "contents (hs_store (run buffer_step sample_history sample_events)) 0 = Some [1, 2, 3, 4]"
    by (rule conjunct2 [OF buffer_history_isolated [OF sample_store_ok _ _ sample_history_ok]])
      (simp_all add: sample_history_def contents_def)
  ultimately show ?thesis by blast
qed

text \<open>A shallow copy of a buffer whose pointer was handed out shares the memory: a store through the
  pointer changes the copy.\<close>

lemma exposed_copy_shares:
  "contents (hs_store (run buffer_step sample_history
       [EvAccess 0 ModeWrite, EvEnter 0, EvPtr 128 0, EvExit 0, EvCopy 0 0 False, EvStore 0 0 9])) 1 = Some [9, 2, 3, 4]"
  by code_simp

end
