(* ===== verification/SpillModel.thy ===== *)
theory SpillModel
  imports PyRange
begin

text \<open>
  Spilling device memory to the host: the owners of
  \<open>cudf/core/buffer/spillable_buffer.py\<close> and the manager of
  \<open>cudf/core/buffer/spill_manager.py\<close>, which call each other.  One state holds the owners
  (numbered in the order of their creation, with a flag for those still referenced), the
  entries of the manager and its statistics.  An operation returns the state it leaves,
  also when it raises.

  The environment record carries what is not in the repository: whether the RMM resource
  serves an allocation and at which address, how often it calls the failure callback for it (never
  when the callback is not registered), which owners a garbage collection finds dead, which owner locks another thread holds,
  the measured time of a move and the current traceback.
\<close>

section \<open>State\<close>

datatype place = Gpu | Cpu | OtherPlace string

record 'a spill_owner =
  so_ptr :: int
  so_size :: nat
  so_place :: place
  so_host :: "'a list option"
  so_device :: "'a list"
  so_exposed :: bool
  so_locks :: "nat list"
  so_accessed :: int
  so_alive :: bool

record expose =
  ex_count :: nat
  ex_total :: nat
  ex_spilled :: nat

record spill_statistics =
  st_level :: nat
  st_totals :: "(place \<times> place, nat \<times> int) pydict"
  st_exposes :: "(string, expose) pydict"

record 'a spill_state =
  sp_owners :: "'a spill_owner list"
  sp_buffers :: "nat list"
  sp_limit :: "int option"
  sp_stats :: spill_statistics
  sp_now :: int

record 'a spill_env =
  env_device :: "'a spill_state \<Rightarrow> nat \<Rightarrow> int option"
  env_calls :: "'a spill_state \<Rightarrow> nat \<Rightarrow> nat"
  env_dead :: "'a spill_state \<Rightarrow> nat \<Rightarrow> bool"
  env_busy :: "nat \<Rightarrow> bool"
  env_elapsed :: "nat \<Rightarrow> int"
  env_traceback :: string

definition owner :: "'a spill_state \<Rightarrow> nat \<Rightarrow> 'a spill_owner" where
  "owner st k = sp_owners st ! k"

definition put_owner :: "nat \<Rightarrow> 'a spill_owner \<Rightarrow> 'a spill_state \<Rightarrow> 'a spill_state" where
  "put_owner k ow st = st\<lparr>sp_owners := (sp_owners st)[k := ow]\<rparr>"

section \<open>Statistics\<close>

definition log_spill :: "place \<Rightarrow> place \<Rightarrow> nat \<Rightarrow> int \<Rightarrow> spill_statistics \<Rightarrow> spill_statistics" where
  "log_spill src dst nbytes dt s =
     (if st_level s < 1 then s
      else
        (let (total_nbytes, total_time) =
               (case map_of (st_totals s) (src, dst) of None \<Rightarrow> (0, 0) | Some v \<Rightarrow> v)
         in s\<lparr>st_totals := dset (src, dst) (total_nbytes + nbytes, total_time + dt) (st_totals s)\<rparr>))"

definition is_spilled :: "'a spill_owner \<Rightarrow> bool" where
  "is_spilled ow \<longleftrightarrow> so_place ow \<noteq> Gpu"

definition log_expose :: "string \<Rightarrow> 'a spill_owner \<Rightarrow> spill_statistics \<Rightarrow> spill_statistics" where
  "log_expose tb ow s =
     (if st_level s < 2 then s
      else
        (let spilled = (if is_spilled ow then so_size ow else 0) in
         case map_of (st_exposes s) tb of
           None \<Rightarrow> s\<lparr>st_exposes := dset tb \<lparr>ex_count = 1, ex_total = so_size ow, ex_spilled = spilled\<rparr> (st_exposes s)\<rparr>
         | Some x \<Rightarrow>
             s\<lparr>st_exposes := dset tb \<lparr>ex_count = ex_count x + 1, ex_total = ex_total x + so_size ow,
                 ex_spilled = ex_spilled x + spilled\<rparr> (st_exposes s)\<rparr>))"

section \<open>Moving an owner to the host\<close>

definition spillable :: "'a spill_owner \<Rightarrow> bool" where
  "spillable ow \<longleftrightarrow> \<not> so_exposed ow \<and> length (so_locks ow) = 0"

text \<open>\<open>spill(target="cpu")\<close>, which needs no device memory.\<close>

definition spill_to_host :: "'a spill_env \<Rightarrow> nat \<Rightarrow> 'a spill_state \<Rightarrow> 'a spill_state \<times> unit res" where
  "spill_to_host e k st =
     (let ow = owner st k in
      if so_place ow = Cpu then (st, Inr ())
      else if \<not> spillable ow then (st, Inl ValueError)
      else if so_place ow = Gpu
      then
        (put_owner k (ow\<lparr>so_host := Some (so_device ow), so_ptr := 0, so_device := [], so_place := Cpu\<rparr>)
           (st\<lparr>sp_stats := log_spill Gpu Cpu (so_size ow) (env_elapsed e k) (sp_stats st)\<rparr>), Inr ())
      else (st, Inl ValueError))"

section \<open>The manager\<close>

definition live :: "'a spill_state \<Rightarrow> nat \<Rightarrow> bool" where
  "live st k \<longleftrightarrow> k < length (sp_owners st) \<and> so_alive (owner st k)"

text \<open>\<open>buffers\<close>: the weak dictionary only shows owners still referenced; sorting is stable.\<close>

definition managed :: "bool \<Rightarrow> 'a spill_state \<Rightarrow> nat list" where
  "managed order_by_access_time st =
     (let ret = filter (live st) (sp_buffers st)
      in if order_by_access_time then sort_key (\<lambda>k. so_accessed (owner st k)) ret else ret)"

fun spill_loop :: "'a spill_env \<Rightarrow> int \<Rightarrow> nat list \<Rightarrow> nat \<Rightarrow> 'a spill_state \<Rightarrow> nat \<times> 'a spill_state" where
  "spill_loop e nbytes [] spilled st = (spilled, st)"
| "spill_loop e nbytes (k # ks) spilled st =
     (if \<not> env_busy e k \<and> \<not> is_spilled (owner st k) \<and> spillable (owner st k)
      then
        (let st1 = fst (spill_to_host e k st); spilled1 = spilled + so_size (owner st1 k)
         in if nbytes \<le> int spilled1 then (spilled1, st1) else spill_loop e nbytes ks spilled1 st1)
      else spill_loop e nbytes ks spilled st)"

definition spill_device_memory :: "'a spill_env \<Rightarrow> int \<Rightarrow> 'a spill_state \<Rightarrow> nat \<times> 'a spill_state" where
  "spill_device_memory e nbytes st = spill_loop e nbytes (managed True st) 0 st"

definition unspilled_bytes :: "'a spill_state \<Rightarrow> nat" where
  "unspilled_bytes st =
     sum_list (map (\<lambda>k. so_size (owner st k)) (filter (\<lambda>k. \<not> is_spilled (owner st k)) (managed False st)))"

definition spill_to_device_limit :: "'a spill_env \<Rightarrow> int option \<Rightarrow> 'a spill_state \<Rightarrow> nat \<times> 'a spill_state" where
  "spill_to_device_limit e device_limit st =
     (case (case device_limit of None \<Rightarrow> sp_limit st | Some l \<Rightarrow> Some l) of
        None \<Rightarrow> (0, st)
      | Some limit \<Rightarrow> spill_device_memory e (int (unspilled_bytes st) - limit) st)"

definition gc_collect :: "'a spill_env \<Rightarrow> 'a spill_state \<Rightarrow> 'a spill_state" where
  "gc_collect e st =
     st\<lparr>sp_owners := map (\<lambda>k. if env_dead e st k then (owner st k)\<lparr>so_alive := False\<rparr> else owner st k)
                          [0..<length (sp_owners st)]\<rparr>"

text \<open>\<open>_out_of_memory_handle\<close>.\<close>

function out_of_memory_handle ::
  "'a spill_env \<Rightarrow> nat \<Rightarrow> bool \<Rightarrow> 'a spill_state \<Rightarrow> bool \<times> 'a spill_state" where
  "out_of_memory_handle e nbytes retry_once st =
     (let (spilled, st1) = spill_device_memory e (int nbytes) st in
      if 0 < spilled then (True, st1)
      else if retry_once then out_of_memory_handle e nbytes False (gc_collect e st1)
      else (False, st1))"
  by pat_completeness auto
termination by (relation "measure (\<lambda>(e, n, r, st). if r then 1 else 0)") auto

declare out_of_memory_handle.simps [simp del]

definition add_buffer :: "'a spill_env \<Rightarrow> nat \<Rightarrow> 'a spill_state \<Rightarrow> 'a spill_state" where
  "add_buffer e k st =
     (let ow = owner st k;
          st1 = (if 0 < so_size ow \<and> \<not> so_exposed ow then st\<lparr>sp_buffers := sp_buffers st @ [k]\<rparr> else st)
      in snd (spill_to_device_limit e None st1))"

section \<open>What a round of spilling does\<close>

text \<open>Device bytes of all owners; every successful round lowers it.\<close>

definition device_bytes :: "'a spill_state \<Rightarrow> nat" where
  "device_bytes st = sum_list (map (\<lambda>ow. if so_place ow = Gpu then so_size ow else 0) (sp_owners st))"

lemma owner_put [simp]:
  "owner (put_owner k ow st) j = (if j = k \<and> k < length (sp_owners st) then ow else owner st j)"
  by (cases "k < length (sp_owners st)") (auto simp: owner_def put_owner_def nth_list_update list_update_beyond)

lemma put_owner_simps [simp]:
  "length (sp_owners (put_owner k ow st)) = length (sp_owners st)"
  "sp_buffers (put_owner k ow st) = sp_buffers st" "sp_limit (put_owner k ow st) = sp_limit st"
  "sp_stats (put_owner k ow st) = sp_stats st" "sp_now (put_owner k ow st) = sp_now st"
  by (simp_all add: put_owner_def)

lemma owner_update [simp]:
  "owner (st\<lparr>sp_buffers := b\<rparr>) k = owner st k" "owner (st\<lparr>sp_limit := l\<rparr>) k = owner st k"
  "owner (st\<lparr>sp_stats := s\<rparr>) k = owner st k" "owner (st\<lparr>sp_now := t\<rparr>) k = owner st k"
  by (simp_all add: owner_def)

text \<open>The effect of moving a set of owners to the host.\<close>

definition moved :: "'a spill_owner \<Rightarrow> 'a spill_owner" where
  "moved ow = ow\<lparr>so_host := Some (so_device ow), so_ptr := 0, so_device := [], so_place := Cpu\<rparr>"

definition movable :: "'a spill_env \<Rightarrow> 'a spill_state \<Rightarrow> nat \<Rightarrow> bool" where
  "movable e st k \<longleftrightarrow> \<not> env_busy e k \<and> \<not> is_spilled (owner st k) \<and> spillable (owner st k)"

lemma moved_simps [simp]:
  "so_size (moved ow) = so_size ow" "so_place (moved ow) = Cpu" "so_host (moved ow) = Some (so_device ow)"
  "so_exposed (moved ow) = so_exposed ow" "so_locks (moved ow) = so_locks ow" "so_alive (moved ow) = so_alive ow"
  "so_accessed (moved ow) = so_accessed ow" "so_ptr (moved ow) = 0" "is_spilled (moved ow)"
  by (simp_all add: moved_def is_spilled_def)

lemma spill_to_host_movable:
  "movable e st k \<Longrightarrow> spill_to_host e k st =
     (put_owner k (moved (owner st k)) (st\<lparr>sp_stats := log_spill Gpu Cpu (so_size (owner st k)) (env_elapsed e k) (sp_stats st)\<rparr>), Inr ())"
  by (simp add: spill_to_host_def movable_def is_spilled_def moved_def Let_def)

definition after_moves :: "nat set \<Rightarrow> 'a spill_state \<Rightarrow> 'a spill_state \<Rightarrow> bool" where
  "after_moves M st st' \<longleftrightarrow>
     length (sp_owners st') = length (sp_owners st) \<and> sp_buffers st' = sp_buffers st
     \<and> sp_limit st' = sp_limit st \<and> sp_now st' = sp_now st
     \<and> (\<forall>k. owner st' k = (if k \<in> M then moved (owner st k) else owner st k))"

lemma after_moves_refl: "after_moves {} st st"
  by (simp add: after_moves_def)

lemma movable_after: "after_moves M st st' \<Longrightarrow> j \<notin> M \<Longrightarrow> movable e st' j = movable e st j"
  by (simp add: after_moves_def movable_def)

lemma after_moves_trans: "after_moves M st st1 \<Longrightarrow> after_moves N st1 st' \<Longrightarrow> M \<inter> N = {} \<Longrightarrow> after_moves (M \<union> N) st st'"
  by (auto simp: after_moves_def disjoint_iff)

lemma spill_to_host_moves:
  "movable e st k \<Longrightarrow> k < length (sp_owners st) \<Longrightarrow> after_moves {k} st (fst (spill_to_host e k st))"
  by (auto simp: spill_to_host_movable after_moves_def)

abbreviation sizes :: "'a spill_state \<Rightarrow> nat list \<Rightarrow> nat" where
  "sizes st ks \<equiv> sum_list (map (\<lambda>k. so_size (owner st k)) ks)"

lemma spill_loop_skip: "\<not> movable e st k \<Longrightarrow> spill_loop e n (k # ks) s st = spill_loop e n ks s st"
  by (simp only: spill_loop.simps(2) if_False flip: movable_def)

lemma spill_loop_move:
  "movable e st k \<Longrightarrow> spill_loop e n (k # ks) s st =
     (let st1 = fst (spill_to_host e k st); s1 = s + so_size (owner st1 k)
      in if n \<le> int s1 then (s1, st1) else spill_loop e n ks s1 st1)"
  by (simp only: spill_loop.simps(2) if_True flip: movable_def)

text \<open>The loop moves a prefix of the movable owners, in the given order: the shortest non-empty
  one that is enough, or all of them.\<close>

lemma spill_loop_prefix:
  assumes "distinct ks" and "\<forall>k \<in> set ks. k < length (sp_owners st)"
  shows "\<exists>m. after_moves (set (take m (filter (movable e st) ks))) st (snd (spill_loop e n ks s st))
           \<and> m \<le> length (filter (movable e st) ks)
           \<and> fst (spill_loop e n ks s st) = s + sizes st (take m (filter (movable e st) ks))
           \<and> (m = length (filter (movable e st) ks) \<or> n \<le> int (s + sizes st (take m (filter (movable e st) ks))))
           \<and> (\<forall>j. 0 < j \<longrightarrow> j < m \<longrightarrow> int (s + sizes st (take j (filter (movable e st) ks))) < n)
           \<and> (filter (movable e st) ks \<noteq> [] \<longrightarrow> 0 < m)"
  using assms
proof (induction ks arbitrary: s st)
  case Nil
  then show ?case by (simp add: after_moves_refl)
next
  case (Cons k ks)
  show ?case
  proof (cases "movable e st k")
    case False
    have "distinct ks" "\<forall>k \<in> set ks. k < length (sp_owners st)" using Cons.prems by auto
    from Cons.IH [OF this] show ?thesis unfolding spill_loop_skip [OF False] using False by simp
  next
    case True
    define st1 where "st1 = fst (spill_to_host e k st)"
    define s1 where "s1 = s + so_size (owner st k)"
    define F where "F = filter (movable e st) ks"
    have k: "k < length (sp_owners st)" using Cons.prems by simp
    have mv: "after_moves {k} st st1" unfolding st1_def by (rule spill_to_host_moves [OF True k])
    have sz: "so_size (owner st1 j) = so_size (owner st j)" for j using mv by (simp add: after_moves_def)
    have F: "filter (movable e st1) ks = F"
      using Cons.prems movable_after [OF mv] by (auto simp: F_def intro!: filter_cong) metis+
    have F0: "filter (movable e st) (k # ks) = k # F" using True by (simp add: F_def)
    have loop: "spill_loop e n (k # ks) s st =
        (if n \<le> int s1 then (s1, st1) else spill_loop e n ks s1 st1)"
      by (simp only: spill_loop_move [OF True] Let_def s1_def sz flip: st1_def)
    show ?thesis
    proof (cases "n \<le> int s1")
      case True
      then show ?thesis unfolding loop F0 using mv by (intro exI [of _ 1]) (simp add: s1_def)
    next
      case False
      have "distinct ks" "\<forall>k \<in> set ks. k < length (sp_owners st1)" using Cons.prems mv by (auto simp: after_moves_def)
      from Cons.IH [OF this, of s1, unfolded F] obtain m where
        m: "after_moves (set (take m F)) st1 (snd (spill_loop e n ks s1 st1))" "m \<le> length F"
          "fst (spill_loop e n ks s1 st1) = s1 + sizes st1 (take m F)"
          "m = length F \<or> n \<le> int (s1 + sizes st1 (take m F))"
          "\<forall>j. 0 < j \<longrightarrow> j < m \<longrightarrow> int (s1 + sizes st1 (take j F)) < n"
        by blast
      have "k \<notin> set (take m F)" using Cons.prems by (auto simp: F_def dest: in_set_takeD)
      then have "after_moves (set (take (Suc m) (k # F))) st (snd (spill_loop e n ks s1 st1))"
        using after_moves_trans [OF mv m(1)] by simp
      moreover have "int (s + sizes st (take j (k # F))) < n" if "0 < j" "j < Suc m" for j
      proof (cases j)
        case (Suc i)
        then have "i = 0 \<or> int (s1 + sizes st1 (take i F)) < n" using that m(5) by auto
        then show ?thesis using False Suc by (auto simp: s1_def sz)
      qed (use that in simp)
      ultimately show ?thesis unfolding loop F0 using m(2-4) False
        by (intro exI [of _ "Suc m"]) (auto simp: s1_def sz)
    qed
  qed
qed

lemma device_bytes_move:
  assumes m: "movable e st k" and k: "k < length (sp_owners st)"
  shows "device_bytes (fst (spill_to_host e k st)) + so_size (owner st k) = device_bytes st"
proof -
  define f where "f ow = (if so_place ow = Gpu then so_size ow else 0)" for ow :: "'a spill_owner"
  have fk: "f (sp_owners st ! k) = so_size (owner st k)"
    using m by (simp add: f_def movable_def is_spilled_def owner_def)
  have "f (sp_owners st ! k) \<le> sum_list (map f (sp_owners st))"
    using elem_le_sum_list [of k "map f (sp_owners st)"] k by simp
  moreover have "sum_list ((map f (sp_owners st))[k := 0]) = sum_list (map f (sp_owners st)) - f (sp_owners st ! k)"
    using sum_list_update [of k "map f (sp_owners st)" 0] k by simp
  moreover have "f (moved (owner st k)) = 0" by (simp add: f_def)
  ultimately show ?thesis
    using fk by (simp add: spill_to_host_movable [OF m] device_bytes_def put_owner_def map_update flip: f_def)
qed

lemma device_bytes_loop:
  "\<forall>k \<in> set ks. k < length (sp_owners st) \<Longrightarrow>
   device_bytes (snd (spill_loop e n ks s st)) + fst (spill_loop e n ks s st) = device_bytes st + s"
proof (induction ks arbitrary: s st)
  case (Cons k ks)
  show ?case
  proof (cases "movable e st k")
    case False
    have "\<forall>k \<in> set ks. k < length (sp_owners st)" using Cons.prems by simp
    from Cons.IH [OF this] show ?thesis unfolding spill_loop_skip [OF False] .
  next
    case True
    define st1 where "st1 = fst (spill_to_host e k st)"
    have k: "k < length (sp_owners st)" using Cons.prems by simp
    have mv: "after_moves {k} st st1" unfolding st1_def by (rule spill_to_host_moves [OF True k])
    have d: "device_bytes st1 + so_size (owner st k) = device_bytes st"
      unfolding st1_def by (rule device_bytes_move [OF True k])
    have sz: "so_size (owner st1 k) = so_size (owner st k)" using mv by (simp add: after_moves_def)
    have "\<forall>j \<in> set ks. j < length (sp_owners st1)" using Cons.prems mv by (simp add: after_moves_def)
    from Cons.IH [OF this, of "s + so_size (owner st k)"] d show ?thesis
      by (simp add: spill_loop_move [OF True] Let_def sz del: spill_loop.simps flip: st1_def)
  qed
qed simp

lemma managed_live: "k \<in> set (managed b st) \<longleftrightarrow> k \<in> set (sp_buffers st) \<and> live st k"
  by (cases b) (auto simp: managed_def Let_def)

lemma device_bytes_round:
  "device_bytes (snd (spill_device_memory e n st)) + fst (spill_device_memory e n st) = device_bytes st"
  unfolding spill_device_memory_def
  using device_bytes_loop [of "managed True st" st e n 0] by (simp add: managed_live live_def)

lemma device_bytes_gc [simp]: "device_bytes (gc_collect e st) = device_bytes st"
proof -
  have "map (\<lambda>k. if so_place (owner st k) = Gpu then so_size (owner st k) else 0) [0..<length (sp_owners st)]
      = map (\<lambda>ow. if so_place ow = Gpu then so_size ow else 0) (sp_owners st)"
    by (rule nth_equalityI) (simp_all add: owner_def)
  moreover have "map ((\<lambda>ow. if so_place ow = Gpu then so_size ow else 0) \<circ>
        (\<lambda>k. if env_dead e st k then (owner st k)\<lparr>so_alive := False\<rparr> else owner st k)) [0..<length (sp_owners st)]
      = map (\<lambda>k. if so_place (owner st k) = Gpu then so_size (owner st k) else 0) [0..<length (sp_owners st)]"
    by simp
  ultimately show ?thesis by (simp add: device_bytes_def gc_collect_def)
qed

lemma oom_handle_bytes:
  "out_of_memory_handle e n r st = (b, st') \<Longrightarrow>
   device_bytes st' \<le> device_bytes st \<and> (b \<longrightarrow> device_bytes st' < device_bytes st)"
proof (induction e n r st rule: out_of_memory_handle.induct)
  case (1 e n r st)
  obtain s1 st1 where r1: "spill_device_memory e (int n) st = (s1, st1)" by fastforce
  have d: "device_bytes st1 + s1 = device_bytes st" using device_bytes_round [of e "int n" st] r1 by simp
  show ?case
    using 1(1) [OF r1 [symmetric] refl] 1(2) d
    by (subst (asm) out_of_memory_handle.simps) (auto simp: r1 split: if_splits)
qed

section \<open>Device allocations\<close>

text \<open>\<open>DeviceBuffer.to_device\<close>, as far as it acts on this state: the resource may call the failure
  callback any number of times, and then serves the request or raises.  Both are the environment's.\<close>

definition device_allocate :: "'a spill_env \<Rightarrow> nat \<Rightarrow> 'a spill_state \<Rightarrow> 'a spill_state \<times> int res" where
  "device_allocate e n st =
     (let st1 = ((\<lambda>s. snd (out_of_memory_handle e n True s)) ^^ env_calls e st n) st
      in (st1, of_option MemoryError (env_device e st1 n)))"

section \<open>Operations of an owner\<close>

text \<open>\<open>spill\<close>.  Moving back pops the host copy before the allocation that may raise.\<close>

definition spill :: "'a spill_env \<Rightarrow> nat \<Rightarrow> place \<Rightarrow> 'a spill_state \<Rightarrow> 'a spill_state \<times> unit res" where
  "spill e k target st =
     (let ow = owner st k; ptr_type = so_place ow in
      if ptr_type = target then (st, Inr ())
      else if \<not> spillable ow \<and> target = Cpu then (st, Inl ValueError)
      else if \<not> spillable ow \<and> target = Gpu \<and> so_exposed ow then (st, Inl ValueError)
      else if ptr_type = Gpu \<and> target = Cpu then spill_to_host e k st
      else if ptr_type = Cpu \<and> target = Gpu
      then
        (case so_host ow of
           None \<Rightarrow> (st, Inl KeyError)
         | Some host \<Rightarrow>
             (case device_allocate e (length host) (put_owner k (ow\<lparr>so_host := None\<rparr>) st) of
                (st1, Inl err) \<Rightarrow> (st1, Inl err)
              | (st1, Inr p) \<Rightarrow>
                  (let ow1 = (owner st1 k)\<lparr>so_ptr := p, so_device := host\<rparr> in
                   if so_size ow1 \<noteq> length host then (put_owner k ow1 st1, Inl AssertionError)
                   else
                     (put_owner k (ow1\<lparr>so_place := target\<rparr>)
                        (st1\<lparr>sp_stats := log_spill ptr_type target (so_size ow1) (env_elapsed e k) (sp_stats st1)\<rparr>),
                      Inr ()))))
      else (st, Inl ValueError))"

text \<open>Sequencing two operations: the second runs only when the first does not raise.\<close>

definition sp_bind ::
  "'a spill_state \<times> 'b res \<Rightarrow> ('a spill_state \<Rightarrow> 'b \<Rightarrow> 'a spill_state \<times> 'c res) \<Rightarrow> 'a spill_state \<times> 'c res" where
  "sp_bind m f = (case m of (st, Inl err) \<Rightarrow> (st, Inl err) | (st, Inr x) \<Rightarrow> f st x)"

definition mark_exposed :: "'a spill_env \<Rightarrow> nat \<Rightarrow> 'a spill_state \<Rightarrow> 'a spill_state \<times> unit res" where
  "mark_exposed e k st =
     (let st1 = snd (spill_to_device_limit e None st);
          st2 = (if \<not> so_exposed (owner st1 k)
                 then st1\<lparr>sp_stats := log_expose (env_traceback e) (owner st1 k) (sp_stats st1)\<rparr> else st1)
      in sp_bind (spill e k Gpu st2) (\<lambda>st3 _.
           (put_owner k ((owner st3 k)\<lparr>so_exposed := True, so_accessed := sp_now st3\<rparr>) st3, Inr ())))"

definition spill_lock :: "'a spill_env \<Rightarrow> nat \<Rightarrow> nat \<Rightarrow> 'a spill_state \<Rightarrow> 'a spill_state \<times> unit res" where
  "spill_lock e k lock st =
     sp_bind (spill e k Gpu st) (\<lambda>st1 _.
       (put_owner k ((owner st1 k)\<lparr>so_locks := List.insert lock (so_locks (owner st1 k))\<rparr>) st1, Inr ()))"

text \<open>The garbage collection of a lock removes it from the weak set.\<close>

definition spill_unlock :: "nat \<Rightarrow> nat \<Rightarrow> 'a spill_state \<Rightarrow> 'a spill_state" where
  "spill_unlock k lock st =
     put_owner k ((owner st k)\<lparr>so_locks := removeAll lock (so_locks (owner st k))\<rparr>) st"

definition spill_ptr :: "'a spill_env \<Rightarrow> nat \<Rightarrow> 'a spill_state \<Rightarrow> 'a spill_state \<times> int res" where
  "spill_ptr e k st =
     sp_bind
       (if length (so_locks (owner st k)) = 0 then mark_exposed e k st
        else
          sp_bind (if is_spilled (owner st k) then spill e k Gpu st else (st, Inr ())) (\<lambda>st1 _.
            (put_owner k ((owner st1 k)\<lparr>so_accessed := sp_now st1\<rparr>) st1, Inr ())))
       (\<lambda>st1 _. (st1, Inr (so_ptr (owner st1 k))))"

text \<open>\<open>memory_info\<close>, with the address \<open>host_ptr\<close> of the host memory of a spilled owner.\<close>

definition memory_info :: "int \<Rightarrow> 'a spill_owner \<Rightarrow> (int \<times> nat \<times> place) res" where
  "memory_info host_ptr ow =
     (case so_place ow of
        Gpu \<Rightarrow> Inr (so_ptr ow, so_size ow, Gpu)
      | Cpu \<Rightarrow> (case so_host ow of None \<Rightarrow> Inl KeyError | Some _ \<Rightarrow> Inr (host_ptr, so_size ow, Cpu))
      | OtherPlace _ \<Rightarrow> Inl RuntimeError)"

definition host_slice :: "nat \<Rightarrow> nat \<Rightarrow> 'a spill_owner \<Rightarrow> 'a list res" where
  "host_slice offset n ow = (case so_host ow of None \<Rightarrow> Inl KeyError | Some h \<Rightarrow> Inr (take n (drop offset h)))"

definition spill_memoryview ::
  "'a spill_env \<Rightarrow> nat \<Rightarrow> nat \<Rightarrow> nat option \<Rightarrow> 'a spill_state \<Rightarrow> 'a spill_state \<times> 'a list res" where
  "spill_memoryview e k offset sz st =
     (let ow = owner st k; n = (case sz of None \<Rightarrow> so_size ow | Some m \<Rightarrow> m) in
      if spillable ow
      then sp_bind (spill e k Cpu st) (\<lambda>st1 _. (st1, host_slice offset n (owner st1 k)))
      else if is_spilled ow then (st, host_slice offset n ow)
      else if so_place ow \<noteq> Gpu then (st, Inl AssertionError)
      else (st, Inr (take n (drop offset (so_device ow)))))"

text \<open>The two constructors; the global manager exists, otherwise they raise.\<close>

definition new_spillable :: "'a spill_env \<Rightarrow> 'a spill_owner \<Rightarrow> 'a spill_state \<Rightarrow> 'a spill_state \<times> nat" where
  "new_spillable e ow st =
     (let k = length (sp_owners st) in
      (add_buffer e k (st\<lparr>sp_owners := sp_owners st @ [ow\<lparr>so_accessed := sp_now st\<rparr>]\<rparr>), k))"

definition from_device_memory :: "'a spill_env \<Rightarrow> int \<Rightarrow> 'a list \<Rightarrow> 'a spill_state \<Rightarrow> 'a spill_state \<times> nat" where
  "from_device_memory e p data st =
     new_spillable e \<lparr>so_ptr = p, so_size = length data, so_place = Gpu, so_host = None, so_device = data,
       so_exposed = False, so_locks = [], so_accessed = 0, so_alive = True\<rparr> st"

definition from_host_memory ::
  "'a spill_env \<Rightarrow> bool \<Rightarrow> 'a list \<Rightarrow> 'a spill_state \<Rightarrow> 'a spill_state \<times> nat res" where
  "from_host_memory e c_contiguous data st =
     (if \<not> c_contiguous then (st, Inl ValueError)
      else
        (let (st1, k) = new_spillable e \<lparr>so_ptr = 0, so_size = length data, so_place = Cpu, so_host = Some data,
               so_device = [], so_exposed = False, so_locks = [], so_accessed = 0, so_alive = True\<rparr> st
         in (st1, Inr k)))"

section \<open>Rounds of spilling\<close>

text \<open>Every managed owner is a different one and has bytes.\<close>

definition manager_ok :: "'a spill_state \<Rightarrow> bool" where
  "manager_ok st \<longleftrightarrow>
     distinct (sp_buffers st)
     \<and> (\<forall>k \<in> set (sp_buffers st). k < length (sp_owners st) \<and> 0 < so_size (owner st k))"

lemma distinct_managed: "manager_ok st \<Longrightarrow> distinct (managed b st)"
  by (cases b) (auto simp: managed_def manager_ok_def Let_def)

lemma spill_device_memory_prefix:
  assumes ok: "manager_ok st"
  obtains m where
    "after_moves (set (take m (filter (movable e st) (managed True st)))) st (snd (spill_device_memory e n st))"
    "fst (spill_device_memory e n st) = sizes st (take m (filter (movable e st) (managed True st)))"
    "m \<le> length (filter (movable e st) (managed True st))"
    "m = length (filter (movable e st) (managed True st)) \<or> n \<le> int (fst (spill_device_memory e n st))"
    "\<And>j. 0 < j \<Longrightarrow> j < m \<Longrightarrow> int (sizes st (take j (filter (movable e st) (managed True st)))) < n"
    "filter (movable e st) (managed True st) \<noteq> [] \<Longrightarrow> 0 < m"
proof -
  have "\<forall>k \<in> set (managed True st). k < length (sp_owners st)" by (simp add: managed_live live_def)
  from spill_loop_prefix [OF distinct_managed [OF ok] this, of e n 0] that show thesis
    unfolding spill_device_memory_def by auto
qed

text \<open>C27: A round of spilling is least recently used first, and as short as possible.  With every
  managed owner registered once, \<open>spill_device_memory(nbytes)\<close> returns the total size of the
  owners it moved to the host; if that is less than \<open>nbytes\<close> nothing movable is left among the
  managed owners; everything it moved had been accessed no later than everything movable it
  left; it moves at least one owner if one can be moved, and without a most recently used one of
  those it moved, the others (if any) would not have been enough; all other owners are untouched; and
  the bytes of the moved ones are their old ones.\<close>

theorem spill_round_lru:
  assumes ok: "manager_ok st" and run: "spill_device_memory e n st = (spilled, st')"
  shows "\<exists>M. M \<subseteq> {k \<in> set (managed False st). movable e st k}
           \<and> spilled = (\<Sum>k \<in> M. so_size (owner st k))
           \<and> (int spilled < n \<longrightarrow> M = {k \<in> set (managed False st). movable e st k})
           \<and> (\<forall>k \<in> M. \<forall>j \<in> {k \<in> set (managed False st). movable e st k} - M.
                 so_accessed (owner st k) \<le> so_accessed (owner st j))
           \<and> (if {k \<in> set (managed False st). movable e st k} = {} then M = {}
              else \<exists>k \<in> M. (\<forall>j \<in> M. so_accessed (owner st j) \<le> so_accessed (owner st k))
                 \<and> (M = {k} \<or> int (\<Sum>j \<in> M - {k}. so_size (owner st j)) < n))
           \<and> (\<forall>k. owner st' k = (if k \<in> M then moved (owner st k) else owner st k))"
proof -
  define F where "F = filter (movable e st) (managed True st)"
  have ran: "snd (spill_device_memory e n st) = st'" "fst (spill_device_memory e n st) = spilled" using run by simp_all
  obtain m where mv: "after_moves (set (take m F)) st st'" and s: "spilled = sizes st (take m F)"
    and len: "m \<le> length F" and all: "m = length F \<or> n \<le> int spilled"
    and short: "\<And>j. 0 < j \<Longrightarrow> j < m \<Longrightarrow> int (sizes st (take j F)) < n" and pos: "F \<noteq> [] \<Longrightarrow> 0 < m"
    by (rule spill_device_memory_prefix [OF ok, of e n, folded F_def, unfolded ran]) (blast intro: that)
  have F: "distinct F" "set F = {k \<in> set (managed False st). movable e st k}"
    using distinct_managed [OF ok, of True] by (auto simp: F_def managed_live)
  have sorted: "sorted (map (\<lambda>k. so_accessed (owner st k)) F)"
    unfolding F_def managed_def Let_def if_True by (intro sorted_filter) simp
  have "sorted (map (\<lambda>k. so_accessed (owner st k)) (take m F @ drop m F))" using sorted by simp
  then have lru: "\<forall>k \<in> set (take m F). \<forall>j \<in> set (drop m F). so_accessed (owner st k) \<le> so_accessed (owner st j)"
    by (subst (asm) map_append) (auto simp: sorted_append simp del: append_take_drop_id)
  have "set F = set (take m F) \<union> set (drop m F)" by (metis append_take_drop_id set_append)
  then have part: "set F - set (take m F) = set (drop m F)"
    using set_take_disj_set_drop_if_distinct [OF F(1), of m m] by auto
  have conv: "sizes st (take i F) = (\<Sum>k \<in> set (take i F). so_size (owner st k))" for i
    using F(1) by (simp add: sum.distinct_set_conv_list distinct_take)
  have last: "if set F = {} then set (take m F) = {}
      else \<exists>k \<in> set (take m F). (\<forall>j \<in> set (take m F). so_accessed (owner st j) \<le> so_accessed (owner st k))
        \<and> (set (take m F) = {k} \<or> int (\<Sum>j \<in> set (take m F) - {k}. so_size (owner st j)) < n)"
  proof (cases "F = []")
    case False
    define i where "i = m - 1"
    have m: "m = Suc i" using pos [OF False] by (simp add: i_def)
    have tk: "take m F = take i F @ [F ! i]" using len m by (simp add: take_Suc_conv_app_nth)
    have "distinct (take m F)" using F(1) by (rule distinct_take)
    then have rest: "set (take m F) - {F ! i} = set (take i F)" by (auto simp: tk)
    have "sorted (map (\<lambda>k. so_accessed (owner st k)) (take m F))" using sorted_wrt_take [OF sorted, of m] by (simp add: take_map)
    then have le: "\<forall>j \<in> set (take m F). so_accessed (owner st j) \<le> so_accessed (owner st (F ! i))"
      by (auto simp: tk sorted_append)
    have "set (take m F) = {F ! i} \<or> int (\<Sum>j \<in> set (take m F) - {F ! i}. so_size (owner st j)) < n"
    proof (cases "i = 0")
      case True
      then show ?thesis using tk by simp
    next
      case False
      then show ?thesis unfolding rest using short [of i] m conv [of i] by simp
    qed
    then show ?thesis using le False tk by auto
  qed simp
  have moves: "\<forall>k. owner st' k = (if k \<in> set (take m F) then moved (owner st k) else owner st k)"
    using mv by (simp add: after_moves_def)
  show ?thesis
    unfolding F(2) [symmetric]
  proof (rule exI [of _ "set (take m F)"], intro conjI)
    show "set (take m F) \<subseteq> set F" by (rule set_take_subset)
    show "spilled = (\<Sum>k \<in> set (take m F). so_size (owner st k))" using conv by (simp add: s)
    show "int spilled < n \<longrightarrow> set (take m F) = set F" using all by auto
  qed (rule lru [folded part], rule last, rule moves)
qed

section \<open>Invariant\<close>

text \<open>An owner is on the device with its data there and no host copy, or on the host with a null
  pointer and, unless a failed move lost it, a host copy of its size; an exposed owner is on
  the device.\<close>

definition owner_ok :: "'a spill_owner \<Rightarrow> bool" where
  "owner_ok ow \<longleftrightarrow>
     (so_place ow = Gpu \<and> so_host ow = None \<and> length (so_device ow) = so_size ow)
     \<or> (so_place ow = Cpu \<and> so_ptr ow = 0 \<and> \<not> so_exposed ow
        \<and> (case so_host ow of None \<Rightarrow> True | Some h \<Rightarrow> length h = so_size ow))"

definition owner_bytes :: "'a spill_owner \<Rightarrow> 'a list option" where
  "owner_bytes ow = (if so_place ow = Gpu then Some (so_device ow) else so_host ow)"

definition state_ok :: "'a spill_state \<Rightarrow> bool" where
  "state_ok st \<longleftrightarrow> manager_ok st \<and> (\<forall>k < length (sp_owners st). owner_ok (owner st k))"

text \<open>The two things memory pressure does to an owner: nothing, or moving it to the host when
  nobody holds it; a garbage collection may also find it dead.\<close>

definition press :: "'a spill_owner \<Rightarrow> 'a spill_owner \<Rightarrow> bool" where
  "press a b \<longleftrightarrow> (\<exists>al. b = a\<lparr>so_alive := al\<rparr>
     \<or> (so_place a = Gpu \<and> spillable a \<and> b = (moved a)\<lparr>so_alive := al\<rparr>))"

definition pressed :: "'a spill_state \<Rightarrow> 'a spill_state \<Rightarrow> bool" where
  "pressed st st' \<longleftrightarrow>
     length (sp_owners st') = length (sp_owners st) \<and> sp_buffers st' = sp_buffers st
     \<and> sp_limit st' = sp_limit st \<and> sp_now st' = sp_now st
     \<and> (\<forall>k < length (sp_owners st). press (owner st k) (owner st' k))"

lemma alive_same [simp]: "ow\<lparr>so_alive := so_alive ow\<rparr> = ow"
  by simp

lemma press_refl: "press a a"
  unfolding press_def by (rule exI [of _ "so_alive a"]) simp

lemma press_trans: "press a b \<Longrightarrow> press b c \<Longrightarrow> press a c"
  by (auto simp: press_def spillable_def moved_def)

lemma pressed_refl: "pressed st st"
  by (simp add: pressed_def press_refl)

lemma pressed_trans: "pressed a b \<Longrightarrow> pressed b c \<Longrightarrow> pressed a c"
  by (auto simp: pressed_def intro: press_trans)

lemma press_sizes: "press a b \<Longrightarrow> so_size b = so_size a \<and> so_locks b = so_locks a \<and> so_exposed b = so_exposed a"
  by (auto simp: press_def)

lemma press_ok: "press a b \<Longrightarrow> owner_ok a \<Longrightarrow> owner_ok b \<and> owner_bytes b = owner_bytes a"
  by (auto simp: press_def owner_ok_def owner_bytes_def spillable_def split: option.splits)

lemma press_pinned: "press a b \<Longrightarrow> \<not> spillable a \<or> is_spilled a \<Longrightarrow> \<exists>al. b = a\<lparr>so_alive := al\<rparr>"
  by (auto simp: press_def is_spilled_def)

lemma manager_pressed:
  assumes "pressed st st'" and "manager_ok st"
  shows "manager_ok st'"
proof -
  have "so_size (owner st' k) = so_size (owner st k)" if "k < length (sp_owners st)" for k
    using assms(1) that press_sizes by (auto simp: pressed_def)
  then show ?thesis using assms by (auto simp: pressed_def manager_ok_def)
qed

lemma pressed_ok: "pressed st st' \<Longrightarrow> state_ok st \<Longrightarrow> state_ok st'"
  using manager_pressed [of st st'] press_ok by (auto simp: pressed_def state_ok_def)

lemma after_moves_pressed:
  assumes "after_moves M st st'" and "\<forall>k \<in> M. movable e st k"
  shows "pressed st st'"
proof -
  have "press (owner st k) (moved (owner st k))" if "k \<in> M" for k
    unfolding press_def using assms(2) that
    by (intro exI [of _ "so_alive (owner st k)"]) (simp add: movable_def is_spilled_def moved_def)
  then show ?thesis using assms(1) by (simp add: after_moves_def pressed_def press_refl)
qed

lemma round_pressed:
  assumes "manager_ok st"
  shows "pressed st (snd (spill_device_memory e n st))"
proof -
  obtain m where "after_moves (set (take m (filter (movable e st) (managed True st)))) st (snd (spill_device_memory e n st))"
    using spill_device_memory_prefix [OF assms] by metis
  then show ?thesis by (rule after_moves_pressed) (auto dest: in_set_takeD)
qed

lemma limit_pressed: "manager_ok st \<Longrightarrow> pressed st (snd (spill_to_device_limit e l st))"
  by (simp add: spill_to_device_limit_def round_pressed pressed_refl split: option.splits)

lemma owner_gc: "k < length (sp_owners st) \<Longrightarrow>
    owner (gc_collect e st) k = (if env_dead e st k then (owner st k)\<lparr>so_alive := False\<rparr> else owner st k)"
  by (simp add: owner_def gc_collect_def)

lemma press_alive: "press a (a\<lparr>so_alive := al\<rparr>)"
  unfolding press_def by blast

lemma gc_pressed: "pressed st (gc_collect e st)"
  by (simp add: pressed_def owner_gc press_refl press_alive) (simp add: gc_collect_def)

lemma oom_pressed:
  "manager_ok st \<Longrightarrow> pressed st (snd (out_of_memory_handle e n r st))"
proof (induction e n r st rule: out_of_memory_handle.induct)
  case (1 e n r st)
  obtain s1 st1 where r1: "spill_device_memory e (int n) st = (s1, st1)" by fastforce
  have p: "pressed st st1" using round_pressed [OF 1(2), of e "int n"] r1 by simp
  have p2: "pressed st (gc_collect e st1)" by (rule pressed_trans [OF p gc_pressed])
  show ?case
    using p pressed_trans [OF p2 1(1) [OF r1 [symmetric] refl _ _ manager_pressed [OF p2 1(2)]]]
    by (subst out_of_memory_handle.simps) (simp add: r1)
qed

lemma callbacks_pressed:
  "manager_ok st \<Longrightarrow> pressed st (((\<lambda>s. snd (out_of_memory_handle e n True s)) ^^ i) st)"
proof (induction i)
  case (Suc i)
  then have p: "pressed st (((\<lambda>s. snd (out_of_memory_handle e n True s)) ^^ i) st)" by simp
  then show ?case using oom_pressed [OF manager_pressed [OF p Suc.prems], of e n True] pressed_trans by simp blast
qed (simp add: pressed_refl)

lemma allocate_pressed:
  "manager_ok st \<Longrightarrow> pressed st (fst (device_allocate e n st))"
  by (simp add: device_allocate_def Let_def callbacks_pressed)

section \<open>How the states evolve\<close>

text \<open>What every operation guarantees of an owner: exposure and locks are only added, a pinned
  owner on the device stays where it is, its data is never changed, and it is lost only when an
  allocation fails (\<open>tot\<close> says that none does).\<close>

definition owner_step :: "bool \<Rightarrow> 'a spill_owner \<Rightarrow> 'a spill_owner \<Rightarrow> bool" where
  "owner_step tot a b \<longleftrightarrow>
     so_size b = so_size a \<and> (so_exposed a \<longrightarrow> so_exposed b) \<and> set (so_locks a) \<subseteq> set (so_locks b)
     \<and> (\<not> spillable a \<and> so_place a = Gpu \<longrightarrow> so_place b = Gpu \<and> so_ptr b = so_ptr a \<and> so_device b = so_device a)
     \<and> (owner_bytes b = owner_bytes a \<or> owner_bytes b = None) \<and> (tot \<longrightarrow> owner_bytes b = owner_bytes a)"

definition evolves :: "bool \<Rightarrow> 'a spill_state \<Rightarrow> 'a spill_state \<Rightarrow> bool" where
  "evolves tot st st' \<longleftrightarrow>
     state_ok st' \<and> length (sp_owners st) \<le> length (sp_owners st')
     \<and> (\<forall>k < length (sp_owners st). owner_step tot (owner st k) (owner st' k))"

definition allocations_succeed :: "'a spill_env \<Rightarrow> bool" where
  "allocations_succeed e \<longleftrightarrow> (\<forall>st n. env_device e st n \<noteq> None)"

lemma owner_step_refl: "owner_step tot a a"
  by (simp add: owner_step_def)

lemma owner_step_pinned: "owner_step tot a b \<Longrightarrow> \<not> spillable a \<Longrightarrow> \<not> spillable b"
  by (cases "so_locks a") (auto simp: owner_step_def spillable_def)

lemma owner_step_trans:
  assumes ab: "owner_step tot a b" and bc: "owner_step tot b c"
  shows "owner_step tot a c"
proof -
  note A = ab [unfolded owner_step_def] and B = bc [unfolded owner_step_def]
  have "so_size c = so_size a" using A B by metis
  moreover have "so_exposed a \<longrightarrow> so_exposed c" using A B by blast
  moreover have "set (so_locks a) \<subseteq> set (so_locks c)" using A B by blast
  moreover have "\<not> spillable a \<and> so_place a = Gpu \<longrightarrow>
      so_place c = Gpu \<and> so_ptr c = so_ptr a \<and> so_device c = so_device a"
    using A B owner_step_pinned [OF ab] by metis
  moreover have "owner_bytes c = owner_bytes a \<or> owner_bytes c = None" using A B by metis
  moreover have "tot \<longrightarrow> owner_bytes c = owner_bytes a" using A B by metis
  ultimately show ?thesis unfolding owner_step_def by blast
qed

lemma evolves_refl: "state_ok st \<Longrightarrow> evolves tot st st"
  by (simp add: evolves_def owner_step_refl)

lemma evolves_trans: "evolves tot a b \<Longrightarrow> evolves tot b c \<Longrightarrow> evolves tot a c"
  unfolding evolves_def by (meson le_trans order_less_le_trans owner_step_trans)

lemma press_step: "press a b \<Longrightarrow> owner_ok a \<Longrightarrow> owner_step tot a b"
  using press_ok [of a b] by (auto simp: owner_step_def press_def spillable_def)

lemma pressed_evolves: "pressed st st' \<Longrightarrow> state_ok st \<Longrightarrow> evolves tot st st'"
  using pressed_ok [of st st'] by (auto simp: evolves_def pressed_def state_ok_def intro: press_step)

lemma state_ok_put:
  "state_ok st \<Longrightarrow> owner_ok ow \<Longrightarrow> so_size ow = so_size (owner st k) \<Longrightarrow> state_ok (put_owner k ow st)"
  by (auto simp: state_ok_def manager_ok_def)

lemma put_evolves:
  "state_ok st \<Longrightarrow> owner_ok ow \<Longrightarrow> owner_step tot (owner st k) ow \<Longrightarrow> evolves tot st (put_owner k ow st)"
  using state_ok_put [of st ow k] by (auto simp: evolves_def owner_step_refl owner_step_def)

lemma state_ok_stats [simp]:
  "state_ok (st\<lparr>sp_stats := s\<rparr>) = state_ok st" "state_ok (st\<lparr>sp_now := t\<rparr>) = state_ok st"
  by (simp_all add: state_ok_def manager_ok_def)

lemma evolves_stats [simp]:
  "evolves tot st (st'\<lparr>sp_stats := s\<rparr>) = evolves tot st st'" "evolves tot (st\<lparr>sp_stats := s\<rparr>) st' = evolves tot st st'"
  by (simp_all add: evolves_def)

lemma evolves_bind:
  "evolves tot st (fst m) \<Longrightarrow> (\<And>st1 x. m = (st1, Inr x) \<Longrightarrow> evolves tot st1 (fst (f st1 x))) \<Longrightarrow>
   evolves tot st (fst (sp_bind m f))"
  by (auto simp: sp_bind_def split: prod.splits sum.splits intro: evolves_trans)

lemma evolvesD:
  assumes "evolves tot st st'" and "k < length (sp_owners st)"
  shows "state_ok st'" "k < length (sp_owners st')" "owner_ok (owner st' k)" "owner_step tot (owner st k) (owner st' k)"
  using assms by (auto simp: evolves_def state_ok_def)

lemma state_okD: "state_ok st \<Longrightarrow> k < length (sp_owners st) \<Longrightarrow> owner_ok (owner st k)"
  by (simp add: state_ok_def)

lemma allocate_total: "allocations_succeed e \<Longrightarrow> \<exists>st' p. device_allocate e n st = (st', Inr p)"
  by (auto simp: allocations_succeed_def device_allocate_def Let_def of_option_def split: option.splits)

text \<open>\<open>spill("cpu")\<close> is the move to the host.\<close>

lemma spill_Cpu: "spill e k Cpu st = spill_to_host e k st"
  by (simp add: spill_def spill_to_host_def Let_def)

lemma spill_to_host_evolves:
  assumes ok: "state_ok st" and k: "k < length (sp_owners st)"
  shows "evolves tot st (fst (spill_to_host e k st))"
proof -
  have "evolves tot st (put_owner k (moved (owner st k)) (st\<lparr>sp_stats := s\<rparr>))"
    if "spillable (owner st k)" "so_place (owner st k) = Gpu" for s
  proof -
    have "owner_ok (moved (owner st k))" "owner_step tot (owner st k) (moved (owner st k))"
      using state_okD [OF ok k] that
      by (auto simp: owner_ok_def owner_step_def owner_bytes_def spillable_def)
    then show ?thesis using put_evolves [of "st\<lparr>sp_stats := s\<rparr>" "moved (owner st k)" tot k] ok by simp
  qed
  then show ?thesis
    using ok by (auto simp: spill_to_host_def Let_def moved_def evolves_refl)
qed

lemma unspill_evolves:
  assumes ok: "state_ok st" and k: "k < length (sp_owners st)"
    and h: "so_place (owner st k) = Cpu" "so_host (owner st k) = Some host"
    and alloc: "device_allocate e (length host) (put_owner k ((owner st k)\<lparr>so_host := None\<rparr>) st) = (st1, r)"
  shows "\<exists>al. owner st1 k = (owner st k)\<lparr>so_host := None, so_alive := al\<rparr>"
    and "r = Inl err \<Longrightarrow> evolves (allocations_succeed e) st st1"
    and "r = Inr p \<Longrightarrow> evolves tot st (put_owner k ((owner st1 k)\<lparr>so_ptr := p, so_device := host, so_place := Gpu\<rparr>) st1)"
proof -
  define a where "a = owner st k"
  define st0 where "st0 = put_owner k (a\<lparr>so_host := None\<rparr>) st"
  have a: "owner_ok a" using state_okD [OF ok k] by (simp add: a_def)
  have k0: "owner st0 k = a\<lparr>so_host := None\<rparr>" using k by (simp add: st0_def)
  have ok0: "state_ok st0" unfolding st0_def using ok a h by (intro state_ok_put) (auto simp: owner_ok_def a_def)
  have p: "pressed st0 st1"
    using allocate_pressed [of st0 e "length host"] ok0 alloc by (simp add: state_ok_def st0_def a_def)
  moreover have "k < length (sp_owners st0)" using k by (simp add: st0_def)
  ultimately have "press (owner st0 k) (owner st1 k)" unfolding pressed_def by blast
  from press_pinned [OF this] obtain al where al: "owner st1 k = a\<lparr>so_host := None, so_alive := al\<rparr>"
    using h by (auto simp: k0 is_spilled_def a_def)
  then show "\<exists>al. owner st1 k = (owner st k)\<lparr>so_host := None, so_alive := al\<rparr>" by (auto simp: a_def)
  have other: "owner_step tot' (owner st j) (owner st1 j)" if "j \<noteq> k" "j < length (sp_owners st)" for j tot'
  proof (rule press_step [OF _ state_okD [OF ok that(2)]])
    have "j < length (sp_owners st0)" "owner st0 j = owner st j" using that by (simp_all add: st0_def)
    then show "press (owner st j) (owner st1 j)" using p unfolding pressed_def by metis
  qed
  have len: "length (sp_owners st1) = length (sp_owners st)" using p by (simp add: pressed_def st0_def)
  have ok1: "state_ok st1" by (rule pressed_ok [OF p ok0])
  show "evolves (allocations_succeed e) st st1" if "r = Inl err"
  proof -
    have "\<not> allocations_succeed e" using allocate_total [of e "length host"] alloc that
      by (metis Pair_inject sum.distinct(1))
    then have "owner_step (allocations_succeed e) (owner st k) (owner st1 k)"
      using h by (simp add: owner_step_def al owner_bytes_def a_def)
    then have "owner_step (allocations_succeed e) (owner st j) (owner st1 j)" if "j < length (sp_owners st)" for j
      using other [OF _ that] by (cases "j = k") simp_all
    then show ?thesis using ok1 len by (simp add: evolves_def)
  qed
  show "evolves tot st (put_owner k ((owner st1 k)\<lparr>so_ptr := p, so_device := host, so_place := Gpu\<rparr>) st1)"
    if "r = Inr p" for p
  proof -
    define b where "b = (owner st1 k)\<lparr>so_ptr := p, so_device := host, so_place := Gpu\<rparr>"
    have b: "owner_ok b" "owner_step tot (owner st k) b" "so_size b = so_size (owner st1 k)"
      using a h by (auto simp: b_def al owner_ok_def owner_step_def owner_bytes_def a_def)
    have "state_ok (put_owner k b st1)" using ok1 b by (intro state_ok_put)
    then show ?thesis using b(2) other len k unfolding evolves_def by (auto simp flip: b_def)
  qed
qed

text \<open>Under the invariant, \<open>spill("gpu")\<close> has four outcomes.\<close>

lemma spill_Gpu_eq:
  assumes ok: "state_ok st" and k: "k < length (sp_owners st)"
  shows "spill e k Gpu st =
    (if so_place (owner st k) = Gpu then (st, Inr ())
     else case so_host (owner st k) of
        None \<Rightarrow> (st, Inl KeyError)
      | Some host \<Rightarrow>
          (case device_allocate e (length host) (put_owner k ((owner st k)\<lparr>so_host := None\<rparr>) st) of
             (st1, Inl err) \<Rightarrow> (st1, Inl err)
           | (st1, Inr p) \<Rightarrow>
               (put_owner k ((owner st1 k)\<lparr>so_ptr := p, so_device := host, so_place := Gpu\<rparr>)
                  (st1\<lparr>sp_stats := log_spill Cpu Gpu (length host) (env_elapsed e k) (sp_stats st1)\<rparr>), Inr ())))"
proof (cases "so_place (owner st k) = Gpu")
  case True
  then show ?thesis by (simp add: spill_def)
next
  case False
  then have c: "so_place (owner st k) = Cpu" "\<not> so_exposed (owner st k)"
    and sz: "\<And>h. so_host (owner st k) = Some h \<Longrightarrow> length h = so_size (owner st k)"
    using state_okD [OF ok k] by (auto simp: owner_ok_def)
  show ?thesis
  proof (cases "so_host (owner st k)")
    case None
    then show ?thesis using c by (simp add: spill_def)
  next
    case (Some host)
    obtain st1 r where al: "device_allocate e (length host) (put_owner k ((owner st k)\<lparr>so_host := None\<rparr>) st) = (st1, r)"
      by fastforce
    from unspill_evolves(1) [OF ok k c(1) Some al] have "so_size (owner st1 k) = length host" using sz [OF Some] by auto
    then show ?thesis using c Some al by (cases r) (simp_all add: spill_def Let_def)
  qed
qed

lemma spill_Gpu_evolves:
  assumes ok: "state_ok st" and k: "k < length (sp_owners st)" and r: "spill e k Gpu st = (st', r)"
  shows "evolves (allocations_succeed e) st st'" and "r = Inr () \<Longrightarrow> so_place (owner st' k) = Gpu"
proof -
  have "evolves (allocations_succeed e) st st' \<and> (r = Inr () \<longrightarrow> so_place (owner st' k) = Gpu)"
  proof (cases "so_place (owner st k) = Gpu \<or> so_host (owner st k) = None")
    case True
    then show ?thesis using r ok by (auto simp: spill_Gpu_eq [OF ok k] evolves_refl split: if_splits)
  next
    case False
    then obtain host where h: "so_place (owner st k) = Cpu" "so_host (owner st k) = Some host"
      using state_okD [OF ok k] by (auto simp: owner_ok_def)
    obtain st1 q where al: "device_allocate e (length host) (put_owner k ((owner st k)\<lparr>so_host := None\<rparr>) st) = (st1, q)"
      by fastforce
    note u = unspill_evolves [OF ok k h al]
    show ?thesis
    proof (cases q)
      case (Inl err)
      then show ?thesis using u(2) [OF Inl] r h al by (auto simp: spill_Gpu_eq [OF ok k])
    next
      case (Inr p)
      have ev: "evolves tot st (put_owner k ((owner st1 k)\<lparr>so_ptr := p, so_device := host, so_place := Gpu\<rparr>) st1)" for tot
        by (rule u(3) [OF Inr])
      then have "k < length (sp_owners st1)" using evolvesD(2) [OF ev k] by simp
      moreover have "put_owner k ow (st1\<lparr>sp_stats := s\<rparr>) = (put_owner k ow st1)\<lparr>sp_stats := s\<rparr>" for ow s
        by (simp add: put_owner_def)
      ultimately show ?thesis using ev r h al Inr by (auto simp: spill_Gpu_eq [OF ok k])
    qed
  qed
  then show "evolves (allocations_succeed e) st st'" and "r = Inr () \<Longrightarrow> so_place (owner st' k) = Gpu" by blast+
qed

lemma spill_evolves:
  assumes ok: "state_ok st" and k: "k < length (sp_owners st)"
  shows "evolves (allocations_succeed e) st (fst (spill e k t st))"
proof (cases t)
  case Gpu
  then show ?thesis using spill_Gpu_evolves [OF ok k] by (cases "spill e k Gpu st") auto
next
  case Cpu
  then show ?thesis by (simp add: spill_Cpu spill_to_host_evolves [OF ok k])
next
  case (OtherPlace x)
  then show ?thesis using ok by (auto simp: spill_def Let_def evolves_refl)
qed

lemma limit_evolves: "state_ok st \<Longrightarrow> evolves tot st (snd (spill_to_device_limit e l st))"
  by (rule pressed_evolves [OF limit_pressed]) (simp_all add: state_ok_def)

lemma pinned_step: "owner_ok a \<Longrightarrow> so_locks b = so_locks a \<Longrightarrow> so_exposed a \<Longrightarrow> so_exposed b \<Longrightarrow>
    so_place b = so_place a \<Longrightarrow> so_ptr b = so_ptr a \<Longrightarrow> so_device b = so_device a \<Longrightarrow> so_host b = so_host a \<Longrightarrow>
    so_size b = so_size a \<Longrightarrow> owner_step tot a b"
  by (simp add: owner_step_def owner_bytes_def)

lemma mark_exposed_evolves:
  assumes ok: "state_ok st" and k: "k < length (sp_owners st)"
  shows "evolves (allocations_succeed e) st (fst (mark_exposed e k st))"
    and "mark_exposed e k st = (st', Inr ()) \<Longrightarrow> so_place (owner st' k) = Gpu \<and> so_exposed (owner st' k)"
proof -
  define st1 where "st1 = snd (spill_to_device_limit e None st)"
  define s where "s = (if \<not> so_exposed (owner st1 k) then log_expose (env_traceback e) (owner st1 k) (sp_stats st1)
    else sp_stats st1)"
  have s: "mark_exposed e k st = sp_bind (spill e k Gpu (st1\<lparr>sp_stats := s\<rparr>)) (\<lambda>st3 _.
           (put_owner k ((owner st3 k)\<lparr>so_exposed := True, so_accessed := sp_now st3\<rparr>) st3, Inr ()))"
    by (cases "so_exposed (owner st1 k)") (simp_all only: mark_exposed_def Let_def s_def if_True if_False not_True_eq_False
        not_False_eq_True spill_state.surjective spill_state.update_convs flip: st1_def, simp_all)
  have ev1: "evolves tot st (st1\<lparr>sp_stats := s\<rparr>)" for tot using limit_evolves [OF ok] by (simp add: st1_def)
  note ok1 = evolvesD(1) [OF ev1 k] and k1 = evolvesD(2) [OF ev1 k]
  obtain st3 r where sp: "spill e k Gpu (st1\<lparr>sp_stats := s\<rparr>) = (st3, r)" by fastforce
  note ev3 = spill_Gpu_evolves [OF ok1 k1 sp]
  note ok3 = evolvesD(1) [OF ev3(1) k1] and k3 = evolvesD(2) [OF ev3(1) k1]
  have last: "evolves tot st3 (put_owner k ((owner st3 k)\<lparr>so_exposed := True, so_accessed := sp_now st3\<rparr>) st3)"
    if "r = Inr ()" for tot
    using ev3(2) [OF that] state_okD [OF ok3 k3]
    by (intro put_evolves [OF ok3]) (auto simp: owner_ok_def owner_step_def owner_bytes_def)
  show "evolves (allocations_succeed e) st (fst (mark_exposed e k st))"
    using evolves_trans [OF ev1 ev3(1)] evolves_trans [OF evolves_trans [OF ev1 ev3(1)] last]
    by (cases r) (simp_all add: s sp sp_bind_def)
  show "mark_exposed e k st = (st', Inr ()) \<Longrightarrow> so_place (owner st' k) = Gpu \<and> so_exposed (owner st' k)"
    using ev3(2) k3 by (cases r) (auto simp: s sp sp_bind_def)
qed

lemma spill_lock_evolves:
  assumes ok: "state_ok st" and k: "k < length (sp_owners st)"
  shows "evolves (allocations_succeed e) st (fst (spill_lock e k l st))"
proof -
  obtain st1 r where sp: "spill e k Gpu st = (st1, r)" by fastforce
  note ev = spill_Gpu_evolves [OF ok k sp]
  note ok1 = evolvesD(1) [OF ev(1) k] and k1 = evolvesD(2) [OF ev(1) k]
  have "evolves tot st1 (put_owner k ((owner st1 k)\<lparr>so_locks := List.insert l (so_locks (owner st1 k))\<rparr>) st1)" for tot
    using state_okD [OF ok1 k1]
    by (intro put_evolves [OF ok1]) (auto simp: owner_ok_def owner_step_def owner_bytes_def split: option.splits)
  with evolves_trans [OF ev(1)] show ?thesis using ev(1) by (cases r) (simp_all add: spill_lock_def sp sp_bind_def)
qed

lemma spill_ptr_evolves:
  assumes ok: "state_ok st" and k: "k < length (sp_owners st)"
  shows "evolves (allocations_succeed e) st (fst (spill_ptr e k st))"
proof -
  have touch: "evolves tot st1 (put_owner k ((owner st1 k)\<lparr>so_accessed := sp_now st1\<rparr>) st1)"
    if "evolves tot' st st1" for tot tot' st1
    using state_okD [OF evolvesD(1,2) [OF that k]]
    by (intro put_evolves evolvesD(1) [OF that k]) (auto simp: owner_ok_def owner_step_def owner_bytes_def split: option.splits)
  have gpu: "evolves (allocations_succeed e) st (fst (if is_spilled (owner st k) then spill e k Gpu st else (st, Inr ())))"
    using spill_evolves [OF ok k, of e Gpu] evolves_refl [OF ok] by simp
  have "evolves (allocations_succeed e) st (fst (if length (so_locks (owner st k)) = 0 then mark_exposed e k st
        else sp_bind (if is_spilled (owner st k) then spill e k Gpu st else (st, Inr ()))
          (\<lambda>st1 _. (put_owner k ((owner st1 k)\<lparr>so_accessed := sp_now st1\<rparr>) st1, Inr ()))))" (is "evolves ?t st (fst ?m)")
  proof (cases "length (so_locks (owner st k)) = 0")
    case True
    then show ?thesis using mark_exposed_evolves(1) [OF ok k] by simp
  next
    case False
    have "evolves ?t st (fst (sp_bind (if is_spilled (owner st k) then spill e k Gpu st else (st, Inr ()))
        (\<lambda>st1 _. (put_owner k ((owner st1 k)\<lparr>so_accessed := sp_now st1\<rparr>) st1, Inr ()))))"
    proof (rule evolves_bind [OF gpu])
      fix st1 x assume "(if is_spilled (owner st k) then spill e k Gpu st else (st, Inr ())) = (st1, Inr x)"
      then have "evolves ?t st st1" using gpu by simp
      then show "evolves ?t st1 (fst (put_owner k ((owner st1 k)\<lparr>so_accessed := sp_now st1\<rparr>) st1, Inr ()))"
        using touch by simp
    qed
    then show ?thesis using False by simp
  qed
  then show ?thesis
    unfolding spill_ptr_def by (cases ?m; cases "snd ?m") (auto simp: sp_bind_def)
qed

lemma spill_memoryview_evolves:
  assumes ok: "state_ok st" and k: "k < length (sp_owners st)"
  shows "evolves (allocations_succeed e) st (fst (spill_memoryview e k off n st))"
proof (cases "spillable (owner st k)")
  case True
  then show ?thesis
    using spill_evolves [OF ok k, of e Cpu]
    by (cases "spill e k Cpu st"; cases "snd (spill e k Cpu st)") (auto simp: spill_memoryview_def Let_def sp_bind_def)
next
  case False
  then show ?thesis using evolves_refl [OF ok] by (simp add: spill_memoryview_def Let_def)
qed

lemma new_spillable_evolves:
  assumes ok: "state_ok st" and ow: "owner_ok ow"
  shows "evolves tot st (fst (new_spillable e ow st))"
proof -
  define k where "k = length (sp_owners st)"
  define st1 where "st1 = st\<lparr>sp_owners := sp_owners st @ [ow\<lparr>so_accessed := sp_now st\<rparr>]\<rparr>"
  define st2 where "st2 = (if 0 < so_size (owner st1 k) \<and> \<not> so_exposed (owner st1 k)
    then st1\<lparr>sp_buffers := sp_buffers st1 @ [k]\<rparr> else st1)"
  have o: "owner st1 j = (if j = k then ow\<lparr>so_accessed := sp_now st\<rparr> else owner st j)" if "j \<le> k" for j
    using that by (auto simp: owner_def st1_def nth_append k_def)
  have o2: "owner st2 j = owner st1 j" for j by (simp add: st2_def)
  have l2: "length (sp_owners st2) = k + 1" by (simp add: st2_def st1_def k_def)
  have b2: "sp_buffers st2 = (if 0 < so_size ow \<and> \<not> so_exposed ow then sp_buffers st @ [k] else sp_buffers st)"
    using o [of k] by (simp add: st2_def) (simp add: st1_def)
  have "owner_ok (ow\<lparr>so_accessed := sp_now st\<rparr>)" using ow by (auto simp: owner_ok_def split: option.splits)
  then have "owner_ok (owner st2 j)" if "j < length (sp_owners st2)" for j
    using that o [of j] state_okD [OF ok, of j] by (auto simp: o2 l2 less_Suc_eq k_def)
  moreover have "manager_ok st2"
  proof -
    have m: "distinct (sp_buffers st)" "\<And>j. j \<in> set (sp_buffers st) \<Longrightarrow> j < k \<and> 0 < so_size (owner st j)"
      using ok by (auto simp: state_ok_def manager_ok_def k_def)
    then have "k \<notin> set (sp_buffers st)" by blast
    moreover have "0 < so_size (owner st2 j)" if "j \<in> set (sp_buffers st)" for j
      using m(2) [OF that] o [of j] by (simp add: o2)
    moreover have "so_size (owner st2 k) = so_size ow" using o [of k] by (simp add: o2)
    ultimately show ?thesis using m by (auto simp: manager_ok_def b2 l2 less_SucI)
  qed
  ultimately have ok2: "state_ok st2" by (simp add: state_ok_def)
  have "evolves tot st st2"
    using ok2 o o2 l2 by (simp add: evolves_def k_def owner_step_refl)
  from evolves_trans [OF this limit_evolves [OF ok2, of tot e None]] show ?thesis
    by (simp add: new_spillable_def add_buffer_def Let_def flip: k_def st1_def st2_def)
qed

section \<open>Histories\<close>

datatype 'a spill_event =
    SvNewDevice int "'a list" | SvNewHost bool "'a list" | SvMove nat place | SvExpose nat
  | SvLock nat nat | SvUnlock nat nat | SvPtr nat | SvView nat nat "nat option"
  | SvRound int | SvLimit "int option" | SvOutOfMemory nat bool | SvGc | SvTick int

text \<open>An operation on an owner that does not exist does nothing; one that raises leaves the state
  it had reached.\<close>

fun spill_step :: "'a spill_env \<Rightarrow> 'a spill_state \<Rightarrow> 'a spill_event \<Rightarrow> 'a spill_state" where
  "spill_step e st (SvNewDevice p data) = fst (from_device_memory e p data st)"
| "spill_step e st (SvNewHost c data) = fst (from_host_memory e c data st)"
| "spill_step e st (SvMove k t) = (if k < length (sp_owners st) then fst (spill e k t st) else st)"
| "spill_step e st (SvExpose k) = (if k < length (sp_owners st) then fst (mark_exposed e k st) else st)"
| "spill_step e st (SvLock k l) = (if k < length (sp_owners st) then fst (spill_lock e k l st) else st)"
| "spill_step e st (SvUnlock k l) = (if k < length (sp_owners st) then spill_unlock k l st else st)"
| "spill_step e st (SvPtr k) = (if k < length (sp_owners st) then fst (spill_ptr e k st) else st)"
| "spill_step e st (SvView k off n) = (if k < length (sp_owners st) then fst (spill_memoryview e k off n st) else st)"
| "spill_step e st (SvRound n) = snd (spill_device_memory e n st)"
| "spill_step e st (SvLimit l) = snd (spill_to_device_limit e l st)"
| "spill_step e st (SvOutOfMemory n r) = snd (out_of_memory_handle e n r st)"
| "spill_step e st SvGc = gc_collect e st"
| "spill_step e st (SvTick t) = st\<lparr>sp_now := t\<rparr>"

lemma spill_step_evolves:
  assumes ok: "state_ok st" and u: "\<forall>k l. ev \<noteq> SvUnlock k l"
  shows "evolves (allocations_succeed e) st (spill_step e st ev)"
proof -
  have mgr: "manager_ok st" using ok by (simp add: state_ok_def)
  have dev: "owner_ok \<lparr>so_ptr = p, so_size = length data, so_place = Gpu, so_host = None, so_device = data,
       so_exposed = False, so_locks = [], so_accessed = 0, so_alive = True\<rparr>" for p and data :: "'a list"
    by (simp add: owner_ok_def)
  have host: "owner_ok \<lparr>so_ptr = 0, so_size = length data, so_place = Cpu, so_host = Some data, so_device = [],
       so_exposed = False, so_locks = [], so_accessed = 0, so_alive = True\<rparr>" for data :: "'a list"
    by (simp add: owner_ok_def)
  show ?thesis
  proof (cases ev)
    case (SvNewDevice p data)
    then show ?thesis using new_spillable_evolves [OF ok dev] by (simp add: from_device_memory_def)
  next
    case (SvNewHost c data)
    then show ?thesis using new_spillable_evolves [OF ok host] evolves_refl [OF ok]
      by (simp add: from_host_memory_def split: prod.splits) (metis fst_conv)
  next
    case (SvMove k t)
    then show ?thesis using spill_evolves [OF ok] evolves_refl [OF ok] by simp
  next
    case (SvExpose k)
    then show ?thesis using mark_exposed_evolves [OF ok] evolves_refl [OF ok] by simp
  next
    case (SvLock k l)
    then show ?thesis using spill_lock_evolves [OF ok] evolves_refl [OF ok] by simp
  next
    case (SvPtr k)
    then show ?thesis using spill_ptr_evolves [OF ok] evolves_refl [OF ok] by simp
  next
    case (SvView k off n)
    then show ?thesis using spill_memoryview_evolves [OF ok] evolves_refl [OF ok] by simp
  next
    case (SvRound n)
    then show ?thesis using pressed_evolves [OF round_pressed [OF mgr] ok] by simp
  next
    case (SvLimit l)
    then show ?thesis using limit_evolves [OF ok] by simp
  next
    case (SvOutOfMemory n r)
    then show ?thesis using pressed_evolves [OF oom_pressed [OF mgr] ok] by simp
  next
    case SvGc
    then show ?thesis using pressed_evolves [OF gc_pressed ok] by simp
  next
    case (SvTick t)
    then show ?thesis using ok by (simp add: evolves_def owner_step_refl)
  qed (use u in auto)
qed

text \<open>What releasing a lock changes.\<close>

lemma spill_unlock_ok:
  assumes ok: "state_ok st"
  shows "state_ok (spill_unlock k l st)"
    and "owner (spill_unlock k l st) j = (if j = k \<and> k < length (sp_owners st)
           then (owner st k)\<lparr>so_locks := removeAll l (so_locks (owner st k))\<rparr> else owner st j)"
    and "length (sp_owners (spill_unlock k l st)) = length (sp_owners st)"
proof -
  show "state_ok (spill_unlock k l st)"
  proof (cases "k < length (sp_owners st)")
    case True
    have "owner_ok ((owner st k)\<lparr>so_locks := removeAll l (so_locks (owner st k))\<rparr>)"
      using state_okD [OF ok True] by (auto simp: owner_ok_def split: option.splits)
    then show ?thesis unfolding spill_unlock_def by (intro state_ok_put [OF ok]) simp_all
  next
    case False
    then show ?thesis using ok by (simp add: spill_unlock_def put_owner_def list_update_beyond)
  qed
qed (simp_all add: spill_unlock_def)

lemma spill_step_ok: "state_ok st \<Longrightarrow> state_ok (spill_step e st ev) \<and> length (sp_owners st) \<le> length (sp_owners (spill_step e st ev))"
  using spill_step_evolves [of st ev e] spill_unlock_ok [of st]
  by (cases ev) (auto simp: evolves_def)

text \<open>A pointer that was handed out: the owner is on the device and either exposed for good or
  held by a lock.\<close>

definition pointer_held :: "nat \<Rightarrow> int \<Rightarrow> 'a list \<Rightarrow> 'a spill_state \<Rightarrow> bool" where
  "pointer_held k p data st \<longleftrightarrow> state_ok st \<and> k < length (sp_owners st)
     \<and> so_place (owner st k) = Gpu \<and> so_ptr (owner st k) = p \<and> so_device (owner st k) = data"

lemma pointer_held_step:
  assumes h: "pointer_held k p data st"
    and pin: "so_exposed (owner st k) \<or> (l \<in> set (so_locks (owner st k)) \<and> ev \<noteq> SvUnlock k l)"
  shows "pointer_held k p data (spill_step e st ev)"
    and "so_exposed (owner st k) \<Longrightarrow> so_exposed (owner (spill_step e st ev) k)"
    and "l \<in> set (so_locks (owner st k)) \<Longrightarrow> ev \<noteq> SvUnlock k l \<Longrightarrow> l \<in> set (so_locks (owner (spill_step e st ev) k))"
proof -
  have ok: "state_ok st" and k: "k < length (sp_owners st)" using h by (simp_all add: pointer_held_def)
  have np: "\<not> spillable (owner st k)" using pin by (auto simp: spillable_def)
  have "pointer_held k p data (spill_step e st ev)
    \<and> (so_exposed (owner st k) \<longrightarrow> so_exposed (owner (spill_step e st ev) k))
    \<and> (l \<in> set (so_locks (owner st k)) \<longrightarrow> ev \<noteq> SvUnlock k l \<longrightarrow> l \<in> set (so_locks (owner (spill_step e st ev) k)))"
  proof (cases "\<exists>j m. ev = SvUnlock j m")
    case True
    then obtain j m where e: "ev = SvUnlock j m" by blast
    show ?thesis using h spill_unlock_ok [OF ok, of j m] by (auto simp: pointer_held_def e)
  next
    case False
    then have "evolves (allocations_succeed e) st (spill_step e st ev)" using spill_step_evolves [OF ok] by blast
    from evolvesD [OF this k] show ?thesis using h np by (auto simp: pointer_held_def owner_step_def)
  qed
  then show "pointer_held k p data (spill_step e st ev)"
    and "so_exposed (owner st k) \<Longrightarrow> so_exposed (owner (spill_step e st ev) k)"
    and "l \<in> set (so_locks (owner st k)) \<Longrightarrow> ev \<noteq> SvUnlock k l \<Longrightarrow> l \<in> set (so_locks (owner (spill_step e st ev) k))"
    by blast+
qed

interpretation exposed_run: step_system "spill_step e"
    "\<lambda>st. pointer_held k p data st \<and> so_exposed (owner st k)" "\<lambda>_. True" for e k p data
  by unfold_locales (meson pointer_held_step(1,2))

interpretation locked_run: step_system "spill_step e"
    "\<lambda>st. pointer_held k p data st \<and> l \<in> set (so_locks (owner st k))" "\<lambda>ev. ev \<noteq> SvUnlock k l" for e k p data l
  by unfold_locales (meson pointer_held_step(1,3))

lemma bytes_step:
  assumes ok: "state_ok st" and k: "k < length (sp_owners st)"
  shows "owner_bytes (owner (spill_step e st ev) k) = owner_bytes (owner st k)
    \<or> (\<not> allocations_succeed e \<and> owner_bytes (owner (spill_step e st ev) k) = None)"
proof (cases "\<exists>j m. ev = SvUnlock j m")
  case True
  then obtain j m where e: "ev = SvUnlock j m" by blast
  show ?thesis using spill_unlock_ok(2) [OF ok, of j m k] by (auto simp: owner_bytes_def e)
next
  case False
  then have "evolves (allocations_succeed e) st (spill_step e st ev)" using spill_step_evolves [OF ok] by blast
  from evolvesD(4) [OF this k] show ?thesis unfolding owner_step_def by blast
qed

interpretation bytes_run: step_system "spill_step e"
    "\<lambda>st. state_ok st \<and> k < length (sp_owners st)
       \<and> (owner_bytes (owner st k) = Some xs \<or> (\<not> allocations_succeed e \<and> owner_bytes (owner st k) = None))"
    "\<lambda>_. True" for e k xs
  by unfold_locales (metis bytes_step spill_step_ok order_less_le_trans)

text \<open>C25: a device pointer that was handed out stays valid.  From a state that satisfies the
  invariant, let any sequence of allocations, moves, exposures, locks, reads, spilling rounds,
  out-of-memory callbacks and garbage collections happen; an owner that is on the device and
  exposed, or locked by a lock that the sequence does not release, is still on the device, at
  the same address and with the same data, and the invariant still holds.\<close>

theorem spill_pointer_stable:
  assumes "state_ok st" and "k < length (sp_owners st)" and "so_place (owner st k) = Gpu"
    and "so_exposed (owner st k) \<or> (l \<in> set (so_locks (owner st k)) \<and> list_all (\<lambda>ev. ev \<noteq> SvUnlock k l) es)"
  shows "let st' = run (spill_step e) st es in
    state_ok st' \<and> so_place (owner st' k) = Gpu \<and> so_ptr (owner st' k) = so_ptr (owner st k)
    \<and> so_device (owner st' k) = so_device (owner st k)"
proof -
  have h: "pointer_held k (so_ptr (owner st k)) (so_device (owner st k)) st"
    using assms(1-3) by (simp add: pointer_held_def)
  have all: "list_all (\<lambda>_. True) es" by (simp add: list_all_iff)
  from assms(4) have "pointer_held k (so_ptr (owner st k)) (so_device (owner st k)) (run (spill_step e) st es)"
    using exposed_run.run_inv [OF _ all, of k _ _ st e] locked_run.run_inv [of k _ _ st l es e] h
    by blast
  then show ?thesis by (simp add: pointer_held_def Let_def)
qed

text \<open>C26: spilling never changes data.  From a state that satisfies the invariant, whatever happens
  next, the bytes of an owner, wherever they are, are the old bytes; only when a device
  allocation can fail may they be lost instead.\<close>

theorem spill_preserves_data:
  assumes "state_ok st" and "k < length (sp_owners st)" and "owner_bytes (owner st k) = Some xs"
  shows "state_ok (run (spill_step e) st es)
    \<and> (if allocations_succeed e then owner_bytes (owner (run (spill_step e) st es) k) = Some xs
       else owner_bytes (owner (run (spill_step e) st es) k) \<in> {Some xs, None})"
proof -
  have "list_all (\<lambda>_. True) es" by (simp add: list_all_iff)
  from bytes_run.run_inv [OF _ this, of st k xs e] assms show ?thesis by auto
qed

section \<open>Limits and failing allocations\<close>

lemma unspilled_managed:
  "unspilled_bytes st = sizes st (filter (\<lambda>k. \<not> is_spilled (owner st k)) (managed False st))"
  by (simp add: unspilled_bytes_def)

text \<open>A round moves something as soon as something can be moved.\<close>

lemma spill_round_progress:
  assumes ok: "manager_ok st" and k: "k \<in> set (managed False st)" "movable e st k"
  shows "0 < fst (spill_device_memory e n st)"
    and "\<exists>j. movable e st j \<and> owner (snd (spill_device_memory e n st)) j = moved (owner st j)"
proof -
  define F where "F = filter (movable e st) (managed True st)"
  obtain m where mv: "after_moves (set (take m F)) st (snd (spill_device_memory e n st))"
    and s: "fst (spill_device_memory e n st) = sizes st (take m F)" and pos: "F \<noteq> [] \<Longrightarrow> 0 < m"
    using spill_device_memory_prefix [OF ok, of e n] unfolding F_def by metis
  have "k \<in> set F" using k by (simp add: F_def managed_live)
  then obtain j F' where F: "F = j # F'" by (cases F) auto
  then have tk: "take m F = j # take (m - 1) F'" using pos by (cases m) auto
  have "j \<in> set F" using F by simp
  then have j: "movable e st j" "j \<in> set (sp_buffers st)" by (auto simp: F_def managed_live)
  then have "0 < so_size (owner st j)" using ok by (simp add: manager_ok_def)
  then show "0 < fst (spill_device_memory e n st)" by (simp add: s tk)
  have "owner (snd (spill_device_memory e n st)) j = moved (owner st j)"
    using mv by (simp add: after_moves_def tk)
  then show "\<exists>j. movable e st j \<and> owner (snd (spill_device_memory e n st)) j = moved (owner st j)" using j(1) by blast
qed

text \<open>A round towards a limit spills whatever the limit is, also one far above the device
  usage: as long as one managed owner can be moved, \<open>spill_to_device_limit(limit)\<close> moves at least
  one and reports its bytes, because below the limit the number of bytes asked for is negative
  and the loop only compares after it has moved an owner.\<close>

theorem spill_limit_moves_below_limit:
  assumes ok: "manager_ok st" and k: "k \<in> set (managed False st)" "movable e st k"
  shows "0 < fst (spill_to_device_limit e (Some limit) st)
    \<and> (\<exists>j. movable e st j \<and> owner (snd (spill_to_device_limit e (Some limit) st)) j = moved (owner st j))"
  using spill_round_progress [OF assms] by (simp add: spill_to_device_limit_def)

lemma live_same:
  "after_moves M st st' \<Longrightarrow> live st' k = live st k"
  by (simp add: after_moves_def live_def)

text \<open>C28: a round towards a limit reaches it or moves everything it can.  After
  \<open>spill_to_device_limit(limit)\<close> the managed owners hold at most \<open>limit\<close> bytes on the device, or
  no managed owner on the device can be moved any more (each is exposed, locked for spilling, or
  has its lock held by another thread).\<close>

theorem spill_limit_reached:
  assumes ok: "manager_ok st" and run: "spill_to_device_limit e (Some limit) st = (spilled, st')"
  shows "int (unspilled_bytes st') \<le> limit \<or> \<not> (\<exists>k \<in> set (managed False st'). movable e st' k)"
proof -
  define F where "F = filter (movable e st) (managed True st)"
  define n where "n = int (unspilled_bytes st) - limit"
  have st': "st' = snd (spill_device_memory e n st)" using run by (simp add: spill_to_device_limit_def n_def)
  obtain m where mv: "after_moves (set (take m F)) st st'"
    and s: "fst (spill_device_memory e n st) = sizes st (take m F)" and len: "m \<le> length F"
    and all: "m = length F \<or> n \<le> int (fst (spill_device_memory e n st))"
    using spill_device_memory_prefix [OF ok, of e n] unfolding F_def st' by metis
  define M where "M = set (take m F)"
  have MF: "M \<subseteq> {k \<in> set (managed False st). movable e st k}"
    using set_take_subset [of m F] by (auto simp: M_def F_def managed_live)
  have mgd: "managed False st' = managed False st"
    using mv live_same [OF mv] by (simp add: managed_def after_moves_def cong: filter_cong)
  have dist: "distinct (managed False st)" by (rule distinct_managed [OF ok])
  show ?thesis
  proof (cases "m = length F")
    case True
    then have "M = {k \<in> set (managed False st). movable e st k}" by (auto simp: M_def F_def managed_live)
    then have "\<not> movable e st' k" if "k \<in> set (managed False st')" for k
      using that mv mgd movable_after [OF mv, of k e] by (cases "k \<in> M") (auto simp: after_moves_def M_def movable_def)
    then show ?thesis by blast
  next
    case False
    have keep: "filter (\<lambda>k. \<not> is_spilled (owner st' k)) (managed False st)
        = filter (\<lambda>k. \<not> is_spilled (owner st k) \<and> k \<notin> M) (managed False st)"
      using mv by (intro filter_cong) (auto simp: after_moves_def M_def)
    have sz: "so_size (owner st' k) = so_size (owner st k)" for k using mv by (simp add: after_moves_def)
    define U where "U = {k \<in> set (managed False st). \<not> is_spilled (owner st k)}"
    have "M \<subseteq> U" using MF by (auto simp: U_def movable_def)
    have conv: "sizes st (filter P (managed False st)) = (\<Sum>k \<in> {k \<in> set (managed False st). P k}. so_size (owner st k))" for P
      using dist by (simp add: sum_list_distinct_conv_sum_set)
    have "{k \<in> set (managed False st). \<not> is_spilled (owner st k) \<and> k \<notin> M} = U - M" by (auto simp: U_def)
    then have "unspilled_bytes st' = (\<Sum>k \<in> U - M. so_size (owner st k))"
      using conv [of "\<lambda>k. \<not> is_spilled (owner st k) \<and> k \<notin> M"] by (simp add: unspilled_managed mgd keep sz)
    moreover have "unspilled_bytes st = (\<Sum>k \<in> U. so_size (owner st k))"
      using conv [of "\<lambda>k. \<not> is_spilled (owner st k)"] by (simp add: unspilled_managed U_def)
    moreover have "sizes st (take m F) = (\<Sum>k \<in> M. so_size (owner st k))"
      using distinct_managed [OF ok, of True] by (simp add: M_def F_def sum_list_distinct_conv_sum_set distinct_take)
    moreover have "(\<Sum>k \<in> U. so_size (owner st k)) = (\<Sum>k \<in> M. so_size (owner st k)) + (\<Sum>k \<in> U - M. so_size (owner st k))"
      using \<open>M \<subseteq> U\<close> by (subst sum.subset_diff [of M U]) (simp_all add: U_def)
    ultimately show ?thesis using all False s by (simp add: n_def)
  qed
qed

text \<open>The owners that a round can still move.\<close>

definition free_owners :: "'a spill_env \<Rightarrow> 'a spill_state \<Rightarrow> nat set" where
  "free_owners e st = {k \<in> set (managed False st). movable e st k}"

lemma free_after:
  assumes "after_moves M st st'"
  shows "free_owners e st' = free_owners e st - M"
proof -
  have "managed False st' = managed False st"
    using assms live_same [OF assms] by (simp add: managed_def after_moves_def cong: filter_cong)
  moreover have "movable e st' k \<longleftrightarrow> movable e st k \<and> k \<notin> M" for k
    using assms movable_after [OF assms, of k e] by (cases "k \<in> M") (auto simp: after_moves_def movable_def)
  ultimately show ?thesis by (auto simp: free_owners_def)
qed

lemma free_gc: "free_owners e (gc_collect e st) \<subseteq> free_owners e st"
proof
  fix k assume k: "k \<in> free_owners e (gc_collect e st)"
  have len: "length (sp_owners (gc_collect e st)) = length (sp_owners st)" "sp_buffers (gc_collect e st) = sp_buffers st"
    by (simp_all add: gc_collect_def)
  have "k < length (sp_owners st)" using k by (simp add: free_owners_def managed_live live_def len)
  then show "k \<in> free_owners e st"
    using k by (auto simp: free_owners_def managed_live live_def len owner_gc movable_def is_spilled_def spillable_def split: if_splits)
qed

lemma round_free:
  assumes ok: "manager_ok st"
  obtains M where "after_moves M st (snd (spill_device_memory e n st))" and "M \<subseteq> free_owners e st"
    and "fst (spill_device_memory e n st) = (\<Sum>k \<in> M. so_size (owner st k))"
    and "free_owners e st \<noteq> {} \<longrightarrow> M \<noteq> {} \<and> 0 < fst (spill_device_memory e n st)"
proof -
  define F where "F = filter (movable e st) (managed True st)"
  obtain m where mv: "after_moves (set (take m F)) st (snd (spill_device_memory e n st))"
    and s: "fst (spill_device_memory e n st) = sizes st (take m F)" and pos: "F \<noteq> [] \<Longrightarrow> 0 < m"
    using spill_device_memory_prefix [OF ok, of e n] unfolding F_def by metis
  have F: "distinct F" "set F = free_owners e st"
    using distinct_managed [OF ok, of True] by (auto simp: F_def managed_live free_owners_def)
  have sub: "set (take m F) \<subseteq> free_owners e st" using set_take_subset [of m F] F(2) by simp
  have sum: "fst (spill_device_memory e n st) = (\<Sum>k \<in> set (take m F). so_size (owner st k))"
    using F(1) by (simp add: s sum.distinct_set_conv_list distinct_take)
  have "set (take m F) \<noteq> {} \<and> 0 < fst (spill_device_memory e n st)" if ne: "free_owners e st \<noteq> {}"
  proof -
    obtain k where "k \<in> set (managed False st)" "movable e st k" using ne by (auto simp: free_owners_def)
    moreover have "F \<noteq> []" using ne F(2) by auto
    ultimately show ?thesis using spill_round_progress(1) [OF ok] pos by auto
  qed
  then show thesis using that [OF mv sub sum] by blast
qed

text \<open>One call of the callback.\<close>

lemma oom_handle_answer:
  assumes ok: "manager_ok st"
  shows "if free_owners e st = {}
     then \<not> fst (out_of_memory_handle e n r st) \<and> free_owners e (snd (out_of_memory_handle e n r st)) = {}
     else fst (out_of_memory_handle e n r st)
       \<and> (\<exists>M. M \<noteq> {} \<and> M \<subseteq> free_owners e st \<and> after_moves M st (snd (out_of_memory_handle e n r st)))"
  using ok
proof (induction e n r st rule: out_of_memory_handle.induct)
  case (1 e n r st)
  obtain M where M: "after_moves M st (snd (spill_device_memory e (int n) st))" "M \<subseteq> free_owners e st"
    "fst (spill_device_memory e (int n) st) = (\<Sum>k \<in> M. so_size (owner st k))"
    "free_owners e st \<noteq> {} \<longrightarrow> M \<noteq> {} \<and> 0 < fst (spill_device_memory e (int n) st)"
    by (rule round_free [OF 1(2)])
  obtain s st1 where r: "spill_device_memory e (int n) st = (s, st1)" by fastforce
  show ?case
  proof (cases "free_owners e st = {}")
    case False
    then have "out_of_memory_handle e n r st = (True, st1)"
      using M(4) by (subst out_of_memory_handle.simps) (simp add: r)
    then show ?thesis using False M(1,2,4) by (auto simp: r)
  next
    case True
    then have "M = {}" using M(2) by simp
    then have s: "s = 0" and free1: "free_owners e st1 = {}" using M(1,3) free_after [of M st st1 e] True by (simp_all add: r)
    have gc: "free_owners e (gc_collect e st1) = {}" using free_gc [of e st1] free1 by auto
    have "pressed st (gc_collect e st1)"
      using pressed_trans [OF round_pressed [OF 1(2), of e "int n"] gc_pressed [of _ e]] by (simp add: r)
    then have gok: "manager_ok (gc_collect e st1)" by (rule manager_pressed) (rule 1(2))
    have eq: "out_of_memory_handle e n r st = (if r then out_of_memory_handle e n False (gc_collect e st1) else (False, st1))"
      by (subst out_of_memory_handle.simps) (simp add: r s)
    show ?thesis
    proof (cases r)
      case True
      have one: "out_of_memory_handle e n r st = out_of_memory_handle e n False (gc_collect e st1)" using eq True by simp
      have "\<not> fst (out_of_memory_handle e n False (gc_collect e st1))
          \<and> free_owners e (snd (out_of_memory_handle e n False (gc_collect e st1))) = {}"
        using 1(1) [OF r [symmetric] refl _ True gok] s gc by simp
      then show ?thesis unfolding if_P [OF \<open>free_owners e st = {}\<close>] one .
    next
      case False
      have one: "out_of_memory_handle e n r st = (False, st1)" using eq False by simp
      show ?thesis unfolding if_P [OF \<open>free_owners e st = {}\<close>] one by (simp add: free1)
    qed
  qed
qed

lemma callbacks_end:
  "manager_ok st \<Longrightarrow> card (free_owners e st) \<le> i
   \<Longrightarrow> \<not> fst (out_of_memory_handle e n True (((\<lambda>s. snd (out_of_memory_handle e n True s)) ^^ i) st))"
proof (induction i arbitrary: st)
  case 0
  have "finite (free_owners e st)" by (simp add: free_owners_def)
  then have "free_owners e st = {}" using 0 by simp
  then show ?case using oom_handle_answer [OF 0(1), of e n True] by simp
next
  case (Suc i)
  define st1 where "st1 = snd (out_of_memory_handle e n True st)"
  have "manager_ok st1" using manager_pressed [OF oom_pressed [OF Suc(2)] Suc(2)] by (simp add: st1_def)
  moreover have "card (free_owners e st1) \<le> i"
  proof (cases "free_owners e st = {}")
    case True
    then show ?thesis using oom_handle_answer [OF Suc(2), of e n True] by (simp add: st1_def)
  next
    case False
    then obtain M where M: "M \<noteq> {}" "M \<subseteq> free_owners e st" "after_moves M st st1"
      using oom_handle_answer [OF Suc(2), of e n True] by (auto simp: st1_def)
    have "finite (free_owners e st)" by (simp add: free_owners_def)
    moreover have "free_owners e st1 \<subset> free_owners e st" using free_after [OF M(3), of e] M(1,2) by blast
    ultimately have "card (free_owners e st1) < card (free_owners e st)" by (rule psubset_card_mono)
    then show ?thesis using Suc(3) by linarith
  qed
  ultimately show ?case using Suc(1) [of st1] by (simp add: funpow_Suc_right st1_def del: funpow.simps)
qed

text \<open>C29: The failure callback tells the truth, and asking it again and again ends.
  \<open>_out_of_memory_handle\<close> answers True exactly when some managed owner can be moved (it is on the
  device, neither exposed nor locked for spilling, and its lock is free); it has then moved at least
  one of them to the host, of more than zero bytes together, and changed no other owner.  However often
  a memory resource calls it for an allocation, from the call on whose number is the number of movable
  owners every answer is False, also when garbage collections in between take owners.\<close>

theorem out_of_memory_ends:
  assumes ok: "manager_ok st"
  shows "(fst (out_of_memory_handle e n True st) \<longleftrightarrow> (\<exists>k \<in> set (managed False st). movable e st k))
     \<and> (fst (out_of_memory_handle e n True st) \<longrightarrow>
          (\<exists>M. M \<noteq> {} \<and> M \<subseteq> {k \<in> set (managed False st). movable e st k} \<and> 0 < (\<Sum>k \<in> M. so_size (owner st k))
             \<and> (\<forall>k. owner (snd (out_of_memory_handle e n True st)) k = (if k \<in> M then moved (owner st k) else owner st k))))
     \<and> (\<forall>i \<ge> card {k \<in> set (managed False st). movable e st k}.
          \<not> fst (out_of_memory_handle e n True (((\<lambda>s. snd (out_of_memory_handle e n True s)) ^^ i) st)))"
proof (intro conjI impI allI)
  note answer = oom_handle_answer [OF ok, of e n True]
  show "fst (out_of_memory_handle e n True st) \<longleftrightarrow> (\<exists>k \<in> set (managed False st). movable e st k)"
    using answer by (auto simp: free_owners_def split: if_splits)
  assume "fst (out_of_memory_handle e n True st)"
  then obtain M where M: "M \<noteq> {}" "M \<subseteq> free_owners e st" "after_moves M st (snd (out_of_memory_handle e n True st))"
    using answer by (auto split: if_splits)
  have fin: "finite M" using M(2) finite_subset by (fastforce simp: free_owners_def)
  have size: "0 < so_size (owner st k)" if "k \<in> M" for k
    using that M(2) ok by (auto simp: free_owners_def managed_live manager_ok_def)
  obtain k where "k \<in> M" using M(1) by blast
  then have "0 < (\<Sum>k \<in> M. so_size (owner st k))" using fin size by (meson sum_pos2 zero_le)
  then show "\<exists>M. M \<noteq> {} \<and> M \<subseteq> {k \<in> set (managed False st). movable e st k} \<and> 0 < (\<Sum>k \<in> M. so_size (owner st k))
             \<and> (\<forall>k. owner (snd (out_of_memory_handle e n True st)) k = (if k \<in> M then moved (owner st k) else owner st k))"
    using M by (auto simp: free_owners_def after_moves_def)
next
  fix i assume "card {k \<in> set (managed False st). movable e st k} \<le> i"
  then show "\<not> fst (out_of_memory_handle e n True (((\<lambda>s. snd (out_of_memory_handle e n True s)) ^^ i) st))"
    using callbacks_end [OF ok, of e i n] by (simp add: free_owners_def)
qed

lemma allocate_fails:
  "(\<And>s. env_device e s n = None) \<Longrightarrow> \<exists>st'. device_allocate e n st = (st', Inl MemoryError)"
  by (simp add: device_allocate_def of_option_def)

text \<open>A failed move back to the device loses the data.  When the device cannot serve the
  allocation, \<open>spill("gpu")\<close> of a spilled owner raises MemoryError after it has popped the host
  copy: the owner still says it is spilled, its bytes are gone, and moving it back again raises
  KeyError.\<close>

theorem unspill_failure_loses_data:
  assumes ok: "state_ok st" and k: "k < length (sp_owners st)" and h: "is_spilled (owner st k)" "so_host (owner st k) = Some h"
    and dev: "\<And>s. env_device e s (length h) = None"
  shows "\<exists>st'. spill e k Gpu st = (st', Inl MemoryError) \<and> is_spilled (owner st' k)
    \<and> owner_bytes (owner st' k) = None \<and> spill e k Gpu st' = (st', Inl KeyError)"
proof -
  have c: "so_place (owner st k) = Cpu" using state_okD [OF ok k] h by (auto simp: owner_ok_def is_spilled_def)
  obtain st1 where al: "device_allocate e (length h) (put_owner k ((owner st k)\<lparr>so_host := None\<rparr>) st) = (st1, Inl MemoryError)"
    using allocate_fails [of e "length h"] dev by blast
  obtain a where o: "owner st1 k = (owner st k)\<lparr>so_host := None, so_alive := a\<rparr>"
    using unspill_evolves(1) [OF ok k c h(2) al] by blast
  have sp: "spill e k Gpu st = (st1, Inl MemoryError)" using c h(2) al by (simp add: spill_Gpu_eq [OF ok k])
  have "evolves (allocations_succeed e) st st1" by (rule unspill_evolves(2) [OF ok k c h(2) al refl])
  from spill_Gpu_eq [OF evolvesD(1,2) [OF this k], of e] o c
  have "spill e k Gpu st1 = (st1, Inl KeyError)" by simp
  then show ?thesis using sp o c by (simp add: is_spilled_def owner_bytes_def)
qed

section \<open>Concrete states\<close>

text \<open>A state with three owners: one on the device, one exposed there and one on the host; the
  environments serve every allocation or none.\<close>

definition device_owner :: "int \<Rightarrow> nat list \<Rightarrow> bool \<Rightarrow> int \<Rightarrow> nat spill_owner" where
  "device_owner p data x t = \<lparr>so_ptr = p, so_size = length data, so_place = Gpu, so_host = None, so_device = data,
     so_exposed = x, so_locks = [], so_accessed = t, so_alive = True\<rparr>"

definition three_owners :: "nat spill_state" where
  "three_owners = \<lparr>sp_owners = [device_owner 64 [1, 2, 3] False 5, device_owner 128 [4, 5] True 6,
       moved (device_owner 192 [7] False 7)],
     sp_buffers = [0, 1, 2], sp_limit = None,
     sp_stats = \<lparr>st_level = 0, st_totals = [], st_exposes = []\<rparr>, sp_now = 8\<rparr>"

definition fixed_env :: "int option \<Rightarrow> nat spill_env" where
  "fixed_env p = \<lparr>env_device = (\<lambda>_ _. p), env_calls = (\<lambda>_ _. 2), env_dead = (\<lambda>_ _. False), env_busy = (\<lambda>_. False),
     env_elapsed = (\<lambda>_. 1), env_traceback = []\<rparr>"

lemma three_owners_ok: "state_ok three_owners"
  by (simp add: state_ok_def manager_ok_def three_owners_def device_owner_def owner_def owner_ok_def moved_def
      less_Suc_eq numeral_3_eq_3 numeral_2_eq_2)

lemma three_owners_managed: "managed False three_owners = [0, 1, 2]"
  by (simp add: managed_def three_owners_def live_def owner_def device_owner_def moved_def Let_def numeral_2_eq_2)

lemma three_owners_movable: "movable (fixed_env p) three_owners 0"
  by (simp add: movable_def fixed_env_def three_owners_def owner_def device_owner_def is_spilled_def spillable_def)

definition idle_owners :: "nat spill_state" where
  "idle_owners = three_owners\<lparr>sp_owners := [device_owner 64 [1, 2, 3] False 5, device_owner 128 [4, 5] False 3,
     device_owner 192 [7] False 9]\<rparr>"

lemma idle_owners_ok: "manager_ok idle_owners"
  by (simp add: manager_ok_def idle_owners_def three_owners_def device_owner_def owner_def less_Suc_eq numeral_3_eq_3 numeral_2_eq_2)

lemma idle_owners_free: "{k \<in> set (managed False idle_owners). movable (fixed_env p) idle_owners k} = {0, 1, 2}"
proof -
  have m: "managed False idle_owners = [0, 1, 2]"
    by (simp add: managed_def idle_owners_def three_owners_def live_def owner_def device_owner_def Let_def numeral_2_eq_2)
  have "movable (fixed_env p) idle_owners k" if "k \<in> {0, 1, 2}" for k
    using that by (auto simp: movable_def idle_owners_def fixed_env_def owner_def device_owner_def is_spilled_def
        spillable_def numeral_2_eq_2)
  then show ?thesis unfolding m by auto
qed

lemma spill_round_lru_witness:
  "\<exists>M \<subseteq> {0, 1, 2}. fst (spill_device_memory (fixed_env None) 3 idle_owners) = (\<Sum>k \<in> M. so_size (owner idle_owners k))
     \<and> (int (fst (spill_device_memory (fixed_env None) 3 idle_owners)) < 3 \<longrightarrow> M = {0, 1, 2})
     \<and> (\<exists>k \<in> M. (\<forall>j \<in> M. so_accessed (owner idle_owners j) \<le> so_accessed (owner idle_owners k))
          \<and> (M = {k} \<or> int (\<Sum>j \<in> M - {k}. so_size (owner idle_owners j)) < 3))"
proof -
  have ne: "{0, 1, 2 :: nat} \<noteq> {}" by simp
  obtain M where M: "M \<subseteq> {0, 1, 2}"
    "fst (spill_device_memory (fixed_env None) 3 idle_owners) = (\<Sum>k \<in> M. so_size (owner idle_owners k))"
    "int (fst (spill_device_memory (fixed_env None) 3 idle_owners)) < 3 \<longrightarrow> M = {0, 1, 2}"
    "\<exists>k \<in> M. (\<forall>j \<in> M. so_accessed (owner idle_owners j) \<le> so_accessed (owner idle_owners k))
          \<and> (M = {k} \<or> int (\<Sum>j \<in> M - {k}. so_size (owner idle_owners j)) < 3)"
    using spill_round_lru [OF idle_owners_ok surjective_pairing, of "fixed_env None" 3, unfolded idle_owners_free if_not_P [OF ne]]
    by (elim exE conjE) (rule that)
  then show ?thesis by (intro exI [of _ M] conjI)
qed

lemma spill_limit_moves_below_limit_witness:
  "0 < fst (spill_to_device_limit (fixed_env None) (Some 1000) three_owners) \<and> unspilled_bytes three_owners = 5"
  using spill_limit_moves_below_limit [OF three_owners_ok [unfolded state_ok_def, THEN conjunct1], of 0 "fixed_env None" 1000]
  by (simp add: three_owners_managed three_owners_movable unspilled_bytes_def)
    (simp add: three_owners_def owner_def device_owner_def moved_def is_spilled_def)

lemma spill_limit_reached_witness:
  "let st' = snd (spill_to_device_limit (fixed_env None) (Some 2) three_owners)
   in int (unspilled_bytes st') \<le> 2 \<or> \<not> (\<exists>k \<in> set (managed False st'). movable (fixed_env None) st' k)"
  unfolding Let_def
  by (rule spill_limit_reached [OF three_owners_ok [unfolded state_ok_def, THEN conjunct1] surjective_pairing])

lemma spill_pointer_stable_witness:
  "let st' = run (spill_step (fixed_env (Some 256))) three_owners [SvLimit (Some 0), SvMove 1 Cpu, SvPtr 2, SvGc] in
    state_ok st' \<and> so_place (owner st' 1) = Gpu \<and> so_ptr (owner st' 1) = so_ptr (owner three_owners 1)
    \<and> so_device (owner st' 1) = so_device (owner three_owners 1)"
  by (rule spill_pointer_stable [OF three_owners_ok]) (simp_all add: three_owners_def owner_def device_owner_def)

lemma spill_preserves_data_witness:
  "state_ok (run (spill_step (fixed_env (Some 256))) three_owners [SvMove 0 Cpu, SvView 0 1 None, SvPtr 0])
    \<and> (if allocations_succeed (fixed_env (Some 256))
       then owner_bytes (owner (run (spill_step (fixed_env (Some 256))) three_owners [SvMove 0 Cpu, SvView 0 1 None, SvPtr 0]) 0)
         = Some [1, 2, 3]
       else owner_bytes (owner (run (spill_step (fixed_env (Some 256))) three_owners [SvMove 0 Cpu, SvView 0 1 None, SvPtr 0]) 0)
         \<in> {Some [1, 2, 3], None})"
  by (rule spill_preserves_data [OF three_owners_ok]) (simp_all add: three_owners_def owner_def device_owner_def owner_bytes_def)

lemma three_owners_free: "{k \<in> set (managed False three_owners). movable (fixed_env p) three_owners k} = {0}"
  by (auto simp: three_owners_managed movable_def)
    (simp_all add: fixed_env_def three_owners_def owner_def device_owner_def is_spilled_def spillable_def moved_def)

lemma out_of_memory_ends_witness:
  "fst (out_of_memory_handle (fixed_env None) 7 True three_owners)
     \<and> \<not> fst (out_of_memory_handle (fixed_env None) 7 True (snd (out_of_memory_handle (fixed_env None) 7 True three_owners)))"
proof -
  note all = out_of_memory_ends [OF three_owners_ok [unfolded state_ok_def, THEN conjunct1], of "fixed_env None" 7,
      unfolded three_owners_free]
  have "\<forall>i \<ge> 1. \<not> fst (out_of_memory_handle (fixed_env None) 7 True
      (((\<lambda>s. snd (out_of_memory_handle (fixed_env None) 7 True s)) ^^ i) three_owners))"
    using all by simp
  then have "\<not> fst (out_of_memory_handle (fixed_env None) 7 True
      (((\<lambda>s. snd (out_of_memory_handle (fixed_env None) 7 True s)) ^^ 1) three_owners))" by blast
  moreover have "\<exists>k \<in> set (managed False three_owners). movable (fixed_env None) three_owners k"
    using three_owners_movable by (auto simp: three_owners_managed)
  then have "fst (out_of_memory_handle (fixed_env None) 7 True three_owners)" using all by blast
  ultimately show ?thesis by simp
qed

lemma unspill_failure_loses_data_witness:
  "\<exists>st'. spill (fixed_env None) 2 Gpu three_owners = (st', Inl MemoryError) \<and> is_spilled (owner st' 2)
    \<and> owner_bytes (owner st' 2) = None \<and> spill (fixed_env None) 2 Gpu st' = (st', Inl KeyError)"
  by (rule unspill_failure_loses_data [OF three_owners_ok])
    (simp_all add: three_owners_def owner_def device_owner_def is_spilled_def moved_def fixed_env_def)

end
