(* ===== verification/TraversalModel.thy ===== *)
theory TraversalModel
  imports Prelude "HOL-Library.Multiset"
begin

text \<open>
  Nodes of the cudf-polars plans and expressions (\<open>cudf_polars/dsl/nodebase.py\<close>) and their
  traversals (\<open>cudf_polars/dsl/traversal.py\<close>).  A node carries its class and non-child
  constructor arguments as one label, and its children; nodes are immutable and their
  equality is structural, so a plan is a finite tree in which equal subtrees are one shared
  node.
\<close>

section \<open>Nodes\<close>

datatype 'a node = Node (label: 'a) (children: "'a node list")

definition reconstruct :: "'a node \<Rightarrow> 'a node list \<Rightarrow> 'a node" where
  "reconstruct n cs = Node (label n) cs"

text \<open>\<open>__eq__\<close>: same type and constructor arguments.\<close>

fun node_eq :: "'a node \<Rightarrow> 'a node \<Rightarrow> bool" where
  "node_eq (Node a xs) (Node b ys) \<longleftrightarrow> a = b \<and> list_all2 node_eq xs ys"

fun subnodes :: "'a node \<Rightarrow> 'a node set" where
  "subnodes (Node a cs) = insert (Node a cs) (\<Union>c \<in> set cs. subnodes c)"

section \<open>Traversals\<close>

text \<open>Appending to the stack, whose top is the head of the list, the nodes not seen yet.\<close>

fun push_new :: "'a node list \<Rightarrow> 'a node list \<Rightarrow> 'a node list \<Rightarrow> 'a node list \<times> 'a node list" where
  "push_new [] seen lifo = (seen, lifo)"
| "push_new (n # ns) seen lifo =
     (if n \<in> set seen then push_new ns seen lifo else push_new ns (n # seen) (n # lifo))"

lemma child_size: "c \<in> set (children n) \<Longrightarrow> size c < size n"
  by (cases n) (auto simp: less_Suc_eq_le intro: size_list_estimation')

lemma push_new_spec:
  "push_new ns seen lifo = (seen', lifo') \<Longrightarrow>
   \<exists>new. seen' = new @ seen \<and> lifo' = new @ lifo \<and> distinct new \<and> set new = set ns - set seen"
proof (induction ns seen lifo rule: push_new.induct)
  case (1 seen lifo)
  then show ?case by simp
next
  case (2 n ns seen lifo)
  show ?case
  proof (cases "n \<in> set seen")
    case True
    then show ?thesis using 2(1) [OF True] 2(3) by auto
  next
    case False
    then obtain new where "seen' = new @ n # seen" "lifo' = new @ n # lifo" "distinct new"
      "set new = set ns - set (n # seen)"
      using 2(2) [OF False] 2(3) by auto
    then show ?thesis using False by (intro exI [of _ "new @ [n]"]) auto
  qed
qed

lemma sum_set_le_sum_list: "(\<Sum>c \<in> set xs. f c) \<le> sum_list (map f xs)" for f :: "'b \<Rightarrow> nat"
  by (induction xs) (auto simp: sum.insert_if)

lemma new_children_size:
  assumes "distinct new" and "set new \<subseteq> set (children n)"
  shows "sum_list (map size new) < size n"
proof -
  have "sum_list (map size new) = (\<Sum>c \<in> set new. size c)"
    using assms(1) by (simp add: sum_list_distinct_conv_sum_set)
  also have "\<dots> \<le> (\<Sum>c \<in> set (children n). size c)" using assms(2) by (intro sum_mono2) auto
  also have "\<dots> \<le> sum_list (map size (children n))"
    by (rule sum_set_le_sum_list)
  also have "\<dots> < size n" by (cases n) (simp add: size_list_conv_sum_list)
  finally show ?thesis .
qed

function pre_loop :: "'a node list \<Rightarrow> 'a node list \<Rightarrow> 'a node list" where
  "pre_loop seen [] = []"
| "pre_loop seen (node # lifo) =
     (let (seen', lifo') = push_new (rev (children node)) seen lifo in node # pre_loop seen' lifo')"
  by pat_completeness auto
termination
proof (relation "measure (\<lambda>(seen, lifo). sum_list (map size lifo))", simp)
  fix seen :: "'a node list" and node lifo x seen' lifo'
  assume x: "x = push_new (rev (children node)) seen lifo" "(seen', lifo') = x"
  obtain new where "lifo' = new @ lifo" "distinct new" "set new = set (children node) - set seen"
    using push_new_spec [OF x(2) [unfolded x(1), symmetric]] by auto
  then show "((seen', lifo'), seen, node # lifo) \<in> measure (\<lambda>(seen, lifo). sum_list (map size lifo))"
    using new_children_size [of new node] by auto
qed

definition traversal :: "'a node list \<Rightarrow> 'a node list" where
  "traversal nodes = (let (seen, lifo) = push_new nodes [] [] in pre_loop seen lifo)"

text \<open>The nodes below a stack; the loop of the post-order traversal only pushes such nodes, each
  once.\<close>

definition below :: "'a node list \<Rightarrow> 'a node set" where
  "below lifo = (\<Union>n \<in> set lifo. subnodes n)"

lemma finite_subnodes [simp]: "finite (subnodes n)"
  by (induction n) auto

lemma finite_below [simp]: "finite (below lifo)"
  by (simp add: below_def)

lemma subnodes_self [simp]: "n \<in> subnodes n"
  by (cases n) simp

lemma subnodes_child: "c \<in> set (children n) \<Longrightarrow> subnodes c \<subseteq> subnodes n"
  by (cases n) auto

lemma below_child: "c \<in> set (children n) \<Longrightarrow> below (c # n # lifo) = below (n # lifo)"
  using subnodes_child [of c n] by (auto simp: below_def)

function post_loop :: "'a node list \<Rightarrow> 'a node list \<Rightarrow> 'a node list" where
  "post_loop seen [] = []"
| "post_loop seen (node # lifo) =
     (case find (\<lambda>c. c \<notin> set seen) (children node) of
        Some child \<Rightarrow> post_loop (child # seen) (child # node # lifo)
      | None \<Rightarrow> node # post_loop seen lifo)"
  by pat_completeness auto
termination
proof (relation "measures [\<lambda>(seen, lifo). card (below lifo - set seen), \<lambda>(seen, lifo). length lifo]", simp)
  fix seen :: "'a node list" and node lifo child
  assume f: "find (\<lambda>c. c \<notin> set seen) (children node) = Some child"
  then have c: "child \<in> set (children node)" "child \<notin> set seen" by (auto simp: find_Some_iff)
  have "child \<in> below (node # lifo) - set seen"
    using subnodes_child [OF c(1)] c(2) subnodes_self [of child] by (auto simp: below_def)
  then have "card (below (node # lifo) - set seen - {child}) < card (below (node # lifo) - set seen)"
    by (intro card_Diff1_less) simp_all
  moreover have "below (child # node # lifo) - set (child # seen) = below (node # lifo) - set seen - {child}"
    unfolding below_child [OF c(1)] by auto
  ultimately show "((child # seen, child # node # lifo), seen, node # lifo)
      \<in> measures [\<lambda>(seen, lifo). card (below lifo - set seen), \<lambda>(seen, lifo). length lifo]"
    by simp
next
  fix seen :: "'a node list" and node lifo
  have "card (below lifo - set seen) \<le> card (below (node # lifo) - set seen)"
    by (rule card_mono) (auto simp: below_def)
  then show "((seen, lifo), seen, node # lifo)
      \<in> measures [\<lambda>(seen, lifo). card (below lifo - set seen), \<lambda>(seen, lifo). length lifo]"
    by auto
qed

definition post_traversal :: "'a node list \<Rightarrow> 'a node list" where
  "post_traversal nodes = (let (seen, lifo) = push_new nodes [] [] in post_loop seen lifo)"

text \<open>\<open>collect_refcount\<close>: a \<open>Counter\<close> of the roots, updated with the children of every node.\<close>

definition counter_add :: "('k, nat) pydict \<Rightarrow> 'k \<Rightarrow> ('k, nat) pydict" where
  "counter_add d k = dset k ((case map_of d k of None \<Rightarrow> 0 | Some n \<Rightarrow> n) + 1) d"

definition collect_refcount :: "'a node list \<Rightarrow> ('a node, nat) pydict" where
  "collect_refcount nodes =
     foldl (\<lambda>d node. foldl counter_add d (children node)) (foldl counter_add [] nodes) (traversal nodes)"

definition reuse_if_unchanged :: "('a node \<Rightarrow> 'a node) \<Rightarrow> 'a node \<Rightarrow> 'a node" where
  "reuse_if_unchanged fn node =
     (let new_children = map fn (children node)
      in if list_all2 node_eq new_children (children node) then node else reconstruct node new_children)"

section \<open>What the traversals yield\<close>

lemma node_eq_iff: "node_eq m n \<longleftrightarrow> m = n"
proof (induction m n rule: node_eq.induct)
  case (1 a xs b ys)
  have "list_all2 node_eq xs ys \<longleftrightarrow> xs = ys"
  proof
    assume "list_all2 node_eq xs ys"
    then show "xs = ys" using 1 by (auto simp: list_all2_conv_all_nth intro!: nth_equalityI)
  next
    assume "xs = ys"
    then show "list_all2 node_eq xs ys" using 1 by (auto simp: list_all2_conv_all_nth)
  qed
  then show ?case by simp
qed

text \<open>The invariant of both loops: the stack has no duplicates and is among the nodes seen, and
  the children of the nodes already yielded have been seen.\<close>

definition stack_ok :: "'a node list \<Rightarrow> 'a node list \<Rightarrow> bool" where
  "stack_ok seen lifo \<longleftrightarrow> distinct lifo \<and> set lifo \<subseteq> set seen
     \<and> (\<forall>n \<in> set seen - set lifo. set (children n) \<subseteq> set seen)"

text \<open>What the rest of a traversal yields.\<close>

definition yields :: "'a node list \<Rightarrow> 'a node list \<Rightarrow> 'a node list \<Rightarrow> bool" where
  "yields seen lifo ys \<longleftrightarrow>
     distinct ys \<and> set ys \<inter> (set seen - set lifo) = {} \<and> set lifo \<subseteq> set ys \<and> set ys \<subseteq> below lifo
     \<and> (\<forall>n \<in> set ys. set (children n) \<subseteq> set ys \<union> (set seen - set lifo))"

lemma pre_loop_yields: "stack_ok seen lifo \<Longrightarrow> yields seen lifo (pre_loop seen lifo)"
proof (induction seen lifo rule: pre_loop.induct)
  case (1 seen)
  then show ?case by (simp add: yields_def)
next
  case (2 seen node lifo)
  obtain seen' lifo' where p: "push_new (rev (children node)) seen lifo = (seen', lifo')" by fastforce
  obtain new where new: "seen' = new @ seen" "lifo' = new @ lifo" "distinct new" "set new = set (children node) - set seen"
    using push_new_spec [OF p] by auto
  have ok: "distinct (node # lifo)" "set (node # lifo) \<subseteq> set seen"
    "\<And>n. n \<in> set seen \<Longrightarrow> n \<notin> set (node # lifo) \<Longrightarrow> set (children n) \<subseteq> set seen"
    using 2(2) by (auto simp: stack_ok_def)
  have "stack_ok seen' lifo'"
    unfolding stack_ok_def
  proof (intro conjI ballI)
    show "distinct lifo'" "set lifo' \<subseteq> set seen'" using ok new by auto
    show "set (children n) \<subseteq> set seen'" if "n \<in> set seen' - set lifo'" for n
      using that ok(3) [of n] new by (cases "n = node") auto
  qed
  from 2(1) [OF p [symmetric] refl this] have IH: "yields seen' lifo' (pre_loop seen' lifo')" .
  have nn: "node \<notin> set new" using child_size [of node node] new(4) by auto
  have D: "set seen' - set lifo' = insert node (set seen - set (node # lifo))" using ok new nn by auto
  have "below lifo' \<subseteq> below (node # lifo)"
    using new(2,4) subnodes_child [of _ node] by (fastforce simp: below_def)
  then show ?case
    using IH D ok new nn by (simp add: p yields_def below_def) blast
qed

lemma find_unseen:
  "find (\<lambda>c. c \<notin> set seen) cs = Some c \<Longrightarrow> c \<in> set cs \<and> c \<notin> set seen"
  "find (\<lambda>c. c \<notin> set seen) cs = None \<Longrightarrow> set cs \<subseteq> set seen"
  by (auto simp: find_Some_iff find_None_iff)

lemma stack_ok_push:
  "stack_ok seen lifo \<Longrightarrow> c \<notin> set seen \<Longrightarrow> stack_ok (c # seen) (c # lifo)"
  unfolding stack_ok_def by auto

lemma stack_ok_pop:
  assumes "stack_ok seen (node # lifo)" and "set (children node) \<subseteq> set seen"
  shows "stack_ok seen lifo"
  unfolding stack_ok_def
proof (intro conjI ballI)
  show "distinct lifo" "set lifo \<subseteq> set seen" using assms(1) by (auto simp: stack_ok_def)
  show "set (children n) \<subseteq> set seen" if "n \<in> set seen - set lifo" for n
    using assms that by (cases "n = node") (auto simp: stack_ok_def)
qed

lemma post_loop_yields: "stack_ok seen lifo \<Longrightarrow> yields seen lifo (post_loop seen lifo)"
proof (induction seen lifo rule: post_loop.induct)
  case (1 seen)
  then show ?case by (simp add: yields_def)
next
  case (2 seen node lifo)
  show ?case
  proof (cases "find (\<lambda>c. c \<notin> set seen) (children node)")
    case None
    have ch: "set (children node) \<subseteq> set seen" by (rule find_unseen(2) [OF None])
    have IH: "yields seen lifo (post_loop seen lifo)" by (rule 2(1) [OF None stack_ok_pop [OF 2(3) ch]])
    have D: "set seen - set lifo = insert node (set seen - set (node # lifo))" "node \<notin> set lifo"
      using 2(3) by (auto simp: stack_ok_def)
    have "set (children node) \<subseteq> set (post_loop seen lifo) \<union> (set seen - set (node # lifo))"
      using ch IH child_size [of node node] unfolding yields_def by (auto simp: D)
    then show ?thesis using IH D subnodes_self [of node] by (auto simp: None yields_def below_def)
  next
    case (Some child)
    note c = find_unseen(1) [OF Some, THEN conjunct1] find_unseen(1) [OF Some, THEN conjunct2]
    have IH: "yields (child # seen) (child # node # lifo) (post_loop (child # seen) (child # node # lifo))"
      by (rule 2(2) [OF Some stack_ok_push [OF 2(3) c(2)]])
    have "set (child # seen) - set (child # node # lifo) = set seen - set (node # lifo)" using c(2) by auto
    then show ?thesis using IH unfolding yields_def below_child [OF c(1)] by (simp add: Some)
  qed
qed

lemma push_roots:
  assumes "push_new nodes [] [] = (seen, lifo)"
  shows "seen = lifo" "distinct lifo" "set lifo = set nodes"
  using push_new_spec [OF assms] by auto

lemma subnodes_closed:
  "n \<in> S \<Longrightarrow> (\<And>m. m \<in> S \<Longrightarrow> set (children m) \<subseteq> S) \<Longrightarrow> subnodes n \<subseteq> S"
proof (induction n)
  case (Node a cs)
  have "set cs \<subseteq> S" using Node.prems(2) [OF Node.prems(1)] by simp
  then show ?case using Node by auto
qed

lemma yields_all:
  assumes "yields lifo lifo ys"
  shows "distinct ys" and "set ys = below lifo"
proof -
  show "distinct ys" using assms by (simp add: yields_def)
  have "subnodes n \<subseteq> set ys" if "n \<in> set lifo" for n
    using assms that by (intro subnodes_closed) (auto simp: yields_def)
  then show "set ys = below lifo" using assms by (auto simp: yields_def below_def)
qed

text \<open>Both traversals yield every node below the roots exactly once.\<close>

lemma traversal_yields: "distinct (traversal nodes) \<and> set (traversal nodes) = below nodes"
proof -
  obtain seen lifo where p: "push_new nodes [] [] = (seen, lifo)" by fastforce
  have "stack_ok lifo lifo" using push_roots [OF p] by (simp add: stack_ok_def)
  from yields_all [OF pre_loop_yields [OF this]] show ?thesis
    using push_roots [OF p] by (simp add: traversal_def p below_def)
qed

lemma post_traversal_yields: "distinct (post_traversal nodes) \<and> set (post_traversal nodes) = below nodes"
proof -
  obtain seen lifo where p: "push_new nodes [] [] = (seen, lifo)" by fastforce
  have "stack_ok lifo lifo" using push_roots [OF p] by (simp add: stack_ok_def)
  from yields_all [OF post_loop_yields [OF this]] show ?thesis
    using push_roots [OF p] by (simp add: post_traversal_def p below_def)
qed

section \<open>Children first\<close>

text \<open>With one root the stack of the post-order traversal is a path in the tree, so no node below
  the top can be one of its children.\<close>

fun is_path :: "'a node list \<Rightarrow> bool" where
  "is_path (c # n # lifo) \<longleftrightarrow> c \<in> set (children n) \<and> is_path (n # lifo)"
| "is_path _ \<longleftrightarrow> True"

fun children_first :: "'a node set \<Rightarrow> 'a node list \<Rightarrow> bool" where
  "children_first D [] \<longleftrightarrow> True"
| "children_first D (n # ns) \<longleftrightarrow> set (children n) \<subseteq> D \<and> children_first (insert n D) ns"

lemma path_sizes: "is_path (n # lifo) \<Longrightarrow> m \<in> set lifo \<Longrightarrow> size n < size m"
  by (induction "n # lifo" arbitrary: n lifo rule: is_path.induct) (auto dest: child_size intro: less_trans)

lemma path_tail: "is_path (n # lifo) \<Longrightarrow> is_path lifo"
  by (cases lifo) auto

lemma post_loop_children_first:
  "stack_ok seen lifo \<Longrightarrow> is_path lifo \<Longrightarrow> children_first (set seen - set lifo) (post_loop seen lifo)"
proof (induction seen lifo rule: post_loop.induct)
  case (1 seen)
  then show ?case by simp
next
  case (2 seen node lifo)
  show ?case
  proof (cases "find (\<lambda>c. c \<notin> set seen) (children node)")
    case None
    have ch: "set (children node) \<subseteq> set seen" by (rule find_unseen(2) [OF None])
    have D: "set seen - set lifo = insert node (set seen - set (node # lifo))"
      using 2(3) by (auto simp: stack_ok_def)
    have "c \<notin> set (node # lifo)" if "c \<in> set (children node)" for c
      using child_size [OF that] path_sizes [OF 2(4), of c] by auto
    then have "set (children node) \<subseteq> set seen - set (node # lifo)" using ch by blast
    then show ?thesis
      using 2(1) [OF None stack_ok_pop [OF 2(3) ch] path_tail [OF 2(4)]] by (simp add: None D)
  next
    case (Some child)
    note c = find_unseen(1) [OF Some, THEN conjunct1] find_unseen(1) [OF Some, THEN conjunct2]
    have "is_path (child # node # lifo)" using c(1) 2(4) by simp
    from 2(2) [OF Some stack_ok_push [OF 2(3) c(2)] this]
    have "children_first (set (child # seen) - set (child # node # lifo)) (post_loop (child # seen) (child # node # lifo))" .
    moreover have "set (child # seen) - set (child # node # lifo) = set seen - set (node # lifo)" using c(2) by auto
    ultimately show ?thesis by (simp add: Some)
  qed
qed

lemma children_first_nth:
  "children_first D ns \<Longrightarrow> i < length ns \<Longrightarrow> set (children (ns ! i)) \<subseteq> D \<union> set (take i ns)"
proof (induction ns arbitrary: D i)
  case (Cons n ns)
  then show ?case by (cases i) fastforce+
qed simp

text \<open>The post-order traversal of a plan yields every node of it exactly once, and every node
  after all of its children; a reversed post-order therefore visits every consumer of a
  shared node before the node.\<close>

theorem post_traversal_children_first:
  "distinct (post_traversal [root]) \<and> set (post_traversal [root]) = subnodes root
   \<and> (\<forall>i < length (post_traversal [root]).
         set (children (post_traversal [root] ! i)) \<subseteq> set (take i (post_traversal [root])))"
proof -
  have "children_first {} (post_loop [root] [root])"
    using post_loop_children_first [of "[root]" "[root]"] by (simp add: stack_ok_def)
  then show ?thesis
    using post_traversal_yields [of "[root]"] children_first_nth [of "{}"]
    by (auto simp: post_traversal_def below_def)
qed

lemma post_traversal_children_first_witness:
  "post_traversal [Node (2 :: nat) [Node 0 [], Node 1 [Node 0 []]]]
       = [Node 0 [], Node 1 [Node 0 []], Node 2 [Node 0 [], Node 1 [Node 0 []]]]
   \<and> set (children (Node (1 :: nat) [Node 0 []]))
       \<subseteq> set (take 1 (post_traversal [Node (2 :: nat) [Node 0 [], Node 1 [Node 0 []]]]))"
proof -
  have t: "post_traversal [Node (2 :: nat) [Node 0 [], Node 1 [Node 0 []]]]
       = [Node 0 [], Node 1 [Node 0 []], Node 2 [Node 0 [], Node 1 [Node 0 []]]]"
    by (simp add: post_traversal_def)
  have "\<forall>i < length (post_traversal [Node (2 :: nat) [Node 0 [], Node 1 [Node 0 []]]]).
      set (children (post_traversal [Node (2 :: nat) [Node 0 [], Node 1 [Node 0 []]]] ! i))
        \<subseteq> set (take i (post_traversal [Node (2 :: nat) [Node 0 [], Node 1 [Node 0 []]]]))"
    using post_traversal_children_first [of "Node (2 :: nat) [Node 0 [], Node 1 [Node 0 []]]"] by blast
  from this [rule_format, of 1] t show ?thesis by simp
qed

text \<open>Both traversals of several roots yield every node below them exactly once and nothing
  else; but with shared nodes the orders their documentation promises fail: in a pre-order
  traversal a node may come before a parent, and with several roots a node may come before
  its child in a post-order traversal.\<close>

theorem traversals_yield_once:
  "distinct (traversal nodes) \<and> set (traversal nodes) = below nodes
    \<and> distinct (post_traversal nodes) \<and> set (post_traversal nodes) = below nodes
    \<and> traversal [Node (2 :: nat) [Node 0 [], Node 1 [Node 0 []]]]
       = [Node 2 [Node 0 [], Node 1 [Node 0 []]], Node 0 [], Node 1 [Node 0 []]]
    \<and> post_traversal [Node (0 :: nat) [], Node 1 [Node 0 []]] = [Node 1 [Node 0 []], Node 0 []]"
  using traversal_yields [of nodes] post_traversal_yields [of nodes]
  by (simp add: traversal_def post_traversal_def)

section \<open>Reference counts\<close>

definition count_of :: "('k, nat) pydict \<Rightarrow> 'k \<Rightarrow> nat" where
  "count_of d k = (case map_of d k of None \<Rightarrow> 0 | Some n \<Rightarrow> n)"

lemma count_add: "count_of (counter_add d k) j = count_of d j + (if j = k then 1 else 0)"
  by (simp add: count_of_def counter_add_def update_conv')

lemma count_fold: "count_of (foldl counter_add d ks) j = count_of d j + count_list ks j"
  by (induction ks arbitrary: d) (simp_all add: count_add)

lemma count_fold_children:
  "count_of (foldl (\<lambda>d n. foldl counter_add d (children n)) d ns) j
     = count_of d j + sum_list (map (\<lambda>n. count_list (children n) j) ns)"
  by (induction ns arbitrary: d) (simp_all add: count_fold)

text \<open>C37: the reference count of a node is the number of times it is a root plus the number of
  times it occurs as a child of the distinct nodes of the plan, however often those are
  reached.\<close>

theorem refcount_counts_edges:
  "count_of (collect_refcount nodes) n = count_list nodes n + (\<Sum>p \<in> below nodes. count_list (children p) n)"
  using traversal_yields [of nodes]
  by (simp add: collect_refcount_def count_fold_children count_fold sum_list_distinct_conv_sum_set)
    (simp add: count_of_def)

section \<open>Recursive visitors\<close>

text \<open>A visitor is a function free of side effects that may call the recursion: it returns a value,
  or asks for the value of some input and goes on with it.\<close>

datatype ('u, 'v) visit = Result 'v | Visit 'u "'v \<Rightarrow> ('u, 'v) visit"

primrec drive :: "('u \<Rightarrow> 'v option) \<Rightarrow> ('u, 'v) visit \<Rightarrow> 'v option" where
  "drive call (Result v) = Some v"
| "drive call (Visit u k) = Option.bind (call u) (\<lambda>w. drive call (k w))"

text \<open>\<open>make_recursive\<close>: the recursion without a cache, with the depth it may reach.\<close>

fun make_recursive :: "('u \<Rightarrow> ('u, 'v) visit) \<Rightarrow> nat \<Rightarrow> 'u \<Rightarrow> 'v option" where
  "make_recursive fn 0 u = None"
| "make_recursive fn (Suc n) u = drive (make_recursive fn n) (fn u)"

text \<open>\<open>CachingVisitor.__call__\<close>: a value of the cache is returned; otherwise the function is run,
  its calls using and filling the cache, and \<open>setdefault\<close> keeps an entry they made.\<close>

primrec cached_drive ::
  "('u \<Rightarrow> ('u \<rightharpoonup> 'v) \<Rightarrow> ('v \<times> ('u \<rightharpoonup> 'v)) option) \<Rightarrow> ('u, 'v) visit \<Rightarrow> ('u \<rightharpoonup> 'v) \<Rightarrow> ('v \<times> ('u \<rightharpoonup> 'v)) option" where
  "cached_drive call (Result v) c = Some (v, c)"
| "cached_drive call (Visit u k) c = Option.bind (call u c) (\<lambda>(w, c'). cached_drive call (k w) c')"

fun caching_visitor ::
  "('u \<Rightarrow> ('u, 'v) visit) \<Rightarrow> nat \<Rightarrow> 'u \<Rightarrow> ('u \<rightharpoonup> 'v) \<Rightarrow> ('v \<times> ('u \<rightharpoonup> 'v)) option" where
  "caching_visitor fn 0 u c = map_option (\<lambda>v. (v, c)) (c u)"
| "caching_visitor fn (Suc n) u c =
     (case c u of
        Some v \<Rightarrow> Some (v, c)
      | None \<Rightarrow>
          Option.bind (cached_drive (caching_visitor fn n) (fn u) c) (\<lambda>(v, c').
            case c' u of Some v' \<Rightarrow> Some (v', c') | None \<Rightarrow> Some (v, c'(u \<mapsto> v))))"

lemma drive_mono:
  "(\<And>u v. f u = Some v \<Longrightarrow> g u = Some v) \<Longrightarrow> drive f t = Some v \<Longrightarrow> drive g t = Some v"
  by (induction t arbitrary: v) (auto simp: bind_eq_Some_conv)

lemma make_recursive_Suc: "make_recursive fn n u = Some v \<Longrightarrow> make_recursive fn (Suc n) u = Some v"
proof (induction n arbitrary: u v)
  case (Suc n)
  then show ?case using drive_mono [of "make_recursive fn n" "make_recursive fn (Suc n)" "fn u"] by simp
qed simp

lemma make_recursive_mono: "make_recursive fn n u = Some v \<Longrightarrow> n \<le> m \<Longrightarrow> make_recursive fn m u = Some v"
  by (induction m) (auto simp: le_Suc_eq make_recursive_Suc simp del: make_recursive.simps)

lemma make_recursive_unique:
  "make_recursive fn n u = Some v \<Longrightarrow> make_recursive fn m u = Some w \<Longrightarrow> v = w"
  using make_recursive_mono [of fn n u v "max n m"] make_recursive_mono [of fn m u w "max n m"] by simp

text \<open>Every entry of the cache is what the plain recursion computes.\<close>

definition cache_ok :: "('u \<Rightarrow> ('u, 'v) visit) \<Rightarrow> ('u \<rightharpoonup> 'v) \<Rightarrow> bool" where
  "cache_ok fn c \<longleftrightarrow> (\<forall>u v. c u = Some v \<longrightarrow> (\<exists>n. make_recursive fn n u = Some v))"

lemma cached_drive_ok:
  assumes call: "\<And>u v c. cache_ok fn c \<Longrightarrow> make_recursive fn n u = Some v \<Longrightarrow>
      \<exists>c'. caching_visitor fn n u c = Some (v, c') \<and> cache_ok fn c' \<and> c \<subseteq>\<^sub>m c'"
  shows "cache_ok fn c \<Longrightarrow> drive (make_recursive fn n) t = Some v \<Longrightarrow>
      \<exists>c'. cached_drive (caching_visitor fn n) t c = Some (v, c') \<and> cache_ok fn c' \<and> c \<subseteq>\<^sub>m c'"
proof (induction t arbitrary: c)
  case (Visit u k)
  obtain w where w: "make_recursive fn n u = Some w" and r: "drive (make_recursive fn n) (k w) = Some v"
    using Visit.prems(2) by (auto simp: bind_eq_Some_conv)
  obtain c1 where c1: "caching_visitor fn n u c = Some (w, c1)" "cache_ok fn c1" "c \<subseteq>\<^sub>m c1"
    using call [OF Visit.prems(1) w] by blast
  obtain c2 where "cached_drive (caching_visitor fn n) (k w) c1 = Some (v, c2)" "cache_ok fn c2" "c1 \<subseteq>\<^sub>m c2"
    using Visit.IH [OF _ c1(2) r] by blast
  then show ?case using c1 map_le_trans by auto
qed simp

lemma cache_ok_insert:
  "cache_ok fn c \<Longrightarrow> make_recursive fn n u = Some v \<Longrightarrow> cache_ok fn (c(u \<mapsto> v))"
  by (auto simp: cache_ok_def)

lemma caching_visitor_ok:
  "cache_ok fn c \<Longrightarrow> make_recursive fn n u = Some v \<Longrightarrow>
   \<exists>c'. caching_visitor fn n u c = Some (v, c') \<and> cache_ok fn c' \<and> c \<subseteq>\<^sub>m c'"
proof (induction n arbitrary: u v c)
  case (Suc n)
  show ?case
  proof (cases "c u")
    case (Some w)
    then obtain m where "make_recursive fn m u = Some w" using Suc.prems(1) by (auto simp: cache_ok_def)
    then have "w = v" using make_recursive_unique Suc.prems(2) by metis
    then show ?thesis using Some Suc.prems(1) by simp
  next
    case None
    have "drive (make_recursive fn n) (fn u) = Some v" using Suc.prems(2) by simp
    from cached_drive_ok [OF Suc.IH Suc.prems(1) this] obtain c1
      where c1: "cached_drive (caching_visitor fn n) (fn u) c = Some (v, c1)" "cache_ok fn c1" "c \<subseteq>\<^sub>m c1" by blast
    show ?thesis
    proof (cases "c1 u")
      case (Some w)
      then obtain m where "make_recursive fn m u = Some w" using c1(2) by (auto simp: cache_ok_def)
      then have "w = v" using make_recursive_unique Suc.prems(2) by metis
      then show ?thesis using None Some c1 by simp
    next
      case (None)
      then have "c1 \<subseteq>\<^sub>m c1(u \<mapsto> v)" by (auto simp: map_le_def)
      then show ?thesis using \<open>c u = None\<close> None c1 cache_ok_insert [OF c1(2) Suc.prems(2)] map_le_trans by auto
    qed
  qed
qed simp

text \<open>C36: a cached visitor computes what the visitor computes without a cache.  With a cache whose
  entries are right, and a recursion that returns within the given depth, the caching visitor
  returns the same value within that depth, and all entries of the cache it leaves (the old
  ones among them) are right.\<close>

theorem caching_visitor_equiv:
  assumes "cache_ok fn c" and "make_recursive fn n u = Some v"
  shows "\<exists>c'. caching_visitor fn n u c = Some (v, c') \<and> cache_ok fn c' \<and> c \<subseteq>\<^sub>m c'"
  by (rule caching_visitor_ok [OF assms])

lemma caching_visitor_equiv_witness:
  "let fn = (\<lambda>k :: nat. if k < 2 then Result k
        else Visit (k - 1) (\<lambda>a. Visit (k - 2) (\<lambda>b. Result (a + b))))
   in \<exists>c'. caching_visitor fn 6 5 Map.empty = Some (5, c') \<and> cache_ok fn c' \<and> Map.empty \<subseteq>\<^sub>m c'"
  unfolding Let_def
  by (rule caching_visitor_equiv) (simp_all add: cache_ok_def eval_nat_numeral)

text \<open>Rebuilding a node from unchanged children gives the node itself.\<close>

lemma reuse_if_unchanged_eq: "reuse_if_unchanged fn n = reconstruct n (map fn (children n))"
proof -
  have "list_all2 node_eq xs ys \<longleftrightarrow> xs = ys" for xs ys :: "'a node list"
    by (simp add: node_eq_iff [abs_def] list.rel_eq)
  then show ?thesis by (cases n) (simp add: reuse_if_unchanged_def reconstruct_def Let_def)
qed

end
