(* ===== verification/PartitioningModel.thy ===== *)
theory PartitioningModel
  imports TraversalModel
begin

text \<open>
  Partitioning requests of the streaming engine of cudf-polars
  (\<open>cudf_polars/streaming/partitioning_requests.py\<close>), the value-domain bindings they are
  propagated through (\<open>cudf_polars/dsl/utils/column_domain.py\<close>) and the sort order arguments
  (\<open>cudf_polars/utils/sorting.py\<close>).  A plan is a tree of \<open>TraversalModel\<close> nodes whose label is
  the operator, the names of the schema and a number for the remaining arguments.
\<close>

section \<open>Sort orders\<close>

datatype sort_direction = Ascending | Descending

datatype null_order = NullBefore | NullAfter

definition broadcast :: "nat \<Rightarrow> bool list \<Rightarrow> bool list" where
  "broadcast num_keys xs = (if length xs < num_keys \<and> length xs = 1 then replicate num_keys (hd xs) else xs)"

text \<open>\<open>a ^ b\<close> on bools is \<open>a \<noteq> b\<close>; the second test is the only other case.\<close>

definition sort_order ::
  "bool list \<Rightarrow> bool list \<Rightarrow> nat \<Rightarrow> (sort_direction list \<times> null_order list) res" where
  "sort_order descending nulls_last num_keys =
     (let descending' = broadcast num_keys descending;
          nulls_last' = broadcast num_keys nulls_last;
          column_order = map (\<lambda>d. if d then Descending else Ascending) descending'
      in if length descending' \<noteq> length nulls_last' \<or> length descending' \<noteq> num_keys then Inl ValueError
         else Inr (column_order,
           concat (map (\<lambda>(asc, null_last).
             if (asc = Ascending) \<noteq> (\<not> null_last) then [NullAfter]
             else if (asc = Ascending) \<noteq> null_last then [NullBefore] else [])
             (zip column_order nulls_last'))))"

definition nulls_at_start :: "sort_direction \<Rightarrow> null_order \<Rightarrow> bool" where
  "nulls_at_start order nulls \<longleftrightarrow> (order = Ascending) = (nulls = NullBefore)"

section \<open>Plans\<close>

text \<open>Expressions with the type of their values; a number stands for the parts of an expression that
  are not inspected.\<close>

datatype type_id = Int64Type | TimestampNs | OtherType nat

datatype expression =
    Col string type_id
  | CastExpr type_id expression
  | TruncateExpr type_id expression nat
  | OtherExpr type_id nat

fun expr_type :: "expression \<Rightarrow> type_id" where
  "expr_type (Col _ t) = t"
| "expr_type (CastExpr t _) = t"
| "expr_type (TruncateExpr t _ _) = t"
| "expr_type (OtherExpr t _) = t"

record named_expr =
  ne_name :: string
  ne_value :: expression

datatype join_how = JInner | JLeft | JRight | JFull | JSemi | JAnti | JCross

text \<open>The arguments of the operators that matter here; \<open>JoinOp\<close>: how, left and right keys, suffix,
  coalesce and whether the order to maintain starts with the right input.\<close>

datatype operator =
    SortOp "named_expr list" "sort_direction list" "null_order list"
  | HintSortedOp "string list" "bool list" "bool list"
  | JoinOp join_how "named_expr list" "named_expr list" string bool bool
  | GroupByOp "named_expr list" bool
  | SelectOp "named_expr list" | OverOp "named_expr list" | HStackOp "named_expr list"
  | RollingOp named_expr | HConcatOp bool
  | DistinctOp | FilterOp | ProjectionOp | SliceOp | PushdownFilterHintOp | OtherOp

record ir_label =
  ir_op :: operator
  ir_schema :: "string list"
  ir_rest :: nat

type_synonym ir = "ir_label node"

definition op :: "ir \<Rightarrow> operator" where
  "op n = ir_op (label n)"

definition schema :: "ir \<Rightarrow> string list" where
  "schema n = ir_schema (label n)"

fun col_name :: "expression \<Rightarrow> string option" where
  "col_name (Col c _) = Some c"
| "col_name _ = None"

section \<open>Column domains\<close>

type_synonym bindings = "(string, nat \<times> string) pydict"

text \<open>The columns among the expressions, under their output names.\<close>

definition direct_columns :: "named_expr list \<Rightarrow> bindings" where
  "direct_columns es =
     dict_of (concat (map (\<lambda>e. case col_name (ne_value e) of None \<Rightarrow> [] | Some c \<Rightarrow> [(ne_name e, (0, c))]) es))"

definition same_names :: "nat \<Rightarrow> string list \<Rightarrow> bindings" where
  "same_names i names = dict_of (map (\<lambda>n. (n, (i, n))) names)"

text \<open>\<open>d | e\<close> on dictionaries.\<close>

definition dict_or :: "('k, 'v) pydict \<Rightarrow> ('k, 'v) pydict \<Rightarrow> ('k, 'v) pydict" where
  "dict_or d e = foldl (\<lambda>d (k, v). dset k v d) d e"

text \<open>The join keys an inner join copies from its right input, and the other right columns, with the
  suffix where a left column has the name.\<close>

definition key_bindings :: "named_expr list \<Rightarrow> named_expr list \<Rightarrow> string list \<Rightarrow> bindings \<Rightarrow> bindings" where
  "key_bindings left_on right_on node_schema bindings =
     foldl (\<lambda>b (l, r).
       case (col_name (ne_value l), col_name (ne_value r)) of
         (Some _, Some c) \<Rightarrow> (if ne_name l \<in> set node_schema then dset (ne_name l) (1, c) b else b)
       | _ \<Rightarrow> b) bindings (zip left_on right_on)"

definition right_bindings :: "string list \<Rightarrow> string \<Rightarrow> string list \<Rightarrow> string list \<Rightarrow> bindings \<Rightarrow> bindings" where
  "right_bindings left_names suffix right_schema node_schema bindings =
     foldl (\<lambda>b n.
       let out = (if n \<in> set left_names then n @ suffix else n)
       in if out \<in> set node_schema then dset out (1, n) b else b) bindings right_schema"

definition join_bindings ::
  "join_how \<Rightarrow> named_expr list \<Rightarrow> named_expr list \<Rightarrow> string \<Rightarrow> bool \<Rightarrow> bool
   \<Rightarrow> string list \<Rightarrow> string list \<Rightarrow> string list \<Rightarrow> bindings res" where
  "join_bindings how left_on right_on suffix coalesce right_first left_schema right_schema node_schema =
     (if how = JSemi \<or> how = JAnti then Inr (same_names 0 (filter (\<lambda>n. n \<in> set left_schema) node_schema))
      else if how = JLeft then Inr (same_names 0 (filter (\<lambda>n. n \<in> set node_schema) left_schema))
      else if how = JFull then Inr []
      else
        (let bindings = (if how = JCross \<or> how = JInner then same_names 0 left_schema else []);
             keys = (how = JInner \<and> coalesce \<and> right_first);
             left_names = (if how = JRight \<and> coalesce
               then filter (\<lambda>n. n \<notin> set (map ne_name left_on)) left_schema else left_schema)
         in if keys \<and> length left_on \<noteq> length right_on then Inl ValueError
            else Inr (right_bindings left_names suffix right_schema node_schema
                   (if keys then key_bindings left_on right_on node_schema bindings else bindings))))"

definition hconcat_bindings :: "string list list \<Rightarrow> string list \<Rightarrow> bindings" where
  "hconcat_bindings schemas node_schema =
     concat (map (\<lambda>name.
       case filter (\<lambda>i. name \<in> set (schemas ! i)) [0..<length schemas] of
         [i] \<Rightarrow> [(name, (i, name))]
       | _ \<Rightarrow> []) (remdups node_schema))"

definition child_schema :: "ir \<Rightarrow> nat \<Rightarrow> string list" where
  "child_schema n i = schema (children n ! i)"

definition column_domain_bindings :: "ir \<Rightarrow> bindings res" where
  "column_domain_bindings n =
     (case op n of
        SelectOp es \<Rightarrow> Inr (direct_columns es)
      | OverOp es \<Rightarrow> Inr (direct_columns es)
      | HStackOp es \<Rightarrow>
          Inr (dict_or (same_names 0 (filter (\<lambda>c. c \<notin> set (map ne_name es)) (child_schema n 0))) (direct_columns es))
      | GroupByOp ks _ \<Rightarrow> Inr (direct_columns ks)
      | RollingOp e \<Rightarrow> (if col_name (ne_value e) = None then Inl AssertionError else Inr (direct_columns [e]))
      | JoinOp how l r suffix coalesce right_first \<Rightarrow>
          join_bindings how l r suffix coalesce right_first (child_schema n 0) (child_schema n 1) (schema n)
      | HConcatOp safe \<Rightarrow> Inr (if \<not> safe then [] else hconcat_bindings (map schema (children n)) (schema n))
      | DistinctOp \<Rightarrow> Inr (same_names 0 (filter (\<lambda>c. c \<in> set (child_schema n 0)) (schema n)))
      | FilterOp \<Rightarrow> Inr (same_names 0 (filter (\<lambda>c. c \<in> set (child_schema n 0)) (schema n)))
      | ProjectionOp \<Rightarrow> Inr (same_names 0 (filter (\<lambda>c. c \<in> set (child_schema n 0)) (schema n)))
      | SliceOp \<Rightarrow> Inr (same_names 0 (filter (\<lambda>c. c \<in> set (child_schema n 0)) (schema n)))
      | SortOp _ _ _ \<Rightarrow> Inr (same_names 0 (filter (\<lambda>c. c \<in> set (child_schema n 0)) (schema n)))
      | PushdownFilterHintOp \<Rightarrow> Inr (same_names 0 (filter (\<lambda>c. c \<in> set (child_schema n 0)) (schema n)))
      | _ \<Rightarrow> Inr [])"

section \<open>Requests\<close>

record order_key =
  ok_name :: string
  ok_direction :: sort_direction
  ok_nulls :: null_order

datatype request_source = FromConsumer | FromHint

datatype request =
    StrictRequest "string list"
  | OrderRequest "order_key list" "nat option" request_source

definition is_prefix :: "'a list \<Rightarrow> 'a list \<Rightarrow> bool" where
  "is_prefix l r \<longleftrightarrow> length l \<le> length r \<and> l = take (length l) r"

definition merge_strict_key_count :: "nat option \<Rightarrow> nat option \<Rightarrow> nat option" where
  "merge_strict_key_count a b =
     (case (a, b) of (Some m, Some n) \<Rightarrow> Some (max m n) | (Some m, None) \<Rightarrow> Some m | (None, b) \<Rightarrow> b)"

definition merge_source :: "request_source \<Rightarrow> request_source \<Rightarrow> request_source" where
  "merge_source a b = (if a = FromHint \<or> b = FromHint then FromHint else FromConsumer)"

definition merge_order_with_strict ::
  "order_key list \<Rightarrow> nat option \<Rightarrow> request_source \<Rightarrow> string list \<Rightarrow> request option" where
  "merge_order_with_strict keys cnt source strict =
     (let order_names = map ok_name keys in
      if is_prefix strict order_names \<or> is_prefix order_names strict
      then Some (OrderRequest keys (merge_strict_key_count cnt (Some (min (length strict) (length order_names)))) source)
      else None)"

fun merge_requests :: "request \<Rightarrow> request \<Rightarrow> request option" where
  "merge_requests (StrictRequest l) (StrictRequest r) =
     (if is_prefix l r then Some (StrictRequest l) else if is_prefix r l then Some (StrictRequest r) else None)"
| "merge_requests (StrictRequest l) (OrderRequest ks c s) = merge_order_with_strict ks c s l"
| "merge_requests (OrderRequest ks c s) (StrictRequest r) = merge_order_with_strict ks c s r"
| "merge_requests (OrderRequest l c s) (OrderRequest r d t) =
     (if is_prefix l r then Some (OrderRequest r (merge_strict_key_count c d) (merge_source s t))
      else if is_prefix r l then Some (OrderRequest l (merge_strict_key_count c d) (merge_source s t))
      else None)"

text \<open>The loop of \<open>_merge_candidate_request\<close>: the candidates kept, the request merged so far and
  the position of the first merge.\<close>

fun merge_loop ::
  "request list \<Rightarrow> request list \<Rightarrow> request \<Rightarrow> nat option \<Rightarrow> request list \<times> request \<times> nat option" where
  "merge_loop [] candidates new i = (candidates, new, i)"
| "merge_loop (x # xs) candidates new i =
     (case merge_requests x new of
        None \<Rightarrow> merge_loop xs (candidates @ [x]) new i
      | Some m \<Rightarrow> merge_loop xs candidates m (if i = None then Some (length candidates) else i))"

definition merge_candidate_request :: "request list \<Rightarrow> request \<Rightarrow> request list" where
  "merge_candidate_request existing request =
     (case merge_loop existing [] request None of
        (candidates, new, None) \<Rightarrow> candidates @ [new]
      | (candidates, new, Some i) \<Rightarrow> take i candidates @ new # drop i candidates)"

fun column_names :: "named_expr list \<Rightarrow> string list option" where
  "column_names [] = Some []"
| "column_names (e # es) =
     (case col_name (ne_value e) of None \<Rightarrow> None | Some c \<Rightarrow> map_option ((#) c) (column_names es))"

definition order_request ::
  "string list \<Rightarrow> sort_direction list \<Rightarrow> null_order list \<Rightarrow> request_source \<Rightarrow> request res" where
  "order_request names orders nulls source =
     (if length orders \<noteq> length names \<or> length nulls \<noteq> length names then Inl ValueError
      else Inr (OrderRequest (map (\<lambda>(n, d, b). \<lparr>ok_name = n, ok_direction = d, ok_nulls = b\<rparr>)
                  (zip names (zip orders nulls))) None source))"

definition direct_child_requests :: "ir \<Rightarrow> (ir \<times> request) list res" where
  "direct_child_requests n =
     (case op n of
        SortOp by order nulls \<Rightarrow>
          (case column_names by of
             None \<Rightarrow> Inr []
           | Some names \<Rightarrow>
               rbind (order_request names order nulls FromConsumer) (\<lambda>r. Inr [(children n ! 0, r)]))
      | HintSortedOp names descending nulls_last \<Rightarrow>
          rbind (sort_order descending nulls_last (length names)) (\<lambda>(order, nulls).
          rbind (order_request names order nulls FromHint) (\<lambda>r. Inr [(children n ! 0, r)]))
      | JoinOp how left_on right_on _ _ _ \<Rightarrow>
          (case (if how = JCross then None else column_names left_on, column_names right_on) of
             (Some l, Some r) \<Rightarrow> Inr [(children n ! 0, StrictRequest l), (children n ! 1, StrictRequest r)]
           | _ \<Rightarrow> Inr [])
      | GroupByOp keys maintain_order \<Rightarrow>
          (case (if maintain_order then None else column_names keys) of
             Some ks \<Rightarrow> Inr [(children n ! 0, StrictRequest ks)]
           | None \<Rightarrow> Inr [])
      | _ \<Rightarrow> Inr [])"

definition remap_names :: "(string \<rightharpoonup> string) \<Rightarrow> string list \<Rightarrow> string list option" where
  "remap_names f names = those (map f names)"

fun remap_request :: "(string \<rightharpoonup> string) \<Rightarrow> request \<Rightarrow> request option" where
  "remap_request f (StrictRequest ks) = map_option StrictRequest (remap_names f ks)"
| "remap_request f (OrderRequest ks c s) =
     map_option (\<lambda>ns. OrderRequest (map (\<lambda>(n, k). k\<lparr>ok_name := n\<rparr>) (zip ns ks)) c s)
       (remap_names f (map ok_name ks))"

fun passes_requests :: "operator \<Rightarrow> bool" where
  "passes_requests ProjectionOp = True"
| "passes_requests (SelectOp _) = True"
| "passes_requests FilterOp = True"
| "passes_requests SliceOp = True"
| "passes_requests (GroupByOp _ _) = True"
| "passes_requests (RollingOp _) = True"
| "passes_requests _ = False"

type_synonym request_map = "(ir, request list) pydict"

definition requests_of :: "request_map \<Rightarrow> ir \<Rightarrow> request list" where
  "requests_of m n = (case map_of m n of None \<Rightarrow> [] | Some rs \<Rightarrow> rs)"

definition propagated_child_requests :: "ir \<Rightarrow> request_map \<Rightarrow> (ir \<times> request) list res" where
  "propagated_child_requests n m =
     (case map_of m n of
        None \<Rightarrow> Inr []
      | Some rs \<Rightarrow>
          (if length (children n) \<noteq> 1 \<or> \<not> passes_requests (op n) then Inr []
           else
             rbind (column_domain_bindings n) (\<lambda>b.
               Inr (map (\<lambda>r. (children n ! 0, r))
                 (List.map_filter (remap_request (map_option snd \<circ> map_of b)) rs)))))"

definition add_request :: "request_map \<Rightarrow> ir \<times> request \<Rightarrow> request_map" where
  "add_request m cr = dset (fst cr) (merge_candidate_request (requests_of m (fst cr)) (snd cr)) m"

fun collect_loop :: "ir list \<Rightarrow> request_map \<Rightarrow> request_map res" where
  "collect_loop [] m = Inr m"
| "collect_loop (n # ns) m =
     rbind (direct_child_requests n) (\<lambda>direct.
     rbind (propagated_child_requests n m) (\<lambda>propagated.
       collect_loop ns (foldl add_request m (direct @ propagated))))"

definition collect_partitioning_requests :: "ir \<Rightarrow> request_map res" where
  "collect_partitioning_requests root = collect_loop (rev (post_traversal [root])) []"

section \<open>What a request asks of the data\<close>

text \<open>The output of a node: a list of partitions, each a list of rows.  A strict request wants
  rows that agree on all keys in one partition; an order request wants the rows sorted by
  its keys across the partitions (\<open>lt\<close> compares two values in a direction), and rows that
  agree on the first keys, when it counts strict ones, in one partition.\<close>

type_synonym 'v row = "string \<Rightarrow> 'v"

definition strict_on :: "string list \<Rightarrow> 'v row list list \<Rightarrow> bool" where
  "strict_on names parts \<longleftrightarrow>
     (\<forall>i < length parts. \<forall>j < length parts. i \<noteq> j \<longrightarrow>
        (\<forall>r \<in> set (parts ! i). \<forall>s \<in> set (parts ! j). \<exists>n \<in> set names. r n \<noteq> s n))"

fun key_le :: "(sort_direction \<Rightarrow> null_order \<Rightarrow> 'v \<Rightarrow> 'v \<Rightarrow> bool) \<Rightarrow> order_key list \<Rightarrow> 'v row \<Rightarrow> 'v row \<Rightarrow> bool" where
  "key_le lt [] r s \<longleftrightarrow> True"
| "key_le lt (k # ks) r s \<longleftrightarrow>
     lt (ok_direction k) (ok_nulls k) (r (ok_name k)) (s (ok_name k))
     \<or> (r (ok_name k) = s (ok_name k) \<and> key_le lt ks r s)"

fun satisfies ::
  "(sort_direction \<Rightarrow> null_order \<Rightarrow> 'v \<Rightarrow> 'v \<Rightarrow> bool) \<Rightarrow> 'v row list list \<Rightarrow> request \<Rightarrow> bool" where
  "satisfies lt parts (StrictRequest ks) \<longleftrightarrow> strict_on ks parts"
| "satisfies lt parts (OrderRequest ks c s) \<longleftrightarrow>
     sorted_wrt (key_le lt ks) (concat parts)
     \<and> (case c of None \<Rightarrow> True | Some n \<Rightarrow> strict_on (take n (map ok_name ks)) parts)"

fun request_ok :: "request \<Rightarrow> bool" where
  "request_ok (StrictRequest ks) \<longleftrightarrow> True"
| "request_ok (OrderRequest ks c s) \<longleftrightarrow> (case c of None \<Rightarrow> True | Some n \<Rightarrow> n \<le> length ks)"

text \<open>Two requests whose strict keys the merge can keep: not two different widths with an
  order.\<close>

fun widths_agree :: "request \<Rightarrow> request \<Rightarrow> bool" where
  "widths_agree (StrictRequest l) (StrictRequest r) \<longleftrightarrow> True"
| "widths_agree (OrderRequest ks c s) (StrictRequest r) \<longleftrightarrow> c = None \<or> c = Some (min (length r) (length ks))"
| "widths_agree (StrictRequest l) (OrderRequest ks c s) \<longleftrightarrow> c = None \<or> c = Some (min (length l) (length ks))"
| "widths_agree (OrderRequest l c s) (OrderRequest r d t) \<longleftrightarrow> c = None \<or> d = None \<or> c = d"

lemma is_prefix_iff: "is_prefix l r \<longleftrightarrow> (\<exists>zs. r = l @ zs)"
  by (auto simp: is_prefix_def) (metis append_take_drop_id)

lemma strict_on_mono: "strict_on names parts \<Longrightarrow> set names \<subseteq> set zs \<Longrightarrow> strict_on zs parts"
  unfolding strict_on_def by (meson subsetD)

lemma key_le_prefix: "key_le lt (ks @ zs) r s \<Longrightarrow> key_le lt ks r s"
  by (induction ks) auto

lemma sorted_prefix: "sorted_wrt (key_le lt (ks @ zs)) rows \<Longrightarrow> sorted_wrt (key_le lt ks) rows"
  by (erule sorted_wrt_mono_rel [rotated]) (rule key_le_prefix)

lemma merge_order_strict_sound:
  assumes m: "merge_order_with_strict ks c s strict = Some m" and sat: "satisfies lt parts m"
    and w: "c = None \<or> c = Some (min (length strict) (length ks))"
  shows "satisfies lt parts (OrderRequest ks c s) \<and> strict_on strict parts"
proof -
  define n where "n = min (length strict) (length ks)"
  from m have p: "is_prefix strict (map ok_name ks) \<or> is_prefix (map ok_name ks) strict"
    and m': "m = OrderRequest ks (Some n) s"
    using w by (auto simp: merge_order_with_strict_def merge_strict_key_count_def n_def Let_def split: if_splits)
  have "strict_on (take n (map ok_name ks)) parts" using sat by (simp add: m')
  moreover have "set (take n (map ok_name ks)) \<subseteq> set strict"
    using p
  proof
    assume "is_prefix strict (map ok_name ks)"
    then show ?thesis by (auto simp: is_prefix_iff n_def) (metis append_eq_conv_conj in_set_takeD take_map take_take)
  next
    assume "is_prefix (map ok_name ks) strict"
    then show ?thesis by (auto simp: is_prefix_iff dest: in_set_takeD)
  qed
  ultimately have "strict_on strict parts" by (rule strict_on_mono)
  then show ?thesis using sat w by (auto simp: m' n_def)
qed

lemma merge_order_order_sound:
  assumes sat: "satisfies lt parts (OrderRequest zs (merge_strict_key_count c d) u)"
    and l: "is_prefix l zs" "request_ok (OrderRequest l c s)" and w: "c = None \<or> d = None \<or> c = d"
  shows "satisfies lt parts (OrderRequest l c s)"
proof -
  obtain rest where zs: "zs = l @ rest" using l(1) by (auto simp: is_prefix_iff)
  have srt: "sorted_wrt (key_le lt l) (concat parts)" using sat sorted_prefix [of lt l rest] by (simp add: zs)
  moreover have "strict_on (take n (map ok_name l)) parts" if "c = Some n" for n
  proof -
    have "merge_strict_key_count c d = Some n"
      using w that by (cases d) (auto simp: merge_strict_key_count_def)
    then show ?thesis using sat l(2) that by (simp add: zs)
  qed
  ultimately show ?thesis by (cases c) auto
qed

lemma merge_strict_key_count_comm: "merge_strict_key_count c d = merge_strict_key_count d c"
  by (auto simp: merge_strict_key_count_def max.commute split: option.splits)

lemma merge_requests_sound:
  assumes m: "merge_requests l r = Some m" and sat: "satisfies lt parts m"
    and ok: "request_ok l" "request_ok r" and w: "widths_agree l r"
  shows "satisfies lt parts l \<and> satisfies lt parts r"
proof (cases l)
  case l: (StrictRequest lk)
  show ?thesis
  proof (cases r)
    case r: (StrictRequest rk)
    have mono: "strict_on ks parts \<Longrightarrow> is_prefix ks zs \<Longrightarrow> strict_on zs parts" for ks zs
      by (erule strict_on_mono) (auto simp: is_prefix_iff)
    show ?thesis using m sat mono [of lk rk] mono [of rk lk] by (auto simp: l r split: if_splits)
  next
    case r: (OrderRequest ks c s)
    show ?thesis using merge_order_strict_sound [OF m [unfolded l r merge_requests.simps] sat] w by (auto simp: l r)
  qed
next
  case l: (OrderRequest ks c s)
  show ?thesis
  proof (cases r)
    case r: (StrictRequest rk)
    show ?thesis using merge_order_strict_sound [OF m [unfolded l r merge_requests.simps] sat] w by (auto simp: l r)
  next
    case r: (OrderRequest zs d t)
    have self: "is_prefix xs xs" for xs :: "order_key list" by (simp add: is_prefix_def)
    have w': "c = None \<or> d = None \<or> c = d" "d = None \<or> c = None \<or> d = c" using w by (auto simp: l r)
    obtain ms where ms: "m = OrderRequest ms (merge_strict_key_count c d) (merge_source s t)"
      "is_prefix ks ms" "is_prefix zs ms"
      using m self by (auto simp: l r split: if_splits)
    have sat': "satisfies lt parts (OrderRequest ms (merge_strict_key_count d c) (merge_source s t))"
      using sat by (simp only: ms merge_strict_key_count_comm)
    show ?thesis
      using merge_order_order_sound [OF sat [unfolded ms(1)] ms(2) ok(1) [unfolded l] w'(1)]
        merge_order_order_sound [OF sat' ms(3) ok(2) [unfolded r] w'(2)] by (simp only: l r)
  qed
qed

lemma merge_requests_ok: "merge_requests l r = Some m \<Longrightarrow> request_ok l \<Longrightarrow> request_ok r \<Longrightarrow> request_ok m"
  by (induction l r rule: merge_requests.induct)
    (auto simp: merge_order_with_strict_def merge_strict_key_count_def is_prefix_def Let_def split: if_splits option.splits)

text \<open>C38: merging two requests is sound as long as their strict widths agree.  A partitioning that
  satisfies the request \<open>merge_requests\<close> returns satisfies both requests it was made of, for
  strict requests, for order requests, and for one of each, whenever they do not ask for two
  different numbers of strict keys; and the result is again well formed.\<close>

theorem merge_requests_satisfies_both:
  assumes "merge_requests l r = Some m" and "request_ok l" and "request_ok r" and "widths_agree l r"
    and "satisfies lt parts m"
  shows "request_ok m \<and> satisfies lt parts l \<and> satisfies lt parts r"
  using merge_requests_sound [OF assms(1,5,2-4)] merge_requests_ok [OF assms(1-3)] by blast

lemma merge_requests_satisfies_both_witness:
  "let k = (\<lambda>n. \<lparr>ok_name = n, ok_direction = Ascending, ok_nulls = NullAfter\<rparr>);
       parts = [[\<lambda>n. if n = ''a'' then 1 else (2 :: nat)], [\<lambda>n. if n = ''a'' then 3 else 2]]
   in request_ok (OrderRequest [k ''a'', k ''b''] (Some 1) FromConsumer)
      \<and> satisfies (\<lambda>_ _. (<)) parts (OrderRequest [k ''a'', k ''b''] None FromConsumer)
      \<and> satisfies (\<lambda>_ _. (<)) parts (StrictRequest [''a''])"
  unfolding Let_def
  by (rule merge_requests_satisfies_both)
    (simp_all add: merge_order_with_strict_def merge_strict_key_count_def is_prefix_def strict_on_def less_Suc_eq)

text \<open>With different strict widths merging loses a request.  A sort by (a, b) of a node whose
  other consumers partition it strictly by a and by (a, b) leaves the single request to order
  by (a, b) with two strict keys, because the larger count is kept; the partitions
  {(a=1, b=1)}, {(a=1, b=2)} satisfy it, but not the strict request for a.\<close>

theorem merged_widths_lose_strictness:
  "let k = (\<lambda>n. \<lparr>ok_name = n, ok_direction = Ascending, ok_nulls = NullAfter\<rparr>);
       parts = [[\<lambda>n. 1 :: nat], [\<lambda>n. if n = ''a'' then 1 else 2]];
       merged = merge_candidate_request (merge_candidate_request
         [OrderRequest [k ''a'', k ''b''] None FromConsumer] (StrictRequest [''a''])) (StrictRequest [''a'', ''b''])
   in merged = [OrderRequest [k ''a'', k ''b''] (Some 2) FromConsumer]
      \<and> list_all (satisfies (\<lambda>_ _. (<)) parts) merged
      \<and> \<not> satisfies (\<lambda>_ _. (<)) parts (StrictRequest [''a''])"
  by (simp add: Let_def merge_candidate_request_def merge_order_with_strict_def merge_strict_key_count_def
      is_prefix_def numeral_2_eq_2) (auto simp: strict_on_def less_Suc_eq ex_disj_distrib conj_disj_distribR)

text \<open>A list of candidates covers a request when one of them is enough for it.\<close>

definition covers :: "request list \<Rightarrow> request \<Rightarrow> bool" where
  "covers ms r \<longleftrightarrow>
     (\<exists>m \<in> set ms. \<forall>(lt :: sort_direction \<Rightarrow> null_order \<Rightarrow> nat \<Rightarrow> nat \<Rightarrow> bool) parts. satisfies lt parts m \<longrightarrow> satisfies lt parts r)"

fun is_strict :: "request \<Rightarrow> bool" where
  "is_strict (StrictRequest _) \<longleftrightarrow> True"
| "is_strict _ \<longleftrightarrow> False"

lemma strict_merge:
  assumes "is_strict l" "is_strict r" "merge_requests l r = Some m"
  shows "is_strict m" "covers [m] l" "covers [m] r"
proof -
  obtain a b where lr: "l = StrictRequest a" "r = StrictRequest b"
    using assms(1,2) by (cases l; cases r) auto
  show "is_strict m" using assms(3) by (auto simp: lr split: if_splits)
  show "covers [m] l" "covers [m] r"
    using merge_requests_sound [OF assms(3)] by (auto simp: lr covers_def)
qed

lemma covers_trans: "covers [m] r \<Longrightarrow> covers ms m \<Longrightarrow> covers ms r"
  by (auto simp: covers_def) blast

lemma covers_self: "r \<in> set ms \<Longrightarrow> covers ms r"
  by (auto simp: covers_def)

lemma merge_loop_covers:
  "list_all is_strict xs \<Longrightarrow> list_all is_strict cs \<Longrightarrow> is_strict new \<Longrightarrow>
   merge_loop xs cs new i = (cs', new', i') \<Longrightarrow>
   list_all is_strict cs' \<and> is_strict new' \<and> set cs \<subseteq> set cs' \<and> covers [new'] new
     \<and> (\<forall>x \<in> set xs. x \<in> set cs' \<or> covers [new'] x) \<and> (i' = None \<longrightarrow> i = None)"
proof (induction xs cs new i rule: merge_loop.induct)
  case (1 cs new i)
  then show ?case by (auto simp: covers_self)
next
  case (2 x xs cs new i)
  show ?case
  proof (cases "merge_requests x new")
    case None
    have "merge_loop xs (cs @ [x]) new i = (cs', new', i')" using 2(6) None by simp
    from 2(1) [OF None _ _ _ this] 2(3-5) show ?thesis by auto
  next
    case (Some m)
    note sm = strict_merge [OF _ 2(5) Some]
    have "merge_loop xs cs m (if i = None then Some (length cs) else i) = (cs', new', i')" using 2(6) Some by simp
    from 2(2) [OF Some _ _ _ this] 2(3,4) sm
    have IH: "list_all is_strict cs'" "is_strict new'" "set cs \<subseteq> set cs'" "covers [new'] m"
      "\<forall>x \<in> set xs. x \<in> set cs' \<or> covers [new'] x" "i' = None \<longrightarrow> (if i = None then Some (length cs) else i) = None"
      by auto
    then show ?thesis using sm 2(3) covers_trans [OF _ IH(4)] by (auto split: if_splits)
  qed
qed

lemma set_merge_candidate:
  assumes l: "merge_loop ms [] r None = (cs, new, i)"
  shows "set (merge_candidate_request ms r) = insert new (set cs)"
proof (cases i)
  case (Some a)
  have "set (take a cs) \<union> set (drop a cs) = set cs" by (metis append_take_drop_id set_append)
  then show ?thesis using Some by (auto simp: merge_candidate_request_def l)
qed (simp add: merge_candidate_request_def l)

lemma merge_candidate_covers:
  assumes "list_all is_strict ms" and "is_strict r"
  shows "list_all is_strict (merge_candidate_request ms r)" and "covers (merge_candidate_request ms r) r"
    and "\<And>x. covers ms x \<Longrightarrow> covers (merge_candidate_request ms r) x"
proof -
  obtain cs new i where l: "merge_loop ms [] r None = (cs, new, i)" by (metis prod_cases3)
  note c = merge_loop_covers [OF assms(1) _ assms(2) l, simplified]
  note res = set_merge_candidate [OF l]
  show "list_all is_strict (merge_candidate_request ms r)" using c by (auto simp: list_all_iff res)
  have new: "covers (merge_candidate_request ms r) x" if "covers [new] x" for x
    using that covers_trans covers_self [of new] res by auto
  show "covers (merge_candidate_request ms r) r" using c by (intro new) simp
  show "covers (merge_candidate_request ms r) x" if cx: "covers ms x" for x
  proof -
    obtain m where m: "m \<in> set ms" "covers [m] x" using cx by (auto simp: covers_def)
    then have "m \<in> set cs \<or> covers [new] m" using c by auto
    then show ?thesis using m new covers_trans covers_self [of m "merge_candidate_request ms r"] res by blast
  qed
qed

text \<open>Plans without operators that ask for an order.\<close>

fun no_order :: "operator \<Rightarrow> bool" where
  "no_order (SortOp _ _ _) \<longleftrightarrow> False"
| "no_order (HintSortedOp _ _ _) \<longleftrightarrow> False"
| "no_order _ \<longleftrightarrow> True"

definition strict_map :: "request_map \<Rightarrow> bool" where
  "strict_map m \<longleftrightarrow> (\<forall>n. list_all is_strict (requests_of m n))"

lemma direct_strict:
  "no_order (op n) \<Longrightarrow> direct_child_requests n = Inr rs \<Longrightarrow> \<forall>(c, r) \<in> set rs. is_strict r"
  by (auto simp: direct_child_requests_def split: operator.splits option.splits if_splits)

lemma remap_strict: "remap_request f r = Some r' \<Longrightarrow> is_strict r \<Longrightarrow> is_strict r'"
  by (cases r) auto

lemma propagated_strict:
  assumes "strict_map m" and "propagated_child_requests n m = Inr rs"
  shows "\<forall>(c, r) \<in> set rs. is_strict r"
proof (cases "map_of m n")
  case None
  then show ?thesis using assms(2) by (simp add: propagated_child_requests_def)
next
  case (Some qs)
  have "list_all is_strict qs" using assms(1) Some by (auto simp: strict_map_def requests_of_def dest: spec [of _ n])
  then show ?thesis
    using assms(2) Some remap_strict
    by (auto simp: propagated_child_requests_def res_simps List.map_filter_def list_all_iff split: if_splits)
qed

lemma requests_add:
  "requests_of (add_request m (c, r)) n = (if n = c then merge_candidate_request (requests_of m c) r else requests_of m n)"
  by (simp add: add_request_def requests_of_def update_conv')

lemma add_requests_cover:
  "strict_map m \<Longrightarrow> \<forall>(c, r) \<in> set rs. is_strict r \<Longrightarrow>
   strict_map (foldl add_request m rs)
   \<and> (\<forall>(c, r) \<in> set rs. covers (requests_of (foldl add_request m rs) c) r)
   \<and> (\<forall>n x. covers (requests_of m n) x \<longrightarrow> covers (requests_of (foldl add_request m rs) n) x)"
proof (induction rs arbitrary: m)
  case (Cons cr rs)
  obtain c r where cr: "cr = (c, r)" by fastforce
  define m1 where "m1 = add_request m cr"
  have r: "is_strict r" "list_all is_strict (requests_of m c)" using Cons.prems by (auto simp: cr strict_map_def)
  note mc = merge_candidate_covers [OF r(2,1)]
  have q: "requests_of m1 n = (if n = c then merge_candidate_request (requests_of m c) r else requests_of m n)" for n
    by (simp add: m1_def cr requests_add)
  have "strict_map m1" using Cons.prems(1) mc(1) by (simp add: strict_map_def q)
  then have IH: "strict_map (foldl add_request m1 rs)"
    "\<forall>(c, r) \<in> set rs. covers (requests_of (foldl add_request m1 rs) c) r"
    "\<And>n x. covers (requests_of m1 n) x \<Longrightarrow> covers (requests_of (foldl add_request m1 rs) n) x"
    using Cons.IH [of m1] Cons.prems(2) by auto
  have "covers (requests_of m1 c) r" using mc(2) by (simp add: q)
  moreover have "covers (requests_of m1 n) x" if "covers (requests_of m n) x" for n x
    using that mc(3) by (auto simp: q)
  ultimately show ?case using IH by (auto simp: cr m1_def [unfolded cr])
qed simp

lemma collect_loop_covers:
  "strict_map m \<Longrightarrow> \<forall>n \<in> set ns. no_order (op n) \<Longrightarrow> collect_loop ns m = Inr m' \<Longrightarrow>
   strict_map m' \<and> (\<forall>n x. covers (requests_of m n) x \<longrightarrow> covers (requests_of m' n) x)
   \<and> (\<forall>n \<in> set ns. \<exists>rs. direct_child_requests n = Inr rs \<and> (\<forall>(c, r) \<in> set rs. covers (requests_of m' c) r))"
proof (induction ns m rule: collect_loop.induct)
  case (1 m)
  then show ?case by simp
next
  case (2 n ns m)
  obtain ds ps where d: "direct_child_requests n = Inr ds" and p: "propagated_child_requests n m = Inr ps"
    and l: "collect_loop ns (foldl add_request m (ds @ ps)) = Inr m'"
    using 2(4) by (auto simp: res_simps)
  define m1 where "m1 = foldl add_request m (ds @ ps)"
  have "\<forall>(c, r) \<in> set (ds @ ps). is_strict r"
    using direct_strict [OF _ d] propagated_strict [OF 2(2) p] 2(3) by auto
  note a = add_requests_cover [OF 2(2) this, folded m1_def]
  have "\<forall>n \<in> set ns. no_order (op n)" using 2(3) by simp
  from 2(1) [of ds ps, folded m1_def, OF _ this l [folded m1_def]] a
  have IH: "strict_map m'" "\<And>n x. covers (requests_of m1 n) x \<Longrightarrow> covers (requests_of m' n) x"
    "\<forall>n \<in> set ns. \<exists>rs. direct_child_requests n = Inr rs \<and> (\<forall>(c, r) \<in> set rs. covers (requests_of m' c) r)"
    by auto
  have "\<forall>(c, r) \<in> set ds. covers (requests_of m' c) r" using a IH(2) by fastforce
  then show ?case using IH a d by auto
qed

text \<open>C39: no consumer is forgotten.  In a plan without operators that ask for an order, when the
  requests have been collected, every strict request a join or a group-by makes of one of its
  inputs is covered by a candidate at that input: whatever partitioning satisfies the
  candidate satisfies the request, however many consumers share the input.\<close>

theorem collected_requests_cover_consumers:
  assumes "collect_partitioning_requests root = Inr m" and "\<forall>n \<in> subnodes root. no_order (op n)"
    and "n \<in> subnodes root"
  shows "\<exists>rs. direct_child_requests n = Inr rs \<and> (\<forall>(c, r) \<in> set rs. covers (requests_of m c) r)"
proof -
  have "strict_map []" by (simp add: strict_map_def requests_of_def)
  from collect_loop_covers [OF this _ assms(1) [unfolded collect_partitioning_requests_def]]
    assms(2,3) post_traversal_yields [of "[root]"]
  show ?thesis by (simp add: below_def)
qed

text \<open>A scan with two group-bys, by a and by (a, b).\<close>

definition scan_plan :: ir where
  "scan_plan = Node \<lparr>ir_op = OtherOp, ir_schema = [''a'', ''b''], ir_rest = 0\<rparr> []"

definition group_plan :: "string list \<Rightarrow> ir" where
  "group_plan ks = Node \<lparr>ir_op = GroupByOp (map (\<lambda>k. \<lparr>ne_name = k, ne_value = Col k Int64Type\<rparr>) ks) False,
     ir_schema = ks, ir_rest = 0\<rparr> [scan_plan]"

definition two_groups :: ir where
  "two_groups = Node \<lparr>ir_op = OtherOp, ir_schema = [''a''], ir_rest = 1\<rparr> [group_plan [''a''], group_plan [''a'', ''b'']]"

lemmas plan_defs = scan_plan_def group_plan_def two_groups_def

lemma two_groups_requests:
  "collect_partitioning_requests two_groups = Inr [(scan_plan, [StrictRequest [''a'']])]"
  by (simp add: collect_partitioning_requests_def post_traversal_def plan_defs direct_child_requests_def
      propagated_child_requests_def op_def add_request_def requests_of_def merge_candidate_request_def is_prefix_def)

lemma collected_requests_cover_consumers_witness:
  "covers (requests_of [(scan_plan, [StrictRequest [''a'']])] scan_plan) (StrictRequest [''a'', ''b''])"
  using collected_requests_cover_consumers [OF two_groups_requests, of "group_plan [''a'', ''b'']"]
  by (simp add: plan_defs op_def direct_child_requests_def)

section \<open>Null positions\<close>

text \<open>The sort arguments put the nulls where polars wants them.  \<open>sort_order\<close> succeeds exactly
  when each option, a single value being repeated, has one entry per key; then key i is
  sorted descending when asked to, and its nulls are at the start of the sorted column, as
  \<open>nulls_at_start\<close> reads the two flags back, exactly when they are not to be last.\<close>

theorem sort_order_places_nulls:
  "(case sort_order descending nulls_last n of
      Inl e \<Rightarrow> e = ValueError \<and> \<not> (length (broadcast n descending) = n \<and> length (broadcast n nulls_last) = n)
    | Inr (order, nulls) \<Rightarrow>
        order = map (\<lambda>d. if d then Descending else Ascending) (broadcast n descending)
        \<and> length order = n \<and> list_all2 (\<lambda>(d, b) l. nulls_at_start d b \<noteq> l) (zip order nulls) (broadcast n nulls_last))"
proof -
  define ds where "ds = broadcast n descending"
  define ns where "ns = broadcast n nulls_last"
  define f where "f = (\<lambda>(asc, null_last). if (asc = Ascending) \<noteq> (\<not> null_last) then [NullAfter]
             else if (asc = Ascending) \<noteq> null_last then [NullBefore] else [])"
  have "list_all2 (\<lambda>(d, b) l. nulls_at_start d b \<noteq> l) (zip ord (concat (map f (zip ord ns)))) ns" if "length ord = length ns" for ord
    using that
  proof (induction ord ns rule: list_induct2)
    case (Cons d ord l ns)
    then show ?case by (cases d; cases l) (simp_all add: f_def nulls_at_start_def)
  qed simp
  moreover have "sort_order descending nulls_last n =
      (let order = map (\<lambda>d. if d then Descending else Ascending) ds
       in if length ds \<noteq> length ns \<or> length ds \<noteq> n then Inl ValueError else Inr (order, concat (map f (zip order ns))))"
    by (simp only: sort_order_def Let_def ds_def ns_def f_def)
  ultimately show ?thesis by (auto simp: Let_def simp flip: ds_def ns_def)
qed

section \<open>Scopes\<close>

fun request_names :: "request \<Rightarrow> string set" where
  "request_names (StrictRequest ks) = set ks"
| "request_names (OrderRequest ks c s) = ok_name ` set ks"

definition columns_in :: "named_expr list \<Rightarrow> string list \<Rightarrow> bool" where
  "columns_in es names \<longleftrightarrow> (\<forall>e \<in> set es. case col_name (ne_value e) of None \<Rightarrow> True | Some c \<Rightarrow> c \<in> set names)"

text \<open>The well-formedness of a node that the translation from polars establishes: the arity, and
  that expressions read columns of their input.\<close>

definition node_ok :: "ir \<Rightarrow> bool" where
  "node_ok n \<longleftrightarrow>
     (case op n of
        SelectOp es \<Rightarrow> children n \<noteq> [] \<and> columns_in es (child_schema n 0)
      | OverOp es \<Rightarrow> children n \<noteq> [] \<and> columns_in es (child_schema n 0)
      | HStackOp es \<Rightarrow> children n \<noteq> [] \<and> columns_in es (child_schema n 0)
      | GroupByOp ks _ \<Rightarrow> children n \<noteq> [] \<and> columns_in ks (child_schema n 0)
      | RollingOp e \<Rightarrow> children n \<noteq> [] \<and> columns_in [e] (child_schema n 0)
      | SortOp by _ _ \<Rightarrow> children n \<noteq> [] \<and> columns_in by (child_schema n 0)
      | HintSortedOp names _ _ \<Rightarrow> children n \<noteq> [] \<and> set names \<subseteq> set (child_schema n 0)
      | JoinOp how l r _ _ _ \<Rightarrow> 2 \<le> length (children n)
          \<and> columns_in l (child_schema n 0) \<and> columns_in r (child_schema n 1)
      | OtherOp \<Rightarrow> True
      | HConcatOp _ \<Rightarrow> True
      | _ \<Rightarrow> children n \<noteq> [])"

definition scoped :: "ir \<Rightarrow> bindings \<Rightarrow> bool" where
  "scoped n b \<longleftrightarrow> (\<forall>(out, i, c) \<in> set b. i < length (children n) \<and> c \<in> set (child_schema n i))"

lemma set_dset: "set (dset k v d) \<subseteq> insert (k, v) (set d)"
  by (induction d) auto

lemma set_dict_from: "set (dict_from d ps) \<subseteq> set d \<union> set ps"
proof (induction ps arbitrary: d)
  case (Cons p ps)
  show ?case using Cons [of "dset (fst p) (snd p) d"] set_dset [of "fst p" "snd p" d] by auto
qed simp

lemma set_dict_of: "set (dict_of ps) \<subseteq> set ps"
  using set_dict_from [of "[]" ps] by (simp add: dict_of_def)

lemma scoped_direct:
  "columns_in es (child_schema n 0) \<Longrightarrow> children n \<noteq> [] \<Longrightarrow> scoped n (direct_columns es)"
  using set_dict_of unfolding scoped_def direct_columns_def columns_in_def
  by (fastforce split: option.splits)

lemma scoped_same:
  "set names \<subseteq> set (child_schema n i) \<Longrightarrow> i < length (children n) \<Longrightarrow> scoped n (same_names i names)"
  using set_dict_of unfolding scoped_def same_names_def by fastforce

lemma scoped_dset: "scoped n b \<Longrightarrow> i < length (children n) \<Longrightarrow> c \<in> set (child_schema n i) \<Longrightarrow> scoped n (dset k (i, c) b)"
  using set_dset [of k "(i, c)" b] unfolding scoped_def by blast

lemma scoped_foldl:
  assumes "scoped n b" and "\<And>b x. x \<in> set xs \<Longrightarrow> scoped n b \<Longrightarrow> scoped n (f b x)"
  shows "scoped n (foldl f b xs)"
  using assms by (induction xs arbitrary: b) auto

lemma scoped_dict_or:
  "scoped n a \<Longrightarrow> scoped n b \<Longrightarrow> scoped n (dict_or a b)"
  unfolding dict_or_def
  by (erule scoped_foldl) (auto intro!: scoped_dset simp: scoped_def [of n b])

lemma scoped_keys:
  assumes b: "scoped n b" and i: "1 < length (children n)" and r: "columns_in r (child_schema n 1)"
  shows "scoped n (key_bindings l r ns b)"
  unfolding key_bindings_def
proof (rule scoped_foldl [OF b])
  fix b and x :: "named_expr \<times> named_expr"
  assume x: "x \<in> set (zip l r)" and b: "scoped n b"
  obtain e f where ef: "x = (e, f)" by fastforce
  then have "f \<in> set r" using x by (auto dest: set_zip_rightD)
  then have "c \<in> set (child_schema n 1)" if "col_name (ne_value f) = Some c" for c
    using r that by (auto simp: columns_in_def)
  then show "scoped n (case x of (l, r) \<Rightarrow>
      case (col_name (ne_value l), col_name (ne_value r)) of
        (Some _, Some c) \<Rightarrow> (if ne_name l \<in> set ns then dset (ne_name l) (1, c) b else b)
      | _ \<Rightarrow> b)" using b i by (auto simp: ef intro!: scoped_dset split: option.splits)
qed

lemma scoped_right:
  "scoped n b \<Longrightarrow> 1 < length (children n) \<Longrightarrow> scoped n (right_bindings names suffix (child_schema n 1) ns b)"
  unfolding right_bindings_def by (erule scoped_foldl) (auto simp: Let_def intro!: scoped_dset)

lemma scoped_nil [simp]: "scoped n []"
  by (simp add: scoped_def)

lemma scoped_join:
  assumes ch: "2 \<le> length (children n)" and r: "columns_in r (child_schema n 1)"
    and b: "join_bindings how l r suffix co rf (child_schema n 0) (child_schema n 1) ns = Inr b"
  shows "scoped n b"
proof -
  have i: "0 < length (children n)" "1 < length (children n)" using ch by auto
  have left: "scoped n (same_names 0 (filter P (child_schema n 0)))" "scoped n (same_names 0 (child_schema n 0))"
    "scoped n (same_names 0 (filter (\<lambda>c. c \<in> set (child_schema n 0)) ns))" for P
    by (auto intro!: scoped_same i(1))
  define b0 where "b0 = (if how = JCross \<or> how = JInner then same_names 0 (child_schema n 0) else [])"
  have b0: "scoped n b0" using left(2) by (simp add: b0_def)
  then have b1: "scoped n (if P then key_bindings l r ns b0 else b0)" for P using scoped_keys [OF b0 i(2) r] by simp
  show ?thesis
  proof (cases "how = JSemi \<or> how = JAnti \<or> how = JLeft \<or> how = JFull")
    case True
    then show ?thesis using b left by (elim disjE) (auto simp: join_bindings_def)
  next
    case False
    define names where "names = (if how = JRight \<and> co
      then filter (\<lambda>n. n \<notin> set (map ne_name l)) (child_schema n 0) else child_schema n 0)"
    define P where "P \<longleftrightarrow> how = JInner \<and> co \<and> rf"
    have "b = right_bindings names suffix (child_schema n 1) ns (if P then key_bindings l r ns b0 else b0)"
      using b False unfolding join_bindings_def Let_def b0_def [symmetric] names_def [symmetric] P_def [symmetric]
      by (simp split: if_split_asm)
    then show ?thesis using scoped_right [OF b1 i(2)] by simp
  qed
qed

lemma hconcat_in:
  assumes "(out, i, c) \<in> set (hconcat_bindings schemas ns)"
  shows "i < length schemas \<and> c \<in> set (schemas ! i)"
proof -
  from assms have "filter (\<lambda>i. c \<in> set (schemas ! i)) [0..<length schemas] = [i]"
    by (auto simp: hconcat_bindings_def split: list.splits)
  then have "i \<in> set (filter (\<lambda>i. c \<in> set (schemas ! i)) [0..<length schemas])" by simp
  then show ?thesis by simp
qed

lemma bindings_scoped:
  assumes ok: "node_ok n" and b: "column_domain_bindings n = Inr b"
  shows "scoped n b"
proof (cases "op n")
  case (HConcatOp safe)
  have "i < length (children n) \<and> c \<in> set (child_schema n i)"
    if "(out, i, c) \<in> set (hconcat_bindings (map schema (children n)) (schema n))" for out i c
    using hconcat_in [OF that] by (auto simp: child_schema_def)
  then show ?thesis using b by (cases safe) (auto simp: column_domain_bindings_def HConcatOp scoped_def)
next
  case (JoinOp how l r suffix co rf)
  then show ?thesis using ok b scoped_join [of n r how l suffix co rf] by (simp add: node_ok_def column_domain_bindings_def)
next
  case (HStackOp es)
  then show ?thesis
    using ok b by (auto simp: node_ok_def column_domain_bindings_def intro!: scoped_dict_or scoped_direct scoped_same)
qed (use ok b in \<open>auto simp: node_ok_def column_domain_bindings_def
      intro!: scoped_direct scoped_same split: if_splits\<close>)

lemma column_names_in: "column_names es = Some ns \<Longrightarrow> columns_in es names \<Longrightarrow> set ns \<subseteq> set names"
  by (induction es arbitrary: ns) (auto simp: columns_in_def split: option.splits)

lemma order_request_names:
  assumes "order_request names os ns src = Inr r"
  shows "request_names r = set names"
proof -
  define f where "f = (\<lambda>(n, d, b). \<lparr>ok_name = n, ok_direction = d, ok_nulls = b\<rparr>)"
  have r: "r = OrderRequest (map f (zip names (zip os ns))) None src" "length (zip os ns) = length names"
    using assms by (auto simp: order_request_def f_def split: if_splits)
  have "map ok_name (map f (zip names (zip os ns))) = map fst (zip names (zip os ns))" by (auto simp: f_def)
  also have "\<dots> = names" using r(2) by simp
  finally have "set (map ok_name (map f (zip names (zip os ns)))) = set names" by simp
  then show ?thesis by (simp add: r(1) image_image)
qed

lemma direct_in_scope:
  assumes "node_ok n" and "direct_child_requests n = Inr rs" and "(c, r) \<in> set rs"
  shows "request_names r \<subseteq> set (schema c)"
proof (cases "op n")
  case (SortOp bys os ns)
  then show ?thesis
    using assms column_names_in [of bys _ "child_schema n 0"]
    by (auto simp: direct_child_requests_def node_ok_def child_schema_def res_simps order_request_names split: option.splits)
next
  case (HintSortedOp names d l)
  then show ?thesis
    using assms by (auto simp: direct_child_requests_def node_ok_def child_schema_def res_simps order_request_names)
next
  case (JoinOp how l rk suffix co rf)
  then show ?thesis
    using assms column_names_in [of l _ "child_schema n 0"] column_names_in [of rk _ "child_schema n 1"]
    by (auto simp: direct_child_requests_def node_ok_def child_schema_def subset_iff split: option.splits if_splits)
next
  case (GroupByOp ks mo)
  then show ?thesis
    using assms column_names_in [of ks _ "child_schema n 0"]
    by (auto simp: direct_child_requests_def node_ok_def child_schema_def subset_iff split: option.splits if_splits)
qed (use assms in \<open>auto simp: direct_child_requests_def\<close>)

lemma those_map_set: "those (map f xs) = Some ys \<Longrightarrow> y \<in> set ys \<Longrightarrow> \<exists>x \<in> set xs. f x = Some y"
  by (induction xs arbitrary: ys) (auto split: option.splits)

lemma remap_in:
  assumes "remap_request f r = Some r'" and "c \<in> request_names r'"
  shows "\<exists>k. f k = Some c"
proof (cases r)
  case (StrictRequest ks)
  then show ?thesis using assms by (auto simp: remap_names_def dest: those_map_set)
next
  case (OrderRequest ks cn s)
  obtain ns where ns: "remap_names f (map ok_name ks) = Some ns"
    and r': "r' = OrderRequest (map (\<lambda>(n, k). k\<lparr>ok_name := n\<rparr>) (zip ns ks)) cn s"
    using assms(1) by (auto simp: OrderRequest)
  have c: "c \<in> set ns" using assms(2) by (auto simp: r' dest: set_zip_leftD)
  show ?thesis using ns(1) c those_map_set [of f "map ok_name ks" ns c] by (auto simp: remap_names_def)
qed

lemma propagated_in_scope:
  assumes "node_ok n" and "propagated_child_requests n m = Inr rs" and "(c, r) \<in> set rs"
  shows "request_names r \<subseteq> set (schema c)"
proof -
  obtain qs b q where len: "length (children n) = 1" and b: "column_domain_bindings n = Inr b"
    and c: "c = children n ! 0" and q: "remap_request (map_option snd \<circ> map_of b) q = Some r"
    using assms(2,3)
    by (auto simp: propagated_child_requests_def res_simps List.map_filter_def split: option.splits if_splits)
  have sc: "scoped n b" by (rule bindings_scoped [OF assms(1) b])
  show ?thesis
  proof
    fix x assume "x \<in> request_names r"
    from remap_in [OF q this] obtain k i where "map_of b k = Some (i, x)" by auto
    then have "(k, i, x) \<in> set b" by (rule map_of_SomeD)
    with sc have "i < length (children n)" "x \<in> set (child_schema n i)" by (auto simp: scoped_def)
    then show "x \<in> set (schema c)" using len by (simp add: c child_schema_def)
  qed
qed

lemma merge_names: "merge_requests l r = Some m \<Longrightarrow> request_names m \<subseteq> request_names l \<union> request_names r"
  by (induction l r rule: merge_requests.induct) (auto simp: merge_order_with_strict_def Let_def split: if_splits)

lemma merge_loop_names:
  "merge_loop xs cs new i = (cs', new', i') \<Longrightarrow>
   (\<Union>r \<in> set cs'. request_names r) \<union> request_names new'
     \<subseteq> (\<Union>r \<in> set xs \<union> set cs. request_names r) \<union> request_names new"
proof (induction xs cs new i rule: merge_loop.induct)
  case (2 x xs cs new i)
  then show ?case using merge_names [of x new] by (fastforce split: option.splits if_splits)
qed simp

lemma merge_candidate_names:
  assumes "q \<in> set (merge_candidate_request ms r)"
  shows "request_names q \<subseteq> (\<Union>x \<in> set ms. request_names x) \<union> request_names r"
proof -
  obtain cs new i where l: "merge_loop ms [] r None = (cs, new, i)" by (metis prod_cases3)
  show ?thesis using merge_loop_names [OF l] assms by (auto simp: set_merge_candidate [OF l])
qed

definition scoped_map :: "request_map \<Rightarrow> bool" where
  "scoped_map m \<longleftrightarrow> (\<forall>n. \<forall>r \<in> set (requests_of m n). request_names r \<subseteq> set (schema n))"

lemma scoped_add:
  assumes "scoped_map m" and "request_names r \<subseteq> set (schema c)"
  shows "scoped_map (add_request m (c, r))"
proof -
  have "(\<Union>x \<in> set (requests_of m c). request_names x) \<union> request_names r \<subseteq> set (schema c)"
    using assms by (auto simp: scoped_map_def)
  then show ?thesis
    using assms(1) merge_candidate_names by (auto simp: scoped_map_def requests_add) blast
qed

lemma scoped_adds:
  "scoped_map m \<Longrightarrow> \<forall>(c, r) \<in> set rs. request_names r \<subseteq> set (schema c) \<Longrightarrow> scoped_map (foldl add_request m rs)"
  by (induction rs arbitrary: m) (auto simp: scoped_add)

lemma collect_loop_scoped:
  "scoped_map m \<Longrightarrow> \<forall>n \<in> set ns. node_ok n \<Longrightarrow> collect_loop ns m = Inr m' \<Longrightarrow> scoped_map m'"
proof (induction ns m rule: collect_loop.induct)
  case (2 n ns m)
  obtain ds ps where d: "direct_child_requests n = Inr ds" and p: "propagated_child_requests n m = Inr ps"
    and l: "collect_loop ns (foldl add_request m (ds @ ps)) = Inr m'"
    using 2(4) by (auto simp: res_simps)
  have "\<forall>(c, r) \<in> set (ds @ ps). request_names r \<subseteq> set (schema c)"
    using direct_in_scope [OF _ d] propagated_in_scope [OF _ p] 2(3) by (simp add: ball_Un) blast
  from scoped_adds [OF 2(2) this] 2(1) [of ds ps] d p l 2(3) show ?case by simp
qed simp

text \<open>C40: requests only name columns of the node they are attached to.  In a well-formed plan,
  whatever consumers, renamings and joins a request passes through on its way up from the
  operator that makes it, the keys of every collected request are columns of the schema of
  its node.\<close>

theorem collected_requests_in_scope:
  assumes "collect_partitioning_requests root = Inr m" and "\<forall>n \<in> subnodes root. node_ok n"
    and "r \<in> set (requests_of m n)"
  shows "request_names r \<subseteq> set (schema n)"
proof -
  have "scoped_map []" by (simp add: scoped_map_def requests_of_def)
  from collect_loop_scoped [OF this _ assms(1) [unfolded collect_partitioning_requests_def]]
    assms(2,3) post_traversal_yields [of "[root]"]
  show ?thesis by (simp add: below_def scoped_map_def)
qed

lemma collected_requests_in_scope_witness:
  "request_names (StrictRequest [''a'']) \<subseteq> set (schema scan_plan)"
  by (rule collected_requests_in_scope [OF two_groups_requests])
    (simp_all add: requests_of_def plan_defs node_ok_def op_def child_schema_def schema_def columns_in_def)

end
