(* ===== verification/KeyOrder.thy ===== *)
theory KeyOrder
  imports PartitioningModel
begin

text \<open>
  How rows are compared by sort keys: the order of two nullable values for a direction and a null
  order, which is the one \<open>nulls_at_start\<close> of \<open>cudf_polars/utils/sorting.py\<close> reads off a sorted
  column, and the lexicographic order of tuples.  The locale states what the metadata and the
  sort components use of the order of one key; the facts about tuples are proved in it.
\<close>

section \<open>Tuples\<close>

fun tuple_lt :: "('k \<Rightarrow> 'v \<Rightarrow> 'v \<Rightarrow> bool) \<Rightarrow> 'k list \<Rightarrow> 'v list \<Rightarrow> 'v list \<Rightarrow> bool" where
  "tuple_lt lt (k # ks) (x # xs) (y # ys) \<longleftrightarrow> lt k x y \<or> (x = y \<and> tuple_lt lt ks xs ys)"
| "tuple_lt lt _ _ _ \<longleftrightarrow> False"

definition tuple_le :: "('k \<Rightarrow> 'v \<Rightarrow> 'v \<Rightarrow> bool) \<Rightarrow> 'k list \<Rightarrow> 'v list \<Rightarrow> 'v list \<Rightarrow> bool" where
  "tuple_le lt ks xs ys \<longleftrightarrow> tuple_lt lt ks xs ys \<or> xs = ys"

lemma tuple_le_refl [simp]: "tuple_le lt ks xs xs"
  by (simp add: tuple_le_def)

lemma tuple_le_Nil [simp]: "tuple_le lt [] xs ys \<longleftrightarrow> xs = ys"
  by (simp add: tuple_le_def)

lemma tuple_le_Cons [simp]:
  "tuple_le lt (k # ks) (x # xs) (y # ys) \<longleftrightarrow> lt k x y \<or> (x = y \<and> tuple_le lt ks xs ys)"
  by (auto simp: tuple_le_def)

lemma tuple_le_take:
  "length xs = length ks \<Longrightarrow> length ys = length ks \<Longrightarrow> tuple_le lt ks xs ys
   \<Longrightarrow> tuple_le lt (take n ks) (take n xs) (take n ys)"
proof (induction ks arbitrary: xs ys n)
  case (Cons k ks)
  then obtain x xs' y ys' where "xs = x # xs'" "ys = y # ys'"
    by (metis length_Suc_conv)
  then show ?case using Cons by (cases n) auto
qed simp

locale key_order =
  fixes lt :: "'k \<Rightarrow> 'v \<Rightarrow> 'v \<Rightarrow> bool"
  assumes lt_irrefl: "\<not> lt k x x"
    and lt_trans: "lt k x y \<Longrightarrow> lt k y z \<Longrightarrow> lt k x z"
    and lt_total: "x \<noteq> y \<Longrightarrow> lt k x y \<or> lt k y x"
begin

lemma tuple_irrefl: "\<not> tuple_lt lt ks xs xs"
  by (induction ks arbitrary: xs) (metis tuple_lt.simps lt_irrefl list.exhaust)+

lemma tuple_trans: "tuple_lt lt ks xs ys \<Longrightarrow> tuple_lt lt ks ys zs \<Longrightarrow> tuple_lt lt ks xs zs"
proof (induction ks arbitrary: xs ys zs)
  case (Cons k ks)
  obtain x xs' y ys' z zs' where "xs = x # xs'" "ys = y # ys'" "zs = z # zs'"
    using Cons.prems by (metis list.exhaust tuple_lt.simps(3,4))
  then show ?case using Cons.prems Cons.IH [of xs' ys' zs'] lt_trans [of k x y z] by auto
qed simp

lemma tuple_total:
  "length xs = length ks \<Longrightarrow> length ys = length ks \<Longrightarrow> xs \<noteq> ys \<Longrightarrow> tuple_lt lt ks xs ys \<or> tuple_lt lt ks ys xs"
proof (induction ks arbitrary: xs ys)
  case (Cons k ks)
  then obtain x xs' y ys' where "xs = x # xs'" "ys = y # ys'" by (metis length_Suc_conv)
  then show ?case using Cons lt_total [of x y k] by auto
qed simp

lemma tuple_le_trans: "tuple_le lt ks xs ys \<Longrightarrow> tuple_le lt ks ys zs \<Longrightarrow> tuple_le lt ks xs zs"
  by (auto simp: tuple_le_def intro: tuple_trans)

lemma tuple_lt_le_trans: "tuple_lt lt ks xs ys \<Longrightarrow> tuple_le lt ks ys zs \<Longrightarrow> tuple_lt lt ks xs zs"
  by (auto simp: tuple_le_def intro: tuple_trans)

lemma tuple_le_lt_trans: "tuple_le lt ks xs ys \<Longrightarrow> tuple_lt lt ks ys zs \<Longrightarrow> tuple_lt lt ks xs zs"
  by (auto simp: tuple_le_def intro: tuple_trans)

lemma tuple_not_lt:
  "length xs = length ks \<Longrightarrow> length ys = length ks \<Longrightarrow> \<not> tuple_lt lt ks xs ys \<longleftrightarrow> tuple_le lt ks ys xs"
  using tuple_total [of xs ks ys] tuple_irrefl [of ks] tuple_trans [of ks xs ys xs]
  by (auto simp: tuple_le_def)

text \<open>Columns on which two tuples agree can be dropped from the comparison.\<close>

lemma tuple_le_drop_equal:
  "tuple_le lt (map f ks) (map r ks) (map s ks) \<Longrightarrow> \<forall>k \<in> set ks. \<not> P k \<longrightarrow> r k = s k
   \<Longrightarrow> tuple_le lt (map f (filter P ks)) (map r (filter P ks)) (map s (filter P ks))"
  by (induction ks) (auto simp: lt_irrefl)

end

section \<open>Nullable values\<close>

definition value_lt :: "sort_direction \<times> null_order \<Rightarrow> 'a::linorder option \<Rightarrow> 'a option \<Rightarrow> bool" where
  "value_lt k x y =
     (case (x, y) of
        (None, None) \<Rightarrow> False
      | (None, Some _) \<Rightarrow> nulls_at_start (fst k) (snd k)
      | (Some _, None) \<Rightarrow> \<not> nulls_at_start (fst k) (snd k)
      | (Some a, Some b) \<Rightarrow> (if fst k = Ascending then a < b else b < a))"

interpretation nullable: key_order value_lt
proof (unfold_locales, goal_cases)
  case (1 k x)
  then show ?case by (simp add: value_lt_def split: option.splits)
next
  case (2 k x y z)
  then show ?case by (simp add: value_lt_def split: option.splits if_splits)
next
  case (3 x y k)
  then show ?case by (cases x; cases y) (auto simp: value_lt_def)
qed

end
