(* ===== verification/MetadataModel.thy ===== *)
theory MetadataModel
  imports KeyOrder
begin

text \<open>
  Partitioning metadata of the streaming engine of cudf-polars
  (\<open>cudf_polars/streaming/actor_graph/partitioning.py\<close>) on the metadata classes of cudf-streaming
  (\<open>cudf_streaming/channel_metadata.pyx\<close>).  The data a stream delivers is a list of ranks, each
  a list of chunks, each a list of rows; the theory says when metadata is true of such data, and
  shows that what is concluded from metadata, and what is left of it after an operator, is true.
\<close>

section \<open>Metadata\<close>

record okey =
  ko_index :: nat
  ko_order :: sort_direction
  ko_nulls :: null_order

datatype row_scope = GlobalScope | RankLocal

record row_ordering =
  ro_keys :: "okey list"
  ro_scope :: row_scope
  ro_groups :: "nat list"

record 'v key_ordering =
  or_keys :: "okey list"
  or_bounds :: "'v list list"
  or_strict :: bool

datatype 'v scheme = NoScheme | Inherit | HashScheme "nat list" nat | OrderScheme "'v key_ordering list"

record 'v partitioning =
  pt_inter :: "'v scheme"
  pt_local :: "'v scheme"
  pt_rows :: "row_ordering list"

definition new_row_ordering :: "okey list \<Rightarrow> row_scope \<Rightarrow> nat list \<Rightarrow> row_ordering res" where
  "new_row_ordering keys scope groups =
     (if keys = [] \<or> (\<exists>k \<in> set keys. ko_index k \<in> set groups) then Inl ValueError
      else Inr \<lparr>ro_keys = keys, ro_scope = scope, ro_groups = groups\<rparr>)"

definition flags :: "okey list \<Rightarrow> (sort_direction \<times> null_order) list" where
  "flags keys = map (\<lambda>k. (ko_order k, ko_nulls k)) keys"

definition boundaries_aligned_with :: "'v key_ordering \<Rightarrow> 'v key_ordering \<Rightarrow> bool" where
  "boundaries_aligned_with a b \<longleftrightarrow>
     or_strict a = or_strict b \<and> length (or_keys a) = length (or_keys b)
     \<and> flags (or_keys a) = flags (or_keys b) \<and> or_bounds a = or_bounds b"

section \<open>Matching keys\<close>

definition hash_keys_match :: "nat list \<Rightarrow> nat list \<Rightarrow> bool \<Rightarrow> bool" where
  "hash_keys_match current key_indices allow_subset \<longleftrightarrow>
     (if allow_subset then take (length current) key_indices else key_indices) = current"

definition ordering_keys_match :: "'v key_ordering \<Rightarrow> nat list \<Rightarrow> okey list option \<Rightarrow> bool \<Rightarrow> bool" where
  "ordering_keys_match kord key_indices order_keys allow_subset \<longleftrightarrow>
     (let n = length (or_keys kord) in
      if (if allow_subset then length key_indices < n else n \<noteq> length key_indices) then False
      else case order_keys of
          Some ks \<Rightarrow> or_keys kord = take n ks
        | None \<Rightarrow> map ko_index (or_keys kord) = take n key_indices)"

text \<open>\<open>max\<close> with a key returns the first of the longest.\<close>

fun longest :: "nat \<times> 'v key_ordering \<Rightarrow> (nat \<times> 'v key_ordering) list \<Rightarrow> nat \<times> 'v key_ordering" where
  "longest m [] = m"
| "longest m (x # xs) =
     longest (if length (or_keys (snd m)) < length (or_keys (snd x)) then x else m) xs"

definition matching_order_scheme ::
  "'v key_ordering list \<Rightarrow> nat list \<Rightarrow> okey list option \<Rightarrow> bool \<Rightarrow> 'v scheme" where
  "matching_order_scheme orderings key_indices order_keys allow_subset =
     (case filter (\<lambda>m. ordering_keys_match (snd m) key_indices order_keys allow_subset)
             (zip [0..<length orderings] orderings) of
        [] \<Rightarrow> NoScheme
      | m # ms \<Rightarrow>
          (let (index, kord) = longest m ms
           in OrderScheme (kord # take index orderings @ drop (index + 1) orderings)))"

fun keys_match :: "'v scheme \<Rightarrow> nat list \<Rightarrow> okey list option \<Rightarrow> bool \<Rightarrow> 'v scheme" where
  "keys_match (HashScheme cols m) key_indices order_keys allow_subset =
     (if hash_keys_match cols key_indices allow_subset then HashScheme cols m else NoScheme)"
| "keys_match (OrderScheme os) key_indices order_keys allow_subset =
     matching_order_scheme os key_indices order_keys allow_subset"
| "keys_match _ key_indices order_keys allow_subset = NoScheme"

section \<open>Row orderings\<close>

definition row_ordering_implies :: "row_ordering \<Rightarrow> row_ordering \<Rightarrow> bool" where
  "row_ordering_implies actual required =
     (if ro_scope required = GlobalScope \<and> ro_scope actual \<noteq> GlobalScope then False
      else if \<not> set (ro_groups actual) \<subseteq> set (ro_groups required) then False
      else
        (let newly_grouped = set (ro_groups required) - set (ro_groups actual);
             remaining_keys = filter (\<lambda>k. ko_index k \<notin> newly_grouped) (ro_keys actual)
         in take (length (ro_keys required)) remaining_keys = ro_keys required))"

definition is_row_ordered_by ::
  "'v partitioning option \<Rightarrow> okey list \<Rightarrow> nat list \<Rightarrow> row_scope \<Rightarrow> bool res" where
  "is_row_ordered_by p order_keys group_keys scope =
     (case p of
        None \<Rightarrow> Inr False
      | Some p \<Rightarrow>
          (if order_keys = [] then Inr False
           else rbind (new_row_ordering order_keys scope group_keys) (\<lambda>required.
             Inr (list_ex (\<lambda>actual. row_ordering_implies actual required) (pt_rows p)))))"

definition deduplicate_row_orderings :: "row_ordering list \<Rightarrow> row_ordering list" where
  "deduplicate_row_orderings orderings = foldl (\<lambda>result x. if x \<notin> set result then result @ [x] else result) [] orderings"

definition partitioning_or_none ::
  "'v scheme \<Rightarrow> 'v scheme \<Rightarrow> row_ordering list \<Rightarrow> 'v partitioning option" where
  "partitioning_or_none inter_rank local_scheme row_orderings =
     (let local_scheme = (if inter_rank = NoScheme \<and> local_scheme = Inherit then NoScheme else local_scheme);
          row_orderings = deduplicate_row_orderings row_orderings
      in if inter_rank = NoScheme \<and> local_scheme = NoScheme \<and> row_orderings = [] then None
         else Some \<lparr>pt_inter = inter_rank, pt_local = local_scheme, pt_rows = row_orderings\<rparr>)"

definition replace_row_orderings :: "'v partitioning \<Rightarrow> row_ordering list \<Rightarrow> 'v partitioning res" where
  "replace_row_orderings p row_orderings =
     (if row_orderings = [] then Inl ValueError
      else of_option AssertionError (partitioning_or_none (pt_inter p) (pt_local p) row_orderings))"

definition add_row_ordering :: "'v partitioning \<Rightarrow> row_ordering \<Rightarrow> 'v partitioning res" where
  "add_row_ordering p row_ordering = replace_row_orderings p (pt_rows p @ [row_ordering])"

section \<open>Names, indices and key remapping\<close>

definition name_index :: "string list \<Rightarrow> string \<Rightarrow> nat option" where
  "name_index names n = map_of (rev (zip names [0..<length names])) n"

definition names_to_indices :: "string list \<Rightarrow> string list \<Rightarrow> nat list res" where
  "names_to_indices names sch = rmap (\<lambda>n. of_option KeyError (name_index sch n)) names"

definition indices_to_names :: "nat list \<Rightarrow> string list \<Rightarrow> string list res" where
  "indices_to_names indices sch =
     rmap (\<lambda>i. of_option IndexError (if i < length sch then Some (sch ! i) else None)) indices"

definition remap_order_keys :: "okey list \<Rightarrow> nat list \<Rightarrow> okey list res" where
  "remap_order_keys keys new_indices =
     (if length keys \<noteq> length new_indices then Inl ValueError
      else Inr (map (\<lambda>(k, i). k\<lparr>ko_index := i\<rparr>) (zip keys new_indices)))"

definition with_keys :: "'v key_ordering \<Rightarrow> okey list \<Rightarrow> 'v key_ordering res" where
  "with_keys kord keys =
     (if length keys \<noteq> length (or_keys kord) \<or> keys = [] then Inl ValueError
      else Inr (kord\<lparr>or_keys := keys\<rparr>))"

definition remap_ordering_keys :: "'v key_ordering \<Rightarrow> nat list \<Rightarrow> 'v key_ordering res" where
  "remap_ordering_keys kord new_indices =
     rbind (remap_order_keys (or_keys kord) new_indices) (with_keys kord)"

fun unwrap_truncate_transparent_casts :: "expression \<Rightarrow> expression" where
  "unwrap_truncate_transparent_casts (CastExpr dst e) =
     (if expr_type e \<noteq> dst \<and> {expr_type e, dst} \<noteq> {Int64Type, TimestampNs} then CastExpr dst e
      else unwrap_truncate_transparent_casts e)"
| "unwrap_truncate_transparent_casts e = e"

definition truncate_source_name :: "expression \<Rightarrow> string option" where
  "truncate_source_name e =
     (case unwrap_truncate_transparent_casts e of
        TruncateExpr _ child _ \<Rightarrow> col_name (unwrap_truncate_transparent_casts child)
      | _ \<Rightarrow> None)"

record derived_key =
  dk_prefix :: nat
  dk_order :: sort_direction
  dk_nulls :: null_order
  dk_strict :: bool

definition match_derived_key :: "named_expr \<Rightarrow> string list \<Rightarrow> okey list \<Rightarrow> derived_key option" where
  "match_derived_key ne key_names keys =
     (case truncate_source_name (ne_value ne) of
        None \<Rightarrow> None
      | Some source \<Rightarrow>
          (if source \<notin> set key_names then None
           else
             (let i = length (takeWhile (\<lambda>n. n \<noteq> source) key_names)
              in Some \<lparr>dk_prefix = i, dk_order = ko_order (keys ! i), dk_nulls = ko_nulls (keys ! i),
                       dk_strict = False\<rparr>)))"

type_synonym targets = "(string, string list) pydict"

definition direct_column_targets :: "ir \<Rightarrow> nat \<Rightarrow> targets res" where
  "direct_column_targets n child_index =
     rbind (column_domain_bindings n) (\<lambda>b.
       Inr (foldl (\<lambda>t (out, i, name).
         if i = child_index
         then dset name ((case map_of t name of None \<Rightarrow> [] | Some outs \<Rightarrow> outs) @ [out]) t else t) [] b))"

fun remap_names_loop :: "string list \<Rightarrow> targets \<Rightarrow> bool \<Rightarrow> string list option" where
  "remap_names_loop [] t allow_prefix = Some []"
| "remap_names_loop (n # ns) t allow_prefix =
     (case map_of t n of
        None \<Rightarrow> (if allow_prefix then Some [] else None)
      | Some outs \<Rightarrow> map_option ((#) (if n \<in> set outs then n else hd outs)) (remap_names_loop ns t allow_prefix))"

definition remap_direct_names :: "string list \<Rightarrow> targets \<Rightarrow> bool \<Rightarrow> string list option" where
  "remap_direct_names names t allow_prefix =
     (if names = [] then Some []
      else case remap_names_loop names t allow_prefix of None \<Rightarrow> None | Some [] \<Rightarrow> None | r \<Rightarrow> r)"

record key_remapping =
  kr_keys :: "okey list"
  kr_expr :: "named_expr option"
  kr_prefix :: nat
  kr_strict :: bool

definition direct_candidates ::
  "string list \<Rightarrow> string list \<Rightarrow> okey list \<Rightarrow> targets \<Rightarrow> key_remapping list res" where
  "direct_candidates out_schema key_names keys t =
     (case remap_direct_names key_names t True of
        None \<Rightarrow> Inr []
      | Some target_names \<Rightarrow>
          rbind (names_to_indices target_names out_schema) (\<lambda>is.
          rbind (remap_order_keys (take (length target_names) keys) is) (\<lambda>ks.
          rbind (if length target_names = 1
                 then rmap (\<lambda>alias.
                        rbind (names_to_indices [alias] out_schema) (\<lambda>js. remap_order_keys (take 1 keys) js))
                      (filter (\<lambda>a. a \<noteq> hd target_names) (the (map_of t (hd key_names))))
                 else Inr []) (\<lambda>aliases.
            Inr (map (\<lambda>ks. \<lparr>kr_keys = ks, kr_expr = None, kr_prefix = 0, kr_strict = True\<rparr>) (ks # aliases))))))"

definition derived_candidate ::
  "string list \<Rightarrow> string list \<Rightarrow> okey list \<Rightarrow> targets \<Rightarrow> named_expr \<Rightarrow> key_remapping list res" where
  "derived_candidate out_schema key_names keys t ne =
     (case match_derived_key ne key_names keys of
        None \<Rightarrow> Inr []
      | Some d \<Rightarrow>
          (case remap_direct_names (take (dk_prefix d) key_names) t False of
             None \<Rightarrow> Inr []
           | Some prefix_names \<Rightarrow>
               rbind (names_to_indices (prefix_names @ [ne_name ne]) out_schema) (\<lambda>is.
               rbind (remap_order_keys
                   (take (dk_prefix d) keys @ [\<lparr>ko_index = 0, ko_order = dk_order d, ko_nulls = dk_nulls d\<rparr>]) is)
                 (\<lambda>ks. Inr [\<lparr>kr_keys = ks, kr_expr = Some ne, kr_prefix = dk_prefix d, kr_strict = dk_strict d\<rparr>]))))"

definition remap_key_candidates ::
  "ir \<Rightarrow> ir \<Rightarrow> okey list \<Rightarrow> targets \<Rightarrow> named_expr list \<Rightarrow> key_remapping list res" where
  "remap_key_candidates n child keys t exprs =
     rbind (indices_to_names (map ko_index keys) (schema child)) (\<lambda>key_names.
     rbind (direct_candidates (schema n) key_names keys t) (\<lambda>direct.
     rbind (rmap (derived_candidate (schema n) key_names keys t) exprs) (\<lambda>derived.
       Inr (direct @ concat derived))))"

definition remap_row_ordering ::
  "ir \<Rightarrow> ir \<Rightarrow> targets \<Rightarrow> named_expr list \<Rightarrow> row_ordering \<Rightarrow> row_ordering list res" where
  "remap_row_ordering n child t exprs kord =
     rbind (indices_to_names (ro_groups kord) (schema child)) (\<lambda>group_names.
       case remap_direct_names group_names t False of
         None \<Rightarrow> Inr []
       | Some names \<Rightarrow>
           rbind (names_to_indices names (schema n)) (\<lambda>groups.
           rbind (remap_key_candidates n child (ro_keys kord) t exprs) (\<lambda>candidates.
             rmap (\<lambda>c. new_row_ordering (kr_keys c) (ro_scope kord) groups) candidates)))"

definition remap_row_orderings ::
  "ir \<Rightarrow> ir \<Rightarrow> row_ordering list \<Rightarrow> targets \<Rightarrow> named_expr list \<Rightarrow> row_ordering list res" where
  "remap_row_orderings n child row_orderings t exprs =
     rbind (rmap (remap_row_ordering n child t exprs) row_orderings) (\<lambda>rs.
       Inr (deduplicate_row_orderings (concat rs)))"

text \<open>\<open>ev\<close> stands for the evaluation of an expression on a row of the boundary table, given by the
  values of its named columns; \<open>has_context\<close> tells whether a context was passed.\<close>

definition derive_boundaries ::
  "(named_expr \<Rightarrow> (string \<rightharpoonup> 'v) \<Rightarrow> 'v) \<Rightarrow> string list \<Rightarrow> nat \<Rightarrow> named_expr \<Rightarrow> 'v list list \<Rightarrow> 'v list list" where
  "derive_boundaries ev names prefix ne rows = map (\<lambda>row. take prefix row @ [ev ne (map_of (zip names row))]) rows"

definition remap_ordering ::
  "(named_expr \<Rightarrow> (string \<rightharpoonup> 'v) \<Rightarrow> 'v) \<Rightarrow> ir \<Rightarrow> ir \<Rightarrow> targets \<Rightarrow> named_expr list \<Rightarrow> bool
   \<Rightarrow> 'v key_ordering \<Rightarrow> 'v key_ordering list res" where
  "remap_ordering ev n child t exprs has_context kord =
     rbind (remap_key_candidates n child (or_keys kord) t exprs) (\<lambda>candidates.
     rbind (rmap (\<lambda>c. remap_ordering_keys kord (map ko_index (kr_keys c)))
        (filter (\<lambda>c. kr_expr c = None \<and> length (kr_keys c) = length (or_keys kord)) candidates)) (\<lambda>direct.
     if \<not> has_context then Inr direct
     else
       rbind (indices_to_names (map ko_index (or_keys kord)) (schema child)) (\<lambda>names.
         Inr (direct @ concat (map (\<lambda>c.
           case kr_expr c of
             None \<Rightarrow> []
           | Some ne \<Rightarrow>
               [\<lparr>or_keys = kr_keys c, or_bounds = derive_boundaries ev names (kr_prefix c) ne (or_bounds kord),
                 or_strict = or_strict kord \<and> kr_strict c\<rparr>]) candidates)))))"

fun remap_scheme ::
  "(named_expr \<Rightarrow> (string \<rightharpoonup> 'v) \<Rightarrow> 'v) \<Rightarrow> ir \<Rightarrow> ir \<Rightarrow> 'v scheme \<Rightarrow> targets \<Rightarrow> named_expr list \<Rightarrow> bool
   \<Rightarrow> 'v scheme res" where
  "remap_scheme ev n child (HashScheme cols m) t exprs has_context =
     rbind (indices_to_names cols (schema child)) (\<lambda>names.
       case remap_direct_names names t False of
         None \<Rightarrow> Inr NoScheme
       | Some targets \<Rightarrow> rbind (names_to_indices targets (schema n)) (\<lambda>is. Inr (HashScheme is m)))"
| "remap_scheme ev n child (OrderScheme os) t exprs has_context =
     rbind (rmap (remap_ordering ev n child t exprs has_context) os) (\<lambda>rs.
       Inr (if concat rs \<noteq> [] then OrderScheme (concat rs) else NoScheme))"
| "remap_scheme ev n child s t exprs has_context = Inr s"

definition node_exprs :: "ir \<Rightarrow> named_expr list" where
  "node_exprs n = (case op n of SelectOp es \<Rightarrow> es | HStackOp es \<Rightarrow> es | _ \<Rightarrow> [])"

text \<open>\<open>preserves_output_order\<close> is the property of that name of the node classes.\<close>

definition maybe_remap_partitioning ::
  "(named_expr \<Rightarrow> (string \<rightharpoonup> 'v) \<Rightarrow> 'v) \<Rightarrow> (ir \<Rightarrow> bool) \<Rightarrow> ir \<Rightarrow> 'v partitioning option \<Rightarrow> nat option
   \<Rightarrow> bool \<Rightarrow> bool option \<Rightarrow> 'v partitioning option res" where
  "maybe_remap_partitioning ev preserves_output_order n p child_index has_context preserves_row_order =
     (let unary = length (children n) = 1;
          child_index = (if unary \<and> child_index = None then Some 0 else child_index);
          preserves = (if unary \<and> preserves_row_order = None then Some (preserves_output_order n)
            else preserves_row_order)
      in case (child_index, preserves) of
           (Some ci, Some pres) \<Rightarrow>
             (if \<not> ci < length (children n) then Inl ValueError
              else case p of
                  None \<Rightarrow> Inr None
                | Some p \<Rightarrow>
                    rbind (direct_column_targets n ci) (\<lambda>t.
                    rbind (remap_scheme ev n (children n ! ci) (pt_inter p) t (node_exprs n) has_context) (\<lambda>inter_rank.
                    rbind (remap_scheme ev n (children n ! ci) (pt_local p) t (node_exprs n) has_context) (\<lambda>local_scheme.
                    rbind (if pres then remap_row_orderings n (children n ! ci) (pt_rows p) t (node_exprs n) else Inr [])
                      (\<lambda>rows. Inr (partitioning_or_none inter_rank local_scheme rows))))))
         | _ \<Rightarrow> Inl ValueError)"

section \<open>Partitioning for requested keys\<close>

record 'v normalized =
  np_inter :: "'v scheme"
  np_local :: "'v scheme"

datatype level = Flat | InterRankLevel | LocalLevel

datatype requested_keys = Columns "nat list" | OrderKeys "okey list"

definition normalized_bool :: "'v normalized \<Rightarrow> bool" where
  "normalized_bool p \<longleftrightarrow> np_inter p \<noteq> NoScheme \<and> np_local p \<noteq> NoScheme"

fun scheme_for_level :: "'v normalized \<Rightarrow> level \<Rightarrow> 'v scheme" where
  "scheme_for_level p Flat = (if np_local p \<noteq> Inherit then NoScheme else np_inter p)"
| "scheme_for_level p InterRankLevel = np_inter p"
| "scheme_for_level p LocalLevel = np_local p"

fun scheme_is_strict :: "'v scheme \<Rightarrow> bool" where
  "scheme_is_strict NoScheme = False"
| "scheme_is_strict Inherit = False"
| "scheme_is_strict (OrderScheme os) = or_strict (os ! 0)"
| "scheme_is_strict (HashScheme cols m) = True"

definition is_strictly_partitioned :: "'v normalized \<Rightarrow> level \<Rightarrow> bool" where
  "is_strictly_partitioned p level \<longleftrightarrow> scheme_is_strict (scheme_for_level p level)"

definition get_ordering :: "'v normalized \<Rightarrow> level \<Rightarrow> 'v key_ordering option" where
  "get_ordering p level = (case scheme_for_level p level of OrderScheme os \<Rightarrow> Some (os ! 0) | _ \<Rightarrow> None)"

fun schemes_aligned :: "'v scheme \<Rightarrow> 'v scheme \<Rightarrow> bool" where
  "schemes_aligned (OrderScheme os) r \<longleftrightarrow>
     (case r of OrderScheme os' \<Rightarrow> boundaries_aligned_with (os ! 0) (os' ! 0) | _ \<Rightarrow> False)"
| "schemes_aligned (HashScheme cols m) r \<longleftrightarrow>
     (case r of HashScheme cols' m' \<Rightarrow> m = m' \<and> length cols = length cols' | _ \<Rightarrow> False)"
| "schemes_aligned l r \<longleftrightarrow> l = Inherit \<and> r = Inherit"

definition is_aligned_with :: "'v normalized \<Rightarrow> 'v normalized \<Rightarrow> bool" where
  "is_aligned_with p q \<longleftrightarrow>
     (let local_schemes_strict =
            (np_local p = Inherit \<and> np_local q = Inherit)
            \<or> (scheme_is_strict (np_local p) \<and> scheme_is_strict (np_local q))
      in is_strictly_partitioned p InterRankLevel \<and> is_strictly_partitioned q InterRankLevel
         \<and> local_schemes_strict
         \<and> schemes_aligned (np_inter p) (np_inter q) \<and> schemes_aligned (np_local p) (np_local q))"

definition normalize_schemes ::
  "'v partitioning option \<Rightarrow> nat list \<Rightarrow> nat \<Rightarrow> okey list option \<Rightarrow> bool \<Rightarrow> 'v scheme \<times> 'v scheme" where
  "normalize_schemes metadata key_indices nranks order_keys allow_subset =
     (if key_indices = [] then (NoScheme, NoScheme)
      else
        (let trivial = (if nranks = 1 \<and> order_keys = None then HashScheme key_indices 1 else NoScheme)
         in case metadata of
              None \<Rightarrow> (trivial, NoScheme)
            | Some md \<Rightarrow>
                (let matched_inter_rank = keys_match (pt_inter md) key_indices order_keys allow_subset;
                     inter_rank_scheme = (if matched_inter_rank \<noteq> NoScheme then matched_inter_rank else trivial)
                 in if inter_rank_scheme = NoScheme \<and> nranks > 1 then (NoScheme, NoScheme)
                    else
                      (let matched_local = keys_match (pt_local md) key_indices order_keys allow_subset;
                           local_scheme = (if matched_local \<noteq> NoScheme then matched_local
                             else if pt_local md = Inherit then Inherit else NoScheme)
                       in if matched_inter_rank = NoScheme \<and> nranks = 1
                          then if local_scheme \<noteq> NoScheme \<and> local_scheme \<noteq> Inherit then (local_scheme, Inherit)
                               else if trivial \<noteq> NoScheme then (trivial, NoScheme)
                               else (NoScheme, NoScheme)
                          else (inter_rank_scheme, local_scheme)))))"

definition from_keys ::
  "'v partitioning option \<Rightarrow> nat \<Rightarrow> requested_keys \<Rightarrow> bool \<Rightarrow> 'v normalized" where
  "from_keys metadata nranks keys allow_subset =
     (let (inter_rank, local_scheme) =
        (case keys of
           Columns cols \<Rightarrow>
             if cols = [] then (NoScheme, NoScheme) else normalize_schemes metadata cols nranks None allow_subset
         | OrderKeys ks \<Rightarrow>
             if ks = [] then (NoScheme, NoScheme)
             else normalize_schemes metadata (map ko_index ks) nranks (Some ks) allow_subset)
      in \<lparr>np_inter = inter_rank, np_local = local_scheme\<rparr>)"

section \<open>Data the metadata is true of\<close>

type_synonym 'v vrow = "nat \<Rightarrow> 'v"

type_synonym 'v stream = "'v vrow list list list"

definition key_values :: "okey list \<Rightarrow> 'v vrow \<Rightarrow> 'v list" where
  "key_values keys r = map (\<lambda>k. r (ko_index k)) keys"

text \<open>Rows of one group of equal group columns come in the order of the keys.\<close>

definition rows_ordered :: "row_ordering \<Rightarrow> 'a::linorder option vrow list \<Rightarrow> bool" where
  "rows_ordered ro rows \<longleftrightarrow>
     sorted_wrt (\<lambda>r s. (\<forall>c \<in> set (ro_groups ro). r c = s c) \<longrightarrow>
        tuple_le value_lt (flags (ro_keys ro)) (key_values (ro_keys ro) r) (key_values (ro_keys ro) s)) rows"

definition row_ordering_holds :: "row_ordering \<Rightarrow> 'a::linorder option stream \<Rightarrow> bool" where
  "row_ordering_holds ro data \<longleftrightarrow>
     (case ro_scope ro of
        GlobalScope \<Rightarrow> rows_ordered ro (concat (concat data))
      | RankLocal \<Rightarrow> (\<forall>rank \<in> set data. rows_ordered ro (concat rank)))"

text \<open>The partition numbers of a row: under a hash scheme the hash of its columns modulo the modulus
  (\<open>hash\<close> is the hash function of libcudf), under an ordering every range between two neighbouring
  boundaries it lies in; strict boundaries belong to the range before them.\<close>

definition in_range :: "'a::linorder option key_ordering \<Rightarrow> 'a option vrow \<Rightarrow> nat \<Rightarrow> bool" where
  "in_range kord r p \<longleftrightarrow>
     p \<le> length (or_bounds kord)
     \<and> (0 < p \<longrightarrow>
          (if or_strict kord then tuple_lt else tuple_le) value_lt (flags (or_keys kord))
             (or_bounds kord ! (p - 1)) (key_values (or_keys kord) r))
     \<and> (p < length (or_bounds kord) \<longrightarrow>
          tuple_le value_lt (flags (or_keys kord)) (key_values (or_keys kord) r) (or_bounds kord ! p))"

definition bounds_ok :: "'a::linorder option key_ordering \<Rightarrow> bool" where
  "bounds_ok kord \<longleftrightarrow>
     (\<forall>b \<in> set (or_bounds kord). length b = length (or_keys kord))
     \<and> sorted_wrt (tuple_le value_lt (flags (or_keys kord))) (or_bounds kord)"

text \<open>A scheme holds for a list of parts when one placement of its partitions explains where every
  row is.\<close>

fun scheme_holds ::
  "('a::linorder option list \<Rightarrow> nat) \<Rightarrow> 'a option scheme \<Rightarrow> 'a option vrow list list \<Rightarrow> bool" where
  "scheme_holds hash (HashScheme cols m) parts \<longleftrightarrow>
     (\<exists>place. \<forall>i < length parts. \<forall>r \<in> set (parts ! i). place (hash (map r cols) mod m) = i)"
| "scheme_holds hash (OrderScheme os) parts \<longleftrightarrow>
     (\<forall>kord \<in> set os. bounds_ok kord \<and>
        (\<exists>place. \<forall>i < length parts. \<forall>r \<in> set (parts ! i). \<exists>p. in_range kord r p \<and> place p = i))"
| "scheme_holds hash NoScheme parts \<longleftrightarrow> True"
| "scheme_holds hash Inherit parts \<longleftrightarrow> True"

definition partitioning_holds ::
  "('a::linorder option list \<Rightarrow> nat) \<Rightarrow> 'a option partitioning \<Rightarrow> 'a option stream \<Rightarrow> bool" where
  "partitioning_holds hash p data \<longleftrightarrow>
     scheme_holds hash (pt_inter p) (map concat data)
     \<and> (pt_local p = Inherit \<longrightarrow> scheme_holds hash (pt_inter p) (concat data))
     \<and> (\<forall>rank \<in> set data. scheme_holds hash (pt_local p) rank)
     \<and> (\<forall>ro \<in> set (pt_rows p). row_ordering_holds ro data)"

text \<open>Rows that agree on the given columns are in the same part.\<close>

definition colocated :: "nat list \<Rightarrow> 'v vrow list list \<Rightarrow> bool" where
  "colocated cols parts \<longleftrightarrow>
     (\<forall>i < length parts. \<forall>j < length parts. \<forall>r \<in> set (parts ! i). \<forall>s \<in> set (parts ! j).
        map r cols = map s cols \<longrightarrow> i = j)"

section \<open>Row orderings are implied soundly\<close>

lemma key_values_filter: "key_values (filter P keys) r = map (\<lambda>k. r (ko_index k)) (filter P keys)"
  by (simp add: key_values_def)

lemma rows_ordered_implied:
  assumes "row_ordering_implies actual required" and "rows_ordered actual rows"
  shows "rows_ordered required rows"
proof -
  define P where "P = (\<lambda>k :: okey. ko_index k \<notin> set (ro_groups required) - set (ro_groups actual))"
  have groups: "set (ro_groups actual) \<subseteq> set (ro_groups required)"
    and keys: "ro_keys required = take (length (ro_keys required)) (filter P (ro_keys actual))"
    using assms(1) by (auto simp: row_ordering_implies_def P_def Let_def split: if_splits)
  have "tuple_le value_lt (flags (ro_keys required)) (key_values (ro_keys required) r) (key_values (ro_keys required) s)"
    if le: "tuple_le value_lt (flags (ro_keys actual)) (key_values (ro_keys actual) r) (key_values (ro_keys actual) s)"
      and eq: "\<forall>c \<in> set (ro_groups required). r c = s c" for r s :: "'a option vrow"
  proof -
    have "tuple_le value_lt (flags (filter P (ro_keys actual)))
        (key_values (filter P (ro_keys actual)) r) (key_values (filter P (ro_keys actual)) s)"
      using nullable.tuple_le_drop_equal [of "\<lambda>k. (ko_order k, ko_nulls k)" "ro_keys actual"
          "\<lambda>k. r (ko_index k)" "\<lambda>k. s (ko_index k)" P] le eq
      by (auto simp: flags_def key_values_def P_def)
    from tuple_le_take [OF _ _ this, of "length (ro_keys required)"] show ?thesis
      by (subst (1 2 3) keys) (simp add: flags_def key_values_def take_map)
  qed
  then show ?thesis
    using assms(2) groups unfolding rows_ordered_def by (auto elim!: sorted_wrt_mono_rel [rotated])
qed

lemma concat_concat: "concat (concat xsss) = concat (map concat xsss)"
  by (induction xsss) simp_all

lemma rows_ordered_concat: "rows_ordered ro (concat xss) \<Longrightarrow> xs \<in> set xss \<Longrightarrow> rows_ordered ro xs"
  by (induction xss) (auto simp: rows_ordered_def sorted_wrt_append)

text \<open>C14: what \<open>is_row_ordered_by\<close> concludes is true.  When metadata that is true of a stream is said
  to prove an order of the rows by some keys, in a scope and within groups of equal columns,
  then the rows of the stream are in that order: also when the scope is smaller, when the groups
  are refined and grouped columns leave the keys, and for a prefix of the keys.\<close>

theorem is_row_ordered_by_sound:
  assumes "is_row_ordered_by (Some p) order_keys group_keys scope = Inr True"
    and "partitioning_holds hash p data"
  shows "row_ordering_holds \<lparr>ro_keys = order_keys, ro_scope = scope, ro_groups = group_keys\<rparr> data"
proof -
  let ?req = "\<lparr>ro_keys = order_keys, ro_scope = scope, ro_groups = group_keys\<rparr>"
  obtain actual where a: "actual \<in> set (pt_rows p)" "row_ordering_implies actual ?req"
    using assms(1) by (auto simp: is_row_ordered_by_def new_row_ordering_def list_ex_iff res_simps split: if_splits)
  have h: "row_ordering_holds actual data" using assms(2) a(1) by (simp add: partitioning_holds_def)
  have scope: "scope = GlobalScope \<longrightarrow> ro_scope actual = GlobalScope"
    using a(2) by (auto simp: row_ordering_implies_def split: if_splits)
  have imp: "rows_ordered actual rows \<Longrightarrow> rows_ordered ?req rows" for rows :: "'a option vrow list"
    by (rule rows_ordered_implied [OF a(2)])
  show ?thesis
  proof (cases "ro_scope actual")
    case GlobalScope
    then have g: "rows_ordered actual (concat (map concat data))" using h by (simp add: row_ordering_holds_def concat_concat)
    then show ?thesis using imp rows_ordered_concat [OF g]
      by (auto simp: row_ordering_holds_def concat_concat split: row_scope.splits)
  next
    case RankLocal
    then show ?thesis using h scope imp by (cases scope) (auto simp: row_ordering_holds_def)
  qed
qed

text \<open>Two columns sorted globally by both are sorted by the second within groups of the first.\<close>

definition sorted_stream :: "nat option stream" where
  "sorted_stream = [[[\<lambda>_. Some 1, \<lambda>i. if i = 0 then Some 1 else Some 3]], [[\<lambda>i. if i = 0 then Some 4 else None]]]"

definition sorted_metadata :: "nat option partitioning" where
  "sorted_metadata = \<lparr>pt_inter = NoScheme, pt_local = NoScheme, pt_rows =
     [\<lparr>ro_keys = map (\<lambda>i. \<lparr>ko_index = i, ko_order = Ascending, ko_nulls = NullAfter\<rparr>) [0, 1],
       ro_scope = GlobalScope, ro_groups = []\<rparr>]\<rparr>"

lemma is_row_ordered_by_sound_witness:
  "row_ordering_holds \<lparr>ro_keys = [\<lparr>ko_index = 1, ko_order = Ascending, ko_nulls = NullAfter\<rparr>],
     ro_scope = RankLocal, ro_groups = [0]\<rparr> sorted_stream"
proof (rule is_row_ordered_by_sound)
  show "is_row_ordered_by (Some sorted_metadata) [\<lparr>ko_index = 1, ko_order = Ascending, ko_nulls = NullAfter\<rparr>]
      [0] RankLocal = Inr True"
    by (simp add: is_row_ordered_by_def new_row_ordering_def row_ordering_implies_def sorted_metadata_def)
  show "partitioning_holds (\<lambda>_. 0) sorted_metadata sorted_stream"
    by (simp add: partitioning_holds_def sorted_metadata_def sorted_stream_def row_ordering_holds_def
        rows_ordered_def flags_def key_values_def value_lt_def)
qed

section \<open>Strict partitioning is concluded soundly\<close>

fun scheme_columns :: "'v scheme \<Rightarrow> nat list" where
  "scheme_columns (HashScheme cols m) = cols"
| "scheme_columns (OrderScheme os) = map ko_index (or_keys (os ! 0))"
| "scheme_columns _ = []"

fun scheme_ok :: "'v scheme \<Rightarrow> bool" where
  "scheme_ok (OrderScheme os) \<longleftrightarrow> os \<noteq> []"
| "scheme_ok _ \<longleftrightarrow> True"

lemma map_subset_cong: "map r zs = map s zs \<Longrightarrow> set cols \<subseteq> set zs \<Longrightarrow> map r cols = map s cols"
  by (auto simp: subset_iff)

lemma in_range_unique:
  assumes "bounds_ok kord" and "or_strict kord" and "in_range kord r p" and "in_range kord s q"
    and eq: "key_values (or_keys kord) r = key_values (or_keys kord) s"
  shows "\<not> p < q"
proof
  assume pq: "p < q"
  let ?fl = "flags (or_keys kord)" and ?b = "or_bounds kord"
  have q: "q \<le> length ?b" "tuple_lt value_lt ?fl (?b ! (q - 1)) (key_values (or_keys kord) r)"
    using assms(2,4) eq pq by (auto simp: in_range_def)
  have p: "tuple_le value_lt ?fl (key_values (or_keys kord) r) (?b ! p)"
    using assms(3) pq q(1) by (simp add: in_range_def)
  have "tuple_le value_lt ?fl (?b ! p) (?b ! (q - 1))"
  proof (cases "p = q - 1")
    case False
    then show ?thesis using assms(1) pq q(1) by (simp add: bounds_ok_def sorted_wrt_iff_nth_less)
  qed simp
  from nullable.tuple_le_trans [OF p this] q(2) nullable.tuple_le_lt_trans nullable.tuple_irrefl
  show False by blast
qed

lemma strict_scheme_colocated:
  assumes holds: "scheme_holds hash s parts" and "scheme_is_strict s" and "scheme_ok s"
    and cols: "set (scheme_columns s) \<subseteq> set cols"
  shows "colocated cols parts"
proof (cases s)
  case (HashScheme hs m)
  then obtain place where p: "\<And>i r. i < length parts \<Longrightarrow> r \<in> set (parts ! i) \<Longrightarrow> place (hash (map r hs) mod m) = i"
    using holds by auto
  have "set hs \<subseteq> set cols" using cols HashScheme by simp
  then show ?thesis unfolding colocated_def by (metis p map_subset_cong)
next
  case (OrderScheme os)
  define kord where "kord = os ! 0"
  have o: "kord \<in> set os" "or_strict kord" "set (map ko_index (or_keys kord)) \<subseteq> set cols"
    using assms OrderScheme by (auto simp: kord_def)
  have ok: "bounds_ok kord"
    and ex: "\<exists>place. \<forall>i < length parts. \<forall>r \<in> set (parts ! i). \<exists>p. in_range kord r p \<and> place p = i"
    using holds OrderScheme o(1) by simp_all
  then obtain place where p: "\<And>i r. i < length parts \<Longrightarrow> r \<in> set (parts ! i) \<Longrightarrow> \<exists>p. in_range kord r p \<and> place p = i"
    by blast
  show ?thesis unfolding colocated_def
  proof (intro allI impI ballI)
    fix i j r t
    assume ij: "i < length parts" "j < length parts" and rt: "r \<in> set (parts ! i)" "t \<in> set (parts ! j)"
      and eq: "map r cols = map t cols"
    obtain a b where ab: "in_range kord r a" "place a = i" "in_range kord t b" "place b = j"
      using p [OF ij(1) rt(1)] p [OF ij(2) rt(2)] by blast
    have "key_values (or_keys kord) r = key_values (or_keys kord) t"
      using map_subset_cong [OF eq o(3)] by (simp add: key_values_def)
    then have "\<not> a < b" "\<not> b < a"
      using in_range_unique [OF ok o(2) ab(1,3)] in_range_unique [OF ok o(2) ab(3,1)] by auto
    then have "a = b" by simp
    then show "i = j" using ab by simp
  qed
qed (use assms(2) in simp_all)

lemma longest_in: "longest m ms \<in> set (m # ms)"
  by (induction ms arbitrary: m) (simp_all, metis)

lemma keys_match_sound:
  assumes "keys_match s key_indices order_keys sub \<noteq> NoScheme"
    and oks: "\<And>ks. order_keys = Some ks \<Longrightarrow> key_indices = map ko_index ks"
  shows "scheme_ok (keys_match s key_indices order_keys sub)"
    and "keys_match s key_indices order_keys sub \<noteq> Inherit"
    and "set (scheme_columns (keys_match s key_indices order_keys sub)) \<subseteq> set key_indices"
    and "scheme_holds hash s parts \<Longrightarrow> scheme_holds hash (keys_match s key_indices order_keys sub) parts"
proof -
  have "scheme_ok (keys_match s key_indices order_keys sub)
     \<and> keys_match s key_indices order_keys sub \<noteq> Inherit
     \<and> set (scheme_columns (keys_match s key_indices order_keys sub)) \<subseteq> set key_indices
     \<and> (scheme_holds hash s parts \<longrightarrow> scheme_holds hash (keys_match s key_indices order_keys sub) parts)"
  proof (cases s)
    case (HashScheme cols m)
    then have "hash_keys_match cols key_indices sub" using assms(1) by (simp split: if_splits)
    then show ?thesis using HashScheme
      by (auto simp: hash_keys_match_def split: if_splits dest: in_set_takeD) (metis in_set_takeD)
  next
    case (OrderScheme os)
    obtain m ms where f: "filter (\<lambda>m. ordering_keys_match (snd m) key_indices order_keys sub)
        (zip [0..<length os] os) = m # ms"
      using assms(1) by (cases "filter (\<lambda>m. ordering_keys_match (snd m) key_indices order_keys sub)
        (zip [0..<length os] os)") (simp_all add: OrderScheme matching_order_scheme_def)
    obtain i kord where l: "longest m ms = (i, kord)" by fastforce
    then have "(i, kord) \<in> set (filter (\<lambda>m. ordering_keys_match (snd m) key_indices order_keys sub)
        (zip [0..<length os] os))" using longest_in [of m ms] by (simp add: f)
    then have "(i, kord) \<in> set (zip [0..<length os] os)" and km: "ordering_keys_match kord key_indices order_keys sub"
      by simp_all
    then have kord: "kord \<in> set os" by (auto dest: set_zip_rightD)
    have r: "keys_match s key_indices order_keys sub = OrderScheme (kord # take i os @ drop (i + 1) os)"
      by (simp add: OrderScheme matching_order_scheme_def f l)
    have "set (map ko_index (or_keys kord)) \<subseteq> set key_indices"
    proof (cases order_keys)
      case None
      then show ?thesis using km by (auto simp: ordering_keys_match_def Let_def split: if_splits dest: in_set_takeD)
          (metis image_eqI in_set_takeD list.set_map)+
    next
      case (Some ks)
      then have "or_keys kord = take (length (or_keys kord)) ks"
        using km by (simp add: ordering_keys_match_def Let_def split: if_splits)
      then have "set (or_keys kord) \<subseteq> set ks" by (metis set_take_subset)
      then show ?thesis using oks [OF Some] by auto
    qed
    then show ?thesis unfolding r using kord
      by (auto simp: OrderScheme dest: in_set_takeD in_set_dropD)
  qed (use assms(1) in simp_all)
  then show "scheme_ok (keys_match s key_indices order_keys sub)"
    and "keys_match s key_indices order_keys sub \<noteq> Inherit"
    and "set (scheme_columns (keys_match s key_indices order_keys sub)) \<subseteq> set key_indices"
    and "scheme_holds hash s parts \<Longrightarrow> scheme_holds hash (keys_match s key_indices order_keys sub) parts"
    by blast+
qed

lemma colocated_single: "length parts \<le> 1 \<Longrightarrow> colocated cols parts"
  by (auto simp: colocated_def)

fun level_parts :: "level \<Rightarrow> 'v stream \<Rightarrow> 'v vrow list list list" where
  "level_parts Flat data = [concat data]"
| "level_parts InterRankLevel data = [map concat data]"
| "level_parts LocalLevel data = data"

lemma strict_not_none: "scheme_is_strict s \<Longrightarrow> s \<noteq> NoScheme"
  by auto

lemma normalize_schemes_sound:
  assumes holds: "\<And>p. metadata = Some p \<Longrightarrow> partitioning_holds hash p data"
    and oks: "\<And>ks. order_keys = Some ks \<Longrightarrow> key_indices = map ko_index ks"
    and n: "normalize_schemes metadata key_indices (length data) order_keys sub = (across, within)"
    and strict: "is_strictly_partitioned \<lparr>np_inter = across, np_local = within\<rparr> level"
    and parts: "parts \<in> set (level_parts level data)"
  shows "colocated key_indices parts"
proof (cases metadata)
  case None
  have "level = InterRankLevel \<and> length data = 1"
    using n strict None
    by (cases level) (auto simp: normalize_schemes_def is_strictly_partitioned_def Let_def split: if_splits)
  then show ?thesis using parts by (simp add: colocated_single)
next
  case (Some md)
  have h: "partitioning_holds hash md data" using holds Some .
  define mi where "mi = keys_match (pt_inter md) key_indices order_keys sub"
  define ml where "ml = keys_match (pt_local md) key_indices order_keys sub"
  have loc: "colocated key_indices rank" if "ml \<noteq> NoScheme" "scheme_is_strict ml" "rank \<in> set data" for rank
    using strict_scheme_colocated [of hash ml rank key_indices] that h
      keys_match_sound(1,3) [OF that(1) [unfolded ml_def] oks] keys_match_sound(4) [OF that(1) [unfolded ml_def] oks, of hash rank] by (simp add: ml_def partitioning_holds_def)
  have int: "colocated key_indices qs"
    if "mi \<noteq> NoScheme" "scheme_is_strict mi" "scheme_holds hash (pt_inter md) qs" for qs
    using strict_scheme_colocated [of hash mi qs key_indices] that
      keys_match_sound(1,3) [OF that(1) [unfolded mi_def] oks] keys_match_sound(4) [OF that(1) [unfolded mi_def] oks, of hash qs] by (simp add: mi_def)
  have ml_inherit: "ml \<noteq> Inherit" using keys_match_sound(2) [of "pt_local md" key_indices order_keys sub] oks
    by (cases "ml = NoScheme") (auto simp: ml_def)
  have cases: "(length data \<le> 1 \<and> within = NoScheme) \<or> (length data = 1 \<and> ml \<noteq> NoScheme \<and> across = ml \<and> within = Inherit)
      \<or> (mi \<noteq> NoScheme \<and> across = mi \<and> (within = ml \<or> within = Inherit \<and> pt_local md = Inherit))
      \<or> across = NoScheme \<and> within = NoScheme
      \<or> across = NoScheme \<and> length data = 0"
    using n unfolding normalize_schemes_def Some Let_def mi_def [symmetric] ml_def [symmetric] option.case
    by (auto simp: not_less le_Suc_eq split: if_splits)
  then consider (one) "length data \<le> 1" "within = NoScheme"
    | (single) "length data = 1" "ml \<noteq> NoScheme" "across = ml" "within = Inherit"
    | (both) "mi \<noteq> NoScheme" "across = mi" "within = ml \<or> within = Inherit \<and> pt_local md = Inherit"
    | (none) "across = NoScheme" "within = NoScheme"
    | (empty) "across = NoScheme" "length data = 0" by blast
  then show ?thesis
  proof cases
    case one
    then show ?thesis using parts strict by (cases level) (auto simp: is_strictly_partitioned_def colocated_single)
  next
    case single
    then obtain rank where d: "data = [rank]" by (cases data) auto
    then show ?thesis using single parts strict loc [of rank]
      by (cases level) (auto simp: is_strictly_partitioned_def colocated_single)
  next
    case both
    then show ?thesis using parts strict loc [OF strict_not_none] int h ml_inherit
      by (cases level) (auto simp: is_strictly_partitioned_def partitioning_holds_def split: if_splits)
  next
    case none
    then show ?thesis using strict by (cases level) (auto simp: is_strictly_partitioned_def)
  next
    case empty
    then show ?thesis using parts by (cases level) (auto simp: colocated_single)
  qed
qed

fun requested_columns :: "requested_keys \<Rightarrow> nat list" where
  "requested_columns (Columns cols) = cols"
| "requested_columns (OrderKeys ks) = map ko_index ks"

text \<open>C12: strict partitioning is never concluded wrongly.  When the partitioning resolved for some
  keys by \<open>from_keys\<close> from metadata that is true of the data says that the data is strictly
  partitioned - across ranks, across the chunks of every rank, or across all chunks - then rows
  that agree on the keys are never in two different ranks or chunks; so a join or a group-by on
  the keys may run on each part alone.\<close>

theorem strict_partitioning_sound:
  assumes "\<And>p. metadata = Some p \<Longrightarrow> partitioning_holds hash p data"
    and "is_strictly_partitioned (from_keys metadata (length data) keys allow_subset) level"
    and "parts \<in> set (level_parts level data)"
  shows "colocated (requested_columns keys) parts"
proof (cases keys)
  case (Columns cols)
  obtain i l where n: "normalize_schemes metadata cols (length data) None allow_subset = (i, l)" by fastforce
  show ?thesis
  proof (cases "cols = []")
    case False
    have "colocated cols parts"
      by (rule normalize_schemes_sound [OF assms(1) _ n _ assms(3)]) (use assms(2) Columns False n in \<open>simp_all add: from_keys_def\<close>)
    then show ?thesis by (simp add: Columns)
  qed (use assms(2) Columns in \<open>cases level; simp add: from_keys_def is_strictly_partitioned_def\<close>)
next
  case (OrderKeys ks)
  obtain i l where n: "normalize_schemes metadata (map ko_index ks) (length data) (Some ks) allow_subset = (i, l)" by fastforce
  show ?thesis
  proof (cases "ks = []")
    case False
    have "colocated (map ko_index ks) parts"
      by (rule normalize_schemes_sound [OF assms(1) _ n _ assms(3)]) (use assms(2) OrderKeys False n in \<open>simp_all add: from_keys_def\<close>)
    then show ?thesis by (simp add: OrderKeys)
  qed (use assms(2) OrderKeys in \<open>cases level; simp add: from_keys_def is_strictly_partitioned_def\<close>)
qed

definition hashed_stream :: "nat option stream" where
  "hashed_stream = [[[\<lambda>_. Some 0], [\<lambda>i. if i = 0 then Some 2 else None]], [[\<lambda>_. Some 1]]]"

lemma strict_partitioning_sound_witness:
  "colocated [0, 1] (map concat hashed_stream)"
proof -
  have "colocated (requested_columns (Columns [0, 1])) (map concat hashed_stream)"
  proof (rule strict_partitioning_sound [where level = InterRankLevel])
    fix p :: "nat option partitioning" assume "Some \<lparr>pt_inter = HashScheme [0] 2, pt_local = NoScheme, pt_rows = []\<rparr> = Some p"
    then show "partitioning_holds (\<lambda>vs. case hd vs of Some n \<Rightarrow> n | None \<Rightarrow> 0) p hashed_stream"
      by (auto simp: partitioning_holds_def hashed_stream_def less_Suc_eq intro!: exI [of _ id])
  next
    show "is_strictly_partitioned (from_keys (Some \<lparr>pt_inter = HashScheme [0] 2, pt_local = NoScheme, pt_rows = []\<rparr>)
        (length hashed_stream) (Columns [0, 1]) True) InterRankLevel"
      by (simp add: from_keys_def normalize_schemes_def hash_keys_match_def is_strictly_partitioned_def)
  qed simp
  then show ?thesis by simp
qed

section \<open>Aligned partitionings\<close>

fun partition_of :: "('a::linorder option list \<Rightarrow> nat) \<Rightarrow> 'a option scheme \<Rightarrow> 'a option vrow \<Rightarrow> nat \<Rightarrow> bool" where
  "partition_of hash (HashScheme cols m) r p \<longleftrightarrow> p = hash (map r cols) mod m"
| "partition_of hash (OrderScheme os) r p \<longleftrightarrow> in_range (os ! 0) r p"
| "partition_of hash _ r p \<longleftrightarrow> False"

definition bounded_scheme :: "'a::linorder option scheme \<Rightarrow> bool" where
  "bounded_scheme s \<longleftrightarrow> (case s of OrderScheme os \<Rightarrow> \<forall>kord \<in> set os. bounds_ok kord | _ \<Rightarrow> True)"

definition prefix_scheme :: "nat list \<Rightarrow> 'a::linorder option scheme \<Rightarrow> bool" where
  "prefix_scheme key_indices s \<longleftrightarrow>
     bounded_scheme s \<and> scheme_ok s \<and> scheme_columns s = take (length (scheme_columns s)) key_indices"

lemma keys_match_prefix:
  assumes oks: "\<And>ks. order_keys = Some ks \<Longrightarrow> key_indices = map ko_index ks" and "bounded_scheme s"
  shows "prefix_scheme key_indices (keys_match s key_indices order_keys sub)"
proof (cases s)
  case (HashScheme cols m)
  then show ?thesis
    by (auto simp: prefix_scheme_def bounded_scheme_def hash_keys_match_def split: if_splits)
next
  case (OrderScheme os)
  show ?thesis
  proof (cases "filter (\<lambda>m. ordering_keys_match (snd m) key_indices order_keys sub) (zip [0..<length os] os)")
    case Nil
    then show ?thesis by (simp add: OrderScheme matching_order_scheme_def prefix_scheme_def bounded_scheme_def)
  next
    case (Cons m ms)
    obtain i kord where l: "longest m ms = (i, kord)" by fastforce
    then have "(i, kord) \<in> set (filter (\<lambda>m. ordering_keys_match (snd m) key_indices order_keys sub)
        (zip [0..<length os] os))" using longest_in [of m ms] by (simp add: Cons)
    then have mem: "kord \<in> set os" and km: "ordering_keys_match kord key_indices order_keys sub"
      by (auto dest: set_zip_rightD)
    have "map ko_index (or_keys kord) = take (length (or_keys kord)) key_indices"
    proof (cases order_keys)
      case None
      then show ?thesis using km by (simp add: ordering_keys_match_def Let_def split: if_splits)
    next
      case (Some ks)
      then have "or_keys kord = take (length (or_keys kord)) ks"
        using km by (simp add: ordering_keys_match_def Let_def split: if_splits)
      then show ?thesis using oks [OF Some] by (metis take_map)
    qed
    then show ?thesis using assms(2) mem
      by (auto simp: OrderScheme matching_order_scheme_def Cons l prefix_scheme_def bounded_scheme_def min_def
          dest: in_set_takeD in_set_dropD)
  qed
qed (simp_all add: prefix_scheme_def bounded_scheme_def)

lemma prefix_simple [simp]:
  "prefix_scheme ks NoScheme" "prefix_scheme ks Inherit" "prefix_scheme ks (HashScheme ks m)"
  by (simp_all add: prefix_scheme_def bounded_scheme_def)

lemma normalize_schemes_prefix:
  assumes "\<And>ks. order_keys = Some ks \<Longrightarrow> key_indices = map ko_index ks"
    and "\<And>p. metadata = Some p \<Longrightarrow> bounded_scheme (pt_inter p) \<and> bounded_scheme (pt_local p)"
    and "normalize_schemes metadata key_indices nranks order_keys sub = (across, within)"
  shows "prefix_scheme key_indices across \<and> prefix_scheme key_indices within"
proof (cases metadata)
  case None
  then show ?thesis using assms(3) by (auto simp: normalize_schemes_def Let_def split: if_splits)
next
  case (Some md)
  note m = keys_match_prefix [OF assms(1), where sub = sub]
  have "prefix_scheme key_indices (keys_match (pt_inter md) key_indices order_keys sub)"
    "prefix_scheme key_indices (keys_match (pt_local md) key_indices order_keys sub)"
    using m assms(2) [OF Some] by blast+
  then show ?thesis using assms(3) Some by (auto simp: normalize_schemes_def Let_def split: if_splits)
qed

lemma from_keys_prefix:
  assumes "\<And>p. metadata = Some p \<Longrightarrow> bounded_scheme (pt_inter p) \<and> bounded_scheme (pt_local p)"
  shows "prefix_scheme (requested_columns keys) (scheme_for_level (from_keys metadata nranks keys sub) level)"
proof -
  have "prefix_scheme (requested_columns keys) (np_inter (from_keys metadata nranks keys sub))
      \<and> prefix_scheme (requested_columns keys) (np_local (from_keys metadata nranks keys sub))"
  proof (cases keys)
    case (Columns cols)
    then show ?thesis using normalize_schemes_prefix [of None cols metadata nranks sub, OF _ assms]
      by (simp add: from_keys_def split: prod.splits)
  next
    case (OrderKeys ks)
    then show ?thesis using normalize_schemes_prefix [of "Some ks" "map ko_index ks" metadata nranks sub, OF _ assms]
      by (simp add: from_keys_def split: prod.splits)
  qed
  then show ?thesis by (cases level) auto
qed

lemma holds_bounded: "scheme_holds hash s parts \<Longrightarrow> bounded_scheme s"
  by (cases s) (auto simp: bounded_scheme_def)

lemma in_range_cong:
  assumes "or_strict a = or_strict b" and "flags (or_keys a) = flags (or_keys b)" and "or_bounds a = or_bounds b"
    and "key_values (or_keys a) r = key_values (or_keys b) s"
  shows "in_range a r p \<longleftrightarrow> in_range b s p"
  by (simp add: in_range_def assms)

lemma aligned_partition_of:
  assumes al: "schemes_aligned s s'" and st: "scheme_is_strict s"
    and pre: "prefix_scheme cols s" "prefix_scheme cols' s'"
    and eq: "map r cols = map t cols'" and p: "partition_of hash s r a" "partition_of hash s' t b"
  shows "a = b"
proof (cases s)
  case (HashScheme hs m)
  then obtain hs' where s': "s' = HashScheme hs' m" "length hs = length hs'" using al by (cases s') auto
  have "map r hs = map t hs'"
    using pre eq HashScheme s' by (metis prefix_scheme_def scheme_columns.simps(1) take_map)
  then show ?thesis using p HashScheme s' by simp
next
  case (OrderScheme os)
  then obtain os' where s': "s' = OrderScheme os'" and bd: "boundaries_aligned_with (os ! 0) (os' ! 0)"
    using al by (cases s') auto
  have os: "os \<noteq> []" "bounds_ok (os ! 0)" "or_strict (os ! 0)"
    using pre(1) st OrderScheme by (auto simp: prefix_scheme_def bounded_scheme_def)
  have "key_values (or_keys (os ! 0)) r = map r (take (length (or_keys (os ! 0))) cols)"
    using pre(1) by (simp add: prefix_scheme_def OrderScheme key_values_def flip: map_map [unfolded comp_def])
  moreover have "key_values (or_keys (os' ! 0)) t = map t (take (length (or_keys (os' ! 0))) cols')"
    using pre(2) by (simp add: prefix_scheme_def s' key_values_def flip: map_map [unfolded comp_def])
  ultimately have kv: "key_values (or_keys (os ! 0)) r = key_values (or_keys (os' ! 0)) t"
    using bd eq by (simp add: boundaries_aligned_with_def flip: take_map)
  have "in_range (os ! 0) r b"
    using in_range_cong [OF _ _ _ kv, of b] bd p(2) s' by (simp add: boundaries_aligned_with_def)
  with p(1) have "\<not> a < b" "\<not> b < a"
    using in_range_unique [OF os(2,3)] OrderScheme by (auto simp del: in_range_def)
  then show ?thesis by simp
qed (use st in simp_all)

text \<open>C13: aligned sides can be joined part by part.  When the partitionings resolved for the join
  keys of two inputs are aligned, and the metadata is true of the inputs, a row of one side and a
  row of the other that agree on the join keys belong to partitions with the same number, on
  every level on which both are partitioned.\<close>

theorem aligned_rows_meet:
  assumes "\<And>p. left = Some p \<Longrightarrow> partitioning_holds hash p data"
    and "\<And>p. right = Some p \<Longrightarrow> partitioning_holds hash p data'"
    and "is_aligned_with (from_keys left n keys sub) (from_keys right n' keys' sub')"
    and "map r (requested_columns keys) = map t (requested_columns keys')"
    and "partition_of hash (scheme_for_level (from_keys left n keys sub) level) r a"
    and "partition_of hash (scheme_for_level (from_keys right n' keys' sub') level) t b"
    and "data \<noteq> []" and "data' \<noteq> []"
  shows "a = b"
proof -
  let ?l = "scheme_for_level (from_keys left n keys sub) level"
  let ?r = "scheme_for_level (from_keys right n' keys' sub') level"
  have bounded: "bounded_scheme (pt_inter p) \<and> bounded_scheme (pt_local p)"
    if "partitioning_holds hash p d" "d \<noteq> []" for p and d :: "'a option stream"
    using that holds_bounded by (cases d) (auto simp: partitioning_holds_def)
  have "schemes_aligned ?l ?r \<and> scheme_is_strict ?l"
    using assms(3,5,6) by (cases level) (auto simp: is_aligned_with_def is_strictly_partitioned_def Let_def split: if_splits)
  then show ?thesis
    using aligned_partition_of [OF _ _ from_keys_prefix from_keys_prefix assms(4,5,6)]
      bounded [OF assms(1) assms(7)] bounded [OF assms(2) assms(8)] by blast
qed

lemma aligned_rows_meet_witness: "(1 :: nat) = 1 mod 2 \<and> partition_of (\<lambda>vs. case hd vs of Some n \<Rightarrow> n | None \<Rightarrow> 0)
    (HashScheme [1] 2) (\<lambda>_. Some 1 :: nat option) 1"
proof -
  let ?hash = "\<lambda>vs :: nat option list. case hd vs of Some n \<Rightarrow> n | None \<Rightarrow> 0"
  let ?m = "\<lambda>c. Some \<lparr>pt_inter = HashScheme [c] 2, pt_local = Inherit, pt_rows = []\<rparr> :: nat option partitioning option"
  have holds: "partitioning_holds ?hash p [[]]" if "?m c = Some p" for c p
    using that by (auto simp: partitioning_holds_def)
  have al: "is_aligned_with (from_keys (?m 0) 2 (Columns [0]) True) (from_keys (?m 1) 2 (Columns [1]) True)"
    by (simp add: is_aligned_with_def from_keys_def normalize_schemes_def hash_keys_match_def is_strictly_partitioned_def)
  have "(1 :: nat) = 1 mod 2"
    by (rule aligned_rows_meet [OF holds holds al, where r = "\<lambda>_. Some 1" and t = "\<lambda>_. Some 1" and level = Flat])
      (auto simp: from_keys_def normalize_schemes_def hash_keys_match_def)
  then show ?thesis by simp
qed

section \<open>Metadata survives an operator\<close>

text \<open>How an operator's output row \<open>s\<close> comes from the row \<open>r\<close> of a child: bound columns keep their
  values, and named expressions are evaluated on the row.\<close>

definition child_values :: "ir \<Rightarrow> 'v vrow \<Rightarrow> string \<rightharpoonup> 'v" where
  "child_values child r = (\<lambda>name. map_option r (name_index (schema child) name))"

definition row_from ::
  "(named_expr \<Rightarrow> (string \<rightharpoonup> 'v) \<Rightarrow> 'v) \<Rightarrow> ir \<Rightarrow> nat \<Rightarrow> 'v vrow \<Rightarrow> 'v vrow \<Rightarrow> bool" where
  "row_from ev n ci r s \<longleftrightarrow>
     (\<forall>b out name k l. column_domain_bindings n = Inr b \<longrightarrow> (out, ci, name) \<in> set b
        \<longrightarrow> name_index (schema (children n ! ci)) name = Some k \<longrightarrow> name_index (schema n) out = Some l
        \<longrightarrow> s l = r k)
     \<and> (\<forall>e \<in> set (node_exprs n). \<forall>l. name_index (schema n) (ne_name e) = Some l
        \<longrightarrow> s l = ev e (child_values (children n ! ci) r))"

text \<open>Rows picked from a list in order, possibly more than once.\<close>

definition picked :: "'b list \<Rightarrow> 'b list \<Rightarrow> bool" where
  "picked xs ys \<longleftrightarrow> (\<exists>is. sorted is \<and> (\<forall>i \<in> set is. i < length xs) \<and> ys = map ((!) xs) is)"

definition chunk_from ::
  "(named_expr \<Rightarrow> (string \<rightharpoonup> 'v) \<Rightarrow> 'v) \<Rightarrow> ir \<Rightarrow> nat \<Rightarrow> bool \<Rightarrow> 'v vrow list \<Rightarrow> 'v vrow list \<Rightarrow> bool" where
  "chunk_from ev n ci preserves child out \<longleftrightarrow>
     (\<exists>ys. (if preserves then picked child ys else set ys \<subseteq> set child) \<and> list_all2 (row_from ev n ci) ys out)"

text \<open>What polars documents of \<open>dt.truncate\<close>, and what the casts looked through keep: a truncated
  column is a monotone function of its source.\<close>

definition truncation_monotone :: "(named_expr \<Rightarrow> (string \<rightharpoonup> 'a::linorder option) \<Rightarrow> 'a option) \<Rightarrow> bool" where
  "truncation_monotone ev \<longleftrightarrow>
     (\<forall>e source k m m' x y. truncate_source_name (ne_value e) = Some source
        \<longrightarrow> m source = Some x \<longrightarrow> m' source = Some y \<longrightarrow> value_lt k x y \<or> x = y
        \<longrightarrow> value_lt k (ev e m) (ev e m') \<or> ev e m = ev e m')"

lemma name_index_nth: "distinct names \<Longrightarrow> i < length names \<Longrightarrow> name_index names (names ! i) = Some i"
  by (auto simp: name_index_def map_of_eq_Some_iff distinct_rev rev_map [symmetric] set_zip
      simp del: rev_map intro!: exI [of _ i])

lemma fold_targets:
  assumes "map_of (foldl (\<lambda>t (out, i, name).
         if i = ci then dset name ((case map_of t name of None \<Rightarrow> [] | Some outs \<Rightarrow> outs) @ [out]) t else t) t0 b) name = Some outs"
    and "\<And>outs. map_of t0 name = Some outs \<Longrightarrow> outs \<noteq> [] \<and> (\<forall>out \<in> set outs. (out, ci, name) \<in> B)"
    and "set b \<subseteq> B"
  shows "outs \<noteq> [] \<and> (\<forall>out \<in> set outs. (out, ci, name) \<in> B)"
  using assms
proof (induction b arbitrary: t0)
  case (Cons x b)
  obtain out i nm where x: "x = (out, i, nm)" by (metis prod_cases3)
  define t1 where "t1 = (if i = ci then dset nm ((case map_of t0 nm of None \<Rightarrow> [] | Some outs \<Rightarrow> outs) @ [out]) t0 else t0)"
  have "outs \<noteq> [] \<and> (\<forall>out \<in> set outs. (out, ci, name) \<in> B)" if "map_of t1 name = Some outs" for outs
    using that Cons.prems(2,3) by (auto simp: t1_def x update_conv' split: if_splits option.splits)
  then show ?case using Cons.IH [of t1] Cons.prems(1,3) by (simp add: x t1_def)
qed simp

lemma targets_bound:
  assumes "direct_column_targets n ci = Inr t" and "map_of t name = Some outs"
  shows "outs \<noteq> [] \<and> (\<exists>b. column_domain_bindings n = Inr b \<and> (\<forall>out \<in> set outs. (out, ci, name) \<in> set b))"
proof -
  obtain b where b: "column_domain_bindings n = Inr b"
    and t: "t = foldl (\<lambda>t (out, i, name).
         if i = ci then dset name ((case map_of t name of None \<Rightarrow> [] | Some outs \<Rightarrow> outs) @ [out]) t else t) [] b"
    using assms(1) by (auto simp: direct_column_targets_def res_simps)
  from fold_targets [OF assms(2) [unfolded t], of "set b"] b show ?thesis by auto
qed

lemma remap_names_loop_targets:
  assumes "\<And>name outs. map_of t name = Some outs \<Longrightarrow> outs \<noteq> []" and "remap_names_loop names t pre = Some outs"
  shows "length outs \<le> length names \<and> (\<not> pre \<longrightarrow> length outs = length names)
    \<and> list_all2 (\<lambda>name out. \<exists>os. map_of t name = Some os \<and> out \<in> set os) (take (length outs) names) outs"
  using assms(2)
proof (induction names arbitrary: outs)
  case (Cons name names)
  show ?case
  proof (cases "map_of t name")
    case None
    then show ?thesis using Cons.prems by (simp split: if_splits)
  next
    case (Some os)
    then show ?thesis using Cons assms(1) [OF Some] by (auto split: if_splits)
  qed
qed simp

lemma remap_direct_names_targets:
  assumes "\<And>name outs. map_of t name = Some outs \<Longrightarrow> outs \<noteq> []" and "remap_direct_names names t pre = Some outs"
  shows "length outs \<le> length names \<and> (\<not> pre \<longrightarrow> length outs = length names)
    \<and> list_all2 (\<lambda>name out. \<exists>os. map_of t name = Some os \<and> out \<in> set os) (take (length outs) names) outs"
proof (cases "names = []")
  case False
  then have "remap_names_loop names t pre = Some outs"
    using assms(2) by (auto simp: remap_direct_names_def split: option.splits list.splits)
  then show ?thesis using remap_names_loop_targets [of t names pre outs] assms(1) by blast
qed (use assms(2) in \<open>simp add: remap_direct_names_def\<close>)

lemma names_to_indices_iff:
  "names_to_indices names sch = Inr is \<longleftrightarrow> list_all2 (\<lambda>n i. name_index sch n = Some i) names is"
  by (simp add: names_to_indices_def rmap_Inr_iff res_simps)

lemma indices_to_names_iff:
  "indices_to_names is sch = Inr names \<longleftrightarrow> list_all2 (\<lambda>i n. i < length sch \<and> n = sch ! i) is names"
proof -
  have "(\<lambda>i n. of_option IndexError (if i < length sch then Some (sch ! i) else None) = Inr n)
      = (\<lambda>i n. i < length sch \<and> n = sch ! i)"
    by (auto simp: fun_eq_iff)
  then show ?thesis by (simp add: indices_to_names_def rmap_Inr_iff)
qed

text \<open>Remapped indices read the same values.\<close>

lemma remap_values:
  assumes t: "direct_column_targets n ci = Inr t" and d: "distinct (schema (children n ! ci))"
    and idx: "indices_to_names idx (schema (children n ! ci)) = Inr names"
    and m: "list_all2 (\<lambda>name out. \<exists>os. map_of t name = Some os \<and> out \<in> set os) (take k names) outs"
    and new: "names_to_indices outs (schema n) = Inr is" and row: "row_from ev n ci r s"
  shows "map s is = map r (take k idx)"
proof (rule nth_equalityI)
  have l: "length names = length idx" using idx by (auto simp: indices_to_names_iff dest: list_all2_lengthD)
  have len: "length is = length outs" "length outs = length (take k names)"
    using new m by (auto simp: names_to_indices_iff dest!: list_all2_lengthD)
  then show "length (map s is) = length (map r (take k idx))" by (simp add: l)
  fix j assume "j < length (map s is)"
  then have j: "j < length is" "j < length names" "j < k" using len by auto
  obtain os where os: "map_of t (names ! j) = Some os" "outs ! j \<in> set os"
    using list_all2_nthD2 [OF m, of j] j len by auto
  have out: "name_index (schema n) (outs ! j) = Some (is ! j)"
    using new j len by (auto simp: names_to_indices_iff list_all2_conv_all_nth)
  have nm: "idx ! j < length (schema (children n ! ci))" "names ! j = schema (children n ! ci) ! (idx ! j)"
    using idx j l by (auto simp: indices_to_names_iff list_all2_conv_all_nth)
  have "name_index (schema (children n ! ci)) (names ! j) = Some (idx ! j)"
    using name_index_nth [OF d nm(1)] nm(2) by simp
  moreover obtain b where "column_domain_bindings n = Inr b" "(outs ! j, ci, names ! j) \<in> set b"
    using targets_bound [OF t os(1)] os(2) by blast
  ultimately have "s (is ! j) = r (idx ! j)" using row out by (auto simp: row_from_def)
  then show "map s is ! j = map r (take k idx) ! j" using j l by simp
qed

lemma list_all2_setD2: "list_all2 P xs ys \<Longrightarrow> y \<in> set ys \<Longrightarrow> \<exists>x \<in> set xs. P x y"
  by (induction xs ys rule: list_all2_induct) auto

lemma remap_order_keys_iff:
  "remap_order_keys keys is = Inr ks \<longleftrightarrow>
     length keys = length is \<and> ks = map (\<lambda>(k, i). k\<lparr>ko_index := i\<rparr>) (zip keys is)"
  by (auto simp: remap_order_keys_def)

lemma remap_order_keys_values:
  assumes "remap_order_keys keys is = Inr ks"
  shows "flags ks = flags keys" and "key_values ks s = map s is" and "map ko_index ks = is"
proof -
  from assms have l: "length keys = length is" and ks: "ks = map (\<lambda>(k, i). k\<lparr>ko_index := i\<rparr>) (zip keys is)"
    by (auto simp: remap_order_keys_iff)
  show "flags ks = flags keys" "key_values ks s = map s is" "map ko_index ks = is"
    using l unfolding ks by (induction keys "is" rule: list_induct2) (auto simp: flags_def key_values_def)
qed

text \<open>Replacing the last compared column by a monotone function of it.\<close>

lemma tuple_le_replace_last:
  "length xs = length ks \<Longrightarrow> length ys = length ks \<Longrightarrow> tuple_le lt (ks @ [k]) (xs @ [a]) (ys @ [b])
   \<Longrightarrow> (lt k a b \<or> a = b \<Longrightarrow> lt k c d \<or> c = d) \<Longrightarrow> tuple_le lt (ks @ [k]) (xs @ [c]) (ys @ [d])"
proof (induction ks arbitrary: xs ys)
  case (Cons k' ks)
  then show ?case by (cases xs; cases ys) auto
qed auto

lemma tuple_le_derived:
  assumes le: "tuple_le lt fl xs ys" and len: "length xs = length fl" "length ys = length fl" "i < length fl"
    and mono: "lt (fl ! i) (xs ! i) (ys ! i) \<or> xs ! i = ys ! i \<Longrightarrow> lt (fl ! i) c d \<or> c = d"
  shows "tuple_le lt (take i fl @ [fl ! i]) (take i xs @ [c]) (take i ys @ [d])"
proof -
  have "tuple_le lt (take i fl @ [fl ! i]) (take i xs @ [xs ! i]) (take i ys @ [ys ! i])"
    using tuple_le_take [OF len(1,2) le, of "Suc i"] len by (simp add: take_Suc_conv_app_nth)
  from tuple_le_replace_last [OF _ _ this mono] show ?thesis using len by simp
qed

text \<open>What a candidate says of the tuples of its keys: they are those of the first old keys, or
  those with the last one replaced by a truncation.\<close>

definition candidate_values ::
  "(named_expr \<Rightarrow> (string \<rightharpoonup> 'v) \<Rightarrow> 'v) \<Rightarrow> ir \<Rightarrow> nat \<Rightarrow> okey list \<Rightarrow> string list \<Rightarrow> key_remapping \<Rightarrow> bool" where
  "candidate_values ev n ci keys names c \<longleftrightarrow>
     (case kr_expr c of
        None \<Rightarrow> \<exists>k. flags (kr_keys c) = take k (flags keys)
          \<and> (\<forall>r s. row_from ev n ci r s \<longrightarrow> key_values (kr_keys c) s = take k (key_values keys r))
      | Some ne \<Rightarrow> \<exists>source i. truncate_source_name (ne_value ne) = Some source \<and> i < length names
          \<and> names ! i = source \<and> (\<forall>j < i. names ! j \<noteq> source) \<and> kr_prefix c = i \<and> \<not> kr_strict c
          \<and> ne \<in> set (node_exprs n)
          \<and> flags (kr_keys c) = take i (flags keys) @ [flags keys ! i]
          \<and> (\<forall>r s. row_from ev n ci r s \<longrightarrow>
               key_values (kr_keys c) s = take i (key_values keys r) @ [ev ne (child_values (children n ! ci) r)]))"

lemma direct_candidates_values:
  assumes t: "direct_column_targets n ci = Inr t" and d: "distinct (schema (children n ! ci))"
    and names: "indices_to_names (map ko_index keys) (schema (children n ! ci)) = Inr names"
    and cs: "direct_candidates (schema n) names keys t = Inr cs" and c: "c \<in> set cs"
  shows "candidate_values ev n ci keys names c"
proof -
  have ne: "map_of t name = Some outs \<Longrightarrow> outs \<noteq> []" for name outs using targets_bound [OF t] by blast
  obtain tn where tn: "remap_direct_names names t True = Some tn"
    using cs c by (auto simp: direct_candidates_def split: option.splits)
  have l: "length tn \<le> length names"
    "list_all2 (\<lambda>name out. \<exists>os. map_of t name = Some os \<and> out \<in> set os) (take (length tn) names) tn"
    using remap_direct_names_targets [of t names True tn] ne tn by blast+
  have len: "length names = length keys" using names by (auto simp: indices_to_names_iff dest: list_all2_lengthD)
  have general: "candidate_values ev n ci keys names \<lparr>kr_keys = ks, kr_expr = None, kr_prefix = 0, kr_strict = True\<rparr>"
    if m: "list_all2 (\<lambda>name out. \<exists>os. map_of t name = Some os \<and> out \<in> set os) (take k names) outs"
      and i: "names_to_indices outs (schema n) = Inr is" and ks: "remap_order_keys (take k keys) is = Inr ks" for k outs "is" ks
  proof -
    have "key_values ks s = take k (key_values keys r)" if "row_from ev n ci r s" for r s :: "nat \<Rightarrow> 'a"
      using remap_values [OF t d names m i that] remap_order_keys_values(2) [OF ks, of s]
      by (simp add: key_values_def take_map)
    then show ?thesis using remap_order_keys_values(1) [OF ks]
      by (auto simp: candidate_values_def flags_def take_map)
  qed
  from cs obtain "is" ks aliases where i: "names_to_indices tn (schema n) = Inr is"
    and ks: "remap_order_keys (take (length tn) keys) is = Inr ks"
    and al: "(if length tn = 1
                 then rmap (\<lambda>alias.
                        rbind (names_to_indices [alias] (schema n)) (\<lambda>js. remap_order_keys (take 1 keys) js))
                      (filter (\<lambda>a. a \<noteq> hd tn) (the (map_of t (hd names))))
                 else Inr []) = Inr aliases"
    and cs': "cs = map (\<lambda>ks. \<lparr>kr_keys = ks, kr_expr = None, kr_prefix = 0, kr_strict = True\<rparr>) (ks # aliases)"
    unfolding direct_candidates_def by (auto simp: tn res_simps)
  show ?thesis
  proof (cases "c = \<lparr>kr_keys = ks, kr_expr = None, kr_prefix = 0, kr_strict = True\<rparr>")
    case True
    then show ?thesis using general [OF _ i ks] l by simp
  next
    case False
    then obtain as where as: "as \<in> set aliases" "c = \<lparr>kr_keys = as, kr_expr = None, kr_prefix = 0, kr_strict = True\<rparr>"
      using c cs' by auto
    then have one: "length tn = 1" using al by (auto split: if_splits)
    then obtain os where os: "names \<noteq> []" "map_of t (hd names) = Some os"
      using l by (cases names; cases tn) auto
    obtain a js where a: "a \<in> set os" "names_to_indices [a] (schema n) = Inr js" "remap_order_keys (take 1 keys) js = Inr as"
    proof -
      have "list_all2 (\<lambda>a ks. rbind (names_to_indices [a] (schema n)) (\<lambda>js. remap_order_keys (take 1 keys) js) = Inr ks)
          (filter (\<lambda>a. a \<noteq> hd tn) os) aliases"
        using al one os by (simp add: rmap_Inr_iff)
      from list_all2_setD2 [OF this as(1)] that show ?thesis by (auto simp: res_simps)
    qed
    have "list_all2 (\<lambda>name out. \<exists>os. map_of t name = Some os \<and> out \<in> set os) (take 1 names) [a]"
      using os a(1) by (cases names) auto
    from general [OF this a(2,3)] show ?thesis by (simp add: as(2))
  qed
qed

lemma first_index:
  "x \<in> set xs \<Longrightarrow> length (takeWhile (\<lambda>n. n \<noteq> x) xs) < length xs \<and> xs ! length (takeWhile (\<lambda>n. n \<noteq> x) xs) = x
   \<and> (\<forall>j < length (takeWhile (\<lambda>n. n \<noteq> x) xs). xs ! j \<noteq> x)"
  by (induction xs) (auto simp: less_Suc_eq_0_disj)

lemma derived_candidate_values:
  assumes t: "direct_column_targets n ci = Inr t" and d: "distinct (schema (children n ! ci))"
    and names: "indices_to_names (map ko_index keys) (schema (children n ! ci)) = Inr names"
    and cs: "derived_candidate (schema n) names keys t ne = Inr cs" and c: "c \<in> set cs"
    and e: "ne \<in> set (node_exprs n)"
  shows "candidate_values ev n ci keys names c"
proof -
  have nonempty: "map_of t name = Some outs \<Longrightarrow> outs \<noteq> []" for name outs using targets_bound [OF t] by blast
  have len: "length names = length keys" using names by (auto simp: indices_to_names_iff dest: list_all2_lengthD)
  obtain source where src: "truncate_source_name (ne_value ne) = Some source" "source \<in> set names"
    using cs c by (auto simp: derived_candidate_def match_derived_key_def split: option.splits if_splits)
  define i where "i = length (takeWhile (\<lambda>n. n \<noteq> source) names)"
  have i: "i < length names" "names ! i = source" "\<forall>j < i. names ! j \<noteq> source"
    using first_index [OF src(2)] by (simp_all add: i_def)
  obtain pn where pn: "remap_direct_names (take i names) t False = Some pn"
    using cs c src by (auto simp: derived_candidate_def match_derived_key_def i_def [symmetric] Let_def split: option.splits)
  have l: "length pn = length (take i names)"
    "list_all2 (\<lambda>name out. \<exists>os. map_of t name = Some os \<and> out \<in> set os) (take (length pn) (take i names)) pn"
    using remap_direct_names_targets [of t "take i names" False pn] nonempty pn by blast+
  define last where "last = \<lparr>ko_index = 0, ko_order = ko_order (keys ! i), ko_nulls = ko_nulls (keys ! i)\<rparr>"
  obtain "is" ks where is0: "names_to_indices (pn @ [ne_name ne]) (schema n) = Inr is"
    and ks: "remap_order_keys (take i keys @ [last]) is = Inr ks"
    and cc: "c = \<lparr>kr_keys = ks, kr_expr = Some ne, kr_prefix = i, kr_strict = False\<rparr>"
    using cs c src pn
    by (auto simp: derived_candidate_def match_derived_key_def i_def [symmetric] last_def Let_def res_simps)
  obtain js x where is1: "is = js @ [x]" "names_to_indices pn (schema n) = Inr js" "name_index (schema n) (ne_name ne) = Some x"
    using is0 by (auto simp: names_to_indices_iff list_all2_append1 list_all2_Cons1)
  have "key_values ks s = take i (key_values keys r) @ [ev ne (child_values (children n ! ci) r)]"
    if row: "row_from ev n ci r s" for r s
  proof -
    have "map s js = map r (take i (map ko_index keys))"
      using remap_values [OF t d names _ is1(2) row, of i] l i(1) len by simp
    moreover have "s x = ev ne (child_values (children n ! ci) r)"
      using row e is1(3) by (simp add: row_from_def)
    ultimately show ?thesis
      using remap_order_keys_values(2) [OF ks, of s] by (simp add: is1(1) key_values_def take_map)
  qed
  moreover have "flags ks = take i (flags keys) @ [flags keys ! i]"
    using remap_order_keys_values(1) [OF ks] i(1) len by (simp add: flags_def last_def take_map)
  ultimately show ?thesis using src i e unfolding candidate_values_def by (simp add: cc)
qed

lemma remap_key_candidates_values:
  assumes t: "direct_column_targets n ci = Inr t" and d: "distinct (schema (children n ! ci))"
    and cs: "remap_key_candidates n (children n ! ci) keys t (node_exprs n) = Inr cs" and c: "c \<in> set cs"
  shows "\<exists>names. indices_to_names (map ko_index keys) (schema (children n ! ci)) = Inr names
    \<and> candidate_values ev n ci keys names c"
proof -
  obtain names direct derived where names: "indices_to_names (map ko_index keys) (schema (children n ! ci)) = Inr names"
    and dc: "direct_candidates (schema n) names keys t = Inr direct"
    and de: "rmap (derived_candidate (schema n) names keys t) (node_exprs n) = Inr derived"
    and cs': "cs = direct @ concat derived"
    using cs by (auto simp: remap_key_candidates_def res_simps)
  show ?thesis
  proof (cases "c \<in> set direct")
    case True
    then show ?thesis using direct_candidates_values [OF t d names dc] names by blast
  next
    case False
    then obtain ds where "ds \<in> set derived" "c \<in> set ds" using c cs' by auto
    moreover then obtain ne where "ne \<in> set (node_exprs n)" "derived_candidate (schema n) names keys t ne = Inr ds"
      using de by (auto simp: rmap_Inr_iff dest: list_all2_setD2)
    ultimately show ?thesis using derived_candidate_values [OF t d names] names by blast
  qed
qed

text \<open>The value of the source column of a candidate is a component of the tuple.\<close>

lemma source_value:
  assumes "distinct (schema child)" and "indices_to_names (map ko_index keys) (schema child) = Inr names" and "i < length names"
  shows "child_values child r (names ! i) = Some (key_values keys r ! i)"
proof -
  have l: "length names = length keys" using assms(2) by (auto simp: indices_to_names_iff dest: list_all2_lengthD)
  have "ko_index (keys ! i) < length (schema child) \<and> names ! i = schema child ! ko_index (keys ! i)"
    using assms(2,3) l by (auto simp: indices_to_names_iff list_all2_conv_all_nth)
  then show ?thesis using assms(3) l by (simp add: child_values_def name_index_nth [OF assms(1)] key_values_def)
qed

lemma candidate_le:
  assumes c: "candidate_values ev n ci keys names c" and mono: "truncation_monotone ev"
    and d: "distinct (schema (children n ! ci))"
    and names: "indices_to_names (map ko_index keys) (schema (children n ! ci)) = Inr names"
    and r: "row_from ev n ci r s" "row_from ev n ci r' s'"
    and le: "tuple_le value_lt (flags keys) (key_values keys r) (key_values keys r')"
  shows "tuple_le value_lt (flags (kr_keys c)) (key_values (kr_keys c) s) (key_values (kr_keys c) s')"
proof (cases "kr_expr c")
  case None
  then obtain k where "flags (kr_keys c) = take k (flags keys)"
    "key_values (kr_keys c) s = take k (key_values keys r)" "key_values (kr_keys c) s' = take k (key_values keys r')"
    using c r by (auto simp: candidate_values_def)
  then show ?thesis using tuple_le_take [OF _ _ le, of k] by (simp add: flags_def key_values_def)
next
  case (Some ne)
  then obtain i where i: "truncate_source_name (ne_value ne) = Some (names ! i)" "i < length names"
    "flags (kr_keys c) = take i (flags keys) @ [flags keys ! i]"
    "key_values (kr_keys c) s = take i (key_values keys r) @ [ev ne (child_values (children n ! ci) r)]"
    "key_values (kr_keys c) s' = take i (key_values keys r') @ [ev ne (child_values (children n ! ci) r')]"
    using c r by (auto simp: candidate_values_def)
  have l: "length names = length keys" using names by (auto simp: indices_to_names_iff dest: list_all2_lengthD)
  show ?thesis unfolding i
  proof (rule tuple_le_derived [OF le])
    assume "value_lt (flags keys ! i) (key_values keys r ! i) (key_values keys r' ! i)
        \<or> key_values keys r ! i = key_values keys r' ! i"
    then show "value_lt (flags keys ! i) (ev ne (child_values (children n ! ci) r)) (ev ne (child_values (children n ! ci) r'))
        \<or> ev ne (child_values (children n ! ci) r) = ev ne (child_values (children n ! ci) r')"
      using mono i(1) source_value [OF d names i(2)] unfolding truncation_monotone_def by blast
  qed (use i l in \<open>simp_all add: flags_def key_values_def\<close>)
qed

lemma set_deduplicate [simp]: "set (deduplicate_row_orderings xs) = set xs"
proof -
  have "set (foldl (\<lambda>result x. if x \<notin> set result then result @ [x] else result) ys xs) = set ys \<union> set xs" for ys
    by (induction xs arbitrary: ys) auto
  then show ?thesis by (simp add: deduplicate_row_orderings_def)
qed

lemma picked_Nil [simp]: "picked [] ys \<longleftrightarrow> ys = []"
  by (auto simp: picked_def intro!: exI [of _ "[]"])

lemma picked_append:
  assumes "picked xs ys" and "picked xs' ys'"
  shows "picked (xs @ xs') (ys @ ys')"
proof -
  from assms obtain a b where a: "sorted a" "\<forall>i \<in> set a. i < length xs" "ys = map ((!) xs) a"
    and b: "sorted b" "\<forall>i \<in> set b. i < length xs'" "ys' = map ((!) xs') b"
    unfolding picked_def by blast
  let ?c = "a @ map (\<lambda>i. i + length xs) b"
  have "sorted ?c"
    using a(1,2) b(1) by (force simp: sorted_append sorted_map intro: sorted_wrt_mono_rel [of b "(\<le>)"])
  moreover have "\<forall>i \<in> set ?c. i < length (xs @ xs')" using a(2) b(2) by fastforce
  moreover have "ys @ ys' = map ((!) (xs @ xs')) ?c" using a(2,3) b(3) by (simp add: nth_append)
  ultimately show ?thesis unfolding picked_def by blast
qed

lemma picked_concat: "list_all2 picked xss yss \<Longrightarrow> picked (concat xss) (concat yss)"
  by (induction xss yss rule: list_all2_induct) (auto intro: picked_append)

lemma picked_sorted_wrt:
  assumes "picked xs ys" and "sorted_wrt P xs" and "\<And>x. P x x"
  shows "sorted_wrt P ys"
proof -
  obtain a where a: "sorted a" "\<forall>i \<in> set a. i < length xs" "ys = map ((!) xs) a"
    using assms(1) by (auto simp: picked_def)
  have "P (xs ! i) (xs ! j)" if "i \<le> j" "j < length xs" for i j
    using that assms(2,3) by (cases "i = j") (auto simp: sorted_wrt_iff_nth_less)
  then show ?thesis unfolding a(3) sorted_wrt_map using a(1,2) by (auto intro: sorted_wrt_mono_rel)
qed

lemma sorted_wrt_all2:
  "list_all2 R xs ys \<Longrightarrow> sorted_wrt P xs \<Longrightarrow> (\<And>x y x' y'. R x y \<Longrightarrow> R x' y' \<Longrightarrow> P x x' \<Longrightarrow> Q y y') \<Longrightarrow> sorted_wrt Q ys"
  unfolding sorted_wrt_iff_nth_less list_all2_conv_all_nth by (metis less_trans)

definition stream_from ::
  "(named_expr \<Rightarrow> (string \<rightharpoonup> 'v) \<Rightarrow> 'v) \<Rightarrow> ir \<Rightarrow> nat \<Rightarrow> bool \<Rightarrow> 'v stream \<Rightarrow> 'v stream \<Rightarrow> bool" where
  "stream_from ev n ci preserves child out = list_all2 (list_all2 (chunk_from ev n ci preserves)) child out"

text \<open>The rows of a rank, or of all ranks, come in order from rows picked in order.\<close>

lemma chunks_from:
  "list_all2 (chunk_from ev n ci preserves) xss yss \<Longrightarrow> chunk_from ev n ci preserves (concat xss) (concat yss)"
proof (induction xss yss rule: list_all2_induct)
  case Nil
  then show ?case by (simp add: chunk_from_def)
next
  case (Cons xs xss ys yss)
  from Cons(1,3) obtain a b where "if preserves then picked xs a else set a \<subseteq> set xs" "list_all2 (row_from ev n ci) a ys"
    "if preserves then picked (concat xss) b else set b \<subseteq> set (concat xss)" "list_all2 (row_from ev n ci) b (concat yss)"
    by (auto simp: chunk_from_def)
  then have "(if preserves then picked (concat (xs # xss)) (a @ b) else set (a @ b) \<subseteq> set (concat (xs # xss)))
      \<and> list_all2 (row_from ev n ci) (a @ b) (concat (ys # yss))"
    by (auto intro: picked_append list_all2_appendI split: if_splits)
  then show ?case unfolding chunk_from_def by blast
qed

lemma stream_from_ranks:
  "stream_from ev n ci preserves child out \<Longrightarrow> list_all2 (chunk_from ev n ci preserves) (map concat child) (map concat out)"
  by (auto simp: stream_from_def list_all2_map1 list_all2_map2 intro: list_all2_mono chunks_from)

lemma stream_from_chunks:
  "stream_from ev n ci preserves child out \<Longrightarrow> list_all2 (chunk_from ev n ci preserves) (concat child) (concat out)"
  unfolding stream_from_def by (induction child out rule: list_all2_induct) (auto intro: list_all2_appendI)

lemma chunk_from_ordered:
  assumes ch: "chunk_from ev n ci True xs ys" and o: "rows_ordered ro xs"
    and step: "\<And>r s r' s'. row_from ev n ci r s \<Longrightarrow> row_from ev n ci r' s' \<Longrightarrow>
      tuple_le value_lt (flags (ro_keys ro)) (key_values (ro_keys ro) r) (key_values (ro_keys ro) r') \<Longrightarrow>
      tuple_le value_lt (flags (ro_keys new)) (key_values (ro_keys new) s) (key_values (ro_keys new) s')"
    and groups: "\<And>r s. row_from ev n ci r s \<Longrightarrow> map s (ro_groups new) = map r (ro_groups ro)"
  shows "rows_ordered new ys"
proof -
  obtain ps where ps: "picked xs ps" "list_all2 (row_from ev n ci) ps ys"
    using ch by (auto simp: chunk_from_def)
  have srt: "rows_ordered ro ps"
    using picked_sorted_wrt [OF ps(1) o [unfolded rows_ordered_def]] by (simp add: rows_ordered_def)
  have eq: "\<forall>c \<in> set (ro_groups ro). r c = r' c"
    if "row_from ev n ci r s" "row_from ev n ci r' s'" "\<forall>c \<in> set (ro_groups new). s c = s' c" for r s r' s'
  proof -
    have "map s (ro_groups new) = map s' (ro_groups new)" using that(3) by simp
    then have "map r (ro_groups ro) = map r' (ro_groups ro)" by (simp only: groups [OF that(1)] groups [OF that(2)])
    then show ?thesis by simp
  qed
  show ?thesis unfolding rows_ordered_def
    by (rule sorted_wrt_all2 [OF ps(2) srt [unfolded rows_ordered_def]]) (use step eq in blast)
qed

lemma remap_row_ordering_holds:
  assumes t: "direct_column_targets n ci = Inr t" and d: "distinct (schema (children n ! ci))"
    and mono: "truncation_monotone ev" and st: "stream_from ev n ci True child out"
    and r: "remap_row_ordering n (children n ! ci) t (node_exprs n) ro = Inr ros" and new: "new \<in> set ros"
    and h: "row_ordering_holds ro child"
  shows "row_ordering_holds new out"
proof -
  have nonempty: "map_of t name = Some outs \<Longrightarrow> outs \<noteq> []" for name outs using targets_bound [OF t] by blast
  obtain gnames tn groups cs where g: "indices_to_names (ro_groups ro) (schema (children n ! ci)) = Inr gnames"
    and tn: "remap_direct_names gnames t False = Some tn" and gi: "names_to_indices tn (schema n) = Inr groups"
    and cs: "remap_key_candidates n (children n ! ci) (ro_keys ro) t (node_exprs n) = Inr cs"
    and ros: "rmap (\<lambda>c. new_row_ordering (kr_keys c) (ro_scope ro) groups) cs = Inr ros"
    using r new by (auto simp: remap_row_ordering_def res_simps split: option.splits)
  obtain c where c: "c \<in> set cs" "new = \<lparr>ro_keys = kr_keys c, ro_scope = ro_scope ro, ro_groups = groups\<rparr>"
    using ros new by (auto simp: rmap_Inr_iff new_row_ordering_def dest!: list_all2_setD2 split: if_splits)
  obtain names where names: "indices_to_names (map ko_index (ro_keys ro)) (schema (children n ! ci)) = Inr names"
    "candidate_values ev n ci (ro_keys ro) names c"
    using remap_key_candidates_values [OF t d cs c(1)] by blast
  have l: "length tn = length gnames"
    "list_all2 (\<lambda>name out. \<exists>os. map_of t name = Some os \<and> out \<in> set os) (take (length tn) gnames) tn"
    using remap_direct_names_targets [of t gnames False tn] nonempty tn by blast+
  have "length gnames = length (ro_groups ro)" using g by (auto simp: indices_to_names_iff dest: list_all2_lengthD)
  then have groups: "map s groups = map r (ro_groups ro)" if "row_from ev n ci r s" for r s
    using remap_values [OF t d g l(2) gi that] l(1) by simp
  have ord: "rows_ordered new ys" if "chunk_from ev n ci True xs ys" "rows_ordered ro xs" for xs ys
    using chunk_from_ordered [OF that, of new] candidate_le [OF names(2) mono d names(1)] groups by (simp add: c(2))
  show ?thesis
  proof (cases "ro_scope ro")
    case GlobalScope
    have "chunk_from ev n ci True (concat (concat child)) (concat (concat out))"
      using chunks_from [OF stream_from_chunks [OF st]] .
    then show ?thesis using ord h GlobalScope by (simp add: row_ordering_holds_def c(2))
  next
    case RankLocal
    have "rows_ordered new (concat rank)" if rank: "rank \<in> set out" for rank
    proof -
      obtain rank' where "rank' \<in> set child" "list_all2 (chunk_from ev n ci True) rank' rank"
        using list_all2_setD2 [of "list_all2 (chunk_from ev n ci True)" child out rank] st rank
        by (auto simp: stream_from_def)
      then show ?thesis using ord [OF chunks_from] h RankLocal by (auto simp: row_ordering_holds_def)
    qed
    then show ?thesis using RankLocal by (simp add: row_ordering_holds_def c(2))
  qed
qed

lemma chunk_from_member:
  "chunk_from ev n ci preserves xs ys \<Longrightarrow> s \<in> set ys \<Longrightarrow> \<exists>r \<in> set xs. row_from ev n ci r s"
  by (auto simp: chunk_from_def picked_def split: if_splits dest!: list_all2_setD2) fastforce+

text \<open>A placement of partitions carries over when a row of the output lies in the partitions its
  source row lies in.\<close>

lemma placement_from:
  assumes "list_all2 (chunk_from ev n ci preserves) parts parts'"
    and "\<exists>place :: nat \<Rightarrow> nat. \<forall>i < length parts. \<forall>r \<in> set (parts ! i). \<exists>p. P r p \<and> place p = i"
    and "\<And>r s p. row_from ev n ci r s \<Longrightarrow> P r p \<Longrightarrow> Q s p"
  shows "\<exists>place :: nat \<Rightarrow> nat. \<forall>i < length parts'. \<forall>s \<in> set (parts' ! i). \<exists>p. Q s p \<and> place p = i"
proof -
  obtain place :: "nat \<Rightarrow> nat" where pl: "\<And>i r. i < length parts \<Longrightarrow> r \<in> set (parts ! i) \<Longrightarrow> \<exists>p. P r p \<and> place p = i"
    using assms(2) by blast
  have "\<exists>p. Q s p \<and> place p = i" if si: "i < length parts'" "s \<in> set (parts' ! i)" for i s
  proof -
    have i: "i < length parts" "chunk_from ev n ci preserves (parts ! i) (parts' ! i)"
      using assms(1) si(1) by (simp_all add: list_all2_conv_all_nth)
    then obtain r where "r \<in> set (parts ! i)" "row_from ev n ci r s" using chunk_from_member si(2) by blast
    then show ?thesis using pl i(1) assms(3) by blast
  qed
  then show ?thesis by blast
qed

lemma nonstrict_le: "tuple_lt lt fl x y \<Longrightarrow> tuple_le lt fl x y"
  by (simp add: tuple_le_def)

lemma map_of_zip_first:
  "length names = length xs \<Longrightarrow> i < length names \<Longrightarrow> \<forall>j < i. names ! j \<noteq> names ! i
   \<Longrightarrow> map_of (zip names xs) (names ! i) = Some (xs ! i)"
proof (induction names xs arbitrary: i rule: list_induct2)
  case (Cons n names x xs)
  show ?case
  proof (cases i)
    case (Suc k)
    then have "names ! k \<noteq> n" "\<forall>j < k. names ! j \<noteq> names ! k" using Cons.prems(2) by auto
    then show ?thesis using Suc Cons.IH [of k] Cons.prems(1) by simp
  qed simp
qed simp

text \<open>An ordering whose boundaries are mapped like its rows.\<close>

definition derived_from ::
  "(named_expr \<Rightarrow> (string \<rightharpoonup> 'a::linorder option) \<Rightarrow> 'a option) \<Rightarrow> 'a option key_ordering \<Rightarrow> string list
   \<Rightarrow> nat \<Rightarrow> named_expr \<Rightarrow> 'a option key_ordering \<Rightarrow> bool" where
  "derived_from ev kord names i ne new \<longleftrightarrow>
     i < length names \<and> length names = length (or_keys kord) \<and> (\<forall>j < i. names ! j \<noteq> names ! i)
     \<and> truncate_source_name (ne_value ne) = Some (names ! i) \<and> truncation_monotone ev
     \<and> flags (or_keys new) = take i (flags (or_keys kord)) @ [flags (or_keys kord) ! i]
     \<and> or_bounds new = derive_boundaries ev names i ne (or_bounds kord) \<and> \<not> or_strict new"

lemma derived_le:
  assumes D: "derived_from ev kord names i ne new"
    and le: "tuple_le value_lt (flags (or_keys kord)) x y" and len: "length x = length names" "length y = length names"
    and m: "m (names ! i) = Some (x ! i)" "m' (names ! i) = Some (y ! i)"
  shows "tuple_le value_lt (flags (or_keys new)) (take i x @ [ev ne m]) (take i y @ [ev ne m'])"
proof -
  have D': "i < length names" "length names = length (or_keys kord)" "truncation_monotone ev"
    "truncate_source_name (ne_value ne) = Some (names ! i)"
    "flags (or_keys new) = take i (flags (or_keys kord)) @ [flags (or_keys kord) ! i]"
    using D by (simp_all add: derived_from_def)
  show ?thesis unfolding D'(5)
  proof (rule tuple_le_derived [OF le])
    assume "value_lt (flags (or_keys kord) ! i) (x ! i) (y ! i) \<or> x ! i = y ! i"
    then show "value_lt (flags (or_keys kord) ! i) (ev ne m) (ev ne m') \<or> ev ne m = ev ne m'"
      using D'(3,4) m unfolding truncation_monotone_def by blast
  qed (use len D'(1,2) in \<open>simp_all add: flags_def\<close>)
qed

lemma bound_source:
  assumes "derived_from ev kord names i ne new" and "bounds_ok kord" and "b \<in> set (or_bounds kord)"
  shows "map_of (zip names b) (names ! i) = Some (b ! i)" and "length b = length names"
  using map_of_zip_first [of names b i] assms by (auto simp: bounds_ok_def derived_from_def)

lemma derived_bounds_ok:
  assumes D: "derived_from ev kord names i ne new" and ok: "bounds_ok kord"
  shows "bounds_ok new"
proof -
  note D' = D [unfolded derived_from_def]
  have b: "or_bounds new = map (\<lambda>row. take i row @ [ev ne (map_of (zip names row))]) (or_bounds kord)"
    using D' by (simp add: derive_boundaries_def)
  have fl: "flags (or_keys new) = take i (flags (or_keys kord)) @ [flags (or_keys kord) ! i]" using D' by blast
  have "length (flags (or_keys new)) = Suc i" unfolding fl using D' by (simp add: flags_def)
  then have "length (or_keys new) = Suc i" by (simp add: flags_def)
  then have lens: "\<forall>b \<in> set (or_bounds new). length b = length (or_keys new)"
    using bound_source(2) [OF D ok] D [unfolded derived_from_def, THEN conjunct1] by (auto simp: b)
  have "sorted_wrt (\<lambda>x y. tuple_le value_lt (flags (or_keys new)) (take i x @ [ev ne (map_of (zip names x))])
      (take i y @ [ev ne (map_of (zip names y))])) (or_bounds kord)"
  proof (rule sorted_wrt_mono_rel [OF _ ok [unfolded bounds_ok_def, THEN conjunct2]])
    fix x y assume "x \<in> set (or_bounds kord)" "y \<in> set (or_bounds kord)"
      "tuple_le value_lt (flags (or_keys kord)) x y"
    then show "tuple_le value_lt (flags (or_keys new)) (take i x @ [ev ne (map_of (zip names x))])
      (take i y @ [ev ne (map_of (zip names y))])"
      by (intro derived_le [OF D] bound_source [OF D ok])
  qed
  then show ?thesis using lens unfolding bounds_ok_def b sorted_wrt_map by blast
qed

lemma derived_range:
  assumes D: "derived_from ev kord names i ne new" and ok: "bounds_ok kord" and range: "in_range kord r p"
    and kv: "key_values (or_keys new) s = take i (key_values (or_keys kord) r) @ [ev ne vs]"
    and vs: "vs (names ! i) = Some (key_values (or_keys kord) r ! i)"
  shows "in_range new s p"
proof -
  let ?fl = "flags (or_keys kord)" and ?kv = "key_values (or_keys kord) r" and ?b = "or_bounds kord"
  have D': "length names = length (or_keys kord)" "\<not> or_strict new"
    "or_bounds new = derive_boundaries ev names i ne ?b"
    using D by (simp_all add: derived_from_def)
  have l: "length ?kv = length names" "length (or_bounds new) = length ?b"
    by (simp_all add: key_values_def D' derive_boundaries_def)
  have p: "p \<le> length ?b" using range by (simp add: in_range_def)
  have nth: "or_bounds new ! j = take i (?b ! j) @ [ev ne (map_of (zip names (?b ! j)))]"
    "map_of (zip names (?b ! j)) (names ! i) = Some (?b ! j ! i)" "length (?b ! j) = length names" if "j < length ?b" for j
    using bound_source [OF D ok nth_mem [OF that]] that by (simp_all add: D' derive_boundaries_def)
  have "tuple_le value_lt (flags (or_keys new)) (or_bounds new ! (p - 1)) (key_values (or_keys new) s)" if "0 < p"
  proof -
    have j: "p - 1 < length ?b" using that p by simp
    have "tuple_le value_lt ?fl (?b ! (p - 1)) ?kv"
      using range that nonstrict_le by (auto simp: in_range_def split: if_splits)
    then show ?thesis unfolding kv nth(1) [OF j] using nth(2,3) [OF j] l(1) vs by (intro derived_le [OF D])
  qed
  moreover have "tuple_le value_lt (flags (or_keys new)) (key_values (or_keys new) s) (or_bounds new ! p)" if j: "p < length ?b"
  proof -
    have "tuple_le value_lt ?fl ?kv (?b ! p)" using range j by (simp add: in_range_def)
    then show ?thesis unfolding kv nth(1) [OF j] using nth(2,3) [OF j] l(1) vs by (intro derived_le [OF D])
  qed
  ultimately show ?thesis using p l(2) D'(2) by (simp add: in_range_def)
qed

lemma remap_ordering_holds:
  assumes t: "direct_column_targets n ci = Inr t" and d: "distinct (schema (children n ! ci))"
    and mono: "truncation_monotone ev"
    and r: "remap_ordering ev n (children n ! ci) t (node_exprs n) has_context kord = Inr kords" and new: "new \<in> set kords"
    and ok: "bounds_ok kord"
  shows "bounds_ok new" and "\<And>r s p. row_from ev n ci r s \<Longrightarrow> in_range kord r p \<Longrightarrow> in_range new s p"
proof -
  have "bounds_ok new \<and> (\<forall>r s p. row_from ev n ci r s \<longrightarrow> in_range kord r p \<longrightarrow> in_range new s p)"
  proof -
    obtain cs direct where cs: "remap_key_candidates n (children n ! ci) (or_keys kord) t (node_exprs n) = Inr cs"
      and direct: "rmap (\<lambda>c. remap_ordering_keys kord (map ko_index (kr_keys c)))
        (filter (\<lambda>c. kr_expr c = None \<and> length (kr_keys c) = length (or_keys kord)) cs) = Inr direct"
      and rest: "(if \<not> has_context then Inr direct
        else rbind (indices_to_names (map ko_index (or_keys kord)) (schema (children n ! ci))) (\<lambda>names.
         Inr (direct @ concat (map (\<lambda>c.
           case kr_expr c of
             None \<Rightarrow> []
           | Some ne \<Rightarrow>
               [\<lparr>or_keys = kr_keys c, or_bounds = derive_boundaries ev names (kr_prefix c) ne (or_bounds kord),
                 or_strict = or_strict kord \<and> kr_strict c\<rparr>]) cs)))) = Inr kords"
      using r by (auto simp: remap_ordering_def res_simps)
    show ?thesis
    proof (cases "new \<in> set direct")
      case True
      then obtain c where c: "c \<in> set cs" "kr_expr c = None" "length (kr_keys c) = length (or_keys kord)"
        "remap_ordering_keys kord (map ko_index (kr_keys c)) = Inr new"
        using direct by (auto simp: rmap_Inr_iff dest!: list_all2_setD2)
      obtain names where v: "candidate_values ev n ci (or_keys kord) names c"
        using remap_key_candidates_values [OF t d cs c(1)] by blast
      obtain k where k: "flags (kr_keys c) = take k (flags (or_keys kord))"
        "\<And>r s. row_from ev n ci r s \<Longrightarrow> key_values (kr_keys c) s = take k (key_values (or_keys kord) r)"
        using v c(2) by (auto simp: candidate_values_def)
      have l: "length (or_keys kord) \<le> k"
        using arg_cong [OF k(1), of length] c(3) by (simp add: flags_def)
      obtain ks where ks: "remap_order_keys (or_keys kord) (map ko_index (kr_keys c)) = Inr ks"
        and n: "new = kord\<lparr>or_keys := ks\<rparr>"
        using c(4) by (auto simp: remap_ordering_keys_def with_keys_def res_simps split: if_splits)
      note kv = remap_order_keys_values [OF ks]
      have "in_range new s p" if "row_from ev n ci r s" "in_range kord r p" for r s p
      proof -
        have "key_values ks s = key_values (kr_keys c) s" unfolding kv(2) by (simp add: key_values_def)
        also have "\<dots> = key_values (or_keys kord) r" using k(2) [OF that(1)] l by (simp add: key_values_def)
        finally show ?thesis using in_range_cong [of kord new r s p] that(2) kv(1) by (simp add: n)
      qed
      moreover have "length ks = length (or_keys kord)"
        using arg_cong [OF kv(1), of length] by (simp add: flags_def)
      ultimately show ?thesis using ok kv(1) by (simp add: n bounds_ok_def)
    next
      case False
      then obtain names where names: "indices_to_names (map ko_index (or_keys kord)) (schema (children n ! ci)) = Inr names"
        and kords: "kords = direct @ concat (map (\<lambda>c.
           case kr_expr c of
             None \<Rightarrow> []
           | Some ne \<Rightarrow>
               [\<lparr>or_keys = kr_keys c, or_bounds = derive_boundaries ev names (kr_prefix c) ne (or_bounds kord),
                 or_strict = or_strict kord \<and> kr_strict c\<rparr>]) cs)"
        using rest new by (auto simp: res_simps split: if_splits)
      then obtain c where c0: "c \<in> set cs" "new \<in> set (case kr_expr c of
             None \<Rightarrow> []
           | Some ne \<Rightarrow>
               [\<lparr>or_keys = kr_keys c, or_bounds = derive_boundaries ev names (kr_prefix c) ne (or_bounds kord),
                 or_strict = or_strict kord \<and> kr_strict c\<rparr>])"
        using new False unfolding kords set_append set_concat set_map by blast
      then obtain ne where c: "c \<in> set cs" "kr_expr c = Some ne"
        and n: "new = \<lparr>or_keys = kr_keys c, or_bounds = derive_boundaries ev names (kr_prefix c) ne (or_bounds kord),
                 or_strict = or_strict kord \<and> kr_strict c\<rparr>"
        by (cases "kr_expr c") auto
      have v: "candidate_values ev n ci (or_keys kord) names c"
        using remap_key_candidates_values [OF t d cs c(1)] names by auto
      define i where "i = kr_prefix c"
      have i: "truncate_source_name (ne_value ne) = Some (names ! i)" "i < length names" "\<forall>j < i. names ! j \<noteq> names ! i"
        "\<not> kr_strict c" "flags (kr_keys c) = take i (flags (or_keys kord)) @ [flags (or_keys kord) ! i]"
        "\<And>r s. row_from ev n ci r s \<Longrightarrow> key_values (kr_keys c) s
           = take i (key_values (or_keys kord) r) @ [ev ne (child_values (children n ! ci) r)]"
        using v c(2) by (auto simp: candidate_values_def i_def)
      have "length names = length (or_keys kord)" using names by (auto simp: indices_to_names_iff dest: list_all2_lengthD)
      then have D: "derived_from ev kord names i ne new"
        using i mono by (simp add: derived_from_def n i_def [symmetric])
      have "in_range new s p" if row: "row_from ev n ci r s" and p: "in_range kord r p" for r s p
      proof -
        have "key_values (or_keys new) s = take i (key_values (or_keys kord) r) @ [ev ne (child_values (children n ! ci) r)]"
          by (simp add: n i(6) [OF row])
        from derived_range [OF D ok p this source_value [OF d names i(2), where r = r]] show ?thesis .
      qed
      then show ?thesis using derived_bounds_ok [OF D ok] by blast
    qed
  qed
  then show "bounds_ok new" and "\<And>r s p. row_from ev n ci r s \<Longrightarrow> in_range kord r p \<Longrightarrow> in_range new s p" by blast+
qed

lemma remap_scheme_holds:
  assumes t: "direct_column_targets n ci = Inr t" and d: "distinct (schema (children n ! ci))"
    and mono: "truncation_monotone ev" and parts: "list_all2 (chunk_from ev n ci preserves) parts parts'"
    and r: "remap_scheme ev n (children n ! ci) s t (node_exprs n) has_context = Inr s'"
    and h: "scheme_holds hash s parts"
  shows "scheme_holds hash s' parts'"
proof (cases s)
  case (HashScheme cols m)
  have nonempty: "map_of t name = Some outs \<Longrightarrow> outs \<noteq> []" for name outs using targets_bound [OF t] by blast
  obtain names where names: "indices_to_names cols (schema (children n ! ci)) = Inr names"
    using r HashScheme by (auto simp: res_simps)
  show ?thesis
  proof (cases "remap_direct_names names t False")
    case None
    then show ?thesis using r names HashScheme by simp
  next
    case (Some tn)
    obtain "is" where i: "names_to_indices tn (schema n) = Inr is" "s' = HashScheme is m"
      using r names HashScheme Some by (auto simp: res_simps)
    have l: "length tn = length names"
      "list_all2 (\<lambda>name out. \<exists>os. map_of t name = Some os \<and> out \<in> set os) (take (length tn) names) tn"
      using remap_direct_names_targets [of t names False tn] nonempty Some by blast+
    have "length names = length cols" using names by (auto simp: indices_to_names_iff dest: list_all2_lengthD)
    then have eq: "map s is = map r cols" if "row_from ev n ci r s" for r s
      using remap_values [OF t d names l(2) i(1) that] l(1) by simp
    have "\<exists>place. \<forall>i < length parts'. \<forall>s \<in> set (parts' ! i). \<exists>p. p = hash (map s is) mod m \<and> place p = i"
      by (rule placement_from [OF parts, where P = "\<lambda>r p. p = hash (map r cols) mod m"])
        (use h HashScheme eq in \<open>auto\<close>)
    then show ?thesis by (simp add: i(2))
  qed
next
  case (OrderScheme os)
  obtain rs where rs: "rmap (remap_ordering ev n (children n ! ci) t (node_exprs n) has_context) os = Inr rs"
    and s': "s' = (if concat rs \<noteq> [] then OrderScheme (concat rs) else NoScheme)"
    using r OrderScheme by (auto simp: res_simps)
  have "bounds_ok new \<and> (\<exists>place. \<forall>i < length parts'. \<forall>s \<in> set (parts' ! i). \<exists>p. in_range new s p \<and> place p = i)"
    if kin: "kords \<in> set rs" "new \<in> set kords" for kords new
  proof -
    obtain kord where k: "kord \<in> set os" "remap_ordering ev n (children n ! ci) t (node_exprs n) has_context kord = Inr kords"
      using list_all2_setD2 [OF rs [unfolded rmap_Inr_iff] kin(1)] by blast
    have ok: "bounds_ok kord"
      and ex: "\<exists>place. \<forall>i < length parts. \<forall>r \<in> set (parts ! i). \<exists>p. in_range kord r p \<and> place p = i"
      using h OrderScheme k(1) by simp_all
    note m = remap_ordering_holds [OF t d mono k(2) kin(2) ok]
    have "\<exists>place. \<forall>i < length parts'. \<forall>s \<in> set (parts' ! i). \<exists>p. in_range new s p \<and> place p = i"
      by (rule placement_from [OF parts ex]) (rule m(2))
    then show ?thesis using m(1) by blast
  qed
  then show ?thesis by (auto simp: s')
qed (use r in auto)

text \<open>C11: metadata stays true through an operator.  When the partitioning of a child is true of
  its stream, the stream of the operator comes chunk by chunk from the stream of the child,
  its rows carrying the bound columns unchanged (and in the order of the child if the operator
  preserves the order), and truncation is monotone, then the remapped partitioning is true of
  the stream of the operator: hash and order schemes, boundaries of truncated keys, and row
  orderings under renaming, aliases, dropped columns and truncation.\<close>

theorem maybe_remap_partitioning_sound:
  assumes "maybe_remap_partitioning ev po n (Some p) ci has_context pres = Inr (Some p')"
    and "partitioning_holds hash p child"
    and "stream_from ev n (case ci of None \<Rightarrow> 0 | Some i \<Rightarrow> i) (case pres of None \<Rightarrow> po n | Some b \<Rightarrow> b) child out"
    and "distinct (schema (children n ! (case ci of None \<Rightarrow> 0 | Some i \<Rightarrow> i)))"
    and "truncation_monotone ev"
  shows "partitioning_holds hash p' out"
proof -
  define i where "i = (case ci of None \<Rightarrow> 0 | Some i \<Rightarrow> i)"
  define b where "b = (case pres of None \<Rightarrow> po n | Some b \<Rightarrow> b)"
  have "rbind (direct_column_targets n i) (\<lambda>t.
          rbind (remap_scheme ev n (children n ! i) (pt_inter p) t (node_exprs n) has_context) (\<lambda>s.
          rbind (remap_scheme ev n (children n ! i) (pt_local p) t (node_exprs n) has_context) (\<lambda>l.
          rbind (if b then remap_row_orderings n (children n ! i) (pt_rows p) t (node_exprs n) else Inr [])
            (\<lambda>rows. Inr (partitioning_or_none s l rows))))) = Inr (Some p')"
    using assms(1) by (cases ci; cases pres)
      (simp_all add: maybe_remap_partitioning_def i_def b_def Let_def split: if_splits cong: if_cong)
  then obtain t s l ros where t: "direct_column_targets n i = Inr t"
    and s: "remap_scheme ev n (children n ! i) (pt_inter p) t (node_exprs n) has_context = Inr s"
    and l: "remap_scheme ev n (children n ! i) (pt_local p) t (node_exprs n) has_context = Inr l"
    and ros: "(if b then remap_row_orderings n (children n ! i) (pt_rows p) t (node_exprs n) else Inr []) = Inr ros"
    and p': "partitioning_or_none s l ros = Some p'"
    unfolding rbind_Inr_iff by (auto simp only: sum.inject)
  have st: "stream_from ev n i b child out" and d: "distinct (schema (children n ! i))"
    using assms(3,4) by (simp_all add: i_def b_def)
  have inherit: "pt_local p = Inherit \<longleftrightarrow> l = Inherit"
    using l by (cases "pt_local p") (auto simp: res_simps split: option.splits if_splits)
  have "scheme_holds hash s (map concat out)"
    using remap_scheme_holds [OF t d assms(5) stream_from_ranks [OF st] s] assms(2) by (simp add: partitioning_holds_def)
  moreover have "scheme_holds hash s (concat out)" if "l = Inherit"
    using remap_scheme_holds [OF t d assms(5) stream_from_chunks [OF st] s] assms(2) that inherit
    by (simp add: partitioning_holds_def)
  moreover have "scheme_holds hash l rank" if rank: "rank \<in> set out" for rank
  proof -
    obtain rank' where r: "rank' \<in> set child" "list_all2 (chunk_from ev n i b) rank' rank"
      using list_all2_setD2 [of "list_all2 (chunk_from ev n i b)" child out rank] st rank by (auto simp: stream_from_def)
    then show ?thesis using remap_scheme_holds [OF t d assms(5) r(2) l] assms(2) by (simp add: partitioning_holds_def)
  qed
  moreover have "row_ordering_holds new out" if new: "new \<in> set ros" for new
  proof -
    have b: "b" using ros new by (auto split: if_splits)
    then obtain rs where "rmap (remap_row_ordering n (children n ! i) t (node_exprs n)) (pt_rows p) = Inr rs"
      "new \<in> set (concat rs)"
      using ros new by (auto simp: remap_row_orderings_def res_simps)
    then obtain xs where xs: "list_all2 (\<lambda>ro ys. remap_row_ordering n (children n ! i) t (node_exprs n) ro = Inr ys) (pt_rows p) rs"
      "xs \<in> set rs" "new \<in> set xs" by (auto simp: rmap_Inr_iff)
    obtain ro where ro: "ro \<in> set (pt_rows p)"
      "remap_row_ordering n (children n ! i) t (node_exprs n) ro = Inr xs" "new \<in> set xs"
      using list_all2_setD2 [OF xs(1,2)] xs(3) by blast
    show ?thesis
      using remap_row_ordering_holds [OF t d assms(5) _ ro(2,3)] st b assms(2) ro(1)
      by (simp add: partitioning_holds_def)
  qed
  moreover have "p' = \<lparr>pt_inter = s, pt_local = if s = NoScheme \<and> l = Inherit then NoScheme else l,
      pt_rows = deduplicate_row_orderings ros\<rparr>"
    using p' by (auto simp: partitioning_or_none_def Let_def split: if_splits)
  ultimately show ?thesis by (simp add: partitioning_holds_def)
qed

definition rename_plan :: ir where
  "rename_plan = Node \<lparr>ir_op = SelectOp [\<lparr>ne_name = ''x'', ne_value = Col ''a'' Int64Type\<rparr>],
     ir_schema = [''x''], ir_rest = 0\<rparr> [Node \<lparr>ir_op = OtherOp, ir_schema = [''b'', ''a''], ir_rest = 0\<rparr> []]"

lemma maybe_remap_partitioning_sound_witness:
  "let key = (\<lambda>i. \<lparr>ko_index = i, ko_order = Ascending, ko_nulls = NullAfter\<rparr>)
   in partitioning_holds (\<lambda>vs. case hd vs of Some n \<Rightarrow> n | None \<Rightarrow> 0)
       \<lparr>pt_inter = HashScheme [0] 2, pt_local = NoScheme,
        pt_rows = [\<lparr>ro_keys = [key 0], ro_scope = GlobalScope, ro_groups = []\<rparr>]\<rparr>
       [[[\<lambda>_. Some (0 :: nat)]], [[\<lambda>_. Some 1]]]"
proof -
  let ?key = "\<lambda>i. \<lparr>ko_index = i, ko_order = Ascending, ko_nulls = NullAfter\<rparr>"
  let ?p = "\<lambda>i. \<lparr>pt_inter = HashScheme [i] 2, pt_local = NoScheme,
        pt_rows = [\<lparr>ro_keys = [?key i], ro_scope = GlobalScope, ro_groups = []\<rparr>]\<rparr> :: nat option partitioning"
  let ?ev = "\<lambda>e m. case col_name (ne_value e) of Some c \<Rightarrow> (case m c of Some v \<Rightarrow> v | None \<Rightarrow> None) | None \<Rightarrow> None"
  let ?hash = "\<lambda>vs. case hd vs of Some n \<Rightarrow> n | None \<Rightarrow> 0"
  let ?child = "[[[\<lambda>i. if i = 1 then Some 0 else None]], [[\<lambda>_. Some 1]]] :: nat option stream"
  have "column_domain_bindings rename_plan = Inr [(''x'', 0, ''a'')]"
    by (simp add: rename_plan_def column_domain_bindings_def op_def direct_columns_def dict_of_def)
  note b = this
  have m: "maybe_remap_partitioning ?ev (\<lambda>_. True) rename_plan (Some (?p 1)) None True None = Inr (Some (?p 0))"
    using b by (simp add: maybe_remap_partitioning_def direct_column_targets_def rename_plan_def node_exprs_def op_def schema_def
        remap_direct_names_def names_to_indices_def indices_to_names_def name_index_def remap_row_orderings_def
        remap_row_ordering_def remap_key_candidates_def direct_candidates_def derived_candidate_def match_derived_key_def
        truncate_source_name_def remap_order_keys_def new_row_ordering_def deduplicate_row_orderings_def partitioning_or_none_def)
  have row: "row_from ?ev rename_plan 0 r (\<lambda>_. r 1)" for r :: "nat option vrow"
    using b by (auto simp: row_from_def rename_plan_def schema_def name_index_def node_exprs_def op_def child_values_def
        split: if_splits)
  have st: "stream_from ?ev rename_plan 0 True ?child [[[\<lambda>_. Some 0]], [[\<lambda>_. Some 1]]]"
    using row [of "\<lambda>i. if i = 1 then Some 0 else None"] row [of "\<lambda>_. Some 1"]
    by (auto simp: stream_from_def chunk_from_def picked_def intro!: exI [of _ "[0 :: nat]"])
  have h: "partitioning_holds ?hash (?p 1) ?child"
    by (auto simp: partitioning_holds_def less_Suc_eq row_ordering_holds_def rows_ordered_def flags_def key_values_def
        value_lt_def intro!: exI [of _ id])
  have mono: "truncation_monotone ?ev"
  proof -
    have "col_name e = None" if "truncate_source_name e = Some source" for e source
      using that by (cases e) (simp_all add: truncate_source_name_def)
    then show ?thesis by (auto simp: truncation_monotone_def)
  qed
  have "partitioning_holds ?hash (?p 0) [[[\<lambda>_. Some 0]], [[\<lambda>_. Some 1]]]"
    by (rule maybe_remap_partitioning_sound [OF m h _ _ mono]) (use st in \<open>simp_all add: rename_plan_def schema_def\<close>)
  then show ?thesis by simp
qed

end
