(* ===== verification/StableSort.thy ===== *)
theory StableSort
  imports Prelude "HOL-Library.Multiset"
begin

text \<open>
  Sorting by a total preorder that is only known at run time (the directions and null orders of a
  query): a stable insertion sort, which is what libcudf's \<open>stable_sort\<close> computes, and the facts the
  distributed sort rests on.  The locale holds the laws of the preorder; it passes them on to rows
  that carry a sequence number as the last key.
\<close>

fun insort_by :: "('r \<Rightarrow> 'r \<Rightarrow> bool) \<Rightarrow> 'r \<Rightarrow> 'r list \<Rightarrow> 'r list" where
  "insort_by le x [] = [x]"
| "insort_by le x (y # ys) = (if le x y then x # y # ys else y # insort_by le x ys)"

definition stable_sort :: "('r \<Rightarrow> 'r \<Rightarrow> bool) \<Rightarrow> 'r list \<Rightarrow> 'r list" where
  "stable_sort le xs = foldr (insort_by le) xs []"

lemma stable_sort_Nil [simp]: "stable_sort le [] = []"
  by (simp add: stable_sort_def)

lemma stable_sort_Cons [simp]: "stable_sort le (x # xs) = insort_by le x (stable_sort le xs)"
  by (simp add: stable_sort_def)

lemma mset_insort_by [simp]: "mset (insort_by le x xs) = add_mset x (mset xs)"
  by (induction xs) simp_all

lemma mset_stable_sort [simp]: "mset (stable_sort le xs) = mset xs"
  by (induction xs) simp_all

lemma set_stable_sort [simp]: "set (stable_sort le xs) = set xs"
  by (metis mset_stable_sort set_mset_mset)

lemma length_stable_sort [simp]: "length (stable_sort le xs) = length xs"
  by (metis mset_stable_sort size_mset)

lemma insort_by_cong:
  "(\<And>y. y \<in> set xs \<Longrightarrow> le x y = le' x y) \<Longrightarrow> insort_by le x xs = insort_by le' x xs"
  by (induction xs) auto

lemma stable_sort_cong:
  "(\<And>x y. x \<in> set xs \<Longrightarrow> y \<in> set xs \<Longrightarrow> le x y = le' x y) \<Longrightarrow> stable_sort le xs = stable_sort le' xs"
proof (induction xs)
  case (Cons x xs)
  then have "stable_sort le xs = stable_sort le' xs" by simp
  then show ?case using Cons.prems insort_by_cong [of "stable_sort le' xs" le x le'] by simp
qed simp

definition with_tag :: "('r \<Rightarrow> 'r \<Rightarrow> bool) \<Rightarrow> 'r \<times> nat \<Rightarrow> 'r \<times> nat \<Rightarrow> bool" where
  "with_tag le x y \<longleftrightarrow> le (fst x) (fst y) \<and> (\<not> le (fst y) (fst x) \<or> snd x \<le> snd y)"

locale total_preorder =
  fixes le :: "'r \<Rightarrow> 'r \<Rightarrow> bool"
  assumes le_trans: "le x y \<Longrightarrow> le y z \<Longrightarrow> le x z"
    and le_total: "le x y \<or> le y x"
begin

lemma le_refl: "le x x"
  using le_total [of x x] by simp

lemma set_insort_by: "set (insort_by le x xs) = insert x (set xs)"
  by (induction xs) auto

lemma sorted_insort_by: "sorted_wrt le xs \<Longrightarrow> sorted_wrt le (insort_by le x xs)"
proof (induction xs)
  case (Cons y ys)
  then show ?case using le_total [of x y] le_trans [of x y] by (auto simp: set_insort_by)
qed simp

lemma sorted_stable_sort: "sorted_wrt le (stable_sort le xs)"
  by (induction xs) (simp_all add: sorted_insort_by)

lemma insort_by_first: "\<forall>y \<in> set xs. le x y \<Longrightarrow> insort_by le x xs = x # xs"
  by (cases xs) simp_all

lemma stable_sort_sorted: "sorted_wrt le xs \<Longrightarrow> stable_sort le xs = xs"
  by (induction xs) (simp_all add: insort_by_first)

lemma filter_insort_by:
  "sorted_wrt le xs \<Longrightarrow> filter P (insort_by le x xs) = (if P x then insort_by le x (filter P xs) else filter P xs)"
proof (induction xs)
  case (Cons y ys)
  have "insort_by le x (filter P ys) = x # filter P ys" if "le x y"
    using Cons.prems that le_trans [of x y] by (intro insort_by_first) auto
  then show ?case using Cons by auto
qed simp

lemma filter_stable_sort: "filter P (stable_sort le xs) = stable_sort le (filter P xs)"
  by (induction xs) (simp_all add: filter_insort_by sorted_stable_sort)

text \<open>Sorted lists are equal when they agree on every class of equivalent elements.\<close>

definition equivalent :: "'r \<Rightarrow> 'r \<Rightarrow> bool" where
  "equivalent x y \<longleftrightarrow> le x y \<and> le y x"

lemma sorted_unique:
  assumes "sorted_wrt le ys" and "sorted_wrt le zs" and "\<And>x. filter (equivalent x) ys = filter (equivalent x) zs"
  shows "ys = zs"
  using assms
proof (induction ys arbitrary: zs)
  case Nil
  have "z \<notin> set zs" for z
    using Nil.prems(3) [of z, symmetric] le_refl [of z] by (auto simp: equivalent_def filter_empty_conv)
  then show ?case by (cases zs) auto
next
  case (Cons y ys)
  have "y \<in> set (filter (equivalent y) (y # ys))" using le_refl [of y] by (simp add: equivalent_def)
  then have "y \<in> set (filter (equivalent y) zs)" by (simp only: Cons.prems(3))
  then have yz: "y \<in> set zs" by simp
  then obtain z zs' where z: "zs = z # zs'" by (cases zs) auto
  have "z \<in> set (filter (equivalent z) zs)" using le_refl [of z] by (simp add: z equivalent_def)
  then have "z \<in> set (filter (equivalent z) (y # ys))" by (simp only: Cons.prems(3))
  then have "z \<in> set (y # ys)" by (auto split: if_splits)
  then have "le y z" using Cons.prems(1) le_refl [of y] by auto
  moreover have "le z y" using Cons.prems(2) yz z le_refl [of z] by auto
  ultimately have e: "equivalent y y" "equivalent y z" using le_refl [of y] by (auto simp: equivalent_def)
  have hd: "y = z" using Cons.prems(3) [of y] e z by simp
  have "filter (equivalent x) ys = filter (equivalent x) zs'" for x
    using Cons.prems(3) [of x] hd z by (auto split: if_splits)
  then show ?case using Cons.IH [of zs'] Cons.prems(1,2) z hd by simp
qed

lemma filter_equivalent: "filter (equivalent x) (stable_sort le xs) = filter (equivalent x) xs"
proof -
  have "sorted_wrt le (filter (equivalent x) xs)"
    by (induction xs) (auto simp: equivalent_def intro: le_trans)
  then show ?thesis by (simp add: filter_stable_sort stable_sort_sorted)
qed

lemma stable_sort_unique:
  assumes "sorted_wrt le ys" and "\<And>x. filter (equivalent x) ys = filter (equivalent x) xs"
  shows "stable_sort le xs = ys"
  by (rule sorted_unique [OF sorted_stable_sort assms(1)]) (simp add: filter_equivalent assms(2))

text \<open>Sorting chunks before they are concatenated does not change the sorted whole.\<close>

lemma stable_sort_chunks: "stable_sort le (concat (map (stable_sort le) xss)) = stable_sort le (concat xss)"
proof (rule stable_sort_unique [OF sorted_stable_sort])
  fix x
  show "filter (equivalent x) (stable_sort le (concat xss)) = filter (equivalent x) (concat (map (stable_sort le) xss))"
    unfolding filter_equivalent by (induction xss) (simp_all add: filter_equivalent)
qed

lemma stable_sort_idem: "stable_sort le (stable_sort le xs) = stable_sort le xs"
  by (rule stable_sort_sorted [OF sorted_stable_sort])

end

text \<open>Rows that carry a tag are ordered by the row first.\<close>

locale row_order = total_preorder

sublocale row_order \<subseteq> tagged: total_preorder "with_tag le"
proof
  fix x y z
  show "with_tag le x y \<Longrightarrow> with_tag le y z \<Longrightarrow> with_tag le x z"
    using le_trans [of "fst x" "fst y" "fst z"] le_trans [of "fst y" "fst z" "fst x"] le_trans [of "fst z" "fst x" "fst y"]
    by (auto simp: with_tag_def)
  show "with_tag le x y \<or> with_tag le y x"
    using le_total [of "fst x" "fst y"] by (auto simp: with_tag_def)
qed

context row_order
begin

lemma tagged_order: "row_order (with_tag le)"
  by (rule row_order.intro [OF tagged.total_preorder_axioms])

text \<open>Sorting by the keys and a tag that grows along the list is the stable sort by the keys.\<close>

lemma stable_sort_tagged:
  assumes "sorted_wrt (\<lambda>x y. snd x \<le> snd y) ts"
  shows "map fst (stable_sort (with_tag le) ts) = stable_sort le (map fst ts)"
proof (rule stable_sort_unique [symmetric])
  show "sorted_wrt le (map fst (stable_sort (with_tag le) ts))"
    using tagged.sorted_stable_sort [of ts]
    by (auto simp: sorted_wrt_map with_tag_def elim!: sorted_wrt_mono_rel [rotated])
next
  fix x
  let ?P = "\<lambda>t. equivalent x (fst t)"
  have "sorted_wrt (with_tag le) (filter ?P ts)"
    using assms by (induction ts) (auto simp: with_tag_def equivalent_def intro: le_trans)
  then have "filter ?P (stable_sort (with_tag le) ts) = filter ?P ts"
    by (simp add: tagged.filter_stable_sort tagged.stable_sort_sorted)
  then show "filter (equivalent x) (map fst (stable_sort (with_tag le) ts)) = filter (equivalent x) (map fst ts)"
    by (simp add: filter_map comp_def)
qed

text \<open>With distinct tags any sorted arrangement is the sorted list.\<close>

lemma sorted_tagged_unique:
  assumes "sorted_wrt (with_tag le) ys" and m: "mset ys = mset xs" and d: "distinct (map snd xs)"
  shows "ys = stable_sort (with_tag le) xs"
proof (rule tagged.stable_sort_unique [OF assms(1), symmetric])
  fix x
  have d': "distinct (map snd ys)" using m d by (metis mset_eq_imp_distinct_iff mset_map)
  have one: "length (filter (tagged.equivalent x) zs) \<le> 1" if "distinct (map snd zs)" for zs
  proof -
    have "snd y = snd x" if "y \<in> set (filter (tagged.equivalent x) zs)" for y
      using that le_total [of "fst x" "fst y"] by (auto simp: tagged.equivalent_def with_tag_def)
    then have "set (map snd (filter (tagged.equivalent x) zs)) \<subseteq> {snd x}" by auto
    moreover have "distinct (map snd (filter (tagged.equivalent x) zs))"
      using that by (simp add: distinct_map_filter)
    ultimately have "length (map snd (filter (tagged.equivalent x) zs)) \<le> card {snd x}"
      by (metis card_mono distinct_card finite.emptyI finite.insertI)
    then show ?thesis by simp
  qed
  have "mset (filter (tagged.equivalent x) ys) = mset (filter (tagged.equivalent x) xs)" using m by simp
  then show "filter (tagged.equivalent x) ys = filter (tagged.equivalent x) xs"
    using one [OF d] one [OF d'] by (cases "filter (tagged.equivalent x) xs"; cases "filter (tagged.equivalent x) ys") auto
qed

end

end
