(* ===== verification/SortModel.thy ===== *)
theory SortModel
  imports MetadataModel StableSort
begin

text \<open>
  The distributed sort of the streaming engine (\<open>streaming/actor_graph/collectives/sort.py\<close> and
  \<open>sort_utils.py\<close>): the boundaries sampled from the chunks, the splits of every chunk, the shuffle,
  and the three shorter ways the sort actor can take (rows already ordered, chunks already
  separated, a small head or tail).  Ranks are positions of a list; a chunk is a message with its
  sequence number and its rows.  The unstable sort of libcudf and the order in which the shuffler
  delivers the pieces of a partition are parameters.
\<close>

section \<open>Rows and their order\<close>

type_synonym 'v message = "nat \<times> 'v vrow list"

definition keys_le :: "okey list \<Rightarrow> 'a::linorder option list \<Rightarrow> 'a option list \<Rightarrow> bool" where
  "keys_le keys x y \<longleftrightarrow> \<not> tuple_lt value_lt (flags keys) y x"

definition row_le :: "okey list \<Rightarrow> 'a::linorder option vrow \<Rightarrow> 'a option vrow \<Rightarrow> bool" where
  "row_le keys r s \<longleftrightarrow> keys_le keys (key_values keys r) (key_values keys s)"

section \<open>The local sort\<close>

text \<open>The keys are columns of the schema by index; \<open>si_by\<close> are the expressions they come from.\<close>

record sort_ir =
  si_schema :: "string list"
  si_by :: "named_expr list"
  si_order :: "sort_direction list"
  si_null_order :: "null_order list"
  si_stable :: bool
  si_zlice :: "(int \<times> int option) option"

fun plain_columns :: "named_expr list \<Rightarrow> string list" where
  "plain_columns [] = []"
| "plain_columns (ne # nes) =
     (case ne_value ne of Col name t \<Rightarrow> name # plain_columns nes | _ \<Rightarrow> plain_columns nes)"

definition sort_by_column_names :: "sort_ir \<Rightarrow> string list res" where
  "sort_by_column_names ir =
     (let cols = plain_columns (si_by ir)
      in if length cols \<noteq> length (si_by ir) then Inl NotImplementedError else Inr cols)"

definition sort_to_order_keys :: "sort_ir \<Rightarrow> okey list res" where
  "sort_to_order_keys ir =
     rbind (sort_by_column_names ir) (\<lambda>names.
     rbind (names_to_indices names (si_schema ir)) (\<lambda>indices.
       Inr (map (\<lambda>(i, d, n). \<lparr>ko_index = i, ko_order = d, ko_nulls = n\<rparr>)
         (zip indices (zip (si_order ir) (si_null_order ir))))))"

text \<open>\<open>DataFrame.slice\<close>: start and length are turned into bounds clipped to the rows.\<close>

definition polars_slice :: "int \<times> int option \<Rightarrow> nat \<Rightarrow> int \<times> int" where
  "polars_slice zlice num_rows =
     (let (start, len) = zlice;
          n = int num_rows;
          len = (case len of None \<Rightarrow> n | Some l \<Rightarrow> l);
          start = (if start < 0 then start + n else start);
          stop = start + len
      in (max (min start n) 0, max (min stop n) 0))"

definition slice_rows :: "(int \<times> int option) option \<Rightarrow> 'r list \<Rightarrow> 'r list" where
  "slice_rows zlice rows =
     (case zlice of
        None \<Rightarrow> rows
      | Some z \<Rightarrow> (let (start, stop) = polars_slice z (length rows) in take (nat stop - nat start) (drop (nat start) rows)))"

text \<open>\<open>unstable\<close> stands for \<open>sort_by_key\<close> of libcudf.\<close>

definition evaluate_sort ::
  "(okey list \<Rightarrow> 'a::linorder option vrow list \<Rightarrow> 'a option vrow list) \<Rightarrow> okey list \<Rightarrow> bool
   \<Rightarrow> (int \<times> int option) option \<Rightarrow> 'a option vrow list \<Rightarrow> 'a option vrow list" where
  "evaluate_sort unstable keys is_stable zlice rows =
     slice_rows zlice (if is_stable then stable_sort (row_le keys) rows else unstable keys rows)"

definition has_simple_zlice :: "(int \<times> int option) option \<Rightarrow> bool" where
  "has_simple_zlice zlice =
     (case zlice of
        None \<Rightarrow> False
      | Some (start, len) \<Rightarrow>
          \<not> (start > 0 \<or> (start < 0 \<and> (case len of None \<Rightarrow> False | Some l \<Rightarrow> start + l < 0))))"

section \<open>Boundaries\<close>

text \<open>A split candidate: the keys of a row, the chunk it is from and its position there.\<close>

type_synonym 'v candidate = "('v list \<times> nat) \<times> nat"

definition candidate_le :: "okey list \<Rightarrow> 'a::linorder option candidate \<Rightarrow> 'a option candidate \<Rightarrow> bool" where
  "candidate_le keys = with_tag (with_tag (keys_le keys))"

definition select_local_split_candidates ::
  "okey list \<Rightarrow> 'v vrow list \<Rightarrow> nat \<Rightarrow> nat \<Rightarrow> 'v candidate list" where
  "select_local_split_candidates keys rows num_partitions my_part_id =
     (if rows = [] then []
      else map (\<lambda>i. let row = i * length rows div num_partitions in ((key_values keys (rows ! row), my_part_id), row))
             [0..<num_partitions])"

definition get_final_sort_boundaries ::
  "okey list \<Rightarrow> 'a::linorder option candidate list \<Rightarrow> nat \<Rightarrow> 'a option candidate list" where
  "get_final_sort_boundaries keys candidates num_partitions =
     (if num_partitions \<le> 1 \<or> candidates = [] then []
      else
        (let sorted_candidates = stable_sort (candidate_le keys) candidates
         in map (\<lambda>i. sorted_candidates ! (i * length sorted_candidates div num_partitions)) [1..<num_partitions]))"

definition compute_sort_boundaries ::
  "okey list \<Rightarrow> nat \<Rightarrow> bool \<Rightarrow> 'a::linorder option candidate list list list \<Rightarrow> nat \<Rightarrow> 'a option candidate list" where
  "compute_sort_boundaries keys num_partitions need_allgather candidates rank =
     (let local_boundaries = map (\<lambda>cs. get_final_sort_boundaries keys (concat cs) num_partitions) candidates
      in if need_allgather then get_final_sort_boundaries keys (concat local_boundaries) num_partitions
         else local_boundaries ! rank)"

definition lower_bound :: "okey list \<Rightarrow> 'a::linorder option list list \<Rightarrow> 'a option list \<Rightarrow> nat" where
  "lower_bound keys tbl b = length (takeWhile (\<lambda>x. tuple_lt value_lt (flags keys) x b) tbl)"

definition upper_bound :: "okey list \<Rightarrow> 'a::linorder option list list \<Rightarrow> 'a option list \<Rightarrow> nat" where
  "upper_bound keys tbl b = length (takeWhile (\<lambda>x. keys_le keys x b) tbl)"

definition find_sort_splits ::
  "okey list \<Rightarrow> 'a::linorder option list list \<Rightarrow> 'a option candidate list \<Rightarrow> nat \<Rightarrow> bool \<Rightarrow> nat list" where
  "find_sort_splits keys tbl sort_boundaries my_part_id chunk_relative =
     sort (map (\<lambda>((b, part_id), local_row).
        let first_row = (if chunk_relative then upper_bound keys tbl b else lower_bound keys tbl b);
            out = (if chunk_relative then first_row else if part_id = my_part_id then local_row else first_row)
        in min out (length tbl)) sort_boundaries)"

definition build_order_scheme :: "okey list \<Rightarrow> 'v candidate list \<Rightarrow> 'v scheme" where
  "build_order_scheme keys sort_boundaries =
     (let by_table = map (\<lambda>b. fst (fst b)) sort_boundaries
      in OrderScheme [\<lparr>or_keys = keys, or_bounds = by_table,
           or_strict = (by_table = [] \<or> length (remdups_adj by_table) = length by_table)\<rparr>])"

section \<open>Buffering and shuffling\<close>

text \<open>Rows carry a sequence number in a stable sort (zero otherwise, when there is no such column).\<close>

type_synonym 'v tagged = "'v vrow \<times> nat"

fun receive_and_buffer_chunks ::
  "(okey list \<Rightarrow> 'a::linorder option vrow list \<Rightarrow> 'a option vrow list) \<Rightarrow> okey list \<Rightarrow> bool \<Rightarrow> nat \<Rightarrow> nat \<Rightarrow> nat
   \<Rightarrow> 'a option message list \<Rightarrow> 'a option candidate list list \<times> (nat \<times> 'a option tagged list) list" where
  "receive_and_buffer_chunks unstable keys is_stable num_partitions rank local_row_offset [] = ([], [])"
| "receive_and_buffer_chunks unstable keys is_stable num_partitions rank local_row_offset ((seq_num, rows) # msgs) =
     (let df = evaluate_sort unstable keys is_stable None rows;
          candidates = select_local_split_candidates keys df num_partitions seq_num;
          start = rank * 2 ^ 48 + local_row_offset;
          seq_ids = (if is_stable then map (\<lambda>i. (start + i) mod 2 ^ 64) [0..<length df] else replicate (length df) 0);
          offset = (if is_stable then local_row_offset + length df else local_row_offset);
          (cs, store) = receive_and_buffer_chunks unstable keys is_stable num_partitions rank offset msgs
      in (candidates # cs, (seq_num, zip df seq_ids) # store))"

text \<open>\<open>split_and_pack\<close> cuts a table at the splits.\<close>

fun split_at :: "nat \<Rightarrow> nat list \<Rightarrow> 'r list \<Rightarrow> 'r list list" where
  "split_at start [] rows = [drop start rows]"
| "split_at start (s # ss) rows = take (s - start) (drop start rows) # split_at s ss rows"

definition piece :: "'r list list \<Rightarrow> nat \<Rightarrow> 'r list" where
  "piece ps p = (if p < length ps then ps ! p else [])"

text \<open>What the ranks insert for a partition, in the order of the ranks and their chunks.\<close>

definition inserted_pieces ::
  "okey list \<Rightarrow> bool \<Rightarrow> (nat \<Rightarrow> 'a::linorder option candidate list) \<Rightarrow> (nat \<times> 'a option tagged list) list list
   \<Rightarrow> nat \<Rightarrow> 'a option tagged list" where
  "inserted_pieces keys duplicated bounds stores p =
     concat (map (\<lambda>rank.
       if duplicated \<and> rank \<noteq> 0 then []
       else concat (map (\<lambda>(seq_num, rows).
         piece (split_at 0 (find_sort_splits keys (map (\<lambda>r. key_values keys (fst r)) rows) (bounds rank) seq_num True) rows) p)
         (stores ! rank))) [0..<length stores])"

text \<open>Every partition is sorted again once it is complete, in a stable sort also by the sequence
  numbers, which are dropped; empty partitions are not sent.\<close>

definition extract_partitions ::
  "(okey list \<Rightarrow> 'a::linorder option vrow list \<Rightarrow> 'a option vrow list)
   \<Rightarrow> (nat \<Rightarrow> 'a option tagged list \<Rightarrow> 'a option tagged list) \<Rightarrow> okey list \<Rightarrow> bool \<Rightarrow> (nat \<Rightarrow> 'a option tagged list)
   \<Rightarrow> nat list \<Rightarrow> 'a option vrow list list" where
  "extract_partitions unstable arrange keys is_stable pieces local_partitions =
     concat (map (\<lambda>p.
       let table = arrange p (pieces p)
       in if table = [] then []
          else [if is_stable then map fst (stable_sort (with_tag (row_le keys)) table)
                else unstable keys (map fst table)]) local_partitions)"

section \<open>The sort actor\<close>

record 'v channel_metadata =
  cm_count :: nat
  cm_partitioning :: "'v partitioning option"
  cm_duplicated :: bool

definition can_sort_chunkwise :: "'v key_ordering option \<Rightarrow> okey list \<Rightarrow> bool" where
  "can_sort_chunkwise kord order_keys =
     (case kord of
        None \<Rightarrow> False
      | Some kord \<Rightarrow>
          or_keys kord = take (length (or_keys kord)) order_keys
          \<and> (length (or_keys kord) = length order_keys \<or> or_strict kord))"

definition global_ordering :: "okey list \<Rightarrow> row_ordering res" where
  "global_ordering keys = new_row_ordering keys GlobalScope []"

definition no_partitioning :: "'v partitioning" where
  "no_partitioning = \<lparr>pt_inter = NoScheme, pt_local = NoScheme, pt_rows = []\<rparr>"

definition simple_top_or_bottom_k ::
  "(okey list \<Rightarrow> 'a::linorder option vrow list \<Rightarrow> 'a option vrow list) \<Rightarrow> okey list \<Rightarrow> bool
   \<Rightarrow> (int \<times> int option) option \<Rightarrow> bool \<Rightarrow> 'a option message list list \<Rightarrow> nat \<Rightarrow> 'a option vrow list" where
  "simple_top_or_bottom_k unstable keys is_stable zlice duplicated data rank =
     (let ev = evaluate_sort unstable keys is_stable zlice;
          chunk = (\<lambda>msgs. let chunks = map (\<lambda>m. ev (snd m)) msgs in if chunks \<noteq> [] then ev (concat chunks) else [])
      in if length data > 1 \<and> \<not> duplicated then ev (concat (map chunk data)) else chunk (data ! rank))"

definition global_sort ::
  "(okey list \<Rightarrow> 'a::linorder option vrow list \<Rightarrow> 'a option vrow list)
   \<Rightarrow> (nat \<Rightarrow> 'a option tagged list \<Rightarrow> 'a option tagged list) \<Rightarrow> (nat \<Rightarrow> nat list) \<Rightarrow> okey list \<Rightarrow> bool \<Rightarrow> bool \<Rightarrow> nat
   \<Rightarrow> 'a option message list list \<Rightarrow> nat \<Rightarrow> ('a option channel_metadata \<times> 'a option vrow list list) res" where
  "global_sort unstable arrange owned keys is_stable duplicated num_partitions data rank =
     (let buffered = map (\<lambda>(k, msgs). receive_and_buffer_chunks unstable keys is_stable num_partitions k 0 msgs)
            (zip [0..<length data] data);
          bounds = compute_sort_boundaries keys num_partitions (length data > 1 \<and> \<not> duplicated) (map fst buffered);
          pieces = inserted_pieces keys duplicated bounds (map snd buffered)
      in rbind (global_ordering keys) (\<lambda>ro.
           Inr (\<lparr>cm_count = max 1 (num_partitions div length data),
                 cm_partitioning = Some \<lparr>pt_inter = build_order_scheme keys (bounds rank), pt_local = Inherit, pt_rows = [ro]\<rparr>,
                 cm_duplicated = False\<rparr>,
                extract_partitions unstable arrange keys is_stable pieces (owned rank))))"

definition sort_with_keys ::
  "(okey list \<Rightarrow> 'a::linorder option vrow list \<Rightarrow> 'a option vrow list)
   \<Rightarrow> (nat \<Rightarrow> 'a option tagged list \<Rightarrow> 'a option tagged list) \<Rightarrow> (nat \<Rightarrow> nat list) \<Rightarrow> okey list \<Rightarrow> sort_ir
   \<Rightarrow> nat \<Rightarrow> 'a option channel_metadata \<Rightarrow> 'a option message list list \<Rightarrow> nat
   \<Rightarrow> ('a option channel_metadata \<times> 'a option vrow list list) res" where
  "sort_with_keys unstable arrange owned keys ir num_partitions metadata_in data rank =
     (let is_stable = si_stable ir; duplicated = cm_duplicated metadata_in in
      if si_zlice ir \<noteq> None
      then if \<not> has_simple_zlice (si_zlice ir) then Inl AssertionError
           else rbind (global_ordering keys) (\<lambda>ro.
             Inr (\<lparr>cm_count = 1, cm_partitioning = Some (no_partitioning\<lparr>pt_rows := [ro]\<rparr>), cm_duplicated = True\<rparr>,
                  [simple_top_or_bottom_k unstable keys is_stable (si_zlice ir) duplicated data rank]))
      else rbind (is_row_ordered_by (cm_partitioning metadata_in) keys [] GlobalScope) (\<lambda>ordered.
        if ordered then Inr (metadata_in, map snd (data ! rank))
        else
          (let partitioning = from_keys (cm_partitioning metadata_in) (length data) (OrderKeys keys) True;
               kord = get_ordering partitioning (if duplicated then LocalLevel else Flat)
           in if can_sort_chunkwise kord keys
              then rbind (global_ordering keys) (\<lambda>ro.
                   rbind (replace_row_orderings
                     (case cm_partitioning metadata_in of None \<Rightarrow> no_partitioning | Some p \<Rightarrow> p) [ro]) (\<lambda>p.
                   Inr (metadata_in\<lparr>cm_partitioning := Some p\<rparr>,
                        map (\<lambda>m. evaluate_sort unstable keys is_stable None (snd m)) (data ! rank))))
              else global_sort unstable arrange owned keys is_stable duplicated num_partitions data rank)))"

definition sort_actor ::
  "(okey list \<Rightarrow> 'a::linorder option vrow list \<Rightarrow> 'a option vrow list)
   \<Rightarrow> (nat \<Rightarrow> 'a option tagged list \<Rightarrow> 'a option tagged list) \<Rightarrow> (nat \<Rightarrow> nat list) \<Rightarrow> sort_ir
   \<Rightarrow> nat \<Rightarrow> 'a option channel_metadata \<Rightarrow> 'a option message list list \<Rightarrow> nat
   \<Rightarrow> ('a option channel_metadata \<times> 'a option vrow list list) res" where
  "sort_actor unstable arrange owned ir num_partitions metadata_in data rank =
     rbind (sort_to_order_keys ir) (\<lambda>keys. sort_with_keys unstable arrange owned keys ir num_partitions metadata_in data rank)"

end
