(* ===== verification/SortFacts.thy ===== *)
theory SortFacts
  imports SortModel
begin

text \<open>
  The distributed sort is a sort: its output is the stable sort of its input (or, for the unstable
  sort, a sorted arrangement of it), and the metadata it announces is true of the output.
\<close>

section \<open>The order of rows\<close>

lemma length_flags [simp]: "length (flags keys) = length keys"
  by (simp add: flags_def)

lemma length_key_values [simp]: "length (key_values keys r) = length keys"
  by (simp add: key_values_def)

lemma keys_le_iff:
  "length x = length keys \<Longrightarrow> length y = length keys \<Longrightarrow> keys_le keys x y \<longleftrightarrow> tuple_le value_lt (flags keys) x y"
  using nullable.tuple_not_lt [of y "flags keys" x] by (simp add: keys_le_def)

lemma row_le_iff: "row_le keys r s \<longleftrightarrow> tuple_le value_lt (flags keys) (key_values keys r) (key_values keys s)"
  by (simp add: row_le_def keys_le_iff)

lemma row_order_row_le: "row_order (row_le keys)"
proof (rule row_order.intro, unfold_locales)
  fix r s t :: "'a option vrow"
  show "row_le keys r s \<Longrightarrow> row_le keys s t \<Longrightarrow> row_le keys r t"
    by (auto simp: row_le_iff intro: nullable.tuple_le_trans)
  show "row_le keys r s \<or> row_le keys s r"
    using nullable.tuple_total [of "key_values keys r" "flags keys" "key_values keys s"]
    by (auto simp: row_le_iff tuple_le_def)
qed

interpretation row: row_order "row_le keys" for keys :: "okey list"
  by (rule row_order_row_le)

lemma row_lt_iff: "\<not> row_le keys s r \<longleftrightarrow> tuple_lt value_lt (flags keys) (key_values keys r) (key_values keys s)"
  by (simp add: row_le_def keys_le_def)

lemma rows_ordered_iff:
  "rows_ordered \<lparr>ro_keys = keys, ro_scope = scope, ro_groups = []\<rparr> rows \<longleftrightarrow> sorted_wrt (row_le keys) rows"
  by (simp add: rows_ordered_def row_le_iff [abs_def])

section \<open>Boundaries\<close>

text \<open>The key tuples of candidates all have the length of the keys; padding the others makes the
  comparison a total preorder.\<close>

definition padded :: "okey list \<Rightarrow> 'b option list \<Rightarrow> 'b option list" where
  "padded keys x = map (\<lambda>i. if i < length x then x ! i else None) [0..<length keys]"

lemma length_padded [simp]: "length (padded keys x) = length keys"
  by (simp add: padded_def)

lemma padded_id: "length x = length keys \<Longrightarrow> padded keys x = x"
  by (auto simp: padded_def intro: nth_equalityI)

definition padded_le :: "okey list \<Rightarrow> 'a::linorder option list \<Rightarrow> 'a option list \<Rightarrow> bool" where
  "padded_le keys x y \<longleftrightarrow> keys_le keys (padded keys x) (padded keys y)"

lemma padded_le_iff: "padded_le keys x y \<longleftrightarrow> tuple_le value_lt (flags keys) (padded keys x) (padded keys y)"
  by (simp add: padded_le_def keys_le_iff padded_def)

lemma row_order_padded_le: "row_order (padded_le keys)"
proof (rule row_order.intro, unfold_locales)
  fix x y z :: "'a option list"
  show "padded_le keys x y \<Longrightarrow> padded_le keys y z \<Longrightarrow> padded_le keys x z"
    by (auto simp: padded_le_iff intro: nullable.tuple_le_trans)
  show "padded_le keys x y \<or> padded_le keys y x"
    using nullable.tuple_total [of "padded keys x" "flags keys" "padded keys y"]
    by (auto simp: padded_le_iff tuple_le_def)
qed

interpretation padded: row_order "with_tag (padded_le keys)" for keys :: "okey list"
  by (rule row_order.tagged_order [OF row_order_padded_le])

definition candidate_ok :: "okey list \<Rightarrow> 'v candidate \<Rightarrow> bool" where
  "candidate_ok keys c \<longleftrightarrow> length (fst (fst c)) = length keys"

lemma candidate_le_padded:
  "candidate_ok keys x \<Longrightarrow> candidate_ok keys y \<Longrightarrow> candidate_le keys x y = with_tag (with_tag (padded_le keys)) x y"
  by (simp add: candidate_le_def with_tag_def padded_le_def padded_id candidate_ok_def)

lemma sorted_candidates:
  assumes "list_all (candidate_ok keys) cs"
  shows "sorted_wrt (\<lambda>x y. tuple_le value_lt (flags keys) (fst (fst x)) (fst (fst y))) (stable_sort (candidate_le keys) cs)"
proof -
  have "stable_sort (candidate_le keys) cs = stable_sort (with_tag (with_tag (padded_le keys))) cs"
    using assms by (intro stable_sort_cong candidate_le_padded) (simp_all add: list_all_iff)
  moreover have "sorted_wrt (with_tag (with_tag (padded_le keys))) (stable_sort (with_tag (with_tag (padded_le keys))) cs)"
    by (rule padded.tagged.sorted_stable_sort)
  ultimately have "sorted_wrt (with_tag (with_tag (padded_le keys))) (stable_sort (candidate_le keys) cs)" by simp
  then show ?thesis
  proof (rule sorted_wrt_mono_rel [rotated])
    fix x y
    assume "x \<in> set (stable_sort (candidate_le keys) cs)" "y \<in> set (stable_sort (candidate_le keys) cs)"
      and le: "with_tag (with_tag (padded_le keys)) x y"
    then have "candidate_ok keys x" "candidate_ok keys y" using assms by (simp_all add: list_all_iff)
    then show "tuple_le value_lt (flags keys) (fst (fst x)) (fst (fst y))"
      using le by (simp add: with_tag_def padded_le_iff padded_id candidate_ok_def)
  qed
qed

lemma final_boundaries:
  fixes n :: nat
  assumes "list_all (candidate_ok keys) cs"
  defines "bs \<equiv> get_final_sort_boundaries keys cs n"
  shows "set bs \<subseteq> set cs" and "list_all (candidate_ok keys) bs"
    and "sorted_wrt (tuple_le value_lt (flags keys)) (map (\<lambda>b. fst (fst b)) bs)"
    and "length bs = (if n \<le> 1 \<or> cs = [] then 0 else n - 1)"
proof -
  define s where "s = stable_sort (candidate_le keys) cs"
  have idx: "i * length s div n < length s" if "i < n" "cs \<noteq> []" for i
    using that by (simp add: div_less_iff_less_mult s_def)
  have bs: "bs = (if n \<le> 1 \<or> cs = [] then [] else map (\<lambda>i. s ! (i * length s div n)) [1..<n])"
    by (simp add: bs_def get_final_sort_boundaries_def s_def Let_def)
  show sub: "set bs \<subseteq> set cs"
  proof
    fix b
    assume "b \<in> set bs"
    then obtain i where i: "cs \<noteq> []" "i < n" "b = s ! (i * length s div n)" by (auto simp: bs split: if_splits)
    then have "b \<in> set s" using idx [of i] by simp
    then show "b \<in> set cs" by (simp add: s_def)
  qed
  then show "list_all (candidate_ok keys) bs" using assms(1) by (auto simp: list_all_iff)
  have so: "sorted_wrt (\<lambda>x y. tuple_le value_lt (flags keys) (fst (fst x)) (fst (fst y))) s"
    using sorted_candidates [OF assms(1)] by (simp add: s_def)
  have mono: "tuple_le value_lt (flags keys) (fst (fst (s ! i))) (fst (fst (s ! j)))" if "i \<le> j" "j < length s" for i j
    using so that by (cases "i = j") (auto simp: sorted_wrt_iff_nth_less)
  show "sorted_wrt (tuple_le value_lt (flags keys)) (map (\<lambda>b. fst (fst b)) bs)"
  proof (cases "n \<le> 1 \<or> cs = []")
    case False
    have "tuple_le value_lt (flags keys) (fst (fst (s ! ((length s + i * length s) div n))))
        (fst (fst (s ! ((length s + j * length s) div n))))" if "i < j" "j < n - Suc 0" for i j
      using mono [of "Suc i * length s div n" "Suc j * length s div n"] idx [of "Suc j"] that False
      by (simp add: div_le_mono)
    then show ?thesis using False by (simp add: bs sorted_wrt_iff_nth_less)
  qed (simp add: bs)
  show "length bs = (if n \<le> 1 \<or> cs = [] then 0 else n - 1)" by (simp add: bs)
qed

section \<open>Pieces of a sorted chunk\<close>

lemma concat_split_at:
  "sorted (start # ss) \<Longrightarrow> \<forall>s \<in> set ss. s \<le> length rows \<Longrightarrow> concat (split_at start ss rows) = drop start rows"
proof (induction ss arbitrary: start)
  case (Cons s ss)
  have "concat (split_at s ss rows) = drop s rows" using Cons by simp
  moreover have "take (s - start) (drop start rows) @ drop s rows = drop start rows"
    using append_take_drop_id [of "s - start" "drop start rows"] Cons.prems(1) by simp
  ultimately show ?case by simp
qed simp

lemma length_split_at [simp]: "length (split_at start ss rows) = length ss + 1"
  by (induction ss arbitrary: start) simp_all

text \<open>The rows of the piece between two neighbouring splits.\<close>

lemma split_at_nth:
  "p \<le> length ss \<Longrightarrow> sorted (start # ss) \<Longrightarrow>
   split_at start ss rows ! p =
     take ((if p < length ss then ss ! p else length rows) - (start # ss) ! p) (drop ((start # ss) ! p) rows)"
proof (induction ss arbitrary: start p)
  case (Cons s ss)
  then show ?case by (cases p) simp_all
qed simp

lemma takeWhile_le_iff:
  assumes "sorted_wrt le xs" and "\<And>x y. le x y \<Longrightarrow> P y \<Longrightarrow> P x" and "i < length xs"
  shows "i < length (takeWhile P xs) \<longleftrightarrow> P (xs ! i)"
proof
  assume "i < length (takeWhile P xs)"
  then show "P (xs ! i)" by (metis nth_mem set_takeWhileD takeWhile_nth)
next
  assume p: "P (xs ! i)"
  show "i < length (takeWhile P xs)"
  proof (rule ccontr)
    assume n: "\<not> i < length (takeWhile P xs)"
    then have l: "length (takeWhile P xs) < length xs" using assms(3) by simp
    then have np: "\<not> P (xs ! length (takeWhile P xs))" using nth_length_takeWhile by blast
    then have "length (takeWhile P xs) < i" using n p by (metis linorder_neqE_nat)
    then have "le (xs ! length (takeWhile P xs)) (xs ! i)" using assms(1,3) by (simp add: sorted_wrt_iff_nth_less)
    then show False using assms(2) p np by blast
  qed
qed

definition sorted_keys :: "okey list \<Rightarrow> 'a::linorder option list list \<Rightarrow> bool" where
  "sorted_keys keys bs \<longleftrightarrow> list_all (\<lambda>b. length b = length keys) bs \<and> sorted_wrt (tuple_le value_lt (flags keys)) bs"

lemma upper_bound_iff:
  assumes "sorted_keys keys tbl" and "i < length tbl" and "length b = length keys"
  shows "i < upper_bound keys tbl b \<longleftrightarrow> tuple_le value_lt (flags keys) (tbl ! i) b"
proof -
  have e: "keys_le keys x b \<longleftrightarrow> tuple_le value_lt (flags keys) x b" if "x \<in> set tbl" for x
    using assms(1,3) that by (simp add: sorted_keys_def list_all_iff keys_le_iff)
  have "takeWhile (\<lambda>x. keys_le keys x b) tbl = takeWhile (\<lambda>x. tuple_le value_lt (flags keys) x b) tbl"
    by (rule takeWhile_cong) (simp_all add: e)
  moreover have "i < length (takeWhile (\<lambda>x. tuple_le value_lt (flags keys) x b) tbl) \<longleftrightarrow> tuple_le value_lt (flags keys) (tbl ! i) b"
    by (rule takeWhile_le_iff [of "tuple_le value_lt (flags keys)"])
      (use assms(1,2) nullable.tuple_le_trans in \<open>auto simp: sorted_keys_def\<close>)
  ultimately show ?thesis by (simp add: upper_bound_def)
qed

lemma upper_bound_length: "upper_bound keys tbl b \<le> length tbl"
  by (simp add: upper_bound_def length_takeWhile_le)

lemma upper_bound_mono:
  assumes "sorted_keys keys tbl" and "length b = length keys" and "length c = length keys"
    and "tuple_le value_lt (flags keys) b c"
  shows "upper_bound keys tbl b \<le> upper_bound keys tbl c"
proof (rule ccontr)
  assume n: "\<not> upper_bound keys tbl b \<le> upper_bound keys tbl c"
  define i where "i = upper_bound keys tbl c"
  have i: "i < length tbl" "i < upper_bound keys tbl b" using n upper_bound_length [of keys tbl b] by (simp_all add: i_def)
  then have "tuple_le value_lt (flags keys) (tbl ! i) b" using upper_bound_iff [OF assms(1) i(1) assms(2)] by simp
  then have "tuple_le value_lt (flags keys) (tbl ! i) c" using assms(4) nullable.tuple_le_trans by blast
  then have "i < upper_bound keys tbl c" using upper_bound_iff [OF assms(1) i(1) assms(3)] by simp
  then show False by (simp add: i_def)
qed

lemma chunk_splits:
  assumes "sorted_keys keys tbl" and "list_all (candidate_ok keys) bounds"
    and "sorted_wrt (tuple_le value_lt (flags keys)) (map (\<lambda>b. fst (fst b)) bounds)"
  shows "find_sort_splits keys tbl bounds seq_num True = map (\<lambda>b. upper_bound keys tbl (fst (fst b))) bounds"
    and "sorted (0 # map (\<lambda>b. upper_bound keys tbl (fst (fst b))) bounds)"
proof -
  have so: "sorted (map (\<lambda>b. upper_bound keys tbl (fst (fst b))) bounds)"
    using assms(2,3)
    by (auto simp: sorted_wrt_map list_all_iff candidate_ok_def intro!: upper_bound_mono [OF assms(1)]
        elim!: sorted_wrt_mono_rel [rotated])
  then show "sorted (0 # map (\<lambda>b. upper_bound keys tbl (fst (fst b))) bounds)" by simp
  have "(\<lambda>((b, part_id :: nat), local_row :: nat). min (upper_bound keys tbl b) (length tbl)) = (\<lambda>b. upper_bound keys tbl (fst (fst b)))"
    using upper_bound_length [of keys tbl] by (auto simp: min_def fun_eq_iff le_antisym)
  then show "find_sort_splits keys tbl bounds seq_num True = map (\<lambda>b. upper_bound keys tbl (fst (fst b))) bounds"
    using so by (simp add: find_sort_splits_def Let_def sorted_sort_id del: map_eq_conv)
qed

text \<open>The ordering a chunk is split by: rows equal to a boundary go to the earlier partition.\<close>

definition strict_ordering :: "okey list \<Rightarrow> 'v candidate list \<Rightarrow> 'v key_ordering" where
  "strict_ordering keys bounds = \<lparr>or_keys = keys, or_bounds = map (\<lambda>b. fst (fst b)) bounds, or_strict = True\<rparr>"

definition bounds_sorted :: "okey list \<Rightarrow> 'a::linorder option candidate list \<Rightarrow> bool" where
  "bounds_sorted keys bounds \<longleftrightarrow> list_all (candidate_ok keys) bounds
     \<and> sorted_wrt (tuple_le value_lt (flags keys)) (map (\<lambda>b. fst (fst b)) bounds)"

definition chunk_pieces :: "okey list \<Rightarrow> 'a::linorder option candidate list \<Rightarrow> nat \<Rightarrow> 'a option tagged list \<Rightarrow> 'a option tagged list list" where
  "chunk_pieces keys bounds seq_num rows =
     split_at 0 (find_sort_splits keys (map (\<lambda>r. key_values keys (fst r)) rows) bounds seq_num True) rows"

lemma sorted_keys_rows:
  "sorted_wrt (row_le keys) (map fst rows) \<Longrightarrow> sorted_keys keys (map (\<lambda>r. key_values keys (fst r)) rows)"
  by (auto simp: sorted_keys_def list_all_iff sorted_wrt_map row_le_iff elim!: sorted_wrt_mono_rel [rotated])

lemma concat_pieces: "length ps \<le> n \<Longrightarrow> concat (map (piece ps) [0..<n]) = concat ps"
proof -
  assume "length ps \<le> n"
  then have "[0..<n] = [0..<length ps] @ [length ps..<n]" by (metis le_add_diff_inverse upt_add_eq_append zero_le)
  moreover have "map (piece ps) [0..<length ps] = ps" by (rule nth_equalityI) (simp_all add: piece_def)
  moreover have "concat (map (piece ps) [length ps..<n]) = []" by (simp add: piece_def)
  ultimately show ?thesis by simp
qed

lemma in_set_segment: "x \<in> set (take (h - l) (drop l rows)) \<Longrightarrow> \<exists>i. l \<le> i \<and> i < h \<and> i < length rows \<and> x = rows ! i"
proof -
  assume "x \<in> set (take (h - l) (drop l rows))"
  then obtain i where "i < h - l" "i < length rows - l" "x = rows ! (l + i)" by (auto simp: in_set_conv_nth)
  moreover from this have "l + i < h" "l + i < length rows" by linarith+
  ultimately show ?thesis by (intro exI [of _ "l + i"]) simp
qed

lemma piece_in_range:
  assumes "sorted_wrt (row_le keys) (map fst rows)" and b: "bounds_sorted keys bounds"
    and x: "x \<in> set (piece (chunk_pieces keys bounds seq_num rows) p)"
  shows "in_range (strict_ordering keys bounds) (fst x) p"
proof -
  let ?tbl = "map (\<lambda>r. key_values keys (fst r)) rows"
  let ?ub = "\<lambda>b. upper_bound keys ?tbl (fst (fst b))"
  have t: "sorted_keys keys ?tbl" using sorted_keys_rows [OF assms(1)] .
  note bo = b [unfolded bounds_sorted_def]
  note ss = chunk_splits [OF t bo [THEN conjunct1] bo [THEN conjunct2]]
  have p: "p \<le> length bounds" using x by (auto simp: piece_def chunk_pieces_def ss split: if_splits)
  have ln: "length (fst (fst (bounds ! i))) = length keys" if "i < length bounds" for i
    using bo that by (simp add: list_all_length candidate_ok_def)
  have "x \<in> set (split_at 0 (map ?ub bounds) rows ! p)" using x p by (simp add: piece_def chunk_pieces_def ss(1) split: if_splits)
  then obtain i where i: "i < length rows" "x = rows ! i" "(0 # map ?ub bounds) ! p \<le> i"
      "p < length bounds \<longrightarrow> i < ?ub (bounds ! p)"
    using p ss(2) in_set_segment [of x "if p < length bounds then ?ub (bounds ! p) else length rows" "(0 # map ?ub bounds) ! p" rows]
    by (auto simp: split_at_nth split: if_splits)
  have "tuple_lt value_lt (flags keys) (fst (fst (bounds ! (p - 1)))) (key_values keys (fst x))" if "0 < p"
  proof -
    have q: "p - 1 < length bounds" using p that by simp
    have "\<not> i < ?ub (bounds ! (p - 1))" using i(3) that p by (simp add: nth_Cons')
    then have "\<not> tuple_le value_lt (flags keys) (key_values keys (fst x)) (fst (fst (bounds ! (p - 1))))"
      using upper_bound_iff [OF t _ ln [OF q], of i] i by simp
    then show ?thesis
      using nullable.tuple_not_lt [of "fst (fst (bounds ! (p - 1)))" "flags keys" "key_values keys (fst x)"] ln [OF q] by auto
  qed
  moreover have "tuple_le value_lt (flags keys) (key_values keys (fst x)) (fst (fst (bounds ! p)))" if "p < length bounds"
    using upper_bound_iff [OF t _ ln [OF that], of i] i that by simp
  ultimately show ?thesis using p by (simp add: in_range_def strict_ordering_def)
qed

lemma concat_chunk_pieces:
  assumes "sorted_wrt (row_le keys) (map fst rows)" and b: "bounds_sorted keys bounds" and n: "length bounds < n"
  shows "concat (map (piece (chunk_pieces keys bounds seq_num rows)) [0..<n]) = rows"
proof -
  let ?tbl = "map (\<lambda>r. key_values keys (fst r)) rows"
  have t: "sorted_keys keys ?tbl" using sorted_keys_rows [OF assms(1)] .
  note bo = b [unfolded bounds_sorted_def]
  note ss = chunk_splits [OF t bo [THEN conjunct1] bo [THEN conjunct2]]
  have len: "length (chunk_pieces keys bounds seq_num rows) \<le> n" using n by (simp add: chunk_pieces_def ss(1))
  have "concat (chunk_pieces keys bounds seq_num rows) = rows"
    using concat_split_at [OF ss(2), of rows] upper_bound_length [of keys ?tbl] by (auto simp: chunk_pieces_def ss(1))
  then show ?thesis using concat_pieces [OF len] by simp
qed

section \<open>All that is inserted\<close>

definition inserting_ranks :: "bool \<Rightarrow> 'b list \<Rightarrow> nat list" where
  "inserting_ranks duplicated stores = filter (\<lambda>rank. \<not> (duplicated \<and> rank \<noteq> 0)) [0..<length stores]"

definition inserted_rows :: "bool \<Rightarrow> (nat \<times> 'a tagged list) list list \<Rightarrow> 'a tagged list" where
  "inserted_rows duplicated stores = concat (map (\<lambda>rank. concat (map snd (stores ! rank))) (inserting_ranks duplicated stores))"

lemma concat_map_filter: "concat (map (\<lambda>x. if P x then [] else f x) xs) = concat (map f (filter (\<lambda>x. \<not> P x) xs))"
  by (induction xs) auto

lemma inserted_pieces_eq:
  "inserted_pieces keys duplicated bounds stores p =
   concat (map (\<lambda>rank. concat (map (\<lambda>(seq_num, rows). piece (chunk_pieces keys (bounds rank) seq_num rows) p) (stores ! rank)))
     (inserting_ranks duplicated stores))"
  by (simp add: inserted_pieces_def concat_map_filter inserting_ranks_def chunk_pieces_def)

lemma mset_concat_swap: "mset (concat (map (\<lambda>x. concat (map (f x) ys)) xs)) = mset (concat (map (\<lambda>y. concat (map (\<lambda>x. f x y) xs)) ys))"
proof (induction xs)
  case (Cons x xs)
  have "mset (concat (map (\<lambda>y. f x y @ g y) ys)) = mset (concat (map (f x) ys)) + mset (concat (map g ys))" for g
    by (induction ys) simp_all
  then show ?case using Cons by simp
qed (induction ys, simp_all)

definition stores_sorted :: "okey list \<Rightarrow> (nat \<times> 'a::linorder option tagged list) list list \<Rightarrow> bool" where
  "stores_sorted keys stores \<longleftrightarrow> (\<forall>store \<in> set stores. \<forall>m \<in> set store. sorted_wrt (row_le keys) (map fst (snd m)))"

lemma mset_inserted_pieces:
  assumes s: "stores_sorted keys stores"
    and b: "\<And>rank. rank \<in> set (inserting_ranks duplicated stores) \<Longrightarrow> bounds_sorted keys (bounds rank) \<and> length (bounds rank) < n"
  shows "mset (concat (map (inserted_pieces keys duplicated bounds stores) [0..<n])) = mset (inserted_rows duplicated stores)"
proof -
  have store: "mset (concat (map (\<lambda>p. concat (map (\<lambda>(seq_num, rows). piece (chunk_pieces keys bs seq_num rows) p) store)) [0..<n]))
      = mset (concat (map snd store))"
    if "\<forall>m \<in> set store. sorted_wrt (row_le keys) (map fst (snd m))" "bounds_sorted keys bs" "length bs < n" for store bs
    using that(1) concat_chunk_pieces [OF _ that(2,3)]
    by (subst mset_concat_swap) (induction store, auto split: prod.splits)
  have rank: "mset (concat (map (\<lambda>p. concat (map (\<lambda>(seq_num, rows). piece (chunk_pieces keys (bounds rank) seq_num rows) p)
      (stores ! rank))) [0..<n])) = mset (concat (map snd (stores ! rank)))"
    if "rank \<in> set (inserting_ranks duplicated stores)" for rank
    using that b [OF that] s by (intro store) (auto simp: stores_sorted_def inserting_ranks_def)
  have all: "mset (concat (map (\<lambda>rank. concat (map (\<lambda>p. concat (map (\<lambda>(seq_num, rows). piece (chunk_pieces keys (bounds rank) seq_num rows) p)
      (stores ! rank))) [0..<n])) ranks)) = mset (concat (map (\<lambda>rank. concat (map snd (stores ! rank))) ranks))"
    if "set ranks \<subseteq> set (inserting_ranks duplicated stores)" for ranks
    using that by (induction ranks) (simp_all add: rank)
  show ?thesis
    unfolding inserted_pieces_eq [abs_def] inserted_rows_def by (subst mset_concat_swap) (rule all [OF subset_refl])
qed

lemma inserted_in_range:
  assumes s: "stores_sorted keys stores"
    and b: "\<And>rank. rank \<in> set (inserting_ranks duplicated stores) \<Longrightarrow> bounds rank = bs" and bs: "bounds_sorted keys bs"
    and x: "x \<in> set (inserted_pieces keys duplicated bounds stores p)"
  shows "in_range (strict_ordering keys bs) (fst x) p"
proof -
  obtain rank m where r: "rank \<in> set (inserting_ranks duplicated stores)" "m \<in> set (stores ! rank)"
      "x \<in> set (piece (chunk_pieces keys (bounds rank) (fst m) (snd m)) p)"
    using x by (auto simp: inserted_pieces_eq split: prod.splits)
  have "stores ! rank \<in> set stores" using r(1) by (auto simp: inserting_ranks_def)
  then have "sorted_wrt (row_le keys) (map fst (snd m))" using s r(2) by (auto simp: stores_sorted_def)
  from piece_in_range [OF this bs, of x "fst m" p] show ?thesis using r(3) b [OF r(1)] by simp
qed

section \<open>Buffering\<close>

text \<open>What \<open>sort_by_key\<close> of libcudf and the shuffler promise: an arrangement in order, a partition
  complete, every partition owned by one rank in contiguous blocks.\<close>

definition sorts :: "(okey list \<Rightarrow> 'a::linorder option vrow list \<Rightarrow> 'a option vrow list) \<Rightarrow> bool" where
  "sorts u \<longleftrightarrow> (\<forall>keys rows. mset (u keys rows) = mset rows \<and> sorted_wrt (row_le keys) (u keys rows))"

definition delivers :: "(nat \<Rightarrow> 'b list \<Rightarrow> 'b list) \<Rightarrow> bool" where
  "delivers arrange \<longleftrightarrow> (\<forall>p xs. mset (arrange p xs) = mset xs)"

definition owns :: "(nat \<Rightarrow> nat list) \<Rightarrow> nat \<Rightarrow> nat \<Rightarrow> bool" where
  "owns owned nranks n \<longleftrightarrow> concat (map owned [0..<nranks]) = [0..<n]"

lemma sorts_eqs: "sorts u \<Longrightarrow> mset (u keys rows) = mset rows" "sorts u \<Longrightarrow> sorted_wrt (row_le keys) (u keys rows)"
  "sorts u \<Longrightarrow> u keys [] = []"
  unfolding sorts_def by (blast, blast) (metis mset_zero_iff mset.simps(1))

lemma evaluate_sort_None:
  assumes "sorts u"
  shows "mset (evaluate_sort u keys st None rows) = mset rows"
    and "sorted_wrt (row_le keys) (evaluate_sort u keys st None rows)"
    and "length (evaluate_sort u keys st None rows) = length rows"
proof -
  show m: "mset (evaluate_sort u keys st None rows) = mset rows"
    using assms by (simp add: evaluate_sort_def slice_rows_def sorts_eqs)
  show "sorted_wrt (row_le keys) (evaluate_sort u keys st None rows)"
    using assms by (simp add: evaluate_sort_def slice_rows_def sorts_eqs row.sorted_stable_sort)
  show "length (evaluate_sort u keys st None rows) = length rows" using m by (metis size_mset)
qed

lemma candidates_ok: "list_all (candidate_ok keys) (select_local_split_candidates keys rows n k)"
  by (simp add: select_local_split_candidates_def list_all_iff candidate_ok_def Let_def)

lemma buffer_Cons:
  fixes off rank n :: nat
  defines "off' \<equiv> \<lambda>u keys st rows. if st then off + length (evaluate_sort u keys st None rows) else off"
  shows "fst (receive_and_buffer_chunks u keys st n rank off ((k, rows) # msgs)) =
      select_local_split_candidates keys (evaluate_sort u keys st None rows) n k
      # fst (receive_and_buffer_chunks u keys st n rank (off' u keys st rows) msgs)"
    and "snd (receive_and_buffer_chunks u keys st n rank off ((k, rows) # msgs)) =
      (k, zip (evaluate_sort u keys st None rows)
        (if st then map (\<lambda>i. (rank * 2 ^ 48 + off + i) mod 2 ^ 64) [0..<length (evaluate_sort u keys st None rows)]
         else replicate (length (evaluate_sort u keys st None rows)) 0))
      # snd (receive_and_buffer_chunks u keys st n rank (off' u keys st rows) msgs)"
  unfolding receive_and_buffer_chunks.simps Let_def off'_def by (simp_all only: split_beta fst_conv snd_conv if_cancel)

lemma buffered_candidates:
  "list_all (list_all (candidate_ok keys)) (fst (receive_and_buffer_chunks u keys st n rank off msgs))"
  "fst (receive_and_buffer_chunks u keys st n rank off msgs) = fst (receive_and_buffer_chunks u keys st n 0 0 msgs)"
proof -
  have e: "fst (receive_and_buffer_chunks u keys st n rank off msgs) =
      map (\<lambda>m. select_local_split_candidates keys (evaluate_sort u keys st None (snd m)) n (fst m)) msgs" for rank off
  proof (induction msgs arbitrary: off)
    case (Cons m msgs)
    then show ?case by (cases m) (simp only: buffer_Cons list.map fst_conv snd_conv)
  qed simp
  show "list_all (list_all (candidate_ok keys)) (fst (receive_and_buffer_chunks u keys st n rank off msgs))"
    unfolding e using candidates_ok [of keys, unfolded list_all_iff] by (auto simp: list_all_iff)
  show "fst (receive_and_buffer_chunks u keys st n rank off msgs) = fst (receive_and_buffer_chunks u keys st n 0 0 msgs)"
    unfolding e ..
qed

lemma buffered_rows:
  "map (\<lambda>m. map fst (snd m)) (snd (receive_and_buffer_chunks u keys st n rank off msgs)) =
   map (\<lambda>m. evaluate_sort u keys st None (snd m)) msgs"
proof (induction msgs arbitrary: off)
  case (Cons m msgs)
  then show ?case by (cases m) (simp only: buffer_Cons list.map fst_conv snd_conv, simp)
qed simp

lemma buffered_tags:
  "st \<Longrightarrow> sorts u \<Longrightarrow> map snd (concat (map snd (snd (receive_and_buffer_chunks u keys st n rank off msgs)))) =
   map (\<lambda>i. (rank * 2 ^ 48 + off + i) mod 2 ^ 64) [0..<length (concat (map snd msgs))]"
proof (induction msgs arbitrary: off)
  case (Cons m msgs)
  obtain k rows where m: "m = (k, rows)" by (cases m)
  let ?k = "length rows" and ?m = "length (concat (map snd msgs))"
  have len: "length (evaluate_sort u keys st None rows) = ?k" using evaluate_sort_None(3) [OF Cons.prems(2)] .
  have "map snd (concat (map snd (snd (receive_and_buffer_chunks u keys st n rank (off + ?k) msgs)))) =
      map (\<lambda>i. (rank * 2 ^ 48 + (off + ?k) + i) mod 2 ^ 64) [0..<?m]"
    using Cons by blast
  moreover have "map (\<lambda>i. (rank * 2 ^ 48 + off + i) mod 2 ^ 64) [0..<?k + ?m] =
      map (\<lambda>i. (rank * 2 ^ 48 + off + i) mod 2 ^ 64) [0..<?k] @
      map (\<lambda>i. (rank * 2 ^ 48 + (off + ?k) + i) mod 2 ^ 64) [0..<?m]"
    by (rule nth_equalityI) (auto simp: nth_append add.assoc)
  ultimately show ?case
    using Cons.prems(1) len unfolding m buffer_Cons by (simp add: map_snd_zip)
qed simp

text \<open>The chunks of the ranks that insert, sorted one by one.\<close>

definition sources :: "bool \<Rightarrow> 'b list list \<Rightarrow> 'b list" where
  "sources duplicated data = concat (if duplicated then take 1 data else data)"

definition buffer_all ::
  "(okey list \<Rightarrow> 'a::linorder option vrow list \<Rightarrow> 'a option vrow list) \<Rightarrow> okey list \<Rightarrow> bool \<Rightarrow> nat
   \<Rightarrow> 'a option message list list \<Rightarrow> ('a option candidate list list \<times> (nat \<times> 'a option tagged list) list) list" where
  "buffer_all u keys st n data =
     map (\<lambda>(k, msgs). receive_and_buffer_chunks u keys st n k 0 msgs) (zip [0..<length data] data)"

lemma length_buffer_all [simp]: "length (buffer_all u keys st n data) = length data"
  by (simp add: buffer_all_def)

lemma buffer_all_nth:
  "k < length data \<Longrightarrow> buffer_all u keys st n data ! k = receive_and_buffer_chunks u keys st n k 0 (data ! k)"
  by (simp add: buffer_all_def)

lemma buffered_sorted: "sorts u \<Longrightarrow> stores_sorted keys (map snd (buffer_all u keys st n data))"
proof -
  assume u: "sorts u"
  have "sorted_wrt (row_le keys) (map fst (snd m))"
    if k: "k < length data" and m: "m \<in> set (snd (receive_and_buffer_chunks u keys st n k 0 (data ! k)))" for k m
  proof -
    have "map fst (snd m) \<in> set (map (\<lambda>m. map fst (snd m)) (snd (receive_and_buffer_chunks u keys st n k 0 (data ! k))))"
      using m by auto
    then show ?thesis unfolding buffered_rows using evaluate_sort_None(2) [OF u] by auto
  qed
  moreover have "\<exists>k. k < length data \<and> store = snd (receive_and_buffer_chunks u keys st n k 0 (data ! k))"
    if store: "store \<in> set (map snd (buffer_all u keys st n data))" for store
  proof -
    obtain x where x: "x \<in> set (buffer_all u keys st n data)" "store = snd x" using store unfolding set_map image_iff by blast
    then obtain k where "k < length (buffer_all u keys st n data)" "buffer_all u keys st n data ! k = x"
      unfolding in_set_conv_nth by blast
    then show ?thesis using x using buffer_all_nth [of k data u keys st n] by auto
  qed
  ultimately show ?thesis unfolding stores_sorted_def by blast
qed

lemma inserting_ranks_eq:
  "inserting_ranks duplicated xs = (if duplicated then (if xs = [] then [] else [0]) else [0..<length xs])"
proof -
  have "filter (\<lambda>r. r = 0) [0..<n] = (if n = 0 then [] else [0 :: nat])" for n by (induction n) auto
  then show ?thesis by (auto simp: inserting_ranks_def)
qed

lemma map_nth_upt: "map (\<lambda>k. f (xs ! k)) [0..<length xs] = map f xs"
  by (rule nth_equalityI) simp_all

lemma inserted_rows_eq:
  "map fst (inserted_rows duplicated (map snd (buffer_all u keys st n data))) =
   concat (map (\<lambda>m. evaluate_sort u keys st None (snd m)) (sources duplicated data))"
proof -
  have r: "map fst (concat (map snd (snd (buffer_all u keys st n data ! k)))) =
      concat (map (\<lambda>m. evaluate_sort u keys st None (snd m)) (data ! k))" if "k < length data" for k
    using buffered_rows [of u keys st n k 0 "data ! k"] that by (simp add: buffer_all_nth map_concat comp_def)
  have all: "map fst (concat (map (\<lambda>k. concat (map snd (snd (buffer_all u keys st n data ! k)))) ks)) =
      concat (map (\<lambda>k. concat (map (\<lambda>m. evaluate_sort u keys st None (snd m)) (data ! k))) ks)"
    if "\<forall>k \<in> set ks. k < length data" for ks
    using that by (induction ks) (simp_all add: r)
  have "inserted_rows duplicated (map snd (buffer_all u keys st n data)) =
      concat (map (\<lambda>k. concat (map snd (snd (buffer_all u keys st n data ! k)))) (inserting_ranks duplicated data))"
    unfolding inserted_rows_def
  proof (rule arg_cong [where f = concat], rule map_cong)
    show "inserting_ranks duplicated (map snd (buffer_all u keys st n data)) = inserting_ranks duplicated data"
      by (simp add: inserting_ranks_eq flip: length_0_conv)
    show "concat (map snd (map snd (buffer_all u keys st n data) ! k)) = concat (map snd (snd (buffer_all u keys st n data ! k)))"
      if "k \<in> set (inserting_ranks duplicated data)" for k
      using that by (simp add: inserting_ranks_def)
  qed
  then have "map fst (inserted_rows duplicated (map snd (buffer_all u keys st n data))) =
      concat (map (\<lambda>k. concat (map (\<lambda>m. evaluate_sort u keys st None (snd m)) (data ! k))) (inserting_ranks duplicated data))"
    using all [of "inserting_ranks duplicated data"] by (auto simp: inserting_ranks_eq)
  also have "\<dots> = concat (map (\<lambda>msgs. concat (map (\<lambda>m. evaluate_sort u keys st None (snd m)) msgs))
      (if duplicated then take 1 data else data))"
  proof (cases duplicated)
    case True
    then show ?thesis by (cases data) (simp_all add: inserting_ranks_eq)
  next
    case False
    then show ?thesis
      using map_nth_upt [of "\<lambda>msgs. concat (map (\<lambda>m. evaluate_sort u keys st None (snd m)) msgs)" data]
      by (simp add: inserting_ranks_eq)
  qed
  also have "\<dots> = concat (map (\<lambda>m. evaluate_sort u keys st None (snd m)) (sources duplicated data))"
    by (simp add: sources_def map_concat concat_concat comp_def)
  finally show ?thesis .
qed

text \<open>The sequence numbers grow along the inserted rows, when a rank has fewer than \<open>2 ^ 48\<close> rows and
  there are at most \<open>2 ^ 16\<close> ranks.\<close>

definition ids_fit :: "'b list list \<Rightarrow> ('b \<Rightarrow> 'c list) \<Rightarrow> bool" where
  "ids_fit data rows \<longleftrightarrow> length data \<le> 2 ^ 16 \<and> (\<forall>msgs \<in> set data. length (concat (map rows msgs)) \<le> 2 ^ 48)"

lemma inserted_tags:
  assumes "sorts u" and "ids_fit data snd"
  shows "sorted_wrt (<) (map snd (inserted_rows duplicated (map snd (buffer_all u keys True n data))))"
proof -
  define rows where "rows k = map snd (concat (map snd (snd (buffer_all u keys True n data ! k))))" for k
  have r: "rows k = map (\<lambda>i. k * 2 ^ 48 + i) [0..<length (concat (map snd (data ! k)))]" if k: "k < length data" for k
  proof -
    have l: "length (concat (map snd (data ! k))) \<le> 2 ^ 48" using assms(2) k by (simp add: ids_fit_def)
    have "k * 2 ^ 48 + i < 2 ^ 64" if "i < 2 ^ 48" for i
      using k assms(2) that by (simp add: ids_fit_def)
    then have "map (\<lambda>i. (k * 2 ^ 48 + 0 + i) mod 2 ^ 64) [0..<length (concat (map snd (data ! k)))] =
        map (\<lambda>i. k * 2 ^ 48 + i) [0..<length (concat (map snd (data ! k)))]"
      using l by (intro map_cong) simp_all
    moreover have "rows k = map (\<lambda>i. (k * 2 ^ 48 + 0 + i) mod 2 ^ 64) [0..<length (concat (map snd (data ! k)))]"
      unfolding rows_def buffer_all_nth [OF k] by (rule buffered_tags [OF TrueI assms(1)])
    ultimately show ?thesis by simp
  qed
  have bounds: "x \<in> set (rows k) \<Longrightarrow> k * 2 ^ 48 \<le> x \<and> x < (k + 1) * 2 ^ 48" if k: "k < length data" for x k
  proof -
    have "length (concat (map snd (data ! k))) \<le> 2 ^ 48" using assms(2) k by (simp add: ids_fit_def)
    then show "x \<in> set (rows k) \<Longrightarrow> k * 2 ^ 48 \<le> x \<and> x < (k + 1) * 2 ^ 48" unfolding r [OF k] by auto
  qed
  have one: "sorted_wrt (<) (rows k)" if "k < length data" for k
    unfolding r [OF that] by (simp add: sorted_wrt_map strict_sorted_list_of_set [of "{_..<_}", simplified])
  have "sorted_wrt (<) (concat (map rows ks))" if "sorted_wrt (<) ks" "\<forall>k \<in> set ks. k < length data" for ks
    using that
  proof (induction ks)
    case (Cons k ks)
    have "x < y" if "x \<in> set (rows k)" "j \<in> set ks" "y \<in> set (rows j)" for x y j
    proof -
      have "k < j" using Cons.prems(1) that(2) by simp
      then have "k + 1 \<le> j" by simp
      then have "(k + 1) * 2 ^ 48 \<le> j * 2 ^ 48" by (rule mult_right_mono) simp
      then show ?thesis using bounds [of k x] bounds [of j y] Cons.prems(2) that by fastforce
    qed
    then show ?case using Cons one [of k] by (auto simp: sorted_wrt_append)
  qed simp
  moreover have "sorted_wrt (<) (inserting_ranks duplicated data)" by (auto simp: inserting_ranks_eq)
  moreover have "map snd (inserted_rows duplicated (map snd (buffer_all u keys True n data))) =
      concat (map rows (inserting_ranks duplicated data))"
  proof -
    have i: "inserting_ranks duplicated (map snd (buffer_all u keys True n data)) = inserting_ranks duplicated data"
      by (simp add: inserting_ranks_eq flip: length_0_conv)
    show ?thesis
      unfolding inserted_rows_def i rows_def map_concat map_map comp_def
      by (intro arg_cong [where f = concat] map_cong refl) (simp add: inserting_ranks_def)
  qed
  ultimately show ?thesis by (simp add: inserting_ranks_def)
qed

section \<open>The global sort\<close>

definition same_everywhere :: "bool \<Rightarrow> 'b list \<Rightarrow> bool" where
  "same_everywhere duplicated data \<longleftrightarrow> (duplicated \<longrightarrow> (\<forall>msgs \<in> set data. msgs = data ! 0))"

definition rank_bounds ::
  "(okey list \<Rightarrow> 'a::linorder option vrow list \<Rightarrow> 'a option vrow list) \<Rightarrow> okey list \<Rightarrow> bool \<Rightarrow> bool \<Rightarrow> nat
   \<Rightarrow> 'a option message list list \<Rightarrow> nat \<Rightarrow> 'a option candidate list" where
  "rank_bounds u keys st duplicated n data =
     compute_sort_boundaries keys n (length data > 1 \<and> \<not> duplicated) (map fst (buffer_all u keys st n data))"

lemma local_boundaries_nth:
  "k < length data \<Longrightarrow>
   map (\<lambda>cs. get_final_sort_boundaries keys (concat cs) n) (map fst (buffer_all u keys st n data)) ! k =
   get_final_sort_boundaries keys (concat (fst (receive_and_buffer_chunks u keys st n 0 0 (data ! k)))) n"
  using buffered_candidates(2) [of u keys st n k 0 "data ! k"] by (simp add: buffer_all_nth)

lemma rank_bounds_same:
  assumes "same_everywhere duplicated data" and "rank < length data"
  shows "rank_bounds u keys st duplicated n data rank = rank_bounds u keys st duplicated n data 0"
proof -
  have "data ! rank = data ! 0" if "\<not> (length data > 1 \<and> \<not> duplicated)"
  proof (cases duplicated)
    case True
    then show ?thesis using assms by (simp add: same_everywhere_def)
  next
    case False
    then have "rank = 0" using that assms(2) by simp
    then show ?thesis by simp
  qed
  moreover have "0 < length data" using assms(2) by linarith
  ultimately show ?thesis
    using assms(2) unfolding rank_bounds_def compute_sort_boundaries_def Let_def
    by (cases "length data > 1 \<and> \<not> duplicated") (simp_all only: local_boundaries_nth if_True if_False simp_thms)
qed

lemma rank_bounds_ok:
  assumes "0 < n" and "rank < length data"
  shows "bounds_sorted keys (rank_bounds u keys st duplicated n data rank)"
    and "length (rank_bounds u keys st duplicated n data rank) < n"
proof -
  have cand: "list_all (candidate_ok keys) (concat (fst (receive_and_buffer_chunks u keys st n 0 0 msgs)))" for msgs
    using buffered_candidates(1) [of keys u st n 0 0 msgs] by (auto simp: list_all_iff)
  have fb: "bounds_sorted keys (get_final_sort_boundaries keys cs n) \<and> length (get_final_sort_boundaries keys cs n) < n"
    if "list_all (candidate_ok keys) cs" for cs :: "'a option candidate list"
    using final_boundaries [OF that, of n] assms(1) by (simp add: bounds_sorted_def)
  define locals where "locals = map (\<lambda>cs. get_final_sort_boundaries keys (concat cs) n) (map fst (buffer_all u keys st n data))"
  have nth: "locals ! k = get_final_sort_boundaries keys (concat (fst (receive_and_buffer_chunks u keys st n 0 0 (data ! k)))) n"
    if "k < length data" for k
    unfolding locals_def by (rule local_boundaries_nth [OF that])
  have "list_all (candidate_ok keys) (concat locals)"
  proof -
    have "list_all (candidate_ok keys) (locals ! k)" if "k < length data" for k
      unfolding nth [OF that] by (rule final_boundaries(2) [OF cand])
    moreover have "length locals = length data" by (simp add: locals_def)
    ultimately have "list_all (candidate_ok keys) l" if "l \<in> set locals" for l
      using that unfolding in_set_conv_nth by auto
    then show ?thesis by (auto simp: list_all_iff)
  qed
  from fb [OF this] fb [OF cand, of "data ! rank"] nth [OF assms(2)]
  have "bounds_sorted keys (rank_bounds u keys st duplicated n data rank) \<and> length (rank_bounds u keys st duplicated n data rank) < n"
    unfolding rank_bounds_def compute_sort_boundaries_def Let_def locals_def [symmetric] by simp
  then show "bounds_sorted keys (rank_bounds u keys st duplicated n data rank)"
    and "length (rank_bounds u keys st duplicated n data rank) < n" by blast+
qed

definition rank_pieces ::
  "(okey list \<Rightarrow> 'a::linorder option vrow list \<Rightarrow> 'a option vrow list) \<Rightarrow> okey list \<Rightarrow> bool \<Rightarrow> bool \<Rightarrow> nat
   \<Rightarrow> 'a option message list list \<Rightarrow> nat \<Rightarrow> 'a option tagged list" where
  "rank_pieces u keys st duplicated n data =
     inserted_pieces keys duplicated (rank_bounds u keys st duplicated n data) (map snd (buffer_all u keys st n data))"

definition part_rows ::
  "(okey list \<Rightarrow> 'a::linorder option vrow list \<Rightarrow> 'a option vrow list)
   \<Rightarrow> (nat \<Rightarrow> 'a option tagged list \<Rightarrow> 'a option tagged list) \<Rightarrow> okey list \<Rightarrow> bool \<Rightarrow> (nat \<Rightarrow> 'a option tagged list)
   \<Rightarrow> nat \<Rightarrow> 'a option vrow list" where
  "part_rows u arrange keys st pieces p =
     (if st then map fst (stable_sort (with_tag (row_le keys)) (arrange p (pieces p)))
      else u keys (map fst (arrange p (pieces p))))"

lemma part_rows_mset:
  "sorts u \<Longrightarrow> delivers arrange \<Longrightarrow> mset (part_rows u arrange keys st pieces p) = mset (map fst (pieces p))"
  by (simp add: part_rows_def sorts_eqs delivers_def)

lemma part_rows_sorted: "sorts u \<Longrightarrow> sorted_wrt (row_le keys) (part_rows u arrange keys st pieces p)"
  using row.tagged.sorted_stable_sort [of keys "arrange p (pieces p)"]
  by (auto simp: part_rows_def sorts_eqs sorted_wrt_map with_tag_def elim!: sorted_wrt_mono_rel [rotated])

lemma part_rows_Nil: "sorts u \<Longrightarrow> delivers arrange \<Longrightarrow> part_rows u arrange keys st pieces p = [] \<longleftrightarrow> pieces p = []"
  using part_rows_mset [of u arrange keys st pieces p] by (metis map_is_Nil_conv mset_zero_iff)

lemma extract_partitions_eq:
  assumes "sorts u" and "delivers arrange"
  shows "extract_partitions u arrange keys st pieces ps = map (part_rows u arrange keys st pieces) (filter (\<lambda>p. pieces p \<noteq> []) ps)"
proof -
  have "arrange p (pieces p) = [] \<longleftrightarrow> pieces p = []" for p
    using assms(2) by (metis delivers_def mset_zero_iff)
  then show ?thesis by (induction ps) (simp_all add: extract_partitions_def part_rows_def Let_def)
qed

lemma sorted_wrt_concat_map:
  assumes "sorted_wrt (<) ps" and "\<And>p. p \<in> set ps \<Longrightarrow> sorted_wrt R (f p)"
    and "\<And>p q x y. p \<in> set ps \<Longrightarrow> q \<in> set ps \<Longrightarrow> p < q \<Longrightarrow> x \<in> set (f p) \<Longrightarrow> y \<in> set (f q) \<Longrightarrow> R x y"
  shows "sorted_wrt R (concat (map f ps))"
  using assms
proof (induction ps)
  case (Cons p ps)
  have "sorted_wrt R (concat (map f ps))"
  proof (rule Cons.IH)
    fix q q' x y
    assume "q \<in> set ps" "q' \<in> set ps" "q < q'" "x \<in> set (f q)" "y \<in> set (f q')"
    then show "R x y" using Cons.prems(3) [of q q' x y] by simp
  qed (use Cons.prems(1,2) in simp_all)
  moreover have "R x y" if "x \<in> set (f p)" "q \<in> set ps" "y \<in> set (f q)" for x y q
    using Cons.prems(1) Cons.prems(3) [of p q x y] that by simp
  ultimately show ?case using Cons.prems(2) [of p] by (auto simp: sorted_wrt_append)
qed simp

lemma in_range_apart:
  assumes b: "bounds_sorted keys bs" and r: "in_range (strict_ordering keys bs) r p" and s: "in_range (strict_ordering keys bs) s q"
    and "p < q"
  shows "tuple_lt value_lt (flags keys) (key_values keys r) (key_values keys s)"
proof -
  let ?b = "map (\<lambda>b. fst (fst b)) bs"
  have q: "q \<le> length bs" "tuple_lt value_lt (flags keys) (?b ! (q - 1)) (key_values keys s)"
    using s assms(4) by (auto simp: in_range_def strict_ordering_def)
  have p: "tuple_le value_lt (flags keys) (key_values keys r) (?b ! p)"
    using r assms(4) q(1) by (simp add: in_range_def strict_ordering_def)
  have "tuple_le value_lt (flags keys) (?b ! p) (?b ! (q - 1))"
  proof (cases "p = q - 1")
    case False
    then show ?thesis using b assms(4) q(1) by (simp add: bounds_sorted_def sorted_wrt_iff_nth_less)
  qed simp
  from nullable.tuple_le_trans [OF p this] q(2) show ?thesis by (rule nullable.tuple_le_lt_trans)
qed

definition global_output ::
  "(okey list \<Rightarrow> 'a::linorder option vrow list \<Rightarrow> 'a option vrow list)
   \<Rightarrow> (nat \<Rightarrow> 'a option tagged list \<Rightarrow> 'a option tagged list) \<Rightarrow> (nat \<Rightarrow> nat list) \<Rightarrow> okey list \<Rightarrow> bool \<Rightarrow> bool \<Rightarrow> nat
   \<Rightarrow> 'a option message list list \<Rightarrow> 'a option vrow list list list" where
  "global_output u arrange owned keys st duplicated n data =
     map (\<lambda>rank. extract_partitions u arrange keys st (rank_pieces u keys st duplicated n data) (owned rank)) [0..<length data]"

lemma length_global_output [simp]: "length (global_output u arrange owned keys st duplicated n data) = length data"
  by (simp add: global_output_def)

text \<open>What a run of the global sort rests on.\<close>

definition sort_setting ::
  "(okey list \<Rightarrow> 'a::linorder option vrow list \<Rightarrow> 'a option vrow list)
   \<Rightarrow> (nat \<Rightarrow> 'a option tagged list \<Rightarrow> 'a option tagged list) \<Rightarrow> (nat \<Rightarrow> nat list) \<Rightarrow> bool \<Rightarrow> nat
   \<Rightarrow> 'a option message list list \<Rightarrow> bool" where
  "sort_setting u arrange owned duplicated n data \<longleftrightarrow>
     sorts u \<and> delivers arrange \<and> owns owned (length data) n \<and> same_everywhere duplicated data \<and> 0 < n \<and> data \<noteq> []"

lemma pieces_in_range:
  assumes "sort_setting u arrange owned duplicated n data"
    and "x \<in> set (rank_pieces u keys st duplicated n data p)"
  shows "in_range (strict_ordering keys (rank_bounds u keys st duplicated n data 0)) (fst x) p"
proof (rule inserted_in_range)
  show "stores_sorted keys (map snd (buffer_all u keys st n data))"
    using assms(1) by (intro buffered_sorted) (simp add: sort_setting_def)
  show "rank_bounds u keys st duplicated n data rank = rank_bounds u keys st duplicated n data 0"
    if "rank \<in> set (inserting_ranks duplicated (map snd (buffer_all u keys st n data)))" for rank
    using that assms(1) by (intro rank_bounds_same) (auto simp: sort_setting_def inserting_ranks_def)
  show "bounds_sorted keys (rank_bounds u keys st duplicated n data 0)"
    using assms(1) by (intro rank_bounds_ok) (auto simp: sort_setting_def)
  show "x \<in> set (inserted_pieces keys duplicated (rank_bounds u keys st duplicated n data) (map snd (buffer_all u keys st n data)) p)"
    using assms(2) by (simp add: rank_pieces_def)
qed

lemma part_rows_in_range:
  assumes s: "sort_setting u arrange owned duplicated n data"
    and "r \<in> set (part_rows u arrange keys st (rank_pieces u keys st duplicated n data) p)"
  shows "in_range (strict_ordering keys (rank_bounds u keys st duplicated n data 0)) r p"
proof -
  have "set (part_rows u arrange keys st (rank_pieces u keys st duplicated n data) p) =
      set (map fst (rank_pieces u keys st duplicated n data p))"
    using part_rows_mset [of u arrange keys st "rank_pieces u keys st duplicated n data" p] s
    by (intro mset_eq_setD) (simp add: sort_setting_def)
  then show ?thesis using assms(2) pieces_in_range [OF s] by auto
qed

lemma global_output_rows:
  assumes s: "sort_setting u arrange owned duplicated n data"
  shows "concat (concat (global_output u arrange owned keys st duplicated n data)) =
    concat (map (part_rows u arrange keys st (rank_pieces u keys st duplicated n data)) [0..<n])"
proof -
  let ?ps = "rank_pieces u keys st duplicated n data"
  have e: "concat (extract_partitions u arrange keys st ?ps ps) = concat (map (part_rows u arrange keys st ?ps) ps)" for ps
  proof -
    have "concat (map (part_rows u arrange keys st ?ps) (filter (\<lambda>p. ?ps p \<noteq> []) ps)) = concat (map (part_rows u arrange keys st ?ps) ps)"
      using part_rows_Nil [of u arrange keys st ?ps] s by (induction ps) (auto simp: sort_setting_def)
    then show ?thesis using extract_partitions_eq [of u arrange keys st ?ps ps] s by (simp add: sort_setting_def)
  qed
  have "concat (concat (global_output u arrange owned keys st duplicated n data)) =
      concat (map (part_rows u arrange keys st ?ps) (concat (map owned [0..<length data])))"
    unfolding concat_concat global_output_def by (simp add: comp_def e) (simp add: map_concat concat_concat comp_def)
  then show ?thesis using s by (simp add: sort_setting_def owns_def)
qed

lemma mset_rank_pieces:
  assumes s: "sort_setting u arrange owned duplicated n data"
  shows "mset (concat (map (rank_pieces u keys st duplicated n data) [0..<n])) =
    mset (inserted_rows duplicated (map snd (buffer_all u keys st n data)))"
  unfolding rank_pieces_def
proof (rule mset_inserted_pieces)
  show "stores_sorted keys (map snd (buffer_all u keys st n data))"
    using s by (intro buffered_sorted) (simp add: sort_setting_def)
  fix rank
  assume "rank \<in> set (inserting_ranks duplicated (map snd (buffer_all u keys st n data)))"
  then have "rank < length data" by (auto simp: inserting_ranks_def)
  then show "bounds_sorted keys (rank_bounds u keys st duplicated n data rank) \<and>
      length (rank_bounds u keys st duplicated n data rank) < n"
    using s by (intro conjI rank_bounds_ok) (simp_all add: sort_setting_def)
qed

lemma mset_map_concat: "(\<And>x. mset (f x) = mset (g x)) \<Longrightarrow> mset (concat (map f xs)) = mset (concat (map g xs))"
  by (induction xs) simp_all

lemma global_sort_sorted:
  assumes s: "sort_setting u arrange owned duplicated n data"
  shows "sorted_wrt (row_le keys) (concat (concat (global_output u arrange owned keys st duplicated n data)))"
    and "mset (concat (concat (global_output u arrange owned keys st duplicated n data))) = mset (concat (map snd (sources duplicated data)))"
proof -
  let ?ps = "rank_pieces u keys st duplicated n data"
  have u: "sorts u" "delivers arrange" using s by (simp_all add: sort_setting_def)
  have b: "bounds_sorted keys (rank_bounds u keys st duplicated n data 0)"
    using s by (intro rank_bounds_ok) (auto simp: sort_setting_def)
  show "sorted_wrt (row_le keys) (concat (concat (global_output u arrange owned keys st duplicated n data)))"
    unfolding global_output_rows [OF s]
  proof (rule sorted_wrt_concat_map)
    fix p q x y
    assume "p < q" "x \<in> set (part_rows u arrange keys st ?ps p)" "y \<in> set (part_rows u arrange keys st ?ps q)"
    then show "row_le keys x y"
      using in_range_apart [OF b part_rows_in_range [OF s] part_rows_in_range [OF s]]
      by (simp add: row_le_iff tuple_le_def)
  qed (simp_all add: part_rows_sorted [OF u(1)])
  have "mset (concat (map (part_rows u arrange keys st ?ps) [0..<n])) = mset (concat (map (\<lambda>p. map fst (?ps p)) [0..<n]))"
    by (rule mset_map_concat) (rule part_rows_mset [OF u])
  also have "\<dots> = image_mset fst (mset (concat (map ?ps [0..<n])))"
    unfolding mset_map [symmetric] map_concat map_map comp_def ..
  also have "\<dots> = mset (map fst (inserted_rows duplicated (map snd (buffer_all u keys st n data))))"
    unfolding mset_rank_pieces [OF s] by simp
  also have "\<dots> = mset (concat (map (\<lambda>m. evaluate_sort u keys st None (snd m)) (sources duplicated data)))"
    unfolding inserted_rows_eq ..
  also have "\<dots> = mset (concat (map snd (sources duplicated data)))"
    by (rule mset_map_concat) (rule evaluate_sort_None(1) [OF u(1)])
  finally show "mset (concat (concat (global_output u arrange owned keys st duplicated n data))) =
      mset (concat (map snd (sources duplicated data)))"
    unfolding global_output_rows [OF s] .
qed

text \<open>In a stable sort the sequence numbers put equal rows back into their order.\<close>

lemma global_sort_stable:
  assumes s: "sort_setting u arrange owned duplicated n data" and ids: "ids_fit data snd"
  shows "concat (concat (global_output u arrange owned keys True duplicated n data)) =
    stable_sort (row_le keys) (concat (map snd (sources duplicated data)))"
proof -
  let ?ps = "rank_pieces u keys True duplicated n data"
  let ?all = "inserted_rows duplicated (map snd (buffer_all u keys True n data))"
  let ?sorted = "\<lambda>p. stable_sort (with_tag (row_le keys)) (arrange p (?ps p))"
  have u: "sorts u" "delivers arrange" using s by (simp_all add: sort_setting_def)
  have b: "bounds_sorted keys (rank_bounds u keys True duplicated n data 0)"
    using s by (intro rank_bounds_ok) (auto simp: sort_setting_def)
  have set_eq: "set (?sorted p) = set (?ps p)" for p
    using u(2) by (intro mset_eq_setD) (simp add: delivers_def)
  have so: "sorted_wrt (with_tag (row_le keys)) (concat (map ?sorted [0..<n]))"
  proof (rule sorted_wrt_concat_map)
    fix p q x y
    assume pq: "p < q" "x \<in> set (?sorted p)" "y \<in> set (?sorted q)"
    have "tuple_lt value_lt (flags keys) (key_values keys (fst x)) (key_values keys (fst y))"
      using in_range_apart [OF b pieces_in_range [OF s] pieces_in_range [OF s]] pq set_eq by blast
    then show "with_tag (row_le keys) x y"
      by (simp add: with_tag_def row_lt_iff) (simp add: row_le_iff tuple_le_def)
  qed (simp_all add: row.tagged.sorted_stable_sort)
  have tags: "sorted_wrt (<) (map snd ?all)" by (rule inserted_tags [OF u(1) ids])
  have "mset (concat (map ?sorted [0..<n])) = mset (concat (map ?ps [0..<n]))"
    by (rule mset_map_concat) (use u(2) in \<open>simp add: delivers_def\<close>)
  also have "\<dots> = mset ?all" by (rule mset_rank_pieces [OF s])
  finally have "concat (map ?sorted [0..<n]) = stable_sort (with_tag (row_le keys)) ?all"
    using row.sorted_tagged_unique [OF so] tags by (simp add: strict_sorted_iff)
  moreover have "sorted_wrt (\<lambda>x y. snd x \<le> snd y) ?all"
    using tags by (auto simp: sorted_wrt_map elim!: sorted_wrt_mono_rel [rotated])
  then have "map fst (stable_sort (with_tag (row_le keys)) ?all) = stable_sort (row_le keys) (map fst ?all)"
    by (rule row.stable_sort_tagged)
  ultimately have "map fst (concat (map ?sorted [0..<n])) = stable_sort (row_le keys) (map fst ?all)" by (simp only:)
  also have "map fst ?all = concat (map (stable_sort (row_le keys)) (map snd (sources duplicated data)))"
    by (simp add: inserted_rows_eq evaluate_sort_def slice_rows_def comp_def)
  finally have "map fst (concat (map ?sorted [0..<n])) = stable_sort (row_le keys) (concat (map snd (sources duplicated data)))"
    by (simp only: row.stable_sort_chunks)
  then show ?thesis
    unfolding global_output_rows [OF s] by (simp add: part_rows_def [abs_def] map_concat comp_def)
qed

section \<open>The metadata of the global sort\<close>

text \<open>Parts that follow an ordering: later parts hold later partitions.\<close>

definition parts_in_order :: "'a::linorder option key_ordering \<Rightarrow> 'a option vrow list list \<Rightarrow> bool" where
  "parts_in_order kord parts \<longleftrightarrow>
     (\<exists>place. mono place \<and> (\<forall>i < length parts. \<forall>r \<in> set (parts ! i). \<exists>p. in_range kord r p \<and> place p = i))"

definition sort_ordering :: "okey list \<Rightarrow> 'v candidate list \<Rightarrow> 'v key_ordering" where
  "sort_ordering keys bounds = \<lparr>or_keys = keys, or_bounds = map (\<lambda>b. fst (fst b)) bounds,
     or_strict = (bounds = [] \<or> length (remdups_adj (map (\<lambda>b. fst (fst b)) bounds)) = length bounds)\<rparr>"

lemma build_order_scheme_eq: "build_order_scheme keys bounds = OrderScheme [sort_ordering keys bounds]"
  by (simp add: build_order_scheme_def sort_ordering_def Let_def)

lemma in_range_sort_ordering: "in_range (strict_ordering keys bounds) r p \<Longrightarrow> in_range (sort_ordering keys bounds) r p"
  by (auto simp: in_range_def strict_ordering_def sort_ordering_def tuple_le_def)

lemma in_range_le: "in_range (strict_ordering keys bounds) r p \<Longrightarrow> p \<le> length bounds"
  by (simp add: in_range_def strict_ordering_def)

lemma sort_ordering_ok: "bounds_sorted keys bounds \<Longrightarrow> bounds_ok (sort_ordering keys bounds)"
  by (auto simp: bounds_ok_def sort_ordering_def bounds_sorted_def list_all_iff candidate_ok_def)

text \<open>The chunks are the partitions that are not empty, in their order.\<close>

lemma rank_of_sorted:
  "sorted_wrt (<) qs \<Longrightarrow> i < length qs \<Longrightarrow> length (filter (\<lambda>q. q < qs ! i) qs) = i" for qs :: "nat list"
proof (induction qs arbitrary: i)
  case (Cons q qs)
  show ?case
  proof (cases i)
    case 0
    have "filter (\<lambda>q'. q' < q) qs = []" using Cons.prems(1) by (auto simp: filter_empty_conv)
    then show ?thesis using 0 by simp
  next
    case (Suc j)
    then have "q < qs ! j" using Cons.prems by simp
    then show ?thesis using Cons.IH [of j] Cons.prems Suc by simp
  qed
qed simp

lemma global_output_chunks:
  assumes s: "sort_setting u arrange owned duplicated n data"
  shows "concat (global_output u arrange owned keys st duplicated n data) =
    map (part_rows u arrange keys st (rank_pieces u keys st duplicated n data))
      (filter (\<lambda>p. rank_pieces u keys st duplicated n data p \<noteq> []) [0..<n])"
proof -
  let ?ps = "rank_pieces u keys st duplicated n data"
  have "concat (global_output u arrange owned keys st duplicated n data) =
      map (part_rows u arrange keys st ?ps) (filter (\<lambda>p. ?ps p \<noteq> []) (concat (map owned [0..<length data])))"
    using s by (simp add: global_output_def extract_partitions_eq sort_setting_def filter_concat map_concat comp_def)
  then show ?thesis using s by (simp add: sort_setting_def owns_def)
qed

lemma global_chunks_in_order:
  assumes s: "sort_setting u arrange owned duplicated n data"
  shows "parts_in_order (sort_ordering keys (rank_bounds u keys st duplicated n data 0))
    (concat (global_output u arrange owned keys st duplicated n data))"
proof -
  let ?ps = "rank_pieces u keys st duplicated n data"
  define qs where "qs = filter (\<lambda>p. ?ps p \<noteq> []) [0..<n]"
  have qs: "sorted_wrt (<) qs" by (simp add: qs_def sorted_wrt_filter)
  define place where "place p = length (filter (\<lambda>q. q < p) qs)" for p
  have "mono place"
  proof (rule monoI)
    fix p p' :: nat
    assume "p \<le> p'"
    then have "length (filter (\<lambda>q. q < p) qs) \<le> length (filter (\<lambda>q. q < p') qs)"
      by (induction qs) auto
    then show "place p \<le> place p'" by (simp add: place_def)
  qed
  moreover have "in_range (sort_ordering keys (rank_bounds u keys st duplicated n data 0)) r (qs ! i) \<and> place (qs ! i) = i"
    if "i < length qs" "r \<in> set (part_rows u arrange keys st ?ps (qs ! i))" for i r
    using part_rows_in_range [OF s that(2)] rank_of_sorted [OF qs that(1)]
    by (simp add: place_def in_range_sort_ordering)
  ultimately show ?thesis
    unfolding global_output_chunks [OF s] parts_in_order_def qs_def [symmetric] by auto
qed

lemma parts_in_order_holds: "bounds_ok kord \<Longrightarrow> parts_in_order kord parts \<Longrightarrow> scheme_holds hash (OrderScheme [kord]) parts"
  by (auto simp: parts_in_order_def)

lemma global_ranks_hold:
  assumes s: "sort_setting u arrange owned duplicated n data"
  shows "scheme_holds hash (OrderScheme [sort_ordering keys (rank_bounds u keys st duplicated n data 0)])
    (map concat (global_output u arrange owned keys st duplicated n data))"
proof -
  let ?ps = "rank_pieces u keys st duplicated n data"
  have d: "distinct (concat (map owned [0..<length data]))" using s by (simp add: sort_setting_def owns_def)
  have uniq: "i = j" if "p \<in> set (owned i)" "p \<in> set (owned j)" "i < length data" "j < length data" for p i j
  proof (rule ccontr)
    assume "i \<noteq> j"
    have dj: "set (owned a) \<inter> set (owned b) = {}" if "distinct (concat (map owned ks))" "distinct ks" "a \<in> set ks" "b \<in> set ks" "a \<noteq> b" for ks a b
      using that by (induction ks) auto
    show False using dj [OF d _ _ _ \<open>i \<noteq> j\<close>] that by auto
  qed
  define place where "place p = (SOME i. i < length data \<and> p \<in> set (owned i))" for p
  have pl: "place p = i" if "i < length data" "p \<in> set (owned i)" for p i
    unfolding place_def by (rule some_equality) (use that uniq in auto)
  have "\<exists>p. in_range (sort_ordering keys (rank_bounds u keys st duplicated n data 0)) r p \<and> place p = i"
    if i: "i < length data" and r: "r \<in> set (concat (global_output u arrange owned keys st duplicated n data ! i))" for i r
  proof -
    have "r \<in> set (concat (map (part_rows u arrange keys st ?ps) (filter (\<lambda>p. ?ps p \<noteq> []) (owned i))))"
      using r i s by (simp add: global_output_def extract_partitions_eq sort_setting_def)
    then obtain p where "p \<in> set (owned i)" "r \<in> set (part_rows u arrange keys st ?ps p)" by auto
    then show ?thesis using part_rows_in_range [OF s] in_range_sort_ordering pl [OF i] by blast
  qed
  then have "\<forall>i < length (map concat (global_output u arrange owned keys st duplicated n data)).
      \<forall>r \<in> set (map concat (global_output u arrange owned keys st duplicated n data) ! i).
        \<exists>p. in_range (sort_ordering keys (rank_bounds u keys st duplicated n data 0)) r p \<and> place p = i"
    by (simp add: length_global_output)
  moreover have "bounds_ok (sort_ordering keys (rank_bounds u keys st duplicated n data 0))"
    using s by (intro sort_ordering_ok rank_bounds_ok) (auto simp: sort_setting_def)
  ultimately show ?thesis unfolding scheme_holds.simps by auto
qed

lemma global_metadata_holds:
  assumes s: "sort_setting u arrange owned duplicated n data"
  shows "partitioning_holds hash
    \<lparr>pt_inter = build_order_scheme keys (rank_bounds u keys st duplicated n data 0), pt_local = Inherit,
     pt_rows = [\<lparr>ro_keys = keys, ro_scope = GlobalScope, ro_groups = []\<rparr>]\<rparr>
    (global_output u arrange owned keys st duplicated n data)"
proof -
  have "bounds_ok (sort_ordering keys (rank_bounds u keys st duplicated n data 0))"
    using s by (intro sort_ordering_ok rank_bounds_ok) (auto simp: sort_setting_def)
  from parts_in_order_holds [OF this global_chunks_in_order [OF s]] global_ranks_hold [OF s] global_sort_sorted(1) [OF s]
  show ?thesis
    by (simp only: partitioning_holds_def partitioning.simps build_order_scheme_eq) (simp add: row_ordering_holds_def rows_ordered_iff)
qed

end
