(* ===== verification/TopK.thy ===== *)
theory TopK
  imports StableSort
begin

text \<open>
  The first and the last k rows of a sort can be selected chunk by chunk: what the distributed top-k
  and bottom-k rest on.
\<close>

definition last_rows :: "nat \<Rightarrow> 'r list \<Rightarrow> 'r list" where
  "last_rows k xs = drop (length xs - k) xs"

lemma last_rows_rev: "last_rows k xs = rev (take k (rev xs))"
  by (simp add: last_rows_def take_rev)

lemma take_filter_all: "\<forall>x \<in> set (take k xs). P x \<Longrightarrow> take k (filter P xs) = take k xs"
proof (induction xs arbitrary: k)
  case (Cons x xs)
  then show ?case by (cases k) auto
qed simp

context total_preorder
begin

text \<open>An element with k others before it is not among the first k.\<close>

lemma not_in_take:
  assumes "sorted_wrt le xs" and "distinct xs" and "t \<in> set (take k xs)"
    and "finite W" "W \<subseteq> set xs" "k \<le> card W" and "\<And>w. w \<in> W \<Longrightarrow> \<not> le t w"
  shows False
proof -
  obtain i where i: "i < k" "i < length xs" "xs ! i = t" using assms(3) by (auto simp: in_set_conv_nth)
  have "W \<subseteq> set (take i xs)"
  proof
    fix w
    assume w: "w \<in> W"
    then obtain j where j: "j < length xs" "xs ! j = w" using assms(5) by (auto simp: in_set_conv_nth subset_iff)
    have "\<not> i \<le> j"
    proof
      assume "i \<le> j"
      then have "le t w" using assms(1) i j le_refl [of t] by (cases "i = j") (auto simp: sorted_wrt_iff_nth_less)
      then show False using assms(7) [OF w] by simp
    qed
    then show "w \<in> set (take i xs)" using j i by (auto simp: in_set_conv_nth intro!: exI [of _ j])
  qed
  then have "card W \<le> card (set (take i xs))" by (simp add: card_mono)
  also have "\<dots> \<le> length (take i xs)" by (rule card_length)
  also have "\<dots> \<le> i" by simp
  finally show False using assms(6) i(1) by simp
qed

end

context row_order
begin

lemma take_sort_without:
  assumes d: "distinct (map snd (as @ ts @ bs))" and "length ws = k" and "set ws \<subseteq> set (as @ bs)" "distinct ws"
    and less: "\<And>w t. w \<in> set ws \<Longrightarrow> t \<in> set ts \<Longrightarrow> \<not> with_tag le t w"
  shows "take k (stable_sort (with_tag le) (as @ ts @ bs)) = take k (stable_sort (with_tag le) (as @ bs))"
proof -
  let ?S = "stable_sort (with_tag le)"
  have dl: "distinct (as @ ts @ bs)" using d by (rule distinct_map [THEN iffD1, THEN conjunct1])
  have f: "filter (\<lambda>t. t \<notin> set ts) (as @ ts @ bs) = as @ bs"
  proof -
    have "filter (\<lambda>t. t \<notin> set ts) as = as" "filter (\<lambda>t. t \<notin> set ts) bs = bs"
      using dl by (auto simp: filter_id_conv)
    then show ?thesis by (simp add: filter_empty_conv)
  qed
  have "t \<notin> set ts" if t: "t \<in> set (take k (?S (as @ ts @ bs)))" for t
  proof
    assume ts: "t \<in> set ts"
    have "distinct (?S (as @ ts @ bs))" using dl by (metis mset_eq_imp_distinct_iff mset_stable_sort)
    moreover have "set ws \<subseteq> set (?S (as @ ts @ bs))" using assms(3) by auto
    moreover have "k \<le> card (set ws)" using assms(2,4) by (simp add: distinct_card)
    ultimately show False
      using tagged.not_in_take [OF tagged.sorted_stable_sort _ t, of "set ws"] less ts by simp
  qed
  then have "take k (filter (\<lambda>t. t \<notin> set ts) (?S (as @ ts @ bs))) = take k (?S (as @ ts @ bs))"
    by (intro take_filter_all) blast
  then show ?thesis by (simp add: tagged.filter_stable_sort f del: filter_append)
qed

lemma stable_sort_inside: "stable_sort le (as @ stable_sort le xs @ bs) = stable_sort le (as @ xs @ bs)"
  by (rule stable_sort_unique [OF sorted_stable_sort]) (simp add: filter_equivalent)

lemma take_sort_chunk:
  "take k (stable_sort le (as @ take k (stable_sort le xs) @ bs)) = take k (stable_sort le (as @ xs @ bs))"
proof -
  define ys where "ys = stable_sort le xs"
  have so: "sorted_wrt le ys" by (simp add: ys_def sorted_stable_sort)
  define a y where "a = length as" and "y = length ys"
  let ?A = "zip as [0..<a]" and ?Y = "zip ys [a..<a + y]" and ?B = "zip bs [a + y..<a + y + length bs]"
  have Y: "?Y = take k ?Y @ drop k ?Y" by simp
  have whole: "map fst (?A @ ?Y @ ?B) = as @ ys @ bs" by (simp add: a_def y_def)
  have part: "map fst (?A @ take k ?Y @ ?B) = as @ take k ys @ bs"
    by (simp add: a_def y_def take_zip flip: take_map)
  have snds: "map snd (?A @ ?Y @ ?B) = [0..<a + y + length bs]"
    using upt_add_eq_append [of 0 a "y + length bs"] upt_add_eq_append [of a "a + y" "length bs"]
    by (simp add: a_def y_def add.assoc)
  have inc: "sorted_wrt (\<lambda>s t. snd s < snd t) (?A @ ?Y @ ?B)"
    unfolding sorted_wrt_map [of "(<)" snd, symmetric] snds by simp
  have inc1: "sorted_wrt (\<lambda>s t. snd s \<le> snd t) (?A @ ?Y @ ?B)"
    using inc by (auto elim!: sorted_wrt_mono_rel [rotated])
  have inc2: "sorted_wrt (\<lambda>s t. snd s \<le> snd t) (?A @ take k ?Y @ ?B)"
  proof -
    have "sorted_wrt (\<lambda>s t. snd s \<le> snd t) (?A @ take k ?Y @ drop k ?Y @ ?B)" 
      using inc1 by (subst append_assoc [symmetric, of "take k ?Y"]) (simp only: append_take_drop_id)
    then show ?thesis by (auto simp: sorted_wrt_append)
  qed
  have e: "(?A @ take k ?Y) @ drop k ?Y @ ?B = ?A @ ?Y @ ?B"
    unfolding append_assoc append_assoc [symmetric, of "take k ?Y"] append_take_drop_id ..
  have "take k (stable_sort (with_tag le) ((?A @ take k ?Y) @ drop k ?Y @ ?B)) =
      take k (stable_sort (with_tag le) ((?A @ take k ?Y) @ ?B))"
  proof (cases "k \<le> y")
    case True
    show ?thesis
    proof (rule take_sort_without)
      show "distinct (map snd ((?A @ take k ?Y) @ drop k ?Y @ ?B))"
        using snds by (subst append_assoc, subst append_assoc [symmetric, of "take k ?Y"]) (simp add: distinct_upt)
      show "length (take k ?Y) = k" using True by (simp add: y_def)
      show "distinct (take k ?Y)" by (intro distinct_take distinct_zipI2) simp
      fix w t
      assume "w \<in> set (take k ?Y)" "t \<in> set (drop k ?Y)"
      then obtain i j where "i < k" "k \<le> j" "j < y" "w = (ys ! i, a + i)" "t = (ys ! j, a + j)"
        by (auto simp: in_set_conv_nth y_def)
      then show "\<not> with_tag le t w"
        using so by (simp add: with_tag_def sorted_wrt_iff_nth_less y_def)
    qed auto
  qed (simp add: y_def)
  then have "take k (stable_sort (with_tag le) (?A @ ?Y @ ?B)) = take k (stable_sort (with_tag le) ((?A @ take k ?Y) @ ?B))"
    unfolding e .
  then have "take k (stable_sort (with_tag le) (?A @ ?Y @ ?B)) = take k (stable_sort (with_tag le) (?A @ take k ?Y @ ?B))"
    unfolding append_assoc .
  then have "take k (map fst (stable_sort (with_tag le) (?A @ ?Y @ ?B))) =
      take k (map fst (stable_sort (with_tag le) (?A @ take k ?Y @ ?B)))"
    by (simp add: take_map)
  then show ?thesis
    unfolding stable_sort_tagged [OF inc1] stable_sort_tagged [OF inc2] whole part
    by (simp add: ys_def stable_sort_inside)
qed

lemma take_sort_chunks:
  "take k (stable_sort le (concat (map (\<lambda>xs. take k (stable_sort le xs)) xss))) = take k (stable_sort le (concat xss))"
proof -
  have "take k (stable_sort le (as @ concat (map (\<lambda>xs. take k (stable_sort le xs)) xss))) =
      take k (stable_sort le (as @ concat xss))" for as
  proof (induction xss arbitrary: as)
    case (Cons xs xss)
    have "take k (stable_sort le ((as @ take k (stable_sort le xs)) @ concat (map (\<lambda>xs. take k (stable_sort le xs)) xss))) =
        take k (stable_sort le ((as @ take k (stable_sort le xs)) @ concat xss))"
      by (rule Cons)
    then show ?case using take_sort_chunk [of k as xs "concat xss"] by simp
  qed simp
  from this [of "[]"] show ?thesis by simp
qed

lemma dual_order: "row_order (\<lambda>x y. le y x)"
  by (rule row_order.intro, unfold_locales) (use le_trans le_total in blast)+

lemma rev_stable_sort: "rev (stable_sort le xs) = stable_sort (\<lambda>x y. le y x) (rev xs)"
proof (rule total_preorder.stable_sort_unique [OF row_order.axioms [OF dual_order], symmetric])
  show "sorted_wrt (\<lambda>x y. le y x) (rev (stable_sort le xs))"
    by (simp add: sorted_wrt_rev sorted_stable_sort)
  fix x
  have "total_preorder.equivalent (\<lambda>x y. le y x) x = equivalent x"
    by (auto simp: total_preorder.equivalent_def [OF row_order.axioms [OF dual_order]] equivalent_def fun_eq_iff)
  then show "filter (total_preorder.equivalent (\<lambda>x y. le y x) x) (rev (stable_sort le xs)) =
      filter (total_preorder.equivalent (\<lambda>x y. le y x) x) (rev xs)"
    by (simp add: filter_equivalent flip: rev_filter)
qed

lemma last_sort_chunks:
  "last_rows k (stable_sort le (concat (map (\<lambda>xs. last_rows k (stable_sort le xs)) xss))) =
   last_rows k (stable_sort le (concat xss))"
proof -
  let ?D = "stable_sort (\<lambda>x y. le y x)"
  have r: "rev (concat (map (\<lambda>xs. rev (take k (?D (rev xs)))) xss)) = concat (map (\<lambda>xs. take k (?D xs)) (map rev (rev xss)))"
    by (simp add: rev_concat rev_map comp_def)
  show ?thesis
    unfolding last_rows_rev rev_stable_sort r row_order.take_sort_chunks [OF dual_order]
    by (simp add: rev_concat rev_map)
qed

end

end
