(* ===== verification/SortActor.thy ===== *)
theory SortActor
  imports SortFacts TopK
begin

text \<open>
  The sort actor as a whole: rows already in order pass through, chunks separated by boundaries are
  sorted one by one, a head or a tail is selected chunk by chunk, and everything else is shuffled.
  Whatever way it takes, the output is the sorted input and the metadata sent with it is true.
\<close>

section \<open>Head and tail\<close>

text \<open>A negative start with no length is cut short by \<open>polars_slice\<close> when it reaches before the first
  row (see \<open>slice_without_length_short\<close>); a length is given or the start is not negative.\<close>

definition slice_given :: "(int \<times> int option) option \<Rightarrow> bool" where
  "slice_given zlice \<longleftrightarrow> (case zlice of Some (start, None) \<Rightarrow> 0 \<le> start | _ \<Rightarrow> True)"

lemma simple_slice:
  assumes "has_simple_zlice z" and "slice_given z"
  shows "(\<exists>k. slice_rows z = (take k :: 'r list \<Rightarrow> 'r list)) \<or> (\<exists>k. slice_rows z = (last_rows k :: 'r list \<Rightarrow> 'r list))
    \<or> slice_rows z = (\<lambda>xs :: 'r list. xs)"
proof -
  obtain start len where z: "z = Some (start, len)" using assms(1) by (cases z) (auto simp: has_simple_zlice_def)
  show ?thesis
  proof (cases "start < 0")
    case True
    then obtain l where l: "len = Some l" "0 \<le> start + l"
      using assms by (cases len) (auto simp: z has_simple_zlice_def slice_given_def)
    have "slice_rows z xs = last_rows (nat (- start)) xs" for xs :: "'r list"
    proof -
      have "polars_slice (start, Some l) (length xs) = (max (start + int (length xs)) 0, int (length xs))"
        using True l(2) by (cases xs) (auto simp: polars_slice_def Let_def max_def min_def)
      moreover have "nat (max (start + int (length xs)) 0) = length xs - nat (- start)"
        using True by (simp add: max_def) arith
      ultimately show ?thesis by (simp add: z l(1) slice_rows_def last_rows_def)
    qed
    then show ?thesis by blast
  next
    case False
    then have s0: "start = 0" using assms(1) by (auto simp: z has_simple_zlice_def)
    show ?thesis
    proof (cases len)
      case None
      then have "slice_rows z xs = xs" for xs :: "'r list"
        by (simp add: z s0 slice_rows_def polars_slice_def Let_def)
      then show ?thesis by blast
    next
      case (Some l)
      have "slice_rows z xs = take (nat l) xs" for xs :: "'r list"
        by (cases "l \<le> int (length xs)") (simp_all add: z s0 Some slice_rows_def polars_slice_def Let_def max_def min_def)
      then show ?thesis by blast
    qed
  qed
qed

lemma slice_without_length_short: "slice_rows (Some (-5, None)) [x, y, z] = [x]"
  by (simp add: slice_rows_def polars_slice_def)

lemma map_slice_rows: "map f (slice_rows z xs) = slice_rows z (map f xs)"
  by (cases z) (simp_all add: slice_rows_def take_map drop_map split: prod.splits)

context row_order
begin

lemma select_chunks:
  assumes "has_simple_zlice z" and "slice_given z"
  shows "slice_rows z (stable_sort le (concat (map (\<lambda>xs. slice_rows z (stable_sort le xs)) xss))) =
    slice_rows z (stable_sort le (concat xss))"
  using simple_slice [OF assms, where 'r = 'a] take_sort_chunks [of _ xss] last_sort_chunks [of _ xss] stable_sort_chunks [of xss]
  by (auto simp del: map_eq_conv)

end

interpretation keyed: row_order "padded_le keys" for keys :: "okey list"
  by (rule row_order_padded_le)

text \<open>The keys of a sorted arrangement are determined, also when equal rows are in any order.\<close>

lemma keys_of_sorted:
  assumes "sorted_wrt (row_le keys) ys" and m: "mset ys = mset xs"
  shows "map (key_values keys) ys = stable_sort (padded_le keys) (map (key_values keys) xs)"
proof (rule keyed.stable_sort_unique [symmetric])
  show "sorted_wrt (padded_le keys) (map (key_values keys) ys)"
    using assms(1) by (auto simp: sorted_wrt_map padded_le_iff padded_id row_le_iff elim!: sorted_wrt_mono_rel [rotated])
  fix x :: "'a option list"
  let ?P = "keyed.equivalent keys x"
  have eq: "y = padded keys x" if "y \<in> key_values keys ` set zs" "?P y" for y and zs :: "'a option vrow list"
  proof -
    have "padded keys y = y" using that(1) by (auto intro: padded_id)
    then have le: "tuple_le value_lt (flags keys) (padded keys x) y" "tuple_le value_lt (flags keys) y (padded keys x)"
      using that(2) by (simp_all add: keyed.equivalent_def padded_le_iff)
    have "\<not> (tuple_lt value_lt (flags keys) (padded keys x) y \<and> tuple_lt value_lt (flags keys) y (padded keys x))"
      using nullable.tuple_trans nullable.tuple_irrefl by blast
    then show ?thesis using le by (auto simp: tuple_le_def)
  qed
  have one: "filter ?P (map (key_values keys) zs) =
      replicate (size (filter_mset ?P (mset (map (key_values keys) zs)))) (padded keys x)" for zs
  proof -
    have "filter ?P (map (key_values keys) zs) = replicate (length (filter ?P (map (key_values keys) zs))) (padded keys x)"
      using eq [of _ zs] by (intro replicate_eqI) auto
    then show ?thesis by (metis mset_filter size_mset)
  qed
  show "filter ?P (map (key_values keys) ys) = filter ?P (map (key_values keys) xs)"
    unfolding one by (simp add: m)
qed

lemma evaluate_sort_keys:
  "sorts u \<Longrightarrow> map (key_values keys) (evaluate_sort u keys st z rows) =
   slice_rows z (stable_sort (padded_le keys) (map (key_values keys) rows))"
  using keys_of_sorted [of keys "if st then stable_sort (row_le keys) rows else u keys rows" rows]
  by (simp add: evaluate_sort_def map_slice_rows sorts_eqs row.sorted_stable_sort)

lemma slice_Nil [simp]: "slice_rows z [] = []"
  by (simp add: slice_rows_def split: option.splits prod.splits)

lemma evaluate_sort_Nil: "sorts u \<Longrightarrow> evaluate_sort u keys st z [] = []"
  by (simp add: evaluate_sort_def sorts_eqs)

text \<open>The rows of the whole input: a duplicated stream counts once.\<close>

definition logical :: "bool \<Rightarrow> 'b list \<Rightarrow> 'b list" where
  "logical duplicated data = (if duplicated then take 1 data else data)"

definition all_rows :: "bool \<Rightarrow> 'v message list list \<Rightarrow> 'v vrow list" where
  "all_rows duplicated data = concat (map snd (sources duplicated data))"

lemma top_k_eq:
  assumes u: "sorts u" and "same_everywhere duplicated data" and "rank < length data"
  shows "\<exists>xss. simple_top_or_bottom_k u keys st z duplicated data rank =
      evaluate_sort u keys st z (concat (map (\<lambda>xs. evaluate_sort u keys st z (concat (map (evaluate_sort u keys st z) xs))) xss))
      \<and> concat (concat xss) = all_rows duplicated data
    \<or> simple_top_or_bottom_k u keys st z duplicated data rank =
      evaluate_sort u keys st z (concat (map (evaluate_sort u keys st z) (concat xss))) \<and> concat (concat xss) = all_rows duplicated data"
proof -
  let ?ev = "evaluate_sort u keys st z"
  have chunk: "(if msgs \<noteq> [] then ?ev (concat (map (\<lambda>m. ?ev (snd m)) msgs)) else []) =
      ?ev (concat (map (\<lambda>m. ?ev (snd m)) msgs))" for msgs :: "'a option message list"
    by (simp add: evaluate_sort_Nil [OF u])
  show ?thesis
  proof (cases "length data > 1 \<and> \<not> duplicated")
    case True
    then have "simple_top_or_bottom_k u keys st z duplicated data rank =
        ?ev (concat (map (\<lambda>xs. ?ev (concat (map ?ev xs))) (map (map snd) data)))"
      by (simp add: simple_top_or_bottom_k_def Let_def comp_def chunk)
    moreover have "concat (concat (map (map snd) data)) = all_rows duplicated data"
      using True by (simp add: all_rows_def sources_def map_concat)
    ultimately show ?thesis by blast
  next
    case False
    have "data ! rank = data ! 0" and "concat (if duplicated then take 1 data else data) = data ! 0"
    proof -
      have d: "data = data ! 0 # tl data" using assms(3) by (cases data) simp_all
      show "data ! rank = data ! 0"
      proof (cases duplicated)
        case True
        then show ?thesis using assms(2,3) by (simp add: same_everywhere_def)
      next
        case nd: False
        then have "rank = 0" using False assms(3) by simp
        then show ?thesis by simp
      qed
      show "concat (if duplicated then take 1 data else data) = data ! 0"
      proof (cases duplicated)
        case True
        then show ?thesis by (subst d) simp
      next
        case nd: False
        then have "tl data = []" using False assms(3) by (cases data) auto
        then show ?thesis using nd by (subst d) simp
      qed
    qed
    then have "concat (concat [map snd (data ! 0)]) = all_rows duplicated data"
      "simple_top_or_bottom_k u keys st z duplicated data rank = ?ev (concat (map ?ev (concat [map snd (data ! 0)])))"
      using False by (simp add: all_rows_def sources_def, auto simp: simple_top_or_bottom_k_def Let_def comp_def chunk evaluate_sort_Nil [OF u])
    then show ?thesis by blast
  qed
qed

lemma top_k_stable:
  assumes u: "sorts u" and "same_everywhere duplicated data" and "rank < length data"
    and z: "has_simple_zlice z" "slice_given z"
  shows "simple_top_or_bottom_k u keys True z duplicated data rank = slice_rows z (stable_sort (row_le keys) (all_rows duplicated data))"
proof -
  have ev: "evaluate_sort u keys True z = (\<lambda>xs. slice_rows z (stable_sort (row_le keys) xs))"
    by (simp add: evaluate_sort_def fun_eq_iff)
  note one = row.select_chunks [OF z, of keys]
  have two: "slice_rows z (stable_sort (row_le keys) (concat (map (\<lambda>xs. slice_rows z (stable_sort (row_le keys) (concat xs))) xss))) =
      slice_rows z (stable_sort (row_le keys) (concat (concat xss)))" for xss :: "'a option vrow list list list"
    using one [of "map concat xss"] by (simp add: comp_def concat_concat)
  show ?thesis
    using top_k_eq [OF assms(1-3), of keys True z] unfolding ev one two by auto
qed

lemma top_k_keys:
  assumes u: "sorts u" and "same_everywhere duplicated data" and "rank < length data"
    and z: "has_simple_zlice z" "slice_given z"
  shows "map (key_values keys) (simple_top_or_bottom_k u keys st z duplicated data rank) =
    slice_rows z (map (key_values keys) (stable_sort (row_le keys) (all_rows duplicated data)))"
proof -
  let ?K = "\<lambda>xs. slice_rows z (stable_sort (padded_le keys) xs)"
  let ?kv = "map (key_values keys)"
  note one = keyed.select_chunks [OF z, of keys]
  have two: "?K (concat (map (\<lambda>xs. ?K (concat xs)) xss)) = ?K (concat (concat xss))" for xss
    using one [of "map concat xss"] by (simp add: comp_def concat_concat)
  have ev: "?kv (evaluate_sort u keys st z rows) = ?K (?kv rows)" for rows
    by (rule evaluate_sort_keys [OF u])
  have "?kv (simple_top_or_bottom_k u keys st z duplicated data rank) = ?K (?kv (all_rows duplicated data))"
  proof -
    obtain xss where "simple_top_or_bottom_k u keys st z duplicated data rank =
        evaluate_sort u keys st z (concat (map (\<lambda>xs. evaluate_sort u keys st z (concat (map (evaluate_sort u keys st z) xs))) xss))
      \<or> simple_top_or_bottom_k u keys st z duplicated data rank =
        evaluate_sort u keys st z (concat (map (evaluate_sort u keys st z) (concat xss)))"
      and c: "concat (concat xss) = all_rows duplicated data"
      using top_k_eq [OF assms(1-3), of keys st z] by blast
    then show ?thesis
    proof (elim disjE, goal_cases)
      case 1
      have "?kv (simple_top_or_bottom_k u keys st z duplicated data rank) =
          ?K (concat (map (\<lambda>xs. ?K (concat (map ?K (map ?kv xs)))) xss))"
        by (simp add: 1 ev map_concat comp_def)
      also have "\<dots> = ?K (concat (map (\<lambda>xs. ?K (concat xs)) (map (map ?kv) xss)))"
        unfolding one by (simp add: comp_def)
      finally show ?case unfolding two by (simp add: map_concat flip: c)
    next
      case 2
      have "?kv (simple_top_or_bottom_k u keys st z duplicated data rank) = ?K (concat (map ?K (map ?kv (concat xss))))"
        by (simp add: 2 ev map_concat comp_def)
      then show ?case unfolding one by (simp add: map_concat flip: c)
    qed
  qed
  then show ?thesis
    using keys_of_sorted [OF row.sorted_stable_sort mset_stable_sort, of keys "all_rows duplicated data"]
    by (simp add: map_slice_rows)
qed

section \<open>Sorting chunk by chunk\<close>

lemma keys_match_ordering:
  assumes "keys_match s key_indices order_keys sub = OrderScheme os"
  shows "\<exists>os'. s = OrderScheme os' \<and> os ! 0 \<in> set os'"
proof (cases s)
  case (HashScheme cols m)
  then show ?thesis using assms by (simp split: if_splits)
next
  case (OrderScheme os')
  have m: "matching_order_scheme os' key_indices order_keys sub = OrderScheme os" using assms OrderScheme by simp
  obtain x xs where f: "filter (\<lambda>m. ordering_keys_match (snd m) key_indices order_keys sub) (zip [0..<length os'] os') = x # xs"
    using m by (cases "filter (\<lambda>m. ordering_keys_match (snd m) key_indices order_keys sub) (zip [0..<length os'] os')")
      (simp_all add: matching_order_scheme_def)
  obtain i kord where l: "longest x xs = (i, kord)" by fastforce
  have "(i, kord) \<in> set (zip [0..<length os'] os')"
    using longest_in [of x xs] unfolding l f [symmetric] by simp
  moreover have "os ! 0 = kord" using m by (auto simp: matching_order_scheme_def f l)
  ultimately show ?thesis using OrderScheme by (auto dest: set_zip_rightD)
qed (use assms in simp_all)

lemma keys_match_not_Inherit: "keys_match s a b c \<noteq> Inherit"
  by (cases s) (auto simp: matching_order_scheme_def Let_def split: list.splits prod.splits)

text \<open>Where the ordering of a level comes from.\<close>

lemma get_ordering_from:
  assumes "get_ordering (from_keys metadata nranks (OrderKeys ks) sub) level = Some (kord :: 'a::linorder option key_ordering)" and "level \<noteq> InterRankLevel"
  shows "\<exists>p os. metadata = Some p \<and> kord \<in> set os \<and>
    (pt_inter p = OrderScheme os \<and> pt_local p = Inherit \<and> level = Flat
     \<or> pt_local p = OrderScheme os \<and> (level = LocalLevel \<or> nranks = 1))"
proof -
  obtain across within where n: "normalize_schemes metadata (map ko_index ks) nranks (Some ks) sub = (across, within)" by fastforce
  have ks: "ks \<noteq> []" using assms(1,2) by (cases level) (auto simp: from_keys_def get_ordering_def)
  then have fk: "from_keys metadata nranks (OrderKeys ks) sub = \<lparr>np_inter = across, np_local = within\<rparr>"
    using n by (simp add: from_keys_def)
  obtain p where p: "metadata = Some p"
    using n assms fk ks by (cases metadata; cases level) (auto simp: normalize_schemes_def get_ordering_def split: if_splits)
  define mi where "mi = keys_match (pt_inter p) (map ko_index ks) (Some ks) sub"
  define ml where "ml = keys_match (pt_local p) (map ko_index ks) (Some ks) sub"
  have c: "across = NoScheme \<and> within = NoScheme
      \<or> across = ml \<and> within = Inherit \<and> nranks = 1
      \<or> across = mi \<and> (within = ml \<or> within = Inherit \<and> pt_local p = Inherit \<or> within = NoScheme)"
    using n ks unfolding normalize_schemes_def p Let_def mi_def [symmetric] ml_def [symmetric] option.case
    by (auto split: if_splits)
  have mlo: "\<exists>os'. pt_local p = OrderScheme os' \<and> os ! 0 \<in> set os'" if "ml = OrderScheme os" for os
    using keys_match_ordering [OF that [unfolded ml_def]] .
  have mio: "\<exists>os'. pt_inter p = OrderScheme os' \<and> os ! 0 \<in> set os'" if "mi = OrderScheme os" for os
    using keys_match_ordering [OF that [unfolded mi_def]] .
  have ml_inherit: "ml \<noteq> Inherit"
    unfolding ml_def by (rule keys_match_not_Inherit)
  show ?thesis
  proof (cases level)
    case Flat
    then have w: "within = Inherit" and a: "\<exists>os. across = OrderScheme os \<and> kord = os ! 0"
      using assms(1) fk by (auto simp: get_ordering_def split: if_splits scheme.splits)
    then show ?thesis using c Flat mlo mio ml_inherit p by auto
  next
    case LocalLevel
    then have "\<exists>os. within = OrderScheme os \<and> kord = os ! 0"
      using assms(1) fk by (auto simp: get_ordering_def split: scheme.splits)
    then show ?thesis using c LocalLevel mlo p by auto
  qed (use assms(2) in simp)
qed

lemma flags_take: "flags (take n keys) = take n (flags keys)" and key_values_take: "key_values (take n keys) r = take n (key_values keys r)"
  by (simp_all add: flags_def key_values_def take_map)

lemma tuple_lt_take: "tuple_lt lt (take n ks) (take n xs) (take n ys) \<Longrightarrow> tuple_lt lt ks xs ys"
proof (induction n arbitrary: ks xs ys)
  case (Suc n)
  then show ?case by (cases ks; cases xs; cases ys) auto
qed simp

text \<open>Rows of an earlier part precede the rows of a later one.\<close>

lemma parts_apart:
  assumes c: "can_sort_chunkwise (Some kord) keys" and b: "bounds_ok kord" and o: "parts_in_order kord parts"
    and ij: "i < j" "j < length parts" and r: "r \<in> set (parts ! i)" and s: "s \<in> set (parts ! j)"
  shows "row_le keys r s"
proof -
  let ?b = "or_bounds kord" and ?fl = "flags (or_keys kord)"
  obtain place where pl: "mono place"
      "\<And>i r. i < length parts \<Longrightarrow> r \<in> set (parts ! i) \<Longrightarrow> \<exists>p. in_range kord r p \<and> place p = i"
    using o by (auto simp: parts_in_order_def)
  obtain p where p: "in_range kord r p" "place p = i" using pl(2) [of i r] ij r by auto
  obtain q where q: "in_range kord s q" "place q = j" using pl(2) [of j s] ij s by auto
  have pq: "p < q" using monoD [OF pl(1), of q p] p(2) q(2) ij(1) by (cases "p < q") auto
  have q': "q \<le> length ?b" "(if or_strict kord then tuple_lt else tuple_le) value_lt ?fl (?b ! (q - 1)) (key_values (or_keys kord) s)"
    using q(1) pq by (auto simp: in_range_def)
  have p': "tuple_le value_lt ?fl (key_values (or_keys kord) r) (?b ! p)" using p(1) pq q'(1) by (simp add: in_range_def)
  have "tuple_le value_lt ?fl (?b ! p) (?b ! (q - 1))"
  proof (cases "p = q - 1")
    case False
    then show ?thesis using b pq q'(1) by (simp add: bounds_ok_def sorted_wrt_iff_nth_less)
  qed simp
  with p' have le: "tuple_le value_lt ?fl (key_values (or_keys kord) r) (?b ! (q - 1))" by (rule nullable.tuple_le_trans)
  define n where "n = length (or_keys kord)"
  have k: "or_keys kord = take n keys" "n = length keys \<or> or_strict kord"
    using c by (simp_all add: can_sort_chunkwise_def n_def)
  show ?thesis
  proof (cases "or_strict kord")
    case True
    then have "tuple_lt value_lt ?fl (key_values (or_keys kord) r) (key_values (or_keys kord) s)"
      using nullable.tuple_le_lt_trans [OF le] q'(2) by simp
    then have "tuple_lt value_lt (flags keys) (key_values keys r) (key_values keys s)"
      unfolding k(1) flags_take key_values_take by (rule tuple_lt_take)
    then show ?thesis by (simp add: row_le_iff tuple_le_def)
  next
    case False
    then have "or_keys kord = keys" using k by simp
    then show ?thesis using nullable.tuple_le_trans [OF le] q'(2) False by (simp add: row_le_iff)
  qed
qed

lemma sorted_wrt_concat_parts:
  assumes "\<And>xs. xs \<in> set parts \<Longrightarrow> sorted_wrt R xs"
    and "\<And>i j x y. i < j \<Longrightarrow> j < length parts \<Longrightarrow> x \<in> set (parts ! i) \<Longrightarrow> y \<in> set (parts ! j) \<Longrightarrow> R x y"
  shows "sorted_wrt R (concat parts)"
proof -
  have "sorted_wrt R (concat (map ((!) parts) [0..<length parts]))"
    by (rule sorted_wrt_concat_map) (use assms in auto)
  then show ?thesis by (simp add: map_nth)
qed

lemma chunkwise_sorted:
  assumes "can_sort_chunkwise (Some kord) keys" and "bounds_ok kord" and "parts_in_order kord parts"
    and parts: "list_all2 (\<lambda>xs ys. set ys = set xs \<and> sorted_wrt (row_le keys) ys) parts parts'"
  shows "sorted_wrt (row_le keys) (concat parts')"
proof (rule sorted_wrt_concat_parts)
  show "sorted_wrt (row_le keys) ys" if "ys \<in> set parts'" for ys
    using list_all2_setD2 [OF parts that] by auto
  show "row_le keys x y" if "i < j" "j < length parts'" "x \<in> set (parts' ! i)" "y \<in> set (parts' ! j)" for i j x y
    using parts_apart [OF assms(1-3) that(1), of x y] that list_all2_lengthD [OF parts]
      list_all2_nthD2 [OF parts, of i] list_all2_nthD2 [OF parts, of j] by simp
qed

text \<open>Metadata about the placement of rows does not depend on their order in a chunk.\<close>

definition same_rows :: "'v vrow list list \<Rightarrow> 'v vrow list list \<Rightarrow> bool" where
  "same_rows = list_all2 (\<lambda>xs ys. set ys = set xs)"

lemma same_rows_nth: "same_rows parts parts' \<Longrightarrow> i < length parts' \<Longrightarrow> set (parts' ! i) = set (parts ! i)"
  unfolding same_rows_def by (rule list_all2_nthD2)

lemma same_rows_length: "same_rows parts parts' \<Longrightarrow> length parts' = length parts"
  unfolding same_rows_def by (auto dest: list_all2_lengthD)

lemma scheme_holds_same: "same_rows parts parts' \<Longrightarrow> scheme_holds hash s parts \<Longrightarrow> scheme_holds hash s parts'"
  by (cases s) (simp_all add: same_rows_length same_rows_nth)

lemma parts_in_order_same: "same_rows parts parts' \<Longrightarrow> parts_in_order kord parts \<Longrightarrow> parts_in_order kord parts'"
  by (simp add: parts_in_order_def same_rows_length same_rows_nth)

lemma same_rows_concat: "list_all2 same_rows data data' \<Longrightarrow> same_rows (concat data) (concat data')"
  unfolding same_rows_def by (induction rule: list_all2_induct) (simp_all add: list_all2_appendI)

lemma same_rows_ranks: "list_all2 same_rows data data' \<Longrightarrow> same_rows (map concat data) (map concat data')"
proof (induction rule: list_all2_induct)
  case (Cons x xs y ys)
  then have "set (concat y) = set (concat x)"
    unfolding same_rows_def by (induction x y rule: list_all2_induct) auto
  then show ?case using Cons by (simp add: same_rows_def)
qed (simp add: same_rows_def)

section \<open>The actor\<close>

text \<open>Metadata is true of a stream when it holds of its rows (counted once if they are duplicated) and
  the chunks come in the order of the boundaries.\<close>

definition chunks_follow :: "'a::linorder option partitioning \<Rightarrow> 'a option stream \<Rightarrow> bool" where
  "chunks_follow p data \<longleftrightarrow>
     (\<forall>os. pt_inter p = OrderScheme os \<and> pt_local p = Inherit \<longrightarrow> (\<forall>kord \<in> set os. parts_in_order kord (concat data)))
     \<and> (\<forall>os. pt_local p = OrderScheme os \<longrightarrow> (\<forall>kord \<in> set os. \<forall>rank \<in> set data. parts_in_order kord rank))"

definition metadata_true ::
  "('a::linorder option list \<Rightarrow> nat) \<Rightarrow> 'a option channel_metadata \<Rightarrow> 'a option stream \<Rightarrow> bool" where
  "metadata_true hash md data \<longleftrightarrow>
     (case cm_partitioning md of
        None \<Rightarrow> True
      | Some p \<Rightarrow> partitioning_holds hash p (logical (cm_duplicated md) data) \<and> chunks_follow p (logical (cm_duplicated md) data))"

definition stream_rows :: "'v channel_metadata \<Rightarrow> 'v stream \<Rightarrow> 'v vrow list" where
  "stream_rows md data = concat (concat (logical (cm_duplicated md) data))"

lemma stream_rows_messages: "stream_rows md (map (map snd) data) = all_rows (cm_duplicated md) data"
  by (simp add: stream_rows_def all_rows_def sources_def logical_def map_concat take_map)

lemma logical_same:
  "list_all2 same_rows data data' \<Longrightarrow> list_all2 same_rows (logical d data) (logical d data')"
  by (simp add: logical_def list_all2_takeI)

lemma list_all2_rmap: "rmap f xs = Inr ys \<longleftrightarrow> list_all2 (\<lambda>x y. f x = Inr y) xs ys"
  by (rule rmap_Inr_iff)

lemma results_eq:
  assumes "rmap f [0..<n] = Inr results" and "\<And>i. i < n \<Longrightarrow> f i = Inr (m, g i)"
  shows "results = map (\<lambda>i. (m, g i)) [0..<n]"
proof -
  have l: "list_all2 (\<lambda>i y. f i = Inr y) [0..<n] results" using assms(1) by (simp add: rmap_Inr_iff)
  show ?thesis
  proof (rule nth_equalityI)
    show len: "length results = length (map (\<lambda>i. (m, g i)) [0..<n])" using list_all2_lengthD [OF l] by simp
    show "results ! i = map (\<lambda>i. (m, g i)) [0..<n] ! i" if "i < length results" for i
      using list_all2_nthD [OF l, of i] assms(2) [of i] that len by simp
  qed
qed

lemma chunkwise_metadata:
  assumes p: "partitioning_holds hash p data" "chunks_follow p data" and same: "list_all2 same_rows data data'"
    and ro: "row_ordering_holds ro data'" and p': "partitioning_or_none (pt_inter p) (pt_local p) [ro] = Some p'"
  shows "partitioning_holds hash p' data' \<and> chunks_follow p' data'"
proof -
  have e: "pt_inter p' = pt_inter p" "pt_rows p' = [ro]"
    "pt_local p' = (if pt_inter p = NoScheme \<and> pt_local p = Inherit then NoScheme else pt_local p)"
    using p' by (auto simp: partitioning_or_none_def Let_def deduplicate_row_orderings_def split: if_splits)
  have ranks: "\<exists>rank \<in> set data. same_rows rank rank'" if "rank' \<in> set data'" for rank'
    using list_all2_setD2 [OF same that] by blast
  have "scheme_holds hash (pt_inter p) (map concat data')"
    using scheme_holds_same [OF same_rows_ranks [OF same]] p(1) by (simp add: partitioning_holds_def)
  moreover have "pt_local p = Inherit \<longrightarrow> scheme_holds hash (pt_inter p) (concat data')"
    using scheme_holds_same [OF same_rows_concat [OF same]] p(1) by (simp add: partitioning_holds_def)
  moreover have "\<forall>rank' \<in> set data'. scheme_holds hash (pt_local p) rank'"
    using ranks scheme_holds_same p(1) unfolding partitioning_holds_def by blast
  ultimately have "partitioning_holds hash p' data'" using ro by (simp add: partitioning_holds_def e)
  moreover have "chunks_follow p' data'"
    using p(2) parts_in_order_same [OF same_rows_concat [OF same]] ranks parts_in_order_same
    unfolding chunks_follow_def e by (auto split: if_splits) blast+
  ultimately show ?thesis by blast
qed

lemma global_ordering_Inr: "global_ordering keys = Inr ro \<Longrightarrow> ro = \<lparr>ro_keys = keys, ro_scope = GlobalScope, ro_groups = []\<rparr>"
  by (simp add: global_ordering_def new_row_ordering_def split: if_splits)

lemma row_ordering_global:
  "row_ordering_holds \<lparr>ro_keys = keys, ro_scope = GlobalScope, ro_groups = []\<rparr> data \<longleftrightarrow> sorted_wrt (row_le keys) (concat (concat data))"
  by (simp add: row_ordering_holds_def rows_ordered_iff)

text \<open>What a result of the actor has to satisfy.\<close>

definition sorted_result ::
  "('a::linorder option list \<Rightarrow> nat) \<Rightarrow> okey list \<Rightarrow> bool \<Rightarrow> 'a option vrow list \<Rightarrow> ('a option channel_metadata \<times> 'a option vrow list list) list \<Rightarrow> bool" where
  "sorted_result hash keys st rows results \<longleftrightarrow>
     (\<exists>md. map fst results = replicate (length results) md \<and> metadata_true hash md (map snd results)
        \<and> sorted_wrt (row_le keys) (stream_rows md (map snd results))
        \<and> mset (stream_rows md (map snd results)) = mset rows
        \<and> (st \<longrightarrow> stream_rows md (map snd results) = stable_sort (row_le keys) rows))"

lemma sorted_resultI:
  assumes "metadata_true hash md (map g [0..<n])" and "sorted_wrt (row_le keys) (stream_rows md (map g [0..<n]))"
    and "mset (stream_rows md (map g [0..<n])) = mset rows"
    and "st \<longrightarrow> stream_rows md (map g [0..<n]) = stable_sort (row_le keys) rows"
  shows "sorted_result hash keys st rows (map (\<lambda>i. (md, g i)) [0..<n])"
  unfolding sorted_result_def using assms by (intro exI [of _ md]) (simp add: comp_def map_replicate_const)

lemma sort_with_keys_passes:
  assumes run: "rmap (sort_with_keys u arrange owned keys ir n md data) [0..<length data] = Inr results"
    and z: "si_zlice ir = None" and o: "is_row_ordered_by (cm_partitioning md) keys [] GlobalScope = Inr True"
    and md: "metadata_true hash md (map (map snd) data)"
  shows "sorted_result hash keys (si_stable ir) (all_rows (cm_duplicated md) data) results"
proof -
  have "sort_with_keys u arrange owned keys ir n md data rank = Inr (md, map snd (data ! rank))" for rank
    using z o by (simp add: sort_with_keys_def Let_def)
  from results_eq [OF run this]
  have results: "results = map (\<lambda>i. (md, map snd (data ! i))) [0..<length data]" .
  have out: "map (\<lambda>i. map snd (data ! i)) [0..<length data] = map (map snd) data" by (rule map_nth_upt)
  obtain p where p: "cm_partitioning md = Some p"
    using o by (cases "cm_partitioning md") (simp_all add: is_row_ordered_by_def)
  then have "partitioning_holds hash p (logical (cm_duplicated md) (map (map snd) data))"
    using md by (simp add: metadata_true_def)
  from is_row_ordered_by_sound [OF o [unfolded p] this]
  have so: "sorted_wrt (row_le keys) (stream_rows md (map (map snd) data))"
    by (simp add: row_ordering_global stream_rows_def)
  show ?thesis
    unfolding results
    by (rule sorted_resultI) (use md so in \<open>simp_all add: out stream_rows_messages row.stable_sort_sorted\<close>)
qed

lemma sort_with_keys_chunkwise:
  assumes run: "rmap (sort_with_keys u arrange owned keys ir n md data) [0..<length data] = Inr results"
    and z: "si_zlice ir = None" and o: "is_row_ordered_by (cm_partitioning md) keys [] GlobalScope = Inr False"
    and c: "can_sort_chunkwise (get_ordering (from_keys (cm_partitioning md) (length data) (OrderKeys keys) True)
        (if cm_duplicated md then LocalLevel else Flat)) keys"
    and u: "sorts u" and same: "same_everywhere (cm_duplicated md) data" and d: "data \<noteq> []"
    and md: "metadata_true hash md (map (map snd) data)"
  shows "sorted_result hash keys (si_stable ir) (all_rows (cm_duplicated md) data) results"
proof -
  let ?d = "cm_duplicated md" and ?ev = "evaluate_sort u keys (si_stable ir) None"
  let ?level = "if ?d then LocalLevel else Flat"
  let ?in = "map (map snd) data" and ?out = "map (map (\<lambda>m. ?ev (snd m))) data"
  obtain kord where k: "get_ordering (from_keys (cm_partitioning md) (length data) (OrderKeys keys) True) ?level = Some kord"
    and ck: "can_sort_chunkwise (Some kord) keys"
    using c by (cases "get_ordering (from_keys (cm_partitioning md) (length data) (OrderKeys keys) True) ?level")
      (simp_all add: can_sort_chunkwise_def)
  obtain p os where p: "cm_partitioning md = Some p" "kord \<in> set os"
    and from_p: "pt_inter p = OrderScheme os \<and> pt_local p = Inherit \<and> ?level = Flat
      \<or> pt_local p = OrderScheme os \<and> (?level = LocalLevel \<or> length data = 1)"
    using get_ordering_from [OF k] by (cases ?d) auto
  have hp: "partitioning_holds hash p (logical ?d ?in)" "chunks_follow p (logical ?d ?in)"
    using md p by (simp_all add: metadata_true_def)
  define parts where "parts = concat (logical ?d ?in)"
  have one: "logical ?d ?in = [hd ?in]" if "?level = LocalLevel \<or> length data = 1"
  proof -
    obtain x xs where dx: "data = x # xs" using d by (cases data) auto
    then show ?thesis using that by (auto simp: logical_def split: if_splits)
  qed
  have kb: "bounds_ok kord \<and> parts_in_order kord parts"
  proof (cases "pt_inter p = OrderScheme os \<and> pt_local p = Inherit \<and> ?level = Flat")
    case True
    then show ?thesis using hp p(2) by (auto simp: partitioning_holds_def chunks_follow_def parts_def)
  next
    case False
    then have l: "pt_local p = OrderScheme os" "logical ?d ?in = [hd ?in]" using from_p one by blast+
    then show ?thesis using hp p(2) by (auto simp: partitioning_holds_def chunks_follow_def parts_def)
  qed
  obtain ro p' where g: "global_ordering keys = Inr ro" "replace_row_orderings p [ro] = Inr p'"
  proof -
    have "0 < length data" using d by simp
    then have "\<exists>y. sort_with_keys u arrange owned keys ir n md data 0 = Inr y"
      using run unfolding rmap_Inr_iff by (auto dest: list_all2_nthD [where p = 0])
    then show ?thesis using that z o c p(1) by (auto simp: sort_with_keys_def Let_def res_simps)
  qed
  have "sort_with_keys u arrange owned keys ir n md data rank =
      Inr (md\<lparr>cm_partitioning := Some p'\<rparr>, map (\<lambda>m. ?ev (snd m)) (data ! rank))" for rank
    using z o c p(1) g by (simp add: sort_with_keys_def Let_def)
  from results_eq [OF run this]
  have results: "results = map (\<lambda>i. (md\<lparr>cm_partitioning := Some p'\<rparr>, map (\<lambda>m. ?ev (snd m)) (data ! i))) [0..<length data]" .
  have out: "map (\<lambda>i. map (\<lambda>m. ?ev (snd m)) (data ! i)) [0..<length data] = ?out" by (rule map_nth_upt)
  have ev: "set (?ev rows) = set rows" "sorted_wrt (row_le keys) (?ev rows)" "mset (?ev rows) = mset rows" for rows
    using evaluate_sort_None [OF u, of keys "si_stable ir" rows] by (auto dest: mset_eq_setD)
  have sr: "list_all2 same_rows ?in ?out"
    by (simp add: list_all2_conv_all_nth same_rows_def ev)
  have parts': "concat (logical ?d ?out) = map ?ev parts"
    by (simp add: parts_def logical_def map_concat take_map comp_def)
  have so: "sorted_wrt (row_le keys) (concat (concat (logical ?d ?out)))"
    unfolding parts'
    by (rule chunkwise_sorted [OF ck, of parts]) (use kb in \<open>simp_all add: list_all2_conv_all_nth ev\<close>)
  have pn: "partitioning_or_none (pt_inter p) (pt_local p) [ro] = Some p'"
    using g(2) by (auto simp: replace_row_orderings_def res_simps)
  have true: "metadata_true hash (md\<lparr>cm_partitioning := Some p'\<rparr>) ?out"
    using chunkwise_metadata [OF hp logical_same [OF sr] _ pn] so global_ordering_Inr [OF g(1)]
    by (simp add: metadata_true_def row_ordering_global)
  have rows_d: "cm_duplicated (md\<lparr>cm_partitioning := Some p'\<rparr>) = ?d" by simp
  have "concat parts = all_rows ?d data"
    by (simp add: parts_def all_rows_def sources_def logical_def map_concat take_map concat_concat)
  moreover have "mset (concat (map ?ev parts)) = mset (concat parts)"
    by (induction parts) (simp_all add: ev)
  moreover have "concat (map ?ev parts) = stable_sort (row_le keys) (concat parts)" if "si_stable ir"
  proof -
    have "?ev = stable_sort (row_le keys)" using that by (simp add: evaluate_sort_def slice_rows_def fun_eq_iff)
    then show ?thesis
      using row.stable_sort_chunks [of keys parts] row.stable_sort_sorted [OF so [unfolded parts']] by simp
  qed
  ultimately show ?thesis
    unfolding results
    by (intro sorted_resultI, unfold out) (use true so in \<open>simp_all only: stream_rows_def parts' rows_d\<close>, simp_all)
qed

lemma sort_with_keys_global:
  assumes run: "rmap (sort_with_keys u arrange owned keys ir n md data) [0..<length data] = Inr results"
    and z: "si_zlice ir = None" and o: "is_row_ordered_by (cm_partitioning md) keys [] GlobalScope = Inr False"
    and c: "\<not> can_sort_chunkwise (get_ordering (from_keys (cm_partitioning md) (length data) (OrderKeys keys) True)
        (if cm_duplicated md then LocalLevel else Flat)) keys"
    and s: "sort_setting u arrange owned (cm_duplicated md) n data" and ids: "si_stable ir \<Longrightarrow> ids_fit data snd"
  shows "sorted_result hash keys (si_stable ir) (all_rows (cm_duplicated md) data) results"
proof -
  let ?d = "cm_duplicated md" and ?st = "si_stable ir"
  let ?ro = "\<lparr>ro_keys = keys, ro_scope = GlobalScope, ro_groups = []\<rparr>"
  let ?b = "rank_bounds u keys ?st ?d n data 0"
  define p where "p = \<lparr>pt_inter = build_order_scheme keys ?b, pt_local = Inherit, pt_rows = [?ro]\<rparr>"
  define md' where "md' = \<lparr>cm_count = max 1 (n div length data), cm_partitioning = Some p, cm_duplicated = False\<rparr>"
  let ?out = "global_output u arrange owned keys ?st ?d n data"
  have run_rank: "sort_with_keys u arrange owned keys ir n md data rank = global_sort u arrange owned keys ?st ?d n data rank" for rank
    using z o c by (simp add: sort_with_keys_def Let_def)
  have "global_ordering keys = Inr ?ro"
  proof -
    have "0 < length data" using s by (simp add: sort_setting_def)
    then have "\<exists>y. global_sort u arrange owned keys ?st ?d n data 0 = Inr y"
      using run unfolding rmap_Inr_iff run_rank by (auto dest: list_all2_nthD [where p = 0])
    then show ?thesis using global_ordering_Inr by (auto simp: global_sort_def Let_def res_simps)
  qed
  then have "sort_with_keys u arrange owned keys ir n md data rank =
      Inr (md', extract_partitions u arrange keys ?st (rank_pieces u keys ?st ?d n data) (owned rank))" if "rank < length data" for rank
    using rank_bounds_same [of ?d data rank u keys ?st n] that s
    by (simp add: run_rank global_sort_def Let_def md'_def p_def sort_setting_def rank_pieces_def
        rank_bounds_def [abs_def] buffer_all_def)
  from results_eq [OF run this]
  have results: "results = map (\<lambda>i. (md', extract_partitions u arrange keys ?st (rank_pieces u keys ?st ?d n data) (owned i))) [0..<length data]" .
  have out: "map (\<lambda>i. extract_partitions u arrange keys ?st (rank_pieces u keys ?st ?d n data) (owned i)) [0..<length data] = ?out"
    by (simp add: global_output_def)
  have rows: "stream_rows md' ?out = concat (concat ?out)" by (simp add: stream_rows_def logical_def md'_def)
  have "partitioning_holds hash p ?out" unfolding p_def by (rule global_metadata_holds [OF s])
  moreover have "chunks_follow p ?out"
    using global_chunks_in_order [OF s] by (simp add: chunks_follow_def p_def build_order_scheme_eq)
  ultimately have "metadata_true hash md' ?out" by (simp add: metadata_true_def md'_def logical_def)
  moreover have "?st \<longrightarrow> concat (concat ?out) = stable_sort (row_le keys) (all_rows ?d data)"
    using global_sort_stable [OF s ids, of keys] by (cases ?st) (simp_all add: all_rows_def)
  ultimately show ?thesis
    unfolding results
    by (intro sorted_resultI, unfold out rows) (use global_sort_sorted [OF s, of keys ?st] in \<open>simp_all add: all_rows_def\<close>)
qed

lemma sort_with_keys_correct:
  assumes "rmap (sort_with_keys u arrange owned keys ir n md data) [0..<length data] = Inr results"
    and "si_zlice ir = None"
    and "sort_setting u arrange owned (cm_duplicated md) n data"
    and "si_stable ir \<longrightarrow> ids_fit data snd"
    and "metadata_true hash md (map (map snd) data)"
  shows "sorted_result hash keys (si_stable ir) (all_rows (cm_duplicated md) data) results"
proof -
  have s: "sorts u" "same_everywhere (cm_duplicated md) data" "data \<noteq> []" using assms(3) by (simp_all add: sort_setting_def)
  have "0 < length data" using s by simp
  then have "\<exists>y. sort_with_keys u arrange owned keys ir n md data 0 = Inr y"
    using assms(1) unfolding rmap_Inr_iff by (auto dest: list_all2_nthD [where p = 0])
  then obtain b where o: "is_row_ordered_by (cm_partitioning md) keys [] GlobalScope = Inr b"
    using assms(2) by (auto simp: sort_with_keys_def Let_def res_simps)
  show ?thesis
  proof (cases b)
    case True
    then show ?thesis using sort_with_keys_passes [OF assms(1,2) _ assms(5)] o by simp
  next
    case False
    then have o': "is_row_ordered_by (cm_partitioning md) keys [] GlobalScope = Inr False" using o by simp
    show ?thesis
      using sort_with_keys_chunkwise [OF assms(1,2) o' _ s assms(5)] sort_with_keys_global [OF assms(1,2) o' _ assms(3)] assms(4)
      by blast
  qed
qed

text \<open>C4: the sort actor sorts.  For any number of ranks and partitions, any chunks and any metadata that
  is true of the input, the rows sent by the ranks, one after another, are the rows of the input
  (once, if the input is duplicated) in the order of the sort keys with their directions and null
  orders; a stable sort keeps equal rows in their order; all ranks announce the same metadata, and
  what it says of hash and order partitions, boundaries, strictness and row order is true of the
  output.  This holds of all three ways the actor may take: passing ordered rows through, sorting
  chunk by chunk, and the boundaries, splits and shuffle of the global sort.\<close>

theorem sort_actor_correct:
  assumes "rmap (sort_actor u arrange owned ir n md data) [0..<length data] = Inr results"
    and "sort_to_order_keys ir = Inr keys" and "si_zlice ir = None"
    and "sort_setting u arrange owned (cm_duplicated md) n data"
    and "si_stable ir \<longrightarrow> ids_fit data snd"
    and "metadata_true hash md (map (map snd) data)"
  shows "sorted_result hash keys (si_stable ir) (all_rows (cm_duplicated md) data) results"
  using sort_with_keys_correct [OF _ assms(3-6)] assms(1,2) by (simp add: sort_actor_def [abs_def])

text \<open>Two ranks, a stable descending sort of three chunks into two partitions.\<close>

definition demo_row :: "nat option \<Rightarrow> nat \<Rightarrow> nat option vrow" where
  "demo_row k v i = (if i = 0 then k else Some v)"

definition demo_data :: "nat option message list list" where
  "demo_data = [[(0, [demo_row (Some 1) 10, demo_row None 11]), (1, [demo_row (Some 3) 12])], [(0, [demo_row (Some 1) 13])]]"

definition demo_keys :: "okey list" where
  "demo_keys = [\<lparr>ko_index = 0, ko_order = Descending, ko_nulls = NullAfter\<rparr>]"

definition demo_sort :: "(int \<times> int option) option \<Rightarrow> sort_ir" where
  "demo_sort z = \<lparr>si_schema = [''k'', ''v''], si_by = [\<lparr>ne_name = ''k'', ne_value = Col ''k'' Int64Type\<rparr>],
     si_order = [Descending], si_null_order = [NullAfter], si_stable = True, si_zlice = z\<rparr>"

definition demo_metadata :: "nat option channel_metadata" where
  "demo_metadata = \<lparr>cm_count = 2, cm_partitioning = None, cm_duplicated = False\<rparr>"

lemma demo_setting:
  "sort_setting (\<lambda>keys. stable_sort (row_le keys)) (\<lambda>p. rev) (\<lambda>rank. [rank]) False 2 demo_data"
  by (simp add: sort_setting_def sorts_def delivers_def owns_def same_everywhere_def demo_data_def row.sorted_stable_sort
      numeral_2_eq_2)

definition demo_run :: "(int \<times> int option) option \<Rightarrow> (nat option channel_metadata \<times> nat option vrow list list) list res" where
  "demo_run z = rmap (sort_actor (\<lambda>keys. stable_sort (row_le keys)) (\<lambda>p. rev) (\<lambda>rank. [rank]) (demo_sort z) 2
      demo_metadata demo_data) [0..<length demo_data]"

lemma demo_keys: "sort_to_order_keys (demo_sort z) = Inr demo_keys"
  by (simp add: sort_to_order_keys_def sort_by_column_names_def demo_sort_def demo_keys_def names_to_indices_def name_index_def)

lemma demo_facts: "length demo_data = 2" "si_stable (demo_sort z)" "cm_duplicated demo_metadata = False" "si_zlice (demo_sort z) = z"
  by (simp_all add: demo_data_def demo_sort_def demo_metadata_def)

lemma sort_actor_correct_witness:
  "\<exists>results. demo_run None = Inr results \<and> sorted_result (\<lambda>_. 0) demo_keys True (all_rows False demo_data) results"
proof -
  have "\<exists>results. demo_run None = Inr results"
    by (simp add: demo_run_def sort_actor_def [abs_def] demo_keys) (simp add: demo_data_def demo_keys_def demo_sort_def demo_metadata_def
        sort_with_keys_def is_row_ordered_by_def from_keys_def normalize_schemes_def get_ordering_def can_sort_chunkwise_def
        global_sort_def global_ordering_def new_row_ordering_def Let_def upt_rec)
  then obtain results where r: "demo_run None = Inr results" by blast
  have "sorted_result (\<lambda>_. 0) demo_keys (si_stable (demo_sort None)) (all_rows (cm_duplicated demo_metadata) demo_data) results"
    by (rule sort_actor_correct [OF r [unfolded demo_run_def] demo_keys])
      (use demo_setting in \<open>simp_all add: demo_sort_def demo_metadata_def metadata_true_def ids_fit_def demo_data_def\<close>)
  then show ?thesis using r by (simp add: demo_facts)
qed

section \<open>The actor on a head or tail\<close>

lemma mset_slice_rows: "mset (slice_rows z xs) \<subseteq># mset xs"
proof -
  have "mset (take a (drop b xs)) \<subseteq># mset xs" for a b
  proof -
    have "mset (drop b xs) \<subseteq># mset xs"
      using arg_cong [OF append_take_drop_id [of b xs], of mset] by (metis mset_append mset_subset_eq_add_right)
    moreover have "mset (take a (drop b xs)) \<subseteq># mset (drop b xs)"
      using arg_cong [OF append_take_drop_id [of a "drop b xs"], of mset] by (metis mset_append mset_subset_eq_add_left)
    ultimately show ?thesis by (rule subset_mset.order_trans [rotated])
  qed
  then show ?thesis by (auto simp: slice_rows_def split: option.splits prod.splits)
qed

lemma mset_evaluate_sort: "sorts u \<Longrightarrow> mset (evaluate_sort u keys st z rows) \<subseteq># mset rows"
  using mset_slice_rows [of z "if st then stable_sort (row_le keys) rows else u keys rows"]
  by (cases st) (simp_all add: evaluate_sort_def sorts_eqs)

lemma mset_concat_mono: "(\<And>x. mset (f x) \<subseteq># mset (g x)) \<Longrightarrow> mset (concat (map f xs)) \<subseteq># mset (concat (map g xs))"
  by (induction xs) (simp_all add: subset_mset.add_mono)

lemma top_k_rows:
  assumes u: "sorts u" and "same_everywhere duplicated data" and "rank < length data"
  shows "mset (simple_top_or_bottom_k u keys st z duplicated data rank) \<subseteq># mset (all_rows duplicated data)"
proof -
  note e = mset_evaluate_sort [OF u]
  have inner: "mset (concat (map (evaluate_sort u keys st z) xs)) \<subseteq># mset (concat xs)" for xs
    using mset_concat_mono [of "evaluate_sort u keys st z" "\<lambda>x. x" xs] e by simp
  have outer: "mset (concat (map (\<lambda>xs. evaluate_sort u keys st z (concat (map (evaluate_sort u keys st z) xs))) xss))
      \<subseteq># mset (concat (concat xss))" for xss
    unfolding concat_concat by (rule mset_concat_mono) (rule subset_mset.order_trans [OF e inner])
  show ?thesis
  proof -
    obtain xss where "simple_top_or_bottom_k u keys st z duplicated data rank =
        evaluate_sort u keys st z (concat (map (\<lambda>xs. evaluate_sort u keys st z (concat (map (evaluate_sort u keys st z) xs))) xss))
      \<or> simple_top_or_bottom_k u keys st z duplicated data rank =
        evaluate_sort u keys st z (concat (map (evaluate_sort u keys st z) (concat xss)))"
      and c: "concat (concat xss) = all_rows duplicated data"
      using top_k_eq [OF assms, of keys st z] by blast
    then show ?thesis
      using subset_mset.order_trans [OF e outer, of keys st z xss] subset_mset.order_trans [OF e inner, of keys st z "concat xss"]
      by (auto simp: c)
  qed
qed

lemma sort_with_keys_top_k:
  assumes "rmap (sort_with_keys u arrange owned keys ir n md data) [0..<length data] = Inr results"
    and "si_zlice ir = Some z" and "slice_given (Some z)"
    and u: "sorts u" and same: "same_everywhere (cm_duplicated md) data" and "data \<noteq> []"
  shows "\<exists>md' rows. results = replicate (length data) (md', [rows]) \<and> metadata_true hash md' (map snd results)
    \<and> mset rows \<subseteq># mset (all_rows (cm_duplicated md) data)
    \<and> map (key_values keys) rows =
        slice_rows (Some z) (map (key_values keys) (stable_sort (row_le keys) (all_rows (cm_duplicated md) data)))
    \<and> (si_stable ir \<longrightarrow> rows = slice_rows (Some z) (stable_sort (row_le keys) (all_rows (cm_duplicated md) data)))"
proof -
  let ?k = "simple_top_or_bottom_k u keys (si_stable ir) (Some z) (cm_duplicated md) data"
  let ?all = "all_rows (cm_duplicated md) data"
  have d: "0 < length data" using assms(6) by simp
  then have "\<exists>y. sort_with_keys u arrange owned keys ir n md data 0 = Inr y"
    using assms(1) unfolding rmap_Inr_iff by (auto dest: list_all2_nthD [where p = 0])
  then obtain ro where simple: "has_simple_zlice (Some z)" and ro: "global_ordering keys = Inr ro"
    using assms(2) by (auto simp: sort_with_keys_def Let_def res_simps split: if_splits)
  define md' :: "'a option channel_metadata" where
    "md' = \<lparr>cm_count = 1, cm_partitioning = Some (no_partitioning\<lparr>pt_rows := [ro]\<rparr>), cm_duplicated = True\<rparr>"
  have eq: "?k rank = ?k 0" if "rank < length data" for rank
  proof -
    have "data ! rank = data ! 0" if "\<not> (length data > 1 \<and> \<not> cm_duplicated md)"
    proof (cases "cm_duplicated md")
      case True
      then show ?thesis using same \<open>rank < length data\<close> by (simp add: same_everywhere_def)
    next
      case False
      then have "rank = 0" using that \<open>rank < length data\<close> by simp
      then show ?thesis by simp
    qed
    then show ?thesis by (auto simp: simple_top_or_bottom_k_def Let_def)
  qed
  have "sort_with_keys u arrange owned keys ir n md data rank = Inr (md', [?k 0])" if "rank < length data" for rank
    using assms(2) simple ro eq [OF that] by (simp add: sort_with_keys_def Let_def md'_def)
  from results_eq [OF assms(1) this]
  have results: "results = replicate (length data) (md', [?k 0])" by (simp add: map_replicate_const)
  have keys: "map (key_values keys) (?k 0) = slice_rows (Some z) (map (key_values keys) (stable_sort (row_le keys) ?all))"
    by (rule top_k_keys [OF u same d simple assms(3)])
  have "sorted_wrt (row_le keys) (?k 0)"
  proof -
    have "sorted_wrt (tuple_le value_lt (flags keys)) (map (key_values keys) (stable_sort (row_le keys) ?all))"
      using row.sorted_stable_sort [of keys ?all]
      by (auto simp: sorted_wrt_map row_le_iff elim!: sorted_wrt_mono_rel [rotated])
    then have "sorted_wrt (tuple_le value_lt (flags keys)) (map (key_values keys) (?k 0))"
      unfolding keys by (auto simp: slice_rows_def sorted_wrt_take sorted_wrt_drop split: prod.splits)
    then show ?thesis by (auto simp: sorted_wrt_map row_le_iff elim!: sorted_wrt_mono_rel [rotated])
  qed
  then have "metadata_true hash md' (map snd results)"
    using d global_ordering_Inr [OF ro] unfolding results
    by (cases "length data") (simp_all add: metadata_true_def md'_def logical_def partitioning_holds_def no_partitioning_def
        chunks_follow_def row_ordering_global)
  moreover have "si_stable ir \<longrightarrow> ?k 0 = slice_rows (Some z) (stable_sort (row_le keys) ?all)"
    using top_k_stable [OF u same d simple assms(3), of keys] by (cases "si_stable ir") simp_all
  ultimately show ?thesis using results keys top_k_rows [OF u same d] by blast
qed

text \<open>C5: a small head or tail of a sort (\<open>ORDER BY \<dots> LIMIT k\<close>) is what slicing the whole sorted input
  gives, although every chunk and every rank is cut to the slice before its rows are combined: the
  rows are rows of the input, their keys are the keys of the slice, a stable sort gives the very rows
  of the slice, and every rank sends the same chunk with metadata that is true of it.  (A slice
  that counts from the end gives a length.)\<close>

theorem sort_actor_top_k:
  assumes "rmap (sort_actor u arrange owned ir n md data) [0..<length data] = Inr results"
    and "sort_to_order_keys ir = Inr keys" and "si_zlice ir = Some z" and "slice_given (Some z)"
    and "sorts u" and "same_everywhere (cm_duplicated md) data" and "data \<noteq> []"
  shows "\<exists>md' rows. results = replicate (length data) (md', [rows]) \<and> metadata_true hash md' (map snd results)
    \<and> mset rows \<subseteq># mset (all_rows (cm_duplicated md) data)
    \<and> map (key_values keys) rows =
        slice_rows (Some z) (map (key_values keys) (stable_sort (row_le keys) (all_rows (cm_duplicated md) data)))
    \<and> (si_stable ir \<longrightarrow> rows = slice_rows (Some z) (stable_sort (row_le keys) (all_rows (cm_duplicated md) data)))"
  using sort_with_keys_top_k [OF _ assms(3-7)] assms(1,2) by (simp add: sort_actor_def [abs_def])

lemma sort_actor_top_k_witness:
  "\<exists>results. demo_run (Some (-2, Some 2)) = Inr results
    \<and> map (\<lambda>x. map (map (\<lambda>r. r 1)) (snd x)) results = [[[Some 10, Some 13]], [[Some 10, Some 13]]]"
proof -
  let ?run = "demo_run (Some (-2, Some 2))"
  have "\<exists>results. ?run = Inr results"
    by (simp add: demo_run_def sort_actor_def [abs_def] demo_keys)
      (simp add: demo_data_def demo_keys_def demo_sort_def demo_metadata_def sort_with_keys_def has_simple_zlice_def
        global_ordering_def new_row_ordering_def Let_def upt_rec)
  then obtain results where r: "?run = Inr results" by blast
  have s: "sorts (\<lambda>keys. stable_sort (row_le keys) :: nat option vrow list \<Rightarrow> _)" using demo_setting by (simp add: sort_setting_def)
  have "\<exists>md' rows. results = replicate (length demo_data) (md', [rows]) \<and> metadata_true (\<lambda>_. 0) md' (map snd results)
    \<and> mset rows \<subseteq># mset (all_rows (cm_duplicated demo_metadata) demo_data)
    \<and> map (key_values demo_keys) rows = slice_rows (Some (-2, Some 2)) (map (key_values demo_keys)
        (stable_sort (row_le demo_keys) (all_rows (cm_duplicated demo_metadata) demo_data)))
    \<and> (si_stable (demo_sort (Some (-2, Some 2))) \<longrightarrow> rows = slice_rows (Some (-2, Some 2))
        (stable_sort (row_le demo_keys) (all_rows (cm_duplicated demo_metadata) demo_data)))"
    by (rule sort_actor_top_k [OF r [unfolded demo_run_def] demo_keys _ _ s])
      (simp_all add: demo_sort_def slice_given_def same_everywhere_def demo_metadata_def demo_data_def)
  then obtain md' rows where results: "results = replicate 2 (md', [rows])"
    and rows: "rows = slice_rows (Some (-2, Some 2)) (stable_sort (row_le demo_keys) (all_rows False demo_data))"
    by (auto simp only: demo_facts simp_thms)
  have "map (\<lambda>r. r 1) (slice_rows (Some (-2, Some 2)) (stable_sort (row_le demo_keys) (all_rows False demo_data))) = [Some 10, Some 13]"
    by (simp add: all_rows_def sources_def demo_data_def demo_keys_def demo_row_def row_le_def keys_le_def flags_def key_values_def
        value_lt_def nulls_at_start_def slice_rows_def polars_slice_def)
  then have "map (\<lambda>x. map (map (\<lambda>r. r 1)) (snd x)) results = [[[Some 10, Some 13]], [[Some 10, Some 13]]]"
    unfolding rows [symmetric] by (simp add: results numeral_2_eq_2)
  then show ?thesis by (intro exI [of _ results] conjI r)
qed

end
