(* ===== verification/TruncateModel.thy ===== *)
theory TruncateModel
  imports Prelude "HOL-Library.Word" "HOL-Library.Signed_Division"
begin

text \<open>
  \<open>dt.truncate\<close> of cudf-polars (\<open>cudf_polars/dsl/expressions/datetime.py\<close>): the duration strings,
  the plans and their evaluation.  Timestamps are 64-bit ticks; the operators of the libcudf
  expressions are written out on 64-bit words, with C's remainder and division, so overflow is
  visible.  The calendar functions of libcudf follow the proleptic Gregorian calendar, which the
  theory defines by month starts.
\<close>

section \<open>Constants\<close>

definition ns_per_unit :: "string \<Rightarrow> int" where
  "ns_per_unit u =
     (if u = ''ns'' then 1 else if u = ''us'' then 1000 else if u = ''ms'' then 1000000
      else if u = ''s'' then 1000000000 else if u = ''m'' then 60000000000
      else if u = ''h'' then 3600000000000 else 86400000000000)"

definition ns_per_day :: int where "ns_per_day = 86400000000000"

definition ms_per_day :: int where "ms_per_day = 86400000"

definition max_truncate_ticks :: int where "max_truncate_ticks = 2 ^ 62"

definition max_truncate_months :: int where "max_truncate_months = 2 ^ 40"

definition days_per_400_years :: int where "days_per_400_years = 146097"

definition months_per_400_years :: int where "months_per_400_years = 4800"

text \<open>The durations \<open>floor_datetimes\<close> supports, and whether they are taken to be counted in 32 bits.\<close>

definition rounding_frequencies :: "(int \<times> bool) list" where
  "rounding_frequencies =
     [(86400000000000, True), (3600000000000, True), (60000000000, True), (1000000000, False),
      (1000000, False), (1000, False), (1, False)]"

section \<open>Duration strings\<close>

definition duration_units :: "string list" where
  "duration_units = [''ns'', ''us'', ''ms'', ''mo'', ''s'', ''m'', ''h'', ''d'', ''w'', ''q'', ''y'']"

definition is_digit :: "char \<Rightarrow> bool" where
  "is_digit c \<longleftrightarrow> c \<in> set ''0123456789''"

definition digit_value :: "char \<Rightarrow> nat" where
  "digit_value c = length (takeWhile (\<lambda>d. d \<noteq> c) ''0123456789'')"

definition number :: "string \<Rightarrow> nat" where
  "number ds = foldl (\<lambda>n c. 10 * n + digit_value c) 0 ds"

fun strip_prefix :: "string \<Rightarrow> string \<Rightarrow> string option" where
  "strip_prefix [] s = Some s"
| "strip_prefix (c # cs) (d # ds) = (if c = d then strip_prefix cs ds else None)"
| "strip_prefix (c # cs) [] = None"

fun match_unit :: "string list \<Rightarrow> string \<Rightarrow> (string \<times> string) option" where
  "match_unit [] s = None"
| "match_unit (u # us) s = (case strip_prefix u s of Some rest \<Rightarrow> Some (u, rest) | None \<Rightarrow> match_unit us s)"

lemma strip_prefix_length: "strip_prefix u s = Some rest \<Longrightarrow> s = u @ rest"
  by (induction u s rule: strip_prefix.induct) (auto split: if_splits)

lemma match_unit_eq: "match_unit us s = Some (u, rest) \<Longrightarrow> s = u @ rest \<and> u \<in> set us"
  by (induction us) (auto split: option.splits dest: strip_prefix_length)

text \<open>The tokens of a string that the pattern matches in full: digits, then the first unit that
  fits.  No unit is followed by a letter in such a string, so the first unit that fits is the
  only one.\<close>

function duration_tokens :: "string \<Rightarrow> (nat \<times> string) list option" where
  "duration_tokens s =
     (if s = [] then Some []
      else
        (let ds = takeWhile is_digit s
         in if ds = [] then None
            else case match_unit duration_units (dropWhile is_digit s) of
                None \<Rightarrow> None
              | Some (u, rest) \<Rightarrow> map_option ((#) (number ds, u)) (duration_tokens rest)))"
  by pat_completeness auto

termination
proof (relation "measure length", goal_cases)
  case (2 s ds x u rest)
  have "length (dropWhile is_digit s) < length s"
    using 2(1,2,3) by (cases s) (auto simp: length_dropWhile_le less_Suc_eq_le split: if_splits)
  moreover have "length rest \<le> length (dropWhile is_digit s)"
    using match_unit_eq [of duration_units "dropWhile is_digit s" u rest] 2(4,5) by auto
  ultimately show ?case by simp
qed simp

declare duration_tokens.simps [simp del]

definition add_token :: "int \<times> int \<times> int \<times> int \<Rightarrow> nat \<times> string \<Rightarrow> int \<times> int \<times> int \<times> int" where
  "add_token d t =
     (case (d, t) of ((months, weeks, days, nanoseconds), (n, u)) \<Rightarrow>
       if u = ''mo'' then (months + int n, weeks, days, nanoseconds)
       else if u = ''q'' then (months + int n * 3, weeks, days, nanoseconds)
       else if u = ''y'' then (months + int n * 12, weeks, days, nanoseconds)
       else if u = ''w'' then (months, weeks + int n, days, nanoseconds)
       else if u = ''d'' then (months, weeks, days + int n, nanoseconds)
       else (months, weeks, days, nanoseconds + int n * ns_per_unit u))"

definition parse_duration_string :: "string \<Rightarrow> (int \<times> int \<times> int \<times> int) option" where
  "parse_duration_string every =
     (if every = [] then None else map_option (foldl add_token (0, 0, 0, 0)) (duration_tokens every))"

section \<open>Plans\<close>

definition find_frequency :: "int \<Rightarrow> (int \<times> bool) option" where
  "find_frequency every_ns = find (\<lambda>f. fst f = every_ns) rounding_frequencies"

text \<open>A frequency is named by its nanoseconds.\<close>

definition round_frequency :: "string \<Rightarrow> int option" where
  "round_frequency every =
     (case parse_duration_string every of
        None \<Rightarrow> None
      | Some (months, weeks, days, nanoseconds) \<Rightarrow>
          (if months > 0 \<or> weeks > 0 then None
           else map_option fst (find_frequency (days * ns_per_day + nanoseconds))))"

definition floor_datetimes_frequency :: "int \<Rightarrow> int \<Rightarrow> int option" where
  "floor_datetimes_frequency tick every_ns =
     (case find_frequency every_ns of
        None \<Rightarrow> None
      | Some (frequency_ns, count_is_int32) \<Rightarrow>
          (if count_is_int32 \<and> 2 ^ 63 div (frequency_ns div tick) \<ge> 2 ^ 31 then None else Some frequency_ns))"

datatype truncate_plan =
    Identity
  | FloorDatetimes int
  | Fixed int int bool
  | Weekly int int bool
  | Monthly int int bool

datatype temporal_type = DateType | DatetimeType int bool | OtherTemporal

text \<open>\<open>DatetimeType\<close>: the nanoseconds of a tick, and whether the time zone is none or UTC.\<close>

definition plan_unit_truncate :: "int \<Rightarrow> int \<Rightarrow> int \<Rightarrow> int \<Rightarrow> int \<Rightarrow> bool \<Rightarrow> truncate_plan res" where
  "plan_unit_truncate months weeks days nanoseconds tick on_date =
     (if of_bool (months > 0) + of_bool (weeks > 0) + of_bool (days > 0) + of_bool (nanoseconds > 0) \<noteq> (1 :: int)
      then Inl NotImplementedError
      else
        (let day = ns_per_day div tick
         in if months > 0
            then (if months > max_truncate_months then Inl NotImplementedError else Inr (Monthly months day on_date))
            else if weeks > 0
            then (if 7 * weeks * day > max_truncate_ticks then Inl NotImplementedError
                  else Inr (Weekly (7 * weeks * day) day on_date))
            else
              (let every_ticks = days * day + nanoseconds div tick
               in if every_ticks \<le> 1 then Inr Identity
                  else if every_ticks > max_truncate_ticks then Inl NotImplementedError
                  else Inr (Fixed every_ticks day on_date))))"

definition plan_truncate :: "temporal_type \<Rightarrow> string \<Rightarrow> truncate_plan res" where
  "plan_truncate dtype every =
     (case parse_duration_string every of
        None \<Rightarrow> Inl NotImplementedError
      | Some (months, weeks, days, nanoseconds) \<Rightarrow>
          (case dtype of
             DateType \<Rightarrow> plan_unit_truncate months weeks days nanoseconds 1000000 True
           | OtherTemporal \<Rightarrow> Inl NotImplementedError
           | DatetimeType tick utc \<Rightarrow>
               (if \<not> utc then Inl NotImplementedError
                else if months > 0 \<or> weeks > 0 then plan_unit_truncate months weeks days nanoseconds tick False
                else
                  (let every_ticks = days * (ns_per_day div tick) + nanoseconds div tick
                   in if every_ticks \<le> 1 then Inr Identity
                      else
                        (case floor_datetimes_frequency tick (days * ns_per_day + nanoseconds) of
                           Some f \<Rightarrow> Inr (FloorDatetimes f)
                         | None \<Rightarrow>
                             (if every_ticks > max_truncate_ticks then Inl NotImplementedError
                              else Inr (Fixed every_ticks 0 False)))))))"

section \<open>Device arithmetic\<close>

type_synonym i64 = "64 word"

definition i64_rem :: "i64 \<Rightarrow> i64 \<Rightarrow> i64" where
  "i64_rem a b = word_of_int (sint a smod sint b)"

definition i64_div :: "i64 \<Rightarrow> i64 \<Rightarrow> i64" where
  "i64_div a b = word_of_int (sint a sdiv sint b)"

definition i64_floor_div :: "i64 \<Rightarrow> i64 \<Rightarrow> i64" where
  "i64_floor_div a b = word_of_int (sint a div sint b)"

text \<open>libcudf's \<open>pymod\<close>: \<open>(a % b + b) % b\<close>.\<close>

definition pymod :: "i64 \<Rightarrow> i64 \<Rightarrow> i64" where
  "pymod a b = i64_rem (i64_rem a b + b) b"

definition floor_ticks :: "i64 \<Rightarrow> int \<Rightarrow> i64" where
  "floor_ticks ticks every = ticks - pymod ticks (word_of_int every)"

text \<open>\<open>floor_datetimes\<close> counts the units since the epoch, rounding down, and converts back.\<close>

definition floor_datetimes :: "int \<Rightarrow> int \<Rightarrow> i64 \<Rightarrow> i64" where
  "floor_datetimes tick frequency t =
     (if frequency \<le> tick then t
      else word_of_int (sint t div (frequency div tick)) * word_of_int (frequency div tick))"

section \<open>The Gregorian calendar\<close>

definition days_before_year :: "int \<Rightarrow> int" where
  "days_before_year y = 365 * (y - 1) + (y - 1) div 4 - (y - 1) div 100 + (y - 1) div 400 - 719162"

definition leap_year :: "int \<Rightarrow> bool" where
  "leap_year y \<longleftrightarrow> y mod 4 = 0 \<and> (y mod 100 \<noteq> 0 \<or> y mod 400 = 0)"

definition month_lengths :: "bool \<Rightarrow> int list" where
  "month_lengths leap = [31, if leap then 29 else 28, 31, 30, 31, 30, 31, 31, 30, 31, 30, 31]"

definition days_before_month :: "bool \<Rightarrow> nat \<Rightarrow> int" where
  "days_before_month leap m = sum_list (take m (month_lengths leap))"

text \<open>The day the k-th month since January 1970 starts on, counted from 1 January 1970.\<close>

definition month_start :: "int \<Rightarrow> int" where
  "month_start k =
     days_before_year (1970 + k div 12) + days_before_month (leap_year (1970 + k div 12)) (nat (k mod 12))"

definition year_of_day :: "int \<Rightarrow> int" where
  "year_of_day d =
     (let n = d + 719162;
          a = n div 146097; r = n mod 146097;
          b = min 3 (r div 36524); r = r - 36524 * b;
          c = r div 1461; r = r mod 1461;
          e = min 3 (r div 365)
      in 400 * a + 100 * b + 4 * c + e + 1)"

definition month_of_day :: "int \<Rightarrow> nat" where
  "month_of_day d =
     (let y = year_of_day d
      in length (filter (\<lambda>m. days_before_month (leap_year y) m \<le> d - days_before_year y) [1..<12]))"

text \<open>The components libcudf extracts from a timestamp of \<open>day\<close> ticks a day: 32-bit days, 16-bit
  results.\<close>

definition day_number :: "int \<Rightarrow> i64 \<Rightarrow> int" where
  "day_number day t = signed_take_bit 31 (sint t div day)"

definition extract_year :: "int \<Rightarrow> i64 \<Rightarrow> i64" where
  "extract_year day t = word_of_int (signed_take_bit 15 (year_of_day (day_number day t)))"

definition extract_month :: "int \<Rightarrow> i64 \<Rightarrow> i64" where
  "extract_month day t = word_of_int (int (month_of_day (day_number day t)) + 1)"

section \<open>Evaluation\<close>

text \<open>\<open>_month_start_days\<close>; adding m calendar months to the epoch gives the m-th month start, in
  32 bits.\<close>

definition month_start_days :: "i64 \<Rightarrow> int \<Rightarrow> int \<Rightarrow> i64" where
  "month_start_days ticks months day =
     (let cycle = days_per_400_years * day;
          cycles = (if cycle < 2 ^ 63 then i64_floor_div ticks (word_of_int cycle) else 0);
          within_cycle = (if cycle < 2 ^ 63 then ticks - cycles * word_of_int cycle else ticks);
          year = extract_year day within_cycle;
          month = extract_month day within_cycle;
          months_since_epoch = (year - 1970 + cycles * 400) * 12 + (month - 1);
          floored = months_since_epoch - pymod months_since_epoch (word_of_int months);
          cycles = i64_floor_div floored (word_of_int months_per_400_years);
          month_in_cycle = signed_take_bit 31 (sint (floored - cycles * word_of_int months_per_400_years));
          days_in_cycle = word_of_int (signed_take_bit 31 (month_start month_in_cycle))
      in days_in_cycle + cycles * word_of_int days_per_400_years)"

text \<open>A \<open>Date\<close> column holds 32-bit days: they are cast to milliseconds, truncated, divided by a day
  rounding toward zero, and cut to 32 bits.\<close>

definition on_date_column :: "bool \<Rightarrow> (i64 \<Rightarrow> i64) \<Rightarrow> int \<Rightarrow> int" where
  "on_date_column on_date f v =
     (if on_date
      then signed_take_bit 31 (sint (i64_div (f (word_of_int (v * ms_per_day))) (word_of_int ms_per_day)))
      else sint (f (word_of_int v)))"

fun truncate_value :: "int \<Rightarrow> truncate_plan \<Rightarrow> int \<Rightarrow> int" where
  "truncate_value tick Identity v = v"
| "truncate_value tick (FloorDatetimes frequency) v = sint (floor_datetimes tick frequency (word_of_int v))"
| "truncate_value tick (Fixed every day on_date) v = on_date_column on_date (\<lambda>t. floor_ticks t every) v"
| "truncate_value tick (Weekly every day on_date) v =
     on_date_column on_date (\<lambda>t. t - pymod (t - word_of_int (4 * day)) (word_of_int every)) v"
| "truncate_value tick (Monthly months day on_date) v =
     on_date_column on_date (\<lambda>t. month_start_days t months day * word_of_int day) v"

definition truncate_column :: "int \<Rightarrow> truncate_plan \<Rightarrow> int option list \<Rightarrow> int option list" where
  "truncate_column tick plan column = map (map_option (truncate_value tick plan)) column"

section \<open>Calendar facts\<close>

lemma leap_year_plus: "leap_year (y + 400 * c) = leap_year y"
  using mod_mult_self2 [of y 4 "100 * c"] mod_mult_self2 [of y 100 "4 * c"] mod_mult_self2 [of y 400 c]
  by (simp add: leap_year_def)

lemma days_before_year_plus: "days_before_year (y + 400 * c) = days_before_year y + 146097 * c"
proof -
  have "(y - 1 + 400 * c) div 4 = 100 * c + (y - 1) div 4" "(y - 1 + 400 * c) div 100 = 4 * c + (y - 1) div 100"
    "(y - 1 + 400 * c) div 400 = c + (y - 1) div 400"
    using div_mult_self2 [of 4 "y - 1" "100 * c"] div_mult_self2 [of 100 "y - 1" "4 * c"]
      div_mult_self2 [of 400 "y - 1" c] by simp_all
  then show ?thesis by (simp add: days_before_year_def algebra_simps)
qed

lemma div_step:
  assumes "0 < (n :: int)"
  shows "y div n = (y - 1) div n + (if y mod n = 0 then 1 else 0)"
proof (cases "y mod n = 0")
  case True
  then have y: "y = n * (y div n)" using mult_div_mod_eq [of n y] by simp
  have "y - 1 = n * (y div n - 1) + (n - 1)" by (subst y) (simp add: algebra_simps)
  from int_div_pos_eq [OF this] have "(y - 1) div n = y div n - 1" using assms by simp
  then show ?thesis using True by simp
next
  case False
  have m: "0 \<le> y mod n" "y mod n < n" using assms by simp_all
  have "y - 1 = n * (y div n) + (y mod n - 1)" using mult_div_mod_eq [of n y] by simp
  from int_div_pos_eq [OF this] have "(y - 1) div n = y div n" using m False by simp
  then show ?thesis using False by simp
qed

lemma days_before_year_Suc: "days_before_year (y + 1) = days_before_year y + (if leap_year y then 366 else 365)"
proof -
  have b: "y mod 400 = 0 \<Longrightarrow> y mod 100 = 0" "y mod 100 = 0 \<Longrightarrow> y mod 4 = 0"
    using dvd_trans [of 100 400 y] dvd_trans [of 4 100 y] by (simp_all add: mod_eq_0_iff_dvd)
  define p q r where "p = (y - 1) div 4" and "q = (y - 1) div 100" and "r = (y - 1) div 400"
  define u v w :: int where "u = (if y mod 4 = 0 then 1 else 0)" and "v = (if y mod 100 = 0 then 1 else 0)"
    and "w = (if y mod 400 = 0 then 1 else 0)"
  have d: "y div 4 = p + u" "y div 100 = q + v" "y div 400 = r + w"
    unfolding p_def q_def r_def u_def v_def w_def by (rule div_step, simp)+
  have "days_before_year y = 365 * (y - 1) + p - q + r - 719162"
    by (simp add: days_before_year_def p_def q_def r_def)
  moreover have "days_before_year (y + 1) = 365 * y + (p + u) - (q + v) + (r + w) - 719162"
    unfolding days_before_year_def add_diff_cancel_right' d ..
  ultimately have "days_before_year (y + 1) = days_before_year y + 365 + u - v + w" by simp
  moreover define A B C where "A \<longleftrightarrow> y mod 4 = 0" and "B \<longleftrightarrow> y mod 100 = 0" and "C \<longleftrightarrow> y mod 400 = 0"
  moreover have "leap_year y \<longleftrightarrow> A \<and> (\<not> B \<or> C)" by (simp add: leap_year_def A_def B_def C_def)
  moreover have "C \<longrightarrow> B" "B \<longrightarrow> A" unfolding A_def B_def C_def using b by blast+
  moreover have "u = (if A then 1 else 0)" "v = (if B then 1 else 0)" "w = (if C then 1 else 0)"
    by (simp_all only: u_def v_def w_def A_def B_def C_def)
  ultimately show ?thesis by (cases A; cases B; cases C) simp_all
qed

text \<open>A year number from its quotients.\<close>

lemma days_before_parts:
  assumes "0 \<le> b" "b \<le> 3" "0 \<le> c" "c \<le> 24" "0 \<le> e" "e \<le> (3 :: int)"
  shows "days_before_year (400 * a + 100 * b + 4 * c + e + 1) = 146097 * a + 36524 * b + 1461 * c + 365 * e - 719162"
proof -
  have "(400 * a + 100 * b + 4 * c + e) div 4 = 100 * a + 25 * b + c"
    "(400 * a + 100 * b + 4 * c + e) div 100 = 4 * a + b" "(400 * a + 100 * b + 4 * c + e) div 400 = a"
    using assms by linarith+
  then show ?thesis by (simp add: days_before_year_def)
qed

lemma year_of_day: "days_before_year (year_of_day d) \<le> d \<and> d < days_before_year (year_of_day d + 1)"
proof -
  define a where "a = (d + 719162) div 146097"
  define r where "r = (d + 719162) mod 146097"
  define b where "b = min 3 (r div 36524)"
  define r2 where "r2 = r - 36524 * b"
  define c where "c = r2 div 1461"
  define r3 where "r3 = r2 mod 1461"
  define e where "e = min 3 (r3 div 365)"
  have d: "d = 146097 * a + r - 719162" "0 \<le> r" "r < 146097" by (simp_all add: a_def r_def)
  have b: "0 \<le> b" "b \<le> 3" "0 \<le> r2" "b < 3 \<Longrightarrow> r2 < 36524" "r2 \<le> 36524"
    using d(2,3) by (auto simp: b_def r2_def min_def)
  have c: "0 \<le> c" "c \<le> 24" "r2 = 1461 * c + r3" "0 \<le> r3" "r3 < 1461"
    using b by (simp_all add: c_def r3_def)
  have e: "0 \<le> e" "e \<le> 3" "365 * e \<le> r3" "e < 3 \<Longrightarrow> r3 < 365 * (e + 1)"
    using c(4,5) by (auto simp: e_def min_def)
  have y: "year_of_day d = 400 * a + 100 * b + 4 * c + e + 1"
    by (simp add: year_of_day_def Let_def a_def b_def c_def e_def r_def r2_def r3_def)
  have lo: "days_before_year (year_of_day d) = 146097 * a + 36524 * b + 1461 * c + 365 * e - 719162"
    using days_before_parts [of b c e a] b c e by (simp add: y)
  have "146097 * a + r < days_before_year (year_of_day d + 1) + 719162"
  proof (cases "e < 3")
    case True
    have "year_of_day d + 1 = 400 * a + 100 * b + 4 * c + (e + 1) + 1" by (simp add: y)
    then show ?thesis
      using days_before_parts [of b c "e + 1" a] True b c e by (simp add: r2_def)
  next
    case e3: False
    show ?thesis
    proof (cases "c < 24")
      case True
      have "year_of_day d + 1 = 400 * a + 100 * b + 4 * (c + 1) + 0 + 1" using e3 e by (simp add: y)
      then show ?thesis using days_before_parts [of b "c + 1" 0 a] True b c by (simp add: r2_def)
    next
      case c24: False
      show ?thesis
      proof (cases "b < 3")
        case True
        have "year_of_day d + 1 = 400 * a + 100 * (b + 1) + 4 * 0 + 0 + 1" using e3 e c24 c by (simp add: y)
        then show ?thesis using days_before_parts [of "b + 1" 0 0 a] True b by (simp add: r2_def)
      next
        case False
        have "year_of_day d + 1 = 400 * (a + 1) + 100 * 0 + 4 * 0 + 0 + 1" using e3 e c24 c False b by (simp add: y)
        then show ?thesis using days_before_parts [of 0 0 0 "a + 1"] d by simp
      qed
    qed
  qed
  then show ?thesis using lo d b c e by (simp add: r2_def)
qed

lemma month_lengths_pos: "m < 12 \<Longrightarrow> 28 \<le> month_lengths leap ! m \<and> month_lengths leap ! m \<le> 31"
  by (auto simp: month_lengths_def less_Suc_eq eval_nat_numeral)

lemma days_before_month_Suc: "m < 12 \<Longrightarrow> days_before_month leap (Suc m) = days_before_month leap m + month_lengths leap ! m"
proof -
  assume "m < 12"
  then have "m < length (month_lengths leap)" by (simp add: month_lengths_def)
  then show ?thesis by (simp add: days_before_month_def take_Suc_conv_app_nth)
qed

lemma days_before_month_0 [simp]: "days_before_month leap 0 = 0"
  by (simp add: days_before_month_def)

lemma days_before_month_12: "days_before_month leap 12 = (if leap then 366 else 365)"
  by (simp add: days_before_month_def month_lengths_def)

lemma days_before_month_mono: "i \<le> j \<Longrightarrow> j \<le> 12 \<Longrightarrow> days_before_month leap i \<le> days_before_month leap j"
proof (induction j rule: dec_induct)
  case (step j)
  then show ?case using days_before_month_Suc [of j leap] month_lengths_pos [of j leap] by simp
qed simp

text \<open>Counting the starts passed finds the interval.\<close>

lemma count_starts:
  assumes "\<And>i j. i \<le> j \<Longrightarrow> j \<le> n \<Longrightarrow> f i \<le> f j" and "f 0 \<le> (x :: int)"
  shows "let i = length (filter (\<lambda>m. f m \<le> x) [1..<Suc n]) in i \<le> n \<and> f i \<le> x \<and> (i < n \<longrightarrow> x < f (Suc i))"
  using assms
proof (induction n)
  case (Suc n)
  define i where "i = length (filter (\<lambda>m. f m \<le> x) [1..<Suc n])"
  have i: "i \<le> n" "f i \<le> x" "i < n \<Longrightarrow> x < f (Suc i)"
    using Suc.IH Suc.prems unfolding Let_def i_def by auto
  have "i = n" if "f (Suc n) \<le> x"
    using i(1,3) that Suc.prems(1) [of "Suc i" "Suc n"] by (cases "i = n") auto
  moreover have "length (filter (\<lambda>m. f m \<le> x) [1..<Suc (Suc n)]) = i + (if f (Suc n) \<le> x then 1 else 0)"
    unfolding i_def by (subst upt_Suc_append) simp_all
  ultimately show ?case using i unfolding Let_def by (auto simp: le_less)
qed simp

lemma month_of_year_day:
  assumes "0 \<le> x" and "x < days_before_month leap 12"
    and i: "i = length (filter (\<lambda>m. days_before_month leap m \<le> x) [1..<12])"
  shows "i < 12 \<and> days_before_month leap i \<le> x \<and> x < days_before_month leap (Suc i)"
proof -
  have "i \<le> 11 \<and> days_before_month leap i \<le> x \<and> (i < 11 \<longrightarrow> x < days_before_month leap (Suc i))"
    using count_starts [of 11 "days_before_month leap" x] days_before_month_mono [of _ _ leap] assms(1)
    unfolding Let_def i by simp
  then show ?thesis using assms(2) by (cases "i = 11") auto
qed

text \<open>Months as intervals of days.\<close>

definition month_index :: "int \<Rightarrow> int" where
  "month_index d = 12 * (year_of_day d - 1970) + int (month_of_day d)"

lemma month_start_parts:
  "m < 12 \<Longrightarrow> month_start (12 * (y - 1970) + int m) = days_before_year y + days_before_month (leap_year y) m"
proof -
  assume "m < 12"
  then have "(12 * (y - 1970) + int m) div 12 = y - 1970" "(12 * (y - 1970) + int m) mod 12 = int m"
    using int_div_pos_eq [of "12 * (y - 1970) + int m" 12 "y - 1970" "int m"]
      int_mod_pos_eq [of "12 * (y - 1970) + int m" 12 "y - 1970" "int m"] by simp_all
  then show ?thesis by (simp add: month_start_def)
qed

lemma month_start_Suc: "month_start k < month_start (k + 1)"
proof -
  define y m where "y = 1970 + k div 12" and "m = nat (k mod 12)"
  have m: "m < 12" "k = 12 * (y - 1970) + int m" by (simp_all add: y_def m_def)
  show ?thesis
  proof (cases "m = 11")
    case False
    have "k + 1 = 12 * (y - 1970) + int (Suc m)" using m by simp
    then have "month_start (k + 1) = days_before_year y + days_before_month (leap_year y) (Suc m)"
      using month_start_parts [of "Suc m" y] m False by (simp only:)
    then show ?thesis
      using month_start_parts [of m y] m days_before_month_Suc [of m] month_lengths_pos [of m "leap_year y"] by simp
  next
    case True
    then have "k + 1 = 12 * (y + 1 - 1970) + int 0" using m by simp
    then have "month_start (k + 1) = days_before_year (y + 1)"
      using month_start_parts [of 0 "y + 1"] by (simp only: days_before_month_0)
    then show ?thesis
      using month_start_parts [of m y] m days_before_month_Suc [of 11 "leap_year y"] month_lengths_pos [of 11 "leap_year y"]
        days_before_month_12 [of "leap_year y"] days_before_year_Suc [of y] True by (simp split: if_splits)
  qed
qed

lemma month_start_less: "j < k \<Longrightarrow> month_start j < month_start k"
proof (induction k rule: int_gr_induct [where k = j])
  case (step i)
  then show ?case using month_start_Suc [of i] by simp
qed (rule month_start_Suc)

lemma month_start_le_iff: "month_start j \<le> month_start k \<longleftrightarrow> j \<le> k"
  using month_start_less [of j k] month_start_less [of k j] by (cases j k rule: linorder_cases) auto

lemma month_start_0: "month_start 0 = 0"
  by (simp add: month_start_def days_before_year_def)

lemma month_start_plus: "month_start (k + 4800 * c) = month_start k + 146097 * c"
proof -
  have "(k + 4800 * c) div 12 = k div 12 + 400 * c" "(k + 4800 * c) mod 12 = k mod 12"
    using div_mult_self2 [of 12 k "400 * c"] mod_mult_self2 [of k 12 "400 * c"] by simp_all
  then show ?thesis
    using leap_year_plus [of "1970 + k div 12" c] days_before_year_plus [of "1970 + k div 12" c]
    by (simp add: month_start_def algebra_simps)
qed

lemma month_index_interval: "month_start (month_index d) \<le> d \<and> d < month_start (month_index d + 1)"
proof -
  let ?y = "year_of_day d" and ?m = "month_of_day d"
  have x: "0 \<le> d - days_before_year ?y" "d - days_before_year ?y < days_before_month (leap_year ?y) 12"
    using year_of_day [of d] days_before_year_Suc [of ?y] by (auto simp: days_before_month_12)
  from month_of_year_day [OF x, of ?m]
  have m: "?m < 12" "days_before_month (leap_year ?y) ?m \<le> d - days_before_year ?y"
    "d - days_before_year ?y < days_before_month (leap_year ?y) (Suc ?m)"
    by (simp_all add: month_of_day_def Let_def)
  have "month_start (month_index d + 1) = days_before_year ?y + days_before_month (leap_year ?y) (Suc ?m)"
  proof (cases "?m = 11")
    case False
    have "month_index d + 1 = 12 * (?y - 1970) + int (Suc ?m)" by (simp add: month_index_def)
    then show ?thesis using month_start_parts [of "Suc ?m" ?y] m(1) False by (simp only:)
  next
    case True
    have "month_index d + 1 = 12 * (?y + 1 - 1970) + int 0" by (simp add: month_index_def True)
    then have "month_start (month_index d + 1) = days_before_year (?y + 1)"
      using month_start_parts [of 0 "?y + 1"] by (simp only: days_before_month_0)
    then show ?thesis
      using days_before_year_Suc [of ?y] days_before_month_12 [of "leap_year ?y"] True by simp
  qed
  then show ?thesis using month_start_parts [OF m(1), of ?y] m by (simp add: month_index_def)
qed

lemma month_index_unique: "month_start k \<le> d \<Longrightarrow> d < month_start (k + 1) \<Longrightarrow> month_index d = k"
  using month_index_interval [of d] month_start_le_iff [of "k + 1" "month_index d"]
    month_start_le_iff [of "month_index d + 1" k] by linarith

lemma month_index_plus: "month_index (d + 146097 * c) = month_index d + 4800 * c"
proof (rule month_index_unique)
  show "month_start (month_index d + 4800 * c) \<le> d + 146097 * c"
    using month_index_interval [of d] by (simp add: month_start_plus)
  have "month_start (month_index d + 4800 * c + 1) = month_start (month_index d + 1) + 146097 * c"
    using month_start_plus [of "month_index d + 1" c] by (simp add: algebra_simps)
  then show "d + 146097 * c < month_start (month_index d + 4800 * c + 1)"
    using month_index_interval [of d] by simp
qed

lemma month_index_mono: "d \<le> d' \<Longrightarrow> month_index d \<le> month_index d'"
proof (rule ccontr)
  assume "d \<le> d'" "\<not> month_index d \<le> month_index d'"
  then have "month_start (month_index d' + 1) \<le> month_start (month_index d)" by (simp add: month_start_le_iff)
  then show False using \<open>d \<le> d'\<close> month_index_interval [of d] month_index_interval [of d'] by simp
qed

lemma month_index_bounds: "0 \<le> d \<Longrightarrow> d < 146097 \<Longrightarrow> 0 \<le> month_index d \<and> month_index d < 4800"
proof -
  assume d: "0 \<le> d" "d < 146097"
  have "month_start 0 \<le> d" using d by (simp add: month_start_0)
  moreover have "d < month_start 4800" using month_start_plus [of 0 1] d by (simp add: month_start_0)
  ultimately have "month_start 0 < month_start (month_index d + 1)" "month_start (month_index d) < month_start 4800"
    using month_index_interval [of d] by auto
  then show ?thesis using month_start_le_iff [of "month_index d + 1" 0] month_start_le_iff [of 4800 "month_index d"] by linarith
qed

section \<open>Device arithmetic agrees with integers\<close>

definition in_i64 :: "int \<Rightarrow> bool" where
  "in_i64 x \<longleftrightarrow> - (2 ^ 63) \<le> x \<and> x < 2 ^ 63"

definition wrap64 :: "int \<Rightarrow> int" where
  "wrap64 x = signed_take_bit 63 x"

lemma sint_i64: "sint (word_of_int x :: i64) = wrap64 x"
  by (simp add: wrap64_def signed_of_int)

lemma wrap64_id: "in_i64 x \<Longrightarrow> wrap64 x = x"
  by (simp add: in_i64_def wrap64_def signed_take_bit_int_eq_self)

lemma sint_in_i64: "in_i64 (sint (a :: i64))"
  using sint_greater_eq [of a] sint_less [of a] by (simp add: in_i64_def)

lemma word_sint: "word_of_int (sint (a :: i64)) = a"
  by simp

lemma i64_cases: obtains x where "(a :: i64) = word_of_int x" and "in_i64 x"
  using sint_in_i64 [of a] word_sint [of a] by metis

lemma smod_mod: "(a smod b) mod b = a mod (b :: int)"
  by (metis minus_sdiv_mult_eq_smod minus_mod_self1 mod_mult_self4 mod_diff_right_eq diff_zero mod_mult_self2_is_0 mult.commute)

lemma smod_bounds: "0 < b \<Longrightarrow> \<bar>a smod b\<bar> < (b :: int)"
  by (simp add: signed_modulo_int_def abs_mult abs_sgn_eq)

lemma smod_nonneg: "0 \<le> a \<Longrightarrow> 0 < b \<Longrightarrow> a smod b = a mod (b :: int)"
  by (cases "a = 0") (simp_all add: signed_modulo_int_def)

lemma i64_rem_eq: "in_i64 x \<Longrightarrow> 0 < b \<Longrightarrow> in_i64 b \<Longrightarrow> i64_rem (word_of_int x) (word_of_int b) = word_of_int (x smod b)"
  by (simp add: i64_rem_def sint_i64 wrap64_id)

text \<open>Up to \<open>2 ^ 62\<close> the sum in \<open>pymod\<close> does not overflow.\<close>

lemma pymod_eq:
  assumes x: "in_i64 x" and b: "0 < b" "b \<le> max_truncate_ticks"
  shows "pymod (word_of_int x) (word_of_int b) = word_of_int (x mod b)"
proof -
  have ib: "in_i64 b" using b by (simp add: in_i64_def max_truncate_ticks_def)
  have r: "\<bar>x smod b\<bar> < b" using smod_bounds [OF b(1)] .
  then have i: "in_i64 (x smod b + b)" using b unfolding in_i64_def max_truncate_ticks_def by (simp add: abs_less_iff)
  have "pymod (word_of_int x) (word_of_int b) = i64_rem (word_of_int (x smod b + b)) (word_of_int b)"
    using i64_rem_eq [OF x b(1) ib] by (simp add: pymod_def)
  also have "\<dots> = word_of_int ((x smod b + b) mod b)"
    using i64_rem_eq [OF i b(1) ib] smod_nonneg [of "x smod b + b" b] r b(1) by simp
  also have "(x smod b + b) mod b = x mod b" by (simp add: smod_mod)
  finally show ?thesis .
qed

lemma minus_mod_floor: "x - x mod b = b * (x div (b :: int))"
  by (simp add: minus_mod_eq_mult_div)

lemma floor_ticks_eq:
  assumes "in_i64 x" and "0 < b" and "b \<le> max_truncate_ticks"
  shows "floor_ticks (word_of_int x) b = word_of_int (b * (x div b))"
proof -
  have "floor_ticks (word_of_int x) b = word_of_int x - word_of_int (x mod b)"
    by (simp add: floor_ticks_def pymod_eq [OF assms])
  then show ?thesis by (simp add: minus_mod_floor flip: of_int_diff)
qed

lemma i64_floor_div_eq:
  "in_i64 x \<Longrightarrow> in_i64 b \<Longrightarrow> i64_floor_div (word_of_int x) (word_of_int b) = word_of_int (x div b)"
  by (simp add: i64_floor_div_def sint_i64 wrap64_id)

lemma div_le_self_bounds:
  assumes "in_i64 x" and "0 < b"
  shows "in_i64 (x div b)"
proof -
  have "x div b \<le> x \<or> x < 0" "x \<le> x div b \<or> 0 \<le> x" "x < 0 \<Longrightarrow> x div b < 0" "0 \<le> x \<Longrightarrow> 0 \<le> x div b"
    using assms(2) by (simp_all add: int_div_less_self zdiv_mono2 neg_imp_zdiv_neg_iff pos_imp_zdiv_nonneg_iff
        flip: not_le) (smt (verit) div_by_1 zdiv_mono2 zdiv_mono2_neg)+
  then show ?thesis using assms(1) by (auto simp: in_i64_def)
qed

end
