(* ===== verification/TruncateFacts.thy ===== *)
theory TruncateFacts
  imports TruncateModel
begin

text \<open>
  What \<open>dt.truncate\<close> of cudf-polars computes: the bucket starts over the integers, and the device
  computation of every plan against them.
\<close>

section \<open>Bucket starts\<close>

text \<open>The start of the bucket of the instant t (in ticks, \<open>day\<close> of them to a day) over unbounded
  integers: calendar months counted from January 1970, weeks from Monday 5 January 1970, and other
  durations from the epoch.\<close>

definition month_bucket :: "int \<Rightarrow> int \<Rightarrow> int" where
  "month_bucket months d = month_start (months * (month_index d div months))"

fun bucket_start :: "truncate_plan \<Rightarrow> int \<Rightarrow> int \<Rightarrow> int" where
  "bucket_start Identity tick t = t"
| "bucket_start (FloorDatetimes f) tick t = (f div tick) * (t div (f div tick))"
| "bucket_start (Fixed every day on_date) tick t = every * (t div every)"
| "bucket_start (Weekly every day on_date) tick t = 4 * day + every * ((t - 4 * day) div every)"
| "bucket_start (Monthly months day on_date) tick t = day * month_bucket months (t div day)"

lemma month_index_start: "month_index (month_start k) = k"
  by (rule month_index_unique) (simp_all add: month_start_Suc)

lemma month_bucket_le: "0 < m \<Longrightarrow> month_bucket m d \<le> d"
proof -
  assume "0 < m"
  then have "m * (month_index d div m) \<le> month_index d"
    using minus_mod_eq_mult_div [of "month_index d" m] pos_mod_sign [of m "month_index d"] by linarith
  then show ?thesis
    using month_start_le_iff [of "m * (month_index d div m)" "month_index d"] month_index_interval [of d]
    by (simp add: month_bucket_def)
qed

lemma month_bucket_mono: "0 < m \<Longrightarrow> d \<le> d' \<Longrightarrow> month_bucket m d \<le> month_bucket m d'"
  by (simp add: month_bucket_def month_start_le_iff month_index_mono zdiv_mono1)

lemma mult_div_mono: "0 < b \<Longrightarrow> x \<le> y \<Longrightarrow> b * (x div b) \<le> b * (y div (b :: int))"
  by (simp add: zdiv_mono1)

lemma mult_div_le: "0 < b \<Longrightarrow> b * (x div b) \<le> (x :: int)"
  using minus_mod_eq_mult_div [of x b] pos_mod_sign [of b x] by linarith

lemma mult_div_gt: "0 < b \<Longrightarrow> x - b < b * (x div (b :: int))"
  using minus_mod_eq_mult_div [of x b] pos_mod_bound [of b x] by linarith

text \<open>Without overflow a bucket start is never after its instant, and the starts keep the order.\<close>

fun plan_ok :: "int \<Rightarrow> truncate_plan \<Rightarrow> bool" where
  "plan_ok tick Identity = True"
| "plan_ok tick (FloorDatetimes f) = (0 < tick \<and> tick < f \<and> f \<le> ns_per_day)"
| "plan_ok tick (Fixed every day on_date) = (1 < every \<and> every \<le> max_truncate_ticks)"
| "plan_ok tick (Weekly every day on_date) = (0 < every \<and> every \<le> max_truncate_ticks \<and> day = ns_per_day div tick)"
| "plan_ok tick (Monthly months day on_date) = (0 < months \<and> months \<le> max_truncate_months \<and> day = ns_per_day div tick)"

definition tick_sizes :: "int list" where
  "tick_sizes = [1, 1000, 1000000]"

lemma tick_day_pos: "tick \<in> set tick_sizes \<Longrightarrow> 0 < ns_per_day div tick"
  by (auto simp: tick_sizes_def ns_per_day_def)

lemma bucket_start_mono:
  "plan_ok tick p \<Longrightarrow> tick \<in> set tick_sizes \<Longrightarrow> x \<le> y \<Longrightarrow> bucket_start p tick x \<le> bucket_start p tick y"
proof (cases p)
  case (FloorDatetimes f)
  assume "plan_ok tick p" "x \<le> y"
  then show ?thesis using FloorDatetimes mult_div_mono [of "f div tick" x y] by (simp add: pos_imp_zdiv_pos_iff)
next
  case (Fixed e d od)
  assume "plan_ok tick p" "x \<le> y"
  then show ?thesis using Fixed mult_div_mono [of e x y] by simp
next
  case (Weekly e d od)
  assume "plan_ok tick p" "x \<le> y"
  then show ?thesis using Weekly mult_div_mono [of e "x - 4 * d" "y - 4 * d"] by simp
next
  case (Monthly m d od)
  assume a: "plan_ok tick p" "x \<le> y" "tick \<in> set tick_sizes"
  then have d: "0 < d" using Monthly tick_day_pos by simp
  then have "month_bucket m (x div d) \<le> month_bucket m (y div d)"
    using Monthly a by (simp add: month_bucket_mono zdiv_mono1)
  then show ?thesis using Monthly d by simp
qed simp

lemma bucket_start_le: "plan_ok tick p \<Longrightarrow> tick \<in> set tick_sizes \<Longrightarrow> bucket_start p tick x \<le> x"
proof (cases p)
  case (FloorDatetimes f)
  assume "plan_ok tick p"
  then show ?thesis using FloorDatetimes mult_div_le [of "f div tick" x] by (simp add: pos_imp_zdiv_pos_iff)
next
  case (Fixed e d od)
  assume "plan_ok tick p"
  then show ?thesis using Fixed mult_div_le [of e x] by simp
next
  case (Weekly e d od)
  assume "plan_ok tick p"
  then show ?thesis using Weekly mult_div_le [of e "x - 4 * d"] by simp
next
  case (Monthly m d od)
  assume a: "plan_ok tick p" "tick \<in> set tick_sizes"
  then have d: "0 < d" using Monthly tick_day_pos by simp
  have "d * month_bucket m (x div d) \<le> d * (x div d)" using month_bucket_le [of m "x div d"] Monthly a d by simp
  then show ?thesis using Monthly mult_div_le [OF d, of x] by simp
qed simp

lemma bucket_start_idem:
  "plan_ok tick p \<Longrightarrow> tick \<in> set tick_sizes \<Longrightarrow> bucket_start p tick (bucket_start p tick x) = bucket_start p tick x"
proof (cases p)
  case (FloorDatetimes f)
  assume "plan_ok tick p"
  then have "0 < f div tick" using FloorDatetimes pos_imp_zdiv_pos_iff [of tick f] by simp
  then show ?thesis using FloorDatetimes by simp
next
  case (Fixed e d od)
  assume "plan_ok tick p"
  then show ?thesis using Fixed by simp
next
  case (Weekly e d od)
  assume "plan_ok tick p"
  then show ?thesis using Weekly by simp
next
  case (Monthly m d od)
  assume a: "plan_ok tick p" "tick \<in> set tick_sizes"
  then have d: "d \<noteq> 0" "m \<noteq> 0" using Monthly tick_day_pos [of tick] by auto
  then show ?thesis using Monthly by (simp add: month_bucket_def month_index_start)
qed simp

section \<open>Months on the device\<close>

lemma month_start_ge: "0 \<le> k \<Longrightarrow> k \<le> month_start k"
proof (induction k rule: int_ge_induct)
  case (step i)
  then show ?case using month_start_Suc [of i] by simp
qed (simp add: month_start_0)

lemma month_start_le: "k \<le> 0 \<Longrightarrow> month_start k \<le> k"
proof (induction k rule: int_le_induct)
  case (step i)
  then show ?case using month_start_Suc [of "i - 1"] by simp
qed (simp add: month_start_0)

lemma month_index_abs: "min d 0 \<le> month_index d \<and> month_index d \<le> max d 0"
proof -
  have "month_start (month_index d) \<le> d" "d < month_start (month_index d + 1)"
    using month_index_interval [of d] by auto
  then show ?thesis
    using month_start_ge [of "month_index d"] month_start_le [of "month_index d + 1"] by (smt (verit))
qed

lemma month_of_day_less: "month_of_day d < 12"
proof -
  have "length (filter P [1..<12]) \<le> 11" for P using length_filter_le [of P "[1..<12]"] by simp
  then show ?thesis unfolding month_of_day_def Let_def by (metis le_imp_less_Suc eval_nat_numeral(3) Suc_numeral semiring_norm(5) semiring_norm(2) semiring_norm(8))
qed

lemma extract_month_index:
  assumes d: "day_number day t = d" "-146097 \<le> d" "d < 146097"
  shows "(extract_year day t - 1970) * 12 + (extract_month day t - 1) = word_of_int (month_index d)"
proof -
  have "-4800 \<le> month_index d" "month_index d < 4800"
    using month_index_bounds [of d] month_index_bounds [of "d + 146097"] month_index_plus [of d 1] d(2,3)
    by (cases "0 \<le> d"; simp)+
  then have "1569 \<le> year_of_day d" "year_of_day d < 2371"
    using month_of_day_less [of d] by (simp_all add: month_index_def)
  then have "extract_year day t = word_of_int (year_of_day d)"
    by (simp add: extract_year_def d(1) signed_take_bit_int_eq_self)
  moreover have "extract_month day t = word_of_int (int (month_of_day d) + 1)"
    by (simp add: extract_month_def d(1))
  ultimately have "(extract_year day t - 1970) * 12 + (extract_month day t - 1) =
      word_of_int ((year_of_day d - 1970) * 12 + (int (month_of_day d) + 1 - 1))"
    by simp
  then show ?thesis by (simp add: month_index_def mult.commute)
qed

text \<open>Counting the months of a day number on the device agrees with the calendar over the whole
  64-bit range of every time unit.\<close>

lemma day_number_eq: "t = word_of_int x \<Longrightarrow> in_i64 x \<Longrightarrow> x div day = d \<Longrightarrow> -146097 \<le> d \<Longrightarrow> d < 146097 \<Longrightarrow> day_number day t = d"
  by (simp add: day_number_def sint_i64 wrap64_id signed_take_bit_int_eq_self)

lemma int_div_less_iff: "0 < b \<Longrightarrow> x div b < n \<longleftrightarrow> x < n * (b :: int)"
proof -
  assume b: "0 < b"
  show ?thesis
  proof
    assume "x div b < n"
    then have "b * (x div b + 1) \<le> b * n" using b by (intro mult_left_mono) simp_all
    then show "x < n * b" using mult_div_gt [OF b, of x] by (simp add: algebra_simps)
  next
    assume "x < n * b"
    then have "b * (x div b) < b * n" using mult_div_le [OF b, of x] by (simp add: algebra_simps)
    then show "x div b < n" using b by simp
  qed
qed

lemma int_le_div_iff: "0 < b \<Longrightarrow> n \<le> x div b \<longleftrightarrow> n * b \<le> (x :: int)"
  using int_div_less_iff [of b x n] by linarith

lemma mod_div_cycle:
  assumes "0 < day"
  shows "x div day = (x mod (146097 * day)) div day + 146097 * (x div (146097 * day))"
    and "0 \<le> (x mod (146097 * day)) div day" and "(x mod (146097 * day)) div day < (146097 :: int)"
proof -
  define q r where "q = x div (146097 * day)" and "r = x mod (146097 * day)"
  have x: "x = r + (146097 * q) * day" using div_mult_mod_eq [of x "146097 * day"] by (simp add: q_def r_def algebra_simps)
  have r: "0 \<le> r" "r < 146097 * day" using assms by (simp_all add: r_def)
  have "x div day = r div day + 146097 * q" unfolding x using assms by (simp add: add.commute)
  then show "x div day = (x mod (146097 * day)) div day + 146097 * (x div (146097 * day))"
    by (simp add: q_def r_def)
  show "0 \<le> (x mod (146097 * day)) div day" using r(1) assms pos_imp_zdiv_nonneg_iff [of day r] by (simp add: r_def)
  show "(x mod (146097 * day)) div day < 146097"
    using r(2) int_div_less_iff [OF assms] by (simp add: r_def mult.commute)
qed

lemma small_fits: "0 \<le> x \<Longrightarrow> x < 2 ^ 31 \<Longrightarrow> wrap64 x = x \<and> signed_take_bit 31 x = x"
  by (simp add: wrap64_id in_i64_def signed_take_bit_int_eq_self)

text \<open>The 400-year cycles taken out before the calendar fields are read.\<close>

definition cycle_split :: "int \<Rightarrow> i64 \<Rightarrow> i64 \<times> i64" where
  "cycle_split day ticks =
     (let cycle = days_per_400_years * day;
          cycles = (if cycle < 2 ^ 63 then i64_floor_div ticks (word_of_int cycle) else 0)
      in (cycles, if cycle < 2 ^ 63 then ticks - cycles * word_of_int cycle else ticks))"

lemma cycle_split_eq:
  assumes x: "in_i64 x" and tick: "tick \<in> set tick_sizes" and day: "day = ns_per_day div tick"
  shows "\<exists>c d. fst (cycle_split day (word_of_int x)) = word_of_int c \<and>
    day_number day (snd (cycle_split day (word_of_int x))) = d \<and> x div day = d + 146097 * c \<and>
    -146097 \<le> d \<and> d < 146097"
proof (cases "days_per_400_years * day < 2 ^ 63")
  case True
  let ?cycle = "days_per_400_years * day"
  have day0: "0 < day" using tick_day_pos [OF tick] day by simp
  have i: "in_i64 ?cycle" using True day0 by (simp add: in_i64_def days_per_400_years_def)
  have s: "cycle_split day (word_of_int x) = (word_of_int (x div ?cycle), word_of_int (x mod ?cycle))"
    using True by (simp add: cycle_split_def Let_def i64_floor_div_eq [OF x i] minus_div_mult_eq_mod
        flip: of_int_mult of_int_diff)
  have m: "0 \<le> x mod ?cycle" "x mod ?cycle < ?cycle" using day0 by (simp_all add: days_per_400_years_def)
  then have "in_i64 (x mod ?cycle)" using True by (simp add: in_i64_def)
  then have "day_number day (word_of_int (x mod ?cycle)) = x mod ?cycle div day"
    using mod_div_cycle(2,3) [OF day0, of x]
    by (intro day_number_eq [OF refl]) (simp_all add: days_per_400_years_def)
  then show ?thesis
    using s mod_div_cycle [OF day0, of x]
    by (intro exI [of _ "x div ?cycle"] exI [of _ "x mod ?cycle div day"] conjI) (simp_all add: days_per_400_years_def)
next
  case False
  then have day_ns: "day = 86400000000000"
    using tick day by (auto simp: tick_sizes_def ns_per_day_def days_per_400_years_def)
  have d: "-146097 \<le> x div day" "x div day < 146097"
    using x by (simp_all add: day_ns in_i64_def int_div_less_iff int_le_div_iff)
  then have "day_number day (word_of_int x) = x div day" using day_number_eq [OF refl x refl] by simp
  then show ?thesis
    using False d by (intro exI [of _ 0] exI [of _ "x div day"] conjI) (simp_all add: cycle_split_def)
qed

lemma month_start_days_eq:
  assumes x: "in_i64 x" and tick: "tick \<in> set tick_sizes" and day: "day = ns_per_day div tick"
    and m: "0 < m" "m \<le> max_truncate_months"
  shows "month_start_days (word_of_int x) m day = word_of_int (month_bucket m (x div day))"
proof -
  obtain c d where c: "fst (cycle_split day (word_of_int x)) = word_of_int c"
    and d: "day_number day (snd (cycle_split day (word_of_int x))) = d" "x div day = d + 146097 * c"
      "-146097 \<le> d" "d < 146097"
    using cycle_split_eq [OF x tick day] by blast
  define k where "k = month_index (x div day)"
  define q where "q = m * (k div m)"
  have k: "k = month_index d + 4800 * c" using month_index_plus [of d c] d(2) by (simp add: k_def)
  have dd: "- (2 ^ 37) \<le> x div day" "x div day < 2 ^ 37"
    using x tick by (auto simp: day tick_sizes_def ns_per_day_def in_i64_def int_div_less_iff int_le_div_iff)
  then have kb: "- (2 ^ 37) \<le> k" "k < 2 ^ 37" using month_index_abs [of "x div day"] by (auto simp: k_def)
  have qb: "q \<le> k" "k - m < q" using mult_div_le [OF m(1), of k] mult_div_gt [OF m(1), of k] by (simp_all add: q_def)
  have ik: "in_i64 k" using kb by (simp add: in_i64_def)
  have iq: "in_i64 q" using kb qb m by (simp add: in_i64_def max_truncate_months_def)
  have m62: "m \<le> max_truncate_ticks" using m by (simp add: max_truncate_months_def max_truncate_ticks_def)
  have months: "(extract_year day (snd (cycle_split day (word_of_int x))) - 1970 + fst (cycle_split day (word_of_int x)) * 400) * 12
      + (extract_month day (snd (cycle_split day (word_of_int x))) - 1) = word_of_int k"
    using extract_month_index [OF d(1,3,4)] by (simp add: c k algebra_simps)
  have floored: "word_of_int k - pymod (word_of_int k) (word_of_int m) = (word_of_int q :: i64)"
    using floor_ticks_eq [OF ik m(1) m62] by (simp add: floor_ticks_def q_def)
  have i4800: "in_i64 months_per_400_years" by (simp add: in_i64_def months_per_400_years_def)
  have mc: "word_of_int q - word_of_int (q div 4800) * (word_of_int 4800 :: i64) = word_of_int (q mod 4800)"
    by (simp only: minus_div_mult_eq_mod flip: of_int_mult of_int_diff)
  have r: "0 \<le> q mod 4800" "q mod 4800 < 4800" by simp_all
  have s0: "0 \<le> month_start (q mod 4800)" using month_start_ge [OF r(1)] r(1) by linarith
  have s1: "month_start (q mod 4800) < 146097"
    using month_start_less [OF r(2)] month_start_plus [of 0 1] by (simp add: month_start_0)
  have r3: "signed_take_bit 31 (wrap64 (q mod 4800)) = q mod 4800"
  proof -
    have "q mod 4800 < 2 ^ 31" using r(2) by (rule order_less_trans) simp
    from small_fits [OF r(1) this] show ?thesis by simp
  qed
  have s3: "signed_take_bit 31 (month_start (q mod 4800)) = month_start (q mod 4800)"
    using small_fits [OF s0] s1 by simp
  have "month_start_days (word_of_int x) m day =
      word_of_int (signed_take_bit 31 (month_start (signed_take_bit 31 (sint (word_of_int (q mod 4800) :: i64))))) +
      word_of_int (q div 4800) * word_of_int 146097"
    using months i64_floor_div_eq [OF iq i4800]
    unfolding month_start_days_def cycle_split_def Let_def fst_conv snd_conv
    by (simp only: floored months_per_400_years_def mc days_per_400_years_def)
  also have "\<dots> = word_of_int (month_start (q mod 4800) + 146097 * (q div 4800))"
    by (simp add: sint_i64 r3 s3)
  also have "month_start (q mod 4800) + 146097 * (q div 4800) = month_start q"
    using month_start_plus [of "q mod 4800" "q div 4800"] by simp
  finally show ?thesis by (simp add: month_bucket_def q_def k_def)
qed

section \<open>Plans on timestamps\<close>

fun plan_on_date :: "truncate_plan \<Rightarrow> bool" where
  "plan_on_date (Fixed every day on_date) = on_date"
| "plan_on_date (Weekly every day on_date) = on_date"
| "plan_on_date (Monthly months day on_date) = on_date"
| "plan_on_date plan = False"

text \<open>Weeks are anchored four days after the epoch; the shift must not underflow.\<close>

fun shift_fits :: "truncate_plan \<Rightarrow> int \<Rightarrow> bool" where
  "shift_fits (Weekly every day on_date) t = in_i64 (t - 4 * day)"
| "shift_fits plan t = True"

definition plan_ticks :: "int \<Rightarrow> truncate_plan \<Rightarrow> i64 \<Rightarrow> i64" where
  "plan_ticks tick plan t =
     (case plan of
        Identity \<Rightarrow> t
      | FloorDatetimes f \<Rightarrow> floor_datetimes tick f t
      | Fixed every day on_date \<Rightarrow> floor_ticks t every
      | Weekly every day on_date \<Rightarrow> t - pymod (t - word_of_int (4 * day)) (word_of_int every)
      | Monthly months day on_date \<Rightarrow> month_start_days t months day * word_of_int day)"

lemma plan_ticks_eq:
  assumes ok: "plan_ok tick plan" and tick: "tick \<in> set tick_sizes" and x: "in_i64 x" and s: "shift_fits plan x"
  shows "plan_ticks tick plan (word_of_int x) = word_of_int (bucket_start plan tick x)"
proof (cases plan)
  case Identity
  then show ?thesis by (simp add: plan_ticks_def)
next
  case (FloorDatetimes f)
  then show ?thesis using ok x by (simp add: plan_ticks_def floor_datetimes_def sint_i64 wrap64_id mult.commute)
next
  case (Fixed e d od)
  then show ?thesis using ok floor_ticks_eq [OF x, of e] by (simp add: plan_ticks_def)
next
  case (Weekly e d od)
  have "word_of_int x - pymod (word_of_int (x - 4 * d)) (word_of_int e) = word_of_int (x - (x - 4 * d) mod e)"
    using pymod_eq [of "x - 4 * d" e] s ok Weekly by simp
  also have "x - (x - 4 * d) mod e = 4 * d + e * ((x - 4 * d) div e)"
    using minus_mod_floor [of "x - 4 * d" e] by linarith
  finally show ?thesis using Weekly by (simp add: plan_ticks_def)
next
  case (Monthly m d od)
  then show ?thesis using ok month_start_days_eq [OF x tick, of d m] by (simp add: plan_ticks_def mult.commute)
qed

lemma truncate_value_ticks:
  "\<not> plan_on_date plan \<Longrightarrow> in_i64 v \<Longrightarrow> truncate_value tick plan v = sint (plan_ticks tick plan (word_of_int v))"
  by (cases plan) (simp_all add: plan_ticks_def on_date_column_def sint_i64 wrap64_id)

lemma truncate_value_date:
  "plan_on_date plan \<Longrightarrow> truncate_value tick plan v =
     signed_take_bit 31 (sint (i64_div (plan_ticks tick plan (word_of_int (v * ms_per_day))) (word_of_int ms_per_day)))"
  by (cases plan) (simp_all add: plan_ticks_def on_date_column_def)

lemma truncate_value_eq:
  assumes "plan_ok tick plan" and "\<not> plan_on_date plan" and "tick \<in> set tick_sizes" and "in_i64 v" and "shift_fits plan v"
  shows "truncate_value tick plan v = wrap64 (bucket_start plan tick v)"
  using truncate_value_ticks [OF assms(2,4)] plan_ticks_eq [OF assms(1,3,4,5)] by (simp add: sint_i64)

section \<open>Plans are in bounds\<close>

lemma parsed_nonneg: "parse_duration_string e = Some (m, w, d, n) \<Longrightarrow> 0 \<le> m \<and> 0 \<le> w \<and> 0 \<le> d \<and> 0 \<le> n"
proof -
  have step: "0 \<le> m \<and> 0 \<le> w \<and> 0 \<le> d \<and> 0 \<le> n"
    if "foldl add_token (a, b, c, k) ts = (m, w, d, n)" "0 \<le> a" "0 \<le> b" "0 \<le> c" "0 \<le> k" for ts a b c k
    using that
  proof (induction ts arbitrary: a b c k)
    case (Cons t ts)
    obtain a' b' c' k' where t: "add_token (a, b, c, k) t = (a', b', c', k')" by (metis prod_cases4)
    then have "0 \<le> a'" "0 \<le> b'" "0 \<le> c'" "0 \<le> k'"
      using Cons.prems(2-5) by (auto simp: add_token_def ns_per_unit_def split: prod.splits if_splits)
    then show ?case using Cons.IH [of a' b' c' k'] Cons.prems(1) t by simp
  qed simp
  assume "parse_duration_string e = Some (m, w, d, n)"
  then obtain ts where "foldl add_token (0, 0, 0, 0) ts = (m, w, d, n)"
    by (auto simp: parse_duration_string_def split: if_splits)
  then show ?thesis using step by blast
qed

lemma plan_unit_truncate_ok:
  assumes "plan_unit_truncate m w d n tick on_date = Inr plan" and "0 \<le> m" "0 \<le> w"
    and "tick \<in> set tick_sizes"
  shows "plan_ok tick plan \<and> (plan_on_date plan \<longrightarrow> on_date) \<and> (plan \<noteq> Identity \<longrightarrow> plan_on_date plan = on_date)"
  using assms tick_day_pos [of tick]
  by (auto simp: plan_unit_truncate_def Let_def split: if_splits)

lemma find_frequency_Some: "find_frequency e = Some (f, b) \<Longrightarrow> f = e \<and> 0 < e \<and> e \<le> ns_per_day"
  by (auto simp: find_frequency_def rounding_frequencies_def ns_per_day_def split: if_splits)

lemma floor_datetimes_frequency_Some: "floor_datetimes_frequency tick e = Some f \<Longrightarrow> f = e \<and> e \<le> ns_per_day"
  by (auto simp: floor_datetimes_frequency_def dest!: find_frequency_Some split: option.split_asm if_split_asm)

lemma whole_ticks_le:
  assumes "tick \<in> set tick_sizes" and "0 \<le> d"
  shows "(d * (ns_per_day div tick) + n div tick) * tick \<le> d * ns_per_day + n"
proof -
  have "ns_per_day div tick * tick = ns_per_day" using assms(1) by (auto simp: tick_sizes_def ns_per_day_def)
  then have e: "d * (ns_per_day div tick) * tick = d * ns_per_day" by (simp only: mult.assoc)
  have "0 < tick" using assms(1) by (auto simp: tick_sizes_def)
  from mult_div_le [OF this, of n] show ?thesis
    by (simp only: distrib_right e mult.commute [of "n div tick"])
qed

lemma plan_truncate_ok:
  assumes p: "plan_truncate (DatetimeType tick utc) every = Inr plan" and tick: "tick \<in> set tick_sizes"
  shows "plan_ok tick plan \<and> \<not> plan_on_date plan"
proof -
  obtain m w d n where e: "parse_duration_string every = Some (m, w, d, n)"
    using p by (auto simp: plan_truncate_def split: option.splits)
  have nn: "0 \<le> m" "0 \<le> w" "0 \<le> d" "0 \<le> n" using parsed_nonneg [OF e] by auto
  have utc: "utc" using p e by (auto simp: plan_truncate_def split: if_splits)
  define T where "T = d * (ns_per_day div tick) + n div tick"
  let ?f = "floor_datetimes_frequency tick (d * ns_per_day + n)"
  have plan: "plan_truncate (DatetimeType tick utc) every =
      (if m > 0 \<or> w > 0 then plan_unit_truncate m w d n tick False
       else if T \<le> 1 then Inr Identity
       else case ?f of Some f \<Rightarrow> Inr (FloorDatetimes f)
            | None \<Rightarrow> if T > max_truncate_ticks then Inl NotImplementedError else Inr (Fixed T 0 False))"
    unfolding plan_truncate_def T_def Let_def e by (simp add: utc)
  show ?thesis
  proof (cases "m > 0 \<or> w > 0")
    case True
    then have "plan_unit_truncate m w d n tick False = Inr plan" using p unfolding plan by simp
    then show ?thesis using plan_unit_truncate_ok [OF _ nn(1,2) tick] by blast
  next
    case nocal: False
    show ?thesis
    proof (cases "T \<le> 1")
      case True
      then show ?thesis using p nocal unfolding plan by auto
    next
      case t1: False
      show ?thesis
      proof (cases ?f)
        case None
        then show ?thesis using p nocal t1 unfolding plan by (auto split: if_splits)
      next
        case (Some f)
        have f: "f = d * ns_per_day + n" "f \<le> ns_per_day"
          using floor_datetimes_frequency_Some [OF Some] by simp_all
        have t0: "0 < tick" using tick by (auto simp: tick_sizes_def)
        then have "1 * tick < T * tick" using t1 by (intro mult_strict_right_mono) simp_all
        then have "tick < f" using whole_ticks_le [OF tick nn(3), of n] f(1) by (simp add: T_def)
        moreover have "plan = FloorDatetimes f" using p nocal t1 Some unfolding plan by simp
        ultimately show ?thesis using f(2) t0 by simp
      qed
    qed
  qed
qed

section \<open>What a duration means\<close>

text \<open>The bucket of the instant t for a duration of months, weeks, days and nanoseconds, on a timeline
  with \<open>ns_per_day div tick\<close> ticks a day: the first unit present decides, and a fixed duration is
  converted to ticks one component at a time.\<close>

definition duration_bucket :: "int \<Rightarrow> int \<times> int \<times> int \<times> int \<Rightarrow> int \<Rightarrow> int" where
  "duration_bucket tick duration t =
     (case duration of (months, weeks, days, nanoseconds) \<Rightarrow>
       let day = ns_per_day div tick; every = days * day + nanoseconds div tick
       in if months > 0 then day * month_bucket months (t div day)
          else if weeks > 0 then 4 * day + 7 * weeks * day * ((t - 4 * day) div (7 * weeks * day))
          else if every \<le> 1 then t
          else every * (t div every))"

lemma plan_unit_truncate_bucket:
  assumes "plan_unit_truncate m w d n tick on_date = Inr plan" and "0 \<le> m" "0 \<le> w" "0 \<le> d" "0 \<le> n"
  shows "bucket_start plan tick t = duration_bucket tick (m, w, d, n) t"
  using assms by (auto simp: plan_unit_truncate_def duration_bucket_def Let_def split: if_splits)

lemma whole_ticks_div:
  assumes "tick \<in> set tick_sizes"
  shows "(d * ns_per_day + n) div tick = d * (ns_per_day div tick) + n div tick"
proof -
  have "ns_per_day div tick * tick = ns_per_day" using assms by (auto simp: tick_sizes_def ns_per_day_def)
  then have "d * ns_per_day + n = n + d * (ns_per_day div tick) * tick" by (simp only: mult.assoc add.commute)
  moreover have "tick \<noteq> 0" using assms by (auto simp: tick_sizes_def)
  ultimately show ?thesis using div_mult_self1 [of tick n "d * (ns_per_day div tick)"] by (simp only:) simp
qed

lemma plan_truncate_bucket:
  assumes p: "plan_truncate (DatetimeType tick utc) every = Inr plan" and tick: "tick \<in> set tick_sizes"
    and e: "parse_duration_string every = Some (m, w, d, n)"
  shows "bucket_start plan tick t = duration_bucket tick (m, w, d, n) t"
proof -
  have nn: "0 \<le> m" "0 \<le> w" "0 \<le> d" "0 \<le> n" using parsed_nonneg [OF e] by auto
  define T where "T = d * (ns_per_day div tick) + n div tick"
  have utc: "utc" using p e by (auto simp: plan_truncate_def split: if_splits)
  show ?thesis
  proof (cases "m > 0 \<or> w > 0")
    case True
    then have "plan_unit_truncate m w d n tick False = Inr plan" using p e utc by (simp add: plan_truncate_def)
    then show ?thesis using plan_unit_truncate_bucket [OF _ nn] by blast
  next
    case nocal: False
    then have b: "duration_bucket tick (m, w, d, n) t = (if T \<le> 1 then t else T * (t div T))"
      using nn by (simp add: duration_bucket_def T_def Let_def)
    have plan: "(if T \<le> 1 then Inr Identity
       else case floor_datetimes_frequency tick (d * ns_per_day + n) of Some f \<Rightarrow> Inr (FloorDatetimes f)
            | None \<Rightarrow> if T > max_truncate_ticks then Inl NotImplementedError else Inr (Fixed T 0 False)) = Inr plan"
      using p nocal unfolding plan_truncate_def T_def Let_def e by (simp add: utc)
    show ?thesis
    proof (cases "floor_datetimes_frequency tick (d * ns_per_day + n)")
      case None
      then show ?thesis using plan b by (auto split: if_splits)
    next
      case (Some f)
      have "f div tick = T"
        using floor_datetimes_frequency_Some [OF Some] whole_ticks_div [OF tick, of d n] by (simp add: T_def)
      then show ?thesis using plan b Some by (auto split: if_splits)
    qed
  qed
qed

text \<open>C15: a \<open>Datetime\<close> column (naive or UTC, in nanoseconds, microseconds or milliseconds) is truncated
  to the start of the bucket of its duration in the proleptic Gregorian calendar, over the whole
  64-bit range: the 16-bit years and 32-bit days of the calendar functions, the modulus of libcudf
  and the multiplications lose nothing, and only the result itself is reduced to 64 bits.  (Weeks
  are anchored at 5 January 1970, and the shift to that anchor must not underflow.)\<close>

theorem truncate_datetime_correct:
  assumes e: "parse_duration_string every = Some (m, w, d, n)"
    and p: "plan_truncate (DatetimeType tick utc) every = Inr plan" and tick: "tick \<in> set tick_sizes"
    and v: "in_i64 v" and s: "w > 0 \<longrightarrow> in_i64 (v - 4 * (ns_per_day div tick))"
  shows "truncate_value tick plan v = wrap64 (duration_bucket tick (m, w, d, n) v)"
proof -
  have ok: "plan_ok tick plan" "\<not> plan_on_date plan" using plan_truncate_ok [OF p tick] by auto
  have "shift_fits plan v"
  proof (cases plan)
    case (Weekly a b c)
    then have "w > 0"
      using p e by (auto simp: plan_truncate_def plan_unit_truncate_def Let_def split: if_splits option.splits)
    then show ?thesis using Weekly ok s by simp
  qed simp_all
  then show ?thesis using truncate_value_eq [OF ok tick v] plan_truncate_bucket [OF p tick e] by simp
qed

lemma truncate_datetime_correct_witness:
  "truncate_value 1000000 (Monthly 3 86400000 False) 1709251200000 = wrap64 (duration_bucket 1000000 (3, 0, 0, 0) 1709251200000) \<and>
   duration_bucket 1000000 (3, 0, 0, 0) 1709251200000 = 1704067200000"
proof -
  have e: "parse_duration_string ''1q'' = Some (3, 0, 0, 0)" by code_simp
  have p: "plan_truncate (DatetimeType 1000000 True) ''1q'' = Inr (Monthly 3 86400000 False)" by code_simp
  have t: "1000000 \<in> set tick_sizes" by (simp add: tick_sizes_def)
  have b: "duration_bucket 1000000 (3, 0, 0, 0) 1709251200000 = 1704067200000" by code_simp
  show ?thesis using truncate_datetime_correct [OF e p t, of 1709251200000] b by (simp add: in_i64_def)
qed

text \<open>On the values whose buckets start within 64 bits, truncating never moves a value forward,
  and keeps the order of a column: what the derived keys of an order metadata rest on.\<close>

theorem truncate_keeps_order:
  assumes p: "plan_truncate (DatetimeType tick utc) every = Inr plan" and tick: "tick \<in> set tick_sizes"
    and u: "in_i64 u" "shift_fits plan u" "in_i64 (bucket_start plan tick u)" and v: "in_i64 v" "u \<le> v"
  shows "truncate_value tick plan u \<le> u \<and> truncate_value tick plan u \<le> truncate_value tick plan v"
proof -
  have ok: "plan_ok tick plan" "\<not> plan_on_date plan" using plan_truncate_ok [OF p tick] by auto
  have mono: "bucket_start plan tick u \<le> bucket_start plan tick v" by (rule bucket_start_mono [OF ok(1) tick v(2)])
  have le: "bucket_start plan tick u \<le> u" "bucket_start plan tick v \<le> v" using bucket_start_le [OF ok(1) tick] by auto
  have "in_i64 (bucket_start plan tick v)" using u(3) v(1) mono le(2) by (auto simp: in_i64_def)
  moreover have "shift_fits plan v"
    using u(2) v ok(1) tick_day_pos [OF tick] by (cases plan) (auto simp: in_i64_def)
  ultimately show ?thesis
    using truncate_value_eq [OF ok tick u(1,2)] truncate_value_eq [OF ok tick v(1)] u(3) mono le(1)
    by (simp add: wrap64_id)
qed

lemma truncate_keeps_order_witness:
  "truncate_value 1 (Fixed 5400000000000 0 False) (-1) \<le> -1 \<and>
   truncate_value 1 (Fixed 5400000000000 0 False) (-1) \<le> truncate_value 1 (Fixed 5400000000000 0 False) 7"
proof -
  have p: "plan_truncate (DatetimeType 1 True) ''1h30m'' = Inr (Fixed 5400000000000 0 False)" by code_simp
  show ?thesis
    using truncate_keeps_order [OF p, of "-1" 7] by (simp add: tick_sizes_def in_i64_def)
qed

text \<open>Below the first bucket of the 64-bit range the order is lost: truncating the earliest
  nanosecond timestamp to a day wraps to a timestamp after every other truncated value.\<close>

theorem truncate_wraps_first_day:
  "plan_truncate (DatetimeType 1 True) ''1d'' = Inr (FloorDatetimes 86400000000000) \<and>
   truncate_value 1 (FloorDatetimes 86400000000000) (- (2 ^ 63)) = 9223371273709551616 \<and>
   truncate_value 1 (FloorDatetimes 86400000000000) (2 ^ 63 - 1) = 9223286400000000000"
  by code_simp

section \<open>Dates\<close>

text \<open>On a \<open>Date\<close> column a duration of whole days truncates to the day its bucket starts on.\<close>

definition day_bucket :: "int \<Rightarrow> int \<Rightarrow> int \<Rightarrow> int \<Rightarrow> int" where
  "day_bucket months weeks days v =
     (if months > 0 then month_bucket months v
      else if weeks > 0 then 4 + 7 * weeks * ((v - 4) div (7 * weeks))
      else days * (v div days))"

lemma duration_bucket_days:
  assumes "m > 0 \<or> w > 0 \<or> d > 0" and "0 \<le> m" "0 \<le> w" "0 \<le> d"
  shows "duration_bucket 1000000 (m, w, d, 0) (v * ms_per_day) = day_bucket m w d v * ms_per_day"
proof -
  have c: "(v * 86400000 - 4 * 86400000) div (7 * w * 86400000) = (v - 4) div (7 * w)" if "w > 0"
    using div_mult_mult2 [of 86400000 "v - 4" "7 * w"] by (simp add: left_diff_distrib)
  have f: "(v * 86400000) div (d * 86400000) = v div d"
    using div_mult_mult2 [of 86400000 v d] by simp
  show ?thesis
  proof (cases "m > 0 \<or> w > 0")
    case True
    then show ?thesis
      using c by (cases "m > 0"; simp add: duration_bucket_def day_bucket_def Let_def ms_per_day_def ns_per_day_def algebra_simps)
  next
    case False
    then have "d > 0" using assms by simp
    then show ?thesis
      using f False by (simp add: duration_bucket_def day_bucket_def Let_def ms_per_day_def ns_per_day_def mult.commute mult.left_commute)
  qed
qed

lemma i64_div_days:
  assumes "- (2 ^ 31) \<le> k" and "k < 2 ^ 31"
  shows "sint (i64_div (word_of_int (k * ms_per_day)) (word_of_int ms_per_day)) = k"
proof -
  have i: "in_i64 (k * ms_per_day)" using assms by (simp add: in_i64_def ms_per_day_def)
  have j: "in_i64 ms_per_day" "in_i64 k" using assms by (simp_all add: in_i64_def ms_per_day_def)
  have "(k * ms_per_day) sdiv ms_per_day = k"
    by (simp add: signed_divide_int_def ms_per_day_def sgn_mult abs_mult sgn_mult_abs)
  then show ?thesis using i j by (simp add: i64_div_def sint_i64 wrap64_id del: of_int_mult)
qed

lemma plan_truncate_date_ok:
  assumes p: "plan_truncate DateType every = Inr plan" and e: "parse_duration_string every = Some (m, w, d, 0)"
  shows "plan_ok 1000000 plan \<and> plan_on_date plan \<and> (m > 0 \<or> w > 0 \<or> d > 0) \<and>
    (\<forall>t. bucket_start plan 1000000 t = duration_bucket 1000000 (m, w, d, 0) t)"
proof -
  have nn: "0 \<le> m" "0 \<le> w" "0 \<le> d" using parsed_nonneg [OF e] by auto
  have q: "plan_unit_truncate m w d 0 1000000 True = Inr plan" using p e by (simp add: plan_truncate_def)
  have t: "1000000 \<in> set tick_sizes" by (simp add: tick_sizes_def)
  have "plan \<noteq> Identity"
    using q nn by (auto simp: plan_unit_truncate_def Let_def ns_per_day_def split: if_splits)
  moreover have "m > 0 \<or> w > 0 \<or> d > 0" using q by (auto simp: plan_unit_truncate_def split: if_splits)
  ultimately show ?thesis
    using plan_unit_truncate_ok [OF q nn(1,2) t] plan_unit_truncate_bucket [OF q nn] by auto
qed

text \<open>A \<open>Date\<close> is truncated to the day its bucket of whole days, weeks or months starts on, when
  that day is itself a date: the detour over 64-bit milliseconds and the division that rounds
  toward zero lose nothing.\<close>

theorem truncate_date_correct:
  assumes e: "parse_duration_string every = Some (m, w, d, 0)" and p: "plan_truncate DateType every = Inr plan"
    and v: "- (2 ^ 31) \<le> v" "v < 2 ^ 31" and b: "- (2 ^ 31) \<le> day_bucket m w d v"
  shows "truncate_value 1000000 plan v = day_bucket m w d v"
proof -
  have nn: "0 \<le> m" "0 \<le> w" "0 \<le> d" using parsed_nonneg [OF e] by auto
  have t: "1000000 \<in> set tick_sizes" by (simp add: tick_sizes_def)
  have ok: "plan_ok 1000000 plan" "plan_on_date plan" "m > 0 \<or> w > 0 \<or> d > 0"
    and bs: "bucket_start plan 1000000 x = duration_bucket 1000000 (m, w, d, 0) x" for x
    using plan_truncate_date_ok [OF p e] by auto
  have db: "bucket_start plan 1000000 (v * ms_per_day) = day_bucket m w d v * ms_per_day"
    using duration_bucket_days [OF ok(3) nn] by (simp add: bs)
  have "day_bucket m w d v * ms_per_day \<le> v * ms_per_day" using bucket_start_le [OF ok(1) t] db by metis
  then have hi: "day_bucket m w d v < 2 ^ 31" using v(2) by (simp add: ms_per_day_def)
  have i: "in_i64 (v * ms_per_day)" using v by (simp add: in_i64_def ms_per_day_def)
  have s: "shift_fits plan (v * ms_per_day)"
    using v ok(1) by (cases plan) (simp_all add: in_i64_def ms_per_day_def ns_per_day_def)
  show ?thesis
    using truncate_value_date [OF ok(2)] plan_ticks_eq [OF ok(1) t i s] db i64_div_days [OF b hi]
      signed_take_bit_int_eq_self [of 31 "day_bucket m w d v"] b hi by simp
qed

lemma truncate_date_correct_witness: "truncate_value 1000000 (Weekly 604800000 86400000 True) (-1) = -3"
proof -
  have e: "parse_duration_string ''1w'' = Some (0, 1, 0, 0)" by code_simp
  have p: "plan_truncate DateType ''1w'' = Inr (Weekly 604800000 86400000 True)" by code_simp
  show ?thesis using truncate_date_correct [OF e p, of "-1"] by (simp add: day_bucket_def)
qed

section \<open>Duration strings\<close>

text \<open>A duration written out: digits and a unit for every component.\<close>

definition write_tokens :: "(string \<times> string) list \<Rightarrow> string" where
  "write_tokens ts = concat (map (\<lambda>(ds, u). ds @ u) ts)"

definition well_formed_token :: "string \<times> string \<Rightarrow> bool" where
  "well_formed_token t \<longleftrightarrow> fst t \<noteq> [] \<and> list_all is_digit (fst t) \<and> snd t \<in> set duration_units"

lemma unit_letters: "u \<in> set duration_units \<Longrightarrow> u \<noteq> [] \<and> list_all (\<lambda>c. \<not> is_digit c) u"
  by (auto simp: duration_units_def is_digit_def)

lemma match_unit_unique:
  assumes "u \<in> set duration_units" and "rest = [] \<or> is_digit (hd rest)"
  shows "match_unit duration_units (u @ rest) = Some (u, rest)"
proof -
  have d: "\<not> is_digit (CHR ''s'')" "\<not> is_digit (CHR ''o'')" by (simp_all add: is_digit_def)
  have r: "strip_prefix ''s'' rest = None" "strip_prefix ''o'' rest = None"
    using assms(2) d by (cases rest; auto)+
  show ?thesis
    using assms(1) r unfolding duration_units_def by (cases rest) (auto split: if_splits)
qed

lemma duration_tokens_write:
  "list_all well_formed_token ts \<Longrightarrow> duration_tokens (write_tokens ts) = Some (map (\<lambda>(ds, u). (number ds, u)) ts)"
proof (induction ts)
  case Nil
  then show ?case by (simp add: write_tokens_def duration_tokens.simps)
next
  case (Cons t ts)
  obtain ds u where t: "t = (ds, u)" by (cases t)
  have wf: "ds \<noteq> []" "list_all is_digit ds" "u \<in> set duration_units"
    using Cons.prems t by (simp_all add: well_formed_token_def)
  have rest: "write_tokens ts = [] \<or> is_digit (hd (write_tokens ts))"
    using Cons.prems by (cases ts) (auto simp: write_tokens_def well_formed_token_def list_all_iff)
  have w: "write_tokens (t # ts) = ds @ (u @ write_tokens ts)" by (simp add: write_tokens_def t)
  have tw: "takeWhile is_digit (ds @ (u @ r)) = ds" "dropWhile is_digit (ds @ (u @ r)) = u @ r" for r
    using wf unit_letters [OF wf(3)] by (cases u; simp add: takeWhile_append2 dropWhile_append2 list_all_iff)+
  have "duration_tokens (ds @ (u @ write_tokens ts)) = map_option ((#) (number ds, u)) (duration_tokens (write_tokens ts))"
    using match_unit_unique [OF wf(3) rest] wf(1) by (subst duration_tokens.simps) (simp add: tw Let_def)
  then show ?case using Cons unfolding w by (simp add: t)
qed

text \<open>C16: writing a duration as digits and units and parsing it gives back the sum of its components,
  whatever units follow one another (a month is never read as a minute, nor a millisecond as a
  minute followed by a second).\<close>

theorem parse_duration_roundtrip:
  assumes "list_all well_formed_token ts" and "ts \<noteq> []"
  shows "parse_duration_string (write_tokens ts) =
    Some (foldl add_token (0, 0, 0, 0) (map (\<lambda>(ds, u). (number ds, u)) ts))"
proof -
  have "write_tokens ts \<noteq> []" using assms by (cases ts) (auto simp: write_tokens_def well_formed_token_def)
  then show ?thesis using duration_tokens_write [OF assms(1)] by (simp add: parse_duration_string_def)
qed

lemma parse_duration_roundtrip_witness:
  "parse_duration_string ''1mo2m30ms'' = Some (1, 0, 0, 120030000000)"
proof -
  have "list_all well_formed_token [(''1'', ''mo''), (''2'', ''m''), (''30'', ''ms'')]" by code_simp
  from parse_duration_roundtrip [OF this] show ?thesis
    by (simp add: write_tokens_def add_token_def ns_per_unit_def number_def digit_value_def)
qed

end
