(* ===== verification/GroupExpr.thy ===== *)
theory GroupExpr
  imports KeyOrder StableSort "HOL-Library.Product_Lexorder" "HOL-Library.List_Lexorder" "HOL-Library.Char_ord"
begin

text \<open>
  The expressions of a group-by of the streaming engine and their values: the nodes of
  \<open>cudf_polars/dsl/expressions/\<close> that a group-by request is decomposed into, how a pointwise node is
  evaluated on a row, and what one grouped aggregation returns for the rows of a group
  (\<open>GroupBy.do_evaluate\<close> of \<open>dsl/ir.py\<close> and the libcudf aggregations it requests).

  A cell is \<open>None\<close> for null.  Floating-point numbers are elements of an ordered field: rounding,
  infinities and NaN are not modelled, and a division by zero, which would leave the field, is the
  value \<open>Inl ZeroDivisionError\<close>.  Integer sums are accumulated in 64 bits and wrap.
\<close>

section \<open>Values\<close>

datatype dtype = IntT nat | UIntT nat | FloatT | BoolT | TextT | MomentsT

datatype 'f atom = IntV int | FltV 'f | BoolV bool | TextV string | MomentsV int 'f 'f

type_synonym 'f cell = "'f atom option"

text \<open>A row of a table: its cells by column name, in the order of the columns.\<close>

type_synonym 'f row = "(string, 'f cell) pydict"

text \<open>The order of values of one type, as the minimum, the maximum and the sorts use it.\<close>

fun atom_key :: "'f::zero atom \<Rightarrow> nat \<times> int \<times> 'f \<times> 'f \<times> string" where
  "atom_key (IntV n) = (0, n, 0, 0, [])"
| "atom_key (FltV x) = (1, 0, x, 0, [])"
| "atom_key (BoolV b) = (2, if b then 1 else 0, 0, 0, [])"
| "atom_key (TextV s) = (3, 0, 0, 0, s)"
| "atom_key (MomentsV n x y) = (4, n, x, y, [])"

lemma atom_key_inject: "atom_key a = atom_key b \<Longrightarrow> a = b"
  by (cases a; cases b) (auto split: if_splits)

instantiation atom :: (linordered_field) linorder
begin

definition less_eq_atom :: "'a atom \<Rightarrow> 'a atom \<Rightarrow> bool" where
  "a \<le> b \<longleftrightarrow> atom_key a \<le> atom_key b"

definition less_atom :: "'a atom \<Rightarrow> 'a atom \<Rightarrow> bool" where
  "a < b \<longleftrightarrow> atom_key a < atom_key b"

instance
  by standard (auto simp: less_eq_atom_def less_atom_def intro: atom_key_inject)

end

section \<open>Expressions\<close>

datatype binary_operator = MUL | SUB | DIV | GREATER

datatype agg_name =
    AggMin | AggMax | AggMedian | AggNUnique | AggFirst | AggFirstNonNull | AggItem | AggImplode
  | AggLast | AggMean | AggM2 | AggMergeM2 | AggSum | AggProduct | AggCount | AggCorr | AggStd
  | AggVar | AggQuantile

text \<open>The \<open>options\<close> of an aggregation: a flag, the \<open>ddof\<close> of \<open>std\<close> and \<open>var\<close>, or none.\<close>

datatype agg_options = NoOptions | Flag bool | Ddof nat

text \<open>\<open>so_stable\<close>, \<open>so_nulls_last\<close>, \<open>so_descending\<close>: the options of a sorted aggregation.\<close>

record sorted_options =
  so_stable :: bool
  so_nulls_last :: "bool list"
  so_descending :: "bool list"

text \<open>\<open>Other\<close> is any further pointwise node, told apart by a number.\<close>

datatype 'f expr =
    Col dtype string
  | Literal dtype "'f cell"
  | Cast dtype bool "'f expr"
  | IsNotNull "'f expr"
  | BinOp dtype binary_operator "'f expr" "'f expr"
  | StructCreate dtype "'f expr" "'f expr" "'f expr"
  | FieldByName dtype string "'f expr"
  | Ternary dtype "'f expr" "'f expr" "'f expr"
  | MaskNans dtype "'f expr"
  | Sqrt dtype "'f expr"
  | Other dtype nat "'f expr list"
  | Len dtype
  | Agg dtype agg_name agg_options "'f expr"
  | SortedAgg dtype agg_name sorted_options "'f expr" "'f expr list"

type_synonym 'f named = "string \<times> 'f expr"

fun dtype_of :: "'f expr \<Rightarrow> dtype" where
  "dtype_of (Col t _) = t"
| "dtype_of (Literal t _) = t"
| "dtype_of (Cast t _ _) = t"
| "dtype_of (IsNotNull _) = BoolT"
| "dtype_of (BinOp t _ _ _) = t"
| "dtype_of (StructCreate t _ _ _) = t"
| "dtype_of (FieldByName t _ _) = t"
| "dtype_of (Ternary t _ _ _) = t"
| "dtype_of (MaskNans t _) = t"
| "dtype_of (Sqrt t _) = t"
| "dtype_of (Other t _ _) = t"
| "dtype_of (Len t) = t"
| "dtype_of (Agg t _ _ _) = t"
| "dtype_of (SortedAgg t _ _ _ _) = t"

fun fits :: "dtype \<Rightarrow> int \<Rightarrow> bool" where
  "fits (IntT w) n \<longleftrightarrow> 0 < w \<and> - (2 ^ (w - 1)) \<le> n \<and> n < 2 ^ (w - 1)"
| "fits (UIntT w) n \<longleftrightarrow> 0 \<le> n \<and> n < 2 ^ w"
| "fits _ n \<longleftrightarrow> False"

fun has_type :: "dtype \<Rightarrow> 'f atom \<Rightarrow> bool" where
  "has_type t (IntV n) \<longleftrightarrow> fits t n"
| "has_type FloatT (FltV _) \<longleftrightarrow> True"
| "has_type BoolT (BoolV _) \<longleftrightarrow> True"
| "has_type TextT (TextV _) \<longleftrightarrow> True"
| "has_type MomentsT (MomentsV _ _ _) \<longleftrightarrow> True"
| "has_type _ _ \<longleftrightarrow> False"

definition cell_has_type :: "dtype \<Rightarrow> 'f cell \<Rightarrow> bool" where
  "cell_has_type t c = (case c of None \<Rightarrow> True | Some a \<Rightarrow> has_type t a)"

definition is_integral :: "dtype \<Rightarrow> bool" where
  "is_integral t = (case t of IntT w \<Rightarrow> 0 < w \<and> w \<le> 64 | UIntT w \<Rightarrow> w \<le> 64 | _ \<Rightarrow> False)"

lemma is_integral_simps [simp]: "is_integral (IntT 64)" "\<not> is_integral FloatT"
  by (simp_all add: is_integral_def)

section \<open>Arithmetic\<close>

definition wrap_signed :: "nat \<Rightarrow> int \<Rightarrow> int" where
  "wrap_signed w n = (n + 2 ^ (w - 1)) mod 2 ^ w - 2 ^ (w - 1)"

text \<open>\<open>Column.astype\<close> between numeric types: libcudf wraps an integer that is out of range.\<close>

fun cast_cell :: "dtype \<Rightarrow> 'f::linordered_field cell \<Rightarrow> 'f cell res" where
  "cast_cell t None = Inr None"
| "cast_cell (IntT w) (Some (IntV n)) = Inr (Some (IntV (wrap_signed w n)))"
| "cast_cell (UIntT w) (Some (IntV n)) = Inr (Some (IntV (n mod 2 ^ w)))"
| "cast_cell (IntT w) (Some (BoolV b)) = Inr (Some (IntV (of_bool b)))"
| "cast_cell (UIntT w) (Some (BoolV b)) = Inr (Some (IntV (of_bool b)))"
| "cast_cell FloatT (Some (IntV n)) = Inr (Some (FltV (of_int n)))"
| "cast_cell FloatT (Some (FltV x)) = Inr (Some (FltV x))"
| "cast_cell FloatT (Some (BoolV b)) = Inr (Some (FltV (of_bool b)))"
| "cast_cell _ _ = Inl NotImplementedError"

fun number :: "'f::linordered_field atom \<Rightarrow> 'f res" where
  "number (IntV n) = Inr (of_int n)"
| "number (FltV x) = Inr x"
| "number (BoolV b) = Inr (of_bool b)"
| "number _ = Inl TypeError"

text \<open>\<open>BinOp\<close>: null when an operand is null; numbers are promoted.\<close>

fun apply_op :: "binary_operator \<Rightarrow> 'f::linordered_field \<Rightarrow> 'f \<Rightarrow> 'f atom res" where
  "apply_op MUL x y = Inr (FltV (x * y))"
| "apply_op SUB x y = Inr (FltV (x - y))"
| "apply_op DIV x y = (if y = 0 then Inl ZeroDivisionError else Inr (FltV (x / y)))"
| "apply_op GREATER x y = Inr (BoolV (x > y))"

fun binary_op :: "binary_operator \<Rightarrow> 'f::linordered_field cell \<Rightarrow> 'f cell \<Rightarrow> 'f cell res" where
  "binary_op f (Some a) (Some b) = rbind (number a) (\<lambda>x. rbind (number b) (\<lambda>y. rbind (apply_op f x y) (\<lambda>z. Inr (Some z))))"
| "binary_op f _ _ = Inr None"

section \<open>Rows\<close>

text \<open>What the library supplies: the further pointwise nodes, the casts from a string or to an integer
  from a float, the square root, the values left under a
  stripped null mask, the aggregations that are not decomposed, the permutation of an unstable sort
  of key tuples, the order flags of the key columns, and the order in which a hash group-by returns
  the distinct keys.\<close>

record 'f library =
  lb_other :: "nat \<Rightarrow> 'f cell list \<Rightarrow> 'f cell res"
  lb_cast :: "dtype \<Rightarrow> bool \<Rightarrow> 'f atom \<Rightarrow> 'f cell res"
  lb_sqrt :: "'f \<Rightarrow> 'f"
  lb_junk :: 'f
  lb_agg :: "agg_name \<Rightarrow> agg_options \<Rightarrow> 'f cell list \<Rightarrow> 'f cell res"
  lb_sort :: "(sort_direction \<times> null_order) list \<Rightarrow> 'f cell list list \<Rightarrow> nat list"
  lb_key_flags :: "(sort_direction \<times> null_order) list"
  lb_group_order :: "'f cell list list \<Rightarrow> 'f cell list list"

text \<open>\<open>Cast\<close>: a cast that is not strict turns an integer that is out of the range of the new integer
  type into null, where the library would wrap it.\<close>

fun cast_value :: "'f::linordered_field library \<Rightarrow> dtype \<Rightarrow> bool \<Rightarrow> 'f cell \<Rightarrow> 'f cell res" where
  "cast_value lb t strict None = Inr None"
| "cast_value lb t strict (Some (IntV n)) =
     (if is_integral t then if strict \<or> fits t n then cast_cell t (Some (IntV n)) else Inr None
      else if t = FloatT then Inr (Some (FltV (of_int n)))
      else lb_cast lb t strict (IntV n))"
| "cast_value lb t strict (Some (BoolV b)) =
     (if is_integral t \<or> t = FloatT then cast_cell t (Some (BoolV b)) else lb_cast lb t strict (BoolV b))"
| "cast_value lb FloatT strict (Some (FltV x)) = Inr (Some (FltV x))"
| "cast_value lb t strict (Some a) = lb_cast lb t strict a"

text \<open>\<open>_StructCreate\<close> drops the null masks of its children.\<close>

fun strip_mask :: "'f \<Rightarrow> 'f cell \<Rightarrow> 'f res" where
  "strip_mask junk None = Inr junk"
| "strip_mask junk (Some (FltV x)) = Inr x"
| "strip_mask junk (Some _) = Inl TypeError"

fun make_struct :: "'f \<Rightarrow> 'f cell \<Rightarrow> 'f cell \<Rightarrow> 'f cell \<Rightarrow> 'f cell res" where
  "make_struct junk (Some (IntV n)) c d =
     rbind (strip_mask junk c) (\<lambda>x. rbind (strip_mask junk d) (\<lambda>y. Inr (Some (MomentsV n x y))))"
| "make_struct junk _ c d = Inl TypeError"

text \<open>The field is a child column of the struct.  The structs of the decomposition are never null; a
  null one is read as a null field.\<close>

fun struct_field :: "string \<Rightarrow> 'f cell \<Rightarrow> 'f cell res" where
  "struct_field f None = Inr None"
| "struct_field f (Some (MomentsV n x y)) =
     (if f = ''count'' then Inr (Some (IntV n)) else if f = ''mean'' then Inr (Some (FltV x))
      else if f = ''m2'' then Inr (Some (FltV y)) else Inl AssertionError)"
| "struct_field f (Some _) = Inl TypeError"

definition ternary :: "'f cell \<Rightarrow> 'f cell \<Rightarrow> 'f cell \<Rightarrow> 'f cell" where
  "ternary c d e = (if c = Some (BoolV True) then d else e)"

lemma rmap_cong [fundef_cong]:
  "xs = ys \<Longrightarrow> (\<And>x. x \<in> set ys \<Longrightarrow> f x = g x) \<Longrightarrow> rmap f xs = rmap g ys"
  by (induction xs arbitrary: ys) auto

text \<open>A pointwise node on a row; an aggregation has no value on a row
  (\<open>Agg.do_evaluate\<close> outside the frame context); neither has \<open>Len\<close> inside a pointwise node here,
  although the code would put the number of rows of the chunk there.\<close>

fun eval :: "'f::linordered_field library \<Rightarrow> 'f row \<Rightarrow> 'f expr \<Rightarrow> 'f cell res" where
  "eval lb r (Col t name) = of_option KeyError (map_of r name)"
| "eval lb r (Literal t c) = Inr c"
| "eval lb r (Cast t s e) = rbind (eval lb r e) (cast_value lb t s)"
| "eval lb r (IsNotNull e) = rbind (eval lb r e) (\<lambda>c. Inr (Some (BoolV (c \<noteq> None))))"
| "eval lb r (BinOp t f d e) = rbind (eval lb r d) (\<lambda>c. rbind (eval lb r e) (binary_op f c))"
| "eval lb r (StructCreate t d e f) =
     rbind (eval lb r d) (\<lambda>x. rbind (eval lb r e) (\<lambda>y. rbind (eval lb r f) (make_struct (lb_junk lb) x y)))"
| "eval lb r (FieldByName t f e) = rbind (eval lb r e) (struct_field f)"
| "eval lb r (Ternary t d e f) =
     rbind (eval lb r d) (\<lambda>x. rbind (eval lb r e) (\<lambda>y. rbind (eval lb r f) (\<lambda>z. Inr (ternary x y z))))"
| "eval lb r (MaskNans t e) = eval lb r e"
| "eval lb r (Sqrt t e) = rbind (eval lb r e) (\<lambda>c.
     case c of None \<Rightarrow> Inr None | Some a \<Rightarrow> rbind (number a) (\<lambda>x. Inr (Some (FltV (lb_sqrt lb x)))))"
| "eval lb r (Other t n es) = rbind (rmap (eval lb r) es) (lb_other lb n)"
| "eval lb r (Len t) = Inl NotImplementedError"
| "eval lb r (Agg t a opt e) = Inl NotImplementedError"
| "eval lb r (SortedAgg t a opt e bs) = Inl NotImplementedError"

end
