(* ===== verification/GroupAgg.thy ===== *)
theory GroupAgg
  imports GroupExpr SortModel
begin

text \<open>
  One group-by over a table: what an aggregation request returns for the rows of a group, with the
  libcudf aggregations written out, the group-by node of \<open>dsl/ir.py\<close> and the \<open>Select\<close> after it.
  The specification of a request says which values are right for a group of rows; the value the
  group-by computes is one of them.
\<close>

section \<open>Aggregations of cells\<close>

definition valid :: "'f cell list \<Rightarrow> 'f atom list" where
  "valid vs = concat (map (case_option [] (\<lambda>a. [a])) vs)"

fun int_of :: "'f atom \<Rightarrow> int option" where
  "int_of (IntV n) = Some n"
| "int_of (BoolV b) = Some (of_bool b)"
| "int_of _ = None"

fun flt_of :: "'f atom \<Rightarrow> 'f option" where
  "flt_of (FltV x) = Some x"
| "flt_of _ = None"

text \<open>Integers and booleans are summed in 64 bits, floats in their own type.\<close>

definition sum_valid :: "'f::linordered_field atom list \<Rightarrow> 'f cell res" where
  "sum_valid as =
     (if as = [] then Inr None
      else case those (map int_of as) of
        Some ns \<Rightarrow> Inr (Some (IntV (wrap_signed 64 (sum_list ns))))
      | None \<Rightarrow> (case those (map flt_of as) of
          Some xs \<Rightarrow> Inr (Some (FltV (sum_list xs)))
        | None \<Rightarrow> Inl TypeError))"

fun square :: "'f::linordered_field atom \<Rightarrow> 'f atom" where
  "square (IntV n) = IntV (n * n)"
| "square (FltV x) = FltV (x * x)"
| "square a = a"

definition cell_number :: "'f::linordered_field cell \<Rightarrow> 'f res" where
  "cell_number c = (case c of None \<Rightarrow> Inr 0 | Some a \<Rightarrow> number a)"

text \<open>\<open>MEAN\<close> of the hash group-by: the sum divided by the count.\<close>

definition mean_valid :: "'f::linordered_field atom list \<Rightarrow> 'f cell res" where
  "mean_valid as =
     (if as = [] then Inr None
      else rbind (sum_valid as) (\<lambda>s. rbind (cell_number s) (\<lambda>x. Inr (Some (FltV (x / of_nat (length as)))))))"

definition m2_valid :: "'f::linordered_field atom list \<Rightarrow> 'f res" where
  "m2_valid as =
     (if as = [] then Inr 0
      else rbind (sum_valid (map square as)) (\<lambda>q. rbind (cell_number q) (\<lambda>sum_sqr.
           rbind (sum_valid as) (\<lambda>s. rbind (cell_number s) (\<lambda>sum.
             Inr (sum_sqr - sum * sum / of_nat (length as)))))))"

definition variance_valid :: "nat \<Rightarrow> 'f::linordered_field atom list \<Rightarrow> 'f option res" where
  "variance_valid ddof as =
     rbind (m2_valid as) (\<lambda>m2.
       Inr (let df = int (length as) - int ddof
            in if length as = 0 \<or> df \<le> 0 then None else Some (m2 / of_int df)))"

text \<open>\<open>merge_fn\<close> of \<open>group_merge_m2.cu\<close>, over any arithmetic: the operations of the doubles in the
  order the code applies them, and a count that wraps at 64 bits.  The field operations are the exact
  arithmetic.\<close>

record 'd arithmetic =
  fp_of_int :: "int \<Rightarrow> 'd"
  fp_add :: "'d \<Rightarrow> 'd \<Rightarrow> 'd"
  fp_sub :: "'d \<Rightarrow> 'd \<Rightarrow> 'd"
  fp_mul :: "'d \<Rightarrow> 'd \<Rightarrow> 'd"
  fp_div :: "'d \<Rightarrow> 'd \<Rightarrow> 'd"

definition exact :: "'f::linordered_field arithmetic" where
  "exact = \<lparr>fp_of_int = of_int, fp_add = (+), fp_sub = (-), fp_mul = (*), fp_div = (/)\<rparr>"

text \<open>One step of the loop.\<close>

fun merge_step :: "'d arithmetic \<Rightarrow> int \<times> 'd \<times> 'd \<Rightarrow> int \<times> 'd \<times> 'd \<Rightarrow> int \<times> 'd \<times> 'd" where
  "merge_step ar (n, avg, m2) (partial_n, partial_avg, partial_m2) =
     (if partial_n = 0 then (n, avg, m2)
      else if n = 0 then (partial_n, partial_avg, partial_m2)
      else
        (let new_n = wrap_signed 64 (n + partial_n);
             delta = fp_sub ar partial_avg avg;
             delta_n = fp_div ar delta (fp_of_int ar new_n)
         in (new_n, fp_add ar avg (fp_mul ar delta_n (fp_of_int ar partial_n)),
             fp_add ar m2 (fp_add ar partial_m2
               (fp_mul ar (fp_mul ar (fp_mul ar delta delta_n) (fp_of_int ar n)) (fp_of_int ar partial_n))))))"

definition merge_partials :: "'d arithmetic \<Rightarrow> (int \<times> 'd \<times> 'd) list \<Rightarrow> int \<times> 'd \<times> 'd" where
  "merge_partials ar = foldl (merge_step ar) (0, fp_of_int ar 0, fp_of_int ar 0)"

fun moments_of :: "'f cell \<Rightarrow> (int \<times> 'f \<times> 'f) res" where
  "moments_of (Some (MomentsV n x y)) = Inr (n, x, y)"
| "moments_of _ = Inl TypeError"

definition merge_m2 :: "'f arithmetic \<Rightarrow> 'f cell list \<Rightarrow> 'f cell res" where
  "merge_m2 ar vs = rbind (rmap moments_of vs) (\<lambda>ms.
     let (n, x, y) = merge_partials ar ms in Inr (Some (MomentsV n x y)))"

definition nth_first :: "'f cell list \<Rightarrow> 'f cell" where
  "nth_first vs = (case vs of [] \<Rightarrow> None | v # _ \<Rightarrow> v)"

definition nth_last :: "'f cell list \<Rightarrow> 'f cell" where
  "nth_last vs = (if vs = [] then None else last vs)"

definition first_valid :: "'f cell list \<Rightarrow> 'f cell" where
  "first_valid vs = (case valid vs of [] \<Rightarrow> None | a # _ \<Rightarrow> Some a)"

definition extreme :: "('f atom set \<Rightarrow> 'f atom) \<Rightarrow> 'f cell list \<Rightarrow> 'f cell" where
  "extreme f vs = (if valid vs = [] then None else Some (f (set (valid vs))))"

definition count_cells :: "bool \<Rightarrow> 'f cell list \<Rightarrow> nat" where
  "count_cells include_nulls vs = (if include_nulls then length vs else length (valid vs))"

definition unique_cells :: "bool \<Rightarrow> 'f cell list \<Rightarrow> nat" where
  "unique_cells exclude_nulls vs = card (set (if exclude_nulls then map Some (valid vs) else vs))"

text \<open>The pylibcudf aggregation of a request, on the cells of one group.\<close>

fun aggregate :: "'f::linordered_field library \<Rightarrow> agg_name \<Rightarrow> agg_options \<Rightarrow> 'f cell list \<Rightarrow> 'f cell res" where
  "aggregate lb AggMin opt vs = Inr (extreme Min vs)"
| "aggregate lb AggMax opt vs = Inr (extreme Max vs)"
| "aggregate lb AggSum opt vs = sum_valid (valid vs)"
| "aggregate lb AggCount opt vs = Inr (Some (IntV (int (count_cells (opt = Flag True) vs))))"
| "aggregate lb AggNUnique opt vs = Inr (Some (IntV (int (unique_cells (opt = Flag True) vs))))"
| "aggregate lb AggFirst opt vs = Inr (nth_first vs)"
| "aggregate lb AggItem opt vs = Inr (nth_first vs)"
| "aggregate lb AggFirstNonNull opt vs = Inr (first_valid vs)"
| "aggregate lb AggLast opt vs = Inr (nth_last vs)"
| "aggregate lb AggMean opt vs = mean_valid (valid vs)"
| "aggregate lb AggVar (Ddof d) vs =
     rbind (variance_valid d (valid vs)) (\<lambda>v. Inr (map_option FltV v))"
| "aggregate lb AggStd (Ddof d) vs =
     rbind (variance_valid d (valid vs)) (\<lambda>v. Inr (map_option (\<lambda>x. FltV (lb_sqrt lb x)) v))"
| "aggregate lb AggMergeM2 opt vs = merge_m2 exact vs"
| "aggregate lb a opt vs = lb_agg lb a opt vs"

section \<open>Requests\<close>

text \<open>A table whose rows are paired with their keys, and the rows of one group.\<close>

type_synonym 'f keyed = "('f cell list \<times> 'f row) list"

definition group :: "('k \<times> 'r) list \<Rightarrow> 'k \<Rightarrow> 'r list" where
  "group kt k = map snd (filter (\<lambda>p. fst p = k) kt)"

definition child_value :: "'f::linordered_field library \<Rightarrow> 'f row list \<Rightarrow> 'f expr \<Rightarrow> 'f cell list res" where
  "child_value lb rs e = rmap (\<lambda>r. eval lb r e) rs"

definition agg_value ::
  "'f::linordered_field library \<Rightarrow> dtype \<Rightarrow> agg_name \<Rightarrow> agg_options \<Rightarrow> 'f expr \<Rightarrow> 'f row list \<Rightarrow> 'f cell res" where
  "agg_value lb t a opt e rs =
     rbind (child_value lb rs e) (\<lambda>vs. rbind (aggregate lb a opt vs) (\<lambda>v.
       if a = AggSum \<and> is_integral (dtype_of e) then cast_cell t v else Inr v))"

definition sort_flags :: "sorted_options \<Rightarrow> nat \<Rightarrow> (sort_direction \<times> null_order) list" where
  "sort_flags so num_keys =
     (case sort_order (so_descending so) (so_nulls_last so) num_keys of
        Inl _ \<Rightarrow> [] | Inr (orders, nulls) \<Rightarrow> zip orders nulls)"

definition tuple_order :: "(sort_direction \<times> null_order) list \<Rightarrow> 'a::linorder option list \<Rightarrow> 'a option list \<Rightarrow> bool" where
  "tuple_order fs x y \<longleftrightarrow> \<not> tuple_lt value_lt fs y x"

text \<open>\<open>_evaluate_sorted_aggregations\<close>: the values, sorted by the keys and the order expressions, then
  \<open>first\<close> or \<open>last\<close> of every group.\<close>

definition sorted_entries ::
  "'f::linordered_field library \<Rightarrow> sorted_options \<Rightarrow> 'f expr \<Rightarrow> 'f expr list \<Rightarrow> 'f keyed \<Rightarrow> ('f cell list \<times> 'f cell) list res" where
  "sorted_entries lb so e bs kt =
     rbind (rmap (\<lambda>(k, r). rbind (rmap (eval lb r) bs) (\<lambda>b. rbind (eval lb r e) (\<lambda>v. Inr (k, b, v)))) kt) (\<lambda>es.
       let fs = lb_key_flags lb @ sort_flags so (length bs)
       in Inr (map (\<lambda>(k, b, v). (k, v))
           (if so_stable so then stable_sort (\<lambda>(k, b, v) (k', b', v'). tuple_order fs (k @ b) (k' @ b')) es
            else map (nth es) (lb_sort lb fs (map (\<lambda>(k, b, v). k @ b) es)))))"

fun request_value :: "'f::linordered_field library \<Rightarrow> 'f keyed \<Rightarrow> 'f expr \<Rightarrow> 'f cell list \<Rightarrow> 'f cell res" where
  "request_value lb kt (Len t) k = Inr (Some (IntV (int (length (group kt k)))))"
| "request_value lb kt (Agg t a opt e) k = agg_value lb t a opt e (group kt k)"
| "request_value lb kt (SortedAgg t a so e bs) k =
     rbind (sorted_entries lb so e bs kt) (\<lambda>es. aggregate lb a NoOptions (group es k))"
| "request_value lb kt e k = rbind (child_value lb (group kt k) e) (lb_agg lb AggImplode NoOptions)"

section \<open>The group-by node\<close>

record 'f groupby_ir =
  gb_schema :: "string list"
  gb_keys :: "'f named list"
  gb_aggs :: "'f named list"
  gb_maintain_order :: bool
  gb_zlice :: "(int \<times> int option) option"

definition key_of :: "'f::linordered_field library \<Rightarrow> 'f named list \<Rightarrow> 'f row \<Rightarrow> 'f cell list res" where
  "key_of lb keys r = rmap (\<lambda>(n, e). eval lb r e) keys"

definition keyed_rows :: "'f::linordered_field library \<Rightarrow> 'f named list \<Rightarrow> 'f row list \<Rightarrow> 'f keyed res" where
  "keyed_rows lb keys rs = rmap (\<lambda>r. rbind (key_of lb keys r) (\<lambda>k. Inr (k, r))) rs"

definition appearance :: "'k list \<Rightarrow> 'k list" where
  "appearance ks = rev (remdups (rev ks))"

definition group_by :: "'f::linordered_field library \<Rightarrow> 'f groupby_ir \<Rightarrow> 'f row list \<Rightarrow> 'f row list res" where
  "group_by lb ir rs =
     rbind (keyed_rows lb (gb_keys ir) rs) (\<lambda>kt.
     let ks = map fst kt;
         order = (if gb_maintain_order ir then appearance ks else lb_group_order lb ks)
     in rbind (rmap (\<lambda>k. rbind (rmap (\<lambda>(n, e). request_value lb kt e k) (gb_aggs ir)) (\<lambda>vs.
          Inr (dict_of (zip (map fst (gb_keys ir) @ map fst (gb_aggs ir)) (k @ vs))))) order) (\<lambda>out.
        Inr (slice_rows (gb_zlice ir) out)))"

definition select :: "'f::linordered_field library \<Rightarrow> 'f named list \<Rightarrow> 'f row list \<Rightarrow> 'f row list res" where
  "select lb es rs =
     rmap (\<lambda>r. rbind (rmap (\<lambda>(n, e). rbind (eval lb r e) (\<lambda>v. Inr (n, v))) es) (\<lambda>ps. Inr (dict_of ps))) rs"

section \<open>What a request returns\<close>

definition by_tuple :: "'f::linordered_field library \<Rightarrow> 'f expr list \<Rightarrow> 'f row \<Rightarrow> 'f cell list" where
  "by_tuple lb bs r = (case rmap (eval lb r) bs of Inl _ \<Rightarrow> [] | Inr b \<Rightarrow> b)"

text \<open>Row \<open>r\<close> may be selected although \<open>s\<close> is before it, or after it: \<open>first\<close> takes a least row and
  \<open>last\<close> a greatest one, and a stable sort decides between equal ones by position.\<close>

definition tuple_beats ::
  "agg_name \<Rightarrow> bool \<Rightarrow> (sort_direction \<times> null_order) list \<Rightarrow> 'a::linorder option list \<Rightarrow> 'a option list \<Rightarrow> bool" where
  "tuple_beats a strictly fs x y =
     (if a = AggFirst then (if strictly then tuple_lt value_lt fs x y else tuple_order fs x y)
      else (if strictly then tuple_lt value_lt fs y x else tuple_order fs y x))"

definition beats ::
  "'f::linordered_field library \<Rightarrow> agg_name \<Rightarrow> bool \<Rightarrow> (sort_direction \<times> null_order) list \<Rightarrow> 'f expr list
   \<Rightarrow> 'f row \<Rightarrow> 'f row \<Rightarrow> bool" where
  "beats lb a strictly fs bs r s = tuple_beats a strictly fs (by_tuple lb bs r) (by_tuple lb bs s)"

definition selected ::
  "'f::linordered_field library \<Rightarrow> agg_name \<Rightarrow> sorted_options \<Rightarrow> 'f expr list \<Rightarrow> 'f row list \<Rightarrow> 'f row \<Rightarrow> 'f row list \<Rightarrow> bool" where
  "selected lb a so bs before r after =
     (let fs = sort_flags so (length bs)
      in list_all (beats lb a (so_stable so \<and> a = AggFirst) fs bs r) before
         \<and> list_all (beats lb a (so_stable so \<and> a = AggLast) fs bs r) after)"

fun agg_spec :: "'f::linordered_field library \<Rightarrow> 'f expr \<Rightarrow> 'f row list \<Rightarrow> 'f cell \<Rightarrow> bool" where
  "agg_spec lb (Len t) rs v \<longleftrightarrow> v = Some (IntV (int (length rs)))"
| "agg_spec lb (Agg t a opt e) rs v \<longleftrightarrow>
     (if a = AggItem then (\<exists>r \<in> set rs. eval lb r e = Inr v) else agg_value lb t a opt e rs = Inr v)"
| "agg_spec lb (SortedAgg t a so e bs) rs v \<longleftrightarrow>
     (\<exists>before r after. rs = before @ r # after \<and> selected lb a so bs before r after \<and> eval lb r e = Inr v)"
| "agg_spec lb e rs v \<longleftrightarrow> False"

text \<open>The distinct keys, once each, every group with right values.\<close>

definition keys_in :: "'f::linordered_field library \<Rightarrow> 'f named list \<Rightarrow> 'f row list \<Rightarrow> 'f cell list list" where
  "keys_in lb keys rs = concat (map (\<lambda>r. case key_of lb keys r of Inl _ \<Rightarrow> [] | Inr k \<Rightarrow> [k]) rs)"

definition rows_of :: "'f::linordered_field library \<Rightarrow> 'f named list \<Rightarrow> 'f row list \<Rightarrow> 'f cell list \<Rightarrow> 'f row list" where
  "rows_of lb keys rs k = filter (\<lambda>r. key_of lb keys r = Inr k) rs"

definition row_key :: "'f named list \<Rightarrow> 'f row \<Rightarrow> 'f cell list" where
  "row_key keys r = map (\<lambda>(n, e). case map_of r n of None \<Rightarrow> None | Some c \<Rightarrow> c) keys"

end
