(* ===== verification/GroupDecompose.thy ===== *)
theory GroupDecompose
  imports GroupAgg
begin

text \<open>
  The decomposition of group-by aggregations (\<open>cudf_polars/streaming/groupby.py\<close>): every request
  becomes piecewise requests for the chunks, reductions of their concatenated results, and an
  expression that selects the output from the reduced columns.  Temporaries get names from
  \<open>unique_names\<close>, whose state is the prefix and the next number.
\<close>

section \<open>Names\<close>

definition digit :: "nat \<Rightarrow> char" where
  "digit n = char_of (48 + n)"

fun decimal :: "nat \<Rightarrow> string" where
  "decimal n = (if n < 10 then [digit n] else decimal (n div 10) @ [digit (n mod 10)])"

declare decimal.simps [simp del]

definition unique_prefix :: "string list \<Rightarrow> string" where
  "unique_prefix names = replicate (foldr max (map length names) 0) (CHR ''_'')"

definition fresh :: "string \<Rightarrow> nat \<Rightarrow> string \<Rightarrow> string" where
  "fresh prefix i suffix = prefix @ decimal i @ suffix"

section \<open>Decomposition\<close>

fun gb_agg_reduction :: "agg_name \<Rightarrow> agg_name option" where
  "gb_agg_reduction AggSum = Some AggSum"
| "gb_agg_reduction AggCount = Some AggSum"
| "gb_agg_reduction AggMin = Some AggMin"
| "gb_agg_reduction AggMax = Some AggMax"
| "gb_agg_reduction AggNUnique = Some AggSum"
| "gb_agg_reduction AggItem = Some AggItem"
| "gb_agg_reduction AggFirst = Some AggFirst"
| "gb_agg_reduction AggLast = Some AggLast"
| "gb_agg_reduction AggFirstNonNull = Some AggFirstNonNull"
| "gb_agg_reduction _ = None"

text \<open>A decomposition: the selections, the piecewise requests, the reductions, and whether the input
  has to be shuffled by the keys first.\<close>

record 'f decomposition =
  dc_selections :: "'f named list"
  dc_piecewise :: "'f named list"
  dc_reductions :: "'f named list"
  dc_preshuffle :: bool

definition combine :: "'f decomposition list \<Rightarrow> 'f decomposition" where
  "combine ds =
     \<lparr>dc_selections = concat (map dc_selections ds), dc_piecewise = concat (map dc_piecewise ds),
      dc_reductions = concat (map dc_reductions ds), dc_preshuffle = list_ex dc_preshuffle ds\<rparr>"

abbreviation f64 :: dtype where
  "f64 \<equiv> FloatT"

abbreviation i64 :: dtype where
  "i64 \<equiv> IntT 64"

definition welford_state :: "'f::linordered_field expr \<Rightarrow> 'f expr" where
  "welford_state child =
     StructCreate MomentsT (Cast i64 False (IsNotNull child)) (Cast f64 False child)
       (BinOp f64 MUL (Cast f64 False child) (Literal f64 (Some (FltV 0))))"

definition count_minus_ddof :: "string \<Rightarrow> nat \<Rightarrow> 'f::linordered_field expr" where
  "count_minus_ddof struct_name ddof =
     BinOp f64 SUB (Cast f64 False (FieldByName i64 ''count'' (Col MomentsT struct_name)))
       (Literal f64 (Some (FltV (of_nat ddof))))"

definition merged_variance :: "string \<Rightarrow> nat \<Rightarrow> 'f::linordered_field expr" where
  "merged_variance struct_name ddof =
     BinOp f64 DIV (FieldByName f64 ''m2'' (Col MomentsT struct_name))
       (Ternary f64 (BinOp BoolT GREATER (count_minus_ddof struct_name ddof) (Literal f64 (Some (FltV 0))))
          (count_minus_ddof struct_name ddof) (Literal f64 None))"

definition decompose_std_var ::
  "string \<Rightarrow> string \<Rightarrow> dtype \<Rightarrow> agg_name \<Rightarrow> nat \<Rightarrow> 'f::linordered_field expr \<Rightarrow> nat \<Rightarrow> 'f decomposition \<times> nat" where
  "decompose_std_var prefix name t agg ddof child i =
     (let struct_name = fresh prefix i ''__m2_struct'';
          variance = merged_variance struct_name ddof
      in (\<lparr>dc_selections = [(name, MaskNans t (if agg = AggStd then Sqrt f64 variance else variance))],
           dc_piecewise = [(struct_name, Agg MomentsT AggMergeM2 NoOptions (welford_state child))],
           dc_reductions = [(struct_name, Agg MomentsT AggMergeM2 NoOptions (Col MomentsT struct_name))],
           dc_preshuffle = False\<rparr>, i + 1))"

definition sort_key_names :: "string \<Rightarrow> nat \<Rightarrow> nat \<Rightarrow> string list" where
  "sort_key_names prefix i n = map (\<lambda>j. fresh prefix (i + j) ''__sort_key'') [0..<n]"

definition sort_key_cols :: "string list \<Rightarrow> 'f expr list \<Rightarrow> 'f expr list" where
  "sort_key_cols names bs = map (\<lambda>(b, n). Col (dtype_of b) n) (zip bs names)"

definition decompose_sorted_agg ::
  "string \<Rightarrow> string \<Rightarrow> dtype \<Rightarrow> agg_name \<Rightarrow> sorted_options \<Rightarrow> 'f expr \<Rightarrow> 'f expr list \<Rightarrow> nat \<Rightarrow> 'f decomposition \<times> nat" where
  "decompose_sorted_agg prefix name t agg so payload bs i =
     (let names = sort_key_names prefix i (length bs);
          cols = sort_key_cols names bs
      in (\<lparr>dc_selections = [(name, Col t name)],
           dc_piecewise = (name, SortedAgg t agg so payload bs)
             # map (\<lambda>(b, n). (n, SortedAgg (dtype_of b) agg so b bs)) (zip bs names),
           dc_reductions = (name, SortedAgg t agg so (Col t name) cols)
             # map (\<lambda>(c, n). (n, SortedAgg (dtype_of c) agg so c cols)) (zip cols names),
           dc_preshuffle = False\<rparr>, i + length bs))"

function decompose ::
  "string \<Rightarrow> string \<Rightarrow> 'f::linordered_field expr \<Rightarrow> nat \<Rightarrow> ('f decomposition \<times> nat) res" where
  "decompose prefix name e i =
     (case e of
        Len t \<Rightarrow> Inr (\<lparr>dc_selections = [(name, Col t name)], dc_piecewise = [(name, Len t)],
             dc_reductions = [(name, Agg t AggSum NoOptions (Col t name))], dc_preshuffle = False\<rparr>, i)
      | SortedAgg t agg so payload bs \<Rightarrow> Inr (decompose_sorted_agg prefix name t agg so payload bs i)
      | Agg t agg opt child \<Rightarrow>
          (case gb_agg_reduction agg of
             Some aggfunc \<Rightarrow>
               (let intermediate = (if agg = AggCount then i64 else t)
                in Inr (\<lparr>dc_selections = [(name, if agg = AggCount then Cast t False (Col i64 name) else Col t name)],
                     dc_piecewise = [(name, Agg intermediate agg opt child)],
                     dc_reductions = [(name, Agg intermediate aggfunc NoOptions (Col intermediate name))],
                     dc_preshuffle = (agg = AggNUnique)\<rparr>, i))
           | None \<Rightarrow>
               if agg = AggMean then
                 rbind (decompose prefix (fresh prefix i ''__mean_sum'') (Agg t AggSum NoOptions child) (i + 1)) (\<lambda>(s, j).
                 rbind (decompose prefix (fresh prefix j ''__mean_count'') (Agg i64 AggCount (Flag False) child) (j + 1)) (\<lambda>(c, k).
                   Inr (combine [s, c]\<lparr>dc_selections :=
                     [(name, BinOp t DIV (snd (hd (dc_selections s))) (snd (hd (dc_selections c))))]\<rparr>, k)))
               else if agg = AggStd \<or> agg = AggVar then
                 (case opt of Ddof ddof \<Rightarrow> Inr (decompose_std_var prefix name t agg ddof child i)
                  | _ \<Rightarrow> Inl TypeError)
               else Inl NotImplementedError)
      | _ \<Rightarrow> Inl NotImplementedError)"
  by pat_completeness auto
termination
  by (relation "measure (\<lambda>(prefix, name, e, i). case e of Agg _ AggMean _ _ \<Rightarrow> 1 | _ \<Rightarrow> 0)") auto

declare decompose.simps [simp del]

text \<open>The requests of a group-by are decomposed one after the other, sharing the name generator.\<close>

fun decompose_all :: "string \<Rightarrow> 'f::linordered_field named list \<Rightarrow> nat \<Rightarrow> 'f decomposition list res" where
  "decompose_all prefix [] i = Inr []"
| "decompose_all prefix ((name, e) # es) i =
     rbind (decompose prefix name e i) (\<lambda>(d, j). rbind (decompose_all prefix es j) (\<lambda>ds. Inr (d # ds)))"

section \<open>Traversal\<close>

fun any_node :: "('f expr \<Rightarrow> bool) \<Rightarrow> 'f expr \<Rightarrow> bool" where
  "any_node P e = (P e \<or>
     (case e of
        Cast t s d \<Rightarrow> any_node P d
      | IsNotNull d \<Rightarrow> any_node P d
      | BinOp t f c d \<Rightarrow> any_node P c \<or> any_node P d
      | StructCreate t b c d \<Rightarrow> any_node P b \<or> any_node P c \<or> any_node P d
      | FieldByName t f d \<Rightarrow> any_node P d
      | Ternary t b c d \<Rightarrow> any_node P b \<or> any_node P c \<or> any_node P d
      | MaskNans t d \<Rightarrow> any_node P d
      | Sqrt t d \<Rightarrow> any_node P d
      | Other t n ds \<Rightarrow> list_ex (any_node P) ds
      | Agg t a opt d \<Rightarrow> any_node P d
      | SortedAgg t a so d ds \<Rightarrow> any_node P d \<or> list_ex (any_node P) ds
      | _ \<Rightarrow> False))"

fun stable_sorted :: "'f expr \<Rightarrow> bool" where
  "stable_sorted (SortedAgg t a so d ds) \<longleftrightarrow> so_stable so"
| "stable_sorted _ \<longleftrightarrow> False"

fun order_sensitive :: "'f expr \<Rightarrow> bool" where
  "order_sensitive (Agg t a opt d) \<longleftrightarrow> a = AggFirst \<or> a = AggLast \<or> a = AggFirstNonNull"
| "order_sensitive _ \<longleftrightarrow> False"

definition has_stable_sorted_agg :: "'f named list \<Rightarrow> bool" where
  "has_stable_sorted_agg es = list_ex (\<lambda>(n, e). any_node stable_sorted e) es"

definition has_order_sensitive_agg :: "'f named list \<Rightarrow> bool" where
  "has_order_sensitive_agg es = list_ex (\<lambda>(n, e). any_node order_sensitive e) es"

section \<open>The three phases\<close>

record 'f decomposed_groupby =
  dg_ir :: "'f groupby_ir"
  dg_piecewise :: "'f groupby_ir"
  dg_reduction :: "'f groupby_ir"
  dg_select :: "'f named list"
  dg_preshuffle :: bool
  dg_output_indices :: "nat list"
  dg_shuffle_indices :: "nat list"

definition groupby_keys :: "'f named list \<Rightarrow> 'f named list" where
  "groupby_keys keys = map (\<lambda>(n, e). (n, Col (dtype_of e) n)) keys"

definition key_indices :: "'f named list \<Rightarrow> string list \<Rightarrow> nat list" where
  "key_indices keys columns =
     (let names = map fst keys
      in if \<not> set names \<subseteq> set columns then []
         else map (\<lambda>n. length (takeWhile (\<lambda>m. m \<noteq> n) columns)) names)"

definition dict_names :: "string list \<Rightarrow> string list" where
  "dict_names names = map fst (dict_of (map (\<lambda>n. (n, ())) names))"

definition from_ir :: "'f::linordered_field groupby_ir \<Rightarrow> 'f decomposed_groupby res" where
  "from_ir ir =
     rbind (decompose_all (unique_prefix (gb_schema ir)) (gb_aggs ir) 0) (\<lambda>ds.
     let d = combine ds;
         keys = gb_keys ir;
         grouped = groupby_keys keys;
         piecewise = \<lparr>gb_schema = dict_names (map fst keys @ map fst (dc_piecewise d)), gb_keys = keys,
           gb_aggs = dc_piecewise d, gb_maintain_order = gb_maintain_order ir, gb_zlice = None\<rparr>;
         reduction = \<lparr>gb_schema = dict_names (map fst grouped @ map fst (dc_reductions d)), gb_keys = grouped,
           gb_aggs = dc_reductions d, gb_maintain_order = gb_maintain_order ir, gb_zlice = None\<rparr>
     in Inr \<lparr>dg_ir = ir, dg_piecewise = piecewise, dg_reduction = reduction,
          dg_select = grouped @ dc_selections d, dg_preshuffle = dc_preshuffle d,
          dg_output_indices = key_indices keys (gb_schema ir),
          dg_shuffle_indices = key_indices keys (gb_schema piecewise)\<rparr>)"

end
