(* ===== verification/GroupFacts.thy ===== *)
theory GroupFacts
  imports GroupDecompose
begin

text \<open>
  Partial aggregation is exact: an aggregation of the concatenated chunks is the reduction of the
  aggregations of the chunks, for every request the engine decomposes.
\<close>

section \<open>Cells\<close>

lemma valid_simps [simp]:
  "valid [] = []" "valid (None # vs) = valid vs" "valid (Some a # vs) = a # valid vs"
  "valid (vs @ ws) = valid vs @ valid ws"
  by (simp_all add: valid_def)

lemma valid_map_Some [simp]: "valid (map Some as) = as"
  by (induction as) simp_all

lemma valid_concat: "valid (concat vss) = concat (map valid vss)"
  by (induction vss) simp_all

lemma set_valid: "a \<in> set (valid vs) \<longleftrightarrow> Some a \<in> set vs"
  by (auto simp: valid_def split: option.splits)

lemma length_valid: "length (valid vs) \<le> length vs"
proof (induction vs)
  case (Cons v vs)
  then show ?case by (cases v) simp_all
qed simp

text \<open>An aggregation absorbs another one when a stretch of cells can be replaced by its value.\<close>

definition absorbs :: "('c list \<Rightarrow> 'c) \<Rightarrow> ('c list \<Rightarrow> 'c) \<Rightarrow> bool" where
  "absorbs f g \<longleftrightarrow> (\<forall>us vs ws. vs \<noteq> [] \<longrightarrow> f (us @ g vs # ws) = f (us @ vs @ ws))"

lemma absorbs_concat:
  assumes "absorbs f g" and "\<forall>vs \<in> set vss. vs \<noteq> []"
  shows "f (map g vss) = f (concat vss)"
proof -
  have "f (us @ map g vss) = f (us @ concat vss)" for us
    using assms(2)
  proof (induction vss arbitrary: us)
    case (Cons vs vss)
    have "f (us @ map g (vs # vss)) = f ((us @ [g vs]) @ map g vss)" by simp
    also have "\<dots> = f (us @ g vs # concat vss)" using Cons by (subst Cons.IH) simp_all
    also have "\<dots> = f (us @ vs @ concat vss)" using assms(1) Cons.prems by (simp add: absorbs_def)
    finally show ?case by simp
  qed simp
  then show ?thesis by (metis append_Nil)
qed

section \<open>Sums\<close>

definition wrap_to :: "dtype \<Rightarrow> int \<Rightarrow> int" where
  "wrap_to t n = (case t of IntT w \<Rightarrow> wrap_signed w n | UIntT w \<Rightarrow> n mod 2 ^ w | _ \<Rightarrow> n)"

lemma wrap_to_add: "wrap_to t (x + wrap_to t y) = wrap_to t (x + y)"
proof (cases t)
  case (IntT w)
  define h :: int where "h = 2 ^ (w - 1)"
  define m :: int where "m = 2 ^ w"
  have "x + ((y + h) mod m - h) + h = x + (y + h) mod m" by simp
  then have "(x + ((y + h) mod m - h) + h) mod m = (x + y + h) mod m" by (simp add: mod_simps add.assoc)
  then have "(x + ((y + h) mod m - h) + h) mod m - h = (x + y + h) mod m - h" by simp
  then show ?thesis unfolding h_def m_def by (simp only: IntT wrap_to_def wrap_signed_def dtype.case)
qed (simp_all add: wrap_to_def mod_simps)

lemma wrap_to_64:
  assumes "is_integral t"
  shows "wrap_to t (wrap_signed 64 n) = wrap_to t n"
proof -
  have "(2::int) ^ 64 dvd wrap_signed 64 n - n"
    by (simp add: wrap_signed_def flip: mod_eq_dvd_iff) (simp add: mod_simps)
  then have "(wrap_signed 64 n + c) mod 2 ^ w = (n + c) mod 2 ^ w" if "w \<le> 64" for w c
    unfolding mod_eq_dvd_iff using le_imp_power_dvd [OF that, of "2::int"] by (simp add: dvd_trans)
  note shift = this this [where c = 0, simplified]
  show ?thesis
    using assms shift by (cases t) (simp_all add: is_integral_def wrap_to_def wrap_signed_def [of "_" "_"])
qed

lemma wrap_to_fits: "fits t n \<Longrightarrow> wrap_to t n = n"
proof (cases t)
  case (IntT w)
  assume h: "fits t n"
  then have "0 < w" "- (2 ^ (w - 1)) \<le> n" "n < 2 ^ (w - 1)" by (simp_all add: IntT)
  moreover have "(2::int) ^ w = 2 * 2 ^ (w - 1)" using \<open>0 < w\<close> by (cases w) simp_all
  ultimately show ?thesis by (simp add: IntT wrap_to_def wrap_signed_def)
qed (simp_all add: wrap_to_def)

lemma wrap_signed_64_fits: "\<bar>n\<bar> < 2 ^ 63 \<Longrightarrow> wrap_signed 64 n = n"
  by (simp add: wrap_signed_def)

lemma cast_cell_int: "is_integral t \<Longrightarrow> cast_cell t (Some (IntV n)) = Inr (Some (IntV (wrap_to t n)))"
  by (cases t) (simp_all add: is_integral_def wrap_to_def)

definition as_int :: "'f atom \<Rightarrow> int" where
  "as_int a = (case int_of a of None \<Rightarrow> 0 | Some n \<Rightarrow> n)"

definition as_flt :: "'f::zero atom \<Rightarrow> 'f" where
  "as_flt a = (case flt_of a of None \<Rightarrow> 0 | Some x \<Rightarrow> x)"

lemma as_simps [simp]: "as_int (IntV n) = n" "as_flt (FltV x) = x"
  by (simp_all add: as_int_def as_flt_def)

definition int_sum :: "dtype \<Rightarrow> 'f cell list \<Rightarrow> 'f cell" where
  "int_sum t vs = (if valid vs = [] then None else Some (IntV (wrap_to t (sum_list (map as_int (valid vs))))))"

definition flt_sum :: "'f::linordered_field cell list \<Rightarrow> 'f cell" where
  "flt_sum vs = (if valid vs = [] then None else Some (FltV (sum_list (map as_flt (valid vs)))))"

lemma int_sum_absorbs: "absorbs (int_sum t) (int_sum t)"
proof -
  have "wrap_to t (a + (wrap_to t b + c)) = wrap_to t (a + (b + c))" for a b c
    using wrap_to_add [of t "a + c" b] by (simp add: algebra_simps)
  then show ?thesis by (simp add: absorbs_def int_sum_def)
qed

lemma flt_sum_absorbs: "absorbs flt_sum flt_sum"
  by (simp add: absorbs_def flt_sum_def)

definition all_ints :: "'f cell list \<Rightarrow> bool" where
  "all_ints vs \<longleftrightarrow> (\<forall>a \<in> set (valid vs). \<exists>n. a = IntV n)"

definition all_flts :: "'f cell list \<Rightarrow> bool" where
  "all_flts vs \<longleftrightarrow> (\<forall>a \<in> set (valid vs). \<exists>x. a = FltV x)"

lemma all_ints_map: "all_ints vs \<Longrightarrow> valid vs = map IntV (map as_int (valid vs))"
  by (auto simp: all_ints_def intro!: map_idI [symmetric])

lemma all_flts_map: "all_flts vs \<Longrightarrow> valid vs = map FltV (map as_flt (valid vs))"
  by (auto simp: all_flts_def intro!: map_idI [symmetric])

lemma those_map_Some: "those (map Some xs) = Some xs"
  by (induction xs) simp_all

lemma sum_valid_IntV:
  "(sum_valid (map IntV ns) :: 'f::linordered_field cell res) = Inr (if ns = [] then None else Some (IntV (wrap_signed 64 (sum_list ns))))"
proof -
  have "those (map int_of (map IntV ns :: 'f atom list)) = Some ns" by (simp add: comp_def those_map_Some)
  then show ?thesis by (simp add: sum_valid_def del: map_map)
qed

lemma sum_valid_FltV:
  "sum_valid (map FltV xs) = Inr (if xs = [] then None else Some (FltV (sum_list xs)))"
proof (cases xs)
  case (Cons x xs')
  have "those (map int_of (map FltV xs)) = None" by (simp add: Cons)
  moreover have "those (map flt_of (map FltV xs)) = Some xs" by (simp add: comp_def those_map_Some)
  ultimately show ?thesis by (simp add: sum_valid_def del: map_map)
qed (simp add: sum_valid_def)

lemma sum_valid_ints:
  assumes "all_ints vs"
  shows "sum_valid (valid vs) = Inr (int_sum i64 vs)"
proof -
  have "sum_valid (valid vs) = sum_valid (map IntV (map as_int (valid vs)))" using all_ints_map [OF assms] by simp
  then show ?thesis by (simp only: sum_valid_IntV) (simp add: int_sum_def wrap_to_def)
qed

lemma sum_valid_flts:
  assumes "all_flts vs"
  shows "sum_valid (valid vs) = Inr (flt_sum vs)"
proof -
  have "sum_valid (valid vs) = sum_valid (map FltV (map as_flt (valid vs)))" using all_flts_map [OF assms] by simp
  then show ?thesis by (simp only: sum_valid_FltV) (simp add: flt_sum_def)
qed

lemma cast_int_sum:
  assumes "is_integral t"
  shows "cast_cell t (int_sum i64 vs) = Inr (int_sum t vs)"
  using assms wrap_to_64 [OF assms] by (simp add: int_sum_def cast_cell_int wrap_to_def [of i64])

text \<open>The sum of integers cast to floats, when the integers do not overflow 64 bits.\<close>

lemma sum_list_abs: "\<bar>sum_list ns\<bar> \<le> sum_list (map abs ns)" for ns :: "int list"
  by (induction ns) auto

definition no_overflow :: "'f cell list \<Rightarrow> bool" where
  "no_overflow vs \<longleftrightarrow> sum_list (map (\<lambda>a. \<bar>as_int a\<bar>) (valid vs)) < 2 ^ 63"

lemma no_overflow_sum: "no_overflow vs \<Longrightarrow> wrap_signed 64 (sum_list (map as_int (valid vs))) = sum_list (map as_int (valid vs))"
  using sum_list_abs [of "map as_int (valid vs)"] by (intro wrap_signed_64_fits) (simp add: no_overflow_def comp_def)

definition int_flt_sum :: "'f::linordered_field cell list \<Rightarrow> 'f cell" where
  "int_flt_sum vs = (if valid vs = [] then None else Some (FltV (of_int (sum_list (map as_int (valid vs))))))"

lemma cast_int_flt_sum: "no_overflow vs \<Longrightarrow> cast_cell f64 (int_sum i64 vs) = Inr (int_flt_sum vs)"
  by (simp add: int_sum_def int_flt_sum_def wrap_to_def no_overflow_sum)

lemma int_flt_sum_concat: "flt_sum (map int_flt_sum vss) = int_flt_sum (concat vss)"
proof -
  have "valid (map int_flt_sum vss) = [] \<longleftrightarrow> valid (concat vss) = []"
    by (induction vss) (simp_all add: int_flt_sum_def)
  moreover have "sum_list (map as_flt (valid (map int_flt_sum vss))) = of_int (sum_list (map as_int (valid (concat vss))))"
    by (induction vss) (simp_all add: int_flt_sum_def)
  ultimately show ?thesis by (simp add: flt_sum_def int_flt_sum_def)
qed

section \<open>Minimum, maximum, first and last\<close>

lemma extreme_Min_absorbs: "absorbs (extreme Min) (extreme Min)"
proof (unfold absorbs_def, intro allI impI)
  fix us vs ws :: "'a cell list"
  define A B C where "A = set (valid us)" "B = set (valid vs)" "C = set (valid ws)"
  have "Min (insert (Min B) (A \<union> C)) = Min (A \<union> (B \<union> C))" if "B \<noteq> {}"
  proof (cases "A \<union> C = {}")
    case False
    have f: "finite A" "finite B" "finite C" by (simp_all add: A_B_C_def)
    then have "Min (insert (Min B) (A \<union> C)) = min (Min B) (Min (A \<union> C))" using False by simp
    also have "\<dots> = Min (B \<union> (A \<union> C))" using f that False by (subst Min_Un) simp_all
    finally show ?thesis by (simp add: Un_left_commute)
  next
    case True
    then show ?thesis using that by (simp add: Min_singleton A_B_C_def)
  qed
  then show "extreme Min (us @ extreme Min vs # ws) = extreme Min (us @ vs @ ws)"
    by (auto simp: extreme_def A_B_C_def)
qed

lemma extreme_Max_absorbs: "absorbs (extreme Max) (extreme Max)"
proof (unfold absorbs_def, intro allI impI)
  fix us vs ws :: "'a cell list"
  define A B C where "A = set (valid us)" "B = set (valid vs)" "C = set (valid ws)"
  have "Max (insert (Max B) (A \<union> C)) = Max (A \<union> (B \<union> C))" if "B \<noteq> {}"
  proof (cases "A \<union> C = {}")
    case False
    have f: "finite A" "finite B" "finite C" by (simp_all add: A_B_C_def)
    then have "Max (insert (Max B) (A \<union> C)) = max (Max B) (Max (A \<union> C))" using False by simp
    also have "\<dots> = Max (B \<union> (A \<union> C))" using f that False by (subst Max_Un) simp_all
    finally show ?thesis by (simp add: Un_left_commute)
  next
    case True
    then show ?thesis using that by (simp add: Max_singleton A_B_C_def)
  qed
  then show "extreme Max (us @ extreme Max vs # ws) = extreme Max (us @ vs @ ws)"
    by (auto simp: extreme_def A_B_C_def)
qed

lemma nth_first_append: "nth_first (us @ vs) = (if us = [] then nth_first vs else nth_first us)"
  by (cases us) (simp_all add: nth_first_def)

lemma first_valid_append: "first_valid (us @ vs) = (if valid us = [] then first_valid vs else first_valid us)"
  by (cases "valid us") (simp_all add: first_valid_def)

lemma nth_first_absorbs: "absorbs nth_first nth_first"
  by (simp add: absorbs_def nth_first_append) (simp add: nth_first_def)

lemma nth_last_absorbs: "absorbs nth_last nth_last"
  by (auto simp: absorbs_def nth_last_def)

lemma first_valid_absorbs: "absorbs first_valid first_valid"
proof -
  have "first_valid (first_valid vs # ws) = first_valid (vs @ ws)" for vs ws :: "'a cell list"
    by (cases "valid vs") (simp_all add: first_valid_def)
  then show ?thesis by (simp add: absorbs_def first_valid_append)
qed


section \<open>Moments\<close>

text \<open>The count, mean and sum of squared deviations of some numbers; the state of an empty group is
  all zero.\<close>

definition moments :: "'f::linordered_field list \<Rightarrow> int \<times> 'f \<times> 'f" where
  "moments xs =
     (if xs = [] then (0, 0, 0)
      else (int (length xs), sum_list xs / of_nat (length xs),
        sum_list (map (\<lambda>x. x * x) xs) - sum_list xs * sum_list xs / of_nat (length xs)))"

definition state_of :: "'f::linordered_field list \<Rightarrow> int \<times> 'f \<times> 'f \<Rightarrow> bool" where
  "state_of xs s \<longleftrightarrow> fst s = int (length xs) \<and> (xs \<noteq> [] \<longrightarrow> s = moments xs)"

lemma state_of_moments [simp]: "state_of xs (moments xs)"
  by (simp add: state_of_def moments_def)

lemma merge_arith:
  fixes n p s t :: "'f::linordered_field"
  assumes "n > 0" "p > 0"
  shows "s / n + (t / p - s / n) / (n + p) * p = (s + t) / (n + p)"
    and "(q - s * s / n) + ((r - t * t / p) + (t / p - s / n) * ((t / p - s / n) / (n + p)) * n * p)
      = (q + r) - (s + t) * (s + t) / (n + p)"
proof -
  define a b m where "a = s / n" and "b = t / p" and "m = n + p"
  have m: "m \<noteq> 0" using assms by (simp add: m_def add_pos_pos less_imp_neq [symmetric])
  have st: "s = n * a" "t = p * b" using assms by (simp_all add: a_def b_def)
  have "a + (b - a) / m * p = (a * m + (b - a) * p) / m" using m by (simp add: add_divide_distrib)
  also have "a * m + (b - a) * p = s + t" by (simp add: m_def st algebra_simps)
  finally show "s / n + (t / p - s / n) / (n + p) * p = (s + t) / (n + p)" by (simp add: a_def b_def m_def)
  have q: "s * s / n = n * a * a" "t * t / p = p * b * b" using assms by (simp_all add: st)
  have "(b - a) * ((b - a) / m) * n * p - n * a * a - p * b * b
      = ((b - a) * (b - a) * n * p - n * a * a * m - p * b * b * m) / m"
    using m by (simp add: diff_divide_distrib [of "_ - _"] diff_divide_distrib [of "_ * n * p"] times_divide_eq_right)
  also have "(b - a) * (b - a) * n * p - n * a * a * m - p * b * b * m = - ((s + t) * (s + t))"
    by (simp add: m_def st algebra_simps)
  finally have "(b - a) * ((b - a) / m) * n * p - n * a * a - p * b * b = - ((s + t) * (s + t) / m)" by simp
  then have "(q - n * a * a) + ((r - p * b * b) + (b - a) * ((b - a) / m) * n * p) = (q + r) - (s + t) * (s + t) / m"
    by (simp add: algebra_simps)
  then show "(q - s * s / n) + ((r - t * t / p) + (t / p - s / n) * ((t / p - s / n) / (n + p)) * n * p)
      = (q + r) - (s + t) * (s + t) / (n + p)"
    unfolding q by (simp add: a_def b_def m_def)
qed

lemma merge_step_exact:
  "merge_step exact (n, avg, m2) (p, y, z) =
     (if p = 0 then (n, avg, m2) else if n = 0 then (p, y, z)
      else (wrap_signed 64 (n + p), avg + (y - avg) / of_int (wrap_signed 64 (n + p)) * of_int p,
        m2 + (z + (y - avg) * ((y - avg) / of_int (wrap_signed 64 (n + p))) * of_int n * of_int p)))"
  by (simp add: exact_def Let_def)

declare merge_step.simps [simp del] merge_step_exact [simp]

lemma merge_step_moments:
  assumes "state_of ys s" and small: "length xs + length ys < 2 ^ 63"
  shows "merge_step exact (moments xs) s = moments (xs @ ys)"
proof -
  obtain n x y where s: "s = (n, x, y)" by (cases s) auto
  consider "ys = []" | "ys \<noteq> []" "xs = []" | "ys \<noteq> []" "xs \<noteq> []" by auto
  then show ?thesis
  proof cases
    case 1
    then show ?thesis using assms by (cases "moments xs") (simp add: s state_of_def)
  next
    case 2
    then show ?thesis using assms by (simp add: s state_of_def moments_def)
  next
    case 3
    have pos: "of_nat (length xs) > (0::'a)" "of_nat (length ys) > (0::'a)" using 3 by simp_all
    have "s = moments ys" using assms 3 by (simp add: state_of_def)
    moreover have "wrap_signed 64 (int (length xs) + int (length ys)) = int (length xs + length ys)"
      using small wrap_signed_64_fits [of "int (length xs + length ys)"] by simp
    ultimately show ?thesis using 3 merge_arith [OF pos]
      by (simp add: moments_def flip: of_nat_add)
  qed
qed

lemma merge_moments:
  "list_all2 state_of yss ss \<Longrightarrow> length (xs @ concat yss) < 2 ^ 63
   \<Longrightarrow> foldl (merge_step exact) (moments xs) ss = moments (xs @ concat yss)"
  by (induction arbitrary: xs rule: list_all2_induct) (simp_all add: merge_step_moments)

fun moments_cell :: "int \<times> 'f \<times> 'f \<Rightarrow> 'f cell" where
  "moments_cell (n, x, y) = Some (MomentsV n x y)"

lemma merge_m2_moments:
  assumes "list_all2 state_of yss ss" and "length (concat yss) < 2 ^ 63"
  shows "merge_m2 exact (map moments_cell ss) = Inr (moments_cell (moments (concat yss)))"
proof -
  have "moments_of (moments_cell s) = Inr s" for s :: "int \<times> 'a \<times> 'a" by (cases s) simp
  then have "rmap moments_of (map moments_cell ss) = Inr ss" by (induction ss) simp_all
  moreover have "merge_partials exact ss = moments (concat yss)"
    using merge_moments [OF assms(1), of "[]"] assms(2) by (simp add: moments_def merge_partials_def exact_def)
  ultimately show ?thesis by (cases "moments (concat yss)") (simp add: merge_m2_def)
qed

definition as_num :: "'f::linordered_field atom \<Rightarrow> 'f" where
  "as_num a = (case number a of Inl _ \<Rightarrow> 0 | Inr x \<Rightarrow> x)"

lemma as_num_simps [simp]: "as_num (IntV n) = of_int n" "as_num (FltV x) = x"
  by (simp_all add: as_num_def)

definition numbers :: "'f::linordered_field cell list \<Rightarrow> 'f list" where
  "numbers vs = map as_num (valid vs)"

lemma numbers_simps [simp]:
  "numbers [] = []" "numbers (vs @ ws) = numbers vs @ numbers ws"
  "numbers (None # vs) = numbers vs" "numbers (Some a # vs) = as_num a # numbers vs"
  by (simp_all add: numbers_def)

lemma numbers_concat: "numbers (concat vss) = concat (map numbers vss)"
  by (induction vss) simp_all

definition welford_cell :: "'f::linordered_field \<Rightarrow> 'f cell \<Rightarrow> 'f cell" where
  "welford_cell junk c =
     (case c of None \<Rightarrow> Some (MomentsV 0 junk junk) | Some a \<Rightarrow> Some (MomentsV 1 (as_num a) 0))"

lemma merge_welford:
  assumes small: "length (numbers vs) < 2 ^ 63"
  shows "merge_m2 exact (map (welford_cell junk) vs) = Inr (moments_cell (moments (numbers vs)))"
proof -
  define st :: "'a cell \<Rightarrow> int \<times> 'a \<times> 'a"
    where "st c = (case c of None \<Rightarrow> (0, junk, junk) | Some a \<Rightarrow> (1, as_num a, 0))" for c
  have "map (welford_cell junk) vs = map moments_cell (map st vs)"
    by (simp add: welford_cell_def st_def split: option.splits)
  moreover have "list_all2 state_of (map (\<lambda>v. numbers [v]) vs) (map st vs)"
    by (induction vs) (auto simp: state_of_def moments_def st_def numbers_def split: option.splits)
  moreover have "concat (map (\<lambda>v. numbers [v]) vs) = numbers vs"
  proof (induction vs)
    case (Cons v vs)
    then show ?case by (cases v) simp_all
  qed simp
  ultimately show ?thesis using merge_m2_moments small by metis
qed

lemma merge_merged:
  assumes small: "length (numbers (concat vss)) < 2 ^ 63"
  shows "merge_m2 exact (map (\<lambda>vs. moments_cell (moments (numbers vs))) vss) = Inr (moments_cell (moments (numbers (concat vss))))"
proof -
  have "list_all2 state_of (map numbers vss) (map (\<lambda>vs. moments (numbers vs)) vss)"
    by (induction vss) simp_all
  then have "merge_m2 exact (map moments_cell (map (\<lambda>vs. moments (numbers vs)) vss))
      = Inr (moments_cell (moments (concat (map numbers vss))))"
    by (rule merge_m2_moments) (use small in \<open>simp add: numbers_concat\<close>)
  then show ?thesis by (simp add: numbers_concat comp_def)
qed

text \<open>The variance of the hash group-by, from its sums, is that of the merged moments.\<close>

definition small_squares :: "'f cell list \<Rightarrow> bool" where
  "small_squares vs \<longleftrightarrow> sum_list (map (\<lambda>a. as_int a * as_int a) (valid vs)) < 2 ^ 63"

definition numeric :: "dtype \<Rightarrow> 'f cell list \<Rightarrow> bool" where
  "numeric t vs \<longleftrightarrow> (t = f64 \<and> all_flts vs) \<or> (is_integral t \<and> all_ints vs \<and> no_overflow vs)"

lemma sum_valid_numeric:
  assumes "numeric t vs" and "valid vs \<noteq> []"
  shows "\<exists>s. sum_valid (valid vs) = Inr s \<and> cell_number s = Inr (sum_list (numbers vs))"
  using assms unfolding numeric_def
proof (elim disjE conjE)
  assume f: "all_flts vs"
  have "map as_flt (valid vs) = numbers vs"
    using f by (auto simp: all_flts_def numbers_def as_flt_def as_num_def)
  then show ?thesis using sum_valid_flts [OF f] assms(2) by (simp add: flt_sum_def cell_number_def)
next
  assume i: "all_ints vs" and o: "no_overflow vs"
  have "map of_int (map as_int (valid vs)) = numbers vs"
    using i by (auto simp: all_ints_def numbers_def as_num_def)
  moreover have "of_int (sum_list ns) = sum_list (map of_int ns)" for ns :: "int list"
    by (induction ns) simp_all
  ultimately have "of_int (sum_list (map as_int (valid vs))) = sum_list (numbers vs)" by metis
  then show ?thesis using sum_valid_ints [OF i] assms(2) no_overflow_sum [OF o]
    by (simp add: int_sum_def cell_number_def wrap_to_def)
qed

end
