(* ===== verification/GroupReduce.thy ===== *)
theory GroupReduce
  imports GroupFacts
begin

text \<open>
  The three phases of a decomposed request, one request at a time: the piecewise requests are right
  for the rows of a chunk, the reductions of partial results are right for all the rows they stand
  for, and the selection computes the requested aggregation from the reduced columns.
\<close>

section \<open>When a request is well-typed\<close>

definition cells :: "'f::linordered_field library \<Rightarrow> 'f expr \<Rightarrow> 'f row list \<Rightarrow> 'f cell list" where
  "cells lb e rs = map (\<lambda>r. case eval lb r e of Inl _ \<Rightarrow> None | Inr c \<Rightarrow> c) rs"

definition typed :: "'f::linordered_field library \<Rightarrow> 'f expr \<Rightarrow> 'f row list \<Rightarrow> bool" where
  "typed lb e rs \<longleftrightarrow> (\<forall>r \<in> set rs. \<exists>c. eval lb r e = Inr c \<and> cell_has_type (dtype_of e) c)"

text \<open>Counts fit their type, and integer sums that are turned into floats do not overflow.\<close>

definition count_fits :: "dtype \<Rightarrow> nat \<Rightarrow> bool" where
  "count_fits t n \<longleftrightarrow> is_integral t \<and> fits t (int n) \<and> n < 2 ^ 63"

fun agg_typed :: "dtype \<Rightarrow> agg_name \<Rightarrow> agg_options \<Rightarrow> dtype \<Rightarrow> 'f cell list \<Rightarrow> bool" where
  "agg_typed t AggSum opt u vs \<longleftrightarrow> is_integral u \<and> is_integral t \<or> u = f64 \<and> t = f64"
| "agg_typed t AggCount opt u vs \<longleftrightarrow> count_fits t (length vs)"
| "agg_typed t AggNUnique opt u vs \<longleftrightarrow> count_fits t (length vs)"
| "agg_typed t AggMin opt u vs \<longleftrightarrow> True"
| "agg_typed t AggMax opt u vs \<longleftrightarrow> True"
| "agg_typed t AggFirst opt u vs \<longleftrightarrow> True"
| "agg_typed t AggFirstNonNull opt u vs \<longleftrightarrow> True"
| "agg_typed t AggLast opt u vs \<longleftrightarrow> True"
| "agg_typed t AggItem opt u vs \<longleftrightarrow> True"
| "agg_typed t AggMean opt u vs \<longleftrightarrow> t = f64 \<and> numeric u vs \<and> length vs < 2 ^ 63"
| "agg_typed t AggStd (Ddof d) u vs \<longleftrightarrow> t = f64 \<and> numeric u vs \<and> (u = f64 \<or> small_squares vs) \<and> length vs < 2 ^ 63"
| "agg_typed t AggVar (Ddof d) u vs \<longleftrightarrow> t = f64 \<and> numeric u vs \<and> (u = f64 \<or> small_squares vs) \<and> length vs < 2 ^ 63"
| "agg_typed t _ opt u vs \<longleftrightarrow> False"

fun agg_ok :: "'f::linordered_field library \<Rightarrow> 'f expr \<Rightarrow> 'f row list \<Rightarrow> bool" where
  "agg_ok lb (Len t) rs \<longleftrightarrow> count_fits t (length rs)"
| "agg_ok lb (Agg t a opt e) rs \<longleftrightarrow> typed lb e rs \<and> agg_typed t a opt (dtype_of e) (cells lb e rs)"
| "agg_ok lb (SortedAgg t a so e bs) rs \<longleftrightarrow>
     (a = AggFirst \<or> a = AggLast) \<and> length (so_nulls_last so) = length bs \<and> length (so_descending so) = length bs
     \<and> (\<forall>r \<in> set rs. \<forall>d \<in> set (e # bs). \<exists>c. eval lb r d = Inr c)"
| "agg_ok lb _ rs \<longleftrightarrow> False"

lemma cells_simps [simp]: "cells lb e [] = []" "cells lb e (rs @ ss) = cells lb e rs @ cells lb e ss"
  "cells lb e rs = [] \<longleftrightarrow> rs = []" "length (cells lb e rs) = length rs"
  by (simp_all add: cells_def)

lemma cells_concat: "cells lb e (concat rss) = concat (map (cells lb e) rss)"
  by (induction rss) simp_all

lemma typed_concat: "typed lb e (concat rss) \<Longrightarrow> rs \<in> set rss \<Longrightarrow> typed lb e rs"
  by (auto simp: typed_def)

lemma typed_child: "typed lb e rs \<Longrightarrow> child_value lb rs e = Inr (cells lb e rs)"
  unfolding child_value_def cells_def typed_def by (intro rmap_all_Inr) (force)

lemma typed_agg:
  "typed lb e rs \<Longrightarrow> agg_value lb t a opt e rs =
     rbind (aggregate lb a opt (cells lb e rs)) (\<lambda>v. if a = AggSum \<and> is_integral (dtype_of e) then cast_cell t v else Inr v)"
  by (simp add: agg_value_def typed_child)

lemma typed_cells: "typed lb e rs \<Longrightarrow> c \<in> set (cells lb e rs) \<Longrightarrow> cell_has_type (dtype_of e) c"
  by (auto simp: cells_def typed_def)

lemma has_type_int: "has_type t a \<Longrightarrow> is_integral t \<Longrightarrow> \<exists>n. a = IntV n"
  by (cases t; cases a) (simp_all add: is_integral_def)

lemma has_type_flt: "has_type f64 a \<Longrightarrow> \<exists>x. a = FltV x"
  by (cases a) simp_all

lemma typed_ints: "typed lb e rs \<Longrightarrow> is_integral (dtype_of e) \<Longrightarrow> all_ints (cells lb e rs)"
  using typed_cells [of lb e rs] has_type_int
  by (fastforce simp: all_ints_def set_valid cell_has_type_def)

lemma typed_flts: "typed lb e rs \<Longrightarrow> dtype_of e = f64 \<Longrightarrow> all_flts (cells lb e rs)"
  using typed_cells [of lb e rs] has_type_flt
  by (fastforce simp: all_flts_def set_valid cell_has_type_def)

lemma count_fits_le: "count_fits t n \<Longrightarrow> m \<le> n \<Longrightarrow> count_fits t m"
proof (cases t)
  case (IntT w)
  assume "count_fits t n" "m \<le> n"
  moreover have "- (2 ^ (w - 1)) \<le> (0::int)" by simp
  then have "- (2 ^ (w - 1)) \<le> int m" by (rule order.trans) simp
  ultimately show ?thesis by (auto simp: IntT count_fits_def)
qed (auto simp: count_fits_def)

lemma count_fits_wrap: "count_fits t n \<Longrightarrow> wrap_to t (int n) = int n"
  by (rule wrap_to_fits) (simp add: count_fits_def)

lemma count_fits_i64: "count_fits t n \<Longrightarrow> count_fits i64 n"
  by (simp add: count_fits_def is_integral_def)

section \<open>Requests on columns of partial results\<close>

definition column_is :: "string \<Rightarrow> 'f row list \<Rightarrow> 'f cell list \<Rightarrow> bool" where
  "column_is n ps cs \<longleftrightarrow> map (\<lambda>p. map_of p n) ps = map Some cs"

lemma column_child: "column_is n ps cs \<Longrightarrow> child_value lb ps (Col t n) = Inr cs"
proof (induction ps arbitrary: cs)
  case (Cons p ps)
  then obtain c cs' where "cs = c # cs'" "map_of p n = Some c" "column_is n ps cs'"
    by (cases cs) (auto simp: column_is_def)
  then show ?case using Cons.IH by (simp add: child_value_def)
qed (simp add: column_is_def child_value_def)

lemma column_agg:
  "column_is n ps cs \<Longrightarrow> agg_value lb t a opt (Col u n) ps =
     rbind (aggregate lb a opt cs) (\<lambda>v. if a = AggSum \<and> is_integral u then cast_cell t v else Inr v)"
  by (simp add: agg_value_def column_child)

lemma int_sum_ints [simp]: "all_ints (map (int_sum t) vss)"
  by (auto simp: all_ints_def set_valid int_sum_def split: if_splits)

lemma flt_sum_flts [simp]: "all_flts (map flt_sum vss)" "all_flts (map int_flt_sum vss)"
  by (auto simp: all_flts_def set_valid flt_sum_def int_flt_sum_def split: if_splits)

lemma counts_ints [simp]: "all_ints (map (\<lambda>n. Some (IntV (f n))) ns)"
  by (auto simp: all_ints_def set_valid)

lemma column_sum_int:
  assumes "is_integral t" and "all_ints cs" and "column_is n ps cs"
  shows "agg_value lb t AggSum opt (Col t n) ps = Inr (int_sum t cs)"
  using assms by (simp add: column_agg sum_valid_ints cast_int_sum)

lemma column_sum_flt:
  assumes "all_flts cs" and "column_is n ps cs"
  shows "agg_value lb f64 AggSum opt (Col f64 n) ps = Inr (flt_sum cs)"
  using assms by (simp add: column_agg sum_valid_flts is_integral_def)

text \<open>Counts add up.\<close>

lemma column_sum_counts:
  assumes "column_is n ps (map (\<lambda>m. Some (IntV (int m))) ms)" and "ms \<noteq> []" and "count_fits t (sum_list ms)"
  shows "agg_value lb t AggSum opt (Col t n) ps = Inr (Some (IntV (int (sum_list ms))))"
proof -
  have v: "valid (map (\<lambda>m. Some (IntV (int m))) ms) = map (\<lambda>m. IntV (int m)) ms"
    by (induction ms) simp_all
  have "sum_list (map (\<lambda>m. int m) ms) = int (sum_list ms)" by (induction ms) simp_all
  then have "int_sum t (map (\<lambda>m. Some (IntV (int m))) ms) = Some (IntV (int (sum_list ms)))"
    unfolding int_sum_def v using assms(2) count_fits_wrap [OF assms(3)] by (simp add: comp_def)
  then show ?thesis using column_sum_int [OF _ counts_ints assms(1)] assms(3) by (simp add: count_fits_def)
qed

section \<open>Pieces of one aggregation\<close>

lemma sum_int_value:
  "typed lb e rs \<Longrightarrow> is_integral (dtype_of e) \<Longrightarrow> is_integral t
   \<Longrightarrow> agg_value lb t AggSum opt e rs = Inr (int_sum t (cells lb e rs))"
  by (simp add: typed_agg sum_valid_ints typed_ints cast_int_sum)

lemma sum_flt_value:
  "typed lb e rs \<Longrightarrow> dtype_of e = f64 \<Longrightarrow> agg_value lb t AggSum opt e rs = Inr (flt_sum (cells lb e rs))"
  by (simp add: typed_agg sum_valid_flts typed_flts is_integral_def)

lemma sum_int_flt_value:
  "typed lb e rs \<Longrightarrow> is_integral (dtype_of e) \<Longrightarrow> no_overflow (cells lb e rs)
   \<Longrightarrow> agg_value lb f64 AggSum opt e rs = Inr (int_flt_sum (cells lb e rs))"
  by (simp add: typed_agg sum_valid_ints typed_ints cast_int_flt_sum)

lemma count_value:
  "typed lb e rs \<Longrightarrow> agg_value lb t AggCount opt e rs = Inr (Some (IntV (int (count_cells (opt = Flag True) (cells lb e rs)))))"
  by (simp add: typed_agg)

lemma count_cells_concat: "count_cells b (concat vss) = sum_list (map (count_cells b) vss)"
  by (cases b; induction vss) (simp_all add: count_cells_def)

lemma count_cells_le: "count_cells b vs \<le> length vs"
  by (simp add: count_cells_def length_valid)

lemma unique_cells_le: "unique_cells b vs \<le> length vs"
proof -
  have "card (set (map Some (valid vs))) \<le> length (valid vs)" by (metis card_length length_map)
  then show ?thesis using length_valid [of vs] by (simp add: unique_cells_def card_length)
qed


section \<open>Moments of a group\<close>

lemma eval_welford:
  assumes "eval lb r e = Inr c" and "c = None \<or> (\<exists>n. c = Some (IntV n)) \<or> (\<exists>x. c = Some (FltV x))"
  shows "eval lb r (welford_state e) = Inr (welford_cell (lb_junk lb) c)"
  using assms by (auto simp: welford_state_def welford_cell_def wrap_signed_def)

lemma length_numbers: "length (numbers vs) \<le> length vs"
  using length_valid [of vs] by (simp add: numbers_def)

lemma merge_value:
  assumes "typed lb e rs" and "numeric (dtype_of e) (cells lb e rs)" and "length rs < 2 ^ 63"
  shows "agg_value lb MomentsT AggMergeM2 opt (welford_state e) rs
     = Inr (moments_cell (moments (numbers (cells lb e rs))))"
proof -
  have "eval lb r (welford_state e) = Inr (welford_cell (lb_junk lb) (case eval lb r e of Inl _ \<Rightarrow> None | Inr c \<Rightarrow> c))"
    if r: "r \<in> set rs" for r
  proof -
    obtain c where c: "eval lb r e = Inr c" using assms(1) r by (auto simp: typed_def)
    then have "c \<in> set (cells lb e rs)" using r by (force simp: cells_def)
    then have "c = None \<or> (\<exists>n. c = Some (IntV n)) \<or> (\<exists>x. c = Some (FltV x))"
      using assms(2) by (cases c) (auto simp: numeric_def all_ints_def all_flts_def set_valid)
    then show ?thesis using eval_welford [OF c] c by simp
  qed
  then have "child_value lb rs (welford_state e) = Inr (map (welford_cell (lb_junk lb)) (cells lb e rs))"
    unfolding child_value_def by (subst rmap_all_Inr) (auto simp: cells_def)
  moreover have "length (numbers (cells lb e rs)) < 2 ^ 63"
    using length_numbers [of "cells lb e rs"] assms(3) by simp
  ultimately show ?thesis by (simp add: agg_value_def merge_welford)
qed

lemma merge_columns:
  "column_is n ps (map (\<lambda>vs. moments_cell (moments (numbers vs))) vss) \<Longrightarrow> length (concat vss) < 2 ^ 63
   \<Longrightarrow> agg_value lb MomentsT AggMergeM2 opt (Col MomentsT n) ps = Inr (moments_cell (moments (numbers (concat vss))))"
  using length_numbers [of "concat vss"] by (simp add: column_agg merge_merged)

definition variance_of :: "nat \<Rightarrow> 'f::linordered_field list \<Rightarrow> 'f option" where
  "variance_of ddof xs =
     (if int (length xs) - int ddof \<le> 0 then None
      else Some (snd (snd (moments xs)) / (of_nat (length xs) - of_nat ddof)))"

lemma variance_valid_numeric:
  assumes "numeric t vs" and "t = f64 \<or> small_squares vs"
  shows "variance_valid ddof (valid vs) = Inr (variance_of ddof (numbers vs))"
proof (cases "valid vs = []")
  case True
  then show ?thesis by (simp add: variance_valid_def m2_valid_def variance_of_def numbers_def)
next
  case False
  define ws where "ws = map Some (map square (valid vs))"
  have ws: "valid ws = map square (valid vs)" by (simp add: ws_def del: map_map)
  have "numeric t ws"
    using assms(1) unfolding numeric_def
  proof (elim disjE conjE)
    assume "t = f64" "all_flts vs"
    then have "all_flts ws" by (auto simp: all_flts_def ws dest!: bspec)
    then show "(t = f64 \<and> all_flts ws) \<or> (is_integral t \<and> all_ints ws \<and> no_overflow ws)"
      using \<open>t = f64\<close> by simp
  next
    assume i: "is_integral t" "all_ints vs"
    then have "all_ints ws" by (auto simp: all_ints_def ws dest!: bspec)
    moreover have "map (\<lambda>a. \<bar>as_int a\<bar>) (valid ws) = map (\<lambda>a. as_int a * as_int a) (valid vs)"
      using i by (auto simp: all_ints_def ws)
    then have "no_overflow ws"
      using assms(2) i by (auto simp: no_overflow_def small_squares_def is_integral_def)
    ultimately show "(t = f64 \<and> all_flts ws) \<or> (is_integral t \<and> all_ints ws \<and> no_overflow ws)"
      using i by simp
  qed
  moreover have "numbers ws = map (\<lambda>x. x * x) (numbers vs)"
    using assms(1) by (auto simp: numeric_def ws numbers_def all_ints_def all_flts_def dest!: bspec)
  moreover have "valid ws \<noteq> []" using False by (simp add: ws)
  ultimately obtain q where q: "sum_valid (map square (valid vs)) = Inr q"
    "cell_number q = Inr (sum_list (map (\<lambda>x. x * x) (numbers vs)))"
    using sum_valid_numeric [of t ws] ws by metis
  obtain s where s: "sum_valid (valid vs) = Inr s" "cell_number s = Inr (sum_list (numbers vs))"
    using sum_valid_numeric [OF assms(1) False] by auto
  have "length (numbers vs) = length (valid vs)" "numbers vs \<noteq> []" using False by (simp_all add: numbers_def)
  then show ?thesis using False q s
    by (simp add: variance_valid_def m2_valid_def variance_of_def moments_def Let_def)
qed

lemma eval_count_minus_ddof:
  assumes "map_of p n = Some (moments_cell (moments xs))"
  shows "eval lb p (count_minus_ddof n ddof) = Inr (Some (FltV (of_nat (length xs) - of_nat ddof)))"
  using assms by (cases "moments xs") (auto simp: count_minus_ddof_def moments_def split: if_splits)

lemma eval_variance:
  assumes "map_of p n = Some (moments_cell (moments xs))"
  shows "eval lb p (merged_variance n ddof) = Inr (map_option FltV (variance_of ddof xs))"
proof -
  have m2: "eval lb p (FieldByName f64 ''m2'' (Col MomentsT n)) = Inr (Some (FltV (snd (snd (moments xs)))))"
    using assms by (cases "moments xs") simp
  have "(of_nat (length xs) - of_nat ddof > (0::'a)) = (int (length xs) - int ddof > 0)" by simp
  then show ?thesis
    using eval_count_minus_ddof [OF assms, of lb ddof] m2
    by (auto simp: merged_variance_def ternary_def variance_of_def)
qed

lemma eval_std:
  assumes "map_of p n = Some (moments_cell (moments xs))"
  shows "eval lb p (Sqrt f64 (merged_variance n ddof)) = Inr (map_option (\<lambda>x. FltV (lb_sqrt lb x)) (variance_of ddof xs))"
  using eval_variance [OF assms, of lb ddof] by (cases "variance_of ddof xs") simp_all

text \<open>The mean of a group is the quotient of its sum and its count.\<close>

lemma mean_numeric:
  assumes "numeric t vs"
  shows "mean_valid (valid vs)
     = Inr (if valid vs = [] then None else Some (FltV (sum_list (numbers vs) / of_nat (length (valid vs)))))"
  using sum_valid_numeric [OF assms] by (auto simp: mean_valid_def)

lemma numbers_flts: "all_flts vs \<Longrightarrow> sum_list (map as_flt (valid vs)) = sum_list (numbers vs)"
proof -
  assume "all_flts vs"
  then have "as_flt a = as_num a" if "a \<in> set (valid vs)" for a using that by (auto simp: all_flts_def dest!: bspec)
  then have "map as_flt (valid vs) = numbers vs" by (simp add: numbers_def)
  then show ?thesis by simp
qed

lemma numbers_ints: "all_ints vs \<Longrightarrow> of_int (sum_list (map as_int (valid vs))) = sum_list (numbers vs)"
proof -
  assume "all_ints vs"
  then have "numbers vs = map of_int (map as_int (valid vs))" by (auto simp: all_ints_def numbers_def)
  moreover have "of_int (sum_list ns) = sum_list (map of_int ns)" for ns :: "int list" by (induction ns) simp_all
  ultimately show ?thesis by metis
qed

end
