(* ===== verification/GroupSorted.thy ===== *)
theory GroupSorted
  imports GroupReduce
begin

text \<open>
  Aggregations that are ordered by further expressions: \<open>first\<close> and \<open>last\<close> of a group sorted by them.
  The row selected from a chunk travels with the values of its sort keys, and selecting again among
  the selected rows of the chunks selects a row of the whole group.
\<close>

section \<open>The ends of a sorted list\<close>

context total_preorder
begin

lemma first_of_sort:
  "xs \<noteq> [] \<Longrightarrow> \<exists>before after. xs = before @ hd (stable_sort le xs) # after
     \<and> (\<forall>y \<in> set before. \<not> le y (hd (stable_sort le xs))) \<and> (\<forall>y \<in> set after. le (hd (stable_sort le xs)) y)"
proof (induction xs)
  case (Cons x xs)
  show ?case
  proof (cases "xs = []")
    case False
    then obtain y ys where ys: "stable_sort le xs = y # ys" by (cases "stable_sort le xs") (auto dest: arg_cong [where f = length])
    then obtain before after where ba: "xs = before @ y # after" "\<forall>z \<in> set before. \<not> le z y" "\<forall>z \<in> set after. le y z"
      using Cons.IH [OF False] by auto
    show ?thesis
    proof (cases "le x y")
      case True
      have "le x z" if z: "z \<in> set xs" for z
      proof -
        have "le y z" using z ba le_total [of y z] le_refl [of y] by auto
        then show ?thesis using True le_trans by blast
      qed
      then show ?thesis using True ys by (intro exI [of _ "[]"] exI [of _ xs]) simp
    next
      case not_le: False
      show ?thesis using not_le ys ba by (intro exI [of _ "x # before"] exI [of _ after]) simp
    qed
  qed (simp add: exI [of _ "[]"])
qed simp

lemma last_insort_by: "last (insort_by le x xs) = (if \<exists>y \<in> set xs. le x y then last xs else x)"
  if "sorted_wrt le xs"
  using that
proof (induction xs)
  case (Cons y ys)
  have up: "le x (last ys)" if "le x y" "ys \<noteq> []"
    using that Cons.prems by (auto intro: le_trans)
  have "insort_by le x ys \<noteq> []" by (cases ys) simp_all
  then show ?case using Cons by (cases "ys = []") (auto dest: le_trans)
qed simp

lemma last_of_sort:
  "xs \<noteq> [] \<Longrightarrow> \<exists>before after. xs = before @ last (stable_sort le xs) # after
     \<and> (\<forall>y \<in> set before. le y (last (stable_sort le xs))) \<and> (\<forall>y \<in> set after. \<not> le (last (stable_sort le xs)) y)"
proof (induction xs)
  case (Cons x xs)
  note srt = sorted_stable_sort [of xs]
  show ?case
  proof (cases "\<exists>y \<in> set xs. le x y")
    case True
    then have ne: "xs \<noteq> []" by auto
    then obtain before after where ba: "xs = before @ last (stable_sort le xs) # after"
      "\<forall>y \<in> set before. le y (last (stable_sort le xs))" "\<forall>y \<in> set after. \<not> le (last (stable_sort le xs)) y"
      using Cons.IH by auto
    define z where "z = last (stable_sort le xs)"
    obtain y where y: "y \<in> set xs" "le x y" using True by auto
    have "le y z" using y(1) ba le_refl le_total unfolding z_def [symmetric] by (metis Un_iff set_ConsD set_append)
    then have "le x z" using y le_trans by blast
    moreover have "last (stable_sort le (x # xs)) = z" using True by (simp add: last_insort_by [OF srt] z_def)
    ultimately show ?thesis using ba unfolding z_def [symmetric] by (intro exI [of _ "x # before"] exI [of _ after]) simp
  next
    case False
    then have "last (stable_sort le (x # xs)) = x" by (simp add: last_insort_by [OF srt])
    then show ?thesis using False by (intro exI [of _ "[]"] exI [of _ xs]) simp
  qed
qed simp

lemma first_of_sorted: "sorted_wrt le xs \<Longrightarrow> y \<in> set xs \<Longrightarrow> le (hd xs) y"
  by (cases xs) (auto intro: le_refl)

lemma last_of_sorted: "sorted_wrt le xs \<Longrightarrow> y \<in> set xs \<Longrightarrow> le y (last xs)"
  by (induction xs) (auto intro: le_refl)

end

section \<open>Tuples\<close>

lemma tuple_order_iff:
  "length x = length fs \<Longrightarrow> length y = length fs \<Longrightarrow> tuple_order fs x y \<longleftrightarrow> tuple_le value_lt fs x y"
  using nullable.tuple_not_lt [of y fs x] by (simp add: tuple_order_def)

lemma tuple_lt_same_prefix:
  "length k = length kf \<Longrightarrow> tuple_lt value_lt (kf @ fs) (k @ x) (k @ y) \<longleftrightarrow> tuple_lt value_lt fs x y"
  by (induction k kf rule: list_induct2) (simp_all add: nullable.lt_irrefl)

lemma tuple_order_same_prefix:
  "length k = length kf \<Longrightarrow> tuple_order (kf @ fs) (k @ x) (k @ y) \<longleftrightarrow> tuple_order fs x y"
  by (simp add: tuple_order_def tuple_lt_same_prefix)

lemma tuple_order_trans:
  "length x = length fs \<Longrightarrow> length y = length fs \<Longrightarrow> length z = length fs
   \<Longrightarrow> tuple_order fs x y \<Longrightarrow> tuple_order fs y z \<Longrightarrow> tuple_order fs x z"
  using nullable.tuple_le_trans [of fs x y z] by (simp add: tuple_order_iff)

lemma tuple_order_total:
  "length x = length fs \<Longrightarrow> length y = length fs \<Longrightarrow> tuple_order fs x y \<or> tuple_order fs y x"
  using nullable.tuple_total [of x fs y] by (auto simp: tuple_order_iff tuple_le_def)

definition pad :: "nat \<Rightarrow> 'b option list \<Rightarrow> 'b option list" where
  "pad n x = map (\<lambda>i. if i < length x then x ! i else None) [0..<n]"

lemma length_pad [simp]: "length (pad n x) = n"
  by (simp add: pad_def)

lemma pad_id: "length x = n \<Longrightarrow> pad n x = x"
  by (auto simp: pad_def intro: nth_equalityI)

definition entry_le ::
  "(sort_direction \<times> null_order) list \<Rightarrow> ('x \<Rightarrow> 'a::linorder option list) \<Rightarrow> 'x \<Rightarrow> 'x \<Rightarrow> bool" where
  "entry_le fs f x y \<longleftrightarrow> tuple_order fs (pad (length fs) (f x)) (pad (length fs) (f y))"

interpretation entry: total_preorder "entry_le fs f" for fs f
proof
  fix x y z
  show "entry_le fs f x y \<Longrightarrow> entry_le fs f y z \<Longrightarrow> entry_le fs f x z"
    using tuple_order_trans [of "pad (length fs) (f x)" fs "pad (length fs) (f y)" "pad (length fs) (f z)"]
    by (simp add: entry_le_def)
  show "entry_le fs f x y \<or> entry_le fs f y x"
    using tuple_order_total [of "pad (length fs) (f x)" fs "pad (length fs) (f y)"] by (simp add: entry_le_def)
qed

lemma entry_le_iff: "length (f x) = length fs \<Longrightarrow> length (f y) = length fs \<Longrightarrow> entry_le fs f x y \<longleftrightarrow> tuple_order fs (f x) (f y)"
  by (simp add: entry_le_def pad_id)

section \<open>Selecting among selected rows\<close>

lemma tuple_beats_weak:
  assumes "length x = length fs" "length y = length fs" and "tuple_beats a s fs x y"
  shows "tuple_beats a False fs x y"
  using assms nullable.tuple_irrefl [of fs] nullable.tuple_trans [of fs x y x] nullable.tuple_trans [of fs y x y]
  by (auto simp: tuple_beats_def tuple_order_def split: if_splits)

lemma tuple_beats_trans:
  assumes "length x = length fs" "length y = length fs" "length z = length fs"
    and "tuple_beats a s fs x y" and "tuple_beats a False fs y z"
  shows "tuple_beats a s fs x z"
  using assms tuple_order_trans [of x fs y z] tuple_order_trans [of z fs y x]
    nullable.tuple_lt_le_trans [of fs x y z] nullable.tuple_le_lt_trans [of fs z y x]
  by (auto simp: tuple_beats_def tuple_order_iff split: if_splits)

lemma tuple_beats_tie:
  assumes "length x = length fs" "length y = length fs"
    and "tuple_beats a False fs x y" and "tuple_beats a False fs y x"
  shows "x = y"
  using assms nullable.tuple_trans [of fs x y x] nullable.tuple_irrefl [of fs x]
  by (auto simp: tuple_beats_def tuple_order_iff tuple_le_def split: if_splits)


section \<open>One sorted aggregation\<close>

text \<open>An unstable sort of key tuples arranges them in order.\<close>

definition sort_ok :: "'f::linordered_field library \<Rightarrow> bool" where
  "sort_ok lb \<longleftrightarrow> (\<forall>fs ts. list_all (\<lambda>t. length t = length fs) ts \<longrightarrow>
     mset (lb_sort lb fs ts) = mset [0..<length ts] \<and> sorted_wrt (tuple_order fs) (map (nth ts) (lb_sort lb fs ts)))"

lemma sort_flags_length:
  "length (so_nulls_last so) = n \<Longrightarrow> length (so_descending so) = n \<Longrightarrow> length (sort_flags so n) = n"
proof -
  assume l: "length (so_nulls_last so) = n" "length (so_descending so) = n"
  define ps where "ps = zip (map (\<lambda>d. if d then Descending else Ascending) (so_descending so)) (so_nulls_last so)"
  have "length (concat (map (\<lambda>(asc, null_last).
       if (asc = Ascending) \<noteq> (\<not> null_last) then [NullAfter]
       else if (asc = Ascending) \<noteq> null_last then [NullBefore] else []) qs)) = length qs"
    for qs :: "(sort_direction \<times> bool) list"
    by (induction qs) auto
  then show ?thesis using l by (simp add: sort_flags_def sort_order_def broadcast_def Let_def)
qed

definition value_at :: "'f::linordered_field library \<Rightarrow> 'f expr \<Rightarrow> 'f row \<Rightarrow> 'f cell" where
  "value_at lb e r = (case eval lb r e of Inl _ \<Rightarrow> None | Inr c \<Rightarrow> c)"

lemma value_at_eval: "\<exists>c. eval lb r e = Inr c \<Longrightarrow> eval lb r e = Inr (value_at lb e r)"
  by (auto simp: value_at_def)

lemma by_tuple_eval:
  "\<forall>d \<in> set bs. \<exists>c. eval lb r d = Inr c \<Longrightarrow> rmap (eval lb r) bs = Inr (by_tuple lb bs r) \<and> by_tuple lb bs r = map (\<lambda>d. value_at lb d r) bs"
proof -
  assume "\<forall>d \<in> set bs. \<exists>c. eval lb r d = Inr c"
  then have "rmap (eval lb r) bs = Inr (map (\<lambda>d. value_at lb d r) bs)"
    by (intro rmap_all_Inr value_at_eval) simp
  then show ?thesis by (simp add: by_tuple_def)
qed

lemma mset_filter_nth:
  "mset p = mset [0..<length es] \<Longrightarrow> mset (map (nth es) p) = mset es"
  by (metis map_nth mset_map)

lemma sorted_selection:
  fixes G :: "('k \<times> 'a::linorder option list \<times> 'v) list"
  assumes ne: "G \<noteq> []" and len: "\<And>x. x \<in> set G \<Longrightarrow> length (fst (snd x)) = length fs"
    and a: "a = AggFirst \<or> a = AggLast"
    and F: "F = (if st then stable_sort (entry_le fs (\<lambda>x. fst (snd x))) G else F)"
    and srt: "sorted_wrt (entry_le fs (\<lambda>x. fst (snd x))) F" and ms: "mset F = mset G"
  shows "\<exists>before x after. G = before @ x # after \<and> x = (if a = AggFirst then hd F else last F)
     \<and> list_all (\<lambda>y. tuple_beats a (st \<and> a = AggFirst) fs (fst (snd x)) (fst (snd y))) before
     \<and> list_all (\<lambda>y. tuple_beats a (st \<and> a = AggLast) fs (fst (snd x)) (fst (snd y))) after"
proof -
  let ?le = "entry_le fs (\<lambda>x :: 'k \<times> 'a option list \<times> 'v. fst (snd x))"
  define x where "x = (if a = AggFirst then hd F else last F)"
  have neF: "F \<noteq> []" using ms ne by auto
  then have "x \<in> set F" by (simp add: x_def)
  then have xG: "x \<in> set G" using ms by (metis set_mset_mset)
  have le_iff: "?le u v \<longleftrightarrow> tuple_order fs (fst (snd u)) (fst (snd v))" if "u \<in> set G" "v \<in> set G" for u v
    using len that by (simp add: entry_le_iff)
  have main: "\<exists>before after. G = before @ x # after
      \<and> (\<forall>y \<in> set before. if a = AggFirst then (if st then \<not> ?le y x else ?le x y) else ?le y x)
      \<and> (\<forall>y \<in> set after. if a = AggFirst then ?le x y else (if st then \<not> ?le x y else ?le y x))"
  proof (cases st)
    case True
    then have "F = stable_sort ?le G" using F by simp
    then show ?thesis using a entry.first_of_sort [OF ne, of fs "\<lambda>x. fst (snd x)"] entry.last_of_sort [OF ne, of fs "\<lambda>x. fst (snd x)"] True
      by (cases "a = AggFirst") (simp_all add: x_def)
  next
    case False
    have "if a = AggFirst then ?le x y else ?le y x" if "y \<in> set G" for y
    proof -
      have "y \<in> set F" using that ms by (metis set_mset_mset)
      then show ?thesis using entry.first_of_sorted [OF srt] entry.last_of_sorted [OF srt] by (simp add: x_def)
    qed
    moreover obtain before after where "G = before @ x # after" using xG by (meson split_list)
    ultimately show ?thesis using False by (intro exI [of _ before] exI [of _ after]) simp
  qed
  then obtain before after where ba: "G = before @ x # after"
    "\<forall>y \<in> set before. if a = AggFirst then (if st then \<not> ?le y x else ?le x y) else ?le y x"
    "\<forall>y \<in> set after. if a = AggFirst then ?le x y else (if st then \<not> ?le x y else ?le y x)" by blast
  have "tuple_beats a (st \<and> a = AggFirst) fs (fst (snd x)) (fst (snd y))" if "y \<in> set before" for y
  proof -
    have "y \<in> set G" using that ba by simp
    then show ?thesis using bspec [OF ba(2) that] a le_iff xG
      by (auto simp: tuple_beats_def tuple_order_def split: if_splits)
  qed
  moreover have "tuple_beats a (st \<and> a = AggLast) fs (fst (snd x)) (fst (snd y))" if "y \<in> set after" for y
  proof -
    have "y \<in> set G" using that ba by simp
    then show ?thesis using bspec [OF ba(3) that] a le_iff xG
      by (auto simp: tuple_beats_def tuple_order_def split: if_splits)
  qed
  ultimately show ?thesis using ba(1) by (intro exI [of _ before] exI [of _ x] exI [of _ after]) (simp add: x_def list_all_iff)
qed


lemma group_map: "group (map (\<lambda>(k, r). (k, f k r)) kt) k = map (f k) (group kt k)"
  by (induction kt) (auto simp: group_def)

lemma sorted_entries_of_group:
  fixes kt :: "'f::linordered_field keyed"
  assumes ok: "\<forall>p \<in> set kt. \<forall>d \<in> set (e # bs). \<exists>c. eval lb (snd p) d = Inr c"
    and lib: "sort_ok lb" and lens: "length (so_nulls_last so) = length bs" "length (so_descending so) = length bs"
    and keys: "\<forall>p \<in> set kt. length (fst p) = length (lb_key_flags lb)"
  defines "h \<equiv> \<lambda>k r. (k, by_tuple lb bs r, value_at lb e r)"
    and "fs \<equiv> sort_flags so (length bs)"
  shows "\<exists>S. sorted_entries lb so e bs kt = Inr (map (\<lambda>(k, b, v). (k, v)) S)
     \<and> (so_stable so \<longrightarrow> filter (\<lambda>x. fst x = k) S = stable_sort (entry_le fs (\<lambda>x. fst (snd x))) (map (h k) (group kt k)))
     \<and> sorted_wrt (entry_le fs (\<lambda>x. fst (snd x))) (filter (\<lambda>x. fst x = k) S)
     \<and> mset (filter (\<lambda>x. fst x = k) S) = mset (map (h k) (group kt k))"
proof -
  define es where "es = map (\<lambda>(k, r). h k r) kt"
  define full where "full = lb_key_flags lb @ fs"
  define key :: "'f cell list \<times> 'f cell list \<times> 'f cell \<Rightarrow> 'f cell list" where "key = (\<lambda>(k, b, v). k @ b)"
  define S where "S = (if so_stable so then stable_sort (\<lambda>(k, b, v) (k', b', v'). tuple_order full (k @ b) (k' @ b')) es
            else map (nth es) (lb_sort lb full (map (\<lambda>(k, b, v). k @ b) es)))"
  have "rmap (\<lambda>(k, r). rbind (rmap (eval lb r) bs) (\<lambda>b. rbind (eval lb r e) (\<lambda>v. Inr (k, b, v)))) kt = Inr es"
    unfolding es_def
  proof (rule rmap_all_Inr, clarify)
    fix k r
    assume "(k, r) \<in> set kt"
    then have "\<forall>d \<in> set (e # bs). \<exists>c. eval lb r d = Inr c" using ok by force
    then show "rbind (rmap (eval lb r) bs) (\<lambda>b. rbind (eval lb r e) (\<lambda>v. Inr (k, b, v))) = Inr (h k r)"
      using by_tuple_eval [of bs lb r] value_at_eval [of lb r e] by (simp add: h_def)
  qed
  then have entries: "sorted_entries lb so e bs kt = Inr (map (\<lambda>(k, b, v). (k, v)) S)"
    by (simp add: sorted_entries_def Let_def S_def full_def fs_def)
  have sf: "length fs = length bs" using sort_flags_length [OF lens] by (simp add: fs_def)
  have es: "length (fst x) = length (lb_key_flags lb) \<and> length (fst (snd x)) = length fs" if x: "x \<in> set es" for x
  proof -
    obtain k r where "(k, r) \<in> set kt" "x = h k r" using x by (auto simp: es_def)
    moreover have "\<forall>d \<in> set bs. \<exists>c. eval lb r d = Inr c" using ok \<open>(k, r) \<in> set kt\<close> by force
    then have "length (by_tuple lb bs r) = length bs" using by_tuple_eval [of bs lb r] by simp
    ultimately show ?thesis using keys sf by (force simp: h_def)
  qed
  have key_len: "length (key x) = length full" if "x \<in> set es" for x
    using es [OF that] by (cases x) (simp add: key_def full_def)
  have le_key: "(\<lambda>(k, b, v) (k', b', v'). tuple_order full (k @ b) (k' @ b')) x y = entry_le full key x y"
    if "x \<in> set es" "y \<in> set es" for x y
    using entry_le_iff [of key x full y] key_len that by (simp add: key_def split: prod.splits)
  have same: "entry_le full key x y = entry_le fs (\<lambda>x. fst (snd x)) x y"
    if "x \<in> set es" "y \<in> set es" "fst x = k" "fst y = k" for x y
  proof -
    have "key x = k @ fst (snd x)" "key y = k @ fst (snd y)" using that(3,4) by (auto simp: key_def split: prod.splits)
    moreover have "length k = length (lb_key_flags lb)" "length (fst (snd x)) = length fs" "length (fst (snd y)) = length fs"
      using es [OF that(1)] es [OF that(2)] that(3) by simp_all
    ultimately show ?thesis
      using entry_le_iff [of key x full y] entry_le_iff [of "\<lambda>x. fst (snd x)" x fs y] key_len [OF that(1)] key_len [OF that(2)]
        tuple_order_same_prefix [of k "lb_key_flags lb" fs "fst (snd x)" "fst (snd y)"]
      by (simp add: full_def)
  qed
  have g: "filter (\<lambda>x. fst x = k) es = map (h k) (group kt k)"
    unfolding es_def group_def h_def by (induction kt) auto
  have S: "S = (if so_stable so then stable_sort (entry_le full key) es else map (nth es) (lb_sort lb full (map key es)))"
  proof -
    have "stable_sort (\<lambda>(k, b, v) (k', b', v'). tuple_order full (k @ b) (k' @ b')) es = stable_sort (entry_le full key) es"
      by (rule stable_sort_cong) (rule le_key)
    then show ?thesis by (simp add: S_def key_def)
  qed
  have perm: "mset (lb_sort lb full (map key es)) = mset [0..<length es]"
    and srt: "sorted_wrt (tuple_order full) (map (nth (map key es)) (lb_sort lb full (map key es)))"
    using lib key_len unfolding sort_ok_def by (simp_all add: list_all_iff)
  have mS: "mset S = mset es" unfolding S using mset_filter_nth [OF perm] by simp
  have sS: "sorted_wrt (entry_le full key) S"
  proof (cases "so_stable so")
    case True
    then show ?thesis by (simp add: S entry.sorted_stable_sort)
  next
    case False
    have lt: "i < length es" if "i \<in> set (lb_sort lb full (map key es))" for i
      using perm that by (metis atLeastLessThan_upt atLeastLessThan_iff set_mset_mset)
    have "map (nth (map key es)) (lb_sort lb full (map key es)) = map key S"
      using False lt by (simp add: S)
    then have "sorted_wrt (\<lambda>x y. tuple_order full (key x) (key y)) S" using srt by (simp add: sorted_wrt_map)
    moreover have "set S = set es" using mS by (metis set_mset_mset)
    ultimately show ?thesis using key_len
      by (elim sorted_wrt_mono_rel [rotated]) (simp add: entry_le_iff)
  qed
  have setS: "set S = set es" using mS by (metis set_mset_mset)
  have "sorted_wrt (entry_le full key) (filter (\<lambda>x. fst x = k) S)" using sS by (rule sorted_wrt_filter)
  then have sF: "sorted_wrt (entry_le fs (\<lambda>x. fst (snd x))) (filter (\<lambda>x. fst x = k) S)"
    using same setS by (elim sorted_wrt_mono_rel [rotated]) simp
  have mF: "mset (filter (\<lambda>x. fst x = k) S) = mset (map (h k) (group kt k))"
    using mS g by (metis mset_filter)
  have "filter (\<lambda>x. fst x = k) S = stable_sort (entry_le fs (\<lambda>x. fst (snd x))) (map (h k) (group kt k))" if "so_stable so"
  proof -
    have "filter (\<lambda>x. fst x = k) S = stable_sort (entry_le full key) (filter (\<lambda>x. fst x = k) es)"
      using that by (simp add: S entry.filter_stable_sort)
    also have "\<dots> = stable_sort (entry_le fs (\<lambda>x. fst (snd x))) (filter (\<lambda>x. fst x = k) es)"
      by (rule stable_sort_cong) (simp add: same)
    finally show ?thesis by (simp add: g)
  qed
  then show ?thesis using entries sF mF by blast
qed

lemma sorted_request:
  fixes kt :: "'f::linordered_field keyed"
  assumes ok: "agg_ok lb (SortedAgg t a so e bs) (map snd kt)" and lib: "sort_ok lb"
    and keys: "\<forall>p \<in> set kt. length (fst p) = length (lb_key_flags lb)" and ne: "group kt k \<noteq> []"
  shows "\<exists>v. request_value lb kt (SortedAgg t a so e bs) k = Inr v \<and> agg_spec lb (SortedAgg t a so e bs) (group kt k) v"
proof -
  define h where "h = (\<lambda>k r. (k, by_tuple lb bs r, value_at lb e r) :: 'f cell list \<times> 'f cell list \<times> 'f cell)"
  define fs where "fs = sort_flags so (length bs)"
  have lens: "length (so_nulls_last so) = length bs" "length (so_descending so) = length bs"
    and a: "a = AggFirst \<or> a = AggLast"
    and evals: "\<forall>p \<in> set kt. \<forall>d \<in> set (e # bs). \<exists>c. eval lb (snd p) d = Inr c"
    using ok by simp_all
  obtain S where S: "sorted_entries lb so e bs kt = Inr (map (\<lambda>(k, b, v). (k, v)) S)"
    and st: "so_stable so \<longrightarrow> filter (\<lambda>x. fst x = k) S = stable_sort (entry_le fs (\<lambda>x. fst (snd x))) (map (h k) (group kt k))"
    and srt: "sorted_wrt (entry_le fs (\<lambda>x. fst (snd x))) (filter (\<lambda>x. fst x = k) S)"
    and ms: "mset (filter (\<lambda>x. fst x = k) S) = mset (map (h k) (group kt k))"
    using sorted_entries_of_group [OF evals lib lens keys, of k] by (auto simp: h_def fs_def)
  define F where "F = filter (\<lambda>x. fst x = k) S"
  have in_group: "r \<in> set (group kt k) \<Longrightarrow> \<exists>p \<in> set kt. snd p = r" for r by (auto simp: group_def)
  have len: "length (fst (snd x)) = length fs" if "x \<in> set (map (h k) (group kt k))" for x
  proof -
    have "x \<in> h k ` set (group kt k)" using that by (simp only: set_map)
    then obtain r where r: "x = h k r" "r \<in> set (group kt k)" by (rule imageE)
    then have "\<forall>d \<in> set bs. \<exists>c. eval lb r d = Inr c" using in_group [of r] evals by auto
    then have "length (by_tuple lb bs r) = length bs" using by_tuple_eval [of bs lb r] by simp
    then show ?thesis using r sort_flags_length [OF lens] by (simp add: h_def fs_def)
  qed
  have "\<exists>before x after. map (h k) (group kt k) = before @ x # after \<and> x = (if a = AggFirst then hd F else last F)
     \<and> list_all (\<lambda>y. tuple_beats a (so_stable so \<and> a = AggFirst) fs (fst (snd x)) (fst (snd y))) before
     \<and> list_all (\<lambda>y. tuple_beats a (so_stable so \<and> a = AggLast) fs (fst (snd x)) (fst (snd y))) after"
    by (rule sorted_selection) (use ne len a st srt ms in \<open>auto simp: F_def\<close>)
  then obtain before x after where x: "map (h k) (group kt k) = before @ x # after" "x = (if a = AggFirst then hd F else last F)"
    "list_all (\<lambda>y. tuple_beats a (so_stable so \<and> a = AggFirst) fs (fst (snd x)) (fst (snd y))) before"
    "list_all (\<lambda>y. tuple_beats a (so_stable so \<and> a = AggLast) fs (fst (snd x)) (fst (snd y))) after" by blast
  then obtain rb r ra where r: "group kt k = rb @ r # ra" "map (h k) rb = before" "h k r = x" "map (h k) ra = after"
    by (auto simp: map_eq_append_conv)
  have "selected lb a so bs rb r ra"
    using x(3,4) r(2-4) by (auto simp: selected_def beats_def h_def list_all_iff simp flip: fs_def)
  moreover have "eval lb r e = Inr (value_at lb e r)"
    using r(1) in_group [of r] evals by (auto intro: value_at_eval)
  ultimately have spec: "agg_spec lb (SortedAgg t a so e bs) (group kt k) (value_at lb e r)"
    using r(1) by auto
  have "length F = length (group kt k)" using ms by (metis F_def length_map size_mset)
  then have neF: "F \<noteq> []" using ne by auto
  have "group (map (\<lambda>(k, b, v). (k, v)) S) k = map (\<lambda>x. snd (snd x)) F"
    unfolding F_def group_def by (induction S) auto
  moreover have "aggregate lb a NoOptions (map (\<lambda>x. snd (snd x)) F) = Inr (snd (snd x))"
    using a neF x(2) by (auto simp: nth_first_def nth_last_def last_map hd_conv_nth split: list.splits)
  moreover have "snd (snd x) = value_at lb e r" using r(3) by (simp add: h_def flip: r(3))
  ultimately show ?thesis using spec by (simp add: S)
qed


section \<open>Reducing sorted aggregations\<close>

lemma by_tuple_length: "\<forall>d \<in> set bs. \<exists>c. eval lb r d = Inr c \<Longrightarrow> length (by_tuple lb bs r) = length bs"
  using by_tuple_eval [of bs lb r] by simp

lemma tuple_beats_refl: "tuple_beats a False fs x x"
  by (simp add: tuple_beats_def tuple_order_def nullable.tuple_irrefl)

text \<open>The selected row is at least as good as every row of the group.\<close>

lemma selected_weak:
  assumes "selected lb a so bs before r after" and "fs = sort_flags so (length bs)"
    and "\<forall>s \<in> set (before @ r # after). length (by_tuple lb bs s) = length fs"
    and "s \<in> set (before @ r # after)"
  shows "tuple_beats a False fs (by_tuple lb bs r) (by_tuple lb bs s)"
  using assms tuple_beats_weak [of "by_tuple lb bs r" fs "by_tuple lb bs s" a]
  by (auto simp: selected_def Let_def beats_def list_all_iff tuple_beats_refl)

lemma selected_tie:
  assumes "rs = b @ r # a'" "selected lb a so bs b r a'" and "rs = c @ s # d" "selected lb a so bs c s d"
    and "fs = sort_flags so (length bs)" and "\<forall>s \<in> set rs. length (by_tuple lb bs s) = length fs"
  shows "by_tuple lb bs r = by_tuple lb bs s"
proof (rule tuple_beats_tie)
  have "s \<in> set (b @ r # a')" unfolding assms(1) [symmetric] unfolding assms(3) by simp
  then show "tuple_beats a False fs (by_tuple lb bs r) (by_tuple lb bs s)"
    using assms(6) unfolding assms(1) by (intro selected_weak [OF assms(2,5)])
  have "r \<in> set (c @ s # d)" unfolding assms(3) [symmetric] unfolding assms(1) by simp
  then show "tuple_beats a False fs (by_tuple lb bs s) (by_tuple lb bs r)"
    using assms(6) unfolding assms(3) by (intro selected_weak [OF assms(4,5)])
  have "r \<in> set rs" "s \<in> set rs" unfolding assms(1) by simp (simp flip: assms(1), simp add: assms(3))
  then show "length (by_tuple lb bs r) = length fs" "length (by_tuple lb bs s) = length fs"
    using assms(6) by simp_all
qed

lemma partial_sort_keys:
  fixes p :: "'f::linordered_field row"
  assumes rs: "rs = before @ r # after" and sel: "selected lb a so bs before r after"
    and evals: "\<forall>s \<in> set rs. \<forall>d \<in> set bs. \<exists>c. eval lb s d = Inr c"
    and lens: "length (so_nulls_last so) = length bs" "length (so_descending so) = length bs" "length ns = length bs"
    and keys: "\<forall>j < length bs. \<exists>v. map_of p (ns ! j) = Some v \<and> agg_spec lb (SortedAgg t' a so (bs ! j) bs) rs v"
  shows "by_tuple lb (sort_key_cols ns bs) p = by_tuple lb bs r"
    and "\<forall>d \<in> set (sort_key_cols ns bs). \<exists>c. eval lb p d = Inr c"
proof -
  define fs where "fs = sort_flags so (length bs)"
  have len: "\<forall>s \<in> set rs. length (by_tuple lb bs s) = length fs"
    using evals by (simp add: by_tuple_length fs_def sort_flags_length [OF lens(1,2)])
  have col: "map_of p (ns ! j) = Some (by_tuple lb bs r ! j)" if j: "j < length bs" for j
  proof -
    obtain v b s d where v: "map_of p (ns ! j) = Some v" and s: "rs = b @ s # d" "selected lb a so bs b s d" "eval lb s (bs ! j) = Inr v"
      using keys j by auto
    have "by_tuple lb bs r = by_tuple lb bs s" by (rule selected_tie [OF rs sel s(1,2) fs_def len])
    moreover have "\<forall>d \<in> set bs. \<exists>c. eval lb s d = Inr c" using evals s(1) by auto
    then have "by_tuple lb bs s ! j = v" using by_tuple_eval [of bs lb s] j s(3) by (simp add: value_at_def)
    ultimately show ?thesis using v by simp
  qed
  have e: "eval lb p (sort_key_cols ns bs ! j) = Inr (by_tuple lb bs r ! j)" if "j < length bs" for j
    using col [OF that] that lens(3) by (simp add: sort_key_cols_def)
  have l: "length (sort_key_cols ns bs) = length bs" using lens(3) by (simp add: sort_key_cols_def)
  show ex: "\<forall>d \<in> set (sort_key_cols ns bs). \<exists>c. eval lb p d = Inr c"
    using e l by (metis in_set_conv_nth)
  have "r \<in> set rs" by (simp add: rs)
  then have lr: "length (by_tuple lb bs r) = length bs" using evals by (simp add: by_tuple_length)
  show "by_tuple lb (sort_key_cols ns bs) p = by_tuple lb bs r"
  proof (rule nth_equalityI)
    show "length (by_tuple lb (sort_key_cols ns bs) p) = length (by_tuple lb bs r)" using by_tuple_length [OF ex] l lr by simp
    fix j
    assume "j < length (by_tuple lb (sort_key_cols ns bs) p)"
    then have j: "j < length bs" using by_tuple_length [OF ex] l by simp
    then show "by_tuple lb (sort_key_cols ns bs) p ! j = by_tuple lb bs r ! j"
      using by_tuple_eval [OF ex] l e [OF j] by (simp add: value_at_def)
  qed
qed

lemma sorted_merge:
  fixes ps :: "'f::linordered_field row list"
  assumes evals: "\<forall>s \<in> set (concat rss). \<forall>d \<in> set bs. \<exists>c. eval lb s d = Inr c"
    and lens: "length (so_nulls_last so) = length bs" "length (so_descending so) = length bs" "length ns = length bs"
    and pay: "list_all2 (\<lambda>rs p. \<exists>v. map_of p n = Some v \<and> agg_spec lb (SortedAgg t a so e bs) rs v) rss ps"
    and keys: "list_all2 (\<lambda>rs p. \<forall>j < length bs. \<exists>v. map_of p (ns ! j) = Some v
       \<and> agg_spec lb (SortedAgg t' a so (bs ! j) bs) rs v) rss ps"
    and spec: "agg_spec lb (SortedAgg u a so (Col u n) (sort_key_cols ns bs)) ps v"
  shows "agg_spec lb (SortedAgg t a so e bs) (concat rss) v"
proof -
  define fs where "fs = sort_flags so (length bs)"
  define cols where "cols = sort_key_cols ns bs"
  have fl: "length fs = length bs" by (simp add: fs_def sort_flags_length [OF lens(1,2)])
  have lc: "length cols = length bs" using lens(3) by (simp add: cols_def sort_key_cols_def)
  have pair: "\<exists>before r after. rs = before @ r # after \<and> selected lb a so bs before r after
      \<and> (\<exists>c. map_of p n = Some c \<and> eval lb r e = Inr c) \<and> by_tuple lb cols p = by_tuple lb bs r
      \<and> (\<forall>s \<in> set rs. length (by_tuple lb bs s) = length fs \<and> tuple_beats a False fs (by_tuple lb bs r) (by_tuple lb bs s))"
    if rp: "(rs, p) \<in> set (zip rss ps)" for rs p
  proof -
    have p: "\<exists>v. map_of p n = Some v \<and> agg_spec lb (SortedAgg t a so e bs) rs v"
      and k: "\<forall>j < length bs. \<exists>v. map_of p (ns ! j) = Some v \<and> agg_spec lb (SortedAgg t' a so (bs ! j) bs) rs v"
      using pay keys rp by (auto simp: list_all2_iff)
    have ev: "\<forall>s \<in> set rs. \<forall>d \<in> set bs. \<exists>c. eval lb s d = Inr c" using evals rp by (auto dest: set_zip_leftD)
    obtain before r after c where r: "rs = before @ r # after" "selected lb a so bs before r after"
      "map_of p n = Some c" "eval lb r e = Inr c" using p by auto
    have len: "\<forall>s \<in> set rs. length (by_tuple lb bs s) = length fs" using ev by (simp add: by_tuple_length fl)
    then have "\<forall>s \<in> set rs. tuple_beats a False fs (by_tuple lb bs r) (by_tuple lb bs s)"
      using selected_weak [OF r(2) fs_def] r(1) by simp
    moreover have "by_tuple lb cols p = by_tuple lb bs r"
      unfolding cols_def by (rule partial_sort_keys(1) [OF r(1,2) ev lens k])
    ultimately show ?thesis using r len by blast
  qed
  obtain pb p pa where ps: "ps = pb @ p # pa" and sel: "selected lb a so cols pb p pa" and v: "map_of p n = Some v"
    using spec by (auto simp: cols_def of_option_Inr_iff)
  have ll: "length rss = length ps" using pay by (rule list_all2_lengthD)
  obtain rb rs ra where rss: "rss = rb @ rs # ra" and l: "length rb = length pb" "length ra = length pa"
  proof
    show "rss = take (length pb) rss @ rss ! length pb # drop (Suc (length pb)) rss"
      using ll ps by (intro id_take_nth_drop) simp
  qed (use ll ps in auto)
  have z: "zip rss ps = zip rb pb @ (rs, p) # zip ra pa" by (simp add: rss ps l)
  obtain before r after where r: "rs = before @ r # after" "selected lb a so bs before r after" "eval lb r e = Inr v"
    "by_tuple lb cols p = by_tuple lb bs r" "\<forall>s \<in> set rs. length (by_tuple lb bs s) = length fs"
    using pair [of rs p] v z by auto
  have fsc: "sort_flags so (length cols) = fs" by (simp add: fs_def lc)
  have lift: "tuple_beats a s fs (by_tuple lb bs r) (by_tuple lb bs x)"
    if q: "(rs', q) \<in> set (zip rss ps)" and b: "tuple_beats a s fs (by_tuple lb cols p) (by_tuple lb cols q)"
      and x: "x \<in> set rs'" for rs' q s x
  proof -
    obtain r' where r': "r' \<in> set rs'" "by_tuple lb cols q = by_tuple lb bs r'"
      "\<forall>s \<in> set rs'. length (by_tuple lb bs s) = length fs \<and> tuple_beats a False fs (by_tuple lb bs r') (by_tuple lb bs s)"
      using pair [OF q] by (metis in_set_conv_decomp)
    show ?thesis
      by (rule tuple_beats_trans [of _ _ "by_tuple lb bs r'"]) (use r r' b x in auto)
  qed
  have B: "beats lb a (so_stable so \<and> a = AggFirst) fs bs r x" if x: "x \<in> set (concat rb @ before)" for x
  proof (cases "x \<in> set before")
    case True
    then show ?thesis using r(2) by (simp add: selected_def list_all_iff flip: fs_def)
  next
    case False
    then obtain rs' where "rs' \<in> set rb" "x \<in> set rs'" using x by auto
    then obtain q where q: "(rs', q) \<in> set (zip rb pb)" using l by (metis in_set_impl_in_set_zip1)
    then have "q \<in> set pb" by (rule set_zip_rightD)
    then have "tuple_beats a (so_stable so \<and> a = AggFirst) fs (by_tuple lb cols p) (by_tuple lb cols q)"
      using sel by (simp add: selected_def fsc list_all_iff beats_def)
    then show ?thesis using lift [of rs' q _ x] q z \<open>x \<in> set rs'\<close> by (simp add: beats_def)
  qed
  have A: "beats lb a (so_stable so \<and> a = AggLast) fs bs r x" if x: "x \<in> set (after @ concat ra)" for x
  proof (cases "x \<in> set after")
    case True
    then show ?thesis using r(2) by (simp add: selected_def list_all_iff flip: fs_def)
  next
    case False
    then obtain rs' where "rs' \<in> set ra" "x \<in> set rs'" using x by auto
    then obtain q where q: "(rs', q) \<in> set (zip ra pa)" using l by (metis in_set_impl_in_set_zip1)
    then have "q \<in> set pa" by (rule set_zip_rightD)
    then have "tuple_beats a (so_stable so \<and> a = AggLast) fs (by_tuple lb cols p) (by_tuple lb cols q)"
      using sel by (simp add: selected_def fsc list_all_iff beats_def)
    then show ?thesis using lift [of rs' q _ x] q z \<open>x \<in> set rs'\<close> by (simp add: beats_def)
  qed
  have "concat rss = (concat rb @ before) @ r # (after @ concat ra)" by (simp add: rss r(1))
  moreover have "selected lb a so bs (concat rb @ before) r (after @ concat ra)"
    using A B by (simp only: selected_def Let_def list_all_iff flip: fs_def) blast
  ultimately show ?thesis using r(3) unfolding agg_spec.simps by blast
qed

end
