(* ===== verification/GroupPhases.thy ===== *)
theory GroupPhases
  imports GroupSorted
begin

text \<open>
  The three phases of a decomposition, for every request that can be decomposed: piecewise requests,
  reductions and selection, each stated of one group.
\<close>

section \<open>Columns of partial results\<close>

definition part :: "'f::linordered_field library \<Rightarrow> string \<Rightarrow> 'f expr \<Rightarrow> 'f row list \<Rightarrow> 'f row \<Rightarrow> bool" where
  "part lb n a rs p \<longleftrightarrow> (\<exists>v. map_of p n = Some v \<and> agg_spec lb a rs v)"

definition holds :: "'f::linordered_field library \<Rightarrow> 'f decomposition \<Rightarrow> 'f row list \<Rightarrow> 'f row \<Rightarrow> bool" where
  "holds lb d rs p \<longleftrightarrow> (\<forall>(n, a) \<in> set (dc_piecewise d). part lb n a rs p)"

lemma part_column:
  assumes "list_all2 (part lb n a) rss ps" and "\<And>rs v. rs \<in> set rss \<Longrightarrow> agg_spec lb a rs v \<Longrightarrow> v = f rs"
  shows "column_is n ps (map f rss)"
  using assms by (induction rule: list_all2_induct) (auto simp: column_is_def part_def)

lemma part_some_column: "list_all2 (part lb n a) rss ps \<Longrightarrow> \<exists>cs. column_is n ps cs \<and> list_all2 (agg_spec lb a) rss cs"
proof (induction rule: list_all2_induct)
  case (Cons rs rss p ps)
  then obtain cs v where "column_is n ps cs" "list_all2 (agg_spec lb a) rss cs" "map_of p n = Some v" "agg_spec lb a rs v"
    by (auto simp: part_def)
  then show ?case by (intro exI [of _ "v # cs"]) (simp add: column_is_def)
qed (simp add: column_is_def)

lemma part_value:
  assumes "list_all2 (part lb n (Agg t a opt e)) rss ps" and "a \<noteq> AggItem"
    and "\<And>rs. rs \<in> set rss \<Longrightarrow> agg_value lb t a opt e rs = Inr (f rs)"
  shows "column_is n ps (map f rss)"
  by (rule part_column [OF assms(1)]) (use assms(2,3) in simp)

section \<open>Well-typed groups\<close>

lemma sum_list_member: "x \<in> set xs \<Longrightarrow> x \<le> sum_list xs" for x :: nat
  by (rule member_le_sum_list) simp_all

lemma length_in_concat: "xs \<in> set xss \<Longrightarrow> length xs \<le> length (concat xss)"
  by (induction xss) auto

lemma sum_list_concat_le:
  fixes f :: "'x \<Rightarrow> int"
  assumes "xs \<in> set xss" and "\<And>x. 0 \<le> f x"
  shows "sum_list (map f xs) \<le> sum_list (map f (concat xss))"
  using assms(1)
proof (induction xss)
  case (Cons ys xss)
  have "0 \<le> sum_list (map f zs)" for zs by (induction zs) (simp_all add: assms(2))
  then show ?case using Cons by (auto intro: add_increasing add_increasing2)
qed simp

lemma no_overflow_concat: "no_overflow (concat vss) \<Longrightarrow> vs \<in> set vss \<Longrightarrow> no_overflow vs"
  using sum_list_concat_le [of "valid vs" "map valid vss" "\<lambda>a. \<bar>as_int a\<bar>"]
  by (auto simp: no_overflow_def valid_concat)

lemma small_squares_concat: "small_squares (concat vss) \<Longrightarrow> vs \<in> set vss \<Longrightarrow> small_squares vs"
  using sum_list_concat_le [of "valid vs" "map valid vss" "\<lambda>a. as_int a * as_int a"]
  by (auto simp: small_squares_def valid_concat)

lemma numeric_concat: "numeric t (concat vss) \<Longrightarrow> vs \<in> set vss \<Longrightarrow> numeric t vs"
  by (auto simp: numeric_def all_ints_def all_flts_def valid_concat dest: no_overflow_concat)

lemma numeric_cells: "numeric t (cells lb e (concat rss)) \<Longrightarrow> rs \<in> set rss \<Longrightarrow> numeric t (cells lb e rs)"
  by (simp add: cells_concat numeric_concat)

lemma agg_ok_concat:
  assumes "agg_ok lb e (concat rss)" and "rs \<in> set rss"
  shows "agg_ok lb e rs"
proof (cases e)
  case (Len t)
  have "length rs \<le> length (concat rss)" using assms(2) by (rule length_in_concat)
  then show ?thesis using assms(1) Len by (auto intro: count_fits_le)
next
  case (Agg t a opt c)
  have l: "length rs \<le> length (concat rss)" using assms(2) by (rule length_in_concat)
  have "typed lb c rs" using assms Agg typed_concat by auto
  moreover have lc: "length (concat (map (cells lb c) rss)) = length (concat rss)" by (simp flip: cells_concat)
  moreover have "agg_typed t a opt (dtype_of c) (cells lb c rs)"
    using assms Agg l
    by (cases "(t, a, opt, dtype_of c, cells lb c (concat rss))" rule: agg_typed.cases)
      (auto simp: cells_concat lc intro: count_fits_le numeric_concat small_squares_concat)
  ultimately show ?thesis by (simp add: Agg)
qed (use assms in auto)

section \<open>Reductions that keep their name\<close>

lemma reduce_absorbing:
  assumes p: "list_all2 (part lb n (Agg t a opt e)) rss ps" and ty: "typed lb e (concat rss)"
    and ne: "\<forall>rs \<in> set rss. rs \<noteq> []"
    and f: "\<And>o' vs. aggregate lb a o' vs = Inr (f vs)" and ab: "absorbs f f" and a: "a \<noteq> AggSum" "a \<noteq> AggItem"
  shows "\<exists>v. agg_value lb t a NoOptions (Col t n) ps = Inr v \<and> agg_spec lb (Agg t a opt e) (concat rss) v"
proof -
  have col: "column_is n ps (map (\<lambda>rs. f (cells lb e rs)) rss)"
    by (rule part_value [OF p]) (simp_all add: a f typed_agg [OF typed_concat [OF ty]])
  have "f (map f (map (cells lb e) rss)) = f (concat (map (cells lb e) rss))"
    by (rule absorbs_concat [OF ab]) (use ne in auto)
  then show ?thesis using col a ty by (simp add: column_agg f typed_agg cells_concat comp_def)
qed

lemma reduce_sum_int:
  assumes p: "list_all2 (part lb n (Agg t AggSum opt e)) rss ps" and ty: "typed lb e (concat rss)"
    and ne: "\<forall>rs \<in> set rss. rs \<noteq> []" and i: "is_integral (dtype_of e)" "is_integral t"
  shows "agg_value lb t AggSum NoOptions (Col t n) ps = agg_value lb t AggSum opt e (concat rss)"
proof -
  have "column_is n ps (map (int_sum t) (map (cells lb e) rss))"
    using part_value [OF p, of "\<lambda>rs. int_sum t (cells lb e rs)"] sum_int_value [OF typed_concat [OF ty] i] by (simp add: comp_def)
  then have "agg_value lb t AggSum NoOptions (Col t n) ps = Inr (int_sum t (map (int_sum t) (map (cells lb e) rss)))"
    by (intro column_sum_int [OF i(2)]) (simp_all del: map_map)
  also have "int_sum t (map (int_sum t) (map (cells lb e) rss)) = int_sum t (concat (map (cells lb e) rss))"
    by (rule absorbs_concat [OF int_sum_absorbs]) (use ne in auto)
  finally show ?thesis using sum_int_value [OF ty i] by (simp add: cells_concat)
qed

lemma reduce_sum_flt:
  assumes p: "list_all2 (part lb n (Agg f64 AggSum opt e)) rss ps" and ty: "typed lb e (concat rss)"
    and ne: "\<forall>rs \<in> set rss. rs \<noteq> []" and "numeric (dtype_of e) (cells lb e (concat rss)) \<or> dtype_of e = f64"
  shows "agg_value lb f64 AggSum NoOptions (Col f64 n) ps = agg_value lb f64 AggSum opt e (concat rss)"
proof (cases "dtype_of e = f64")
  case True
  have "column_is n ps (map flt_sum (map (cells lb e) rss))"
    using part_value [OF p, of "\<lambda>rs. flt_sum (cells lb e rs)"] sum_flt_value [OF typed_concat [OF ty] True] by (simp add: comp_def)
  then have "agg_value lb f64 AggSum NoOptions (Col f64 n) ps = Inr (flt_sum (map flt_sum (map (cells lb e) rss)))"
    by (intro column_sum_flt) (simp_all del: map_map)
  also have "flt_sum (map flt_sum (map (cells lb e) rss)) = flt_sum (concat (map (cells lb e) rss))"
    by (rule absorbs_concat [OF flt_sum_absorbs]) (use ne in auto)
  finally show ?thesis using sum_flt_value [OF ty True] by (simp add: cells_concat)
next
  case False
  then have i: "is_integral (dtype_of e)" and o: "no_overflow (cells lb e (concat rss))" using assms(4) by (auto simp: numeric_def)
  have "no_overflow (cells lb e rs)" if "rs \<in> set rss" for rs
    using o that no_overflow_concat [of "map (cells lb e) rss"] by (simp add: cells_concat)
  then have "column_is n ps (map int_flt_sum (map (cells lb e) rss))"
    using part_value [OF p, of "\<lambda>rs. int_flt_sum (cells lb e rs)"] sum_int_flt_value [OF typed_concat [OF ty] i] by (simp add: comp_def)
  then have "agg_value lb f64 AggSum NoOptions (Col f64 n) ps = Inr (flt_sum (map int_flt_sum (map (cells lb e) rss)))"
    by (intro column_sum_flt) (simp_all del: map_map)
  then show ?thesis using sum_int_flt_value [OF ty i o] int_flt_sum_concat [of "map (cells lb e) rss"]
    by (simp add: cells_concat)
qed

lemma reduce_counts:
  assumes col: "column_is n ps (map (\<lambda>rs. Some (IntV (int (f rs)))) rss)" and "rss \<noteq> []" and "count_fits t (sum_list (map f rss))"
  shows "agg_value lb t AggSum NoOptions (Col t n) ps = Inr (Some (IntV (int (sum_list (map f rss)))))"
  using column_sum_counts [of n ps "map f rss" t lb NoOptions] assms by (simp add: comp_def)

lemma reduce_count:
  assumes p: "list_all2 (part lb n (Agg t AggCount opt e)) rss ps" and ty: "typed lb e (concat rss)"
    and ne: "rss \<noteq> []" and fit: "count_fits t (length (concat rss))"
  shows "agg_value lb t AggSum NoOptions (Col t n) ps = agg_value lb t AggCount opt e (concat rss)"
proof -
  define b where "b = (opt = Flag True)"
  have "column_is n ps (map (\<lambda>rs. Some (IntV (int (count_cells b (cells lb e rs))))) rss)"
    by (rule part_value [OF p]) (simp_all add: b_def count_value [OF typed_concat [OF ty]])
  moreover have s: "sum_list (map (\<lambda>rs. count_cells b (cells lb e rs)) rss) = count_cells b (cells lb e (concat rss))"
    by (simp add: cells_concat count_cells_concat comp_def)
  moreover have "count_fits t (count_cells b (cells lb e (concat rss)))"
    using fit count_cells_le [of b "cells lb e (concat rss)"] by (auto intro: count_fits_le)
  ultimately show ?thesis using reduce_counts [of n ps "\<lambda>rs. count_cells b (cells lb e rs)" rss t lb] ne count_value [OF ty]
    by (simp add: b_def)
qed

lemma reduce_len:
  assumes p: "list_all2 (part lb n (Len t)) rss ps" and ne: "rss \<noteq> []" and fit: "count_fits t (length (concat rss))"
  shows "agg_value lb t AggSum NoOptions (Col t n) ps = Inr (Some (IntV (int (length (concat rss)))))"
proof -
  have "column_is n ps (map (\<lambda>rs. Some (IntV (int (length rs)))) rss)" by (rule part_column [OF p]) simp
  then show ?thesis using reduce_counts [of n ps length rss t lb] ne fit by (simp add: length_concat)
qed

text \<open>The number of distinct values is only reduced when a group is in one chunk.\<close>

lemma reduce_nunique:
  assumes p: "list_all2 (part lb n (Agg t AggNUnique opt e)) [rs] ps" and ty: "typed lb e rs"
    and fit: "count_fits t (length rs)"
  shows "agg_value lb t AggSum NoOptions (Col t n) ps = agg_value lb t AggNUnique opt e rs"
proof -
  define m where "m = unique_cells (opt = Flag True) (cells lb e rs)"
  have v: "agg_value lb t AggNUnique opt e rs = Inr (Some (IntV (int m)))" using typed_agg [OF ty] by (simp add: m_def)
  have "column_is n ps (map (\<lambda>rs. Some (IntV (int m))) [rs])" by (rule part_value [OF p]) (simp_all add: v)
  moreover have "count_fits t m" using fit unique_cells_le [of "opt = Flag True" "cells lb e rs"] by (auto simp: m_def intro: count_fits_le)
  ultimately show ?thesis using reduce_counts [of n ps "\<lambda>_. m" "[rs]" t lb] v by simp
qed

lemma reduce_item:
  assumes p: "list_all2 (part lb n (Agg t AggItem opt e)) rss ps" and "rss \<noteq> []"
  shows "\<exists>v. agg_value lb t AggItem NoOptions (Col t n) ps = Inr v \<and> agg_spec lb (Agg t AggItem opt e) (concat rss) v"
proof -
  obtain cs where cs: "column_is n ps cs" "list_all2 (agg_spec lb (Agg t AggItem opt e)) rss cs"
    using part_some_column [OF p] by auto
  then obtain c cs' rs rss' where "cs = c # cs'" "rss = rs # rss'" "agg_spec lb (Agg t AggItem opt e) rs c"
    using assms(2) by (cases rss; cases cs) auto
  then show ?thesis using cs(1) by (auto simp: column_agg nth_first_def)
qed

lemma reduce_plain:
  assumes p: "list_all2 (part lb n (Agg (if a = AggCount then i64 else t) a opt e)) rss ps"
    and ok: "agg_ok lb (Agg t a opt e) (concat rss)" and g: "gb_agg_reduction a = Some f"
    and ne: "rss \<noteq> []" "\<forall>rs \<in> set rss. rs \<noteq> []" and shuf: "a = AggNUnique \<longrightarrow> length rss = 1"
  shows "\<exists>v. agg_value lb (if a = AggCount then i64 else t) f NoOptions (Col (if a = AggCount then i64 else t) n) ps = Inr v
     \<and> agg_spec lb (Agg (if a = AggCount then i64 else t) a opt e) (concat rss) v"
proof -
  have ty: "typed lb e (concat rss)" using ok by simp
  have absorb: "?thesis" if "f = a" "\<And>o' vs. aggregate lb a o' vs = Inr (h vs)" "absorbs h h" "a \<noteq> AggSum" "a \<noteq> AggItem" "a \<noteq> AggCount" for h
    using reduce_absorbing [OF _ ty ne(2) that(2,3,4,5)] p that by simp
  show ?thesis
  proof (cases a)
    case AggSum
    have v: "\<exists>v. agg_value lb t AggSum opt e (concat rss) = Inr v"
      using ok AggSum sum_int_value [OF ty] sum_flt_value [OF ty] by auto
    have "agg_value lb t AggSum NoOptions (Col t n) ps = agg_value lb t AggSum opt e (concat rss)"
      using ok AggSum reduce_sum_int [OF _ ty ne(2)] reduce_sum_flt [OF _ ty ne(2)] p by auto
    then show ?thesis using v AggSum g by auto
  next
    case AggCount
    have "agg_value lb i64 AggSum NoOptions (Col i64 n) ps = agg_value lb i64 AggCount opt e (concat rss)"
      using reduce_count [OF _ ty ne(1), of n i64 opt ps] p ok AggCount count_fits_i64 [of t] by simp
    then show ?thesis using AggCount g count_value [OF ty] by auto
  next
    case AggNUnique
    then obtain rs where rs: "rss = [rs]" using shuf by (cases rss) auto
    have "agg_value lb t AggSum NoOptions (Col t n) ps = agg_value lb t AggNUnique opt e rs"
      by (rule reduce_nunique) (use p ok rs AggNUnique in auto)
    then show ?thesis using AggNUnique g rs ty by (auto simp: typed_agg)
  next
    case AggItem
    then show ?thesis using reduce_item [of lb n t opt e rss ps] p g ne(1) by auto
  next
    case AggMin
    then show ?thesis using absorb [of "extreme Min"] g extreme_Min_absorbs by simp
  next
    case AggMax
    then show ?thesis using absorb [of "extreme Max"] g extreme_Max_absorbs by simp
  next
    case AggFirst
    then show ?thesis using absorb [of nth_first] g nth_first_absorbs by simp
  next
    case AggLast
    then show ?thesis using absorb [of nth_last] g nth_last_absorbs by simp
  next
    case AggFirstNonNull
    then show ?thesis using absorb [of first_valid] g first_valid_absorbs by simp
  qed (use g in simp_all)
qed


section \<open>The shapes of a decomposition\<close>

lemma decompose_mean:
  "decompose prefix name (Agg t AggMean opt c) i =
     (let s = fresh prefix i ''__mean_sum''; n = fresh prefix (i + 1) ''__mean_count''
      in Inr (\<lparr>dc_selections = [(name, BinOp t DIV (Col t s) (Cast i64 False (Col i64 n)))],
           dc_piecewise = [(s, Agg t AggSum NoOptions c), (n, Agg i64 AggCount (Flag False) c)],
           dc_reductions = [(s, Agg t AggSum NoOptions (Col t s)), (n, Agg i64 AggSum NoOptions (Col i64 n))],
           dc_preshuffle = False\<rparr>, i + 2))"
  by (simp add: decompose.simps [of prefix name] decompose.simps [of prefix _ "Agg t AggSum NoOptions c"]
      decompose.simps [of prefix _ "Agg (IntT 64) AggCount (Flag False) c"] combine_def Let_def)

lemma decompose_cases:
  assumes "decompose prefix name e i = Inr (d, j)"
  obtains
    (Len) t where "e = Len t" "d = \<lparr>dc_selections = [(name, Col t name)], dc_piecewise = [(name, Len t)],
             dc_reductions = [(name, Agg t AggSum NoOptions (Col t name))], dc_preshuffle = False\<rparr>" "j = i"
  | (Sorted) t a so c bs where "e = SortedAgg t a so c bs" "(d, j) = decompose_sorted_agg prefix name t a so c bs i"
  | (Plain) t a opt c f u where "e = Agg t a opt c" "gb_agg_reduction a = Some f" "u = (if a = AggCount then i64 else t)"
      "d = \<lparr>dc_selections = [(name, if a = AggCount then Cast t False (Col i64 name) else Col t name)],
         dc_piecewise = [(name, Agg u a opt c)], dc_reductions = [(name, Agg u f NoOptions (Col u name))],
         dc_preshuffle = (a = AggNUnique)\<rparr>" "j = i"
  | (Mean) t opt c s n where "e = Agg t AggMean opt c" "s = fresh prefix i ''__mean_sum''" "n = fresh prefix (i + 1) ''__mean_count''"
      "d = \<lparr>dc_selections = [(name, BinOp t DIV (Col t s) (Cast i64 False (Col i64 n)))],
           dc_piecewise = [(s, Agg t AggSum NoOptions c), (n, Agg i64 AggCount (Flag False) c)],
           dc_reductions = [(s, Agg t AggSum NoOptions (Col t s)), (n, Agg i64 AggSum NoOptions (Col i64 n))],
           dc_preshuffle = False\<rparr>" "j = i + 2"
  | (Moments) t a ddof c n where "e = Agg t a (Ddof ddof) c" "a = AggStd \<or> a = AggVar" "n = fresh prefix i ''__m2_struct''"
      "d = \<lparr>dc_selections = [(name, MaskNans t (if a = AggStd then Sqrt f64 (merged_variance n ddof) else merged_variance n ddof))],
           dc_piecewise = [(n, Agg MomentsT AggMergeM2 NoOptions (welford_state c))],
           dc_reductions = [(n, Agg MomentsT AggMergeM2 NoOptions (Col MomentsT n))],
           dc_preshuffle = False\<rparr>" "j = i + 1"
proof (cases e)
  case (Len t)
  then show ?thesis using assms that(1) [of t] by (simp add: decompose.simps)
next
  case (SortedAgg t a so c bs)
  then show ?thesis using assms that(2) [of t a so c bs] by (simp add: decompose.simps)
next
  case (Agg t a opt c)
  show ?thesis
  proof (cases "gb_agg_reduction a")
    case None
    consider "a = AggMean" | "a = AggStd \<or> a = AggVar" "a \<noteq> AggMean" | "a \<noteq> AggMean" "a \<noteq> AggStd" "a \<noteq> AggVar" by blast
    then show ?thesis
    proof cases
      case 1
      then show ?thesis using assms Agg by (intro that(4)) (auto simp: decompose_mean Let_def)
    next
      case 2
      then obtain ddof where "opt = Ddof ddof" using assms Agg None by (cases opt) (simp_all add: decompose.simps)
      then show ?thesis using assms Agg None 2
        by (intro that(5) [of t a ddof c "fresh prefix i ''__m2_struct''"]) (simp_all add: decompose.simps decompose_std_var_def Let_def)
    next
      case 3
      then show ?thesis using assms Agg None by (simp add: decompose.simps)
    qed
  next
    case (Some f)
    then show ?thesis using assms Agg
      by (intro that(3) [of t a opt c f "if a = AggCount then i64 else t"]) (simp_all add: decompose.simps Let_def split: if_splits)
  qed
qed (use assms in \<open>simp_all add: decompose.simps\<close>)

section \<open>Piecewise requests\<close>

definition groups_ok :: "'f::linordered_field library \<Rightarrow> 'f expr \<Rightarrow> 'f keyed \<Rightarrow> bool" where
  "groups_ok lb e kt \<longleftrightarrow> (\<forall>p \<in> set kt. agg_ok lb e (group kt (fst p))
     \<and> length (fst p) = length (lb_key_flags lb))"

lemma group_self: "p \<in> set kt \<Longrightarrow> snd p \<in> set (group kt (fst p))"
  by (auto simp: group_def)

lemma groups_ok_sorted:
  assumes "groups_ok lb (SortedAgg t a so c bs) kt"
    and "kt \<noteq> []" and "c' \<in> set (c # bs)"
  shows "agg_ok lb (SortedAgg t' a so c' bs) (map snd kt)"
  using assms group_self [of _ kt] unfolding groups_ok_def by (cases kt) fastforce+

lemma agg_value_spec:
  "a \<noteq> AggItem \<Longrightarrow> agg_value lb t a opt e rs = Inr v \<Longrightarrow> agg_spec lb (Agg t a opt e) rs v"
  by simp

lemma item_request:
  "typed lb e rs \<Longrightarrow> rs \<noteq> [] \<Longrightarrow> \<exists>v. agg_value lb t AggItem opt e rs = Inr v \<and> agg_spec lb (Agg t AggItem opt e) rs v"
proof -
  assume "typed lb e rs" "rs \<noteq> []"
  then obtain r rs' c where "rs = r # rs'" "eval lb r e = Inr c" by (cases rs) (auto simp: typed_def)
  then show ?thesis using \<open>typed lb e rs\<close> by (simp add: typed_agg nth_first_def cells_def)
qed

lemma plain_request:
  assumes ok: "agg_ok lb (Agg t a opt e) rs" and g: "gb_agg_reduction a = Some f" and "rs \<noteq> []"
  shows "\<exists>v. agg_value lb (if a = AggCount then i64 else t) a opt e rs = Inr v
     \<and> agg_spec lb (Agg (if a = AggCount then i64 else t) a opt e) rs v"
proof -
  have ty: "typed lb e rs" using ok by simp
  show ?thesis
  proof (cases a)
    case AggSum
    then show ?thesis using ok sum_int_value [OF ty] sum_flt_value [OF ty] by auto
  next
    case AggItem
    then show ?thesis using item_request [OF ty assms(3)] by simp
  qed (use g ty in \<open>simp_all add: typed_agg\<close>)
qed

lemma moments_typed:
  assumes "agg_ok lb (Agg t a (Ddof ddof) c) rs" and "a = AggStd \<or> a = AggVar"
  shows "typed lb c rs" "numeric (dtype_of c) (cells lb c rs)" "t = f64" "dtype_of c = f64 \<or> small_squares (cells lb c rs)"
    "length rs < 2 ^ 63"
  using assms by auto

lemma mean_typed:
  assumes "agg_ok lb (Agg t AggMean opt c) rs"
  shows "typed lb c rs" "numeric (dtype_of c) (cells lb c rs)" "t = f64" "count_fits i64 (length rs)"
  using assms by (auto simp: count_fits_def is_integral_def)

lemma piecewise_phase:
  assumes d: "decompose prefix name e i = Inr (d, j)" and ok: "groups_ok lb e kt" and lib: "sort_ok lb"
    and k: "k \<in> fst ` set kt"
  shows "\<forall>(n, a) \<in> set (dc_piecewise d). \<exists>v. request_value lb kt a k = Inr v \<and> agg_spec lb a (group kt k) v"
proof -
  have ne: "group kt k \<noteq> []" and okk: "agg_ok lb e (group kt k)" and kt: "kt \<noteq> []"
    and len: "\<forall>p \<in> set kt. length (fst p) = length (lb_key_flags lb)"
    using k ok group_self [of _ kt] by (fastforce simp: groups_ok_def)+
  show ?thesis
    using d
  proof (cases rule: decompose_cases)
    case (Sorted t a so c bs)
    have "\<exists>v. request_value lb kt (SortedAgg t' a so c' bs) k = Inr v \<and> agg_spec lb (SortedAgg t' a so c' bs) (group kt k) v"
      if "c' \<in> set (c # bs)" for t' c'
      by (rule sorted_request [OF groups_ok_sorted [OF ok [unfolded Sorted(1)] kt that] lib len ne])
    then show ?thesis using Sorted(2) by (auto simp: decompose_sorted_agg_def Let_def dest: set_zip_leftD)
  next
    case (Plain t a opt c f u)
    then show ?thesis using plain_request [of lb t a opt c "group kt k" f] okk ne by simp
  next
    case (Mean t opt c s n)
    note ty = mean_typed [OF okk [unfolded Mean(1)]]
    have "\<exists>v. agg_value lb f64 AggSum NoOptions c (group kt k) = Inr v"
      using ty(2) sum_flt_value [OF ty(1)] sum_int_flt_value [OF ty(1)] by (auto simp: numeric_def)
    then show ?thesis using Mean ty count_value [OF ty(1)] by simp
  next
    case (Moments t a ddof c n)
    note ty = moments_typed [OF okk [unfolded Moments(1)] Moments(2)]
    show ?thesis using Moments merge_value [OF ty(1,2,5)] by simp
  qed simp
qed


section \<open>Reductions\<close>

definition columns_present :: "'f decomposition \<Rightarrow> 'f row \<Rightarrow> bool" where
  "columns_present d p \<longleftrightarrow> (\<forall>n \<in> fst ` set (dc_piecewise d). map_of p n \<noteq> None)"

definition reduced ::
  "'f::linordered_field library \<Rightarrow> 'f keyed \<Rightarrow> 'f cell list \<Rightarrow> 'f row list \<Rightarrow> 'f named \<Rightarrow> 'f named \<Rightarrow> bool" where
  "reduced lb kt k rs = (\<lambda>(n, a) (m, r). n = m \<and> (\<exists>v. request_value lb kt r k = Inr v \<and> agg_spec lb a rs v))"

lemma holds_part:
  "list_all2 (holds lb d) rss ps \<Longrightarrow> (n, a) \<in> set (dc_piecewise d) \<Longrightarrow> list_all2 (part lb n a) rss ps"
  by (erule list_all2_mono) (auto simp: holds_def)

lemma sorted_reduced:
  fixes kt :: "'f::linordered_field keyed"
  assumes parts: "list_all2 (holds lb d) rss (group kt k)" and ne: "rss \<noteq> []"
    and ok: "agg_ok lb (SortedAgg t a so c bs) (concat rss)" and lib: "sort_ok lb"
    and d: "(d, j) = decompose_sorted_agg prefix name t a so c bs i"
    and table: "\<forall>p \<in> set kt. length (fst p) = length (lb_key_flags lb) \<and> columns_present d (snd p)"
  shows "list_all2 (reduced lb kt k (concat rss)) (dc_piecewise d) (dc_reductions d)"
proof -
  define ns where "ns = sort_key_names prefix i (length bs)"
  define cols :: "'f expr list" where "cols = sort_key_cols ns bs"
  have ln: "length ns = length bs" by (simp add: ns_def sort_key_names_def)
  have lc: "length cols = length bs" by (simp add: cols_def sort_key_cols_def ln)
  have lens: "length (so_nulls_last so) = length bs" "length (so_descending so) = length bs" and a: "a = AggFirst \<or> a = AggLast"
    and evals: "\<forall>s \<in> set (concat rss). \<forall>d \<in> set bs. \<exists>c. eval lb s d = Inr c" using ok by simp_all
  have pcs: "dc_piecewise d = (name, SortedAgg t a so c bs) # map (\<lambda>(b, n). (n, SortedAgg (dtype_of b) a so b bs)) (zip bs ns)"
    and rds: "dc_reductions d = (name, SortedAgg t a so (Col t name) cols) # map (\<lambda>(c, n). (n, SortedAgg (dtype_of c) a so c cols)) (zip cols ns)"
    using d by (simp_all add: decompose_sorted_agg_def Let_def ns_def cols_def)
  have key: "(ns ! j, SortedAgg (dtype_of (bs ! j)) a so (bs ! j) bs) \<in> set (dc_piecewise d)" if "j < length bs" for j
    using that ln by (force simp: pcs set_zip)
  have neg: "group kt k \<noteq> []" using parts ne by auto
  have keys: "list_all2 (\<lambda>rs p. \<forall>j < length bs. \<exists>v. map_of p (ns ! j) = Some v \<and> agg_spec lb (SortedAgg t' a so (bs ! j) bs) rs v) rss (group kt k)"
    for t'
    using parts by (rule list_all2_mono) (use key in \<open>fastforce simp: holds_def part_def\<close>)
  have red: "\<exists>v. request_value lb kt (SortedAgg u a so (Col u m) cols) k = Inr v \<and> agg_spec lb (SortedAgg u' a so c' bs) (concat rss) v"
    if m: "(m, SortedAgg u' a so c' bs) \<in> set (dc_piecewise d)" for m u u' c'
  proof -
    have ev: "\<exists>c. eval lb (snd p) d' = Inr c" if p: "p \<in> set kt" and d': "d' \<in> set (Col u m # cols)" for p d'
    proof -
      have present: "map_of (snd p) x \<noteq> None" if "x \<in> fst ` set (dc_piecewise d)" for x
        using table p that by (auto simp: columns_present_def)
      obtain v x where x: "d' = Col v x" "x \<in> fst ` set (dc_piecewise d)"
      proof (cases "d' = Col u m")
        case True
        then show ?thesis using m that by force
      next
        case False
        then have "d' \<in> set cols" using d' by simp
        then obtain j where j: "j < length bs" "d' = Col (dtype_of (bs ! j)) (ns ! j)"
          using ln by (auto simp: cols_def sort_key_cols_def in_set_conv_nth)
        then show ?thesis using key [of j] that by force
      qed
      then show ?thesis using present [OF x(2)] by auto
    qed
    have "\<forall>r \<in> set (map snd kt). \<forall>d' \<in> set (Col u m # cols). \<exists>c. eval lb r d' = Inr c"
    proof (intro ballI)
      fix r d'
      assume "r \<in> set (map snd kt)" and d': "d' \<in> set (Col u m # cols)"
      then obtain p where "p \<in> set kt" "r = snd p" by auto
      then show "\<exists>c. eval lb r d' = Inr c" using ev d' by blast
    qed
    then have "agg_ok lb (SortedAgg u a so (Col u m) cols) (map snd kt)" using lens a lc by (simp only: agg_ok.simps)
    then obtain v where v: "request_value lb kt (SortedAgg u a so (Col u m) cols) k = Inr v"
      "agg_spec lb (SortedAgg u a so (Col u m) cols) (group kt k) v"
      using sorted_request [OF _ lib _ neg] table by blast
    have "list_all2 (\<lambda>rs p. \<exists>v. map_of p m = Some v \<and> agg_spec lb (SortedAgg u' a so c' bs) rs v) rss (group kt k)"
      using holds_part [OF parts m] by (simp add: part_def [abs_def])
    then have "agg_spec lb (SortedAgg u' a so c' bs) (concat rss) v"
      by (rule sorted_merge [OF evals lens ln _ keys v(2) [unfolded cols_def]])
    then show ?thesis using v(1) by blast
  qed
  have "reduced lb kt k (concat rss) (map (\<lambda>(b, n). (n, SortedAgg (dtype_of b) a so b bs)) (zip bs ns) ! j)
     (map (\<lambda>(c, n). (n, SortedAgg (dtype_of c) a so c cols)) (zip cols ns) ! j)" if j: "j < length bs" for j
    using red [OF key [OF j], of "dtype_of (bs ! j)"] j ln lc by (simp add: reduced_def cols_def sort_key_cols_def)
  then have "list_all2 (reduced lb kt k (concat rss)) (map (\<lambda>(b, n). (n, SortedAgg (dtype_of b) a so b bs)) (zip bs ns))
     (map (\<lambda>(c, n). (n, SortedAgg (dtype_of c) a so c cols)) (zip cols ns))"
    by (simp add: list_all2_conv_all_nth ln lc)
  moreover have "reduced lb kt k (concat rss) (name, SortedAgg t a so c bs) (name, SortedAgg t a so (Col t name) cols)"
    using red [of name t c t] by (simp add: reduced_def pcs)
  ultimately show ?thesis by (simp add: pcs rds)
qed

lemma reduction_phase:
  fixes kt :: "'f::linordered_field keyed"
  assumes d: "decompose prefix name e i = Inr (d, j)" and parts: "list_all2 (holds lb d) rss (group kt k)"
    and ne: "rss \<noteq> []" "\<forall>rs \<in> set rss. rs \<noteq> []" and ok: "agg_ok lb e (concat rss)"
    and shuf: "dc_preshuffle d \<longrightarrow> length rss = 1" and lib: "sort_ok lb"
    and table: "\<forall>p \<in> set kt. length (fst p) = length (lb_key_flags lb) \<and> columns_present d (snd p)"
  shows "list_all2 (reduced lb kt k (concat rss)) (dc_piecewise d) (dc_reductions d)"
  using d
proof (cases rule: decompose_cases)
  case (Len t)
  then show ?thesis
    using reduce_len [OF holds_part [OF parts, of name "Len t"] ne(1)] ok by (simp add: reduced_def)
next
  case (Sorted t a so c bs)
  show ?thesis by (rule sorted_reduced [OF parts ne(1) _ lib Sorted(2) table]) (use ok Sorted(1) in simp)
next
  case (Plain t a opt c f u)
  have "\<exists>v. agg_value lb u f NoOptions (Col u name) (group kt k) = Inr v \<and> agg_spec lb (Agg u a opt c) (concat rss) v"
    unfolding Plain(3)
    by (rule reduce_plain) (use holds_part [OF parts] ok ne shuf Plain in auto)
  then show ?thesis by (auto simp: Plain(4) reduced_def)
next
  case (Mean t opt c s n)
  note ty = mean_typed [OF ok [unfolded Mean(1)]]
  have p: "list_all2 (part lb s (Agg f64 AggSum NoOptions c)) rss (group kt k)"
    "list_all2 (part lb n (Agg i64 AggCount (Flag False) c)) rss (group kt k)"
    using holds_part [OF parts] by (simp_all add: Mean(4) ty(3))
  have "\<exists>v. agg_value lb f64 AggSum NoOptions c (concat rss) = Inr v"
    using ty(2) sum_flt_value [OF ty(1)] sum_int_flt_value [OF ty(1)] by (auto simp: numeric_def)
  moreover have "agg_value lb f64 AggSum NoOptions (Col f64 s) (group kt k) = agg_value lb f64 AggSum NoOptions c (concat rss)"
    using reduce_sum_flt [OF p(1) ty(1) ne(2)] ty(2) by simp
  moreover have "agg_value lb i64 AggSum NoOptions (Col i64 n) (group kt k) = agg_value lb i64 AggCount (Flag False) c (concat rss)"
    using reduce_count [OF p(2) ty(1) ne(1) ty(4)] .
  ultimately show ?thesis using count_value [OF ty(1)] by (simp add: Mean(4) ty(3) reduced_def)
next
  case (Moments t a ddof c n)
  note ty = moments_typed [OF ok [unfolded Moments(1)] Moments(2)]
  define f where "f rs = moments_cell (moments (numbers (cells lb c rs)))" for rs
  have v: "agg_value lb MomentsT AggMergeM2 NoOptions (welford_state c) rs = Inr (f rs)" if "rs \<in> set rss" for rs
    using merge_value [OF typed_concat [OF ty(1) that] numeric_cells [OF ty(2) that]] length_in_concat [OF that] ty(5)
    by (simp add: f_def)
  have "list_all2 (part lb n (Agg MomentsT AggMergeM2 NoOptions (welford_state c))) rss (group kt k)"
    using holds_part [OF parts] by (simp add: Moments(4))
  then have "column_is n (group kt k) (map f rss)" by (rule part_value) (simp_all add: v)
  then have "column_is n (group kt k) (map (\<lambda>vs. moments_cell (moments (numbers vs))) (map (cells lb c) rss))"
    by (simp add: f_def [abs_def] comp_def)
  then have "agg_value lb MomentsT AggMergeM2 NoOptions (Col MomentsT n) (group kt k) = Inr (f (concat rss))"
    using merge_columns [of n "group kt k" "map (cells lb c) rss"] ty(5)
    by (simp add: f_def cells_concat [symmetric] comp_def)
  moreover have "agg_value lb MomentsT AggMergeM2 NoOptions (welford_state c) (concat rss) = Inr (f (concat rss))"
    using merge_value [OF ty(1,2,5)] by (simp add: f_def)
  ultimately show ?thesis by (simp add: Moments(4) reduced_def)
qed

section \<open>Selection\<close>

lemma selection_phase:
  assumes d: "decompose prefix name e i = Inr (d, j)" and p: "holds lb d rs p" and ok: "agg_ok lb e rs"
  shows "\<exists>s v. dc_selections d = [(name, s)] \<and> eval lb p s = Inr v \<and> agg_spec lb e rs v"
  using d
proof (cases rule: decompose_cases)
  case (Len t)
  then show ?thesis using p by (auto simp: holds_def part_def)
next
  case (Sorted t a so c bs)
  then have "dc_selections d = [(name, Col t name)]" "(name, SortedAgg t a so c bs) \<in> set (dc_piecewise d)"
    by (simp_all add: decompose_sorted_agg_def Let_def)
  then show ?thesis using p Sorted(1) by (auto simp: holds_def part_def)
next
  case (Plain t a opt c f u)
  obtain v where v: "map_of p name = Some v" "agg_spec lb (Agg u a opt c) rs v"
    using p by (auto simp: Plain(4) holds_def part_def)
  show ?thesis
  proof (cases "a = AggCount")
    case True
    have ty: "typed lb c rs" and fit: "count_fits t (length rs)" using ok True Plain(1) by simp_all
    define m where "m = count_cells (opt = Flag True) (cells lb c rs)"
    have "count_fits t m" using fit count_cells_le [of "opt = Flag True" "cells lb c rs"] by (auto simp: m_def intro: count_fits_le)
    then have "cast_value lb t False (Some (IntV (int m))) = Inr (Some (IntV (int m)))"
      using count_fits_wrap [of t m] by (simp add: count_fits_def cast_cell_int)
    then show ?thesis using v True Plain count_value [OF ty] by (auto simp: m_def)
  next
    case False
    then show ?thesis using v Plain by auto
  qed
next
  case (Mean t opt c s n)
  note ty = mean_typed [OF ok [unfolded Mean(1)]]
  define vs where "vs = cells lb c rs"
  have num: "numeric (dtype_of c) vs" using ty(2) by (simp add: vs_def)
  have "map_of p n = Some (Some (IntV (int (length (valid vs)))))"
    using p count_value [OF ty(1)] by (auto simp: Mean(4) holds_def part_def vs_def count_cells_def)
  moreover have small: "length (valid vs) < 2 ^ 63"
    using ty(4) length_valid [of vs] by (simp add: count_fits_def vs_def)
  then have "wrap_signed 64 (int (length (valid vs))) = int (length (valid vs))" by (intro wrap_signed_64_fits) simp
  ultimately have cnt: "eval lb p (Cast i64 False (Col i64 n)) = Inr (Some (IntV (int (length (valid vs)))))" using small by simp
  obtain x where x: "map_of p s = Some x" "agg_value lb f64 AggSum NoOptions c rs = Inr x"
    using p ty(3) by (auto simp: Mean(4) holds_def part_def)
  have "x = (if valid vs = [] then None else Some (FltV (sum_list (numbers vs))))"
  proof (cases "dtype_of c = f64")
    case True
    then have "all_flts vs" using typed_flts [OF ty(1)] by (simp add: vs_def)
    then show ?thesis using x(2) sum_flt_value [OF ty(1) True, of f64 NoOptions] numbers_flts [of vs]
      by (auto simp: flt_sum_def simp flip: vs_def)
  next
    case False
    then have i: "is_integral (dtype_of c)" "no_overflow vs" "all_ints vs" using num by (auto simp: numeric_def)
    then show ?thesis using x(2) sum_int_flt_value [OF ty(1) i(1), of NoOptions] numbers_ints [of vs]
      by (auto simp: int_flt_sum_def simp flip: vs_def)
  qed
  then have "eval lb p (BinOp t DIV (Col t s) (Cast i64 False (Col i64 n))) = mean_valid (valid vs)"
    using x(1) cnt mean_numeric [OF num] by simp
  moreover have "agg_value lb t AggMean opt c rs = mean_valid (valid vs)"
    using mean_numeric [OF num] by (simp add: typed_agg [OF ty(1)] flip: vs_def)
  ultimately show ?thesis using mean_numeric [OF num] by (simp add: Mean(1,4))
next
  case (Moments t a ddof c n)
  note ty = moments_typed [OF ok [unfolded Moments(1)] Moments(2)]
  define xs where "xs = numbers (cells lb c rs)"
  have m: "map_of p n = Some (moments_cell (moments xs))"
    using p merge_value [OF ty(1,2,5)] by (auto simp: Moments(4) holds_def part_def xs_def)
  have v: "variance_valid ddof (valid (cells lb c rs)) = Inr (variance_of ddof xs)"
    using variance_valid_numeric [OF ty(2,4)] by (simp add: xs_def)
  show ?thesis
  proof (cases "a = AggStd")
    case True
    have "agg_value lb t AggStd (Ddof ddof) c rs = eval lb p (Sqrt f64 (merged_variance n ddof))"
      using v eval_std [OF m, of lb ddof] by (simp add: typed_agg [OF ty(1)] option.map_comp comp_def)
    then show ?thesis using True eval_std [OF m, of lb ddof] by (simp add: Moments(1,4))
  next
    case False
    then have a: "a = AggVar" using Moments(2) by simp
    have "agg_value lb t AggVar (Ddof ddof) c rs = eval lb p (merged_variance n ddof)"
      using v eval_variance [OF m, of lb ddof] by (simp add: typed_agg [OF ty(1)])
    then show ?thesis using a eval_variance [OF m, of lb ddof] by (simp add: Moments(1,4))
  qed
qed

end
