(* ===== verification/GroupNames.thy ===== *)
theory GroupNames
  imports GroupPhases
begin

text \<open>
  The temporaries of a decomposition have names of their own: \<open>unique_names\<close> yields names longer than
  every column of the schema, its numbers are told apart by their digits, and so the columns of the
  piecewise and of the reduced tables never collide.
\<close>

section \<open>Decimal numbers\<close>

definition digit_value :: "char \<Rightarrow> nat" where
  "digit_value c = of_char c - 48"

definition decimal_value :: "string \<Rightarrow> nat" where
  "decimal_value s = foldl (\<lambda>n c. 10 * n + digit_value c) 0 s"

lemma digit_value_digit: "n < 10 \<Longrightarrow> digit_value (digit n) = n"
  by (simp add: digit_value_def digit_def)

lemma digit_not_underscore: "n < 10 \<Longrightarrow> digit n \<noteq> CHR ''_''"
proof
  assume "n < 10" "digit n = CHR ''_''"
  then have "of_char (digit n) = (95 :: nat)" by simp
  then show False using \<open>n < 10\<close> by (simp add: digit_def)
qed

lemma decimal_value_decimal: "decimal_value (decimal n) = n"
proof (induction n rule: decimal.induct)
  case (1 n)
  then show ?case
    by (subst decimal.simps) (auto simp: decimal_value_def digit_value_digit)
qed

lemma decimal_inject: "decimal m = decimal n \<Longrightarrow> m = n"
  by (metis decimal_value_decimal)

lemma decimal_no_underscore: "c \<in> set (decimal n) \<Longrightarrow> c \<noteq> CHR ''_''"
proof (induction n rule: decimal.induct)
  case (1 n)
  show ?case
  proof (cases "n < 10")
    case True
    then show ?thesis using "1.prems" by (subst (asm) decimal.simps) (simp add: digit_not_underscore)
  next
    case False
    then have "c \<in> set (decimal (n div 10)) \<or> c = digit (n mod 10)"
      using "1.prems" by (subst (asm) decimal.simps) auto
    then show ?thesis using "1.IH" False digit_not_underscore [of "n mod 10"] by auto
  qed
qed

section \<open>Fresh names\<close>

definition suffix_ok :: "string \<Rightarrow> bool" where
  "suffix_ok s \<longleftrightarrow> (case s of [] \<Rightarrow> False | c # _ \<Rightarrow> c = CHR ''_'')"

lemma fresh_inject:
  assumes "fresh prefix i s = fresh prefix j t" and "suffix_ok s" "suffix_ok t"
  shows "i = j"
proof -
  obtain s' t' where st: "s = CHR ''_'' # s'" "t = CHR ''_'' # t'"
    using assms(2,3) by (cases s; cases t) (simp_all add: suffix_ok_def)
  have take: "takeWhile (\<lambda>c. c \<noteq> CHR ''_'') (decimal n @ CHR ''_'' # u) = decimal n" for n u
    using decimal_no_underscore [of _ n] by (simp add: takeWhile_append)
  have "decimal i @ s = decimal j @ t" using assms(1) by (simp add: fresh_def)
  then have "decimal i = decimal j" using take [of i s'] take [of j t'] by (simp add: st)
  then show ?thesis by (rule decimal_inject)
qed

lemma unique_prefix_length: "n \<in> set names \<Longrightarrow> length n \<le> length (unique_prefix names)"
proof -
  assume "n \<in> set names"
  then have "length n \<le> foldr max (map length names) 0" by (induction names) (auto simp: le_max_iff_disj)
  then show ?thesis by (simp add: unique_prefix_def)
qed

lemma decimal_nonempty: "decimal n \<noteq> []"
  by (subst decimal.simps) simp

lemma fresh_new: "fresh (unique_prefix names) i s \<notin> set names"
  using unique_prefix_length [of "fresh (unique_prefix names) i s" names] decimal_nonempty [of i]
  by (auto simp: fresh_def)

text \<open>The names of a decomposition: the output name, or names numbered from the generator.\<close>

definition numbered :: "string \<Rightarrow> nat \<Rightarrow> nat \<Rightarrow> string set" where
  "numbered prefix i j = {n. \<exists>m s. i \<le> m \<and> m < j \<and> suffix_ok s \<and> n = fresh prefix m s}"

lemma numbered_disjoint: "j \<le> k \<Longrightarrow> numbered prefix i j \<inter> numbered prefix k l = {}"
  by (auto simp: numbered_def dest: fresh_inject)

lemma in_numbered: "i \<le> m \<Longrightarrow> m < j \<Longrightarrow> suffix_ok s \<Longrightarrow> fresh prefix m s \<in> numbered prefix i j"
  by (auto simp: numbered_def)

lemma sort_key_names_ok:
  "distinct (sort_key_names prefix i n)" "set (sort_key_names prefix i n) \<subseteq> numbered prefix i (i + n)"
proof -
  have s: "suffix_ok ''__sort_key''" by (simp add: suffix_ok_def)
  show "distinct (sort_key_names prefix i n)"
    unfolding sort_key_names_def distinct_map using s by (auto simp: inj_on_def dest: fresh_inject)
  show "set (sort_key_names prefix i n) \<subseteq> numbered prefix i (i + n)"
    unfolding sort_key_names_def using s by (auto intro: in_numbered)
qed

lemma decompose_names:
  assumes "decompose prefix name e i = Inr (d, j)" and "name \<notin> numbered prefix i j"
  shows "i \<le> j" "distinct (map fst (dc_piecewise d))" "fst ` set (dc_piecewise d) \<subseteq> insert name (numbered prefix i j)"
    "map fst (dc_reductions d) = map fst (dc_piecewise d)"
proof -
  have s: "suffix_ok ''__mean_sum''" "suffix_ok ''__mean_count''" "suffix_ok ''__m2_struct''"
    by (simp_all add: suffix_ok_def)
  have "i \<le> j \<and> distinct (map fst (dc_piecewise d)) \<and> fst ` set (dc_piecewise d) \<subseteq> insert name (numbered prefix i j)
     \<and> map fst (dc_reductions d) = map fst (dc_piecewise d)"
    using assms(1)
  proof (cases rule: decompose_cases)
    case (Sorted t a so c bs)
    have j: "j = i + length bs" using Sorted(2) by (simp add: decompose_sorted_agg_def Let_def)
    have l: "length (sort_key_names prefix i (length bs)) = length bs" by (simp add: sort_key_names_def)
    then have z: "map (fst \<circ> (\<lambda>(b, n). (n, SortedAgg (dtype_of b) a so b bs))) (zip bs (sort_key_names prefix i (length bs)))
        = sort_key_names prefix i (length bs)"
      by (simp add: comp_def case_prod_beta flip: snd_def)
    have lc: "length (sort_key_cols (sort_key_names prefix i (length bs)) bs) = length bs" by (simp add: sort_key_cols_def l)
    then have z': "map (fst \<circ> (\<lambda>(c, n). (n, SortedAgg (dtype_of c) a so c (sort_key_cols (sort_key_names prefix i (length bs)) bs))))
        (zip (sort_key_cols (sort_key_names prefix i (length bs)) bs) (sort_key_names prefix i (length bs)))
        = sort_key_names prefix i (length bs)"
      using l by (simp add: comp_def case_prod_beta flip: snd_def)
    have p: "map fst (dc_piecewise d) = name # sort_key_names prefix i (length bs)"
      "map fst (dc_reductions d) = name # sort_key_names prefix i (length bs)"
      using Sorted(2) z z' by (simp_all add: decompose_sorted_agg_def Let_def)
    have "fst ` set (dc_piecewise d) = set (map fst (dc_piecewise d))" by simp
    then show ?thesis using p sort_key_names_ok [of prefix i "length bs"] assms(2) j by auto
  next
    case (Mean t opt c s' n)
    have "s' \<noteq> n" using fresh_inject [OF _ s(1,2), of prefix i "i + 1"] Mean by auto
    then show ?thesis using Mean s by (auto intro!: in_numbered)
  next
    case (Moments t a ddof c n)
    then show ?thesis using s by (auto intro!: in_numbered)
  qed simp_all
  then show "i \<le> j" "distinct (map fst (dc_piecewise d))" "fst ` set (dc_piecewise d) \<subseteq> insert name (numbered prefix i j)"
    "map fst (dc_reductions d) = map fst (dc_piecewise d)" by simp_all
qed

definition numbered_from :: "string \<Rightarrow> nat \<Rightarrow> string set" where
  "numbered_from prefix i = {n. \<exists>m s. i \<le> m \<and> suffix_ok s \<and> n = fresh prefix m s}"

lemma numbered_from_mono: "i \<le> j \<Longrightarrow> numbered_from prefix j \<subseteq> numbered_from prefix i"
  unfolding numbered_from_def using le_trans by blast

lemma numbered_subset: "numbered prefix i j \<subseteq> numbered_from prefix i"
  by (auto simp: numbered_def numbered_from_def)

definition piece_names :: "'f decomposition list \<Rightarrow> string list" where
  "piece_names ds = concat (map (\<lambda>d. map fst (dc_piecewise d)) ds)"

lemma decompose_all_names:
  assumes "decompose_all prefix es i = Inr ds" and "distinct (map fst es)"
    and "\<And>m s. suffix_ok s \<Longrightarrow> fresh prefix m s \<notin> fst ` set es"
  shows "distinct (piece_names ds)" and "set (piece_names ds) \<subseteq> fst ` set es \<union> numbered_from prefix i"
    and "list_all2 (\<lambda>(n, e) d. \<exists>i j. decompose prefix n e i = Inr (d, j)) es ds"
proof -
  have "distinct (piece_names ds)
     \<and> set (piece_names ds) \<subseteq> fst ` set es \<union> numbered_from prefix i
     \<and> list_all2 (\<lambda>(n, e) d. \<exists>i j. decompose prefix n e i = Inr (d, j)) es ds"
    using assms
  proof (induction es arbitrary: i ds)
    case (Cons ne es)
    obtain n e where ne: "ne = (n, e)" by (cases ne)
    obtain d j ds' where d: "decompose prefix n e i = Inr (d, j)" "decompose_all prefix es j = Inr ds'" "ds = d # ds'"
      using Cons.prems(1) by (auto simp: ne rbind_Inr_iff)
    have "n \<notin> numbered prefix i j" using Cons.prems(3) by (auto simp: numbered_def ne)
    note dn = decompose_names [OF d(1) this]
    have IH: "distinct (piece_names ds')"
      "set (piece_names ds') \<subseteq> fst ` set es \<union> numbered_from prefix j"
      "list_all2 (\<lambda>(n, e) d. \<exists>i j. decompose prefix n e i = Inr (d, j)) es ds'"
      using Cons.IH [OF d(2)] Cons.prems by auto
    have "x \<notin> set (piece_names ds')" if xd: "x \<in> fst ` set (dc_piecewise d)" for x
    proof
      assume x: "x \<in> set (piece_names ds')"
      consider "x = n" | m s where "i \<le> m" "m < j" "suffix_ok s" "x = fresh prefix m s"
        using subsetD [OF dn(3) xd] by (auto simp: numbered_def)
      then show False
      proof cases
        case 1
        then have "x \<notin> fst ` set es" "x \<notin> numbered_from prefix j"
          using Cons.prems(2,3) by (auto simp: ne numbered_from_def)
        then show False using x IH(2) by blast
      next
        case 2
        then have "x \<notin> fst ` set es" using Cons.prems(3) [of s m] by auto
        then obtain m' s' where "j \<le> m'" "suffix_ok s'" "x = fresh prefix m' s'"
          using x IH(2) by (auto simp: numbered_from_def)
        then show False using 2 fresh_inject [of prefix m s m' s'] by simp
      qed
    qed
    then have "distinct (piece_names ds)" using dn(2) IH(1) by (auto simp: d(3) piece_names_def)
    moreover have "set (piece_names ds) \<subseteq> fst ` set (ne # es) \<union> numbered_from prefix i"
    proof -
      have "set (piece_names ds) = fst ` set (dc_piecewise d) \<union> set (piece_names ds')" by (simp add: d(3) piece_names_def)
      moreover have "fst ` set (ne # es) = insert n (fst ` set es)" by (simp add: ne)
      moreover have "fst ` set (dc_piecewise d) \<subseteq> insert n (numbered_from prefix i)"
        by (rule order.trans [OF dn(3)]) (simp add: subset_insertI2 insert_mono numbered_subset)
      moreover have "set (piece_names ds') \<subseteq> fst ` set es \<union> numbered_from prefix i"
        by (rule order.trans [OF IH(2)]) (rule Un_mono [OF order.refl numbered_from_mono [OF dn(1)]])
      ultimately show ?thesis by (simp add: subset_iff) blast
    qed
    ultimately show ?case using IH(3) d by (auto simp: ne)
  qed (simp add: piece_names_def)
  then show "distinct (piece_names ds)"
    "set (piece_names ds) \<subseteq> fst ` set es \<union> numbered_from prefix i"
    "list_all2 (\<lambda>(n, e) d. \<exists>i j. decompose prefix n e i = Inr (d, j)) es ds" by auto
qed

end
