(* ===== verification/GroupTable.thy ===== *)
theory GroupTable
  imports GroupNames
begin

text \<open>
  The phases on tables.  A partial table stands for the rows it was aggregated from: it has one row
  for each of their keys, and that row holds right partial results for the rows with its key.  The
  piecewise group-by of a chunk stands for the chunk, the reduction of concatenated partial tables
  stands for all their rows, and the selection from a partial table is the requested group-by.
\<close>

section \<open>Group-by tables\<close>

definition order_ok :: "'f::linordered_field library \<Rightarrow> bool" where
  "order_ok lb \<longleftrightarrow> (\<forall>ks. distinct (lb_group_order lb ks) \<and> set (lb_group_order lb ks) = set ks)"

definition the_key :: "'f::linordered_field library \<Rightarrow> 'f named list \<Rightarrow> 'f row \<Rightarrow> 'f cell list" where
  "the_key lb keys r = (case key_of lb keys r of Inl _ \<Rightarrow> [] | Inr k \<Rightarrow> k)"

definition keyed :: "'f::linordered_field library \<Rightarrow> 'f named list \<Rightarrow> 'f row list \<Rightarrow> 'f keyed" where
  "keyed lb keys rs = map (\<lambda>r. (the_key lb keys r, r)) rs"

definition keys_ok :: "'f::linordered_field library \<Rightarrow> 'f named list \<Rightarrow> 'f row list \<Rightarrow> bool" where
  "keys_ok lb keys rs \<longleftrightarrow> (\<forall>r \<in> set rs. \<exists>k. key_of lb keys r = Inr k)"

text \<open>One row for every key, in the order of appearance when the order is maintained.\<close>

definition group_table ::
  "'f named list \<Rightarrow> bool \<Rightarrow> 'f cell list list \<Rightarrow> ('f cell list \<Rightarrow> 'f row \<Rightarrow> bool) \<Rightarrow> 'f row list \<Rightarrow> bool" where
  "group_table keys maintain_order ks P out \<longleftrightarrow>
     distinct (map (row_key keys) out) \<and> set (map (row_key keys) out) = set ks
     \<and> (maintain_order \<longrightarrow> map (row_key keys) out = appearance ks)
     \<and> (\<forall>p \<in> set out. (\<forall>n \<in> fst ` set keys. map_of p n \<noteq> None) \<and> P (row_key keys p) p)"

lemma group_table_mono:
  "group_table keys m ks P out \<Longrightarrow> (\<And>p. p \<in> set out \<Longrightarrow> P (row_key keys p) p \<Longrightarrow> Q (row_key keys p) p) \<Longrightarrow> group_table keys m ks Q out"
  by (auto simp: group_table_def)

lemma set_appearance [simp]: "set (appearance ks) = set ks"
  by (simp add: appearance_def)

lemma distinct_appearance [simp]: "distinct (appearance ks)"
  by (simp add: appearance_def)

lemma key_of_the_key: "\<exists>k. key_of lb keys r = Inr k \<Longrightarrow> key_of lb keys r = Inr (the_key lb keys r)"
  by (auto simp: the_key_def)

lemma length_key: "key_of lb keys r = Inr k \<Longrightarrow> length k = length keys"
  by (auto simp: key_of_def rmap_Inr_iff dest: list_all2_lengthD)

lemma keyed_rows_ok: "keys_ok lb keys rs \<Longrightarrow> keyed_rows lb keys rs = Inr (keyed lb keys rs)"
  unfolding keyed_rows_def keyed_def keys_ok_def
  by (rule rmap_all_Inr) (auto simp: the_key_def)

lemma keys_in_keyed: "keys_ok lb keys rs \<Longrightarrow> keys_in lb keys rs = map fst (keyed lb keys rs)"
  unfolding keys_in_def keyed_def keys_ok_def by (induction rs) (auto simp: the_key_def)

lemma group_keyed: "keys_ok lb keys rs \<Longrightarrow> group (keyed lb keys rs) k = rows_of lb keys rs k"
  unfolding group_def keyed_def rows_of_def keys_ok_def
  by (induction rs) (auto simp: the_key_def)

lemma keys_in_append [simp]: "keys_in lb keys (rs @ ss) = keys_in lb keys rs @ keys_in lb keys ss"
  by (simp add: keys_in_def)

lemma keys_in_concat: "keys_in lb keys (concat rss) = concat (map (keys_in lb keys) rss)"
  by (induction rss) (simp_all add: keys_in_def)

lemma rows_of_concat: "rows_of lb keys (concat rss) k = concat (map (\<lambda>rs. rows_of lb keys rs k) rss)"
  by (simp add: rows_of_def filter_concat)

lemma rows_of_nonempty: "rows_of lb keys rs k \<noteq> [] \<longleftrightarrow> k \<in> set (keys_in lb keys rs)"
  by (induction rs) (auto simp: rows_of_def keys_in_def split: sum.splits)

lemma keys_ok_concat: "keys_ok lb keys (concat rss) \<longleftrightarrow> (\<forall>rs \<in> set rss. keys_ok lb keys rs)"
  by (auto simp: keys_ok_def)

lemma row_key_zip:
  assumes "length k = length keys" and "distinct (map fst keys)"
  shows "map (\<lambda>(n, e). case map_of (zip (map fst keys) k @ q) n of None \<Rightarrow> None | Some c \<Rightarrow> c) keys = k"
proof (rule nth_equalityI)
  fix i
  assume "i < length (map (\<lambda>(n, e). case map_of (zip (map fst keys) k @ q) n of None \<Rightarrow> None | Some c \<Rightarrow> c) keys)"
  then have i: "i < length keys" by simp
  then have "map_of (zip (map fst keys) k) (fst (keys ! i)) = Some (k ! i)"
    using map_of_zip_nth [of "map fst keys" k i] assms by simp
  then show "map (\<lambda>(n, e). case map_of (zip (map fst keys) k @ q) n of None \<Rightarrow> None | Some c \<Rightarrow> c) keys ! i = k ! i"
    using i by (simp add: case_prod_beta map_add_def map_of_append)
qed (simp add: assms)

lemma group_by_result:
  fixes lb :: "'f::linordered_field library"
  assumes keys: "keys_ok lb (gb_keys G) rs" and d: "distinct (map fst (gb_keys G) @ map fst (gb_aggs G))"
    and ord: "order_ok lb" and z: "gb_zlice G = None"
    and req: "\<And>k n e. k \<in> set (keys_in lb (gb_keys G) rs) \<Longrightarrow> (n, e) \<in> set (gb_aggs G)
      \<Longrightarrow> \<exists>v. request_value lb (keyed lb (gb_keys G) rs) e k = Inr v \<and> P k n e v"
  shows "\<exists>out. group_by lb G rs = Inr out
     \<and> group_table (gb_keys G) (gb_maintain_order G) (keys_in lb (gb_keys G) rs)
         (\<lambda>k p. \<forall>(n, e) \<in> set (gb_aggs G). \<exists>v. map_of p n = Some v \<and> P k n e v) out"
proof -
  define kt where "kt = keyed lb (gb_keys G) rs"
  define ks where "ks = keys_in lb (gb_keys G) rs"
  define ord' where "ord' = (if gb_maintain_order G then appearance ks else lb_group_order lb ks)"
  define val where "val k e = (case request_value lb kt e k of Inl _ \<Rightarrow> None | Inr v \<Rightarrow> v)" for k e
  define mk where "mk k = zip (map fst (gb_keys G)) k @ zip (map fst (gb_aggs G)) (map (\<lambda>(n, e). val k e) (gb_aggs G))" for k
  have so: "set ord' = set ks" "distinct ord'" using ord by (simp_all add: ord'_def order_ok_def)
  have len: "length k = length (gb_keys G)" if "k \<in> set ks" for k
    using that by (auto simp: ks_def keys_in_def split: sum.splits intro: length_key [OF sym])
  have v: "request_value lb kt e k = Inr (val k e) \<and> P k n e (val k e)" if "k \<in> set ks" "(n, e) \<in> set (gb_aggs G)" for k n e
    using req [of k n e] that by (auto simp: kt_def ks_def val_def)
  have one: "rbind (rmap (\<lambda>(n, e). request_value lb kt e k) (gb_aggs G)) (\<lambda>vs.
      Inr (dict_of (zip (map fst (gb_keys G) @ map fst (gb_aggs G)) (k @ vs)))) = Inr (mk k)" if k: "k \<in> set ks" for k
  proof -
    have "rmap (\<lambda>(n, e). request_value lb kt e k) (gb_aggs G) = Inr (map (\<lambda>(n, e). val k e) (gb_aggs G))"
      by (rule rmap_all_Inr) (use v k in auto)
    moreover have "zip (map fst (gb_keys G) @ map fst (gb_aggs G)) (k @ map (\<lambda>(n, e). val k e) (gb_aggs G)) = mk k"
      using len [OF k] by (simp add: mk_def)
    moreover have "map fst (mk k) = map fst (gb_keys G) @ map fst (gb_aggs G)" using len [OF k] by (simp add: mk_def)
    then have "dict_of (mk k) = mk k" using d by (intro dict_of_distinct) simp
    ultimately show ?thesis by simp
  qed
  have fst_kt: "map fst kt = ks" by (simp add: kt_def ks_def keys_in_keyed [OF keys])
  have "rmap (\<lambda>k. rbind (rmap (\<lambda>(n, e). request_value lb kt e k) (gb_aggs G)) (\<lambda>vs.
      Inr (dict_of (zip (map fst (gb_keys G) @ map fst (gb_aggs G)) (k @ vs))))) ord' = Inr (map mk ord')"
    by (rule rmap_all_Inr) (use one so in auto)
  then have out: "group_by lb G rs = Inr (map mk ord')"
    unfolding group_by_def keyed_rows_ok [OF keys] rbind.simps Let_def kt_def [symmetric] fst_kt ord'_def [symmetric]
    by (simp add: z slice_rows_def)
  have rk: "row_key (gb_keys G) (mk k) = k" if "k \<in> set ks" for k
    using row_key_zip [OF len [OF that]] d by (simp add: row_key_def mk_def)
  have map_rk: "map (row_key (gb_keys G)) (map mk ord') = ord'" unfolding map_map by (rule map_idI) (use rk so in simp)
  have col: "map_of (mk k) n = Some (val k e)" if k: "k \<in> set ks" and ne: "(n, e) \<in> set (gb_aggs G)" for k n e
  proof -
    have "map_of (zip (map fst (gb_keys G)) k) n = None"
      using d ne by (force simp: map_of_eq_None_iff dest: set_zip_leftD)
    moreover obtain i where i: "i < length (gb_aggs G)" "gb_aggs G ! i = (n, e)" using ne by (auto simp: in_set_conv_nth)
    then have "map_of (zip (map fst (gb_aggs G)) (map (\<lambda>(n, e). val k e) (gb_aggs G))) n = Some (val k e)"
      using map_of_zip_nth [of "map fst (gb_aggs G)" "map (\<lambda>(n, e). val k e) (gb_aggs G)" i] d by simp
    ultimately show ?thesis by (simp add: mk_def map_add_def)
  qed
  have present: "map_of (mk k) n \<noteq> None" if "k \<in> set ks" "n \<in> fst ` set (gb_keys G)" for k n
  proof -
    have "fst ` set (mk k) \<supseteq> fst ` set (gb_keys G)"
      using len [OF that(1)] by (simp add: mk_def image_Un flip: set_map)
    then show ?thesis using that(2) by (auto simp: map_of_eq_None_iff)
  qed
  have "group_table (gb_keys G) (gb_maintain_order G) ks
      (\<lambda>k p. \<forall>(n, e) \<in> set (gb_aggs G). \<exists>v. map_of p n = Some v \<and> P k n e v) (map mk ord')"
    unfolding group_table_def map_rk using so present rk col v by (auto simp: ord'_def)
  then show ?thesis using out by (simp add: ks_def)
qed


section \<open>Partial tables\<close>

definition decompositions :: "'f::linordered_field groupby_ir \<Rightarrow> 'f decomposition list res" where
  "decompositions ir = decompose_all (unique_prefix (gb_schema ir)) (gb_aggs ir) 0"

definition library_ok :: "'f::linordered_field library \<Rightarrow> bool" where
  "library_ok lb \<longleftrightarrow> sort_ok lb \<and> order_ok lb"

text \<open>A group-by that is decomposed: distinct column names, keys before aggregations, no slice.\<close>

definition ir_ok :: "'f::linordered_field library \<Rightarrow> 'f groupby_ir \<Rightarrow> bool" where
  "ir_ok lb ir \<longleftrightarrow> library_ok lb \<and> gb_schema ir = map fst (gb_keys ir) @ map fst (gb_aggs ir)
     \<and> distinct (gb_schema ir) \<and> length (gb_keys ir) = length (lb_key_flags lb) \<and> gb_zlice ir = None
     \<and> (case decompositions ir of Inl _ \<Rightarrow> False | Inr _ \<Rightarrow> True)"

text \<open>The keys and requests can be evaluated, and every group is well-typed for every request_value.\<close>

definition rows_ok :: "'f::linordered_field library \<Rightarrow> 'f groupby_ir \<Rightarrow> 'f row list \<Rightarrow> bool" where
  "rows_ok lb ir rs \<longleftrightarrow> keys_ok lb (gb_keys ir) rs
     \<and> (\<forall>k \<in> set (keys_in lb (gb_keys ir) rs). \<forall>(n, e) \<in> set (gb_aggs ir). agg_ok lb e (rows_of lb (gb_keys ir) rs k))"

definition stands :: "'f::linordered_field library \<Rightarrow> 'f groupby_ir \<Rightarrow> 'f row list \<Rightarrow> 'f row list \<Rightarrow> bool" where
  "stands lb ir rs t \<longleftrightarrow> (\<exists>ds. decompositions ir = Inr ds \<and>
     group_table (gb_keys ir) (gb_maintain_order ir) (keys_in lb (gb_keys ir) rs)
       (\<lambda>k p. \<forall>d \<in> set ds. holds lb d (rows_of lb (gb_keys ir) rs k) p) t)"

text \<open>The requested group-by of the rows.\<close>

definition group_spec :: "'f::linordered_field library \<Rightarrow> 'f groupby_ir \<Rightarrow> 'f row list \<Rightarrow> 'f row list \<Rightarrow> bool" where
  "group_spec lb ir rs out \<longleftrightarrow>
     group_table (gb_keys ir) (gb_maintain_order ir) (keys_in lb (gb_keys ir) rs)
       (\<lambda>k p. \<forall>(n, e) \<in> set (gb_aggs ir). part lb n e (rows_of lb (gb_keys ir) rs k) p) out"

definition piecewise :: "'f::linordered_field library \<Rightarrow> 'f groupby_ir \<Rightarrow> 'f row list \<Rightarrow> 'f row list res" where
  "piecewise lb ir rs = rbind (from_ir ir) (\<lambda>dg. group_by lb (dg_piecewise dg) rs)"

definition reduction :: "'f::linordered_field library \<Rightarrow> 'f groupby_ir \<Rightarrow> 'f row list \<Rightarrow> 'f row list res" where
  "reduction lb ir ps = rbind (from_ir ir) (\<lambda>dg. group_by lb (dg_reduction dg) ps)"

definition selection :: "'f::linordered_field library \<Rightarrow> 'f groupby_ir \<Rightarrow> 'f row list \<Rightarrow> 'f row list res" where
  "selection lb ir ps = rbind (from_ir ir) (\<lambda>dg. select lb (dg_select dg) ps)"

lemma dict_names_distinct: "distinct ns \<Longrightarrow> dict_names ns = ns"
  by (simp add: dict_names_def dict_of_distinct comp_def)

lemma ir_decompositions:
  assumes "ir_ok lb ir"
  obtains ds where "decompositions ir = Inr ds"
    and "distinct (map fst (gb_keys ir) @ piece_names ds)"
    and "list_all2 (\<lambda>(n, e) d. \<exists>i j. decompose (unique_prefix (gb_schema ir)) n e i = Inr (d, j)) (gb_aggs ir) ds"
proof -
  obtain ds where ds: "decompositions ir = Inr ds" using assms by (auto simp: ir_ok_def split: sum.splits)
  have sch: "gb_schema ir = map fst (gb_keys ir) @ map fst (gb_aggs ir)" "distinct (gb_schema ir)"
    using assms unfolding ir_ok_def by blast+
  have new: "fresh (unique_prefix (gb_schema ir)) m s \<notin> fst ` set (gb_aggs ir)" for m s
    using fresh_new [of "gb_schema ir" m s] sch(1) by auto
  have "distinct (map fst (gb_aggs ir))" using sch by simp
  note names = decompose_all_names [OF ds [unfolded decompositions_def] this new]
  have "set (map fst (gb_keys ir)) \<inter> set (piece_names ds) = {}"
  proof -
    have "x \<notin> set (map fst (gb_keys ir))" if x: "x \<in> set (piece_names ds)" for x
    proof -
      consider "x \<in> fst ` set (gb_aggs ir)" | m s where "x = fresh (unique_prefix (gb_schema ir)) m s"
        using subsetD [OF names(2) x] by (auto simp: numbered_from_def)
      then show ?thesis
      proof cases
        case 1
        have "distinct (map fst (gb_keys ir) @ map fst (gb_aggs ir))" using sch by metis
        then show ?thesis using 1 by auto
      next
        case 2
        then show ?thesis using fresh_new [of "gb_schema ir" m s] sch(1) by auto
      qed
    qed
    then show ?thesis by auto
  qed
  then have "distinct (map fst (gb_keys ir) @ piece_names ds)" using names(1) sch by simp
  then show thesis by (rule that [OF ds _ names(3)])
qed

lemma from_ir_fields:
  assumes "decompositions ir = Inr ds"
  obtains dg where "from_ir ir = Inr dg" "dg_ir dg = ir"
    "gb_keys (dg_piecewise dg) = gb_keys ir" "gb_aggs (dg_piecewise dg) = concat (map dc_piecewise ds)"
    "gb_maintain_order (dg_piecewise dg) = gb_maintain_order ir" "gb_zlice (dg_piecewise dg) = None"
    "gb_keys (dg_reduction dg) = groupby_keys (gb_keys ir)" "gb_aggs (dg_reduction dg) = concat (map dc_reductions ds)"
    "gb_maintain_order (dg_reduction dg) = gb_maintain_order ir" "gb_zlice (dg_reduction dg) = None"
    "dg_select dg = groupby_keys (gb_keys ir) @ concat (map dc_selections ds)"
    "dg_preshuffle dg = list_ex dc_preshuffle ds"
  using assms that unfolding decompositions_def by (auto simp: from_ir_def combine_def Let_def)

lemma map_fst_groupby_keys [simp]: "map fst (groupby_keys keys) = map fst keys" "length (groupby_keys keys) = length keys"
  by (auto simp: groupby_keys_def)

lemma row_key_groupby_keys [simp]: "row_key (groupby_keys keys) p = row_key keys p"
  by (simp add: row_key_def groupby_keys_def comp_def case_prod_beta)

lemma key_of_groupby_keys:
  "\<forall>n \<in> fst ` set keys. map_of p n \<noteq> None \<Longrightarrow> key_of lb (groupby_keys keys) p = Inr (row_key keys p)"
  by (induction keys) (auto simp: key_of_def groupby_keys_def row_key_def)

lemma piecewise_stands:
  assumes ok: "ir_ok lb ir" "rows_ok lb ir rs"
  shows "\<exists>t. piecewise lb ir rs = Inr t \<and> stands lb ir rs t"
proof -
  obtain ds where ds: "decompositions ir = Inr ds" and dist: "distinct (map fst (gb_keys ir) @ piece_names ds)"
    and each: "list_all2 (\<lambda>(n, e) d. \<exists>i j. decompose (unique_prefix (gb_schema ir)) n e i = Inr (d, j)) (gb_aggs ir) ds"
    by (rule ir_decompositions [OF ok(1)])
  obtain dg where dg: "from_ir ir = Inr dg" "gb_keys (dg_piecewise dg) = gb_keys ir"
    "gb_aggs (dg_piecewise dg) = concat (map dc_piecewise ds)"
    "gb_maintain_order (dg_piecewise dg) = gb_maintain_order ir" "gb_zlice (dg_piecewise dg) = None"
    by (rule from_ir_fields [OF ds])
  have keys: "keys_ok lb (gb_keys ir) rs" using ok(2) by (simp add: rows_ok_def)
  have kl: "length (fst p) = length (lb_key_flags lb)" if p: "p \<in> set (keyed lb (gb_keys ir) rs)" for p
  proof -
    obtain r where r: "r \<in> set rs" "fst p = the_key lb (gb_keys ir) r" using p by (auto simp: keyed_def)
    then have "\<exists>k. key_of lb (gb_keys ir) r = Inr k" using keys by (simp add: keys_ok_def)
    then have "length (fst p) = length (gb_keys ir)" unfolding r(2) by (rule length_key [OF key_of_the_key])
    then show ?thesis using ok(1) by (simp add: ir_ok_def)
  qed
  have req: "\<exists>v. request_value lb (keyed lb (gb_keys ir) rs) a k = Inr v \<and> agg_spec lb a (rows_of lb (gb_keys ir) rs k) v"
    if k: "k \<in> set (keys_in lb (gb_keys ir) rs)" and a: "(n, a) \<in> set (concat (map dc_piecewise ds))" for k n a
  proof -
    obtain d where d: "d \<in> set ds" "(n, a) \<in> set (dc_piecewise d)" using a by auto
    then obtain m e i j where e: "(m, e) \<in> set (gb_aggs ir)" "decompose (unique_prefix (gb_schema ir)) m e i = Inr (d, j)"
      using each by (fastforce simp: list_all2_conv_all_nth in_set_conv_nth)
    have "groups_ok lb e (keyed lb (gb_keys ir) rs)"
      using ok(2) e(1) kl keys_in_keyed [OF keys]
      by (fastforce simp: groups_ok_def group_keyed [OF keys] rows_ok_def)
    moreover have "sort_ok lb" using ok(1) by (simp add: ir_ok_def library_ok_def)
    moreover have "k \<in> fst ` set (keyed lb (gb_keys ir) rs)" using k by (simp add: keys_in_keyed [OF keys])
    ultimately show ?thesis using piecewise_phase [OF e(2)] d(2) by (fastforce simp: group_keyed [OF keys])
  qed
  have pn: "map fst (concat (map dc_piecewise ds)) = piece_names ds" by (simp add: piece_names_def map_concat comp_def)
  have "order_ok lb" using ok(1) by (simp add: ir_ok_def library_ok_def)
  then obtain out where out: "group_by lb (dg_piecewise dg) rs = Inr out"
    and tab: "group_table (gb_keys ir) (gb_maintain_order ir) (keys_in lb (gb_keys ir) rs)
      (\<lambda>k p. \<forall>(n, e) \<in> set (concat (map dc_piecewise ds)). \<exists>v. map_of p n = Some v
         \<and> agg_spec lb e (rows_of lb (gb_keys ir) rs k) v) out"
    using group_by_result [of lb "dg_piecewise dg" rs "\<lambda>k n e v. agg_spec lb e (rows_of lb (gb_keys ir) rs k) v"]
      keys dist req by (auto simp: dg(2-) pn)
  have "stands lb ir rs out"
    unfolding stands_def using ds tab by (auto elim!: group_table_mono simp: holds_def part_def)
  then show ?thesis using out dg(1) by (simp add: piecewise_def)
qed


section \<open>Reducing partial tables\<close>

lemma appearance_snoc: "appearance (ks @ [k]) = (if k \<in> set ks then appearance ks else appearance ks @ [k])"
  by (simp add: appearance_def)

lemma appearance_append: "appearance (xs @ ys) = appearance xs @ filter (\<lambda>y. y \<notin> set xs) (appearance ys)"
proof (induction ys rule: rev_induct)
  case (snoc y ys)
  then show ?case by (simp add: appearance_snoc flip: append_assoc)
qed (simp add: appearance_def)

lemma appearance_distinct: "distinct ks \<Longrightarrow> appearance ks = ks"
  by (simp add: appearance_def distinct_remdups_id)

lemma appearance_concat: "appearance (concat (map appearance kss)) = appearance (concat kss)"
  by (induction kss) (simp_all add: appearance_append appearance_distinct)

definition has_preshuffle :: "'f::linordered_field groupby_ir \<Rightarrow> bool" where
  "has_preshuffle ir = (case decompositions ir of Inl _ \<Rightarrow> False | Inr ds \<Rightarrow> list_ex dc_preshuffle ds)"

text \<open>After a shuffle by the keys every group is in one chunk.\<close>

definition apart :: "'f::linordered_field library \<Rightarrow> 'f groupby_ir \<Rightarrow> 'f row list list \<Rightarrow> bool" where
  "apart lb ir rss \<longleftrightarrow> (has_preshuffle ir \<longrightarrow> (\<forall>k \<in> set (keys_in lb (gb_keys ir) (concat rss)).
     length (filter (\<lambda>rs. k \<in> set (keys_in lb (gb_keys ir) rs)) rss) \<le> 1))"

lemma partial_row:
  assumes "stands lb ir rs t" and "decompositions ir = Inr ds" and "d \<in> set ds"
  shows "list_all2 (holds lb d) (if k \<in> set (keys_in lb (gb_keys ir) rs) then [rows_of lb (gb_keys ir) rs k] else [])
     (filter (\<lambda>p. row_key (gb_keys ir) p = k) t)"
proof -
  have t: "distinct (map (row_key (gb_keys ir)) t)" "set (map (row_key (gb_keys ir)) t) = set (keys_in lb (gb_keys ir) rs)"
    "\<And>p. p \<in> set t \<Longrightarrow> holds lb d (rows_of lb (gb_keys ir) rs (row_key (gb_keys ir) p)) p"
    using assms by (auto simp: stands_def group_table_def)
  show ?thesis
  proof (cases "k \<in> set (keys_in lb (gb_keys ir) rs)")
    case True
    then have "k \<in> row_key (gb_keys ir) ` set t" using t(2) by simp
    then obtain p where p: "k = row_key (gb_keys ir) p" "p \<in> set t" by (rule imageE)
    then obtain as bs where split: "t = as @ p # bs" by (meson split_list)
    then have "k \<notin> set (map (row_key (gb_keys ir)) as)" "k \<notin> set (map (row_key (gb_keys ir)) bs)"
      using t(1) p(1) by simp_all
    then have "filter (\<lambda>p. row_key (gb_keys ir) p = k) as = []" "filter (\<lambda>p. row_key (gb_keys ir) p = k) bs = []"
      by (auto simp: filter_empty_conv)
    then have "filter (\<lambda>p. row_key (gb_keys ir) p = k) t = [p]" using p(1) by (simp add: split)
    then show ?thesis using True t(3) [OF p(2)] p(1) by simp
  next
    case False
    then have "filter (\<lambda>p. row_key (gb_keys ir) p = k) t = []" using t(2) by (auto simp: filter_empty_conv)
    then show ?thesis using False by simp
  qed
qed

lemma holds_columns: "holds lb d rs p \<Longrightarrow> columns_present d p"
  unfolding holds_def columns_present_def part_def by fastforce

lemma stands_columns: "stands lb ir rs t \<Longrightarrow> decompositions ir = Inr ds \<Longrightarrow> d \<in> set ds \<Longrightarrow> p \<in> set t \<Longrightarrow> columns_present d p"
  unfolding stands_def group_table_def using holds_columns by fastforce

lemma partial_rows:
  assumes "list_all2 (stands lb ir) rss ts" and "decompositions ir = Inr ds" and "d \<in> set ds"
  shows "list_all2 (holds lb d) (map (\<lambda>rs. rows_of lb (gb_keys ir) rs k) (filter (\<lambda>rs. k \<in> set (keys_in lb (gb_keys ir) rs)) rss))
     (filter (\<lambda>p. row_key (gb_keys ir) p = k) (concat ts))"
  using assms(1)
proof (induction rule: list_all2_induct)
  case (Cons rs rss t ts)
  then show ?case using partial_row [OF Cons.hyps(1) assms(2,3), of k] by (auto split: if_splits intro: list_all2_appendI [of _ "[_]", simplified])
qed simp

lemma rows_of_filter_concat:
  "concat (map (\<lambda>rs. rows_of lb keys rs k) (filter (\<lambda>rs. k \<in> set (keys_in lb keys rs)) rss)) = rows_of lb keys (concat rss) k"
proof (induction rss)
  case (Cons rs rss)
  then show ?case using rows_of_nonempty [of lb keys rs k] by (auto simp: rows_of_def)
qed (simp add: rows_of_def)

lemma keyed_partials:
  assumes "\<forall>p \<in> set ps. \<forall>n \<in> fst ` set keys. map_of p n \<noteq> None"
  shows "keys_ok lb (groupby_keys keys) ps" "keyed lb (groupby_keys keys) ps = map (\<lambda>p. (row_key keys p, p)) ps"
    "keys_in lb (groupby_keys keys) ps = map (row_key keys) ps"
    "rows_of lb (groupby_keys keys) ps k = filter (\<lambda>p. row_key keys p = k) ps"
proof -
  have k: "key_of lb (groupby_keys keys) p = Inr (row_key keys p)" if "p \<in> set ps" for p
    using assms that key_of_groupby_keys [of keys p lb] by auto
  then show ok: "keys_ok lb (groupby_keys keys) ps" by (auto simp: keys_ok_def)
  show kd: "keyed lb (groupby_keys keys) ps = map (\<lambda>p. (row_key keys p, p)) ps"
    unfolding keyed_def using k by (auto simp: the_key_def)
  show "keys_in lb (groupby_keys keys) ps = map (row_key keys) ps" by (simp add: keys_in_keyed [OF ok] kd comp_def)
  show "rows_of lb (groupby_keys keys) ps k = filter (\<lambda>p. row_key keys p = k) ps"
    unfolding rows_of_def using k by (auto intro: filter_cong)
qed

lemma stands_keys:
  assumes "list_all2 (stands lb ir) rss ts"
  shows "set (map (row_key (gb_keys ir)) (concat ts)) = set (keys_in lb (gb_keys ir) (concat rss))"
    and "gb_maintain_order ir \<Longrightarrow> appearance (map (row_key (gb_keys ir)) (concat ts)) = appearance (keys_in lb (gb_keys ir) (concat rss))"
    and "\<forall>p \<in> set (concat ts). \<forall>n \<in> fst ` set (gb_keys ir). map_of p n \<noteq> None"
proof -
  show "set (map (row_key (gb_keys ir)) (concat ts)) = set (keys_in lb (gb_keys ir) (concat rss))"
    using assms by (induction rule: list_all2_induct) (auto simp: stands_def group_table_def keys_in_def)
  show "\<forall>p \<in> set (concat ts). \<forall>n \<in> fst ` set (gb_keys ir). map_of p n \<noteq> None"
    using assms by (induction rule: list_all2_induct) (auto simp: stands_def group_table_def)
  assume m: "gb_maintain_order ir"
  have "map (map (row_key (gb_keys ir))) ts = map appearance (map (keys_in lb (gb_keys ir)) rss)"
    using assms by (induction rule: list_all2_induct) (auto simp: stands_def group_table_def m)
  then have "map (row_key (gb_keys ir)) (concat ts) = concat (map appearance (map (keys_in lb (gb_keys ir)) rss))"
    by (metis map_concat)
  then show "appearance (map (row_key (gb_keys ir)) (concat ts)) = appearance (keys_in lb (gb_keys ir) (concat rss))"
    by (simp only: appearance_concat keys_in_concat)
qed

lemma piece_unique:
  "distinct (piece_names ds) \<Longrightarrow> (n, a) \<in> set (concat (map dc_piecewise ds)) \<Longrightarrow> (n, b) \<in> set (concat (map dc_piecewise ds)) \<Longrightarrow> a = b"
proof -
  assume "distinct (piece_names ds)" "(n, a) \<in> set (concat (map dc_piecewise ds))" "(n, b) \<in> set (concat (map dc_piecewise ds))"
  moreover have "piece_names ds = map fst (concat (map dc_piecewise ds))" by (simp add: piece_names_def map_concat comp_def)
  ultimately show ?thesis by (metis map_of_is_SomeI option.inject)
qed

lemma group_table_transfer:
  assumes "group_table (groupby_keys keys) m ks P out" and "set ks = set ks'" and "m \<Longrightarrow> appearance ks = appearance ks'"
    and "\<And>k p. P k p \<Longrightarrow> Q k p"
  shows "group_table keys m ks' Q out"
proof -
  have r: "row_key (groupby_keys keys) = row_key keys" by (rule ext) simp
  have n: "fst ` set (groupby_keys keys) = fst ` set keys" by (simp flip: set_map)
  show ?thesis using assms unfolding group_table_def r n by metis
qed

lemma reduced_names: "list_all2 (reduced lb kt k rs) xs ys \<Longrightarrow> map fst ys = map fst xs"
  by (induction rule: list_all2_induct) (auto simp: reduced_def)

lemma reduction_stands:
  assumes ok: "ir_ok lb ir" "rows_ok lb ir (concat rss)" and st: "list_all2 (stands lb ir) rss ts" and ap: "apart lb ir rss"
  shows "\<exists>t. reduction lb ir (concat ts) = Inr t \<and> stands lb ir (concat rss) t"
proof -
  let ?keys = "gb_keys ir" and ?gk = "groupby_keys (gb_keys ir)"
  obtain ds where ds: "decompositions ir = Inr ds" and dist: "distinct (map fst (gb_keys ir) @ piece_names ds)"
    and each: "list_all2 (\<lambda>(n, e) d. \<exists>i j. decompose (unique_prefix (gb_schema ir)) n e i = Inr (d, j)) (gb_aggs ir) ds"
    by (rule ir_decompositions [OF ok(1)])
  obtain dg where dg: "from_ir ir = Inr dg" "gb_keys (dg_reduction dg) = ?gk"
    "gb_aggs (dg_reduction dg) = concat (map dc_reductions ds)"
    "gb_maintain_order (dg_reduction dg) = gb_maintain_order ir" "gb_zlice (dg_reduction dg) = None"
    by (rule from_ir_fields [OF ds])
  have lib: "sort_ok lb" "order_ok lb" using ok(1) by (simp_all add: ir_ok_def library_ok_def)
  note sk = stands_keys [OF st]
  note kp = keyed_partials [OF sk(3), of lb]
  define kt where "kt = keyed lb ?gk (concat ts)"
  define rk where "rk k = map (\<lambda>rs. rows_of lb ?keys rs k) (filter (\<lambda>rs. k \<in> set (keys_in lb ?keys rs)) rss)" for k
  have rk: "concat (rk k) = rows_of lb ?keys (concat rss) k" "\<forall>rs \<in> set (rk k). rs \<noteq> []" for k
    by (auto simp: rk_def rows_of_filter_concat rows_of_nonempty)
  have gk: "group kt k = filter (\<lambda>p. row_key ?keys p = k) (concat ts)" for k
    by (simp add: kt_def group_keyed [OF kp(1)] kp(4))
  have ddec: "\<exists>m e i j. (m, e) \<in> set (gb_aggs ir) \<and> decompose (unique_prefix (gb_schema ir)) m e i = Inr (d, j)"
    if "d \<in> set ds" for d
    using each that by (fastforce simp: list_all2_conv_all_nth in_set_conv_nth)
  have table: "length (fst p) = length (lb_key_flags lb) \<and> columns_present d (snd p)" if p: "p \<in> set kt" and d: "d \<in> set ds" for p d
  proof -
    have l: "length (fst p) = length (lb_key_flags lb)" using p ok(1) by (auto simp: kt_def kp(2) row_key_def ir_ok_def)
    have "snd p \<in> set (concat ts)" using p by (auto simp: kt_def kp(2))
    moreover have "\<forall>q \<in> set (concat ts). columns_present d q"
      using st by (induction rule: list_all2_induct) (auto intro: stands_columns [OF _ ds d])
    ultimately show ?thesis using l by blast
  qed
  have red: "list_all2 (reduced lb kt k (rows_of lb ?keys (concat rss) k)) (dc_piecewise d) (dc_reductions d)"
    if k: "k \<in> set (keys_in lb ?keys (concat rss))" and d: "d \<in> set ds" for k d
  proof -
    obtain m e i j where e: "(m, e) \<in> set (gb_aggs ir)" "decompose (unique_prefix (gb_schema ir)) m e i = Inr (d, j)"
      using ddec [OF d] by auto
    have holds: "list_all2 (holds lb d) (rk k) (group kt k)"
      unfolding rk_def gk by (rule partial_rows [OF st ds d])
    have ne: "rk k \<noteq> []" using k rk(1) [of k] rows_of_nonempty [of lb ?keys "concat rss" k] by auto
    have okk: "agg_ok lb e (concat (rk k))" using ok(2) k e(1) by (force simp: rk(1) rows_ok_def)
    have "length (rk k) = 1" if "dc_preshuffle d"
    proof -
      have "has_preshuffle ir" using d that by (auto simp: has_preshuffle_def ds list_ex_iff)
      then have "length (rk k) \<le> 1" using ap k by (simp add: apart_def rk_def)
      then show ?thesis using ne by (cases "rk k") auto
    qed
    then have "list_all2 (reduced lb kt k (concat (rk k))) (dc_piecewise d) (dc_reductions d)"
      by (intro reduction_phase [OF e(2) holds ne rk(2) okk _ lib(1)]) (use table d in auto)
    then show ?thesis by (simp add: rk(1))
  qed
  have names: "map fst (concat (map dc_reductions ds)) = piece_names ds"
  proof -
    have "map fst (dc_reductions d) = map fst (dc_piecewise d)" if d: "d \<in> set ds" for d
    proof (cases "keys_in lb ?keys (concat rss)")
      case Nil
      obtain m e i j where e: "(m, e) \<in> set (gb_aggs ir)" "decompose (unique_prefix (gb_schema ir)) m e i = Inr (d, j)"
        using ddec [OF d] by auto
      then have "m \<notin> numbered (unique_prefix (gb_schema ir)) i j"
      proof -
        have "gb_schema ir = map fst (gb_keys ir) @ map fst (gb_aggs ir)" using ok(1) by (simp add: ir_ok_def)
        then have "set (gb_schema ir) = fst ` set (gb_keys ir) \<union> fst ` set (gb_aggs ir)" by (simp only: set_append set_map)
        then have "m \<in> set (gb_schema ir)" using imageI [OF e(1), of fst] by simp
        then show ?thesis using fresh_new [of "gb_schema ir"] by (auto simp: numbered_def)
      qed
      then show ?thesis by (rule decompose_names(4) [OF e(2)])
    next
      case (Cons k ks)
      have "k \<in> set (keys_in lb ?keys (concat rss))" unfolding Cons by simp
      then show ?thesis by (rule reduced_names [OF red [OF _ d]])
    qed
    then show ?thesis by (simp add: piece_names_def map_concat comp_def cong: map_cong)
  qed
  have req: "\<exists>v. request_value lb kt r k = Inr v \<and> (\<exists>a. (n, a) \<in> set (concat (map dc_piecewise ds)) \<and> agg_spec lb a (rows_of lb ?keys (concat rss) k) v)"
    if k: "k \<in> set (keys_in lb ?gk (concat ts))" and r: "(n, r) \<in> set (concat (map dc_reductions ds))" for k n r
  proof -
    have k': "k \<in> set (keys_in lb ?keys (concat rss))" using k sk(1) by (simp add: kp(3))
    obtain d where d: "d \<in> set ds" "(n, r) \<in> set (dc_reductions d)" using r by auto
    then obtain i where i: "i < length (dc_reductions d)" "dc_reductions d ! i = (n, r)" by (auto simp: in_set_conv_nth)
    define x where "x = dc_piecewise d ! i"
    have x: "x \<in> set (dc_piecewise d)" "reduced lb kt k (rows_of lb ?keys (concat rss) k) x (n, r)"
      using list_all2_nthD2 [OF red [OF k' d(1)] i(1)] list_all2_lengthD [OF red [OF k' d(1)]] i by (simp_all add: x_def)
    obtain a where "x = (n, a)" using x(2) by (cases x) (simp add: reduced_def)
    moreover from this have "(n, a) \<in> set (concat (map dc_piecewise ds))" using x(1) d(1) by auto
    ultimately show ?thesis using x(2) unfolding reduced_def by auto
  qed
  have "distinct (map fst ?gk @ map fst (concat (map dc_reductions ds)))" unfolding names using dist by simp
  then obtain out where out: "group_by lb (dg_reduction dg) (concat ts) = Inr out"
    and tab: "group_table ?gk (gb_maintain_order ir) (keys_in lb ?gk (concat ts))
      (\<lambda>k p. \<forall>(n, r) \<in> set (concat (map dc_reductions ds)). \<exists>v. map_of p n = Some v
         \<and> (\<exists>a. (n, a) \<in> set (concat (map dc_piecewise ds)) \<and> agg_spec lb a (rows_of lb ?keys (concat rss) k) v)) out"
    using group_by_result [of lb "dg_reduction dg" "concat ts"
      "\<lambda>k n r v. \<exists>a. (n, a) \<in> set (concat (map dc_piecewise ds)) \<and> agg_spec lb a (rows_of lb ?keys (concat rss) k) v"]
      kp(1) lib(2) req unfolding dg(2-) kt_def by blast
  have hold: "holds lb d (rows_of lb ?keys (concat rss) k) p"
    if d: "d \<in> set ds" and p: "\<forall>(n, r) \<in> set (concat (map dc_reductions ds)). \<exists>v. map_of p n = Some v
         \<and> (\<exists>a. (n, a) \<in> set (concat (map dc_piecewise ds)) \<and> agg_spec lb a (rows_of lb ?keys (concat rss) k) v)" for d k p
    unfolding holds_def
  proof (clarify)
    fix n a
    assume a: "(n, a) \<in> set (dc_piecewise d)"
    then have "(n, a) \<in> set (concat (map dc_piecewise ds))" using d by auto
    then have "n \<in> set (piece_names ds)" by (force simp: piece_names_def)
    then have "n \<in> fst ` set (concat (map dc_reductions ds))" unfolding names [symmetric] by simp
    then obtain r where "(n, r) \<in> set (concat (map dc_reductions ds))" by force
    then obtain v b where "map_of p n = Some v" "(n, b) \<in> set (concat (map dc_piecewise ds))"
      "agg_spec lb b (rows_of lb ?keys (concat rss) k) v" using p by fastforce
    then show "part lb n a (rows_of lb ?keys (concat rss) k) p"
      using piece_unique [of ds n a b] dist \<open>(n, a) \<in> set (concat (map dc_piecewise ds))\<close> by (auto simp: part_def)
  qed
  have "stands lb ir (concat rss) out"
    unfolding stands_def
  proof (intro exI conjI)
    show "decompositions ir = Inr ds" by (rule ds)
    show "group_table ?keys (gb_maintain_order ir) (keys_in lb ?keys (concat rss))
      (\<lambda>k p. \<forall>d \<in> set ds. holds lb d (rows_of lb ?keys (concat rss) k) p) out"
      by (rule group_table_transfer [OF tab]) (use sk(1,2) hold in \<open>simp_all only: kp(3)\<close>, blast)
  qed
  then show ?thesis using out dg(1) by (simp add: reduction_def)
qed

end
