(* ===== verification/GroupSpec.thy ===== *)
theory GroupSpec
  imports GroupTable
begin

text \<open>
  The selection from a partial table is the requested group-by, and so is the group-by that is
  evaluated at once; for requests whose value does not depend on an unstable sort the two agree in
  every cell.
\<close>

section \<open>Selection\<close>

lemma select_row:
  assumes "\<And>n e. (n, e) \<in> set es \<Longrightarrow> eval lb p e = Inr (val n)" and "distinct (map fst es)"
  shows "rbind (rmap (\<lambda>(n, e). rbind (eval lb p e) (\<lambda>v. Inr (n, v))) es) (\<lambda>ps. Inr (dict_of ps)) = Inr (map (\<lambda>(n, e). (n, val n)) es)"
proof -
  have "rmap (\<lambda>(n, e). rbind (eval lb p e) (\<lambda>v. Inr (n, v))) es = Inr (map (\<lambda>(n, e). (n, val n)) es)"
    by (rule rmap_all_Inr) (auto simp: assms(1))
  moreover have "map fst (map (\<lambda>(n, e). (n, val n)) es) = map fst es" by auto
  then have "distinct (map fst (map (\<lambda>(n, e). (n, val n)) es))" using assms(2) by metis
  then have "dict_of (map (\<lambda>(n, e). (n, val n)) es) = map (\<lambda>(n, e). (n, val n)) es" by (rule dict_of_distinct)
  ultimately show ?thesis by simp
qed

lemma map_of_select: "n \<in> fst ` set es \<Longrightarrow> map_of (map (\<lambda>(n, e). (n, val n)) es) n = Some (val n)"
  by (induction es) auto

lemma selections_of:
  assumes each: "list_all2 (\<lambda>(n, e) d. \<exists>i j. decompose prefix n e i = Inr (d, j)) aggs ds"
    and holds: "\<forall>d \<in> set ds. holds lb d rs p" and ok: "\<forall>(n, e) \<in> set aggs. agg_ok lb e rs"
  shows "list_all2 (\<lambda>(n, e) (m, s). n = m \<and> (\<exists>v. eval lb p s = Inr v \<and> agg_spec lb e rs v)) aggs (concat (map dc_selections ds))"
  using assms
proof (induction rule: list_all2_induct)
  case (Cons ne aggs d ds)
  then obtain n e i j where "ne = (n, e)" "decompose prefix n e i = Inr (d, j)" by auto
  then show ?case using Cons selection_phase [of prefix n e i d j lb rs p] by auto
qed simp

lemma selection_spec:
  assumes ok: "ir_ok lb ir" "rows_ok lb ir rs" and st: "stands lb ir rs t"
  shows "\<exists>out. selection lb ir t = Inr out \<and> group_spec lb ir rs out"
proof -
  let ?keys = "gb_keys ir"
  obtain ds where ds: "decompositions ir = Inr ds"
    and each: "list_all2 (\<lambda>(n, e) d. \<exists>i j. decompose (unique_prefix (gb_schema ir)) n e i = Inr (d, j)) (gb_aggs ir) ds"
    by (rule ir_decompositions [OF ok(1)])
  obtain dg where dg: "from_ir ir = Inr dg" "dg_select dg = groupby_keys ?keys @ concat (map dc_selections ds)"
    by (rule from_ir_fields [OF ds])
  define es where "es = groupby_keys ?keys @ concat (map dc_selections ds)"
  have tab: "group_table ?keys (gb_maintain_order ir) (keys_in lb ?keys rs)
      (\<lambda>k p. \<forall>d \<in> set ds. holds lb d (rows_of lb ?keys rs k) p) t"
    using st by (auto simp: stands_def ds)
  have sch: "distinct (map fst ?keys @ map fst (gb_aggs ir))" using ok(1) unfolding ir_ok_def by metis
  define row where "row p = map (\<lambda>(n, e). (n, case eval lb p (the (map_of es n)) of Inl _ \<Rightarrow> None | Inr v \<Rightarrow> v)) es" for p
  have row: "rbind (rmap (\<lambda>(n, e). rbind (eval lb p e) (\<lambda>v. Inr (n, v))) es) (\<lambda>ps. Inr (dict_of ps)) = Inr (row p)
      \<and> row_key ?keys (row p) = row_key ?keys p \<and> (\<forall>n \<in> fst ` set ?keys. map_of (row p) n \<noteq> None)
      \<and> (\<forall>(n, e) \<in> set (gb_aggs ir). part lb n e (rows_of lb ?keys rs (row_key ?keys p)) (row p))" if p: "p \<in> set t" for p
  proof -
    define k where "k = row_key ?keys p"
    have h: "\<forall>d \<in> set ds. holds lb d (rows_of lb ?keys rs k) p" and pr: "\<forall>n \<in> fst ` set ?keys. map_of p n \<noteq> None"
      and kk: "k \<in> set (keys_in lb ?keys rs)"
      using tab p by (auto simp: group_table_def k_def)
    have "\<forall>(n, e) \<in> set (gb_aggs ir). agg_ok lb e (rows_of lb ?keys rs k)" using ok(2) kk by (auto simp: rows_ok_def)
    note sels = selections_of [OF each h this]
    have names: "map fst (concat (map dc_selections ds)) = map fst (gb_aggs ir)"
      using sels by (induction rule: list_all2_induct) auto
    have fes: "map fst es = map fst ?keys @ map fst (gb_aggs ir)" by (simp only: es_def map_append map_fst_groupby_keys names)
    have de: "distinct (map fst es)" using sch by (simp only: fes)
    have sel_eval: "\<exists>v. eval lb p e = Inr v" if "(n, e) \<in> set (concat (map dc_selections ds))" for n e
      using sels that by (induction rule: list_all2_induct) auto
    have key_eval: "\<exists>v. eval lb p e = Inr v" if "(n, e) \<in> set (groupby_keys ?keys)" for n e
      using that pr by (auto simp: groupby_keys_def)
    have ev: "eval lb p e = Inr (case eval lb p (the (map_of es n)) of Inl _ \<Rightarrow> None | Inr v \<Rightarrow> v)" if e: "(n, e) \<in> set es" for n e
    proof -
      have "map_of es n = Some e" using e de by (simp add: map_of_is_SomeI)
      moreover have "\<exists>v. eval lb p e = Inr v" using e sel_eval key_eval by (auto simp: es_def)
      ultimately show ?thesis by auto
    qed
    have r: "rbind (rmap (\<lambda>(n, e). rbind (eval lb p e) (\<lambda>v. Inr (n, v))) es) (\<lambda>ps. Inr (dict_of ps)) = Inr (row p)"
      unfolding row_def by (rule select_row [OF ev de])
    have at: "map_of (row p) n = Some v" if "(n, e) \<in> set es" "eval lb p e = Inr v" for n e v
    proof -
      have "n \<in> fst ` set es" using that(1) by force
      then have "map_of (row p) n = Some (case eval lb p (the (map_of es n)) of Inl _ \<Rightarrow> None | Inr v \<Rightarrow> v)"
        unfolding row_def by (rule map_of_select)
      then show ?thesis using ev [OF that(1)] that(2) by simp
    qed
    have keycol: "map_of (row p) n = map_of p n" if "n \<in> fst ` set ?keys" for n
    proof -
      obtain e where e: "(n, e) \<in> set ?keys" using \<open>n \<in> fst ` set ?keys\<close> by force
      obtain v where "map_of p n = Some v" using pr \<open>n \<in> fst ` set ?keys\<close> by force
      moreover have "(n, Col (dtype_of e) n) \<in> set es" using e by (force simp: es_def groupby_keys_def)
      ultimately show ?thesis using at by force
    qed
    have "(case map_of (row p) n of None \<Rightarrow> None | Some c \<Rightarrow> c) = (case map_of p n of None \<Rightarrow> None | Some c \<Rightarrow> c)"
      if "(n, e) \<in> set ?keys" for n e using keycol [of n] that by force
    then have "row_key ?keys (row p) = k" unfolding row_key_def k_def by (intro map_cong) auto
    moreover have "\<forall>n \<in> fst ` set ?keys. map_of (row p) n \<noteq> None" using keycol pr by simp
    moreover have "part lb n e (rows_of lb ?keys rs k) (row p)" if ne: "(n, e) \<in> set (gb_aggs ir)" for n e
    proof -
      obtain i where i: "i < length (gb_aggs ir)" "gb_aggs ir ! i = (n, e)" using ne by (auto simp: in_set_conv_nth)
      obtain m s where ms: "concat (map dc_selections ds) ! i = (m, s)" by (cases "concat (map dc_selections ds) ! i")
      have "n = m \<and> (\<exists>v. eval lb p s = Inr v \<and> agg_spec lb e (rows_of lb ?keys rs k) v)"
        using list_all2_nthD [OF sels i(1)] i(2) ms by simp
      moreover have "(m, s) \<in> set (concat (map dc_selections ds))"
        using i(1) ms list_all2_lengthD [OF sels] by (metis nth_mem)
      then have "(m, s) \<in> set es" by (simp add: es_def)
      ultimately show ?thesis using at by (auto simp: part_def)
    qed
    ultimately show ?thesis using r by (auto simp flip: k_def)
  qed
  have "select lb es t = Inr (map row t)"
    unfolding select_def by (rule rmap_all_Inr) (use row in blast)
  moreover have "group_spec lb ir rs (map row t)"
  proof -
    have "map (row_key ?keys) (map row t) = map (row_key ?keys) t" using row by simp
    then show ?thesis using tab row unfolding group_spec_def group_table_def by (auto simp del: map_map)
  qed
  ultimately show ?thesis using dg by (simp add: selection_def es_def)
qed

section \<open>The group-by at once\<close>

lemma agg_total:
  assumes "agg_ok lb (Agg t a opt e) rs" and "rs \<noteq> []"
  shows "\<exists>v. agg_value lb t a opt e rs = Inr v \<and> agg_spec lb (Agg t a opt e) rs v"
proof -
  have ty: "typed lb e rs" using assms by simp
  show ?thesis
  proof (cases "gb_agg_reduction a")
    case (Some f)
    show ?thesis
    proof (cases "a = AggCount")
      case True
      then show ?thesis using count_value [OF ty] by simp
    next
      case False
      then show ?thesis using plain_request [OF assms(1) Some assms(2)] by simp
    qed
  next
    case None
    show ?thesis
    proof (cases "a = AggMean")
      case True
      then have "numeric (dtype_of e) (cells lb e rs)" using assms by simp
      then show ?thesis using mean_numeric [of "dtype_of e" "cells lb e rs"] True by (simp add: typed_agg [OF ty])
    next
      case False
      then obtain d where d: "opt = Ddof d" "a = AggStd \<or> a = AggVar"
        using assms None by (cases "(t, a, opt, dtype_of e, cells lb e rs)" rule: agg_typed.cases) auto
      have "numeric (dtype_of e) (cells lb e rs)" "dtype_of e = f64 \<or> small_squares (cells lb e rs)"
        using assms d by auto
      then have "variance_valid d (valid (cells lb e rs)) = Inr (variance_of d (numbers (cells lb e rs)))"
        by (rule variance_valid_numeric)
      then show ?thesis using d by (auto simp: typed_agg [OF ty])
    qed
  qed
qed

lemma request_spec:
  assumes ok: "groups_ok lb e kt" and lib: "sort_ok lb" and k: "k \<in> fst ` set kt"
  shows "\<exists>v. request_value lb kt e k = Inr v \<and> agg_spec lb e (group kt k) v"
proof -
  have ne: "group kt k \<noteq> []" and okk: "agg_ok lb e (group kt k)" and kt: "kt \<noteq> []"
    and len: "\<forall>p \<in> set kt. length (fst p) = length (lb_key_flags lb)"
    using k ok group_self [of _ kt] by (fastforce simp: groups_ok_def)+
  show ?thesis
  proof (cases e)
    case (Agg t a opt c)
    then show ?thesis using agg_total [of lb t a opt c "group kt k"] okk ne by simp
  next
    case (SortedAgg t a so c bs)
    have "agg_ok lb (SortedAgg t a so c bs) (map snd kt)"
      by (rule groups_ok_sorted [OF ok [unfolded SortedAgg] kt]) simp
    then show ?thesis using sorted_request [OF _ lib len ne] by (simp add: SortedAgg)
  qed (use okk in simp_all)
qed

lemma direct_spec:
  assumes ok: "ir_ok lb ir" "rows_ok lb ir rs"
  shows "\<exists>out. group_by lb ir rs = Inr out \<and> group_spec lb ir rs out"
proof -
  have keys: "keys_ok lb (gb_keys ir) rs" using ok(2) by (simp add: rows_ok_def)
  have sch: "distinct (map fst (gb_keys ir) @ map fst (gb_aggs ir))" using ok(1) unfolding ir_ok_def by metis
  have lib: "sort_ok lb" "order_ok lb" "gb_zlice ir = None" using ok(1) by (simp_all add: ir_ok_def library_ok_def)
  have kl: "length (fst p) = length (lb_key_flags lb)" if p: "p \<in> set (keyed lb (gb_keys ir) rs)" for p
  proof -
    obtain r where r: "r \<in> set rs" "fst p = the_key lb (gb_keys ir) r" using p by (auto simp: keyed_def)
    then have "\<exists>k. key_of lb (gb_keys ir) r = Inr k" using keys by (simp add: keys_ok_def)
    then have "length (fst p) = length (gb_keys ir)" unfolding r(2) by (rule length_key [OF key_of_the_key])
    then show ?thesis using ok(1) by (simp add: ir_ok_def)
  qed
  have req: "\<exists>v. request_value lb (keyed lb (gb_keys ir) rs) e k = Inr v \<and> agg_spec lb e (rows_of lb (gb_keys ir) rs k) v"
    if k: "k \<in> set (keys_in lb (gb_keys ir) rs)" and e: "(n, e) \<in> set (gb_aggs ir)" for k n e
  proof -
    have "groups_ok lb e (keyed lb (gb_keys ir) rs)"
      using ok(2) e kl keys_in_keyed [OF keys] by (fastforce simp: groups_ok_def group_keyed [OF keys] rows_ok_def)
    moreover have "k \<in> fst ` set (keyed lb (gb_keys ir) rs)" using k by (simp add: keys_in_keyed [OF keys])
    ultimately have "\<exists>v. request_value lb (keyed lb (gb_keys ir) rs) e k = Inr v
        \<and> agg_spec lb e (group (keyed lb (gb_keys ir) rs) k) v"
      using request_spec [OF _ lib(1)] by blast
    then show ?thesis by (simp add: group_keyed [OF keys])
  qed
  show ?thesis
    using group_by_result [OF keys sch lib(2,3), of "\<lambda>k n e v. agg_spec lb e (rows_of lb (gb_keys ir) rs k) v"] req
    by (simp add: group_spec_def part_def)
qed

section \<open>Requests with one right value\<close>

text \<open>Requests whose value is the same for any arithmetic of the floats and any order of the rows of a
  group that is allowed.  \<open>item\<close> picks the row of a group of one row, and an unstable sorted aggregation
  may pick any of the tied rows; a sum of floats, a mean, a deviation and a variance are rounded in
  the order in which chunks are added.\<close>

fun determined :: "'f expr \<Rightarrow> bool" where
  "determined (Agg t a opt e) \<longleftrightarrow>
     a \<in> set [AggMin, AggMax, AggCount, AggNUnique, AggFirst, AggFirstNonNull, AggLast] \<or> a = AggSum \<and> t \<noteq> FloatT"
| "determined (SortedAgg t a so e bs) \<longleftrightarrow> so_stable so"
| "determined _ \<longleftrightarrow> True"

lemma selected_unique:
  assumes st: "so_stable so" and a: "a = AggFirst \<or> a = AggLast"
    and l: "length (so_nulls_last so) = length bs" "length (so_descending so) = length bs"
    and evals: "\<forall>s \<in> set rs. \<forall>d \<in> set bs. \<exists>c. eval lb s d = Inr c"
    and one: "rs = b @ r # c" "selected lb a so bs b r c" and two: "rs = b' @ r' # c'" "selected lb a so bs b' r' c'"
  shows "length b = length b' \<and> r = r'"
proof -
  define fs where "fs = sort_flags so (length bs)"
  have len: "\<forall>s \<in> set rs. length (by_tuple lb bs s) = length fs"
    using evals by (simp add: by_tuple_length fs_def sort_flags_length [OF l])
  have no: "\<not> length x < length y" if "rs = x @ u # z" "selected lb a so bs x u z" "rs = y @ w # q" "selected lb a so bs y w q" for x u z y w q
  proof
    assume less: "length x < length y"
    have tie: "by_tuple lb bs u = by_tuple lb bs w" by (rule selected_tie [OF that fs_def len])
    have "u = rs ! length x" "w = rs ! length y" using that(1) nth_append_length [of x u z] that(3) nth_append_length [of y w q] by simp_all
    have "y ! length x = u" using that(1,3) less by (metis nth_append nth_append_length)
    then have uy: "u \<in> set y" using less nth_mem by metis
    have "z ! (length y - Suc (length x)) = w"
    proof -
      have "rs ! length y = (u # z) ! (length y - length x)" using that(1) less by (simp add: nth_append)
      then show ?thesis using less \<open>w = rs ! length y\<close> by (simp add: nth_Cons')
    qed
    moreover have "length y - Suc (length x) < length z"
      using that(1,3) less by (auto dest!: arg_cong [where f = length])
    ultimately have wz: "w \<in> set z" using nth_mem by metis
    show False
      using a that(2,4) uy wz tie st nullable.tuple_irrefl [of fs "by_tuple lb bs w"]
      by (auto simp: selected_def Let_def list_all_iff beats_def tuple_beats_def simp flip: fs_def)
  qed
  have "length b = length b'" using no [OF one two] no [OF two one] by simp
  then show ?thesis using one(1) two(1) by simp
qed

lemma determined_unique:
  assumes "determined e" and "agg_ok lb e rs" and "agg_spec lb e rs v" and "agg_spec lb e rs w"
  shows "v = w"
proof (cases e)
  case (SortedAgg t a so c bs)
  obtain b r d where one: "rs = b @ r # d" "selected lb a so bs b r d" "eval lb r c = Inr v"
    using assms(3) by (auto simp: SortedAgg)
  obtain b' r' d' where two: "rs = b' @ r' # d'" "selected lb a so bs b' r' d'" "eval lb r' c = Inr w"
    using assms(4) by (auto simp: SortedAgg)
  have "length b = length b' \<and> r = r'"
    by (rule selected_unique [OF _ _ _ _ _ one(1,2) two(1,2)]) (use assms(1,2) SortedAgg in auto)
  then show ?thesis using one(3) two(3) by simp
qed (use assms in auto)

lemma group_specD:
  assumes "group_spec lb ir rs out" and "p \<in> set out" and "(n, e) \<in> set (gb_aggs ir)"
  shows "row_key (gb_keys ir) p \<in> set (keys_in lb (gb_keys ir) rs)"
    and "part lb n e (rows_of lb (gb_keys ir) rs (row_key (gb_keys ir) p)) p"
proof -
  have "set (map (row_key (gb_keys ir)) out) = set (keys_in lb (gb_keys ir) rs)"
    using assms(1) by (simp only: group_spec_def group_table_def)
  then show "row_key (gb_keys ir) p \<in> set (keys_in lb (gb_keys ir) rs)" using assms(2) by auto
  have "\<forall>(n, e) \<in> set (gb_aggs ir). part lb n e (rows_of lb (gb_keys ir) rs (row_key (gb_keys ir) p)) p"
    using assms(1,2) unfolding group_spec_def group_table_def by blast
  then show "part lb n e (rows_of lb (gb_keys ir) rs (row_key (gb_keys ir) p)) p" using assms(3) by blast
qed

lemma group_spec_agree:
  assumes "rows_ok lb ir rs" and "group_spec lb ir rs out" and "group_spec lb ir rs out'"
    and "p \<in> set out" "q \<in> set out'" "row_key (gb_keys ir) p = row_key (gb_keys ir) q"
    and "(n, e) \<in> set (gb_aggs ir)" "determined e"
  shows "map_of p n = map_of q n"
proof -
  define k where "k = row_key (gb_keys ir) p"
  have "part lb n e (rows_of lb (gb_keys ir) rs k) p" "part lb n e (rows_of lb (gb_keys ir) rs k) q"
    and "k \<in> set (keys_in lb (gb_keys ir) rs)"
    using group_specD [OF assms(2,4,7)] group_specD [OF assms(3,5,7)] assms(6) by (simp_all add: k_def)
  moreover from this(3) have "agg_ok lb e (rows_of lb (gb_keys ir) rs k)"
    using assms(1,7) by (auto simp: rows_ok_def)
  ultimately show ?thesis using determined_unique [OF assms(8)] by (auto simp: part_def)
qed

end
