(* ===== verification/GroupPerm.thy ===== *)
theory GroupPerm
  imports GroupSpec "HOL-Library.Multiset"
begin

text \<open>
  The order of the rows does not matter to a group-by that keeps no order: a shuffle may deliver the
  partial tables in any order.
\<close>

section \<open>Aggregations of cells in another order\<close>

fun order_free :: "'f expr \<Rightarrow> bool" where
  "order_free (Agg t a opt e) \<longleftrightarrow> a \<noteq> AggFirst \<and> a \<noteq> AggLast \<and> a \<noteq> AggFirstNonNull"
| "order_free (SortedAgg t a so e bs) \<longleftrightarrow> \<not> so_stable so"
| "order_free e \<longleftrightarrow> True"

lemma mset_map_eq: "mset xs = mset ys \<Longrightarrow> mset (map f xs) = mset (map f ys)"
  by simp

lemma mset_concat_map: "mset (concat (map f xs)) = sum_mset (image_mset (\<lambda>x. mset (f x)) (mset xs))"
  by (induction xs) simp_all

lemma mset_valid: "mset vs = mset ws \<Longrightarrow> mset (valid vs) = mset (valid ws)"
  by (simp add: valid_def mset_concat_map)

lemma sum_list_perm: "mset xs = mset ys \<Longrightarrow> sum_list xs = (sum_list ys :: 'a::comm_monoid_add)"
  by (simp flip: sum_mset_sum_list)

lemma sum_map_perm: "mset xs = mset ys \<Longrightarrow> sum_list (map f xs) = (sum_list (map f ys) :: 'a::comm_monoid_add)"
  by (rule sum_list_perm) simp

lemma those_map: "those (map f xs) = (if \<forall>x \<in> set xs. f x \<noteq> None then Some (map (\<lambda>x. the (f x)) xs) else None)"
  by (induction xs) (auto split: option.splits)

lemma those_case:
  "(case those (map f xs) of None \<Rightarrow> z | Some ns \<Rightarrow> g ns)
   = (if \<forall>x \<in> set xs. f x \<noteq> None then g (map (\<lambda>x. the (f x)) xs) else z)"
  unfolding those_map by (rule if_split [THEN iffD2]) auto

lemma set_perm: "mset xs = mset ys \<Longrightarrow> set xs = set ys" and length_perm: "mset xs = mset ys \<Longrightarrow> length xs = length ys"
  using mset_eq_setD mset_eq_length by blast+

lemma nil_perm: "mset xs = mset ys \<Longrightarrow> xs = [] \<longleftrightarrow> ys = []"
  using length_perm by fastforce

lemma sum_valid_perm:
  assumes "mset as = mset bs"
  shows "sum_valid as = sum_valid bs"
  unfolding sum_valid_def those_case set_perm [OF assms] nil_perm [OF assms] sum_map_perm [OF assms] by (rule refl)

lemma m2_valid_perm: "mset as = mset bs \<Longrightarrow> m2_valid as = m2_valid bs"
  using sum_valid_perm [of as bs] sum_valid_perm [of "map square as" "map square bs"] nil_perm [of as bs] length_perm [of as bs]
  by (simp add: m2_valid_def)

lemma aggregate_perm:
  assumes "mset vs = mset ws"
    and "a \<in> {AggMin, AggMax, AggSum, AggCount, AggNUnique, AggMean} \<or> a \<in> {AggStd, AggVar} \<and> opt = Ddof d"
  shows "aggregate lb a opt vs = aggregate lb a opt ws"
proof -
  note v = mset_valid [OF assms(1)]
  show ?thesis
    using assms(2) sum_valid_perm [OF v] m2_valid_perm [OF v] set_perm [OF v] nil_perm [OF v] length_perm [OF v]
      set_perm [OF assms(1)] length_perm [OF assms(1)]
    by (auto simp: extreme_def count_cells_def unique_cells_def mean_valid_def variance_valid_def)
qed

section \<open>Requests on rows in another order\<close>

lemma mset_cells: "mset rs = mset ss \<Longrightarrow> mset (cells lb e rs) = mset (cells lb e ss)"
  by (simp add: cells_def)

lemma typed_perm: "mset rs = mset ss \<Longrightarrow> typed lb e rs = typed lb e ss"
  using set_perm [of rs ss] by (simp add: typed_def)

lemma agg_typed_perm: "agg_typed t a opt u vs \<Longrightarrow> mset vs = mset ws \<Longrightarrow> agg_typed t a opt u ws"
proof -
  assume vs: "mset vs = mset ws"
  note v = mset_valid [OF vs]
  have "numeric u vs = numeric u ws" "small_squares vs = small_squares ws"
    by (simp_all add: numeric_def no_overflow_def small_squares_def all_ints_def all_flts_def set_perm [OF v] sum_map_perm [OF v])
  then show "agg_typed t a opt u vs \<Longrightarrow> agg_typed t a opt u ws"
    using length_perm [OF vs] by (cases "(t, a, opt, u, vs)" rule: agg_typed.cases) auto
qed

lemma agg_ok_perm: "agg_ok lb e rs \<Longrightarrow> mset rs = mset ss \<Longrightarrow> agg_ok lb e ss"
proof -
  assume p: "mset rs = mset ss"
  show "agg_ok lb e rs \<Longrightarrow> agg_ok lb e ss"
    using set_perm [OF p] length_perm [OF p] typed_perm [OF p] agg_typed_perm [OF _ mset_cells [OF p]]
    by (cases "(lb, e, rs)" rule: agg_ok.cases) auto
qed

lemma selected_perm:
  assumes "mset rs = mset ss" and "rs = before @ r # after" and "selected lb a so bs before r after" and "\<not> so_stable so"
  obtains b c where "ss = b @ r # c" "selected lb a so bs b r c"
proof -
  have "r \<in> set ss" using assms(2) set_perm [OF assms(1)] by auto
  then obtain b c where bc: "ss = b @ r # c" by (meson split_list)
  have "mset (b @ c) = mset (before @ after)" using assms(1) by (simp add: assms(2) bc)
  then have "set b \<union> set c = set before \<union> set after" using set_perm [of "b @ c" "before @ after"] by simp
  then have "selected lb a so bs b r c"
    using assms(3,4) unfolding selected_def Let_def list_all_iff by auto
  then show thesis by (rule that [OF bc])
qed

lemma agg_spec_perm:
  assumes ok: "agg_ok lb e rs" and free: "order_free e" and p: "mset rs = mset ss" and spec: "agg_spec lb e rs v"
  shows "agg_spec lb e ss v"
proof (cases e)
  case (Len t)
  then show ?thesis using spec length_perm [OF p] by simp
next
  case (Agg t a opt c)
  have ty: "typed lb c rs" "typed lb c ss" "agg_typed t a opt (dtype_of c) (cells lb c rs)"
    using ok typed_perm [OF p] by (simp_all add: Agg)
  show ?thesis
  proof (cases "a = AggItem")
    case True
    then show ?thesis using spec set_perm [OF p] by (simp add: Agg)
  next
    case False
    have "a \<in> {AggMin, AggMax, AggSum, AggCount, AggNUnique, AggMean} \<or> (\<exists>d. a \<in> {AggStd, AggVar} \<and> opt = Ddof d)"
      using ty(3) free False by (cases "(t, a, opt, dtype_of c, cells lb c rs)" rule: agg_typed.cases) (auto simp: Agg)
    then have "aggregate lb a opt (cells lb c rs) = aggregate lb a opt (cells lb c ss)"
      using aggregate_perm [OF mset_cells [OF p]] by blast
    then show ?thesis using spec ty by (simp add: Agg False typed_agg)
  qed
next
  case (SortedAgg t a so c bs)
  obtain b r d where s: "rs = b @ r # d" "selected lb a so bs b r d" "eval lb r c = Inr v" using spec by (auto simp: SortedAgg)
  have "\<not> so_stable so" using free by (simp add: SortedAgg)
  then obtain b' d' where "ss = b' @ r # d'" "selected lb a so bs b' r d'" by (rule selected_perm [OF p s(1,2)])
  then show ?thesis using s(3) by (auto simp: SortedAgg)
qed (use spec in simp_all)

section \<open>Tables of rows in another order\<close>

lemma keys_in_mset: "mset rs = mset ss \<Longrightarrow> mset (keys_in lb keys rs) = mset (keys_in lb keys ss)"
  by (simp add: keys_in_def mset_concat_map)

lemma rows_of_mset: "mset rs = mset ss \<Longrightarrow> mset (rows_of lb keys rs k) = mset (rows_of lb keys ss k)"
  by (simp add: rows_of_def)

lemma rows_ok_perm: "rows_ok lb ir rs \<Longrightarrow> mset rs = mset ss \<Longrightarrow> rows_ok lb ir ss"
proof -
  assume p: "mset rs = mset ss" and ok: "rows_ok lb ir rs"
  have "agg_ok lb e (rows_of lb (gb_keys ir) ss k)" if "k \<in> set (keys_in lb (gb_keys ir) ss)" "(n, e) \<in> set (gb_aggs ir)" for k n e
  proof (rule agg_ok_perm)
    show "agg_ok lb e (rows_of lb (gb_keys ir) rs k)"
      using ok that set_perm [OF keys_in_mset [OF p]] by (fastforce simp: rows_ok_def)
  qed (rule rows_of_mset [OF p])
  moreover have "keys_ok lb (gb_keys ir) ss" using ok set_perm [OF p] by (simp add: rows_ok_def keys_ok_def)
  ultimately show "rows_ok lb ir ss" unfolding rows_ok_def by blast
qed

lemma group_spec_perm:
  assumes ok: "rows_ok lb ir rs" and free: "\<forall>(n, e) \<in> set (gb_aggs ir). order_free e" and m: "\<not> gb_maintain_order ir"
    and p: "mset rs = mset ss" and spec: "group_spec lb ir rs out"
  shows "group_spec lb ir ss out"
proof -
  have part: "part lb n e (rows_of lb (gb_keys ir) ss k) q"
    if ne: "(n, e) \<in> set (gb_aggs ir)" and q: "part lb n e (rows_of lb (gb_keys ir) rs k) q" and k: "k \<in> set (keys_in lb (gb_keys ir) rs)" for n e k q
  proof -
    have "agg_ok lb e (rows_of lb (gb_keys ir) rs k)" "order_free e" using ok free ne k by (fastforce simp: rows_ok_def)+
    then show ?thesis using agg_spec_perm [OF _ _ rows_of_mset [OF p]] q by (auto simp: part_def)
  qed
  have ks: "set (keys_in lb (gb_keys ir) rs) = set (keys_in lb (gb_keys ir) ss)" by (rule set_perm [OF keys_in_mset [OF p]])
  have each: "\<forall>(n, e) \<in> set (gb_aggs ir). part lb n e (rows_of lb (gb_keys ir) ss (row_key (gb_keys ir) q)) q" if "q \<in> set out" for q
    using group_specD [OF spec that] part by blast
  show ?thesis
    using spec m each unfolding group_spec_def group_table_def ks by blast
qed

end
