(* ===== verification/PartialAggregation.thy ===== *)
theory PartialAggregation
  imports Prelude
begin

text \<open>
  Aggregation of a stream of chunks by partial tables, as the streaming engine does it for
  group-bys (\<open>streaming/actor_graph/groupby.py\<close>, \<open>actor_graph/repartition.py\<close> and the tree of
  \<open>streaming/groupby.py\<close>): the loop that reduces what it has buffered when it grows too large and
  that may stop early, the rounds of the loop until the input is drained, and the tree of
  repartitions and reductions.  The evaluations of a chunk are arguments; the locale states what
  they promise, and what the loops make of it.
\<close>

type_synonym 'r chunk = "'r list"

type_synonym 'r evaluation = "'r chunk \<Rightarrow> 'r chunk res"

section \<open>Local aggregation\<close>

text \<open>\<open>evaluate_batch\<close>: the chunks are concatenated and evaluated.\<close>

definition evaluate_batch :: "'r evaluation \<Rightarrow> 'r chunk list \<Rightarrow> 'r chunk res" where
  "evaluate_batch ev batch = ev (concat batch)"

text \<open>The result of \<open>_local_aggregation\<close>, and the part of the input that is still in the channel.\<close>

record 'r aggregation =
  ag_chunk :: "'r chunk"
  ag_drained :: bool
  ag_received :: nat
  ag_rest :: "'r chunk list"

fun aggregate_loop ::
  "('r chunk \<Rightarrow> nat) \<Rightarrow> 'r evaluation \<Rightarrow> 'r evaluation \<Rightarrow> nat \<Rightarrow> bool \<Rightarrow> 'r chunk list \<Rightarrow> nat \<Rightarrow> nat
   \<Rightarrow> 'r chunk list \<Rightarrow> ('r chunk list \<times> bool \<times> nat \<times> 'r chunk list) res" where
  "aggregate_loop alloc piece reduce target early evaluated total_size received [] = Inr (evaluated, True, received, [])"
| "aggregate_loop alloc piece reduce target early evaluated total_size received (msg # ch) =
     rbind (piece msg) (\<lambda>chunk.
     let total_size = total_size + alloc chunk; evaluated = evaluated @ [chunk]
     in rbind (if total_size > target \<and> length evaluated > 1
               then rbind (evaluate_batch reduce evaluated) (\<lambda>t. Inr ([t], alloc t))
               else Inr (evaluated, total_size)) (\<lambda>(evaluated, total_size).
        if total_size > target \<and> early then Inr (evaluated, False, received + 1, ch)
        else aggregate_loop alloc piece reduce target early evaluated total_size (received + 1) ch))"

definition local_aggregation ::
  "('r chunk \<Rightarrow> nat) \<Rightarrow> 'r evaluation \<Rightarrow> 'r evaluation \<Rightarrow> nat \<Rightarrow> bool \<Rightarrow> 'r chunk list \<Rightarrow> 'r aggregation res" where
  "local_aggregation alloc piece reduce target early ch_in =
     rbind (aggregate_loop alloc piece reduce target early [] 0 0 ch_in) (\<lambda>(evaluated, drained, received, rest).
     rbind (if length evaluated > 1 then evaluate_batch reduce evaluated
            else case evaluated of t # _ \<Rightarrow> Inr t | [] \<Rightarrow> Inr []) (\<lambda>t.
       Inr \<lparr>ag_chunk = t, ag_drained = drained, ag_received = received, ag_rest = rest\<rparr>))"

lemma aggregate_loop_progress:
  "aggregate_loop alloc piece reduce target early evaluated total_size received ch = Inr (ev, drained, n, rest)
   \<Longrightarrow> (drained \<and> rest = []) \<or> (\<not> drained \<and> length rest < length ch)"
proof (induction ch arbitrary: evaluated total_size received)
  case (Cons msg ch)
  obtain chunk where c: "piece msg = Inr chunk" using Cons.prems by (auto simp: res_simps)
  obtain ev' tot' where
    "(if total_size + alloc chunk > target \<and> length (evaluated @ [chunk]) > 1
      then rbind (evaluate_batch reduce (evaluated @ [chunk])) (\<lambda>t. Inr ([t], alloc t))
      else Inr (evaluated @ [chunk], total_size + alloc chunk)) = Inr (ev', tot')"
    and r: "(if tot' > target \<and> early then Inr (ev', False, received + 1, ch)
        else aggregate_loop alloc piece reduce target early ev' tot' (received + 1) ch) = Inr (ev, drained, n, rest)"
    using Cons.prems by (auto simp: res_simps c Let_def simp del: aggregate_loop.simps(1))
  show ?case
  proof (cases "tot' > target \<and> early")
    case False
    then show ?thesis using Cons.IH [of ev' tot' "received + 1"] r by auto
  qed (use r in auto)
qed simp

lemma local_aggregation_progress:
  "local_aggregation alloc piece reduce target early ch = Inr a
   \<Longrightarrow> (ag_drained a \<and> ag_rest a = []) \<or> (\<not> ag_drained a \<and> length (ag_rest a) < length ch)"
  by (auto simp: local_aggregation_def res_simps dest: aggregate_loop_progress)

text \<open>The rounds of \<open>_shuffle_reduce\<close> and \<open>_send_locally_aggregated_chunks\<close>: what is received after
  an early exit is aggregated in further rounds, until the input is drained.\<close>

lemma rbind_cong [fundef_cong]:
  "m = m' \<Longrightarrow> (\<And>x. m' = Inr x \<Longrightarrow> f x = g x) \<Longrightarrow> rbind m f = rbind m' g"
  by (cases m') auto

function aggregate_rounds ::
  "('r chunk \<Rightarrow> nat) \<Rightarrow> 'r evaluation \<Rightarrow> 'r evaluation \<Rightarrow> nat \<Rightarrow> bool \<Rightarrow> 'r chunk list \<Rightarrow> 'r chunk list res" where
  "aggregate_rounds alloc piece reduce target drained ch =
     (if drained then Inr []
      else rbind (local_aggregation alloc piece reduce target True ch) (\<lambda>a.
           rbind (aggregate_rounds alloc piece reduce target (ag_drained a) (ag_rest a)) (\<lambda>ts. Inr (ag_chunk a # ts))))"
  by pat_completeness auto
termination
  by (relation "measure (\<lambda>(alloc, piece, reduce, target, drained, ch). if drained then 0 else Suc (length ch))")
    (auto dest: local_aggregation_progress)

declare aggregate_rounds.simps [simp del]


section \<open>Repartitioning\<close>

fun batches :: "nat \<Rightarrow> 'a list \<Rightarrow> 'a list list" where
  "batches n xs = (if xs = [] \<or> n = 0 then [] else take n xs # batches n (drop n xs))"

declare batches.simps [simp del]

definition ceil_div :: "nat \<Rightarrow> nat \<Rightarrow> nat" where
  "ceil_div m n = (m + n - 1) div n"

definition local_output_count :: "nat \<Rightarrow> bool \<Rightarrow> nat \<Rightarrow> nat" where
  "local_output_count nranks duplicated output_count =
     (if duplicated then output_count
      else if output_count = 1 \<and> nranks > 1 then 1
      else max 1 (ceil_div output_count nranks))"

definition max_chunks :: "nat \<Rightarrow> nat \<Rightarrow> nat option" where
  "max_chunks output_chunks local_count =
     (if output_chunks > 1 then Some (max 2 (ceil_div local_count output_chunks)) else None)"

definition concatenated :: "nat option \<Rightarrow> 'r chunk list \<Rightarrow> 'r chunk list" where
  "concatenated limit chunks =
     map concat (case limit of None \<Rightarrow> if chunks = [] then [] else [chunks] | Some n \<Rightarrow> batches n chunks)"

text \<open>A channel of every rank, with the local counts of the ranks and the metadata they share.\<close>

record 'r stream =
  st_local_counts :: "nat list"
  st_duplicated :: bool
  st_ranks :: "'r chunk list list"

definition concatenate_node :: "nat \<Rightarrow> 'r stream \<Rightarrow> 'r stream" where
  "concatenate_node output_count s =
     (let nranks = length (st_ranks s);
          loc = local_output_count nranks (st_duplicated s) output_count
      in if nranks > 1 \<and> \<not> st_duplicated s \<and> output_count = 1
         then \<lparr>st_local_counts = replicate nranks loc, st_duplicated = True,
                st_ranks = replicate nranks [concat (concat (st_ranks s))]\<rparr>
         else \<lparr>st_local_counts = replicate nranks loc, st_duplicated = st_duplicated s,
                st_ranks = map (\<lambda>rank. concatenated (max_chunks loc (st_local_counts s ! rank)) (st_ranks s ! rank)) [0..<nranks]\<rparr>)"

section \<open>The tree of a group-by\<close>

datatype tree_node = RepartitionTo nat | Reduce

definition n_ary :: nat where
  "n_ary = 32"

lemma ceil_div_less: "1 < n \<Longrightarrow> 1 < m \<Longrightarrow> ceil_div m n < m"
proof -
  assume "1 < n" "1 < m"
  then have "m + n - 1 < m * n" by (cases m; cases n) (auto simp: algebra_simps)
  then show ?thesis using \<open>1 < n\<close> by (simp add: ceil_div_def less_mult_imp_div_less)
qed

text \<open>The loop of \<open>lower_ir_node\<close> for a group-by, and the final reduction.\<close>

function tree_levels :: "nat \<Rightarrow> tree_node list" where
  "tree_levels count =
     (if count > 1
      then let c = max (ceil_div count n_ary) 1
           in RepartitionTo c # (if c > 1 then [Reduce] else []) @ tree_levels c
      else [])"
  by pat_completeness auto
termination
  by (relation "measure id") (auto simp: n_ary_def ceil_div_less)

declare tree_levels.simps [simp del]

lemma tree_levels_step:
  "count > 1 \<Longrightarrow> c = max (ceil_div count n_ary) 1
   \<Longrightarrow> tree_levels count = RepartitionTo c # (if c > 1 then [Reduce] else []) @ tree_levels c"
  by (simp add: tree_levels.simps [of count] Let_def)

lemma tree_levels_done: "\<not> count > 1 \<Longrightarrow> tree_levels count = []"
  by (simp add: tree_levels.simps [of count])

definition tree_nodes :: "nat \<Rightarrow> tree_node list" where
  "tree_nodes count = tree_levels count @ [Reduce]"

text \<open>A node evaluated on every chunk of a stream.\<close>

definition chunkwise :: "'r evaluation \<Rightarrow> 'r stream \<Rightarrow> 'r stream res" where
  "chunkwise ev s = rbind (rmap (rmap ev) (st_ranks s)) (\<lambda>rs. Inr (s\<lparr>st_ranks := rs\<rparr>))"

fun run_nodes :: "'r evaluation \<Rightarrow> tree_node list \<Rightarrow> 'r stream \<Rightarrow> 'r stream res" where
  "run_nodes reduce [] s = Inr s"
| "run_nodes reduce (RepartitionTo n # ns) s = run_nodes reduce ns (concatenate_node n s)"
| "run_nodes reduce (Reduce # ns) s = rbind (chunkwise reduce s) (run_nodes reduce ns)"

definition tree_aggregation :: "'r evaluation \<Rightarrow> 'r evaluation \<Rightarrow> nat \<Rightarrow> 'r stream \<Rightarrow> 'r stream res" where
  "tree_aggregation piece reduce count s = rbind (chunkwise piece s) (run_nodes reduce (tree_nodes count))"

section \<open>Batches\<close>

lemma concat_batches: "0 < n \<Longrightarrow> concat (batches n xs) = xs"
  by (induction n xs rule: batches.induct) (subst batches.simps, simp)

lemma batches_nonempty: "ys \<in> set (batches n xs) \<Longrightarrow> ys \<noteq> []"
  by (induction n xs rule: batches.induct) (subst (asm) batches.simps, auto split: if_splits)

lemma batches_length: "ys \<in> set (batches n xs) \<Longrightarrow> length ys \<le> n"
  by (induction n xs rule: batches.induct) (subst (asm) batches.simps, auto split: if_splits)

lemma concat_map_concat: "concat (map concat gs) = concat (concat gs)"
  by (induction gs) simp_all

lemma concatenated_groups: "\<exists>gs. concatenated (max_chunks l c) chunks = map concat gs \<and> concat gs = chunks"
proof -
  have "\<exists>gs. (case max_chunks l c of None \<Rightarrow> if chunks = [] then [] else [chunks] | Some n \<Rightarrow> batches n chunks) = gs
      \<and> concat gs = chunks"
    by (auto simp: max_chunks_def concat_batches)
  then show ?thesis unfolding concatenated_def by blast
qed


section \<open>What the evaluations promise\<close>

text \<open>\<open>ok\<close> says which chunks may be aggregated; \<open>stands\<close> relates a chunk of rows to a partial table
  of them.  Every chunk has a partial table, and concatenated partial tables are reduced to one of
  all their rows.\<close>

locale partial_aggregation =
  fixes ok :: "'r chunk list \<Rightarrow> bool" and stands :: "'r chunk \<Rightarrow> 'r chunk \<Rightarrow> bool"
    and piece :: "'r evaluation" and reduce :: "'r evaluation"
  assumes ok_merge: "ok (concat gs) \<Longrightarrow> ok (map concat gs)"
    and ok_part: "ok (as @ bs @ cs) \<Longrightarrow> ok bs"
    and piece_stands: "ok [rs] \<Longrightarrow> \<exists>t. piece rs = Inr t \<and> stands rs t"
    and reduce_stands: "ok rss \<Longrightarrow> list_all2 stands rss ts \<Longrightarrow> \<exists>t. reduce (concat ts) = Inr t \<and> stands (concat rss) t"
    and stands_nothing: "ok [] \<Longrightarrow> stands [] []"
begin

text \<open>The tables stand for consecutive stretches of the chunks.\<close>

definition covers :: "'r chunk list \<Rightarrow> 'r chunk list \<Rightarrow> bool" where
  "covers rss ts \<longleftrightarrow> (\<exists>gs. concat gs = rss \<and> list_all2 stands (map concat gs) ts)"

lemma covers_nothing: "covers [] []"
  by (auto simp: covers_def intro!: exI [of _ "[]"])

lemma covers_append: "covers rss ts \<Longrightarrow> covers sss us \<Longrightarrow> covers (rss @ sss) (ts @ us)"
proof -
  assume "covers rss ts" "covers sss us"
  then obtain gs hs where "concat gs = rss" "list_all2 stands (map concat gs) ts"
    "concat hs = sss" "list_all2 stands (map concat hs) us" unfolding covers_def by blast
  then show ?thesis unfolding covers_def by (auto intro!: exI [of _ "gs @ hs"] list_all2_appendI)
qed

lemma covers_one: "stands (concat rss) t \<Longrightarrow> covers rss [t]"
  unfolding covers_def by (rule exI [of _ "[rss]"]) simp

lemma covers_reduce:
  assumes "ok rss" and "covers rss ts"
  shows "\<exists>t. reduce (concat ts) = Inr t \<and> stands (concat rss) t"
proof -
  obtain gs where g: "concat gs = rss" "list_all2 stands (map concat gs) ts" using assms(2) unfolding covers_def by blast
  then have "concat (map concat gs) = concat rss" using concat_map_concat [of gs] by simp
  then show ?thesis using reduce_stands [OF ok_merge g(2)] assms(1) g(1) by simp
qed

lemma covers_single: "covers rss [t] \<Longrightarrow> stands (concat rss) t"
  unfolding covers_def by (auto simp: list_all2_Cons2)

lemma covers_no_tables: "covers rss [] \<Longrightarrow> rss = []"
  unfolding covers_def by auto

lemma ok_prefix: "ok (as @ bs) \<Longrightarrow> ok as" and ok_suffix: "ok (as @ bs) \<Longrightarrow> ok bs"
  using ok_part [of "[]" as bs] ok_part [of as bs "[]"] by simp_all

lemma ok_nothing: "ok rss \<Longrightarrow> ok []"
  using ok_part [of rss "[]" "[]"] by simp

lemma loop_covers:
  assumes "ok (used @ ch)" and "covers used evaluated"
  shows "\<exists>ev drained new rest. aggregate_loop alloc piece reduce target early evaluated total_size n ch
       = Inr (ev, drained, n + length new, rest) \<and> ch = new @ rest \<and> covers (used @ new) ev
       \<and> (if drained then rest = [] else early \<and> new \<noteq> [])"
  using assms
proof (induction ch arbitrary: used evaluated total_size n)
  case Nil
  then show ?case by (auto intro!: exI [of _ "[]"])
next
  case (Cons msg ch)
  have "ok [msg]" using Cons.prems(1) ok_part [of used "[msg]" ch] by simp
  then obtain chunk where c: "piece msg = Inr chunk" "stands msg chunk" using piece_stands by blast
  have cov: "covers (used @ [msg]) (evaluated @ [chunk])"
    using covers_append [OF Cons.prems(2) covers_one [of "[msg]" chunk]] c(2) by simp
  have okp: "ok (used @ [msg])" using Cons.prems(1) ok_prefix [of "used @ [msg]" ch] by simp
  obtain ev tot where step: "(if total_size + alloc chunk > target \<and> length (evaluated @ [chunk]) > 1
      then rbind (evaluate_batch reduce (evaluated @ [chunk])) (\<lambda>t. Inr ([t], alloc t))
      else Inr (evaluated @ [chunk], total_size + alloc chunk)) = Inr (ev, tot)" and ev: "covers (used @ [msg]) ev"
  proof (cases "total_size + alloc chunk > target \<and> length (evaluated @ [chunk]) > 1")
    case True
    obtain t where "evaluate_batch reduce (evaluated @ [chunk]) = Inr t" "stands (concat (used @ [msg])) t"
      using covers_reduce [OF okp cov] unfolding evaluate_batch_def by blast
    then show thesis using that [of "[t]" "alloc t"] covers_one [of "used @ [msg]" t] True by simp
  next
    case False
    show thesis by (rule that [OF _ cov]) (simp only: False if_False)
  qed
  have unfold: "aggregate_loop alloc piece reduce target early evaluated total_size n (msg # ch)
      = (if tot > target \<and> early then Inr (ev, False, n + 1, ch)
         else aggregate_loop alloc piece reduce target early ev tot (n + 1) ch)"
    unfolding aggregate_loop.simps Let_def c(1) rbind.simps step by simp
  show ?case
  proof (cases "tot > target \<and> early")
    case True
    show ?thesis
      unfolding unfold
      by (rule exI [of _ ev], rule exI [of _ False], rule exI [of _ "[msg]"], rule exI [of _ ch]) (use True ev in simp)
  next
    case False
    obtain ev' drained new rest where r: "aggregate_loop alloc piece reduce target early ev tot (n + 1) ch
         = Inr (ev', drained, n + 1 + length new, rest)" "ch = new @ rest" "covers ((used @ [msg]) @ new) ev'"
      "if drained then rest = [] else early \<and> new \<noteq> []"
      using Cons.IH [OF _ ev, of tot "n + 1"] Cons.prems(1) by auto
    show ?thesis
      unfolding unfold if_not_P [OF False]
      by (rule exI [of _ ev'], rule exI [of _ drained], rule exI [of _ "msg # new"], rule exI [of _ rest])
        (use r in \<open>simp split: if_splits\<close>)
  qed
qed

lemma local_aggregation_stands:
  assumes "ok ch"
  shows "\<exists>a used. local_aggregation alloc piece reduce target early ch = Inr a \<and> ch = used @ ag_rest a
     \<and> stands (concat used) (ag_chunk a) \<and> ag_received a = length used
     \<and> (if ag_drained a then ag_rest a = [] else early \<and> used \<noteq> [])"
proof -
  obtain ev drained new rest where l: "aggregate_loop alloc piece reduce target early [] 0 0 ch = Inr (ev, drained, length new, rest)"
    "ch = new @ rest" "covers new ev" "if drained then rest = [] else early \<and> new \<noteq> []"
    using loop_covers [of "[]" ch "[]" alloc target early 0 0] assms covers_nothing by auto
  have okn: "ok new" using assms l(2) ok_prefix by simp
  have "\<exists>t. (if length ev > 1 then evaluate_batch reduce ev else case ev of t # _ \<Rightarrow> Inr t | [] \<Rightarrow> Inr []) = Inr t
      \<and> stands (concat new) t"
  proof (cases ev)
    case Nil
    then show ?thesis using covers_no_tables [of new] l(3) stands_nothing ok_nothing [OF assms] by simp
  next
    case (Cons t ts)
    then show ?thesis
      using covers_reduce [OF okn l(3)] covers_single [of new t] l(3) by (cases ts) (simp_all add: evaluate_batch_def)
  qed
  then show ?thesis using l by (auto simp: local_aggregation_def intro!: exI [of _ new])
qed

lemma rounds_cover:
  "ok ch \<Longrightarrow> (drained \<Longrightarrow> ch = []) \<Longrightarrow> \<exists>ts. aggregate_rounds alloc piece reduce target drained ch = Inr ts \<and> covers ch ts"
proof (induction "length ch" arbitrary: ch drained rule: less_induct)
  case less
  show ?case
  proof (cases drained)
    case True
    then show ?thesis using less.prems(2) covers_nothing by (subst aggregate_rounds.simps) simp
  next
    case False
    obtain a used where a: "local_aggregation alloc piece reduce target True ch = Inr a" "ch = used @ ag_rest a"
      "stands (concat used) (ag_chunk a)" "if ag_drained a then ag_rest a = [] else used \<noteq> []"
      using local_aggregation_stands [OF less.prems(1), of alloc target True] by auto
    have "\<exists>ts. aggregate_rounds alloc piece reduce target (ag_drained a) (ag_rest a) = Inr ts \<and> covers (ag_rest a) ts"
    proof (cases "ag_drained a")
      case True
      then show ?thesis using a(4) covers_nothing by (subst aggregate_rounds.simps) simp
    next
      case False
      then show ?thesis using less.hyps [of "ag_rest a" False] a less.prems(1) ok_suffix [of used "ag_rest a"] by auto
    qed
    then obtain ts where ts: "aggregate_rounds alloc piece reduce target (ag_drained a) (ag_rest a) = Inr ts"
      "covers (ag_rest a) ts" by blast
    have "covers ch (ag_chunk a # ts)" using covers_append [OF covers_one [OF a(3)] ts(2)] a(2) by simp
    then show ?thesis using False a(1) ts(1) by (subst aggregate_rounds.simps) simp
  qed
qed

end


section \<open>The tree of reductions\<close>

lemma rmap_ranks:
  assumes "list_all2 P xs ys" and "\<And>x y. x \<in> set xs \<Longrightarrow> P x y \<Longrightarrow> \<exists>z. f y = Inr z \<and> Q x z"
  shows "\<exists>zs. rmap f ys = Inr zs \<and> list_all2 Q xs zs"
  using assms
proof (induction rule: list_all2_induct)
  case (Cons x xs y ys)
  obtain z where "f y = Inr z" "Q x z" using Cons.prems [OF _ Cons.hyps(1)] by auto
  moreover obtain zs where "rmap f ys = Inr zs" "list_all2 Q xs zs" using Cons.IH Cons.prems by (meson list.set_intros(2))
  ultimately show ?case by auto
qed simp

context partial_aggregation
begin

lemma covers_split:
  assumes "covers rss (ts @ us)"
  obtains as bs where "rss = as @ bs" "covers as ts" "covers bs us"
proof -
  obtain gs where g: "concat gs = rss" "list_all2 stands (map concat gs) (ts @ us)" using assms unfolding covers_def by blast
  obtain xs ys where xy: "map concat gs = xs @ ys" "list_all2 stands xs ts" "list_all2 stands ys us"
    using g(2) by (auto simp: list_all2_append2)
  then obtain hs ks where "gs = hs @ ks" "xs = map concat hs" "ys = map concat ks" by (auto simp: map_eq_append_conv)
  then show thesis using that [of "concat hs" "concat ks"] g(1) xy(2,3) unfolding covers_def by auto
qed

lemma piece_covers: "ok chs \<Longrightarrow> \<exists>ts. rmap piece chs = Inr ts \<and> covers chs ts"
proof (induction chs)
  case (Cons rs chs)
  obtain t where t: "piece rs = Inr t" "stands rs t" using piece_stands ok_prefix [of "[rs]" chs] Cons.prems by auto
  obtain ts where "rmap piece chs = Inr ts" "covers chs ts" using Cons ok_suffix [of "[rs]" chs] by auto
  then show ?case using covers_append [OF covers_one [of "[rs]" t], of chs ts] t by simp
qed (simp add: covers_nothing)

lemma reduce_groups:
  "ok rss \<Longrightarrow> covers rss (concat hs) \<Longrightarrow> \<exists>us. rmap reduce (map concat hs) = Inr us \<and> covers rss us"
proof (induction hs arbitrary: rss)
  case (Cons h hs)
  obtain as bs where ab: "rss = as @ bs" "covers as h" "covers bs (concat hs)" using covers_split [of rss h "concat hs"] Cons.prems(2) by auto
  obtain t where t: "reduce (concat h) = Inr t" "stands (concat as) t"
    using covers_reduce [OF _ ab(2)] ok_prefix Cons.prems(1) ab(1) by blast
  obtain us where "rmap reduce (map concat hs) = Inr us" "covers bs us" using Cons.IH [OF _ ab(3)] ok_suffix Cons.prems(1) ab(1) by blast
  then show ?case using covers_append [OF covers_one [OF t(2)], of bs us] t ab(1) by simp
qed (auto simp: covers_def)

lemma reduce_repartitioned:
  "ok rss \<Longrightarrow> covers rss ts \<Longrightarrow> \<exists>us. rmap reduce (concatenated (max_chunks l c) ts) = Inr us \<and> covers rss us"
  using concatenated_groups [of l c ts] reduce_groups by metis

definition ranks_cover :: "'r chunk list list \<Rightarrow> 'r stream \<Rightarrow> bool" where
  "ranks_cover data s \<longleftrightarrow> list_all2 covers data (st_ranks s)"

lemma chunkwise_piece:
  assumes "\<forall>chs \<in> set (st_ranks s). ok chs"
  shows "\<exists>s'. chunkwise piece s = Inr s' \<and> ranks_cover (st_ranks s) s' \<and> st_duplicated s' = st_duplicated s"
proof -
  have "list_all2 (=) (st_ranks s) (st_ranks s)" by (rule list.rel_refl) simp
  then have "\<exists>zs. rmap (rmap piece) (st_ranks s) = Inr zs \<and> list_all2 covers (st_ranks s) zs"
    by (rule rmap_ranks) (use assms piece_covers in blast)
  then show ?thesis by (auto simp: chunkwise_def ranks_cover_def)
qed

lemma level_covers:
  assumes "\<forall>chs \<in> set data. ok chs" and "ranks_cover data s" and "c > 1"
  shows "\<exists>s'. run_nodes reduce [RepartitionTo c, Reduce] s = Inr s' \<and> ranks_cover data s' \<and> st_duplicated s' = st_duplicated s"
proof -
  define f where "f n = (concatenated (max_chunks (local_output_count (length (st_ranks s)) (st_duplicated s) c) n) :: 'r chunk list \<Rightarrow> 'r chunk list)" for n
  define ys where "ys = map (\<lambda>rank. f (st_local_counts s ! rank) (st_ranks s ! rank)) [0..<length (st_ranks s)]"
  have "list_all2 covers data (st_ranks s)" using assms(2) by (simp add: ranks_cover_def)
  then have "list_all2 (\<lambda>chs y. \<exists>n ts. y = f n ts \<and> covers chs ts) data ys"
    by (fastforce simp: list_all2_conv_all_nth ys_def)
  then have "\<exists>zs. rmap (rmap reduce) ys = Inr zs \<and> list_all2 covers data zs"
    by (rule rmap_ranks) (use assms(1) reduce_repartitioned in \<open>auto simp: f_def\<close>)
  then show ?thesis using assms(3) by (auto simp: concatenate_node_def Let_def chunkwise_def ranks_cover_def f_def ys_def comp_def)
qed

text \<open>After the last repartition every rank has one table, of all the rows when the ranks hold
  different rows and of its own rows otherwise.\<close>

definition gathered :: "bool \<Rightarrow> 'r chunk list list \<Rightarrow> 'r stream \<Rightarrow> bool" where
  "gathered duplicated data s \<longleftrightarrow>
     (if length data > 1 \<and> \<not> duplicated
      then st_duplicated s \<and> (\<exists>t. st_ranks s = replicate (length data) [t] \<and> stands (concat (concat data)) t)
      else st_duplicated s = duplicated
        \<and> list_all2 (\<lambda>chs ts. ts = [] \<and> chs = [] \<or> (\<exists>t. ts = [t] \<and> stands (concat chs) t)) data (st_ranks s))"

lemma covers_concat: "list_all2 covers xs ys \<Longrightarrow> covers (concat xs) (concat ys)"
  by (induction rule: list_all2_induct) (simp_all add: covers_nothing covers_append)

lemma last_level:
  assumes ok: "\<forall>chs \<in> set data. ok chs" "st_duplicated s \<or> ok (concat data)" and cov: "ranks_cover data s"
  shows "\<exists>s'. run_nodes reduce [RepartitionTo 1, Reduce] s = Inr s' \<and> gathered (st_duplicated s) data s'"
proof (cases "length data > 1 \<and> \<not> st_duplicated s")
  case True
  have len: "length (st_ranks s) = length data" using cov by (auto simp: ranks_cover_def dest: list_all2_lengthD)
  have "covers (concat data) (concat (st_ranks s))" using cov covers_concat by (simp add: ranks_cover_def)
  then obtain t where t: "reduce (concat (concat (st_ranks s))) = Inr t" "stands (concat (concat data)) t"
    using covers_reduce ok(2) True by blast
  have "rmap (rmap reduce) (replicate (length data) [concat (concat (st_ranks s))]) = Inr (replicate (length data) [t])"
    using t(1) by (simp add: rmap_Inr_iff list_all2_conv_all_nth)
  then show ?thesis using True t(2) by (auto simp: concatenate_node_def Let_def len chunkwise_def gathered_def intro!: exI [of _ t])
next
  case False
  have len: "length (st_ranks s) = length data" using cov by (auto simp: ranks_cover_def dest: list_all2_lengthD)
  have "map (\<lambda>rank. concatenated None (st_ranks s ! rank)) [0..<length (st_ranks s)] = map (concatenated None) (st_ranks s)"
    by (rule nth_equalityI) simp_all
  then have node: "concatenate_node 1 s = \<lparr>st_local_counts = replicate (length (st_ranks s)) 1, st_duplicated = st_duplicated s,
      st_ranks = map (concatenated None) (st_ranks s)\<rparr>"
    using False len by (cases "length data") (auto simp: concatenate_node_def Let_def local_output_count_def max_chunks_def ceil_div_def)
  have "list_all2 covers data (st_ranks s)" using cov by (simp add: ranks_cover_def)
  then have "list_all2 (\<lambda>chs y. \<exists>ts. y = concatenated None ts \<and> covers chs ts) data (map (concatenated None) (st_ranks s))"
    by (auto simp: list_all2_map2 elim: list_all2_mono)
  then have "\<exists>zs. rmap (rmap reduce) (map (concatenated None) (st_ranks s)) = Inr zs
      \<and> list_all2 (\<lambda>chs ts. ts = [] \<and> chs = [] \<or> (\<exists>t. ts = [t] \<and> stands (concat chs) t)) data zs"
  proof (rule rmap_ranks)
    fix chs y
    assume "chs \<in> set data" "\<exists>ts. y = concatenated None ts \<and> covers chs ts"
    then obtain ts where ts: "y = concatenated None ts" "covers chs ts" "ok chs" using ok(1) by blast
    show "\<exists>z. rmap reduce y = Inr z \<and> (z = [] \<and> chs = [] \<or> (\<exists>t. z = [t] \<and> stands (concat chs) t))"
      using covers_no_tables [of chs] covers_reduce [OF ts(3,2)] ts by (cases "ts = []") (auto simp: concatenated_def)
  qed
  then show ?thesis using False by (auto simp: node [simplified] chunkwise_def gathered_def)
qed

lemma run_nodes_append: "run_nodes reduce (as @ bs) s = rbind (run_nodes reduce as s) (run_nodes reduce bs)"
  by (induction reduce as s rule: run_nodes.induct) (auto simp: rbind_assoc intro!: rbind_cong)

lemma tree_gathers:
  "\<forall>chs \<in> set data. ok chs \<Longrightarrow> st_duplicated s \<or> ok (concat data) \<Longrightarrow> ranks_cover data s \<Longrightarrow> count > 1
   \<Longrightarrow> \<exists>s'. run_nodes reduce (tree_nodes count) s = Inr s' \<and> gathered (st_duplicated s) data s'"
proof (induction count arbitrary: s rule: tree_levels.induct)
  case (1 count)
  define c where "c = max (ceil_div count n_ary) 1"
  show ?case
  proof (cases "c > 1")
    case True
    have nodes: "tree_nodes count = [RepartitionTo c, Reduce] @ tree_nodes c"
      using True by (simp add: tree_nodes_def tree_levels_step [OF "1.prems"(4) c_def])
    obtain s1 where "run_nodes reduce [RepartitionTo c, Reduce] s = Inr s1" "ranks_cover data s1"
      "st_duplicated s1 = st_duplicated s" using level_covers [OF "1.prems"(1,3) True] by blast
    then show ?thesis using "1.IH" [OF "1.prems"(4) c_def "1.prems"(1), of s1] "1.prems"(2) True unfolding nodes run_nodes_append by simp
  next
    case False
    then have "c = 1" by (simp add: c_def)
    then have "tree_nodes count = [RepartitionTo 1, Reduce]"
      by (simp add: tree_nodes_def tree_levels_step [OF "1.prems"(4) c_def] tree_levels_done)
    then show ?thesis using last_level [OF "1.prems"(1-3)] by simp
  qed
qed

lemma tree_aggregation_gathers:
  assumes "\<forall>chs \<in> set (st_ranks s). ok chs" and "st_duplicated s \<or> ok (concat (st_ranks s))" and "count > 1"
  shows "\<exists>s'. tree_aggregation piece reduce count s = Inr s' \<and> gathered (st_duplicated s) (st_ranks s) s'"
proof -
  obtain s1 where "chunkwise piece s = Inr s1" "ranks_cover (st_ranks s) s1" "st_duplicated s1 = st_duplicated s"
    using chunkwise_piece [OF assms(1)] by blast
  then show ?thesis using tree_gathers [OF assms(1) _ _ assms(3), of s1] assms(2) by (simp add: tree_aggregation_def)
qed

end

section \<open>The number of levels\<close>

lemma ceil_div_le: "0 < n \<Longrightarrow> m \<le> k * n \<Longrightarrow> ceil_div m n \<le> k"
proof -
  assume n: "0 < n" and m: "m \<le> k * n"
  have "m + n - 1 < Suc k * n" using n m by simp
  then show ?thesis by (simp add: ceil_div_def less_mult_imp_div_less less_Suc_eq_le [symmetric])
qed

definition repartitions :: "tree_node list \<Rightarrow> nat list" where
  "repartitions ns = concat (map (\<lambda>n. case n of RepartitionTo c \<Rightarrow> [c] | Reduce \<Rightarrow> []) ns)"

lemma repartitions_simps [simp]:
  "repartitions [] = []" "repartitions (RepartitionTo c # ns) = c # repartitions ns"
  "repartitions (Reduce # ns) = repartitions ns" "repartitions (ms @ ns) = repartitions ms @ repartitions ns"
  by (simp_all add: repartitions_def)

lemma levels_bound: "count \<le> n_ary ^ n \<Longrightarrow> length (repartitions (tree_levels count)) \<le> n"
proof (induction count arbitrary: n rule: tree_levels.induct)
  case (1 count)
  show ?case
  proof (cases "count > 1")
    case True
    define c where "c = max (ceil_div count n_ary) 1"
    obtain m where m: "n = Suc m" using True "1.prems" by (cases n) auto
    have "c \<le> n_ary ^ m"
      using ceil_div_le [of n_ary count "n_ary ^ m"] "1.prems" m by (simp add: c_def n_ary_def mult.commute)
    then have "length (repartitions (tree_levels c)) \<le> m" using "1.IH" [OF True c_def] by simp
    then show ?thesis using m by (simp add: tree_levels_step [OF True c_def])
  qed (simp add: tree_levels_done)
qed

lemma levels_reach_one: "count > 1 \<Longrightarrow> last (repartitions (tree_levels count)) = 1"
proof (induction count rule: tree_levels.induct)
  case (1 count)
  define c where "c = max (ceil_div count n_ary) 1"
  show ?case
  proof (cases "c > 1")
    case True
    then have "repartitions (tree_levels c) \<noteq> []" by (simp add: tree_levels_step [OF _ refl])
    then show ?thesis
      using "1.IH" [OF "1.prems" c_def True] True by (simp add: tree_levels_step [OF "1.prems" c_def])
  next
    case False
    then have "c = 1" by (simp add: c_def)
    then show ?thesis by (simp add: tree_levels_step [OF "1.prems" c_def] tree_levels_done)
  qed
qed

end
