(* ===== verification/GroupActor.thy ===== *)
theory GroupActor
  imports GroupPerm PartialAggregation MetadataModel
begin

text \<open>
  The group-by actor of the streaming engine (\<open>streaming/actor_graph/groupby.py\<close>): evaluation
  chunk by chunk when the announced partitioning keeps the groups together, otherwise a local
  aggregation, the choice of a strategy from the sizes that all ranks estimate, and a tree reduction
  or a shuffle by the keys.  Also the network that is built without dynamic planning
  (\<open>streaming/groupby.py\<close>).

  The input is one channel for each rank.  The sizes of chunks, the hash of libcudf and the shuffler
  are parameters; the adjustment of data that is ordered by the keys is an argument.
\<close>

section \<open>Strategy\<close>

definition max_rows_per_partition :: nat where
  "max_rows_per_partition = (2 ^ 31 - 1) div 4"

text \<open>Estimated size and rows, the local chunk count, and whether the input is not drained.\<close>

type_synonym estimates = "nat \<times> nat \<times> nat \<times> nat"

definition local_estimates :: "('r chunk \<Rightarrow> nat) \<Rightarrow> nat \<Rightarrow> 'r aggregation \<Rightarrow> estimates" where
  "local_estimates alloc local_count a =
     (let sample_count = max 1 (ag_received a);
          local_estimated_size = alloc (ag_chunk a) div sample_count * local_count;
          local_estimated_rows =
            (if ag_drained a then length (ag_chunk a)
             else (length (ag_chunk a) * local_count + sample_count - 1) div sample_count)
      in (local_estimated_size, local_estimated_rows, local_count, of_bool (\<not> ag_drained a)))"

text \<open>\<open>allgather_reduce\<close>: the sum over the ranks.\<close>

definition allgather_reduce :: "estimates list \<Rightarrow> estimates" where
  "allgather_reduce es =
     (sum_list (map fst es), sum_list (map (fst \<circ> snd) es), sum_list (map (fst \<circ> snd \<circ> snd) es),
      sum_list (map (snd \<circ> snd \<circ> snd) es))"

definition use_tree :: "bool \<Rightarrow> bool \<Rightarrow> estimates \<Rightarrow> bool" where
  "use_tree skip_global_comm maintain_order es =
     (case es of (bytes, rows, chunks, need_shuffle) \<Rightarrow>
        maintain_order \<or> need_shuffle = 0 \<and> (skip_global_comm \<or> rows < max_rows_per_partition))"

definition choose_strategy :: "nat \<Rightarrow> nat \<Rightarrow> bool \<Rightarrow> bool \<Rightarrow> estimates \<Rightarrow> nat res" where
  "choose_strategy target local_count skip_global_comm maintain_order es =
     (case es of (total_estimated_size, total_estimated_rows, total_chunk_count, total_need_shuffle) \<Rightarrow>
        let min_row_limit_count =
              (if total_estimated_rows > 0
               then (total_estimated_rows + max_rows_per_partition - 1) div max_rows_per_partition else 1);
            tree = use_tree skip_global_comm maintain_order es
        in rbind (if tree then Inr 1
                  else if target = 0 then Inl ZeroDivisionError
                  else Inr (max 2 (max (total_estimated_size div target) min_row_limit_count))) (\<lambda>ideal_count.
           let output_count = min ideal_count (if skip_global_comm then local_count else total_chunk_count)
           in Inr (if tree then output_count else max 2 (max output_count min_row_limit_count))))"

section \<open>Reductions across ranks\<close>

text \<open>The library and the network: sizes of chunks, the hash of a row of columns, the order in which
  a partition is extracted, and the partitions every rank owns.\<close>

record 'f network =
  nw_alloc :: "'f row chunk \<Rightarrow> nat"
  nw_hash :: "'f cell list \<Rightarrow> nat"
  nw_arrange :: "nat \<Rightarrow> 'f row list \<Rightarrow> 'f row list"
  nw_owned :: "nat \<Rightarrow> nat \<Rightarrow> nat \<Rightarrow> nat list"

definition piecewise_evaluation :: "'f::linordered_field library \<Rightarrow> 'f decomposed_groupby \<Rightarrow> 'f row evaluation" where
  "piecewise_evaluation lb dg = group_by lb (dg_piecewise dg)"

definition reduction_evaluation :: "'f::linordered_field library \<Rightarrow> 'f decomposed_groupby \<Rightarrow> 'f row evaluation" where
  "reduction_evaluation lb dg = group_by lb (dg_reduction dg)"

definition tree_reduce ::
  "'f::linordered_field library \<Rightarrow> 'f decomposed_groupby \<Rightarrow> bool \<Rightarrow> bool \<Rightarrow> 'f row chunk list \<Rightarrow> nat
   \<Rightarrow> (bool \<times> 'f row chunk list) res" where
  "tree_reduce lb dg duplicated is_local tables rank =
     (let need_allgather = (\<not> is_local \<and> \<not> duplicated \<and> length tables > 1)
      in rbind (if need_allgather then evaluate_batch (reduction_evaluation lb dg) tables else Inr (tables ! rank)) (\<lambda>t.
         rbind (select lb (dg_select dg) t) (\<lambda>out.
           Inr (if need_allgather then True else duplicated, [out]))))"

text \<open>The partition of a row: the hash of the columns at the shuffle indices.\<close>

definition row_partition :: "'f network \<Rightarrow> 'f decomposed_groupby \<Rightarrow> nat \<Rightarrow> 'f row \<Rightarrow> nat" where
  "row_partition nw dg modulus p =
     nw_hash nw (map (\<lambda>i. case map_of p (gb_schema (dg_piecewise dg) ! i) of None \<Rightarrow> None | Some c \<Rightarrow> c)
       (dg_shuffle_indices dg)) mod modulus"

definition extract_chunk :: "'f network \<Rightarrow> 'f decomposed_groupby \<Rightarrow> nat \<Rightarrow> 'f row chunk list \<Rightarrow> nat \<Rightarrow> 'f row chunk" where
  "extract_chunk nw dg modulus inserted p =
     nw_arrange nw p (filter (\<lambda>q. row_partition nw dg modulus q = p) (concat inserted))"

definition shuffle_reduce ::
  "'f::linordered_field library \<Rightarrow> 'f network \<Rightarrow> 'f decomposed_groupby \<Rightarrow> nat \<Rightarrow> bool \<Rightarrow> nat \<Rightarrow> bool
   \<Rightarrow> 'f row aggregation list \<Rightarrow> nat \<Rightarrow> (bool \<times> 'f row chunk list) res" where
  "shuffle_reduce lb nw dg target duplicated modulus is_local aggs rank =
     (let shuffle_ranks = (if is_local then [aggs ! rank] else aggs);
          shuffle_rank = (if is_local then 0 else rank);
          modulus = max (length shuffle_ranks) modulus
      in rbind (rmap (\<lambda>a. rbind (aggregate_rounds (nw_alloc nw) (piecewise_evaluation lb dg) (reduction_evaluation lb dg)
                   target (ag_drained a) (ag_rest a)) (\<lambda>ts. Inr (ag_chunk a # ts))) shuffle_ranks) (\<lambda>inserted.
         rbind (rmap (\<lambda>p. rbind (reduction_evaluation lb dg (extract_chunk nw dg modulus (concat inserted) p))
                   (select lb (dg_select dg))) (nw_owned nw (length shuffle_ranks) modulus shuffle_rank)) (\<lambda>out.
           Inr (duplicated, out))))"

section \<open>The actor\<close>

definition keeps_order :: "'f groupby_ir \<Rightarrow> bool" where
  "keeps_order ir \<longleftrightarrow> gb_maintain_order ir \<or> has_stable_sorted_agg (gb_aggs ir) \<or> has_order_sensitive_agg (gb_aggs ir)"

fun concrete_prefix :: "'f named list \<Rightarrow> string list" where
  "concrete_prefix [] = []"
| "concrete_prefix ((n, e) # es) = (case e of Col t c \<Rightarrow> c # concrete_prefix es | _ \<Rightarrow> [])"

text \<open>The announced metadata, the chunk counts of the ranks apart; the ranks of a duplicated channel
  announce the same count.\<close>

record 'v announced =
  an_counts :: "nat list"
  an_partitioning :: "'v partitioning option"
  an_duplicated :: bool

definition groupby_actor ::
  "'f::linordered_field library \<Rightarrow> 'f network \<Rightarrow> nat
   \<Rightarrow> ('f decomposed_groupby \<Rightarrow> 'f row aggregation list \<Rightarrow> (bool \<times> 'f row chunk list) list res)
   \<Rightarrow> 'f groupby_ir \<Rightarrow> bool \<Rightarrow> string list \<Rightarrow> 'f cell announced \<Rightarrow> 'f row chunk list list
   \<Rightarrow> (bool \<times> 'f row chunk list) list res" where
  "groupby_actor lb nw target ordered_adjust_reduce ir child_is_repartition child_columns metadata data =
     (let nranks = length data;
          duplicated = an_duplicated metadata
      in rbind (names_to_indices (concrete_prefix (gb_keys ir)) child_columns) (\<lambda>group_keys.
         let partitioning = from_keys (an_partitioning metadata) nranks (Columns group_keys) True;
             level = (if duplicated then LocalLevel else Flat);
             maintain_order = keeps_order ir;
             input_ordering = (if duplicated then None else get_ordering partitioning Flat);
             can_adjust = (gb_maintain_order ir \<and> input_ordering \<noteq> None \<and> \<not> has_stable_sorted_agg (gb_aggs ir));
             fallback = (\<lambda>rank. an_counts metadata ! rank = 1 \<and> (duplicated \<or> nranks = 1) \<and> child_is_repartition)
         in if is_strictly_partitioned partitioning level \<or> (\<forall>rank < nranks. fallback rank)
            then rmap (\<lambda>chunks. rbind (rmap (group_by lb ir) chunks) (\<lambda>out. Inr (duplicated, out))) data
            else rbind (from_ir ir) (\<lambda>dg.
              if dg_preshuffle dg then Inl AssertionError
              else rbind (rmap (local_aggregation (nw_alloc nw) (piecewise_evaluation lb dg) (reduction_evaluation lb dg)
                     target (\<not> maintain_order \<or> can_adjust)) data) (\<lambda>aggs.
                let skip_global_comm = (duplicated \<or> (case np_inter partitioning of HashScheme cols m \<Rightarrow> True | _ \<Rightarrow> False));
                    es = map (\<lambda>(c, a). local_estimates (nw_alloc nw) c a) (zip (an_counts metadata) aggs);
                    maintain = (maintain_order \<and> \<not> can_adjust)
                in rbind (rmap (\<lambda>rank. choose_strategy target (an_counts metadata ! rank) skip_global_comm maintain
                       (if skip_global_comm then es ! rank else allgather_reduce es)) [0..<nranks]) (\<lambda>output_counts.
                   if input_ordering \<noteq> None \<and> (\<exists>n \<in> set output_counts. n \<noteq> 1) then ordered_adjust_reduce dg aggs
                   else rmap (\<lambda>rank.
                     if output_counts ! rank = 1
                     then tree_reduce lb dg duplicated skip_global_comm (map ag_chunk aggs) rank
                     else shuffle_reduce lb nw dg target duplicated (output_counts ! rank) skip_global_comm aggs rank)
                     [0..<nranks])))))"

section \<open>Without dynamic planning\<close>

text \<open>The network of \<open>lower_ir_node\<close>: piecewise, the tree, and the selection.\<close>

definition static_groupby :: "'f::linordered_field library \<Rightarrow> 'f groupby_ir \<Rightarrow> nat \<Rightarrow> 'f row stream \<Rightarrow> 'f row stream res" where
  "static_groupby lb ir child_count s =
     rbind (from_ir ir) (\<lambda>dg.
     rbind (tree_aggregation (piecewise_evaluation lb dg) (reduction_evaluation lb dg) child_count s)
       (chunkwise (select lb (dg_select dg))))"

end
