(* ===== verification/GroupActorFacts.thy ===== *)
theory GroupActorFacts
  imports GroupActor
begin

text \<open>
  The group-by of the streaming engine computes the requested group-by: the partial tables of the
  group-by satisfy the laws of partial aggregation, so that local aggregations, rounds and trees
  yield tables that stand for their rows; a shuffle by the keys splits tables into tables that stand
  for the rows of the partitions; and the results of parts whose keys are apart make one result.
\<close>

section \<open>The laws of partial aggregation\<close>

definition chunks_ok :: "'f::linordered_field library \<Rightarrow> 'f groupby_ir \<Rightarrow> 'f row chunk list \<Rightarrow> bool" where
  "chunks_ok lb ir rss \<longleftrightarrow> ir_ok lb ir \<and> rows_ok lb ir (concat rss) \<and> apart lb ir rss"

lemma rows_ok_concat:
  assumes "rows_ok lb ir (concat rss)" and "rs \<in> set rss"
  shows "rows_ok lb ir rs"
  unfolding rows_ok_def
proof (intro conjI ballI)
  show "keys_ok lb (gb_keys ir) rs" using assms by (simp add: rows_ok_def keys_ok_concat)
  fix k x
  assume k: "k \<in> set (keys_in lb (gb_keys ir) rs)" and x: "x \<in> set (gb_aggs ir)"
  obtain n e where ne: "x = (n, e)" by (cases x)
  have "k \<in> set (keys_in lb (gb_keys ir) (concat rss))" using k assms(2) by (auto simp: keys_in_concat)
  then have "agg_ok lb e (concat (map (\<lambda>rs. rows_of lb (gb_keys ir) rs k) rss))"
    using assms(1) x ne by (fastforce simp: rows_ok_def rows_of_concat)
  then have "agg_ok lb e (rows_of lb (gb_keys ir) rs k)" by (rule agg_ok_concat) (use assms(2) in simp)
  then show "case x of (n, e) \<Rightarrow> agg_ok lb e (rows_of lb (gb_keys ir) rs k)" by (simp add: ne)
qed

lemma rows_ok_nothing: "rows_ok lb ir []"
  by (simp add: rows_ok_def keys_ok_def keys_in_def)

lemma apart_part: "apart lb ir (as @ bs @ cs) \<Longrightarrow> apart lb ir bs"
  unfolding apart_def
proof (intro impI ballI)
  fix k
  assume h: "has_preshuffle ir \<longrightarrow> (\<forall>k \<in> set (keys_in lb (gb_keys ir) (concat (as @ bs @ cs))).
      length (filter (\<lambda>rs. k \<in> set (keys_in lb (gb_keys ir) rs)) (as @ bs @ cs)) \<le> 1)" "has_preshuffle ir"
    and "k \<in> set (keys_in lb (gb_keys ir) (concat bs))"
  then have "k \<in> set (keys_in lb (gb_keys ir) (concat (as @ bs @ cs)))" by simp
  then have "length (filter (\<lambda>rs. k \<in> set (keys_in lb (gb_keys ir) rs)) (as @ bs @ cs)) \<le> 1" using h by blast
  then show "length (filter (\<lambda>rs. k \<in> set (keys_in lb (gb_keys ir) rs)) bs) \<le> 1" by simp
qed

lemma apart_merge:
  assumes "apart lb ir (concat gs)"
  shows "apart lb ir (map concat gs)"
proof -
  have "length (filter (\<lambda>rs. k \<in> set (keys_in lb (gb_keys ir) rs)) (map concat gs))
      \<le> length (filter (\<lambda>rs. k \<in> set (keys_in lb (gb_keys ir) rs)) (concat gs))" for k
  proof (induction gs)
    case (Cons g gs)
    have "k \<in> set (keys_in lb (gb_keys ir) (concat g)) \<Longrightarrow> 0 < length (filter (\<lambda>rs. k \<in> set (keys_in lb (gb_keys ir) rs)) g)"
      by (force simp: keys_in_concat filter_empty_conv)
    then show ?case using Cons by (auto simp flip: length_greater_0_conv)
  qed simp
  then show ?thesis using assms unfolding apart_def concat_map_concat by (meson order.trans)
qed

lemma no_preshuffle_apart: "\<not> has_preshuffle ir \<Longrightarrow> apart lb ir rss"
  by (simp add: apart_def)

lemma chunks_ok_part: "chunks_ok lb ir (as @ bs @ cs) \<Longrightarrow> chunks_ok lb ir bs"
  using rows_ok_concat [of lb ir "[concat as, concat bs, concat cs]" "concat bs"]
  by (auto simp: chunks_ok_def intro: apart_part)

lemma stands_nothing: "ir_ok lb ir \<Longrightarrow> stands lb ir [] []"
  by (auto simp: stands_def group_table_def keys_in_def appearance_def elim: ir_decompositions)

interpretation gb: partial_aggregation "chunks_ok lb ir" "stands lb ir" "piecewise lb ir" "reduction lb ir" for lb ir
proof unfold_locales
  show "chunks_ok lb ir (concat gs) \<Longrightarrow> chunks_ok lb ir (map concat gs)" for gs
    by (simp add: chunks_ok_def concat_map_concat apart_merge)
  show "chunks_ok lb ir (as @ bs @ cs) \<Longrightarrow> chunks_ok lb ir bs" for as bs cs by (rule chunks_ok_part)
  show "chunks_ok lb ir [rs] \<Longrightarrow> \<exists>t. piecewise lb ir rs = Inr t \<and> stands lb ir rs t" for rs
    by (simp add: chunks_ok_def piecewise_stands)
  show "chunks_ok lb ir rss \<Longrightarrow> list_all2 (stands lb ir) rss ts \<Longrightarrow> \<exists>t. reduction lb ir (concat ts) = Inr t \<and> stands lb ir (concat rss) t" for rss ts
    by (rule reduction_stands) (simp_all add: chunks_ok_def)
  show "chunks_ok lb ir [] \<Longrightarrow> stands lb ir [] []" by (simp add: chunks_ok_def stands_nothing)
qed

lemma evaluations:
  assumes "from_ir ir = Inr dg"
  shows "piecewise_evaluation lb dg = piecewise lb ir" "reduction_evaluation lb dg = reduction lb ir"
    "select lb (dg_select dg) = selection lb ir"
  using assms by (auto simp: piecewise_evaluation_def reduction_evaluation_def piecewise_def reduction_def selection_def)

section \<open>The static network\<close>

definition gathered_result :: "'f::linordered_field library \<Rightarrow> 'f groupby_ir \<Rightarrow> bool \<Rightarrow> 'f row chunk list list \<Rightarrow> 'f row stream \<Rightarrow> bool" where
  "gathered_result lb ir duplicated data s \<longleftrightarrow>
     st_duplicated s = (duplicated \<or> length data > 1)
     \<and> list_all2 (\<lambda>chunks out. length out \<le> 1
         \<and> group_spec lb ir (if duplicated then concat chunks else concat (concat data)) (concat out)) data (st_ranks s)"

lemma group_spec_nothing: "ir_ok lb ir \<Longrightarrow> group_spec lb ir [] []"
  by (simp add: group_spec_def group_table_def keys_in_def appearance_def)

lemma select_gathered:
  assumes ok: "ir_ok lb ir" and rows: "if dup then \<forall>chs \<in> set data. rows_ok lb ir (concat chs) else rows_ok lb ir (concat (concat data))"
    and s: "gb.gathered lb ir dup data s"
  shows "\<exists>s'. chunkwise (selection lb ir) s = Inr s' \<and> gathered_result lb ir dup data s'"
proof (cases "length data > 1 \<and> \<not> dup")
  case True
  then obtain t where t: "st_ranks s = replicate (length data) [t]" "stands lb ir (concat (concat data)) t" "st_duplicated s"
    using s by (auto simp: gb.gathered_def)
  obtain out where out: "selection lb ir t = Inr out" "group_spec lb ir (concat (concat data)) out"
    using selection_spec [OF ok _ t(2)] rows True by auto
  have "rmap (rmap (selection lb ir)) (st_ranks s) = Inr (replicate (length data) [out])"
    using out(1) by (simp add: t(1) rmap_Inr_iff list_all2_conv_all_nth)
  then show ?thesis
    using True out(2) t(3) by (simp add: chunkwise_def gathered_result_def list_all2_conv_all_nth)
next
  case False
  have all: "concat (concat data) = concat chs" if "chs \<in> set data" "\<not> dup" for chs
    using that False by (cases data) (auto simp: less_Suc_eq_0_disj)
  have rows': "rows_ok lb ir (concat chs)" if "chs \<in> set data" for chs
    using rows all that by (cases dup) auto
  have sp: "list_all2 (\<lambda>chs ts. ts = [] \<and> chs = [] \<or> (\<exists>t. ts = [t] \<and> stands lb ir (concat chs) t)) data (st_ranks s)"
    and d: "st_duplicated s = dup" using s False by (auto simp: gb.gathered_def)
  have "\<exists>zs. rmap (rmap (selection lb ir)) (st_ranks s) = Inr zs
      \<and> list_all2 (\<lambda>chunks out. length out \<le> 1
         \<and> group_spec lb ir (if dup then concat chunks else concat (concat data)) (concat out)) data zs"
  proof (rule rmap_ranks [OF sp])
    fix chs ts
    assume c: "chs \<in> set data" and ts: "ts = [] \<and> chs = [] \<or> (\<exists>t. ts = [t] \<and> stands lb ir (concat chs) t)"
    have spec: "(if dup then concat chs else concat (concat data)) = concat chs" using all c by auto
    show "\<exists>z. rmap (selection lb ir) ts = Inr z \<and> length z \<le> 1
        \<and> group_spec lb ir (if dup then concat chs else concat (concat data)) (concat z)"
      unfolding spec using ts
    proof (elim disjE exE conjE)
      fix t assume "ts = [t]" "stands lb ir (concat chs) t"
      then show "\<exists>z. rmap (selection lb ir) ts = Inr z \<and> length z \<le> 1 \<and> group_spec lb ir (concat chs) (concat z)"
        using selection_spec [OF ok rows' [OF c]] by fastforce
    qed (simp add: group_spec_nothing [OF ok])
  qed
  then show ?thesis using False d by (auto simp: chunkwise_def gathered_result_def)
qed

lemma static_groupby_gathers:
  assumes ok: "ir_ok lb ir" and d: "an = st_duplicated s"
    and rows: "if an then \<forall>chs \<in> set (st_ranks s). rows_ok lb ir (concat chs) \<and> apart lb ir chs
       else rows_ok lb ir (concat (concat (st_ranks s))) \<and> apart lb ir (concat (st_ranks s))"
    and c: "n > 1"
  shows "\<exists>s'. static_groupby lb ir n s = Inr s' \<and> gathered_result lb ir an (st_ranks s) s'"
proof -
  obtain ds where ds: "decompositions ir = Inr ds" by (rule ir_decompositions [OF ok])
  obtain dg where dg: "from_ir ir = Inr dg" by (rule from_ir_fields [OF ds])
  have whole: "an \<or> chunks_ok lb ir (concat (st_ranks s))" using rows ok by (auto simp: chunks_ok_def)
  have each: "\<forall>chs \<in> set (st_ranks s). chunks_ok lb ir chs"
  proof
    fix chs
    assume c: "chs \<in> set (st_ranks s)"
    show "chunks_ok lb ir chs"
    proof (cases an)
      case False
      then have "chunks_ok lb ir (concat (st_ranks s))" using whole by simp
      moreover obtain as bs where "st_ranks s = as @ chs # bs" using c by (meson split_list)
      ultimately show ?thesis using chunks_ok_part [of lb ir "concat as" chs "concat bs"] by simp
    qed (use rows c ok in \<open>simp add: chunks_ok_def\<close>)
  qed
  obtain s1 where s1: "tree_aggregation (piecewise lb ir) (reduction lb ir) n s = Inr s1" "gb.gathered lb ir an (st_ranks s) s1"
    using gb.tree_aggregation_gathers [OF each _ c] whole d by auto
  have "if an then \<forall>chs \<in> set (st_ranks s). rows_ok lb ir (concat chs) else rows_ok lb ir (concat (concat (st_ranks s)))"
    using rows by auto
  from select_gathered [OF ok this s1(2)] show ?thesis
    using s1(1) by (simp add: static_groupby_def dg evaluations [OF dg])
qed

end
