(* ===== verification/GroupShuffle.thy ===== *)
theory GroupShuffle
  imports GroupActorFacts
begin

text \<open>
  Shuffling partial tables by the keys: every row of a partial table stands for the rows of its
  group, so the rows that arrive in a partition, in whatever order, are reduced to a table of all
  rows of the partition; and the results of the partitions together are the requested group-by.
\<close>

section \<open>Rows of a table stand for their groups\<close>

lemma mset_groups:
  "distinct ks \<Longrightarrow> mset (concat (map (\<lambda>k. filter (\<lambda>r. f r = k) rs) ks)) = mset (filter (\<lambda>r. f r \<in> set ks) rs)"
proof (induction ks)
  case (Cons k ks)
  have "filter (\<lambda>r. f r \<in> set (k # ks)) rs = filter (\<lambda>r. f r = k \<or> f r \<in> set ks) rs" by simp
  moreover have "mset (filter (\<lambda>r. f r = k \<or> f r \<in> set ks) rs) = mset (filter (\<lambda>r. f r = k) rs) + mset (filter (\<lambda>r. f r \<in> set ks) rs)"
    using Cons.prems by (induction rs) auto
  ultimately show ?case using Cons by simp
qed simp

lemma list_all2_reorder:
  assumes "list_all2 P xs ys" and "mset zs = mset ys"
  shows "\<exists>ws. list_all2 P ws zs \<and> mset ws = mset xs"
  using list_all2_reorder_left_invariance [of "\<lambda>y x. P x y" ys xs zs] assms
  by (auto simp: list_all2_conv_all_nth)

lemma remdups_replicate: "0 < n \<Longrightarrow> remdups (replicate n x) = [x]"
proof (induction n)
  case (Suc n)
  then show ?case by (cases n) auto
qed simp

lemma rows_of_the_key: "keys_ok lb keys rs \<Longrightarrow> rows_of lb keys rs k = filter (\<lambda>r. the_key lb keys r = k) rs"
  unfolding rows_of_def keys_ok_def by (intro filter_cong) (auto simp: the_key_def)

lemma keys_in_the_key: "keys_ok lb keys rs \<Longrightarrow> keys_in lb keys rs = map (the_key lb keys) rs"
  by (simp add: keys_in_keyed keyed_def comp_def)

lemma stands_row:
  assumes st: "stands lb ir rs t" and keys: "keys_ok lb (gb_keys ir) rs" and q: "q \<in> set t"
  shows "stands lb ir (rows_of lb (gb_keys ir) rs (row_key (gb_keys ir) q)) [q]"
proof -
  define k where "k = row_key (gb_keys ir) q"
  define g where "g = rows_of lb (gb_keys ir) rs k"
  obtain ds where ds: "decompositions ir = Inr ds" and tab: "group_table (gb_keys ir) (gb_maintain_order ir) (keys_in lb (gb_keys ir) rs)
      (\<lambda>k p. \<forall>d \<in> set ds. holds lb d (rows_of lb (gb_keys ir) rs k) p) t" using st by (auto simp: stands_def)
  have k: "k \<in> set (keys_in lb (gb_keys ir) rs)" and h: "\<forall>d \<in> set ds. holds lb d g q" and pr: "\<forall>n \<in> fst ` set (gb_keys ir). map_of q n \<noteq> None"
    using tab q by (auto simp: group_table_def k_def g_def)
  have gk: "keys_ok lb (gb_keys ir) g" using keys by (auto simp: keys_ok_def g_def rows_of_def)
  have all: "\<forall>r \<in> set g. the_key lb (gb_keys ir) r = k" by (simp add: g_def rows_of_the_key [OF keys])
  then have ks: "keys_in lb (gb_keys ir) g = replicate (length g) k"
    unfolding keys_in_the_key [OF gk] by (induction g) auto
  have ne: "g \<noteq> []" using k rows_of_nonempty [of lb "gb_keys ir" rs k] by (simp add: g_def)
  have "rows_of lb (gb_keys ir) g k = g" using all by (simp add: rows_of_the_key [OF gk])
  moreover have "appearance (keys_in lb (gb_keys ir) g) = [k]"
    unfolding ks appearance_def rev_replicate using ne by (simp add: remdups_replicate)
  ultimately have "group_table (gb_keys ir) (gb_maintain_order ir) (keys_in lb (gb_keys ir) g)
      (\<lambda>k p. \<forall>d \<in> set ds. holds lb d (rows_of lb (gb_keys ir) g k) p) [q]"
    using h pr ne by (auto simp: group_table_def ks simp flip: k_def)
  then show ?thesis using ds by (auto simp: stands_def g_def k_def)
qed

text \<open>The rows of a table whose keys satisfy a predicate, each with the rows it stands for.\<close>

lemma stands_rows:
  assumes st: "stands lb ir rs t" and keys: "keys_ok lb (gb_keys ir) rs"
  shows "\<exists>os. list_all2 (\<lambda>g q. stands lb ir g [q]) os (filter (\<lambda>q. P (row_key (gb_keys ir) q)) t)
     \<and> mset (concat os) = mset (filter (\<lambda>r. P (the_key lb (gb_keys ir) r)) rs)"
proof -
  let ?k = "row_key (gb_keys ir)"
  define u where "u = filter (\<lambda>q. P (?k q)) t"
  define os where "os = map (\<lambda>q. rows_of lb (gb_keys ir) rs (?k q)) u"
  have t: "distinct (map ?k t)" "set (map ?k t) = set (keys_in lb (gb_keys ir) rs)"
    using st by (auto simp: stands_def group_table_def)
  have "list_all2 (\<lambda>g q. stands lb ir g [q]) os u"
    using stands_row [OF st keys] by (auto simp: os_def u_def list_all2_conv_all_nth dest: nth_mem)
  moreover have "mset (concat os) = mset (filter (\<lambda>r. P (the_key lb (gb_keys ir) r)) rs)"
  proof -
    have d: "distinct (map ?k u)" using t(1) by (auto simp: u_def distinct_map intro: inj_on_subset)
    have "set (map ?k u) = {k \<in> set (map ?k t). P k}" by (auto simp: u_def)
    then have s: "set (map ?k u) = {k \<in> the_key lb (gb_keys ir) ` set rs. P k}"
      unfolding t(2) keys_in_the_key [OF keys] by simp
    have "os = map (\<lambda>k. filter (\<lambda>r. the_key lb (gb_keys ir) r = k) rs) (map ?k u)"
      by (simp add: os_def rows_of_the_key [OF keys])
    then have "mset (concat os) = mset (filter (\<lambda>r. the_key lb (gb_keys ir) r \<in> set (map ?k u)) rs)"
      using mset_groups [OF d] by simp
    also have "filter (\<lambda>r. the_key lb (gb_keys ir) r \<in> set (map ?k u)) rs = filter (\<lambda>r. P (the_key lb (gb_keys ir) r)) rs"
      unfolding s by (rule filter_cong) auto
    finally show ?thesis .
  qed
  ultimately show ?thesis by (auto simp: u_def)
qed

lemma stands_rows_concat:
  assumes "list_all2 (stands lb ir) rss ts" and "keys_ok lb (gb_keys ir) (concat rss)"
  shows "\<exists>os. list_all2 (\<lambda>g q. stands lb ir g [q]) os (filter (\<lambda>q. P (row_key (gb_keys ir) q)) (concat ts))
     \<and> mset (concat os) = mset (filter (\<lambda>r. P (the_key lb (gb_keys ir) r)) (concat rss))"
  using assms
proof (induction rule: list_all2_induct)
  case (Cons rs rss t ts)
  have k: "keys_ok lb (gb_keys ir) rs" "keys_ok lb (gb_keys ir) (concat rss)" using Cons.prems by (auto simp: keys_ok_def)
  obtain os where os: "list_all2 (\<lambda>g q. stands lb ir g [q]) os (filter (\<lambda>q. P (row_key (gb_keys ir) q)) (concat ts))"
    "mset (concat os) = mset (filter (\<lambda>r. P (the_key lb (gb_keys ir) r)) (concat rss))" using Cons.IH [OF k(2)] by blast
  obtain o' where "list_all2 (\<lambda>g q. stands lb ir g [q]) o' (filter (\<lambda>q. P (row_key (gb_keys ir) q)) t)"
    "mset (concat o') = mset (filter (\<lambda>r. P (the_key lb (gb_keys ir) r)) rs)" using stands_rows [OF Cons.hyps(1) k(1)] by blast
  then show ?case using os by (intro exI [of _ "o' @ os"]) (auto intro: list_all2_appendI)
qed simp

lemma rows_ok_filter:
  assumes "rows_ok lb ir rs"
  shows "rows_ok lb ir (filter (\<lambda>r. P (the_key lb (gb_keys ir) r)) rs)"
proof -
  let ?f = "filter (\<lambda>r. P (the_key lb (gb_keys ir) r)) rs"
  have keys: "keys_ok lb (gb_keys ir) rs" using assms by (simp add: rows_ok_def)
  then have fk: "keys_ok lb (gb_keys ir) ?f" by (auto simp: keys_ok_def)
  have "agg_ok lb e (rows_of lb (gb_keys ir) ?f k)" if k: "k \<in> set (keys_in lb (gb_keys ir) ?f)" and e: "(n, e) \<in> set (gb_aggs ir)" for k n e
  proof -
    have "P k" "k \<in> set (keys_in lb (gb_keys ir) rs)" using k by (auto simp: keys_in_the_key [OF fk] keys_in_the_key [OF keys])
    moreover from this have "rows_of lb (gb_keys ir) ?f k = rows_of lb (gb_keys ir) rs k"
      unfolding rows_of_the_key [OF keys] rows_of_the_key [OF fk] by (auto intro: filter_cong)
    ultimately show ?thesis using assms e by (fastforce simp: rows_ok_def)
  qed
  then show ?thesis using fk by (auto simp: rows_ok_def)
qed

section \<open>A partition\<close>

definition in_partition :: "'f::linordered_field library \<Rightarrow> 'f network \<Rightarrow> 'f groupby_ir \<Rightarrow> nat \<Rightarrow> nat \<Rightarrow> 'f row \<Rightarrow> bool" where
  "in_partition lb nw ir modulus p r \<longleftrightarrow> nw_hash nw (the_key lb (gb_keys ir) r) mod modulus = p"

definition delivers_all :: "'f network \<Rightarrow> bool" where
  "delivers_all nw \<longleftrightarrow>
     (\<forall>p xs. mset (nw_arrange nw p xs) = mset xs)
     \<and> (\<forall>nranks n. nranks > 0 \<longrightarrow> mset (concat (map (nw_owned nw nranks n) [0..<nranks])) = mset [0..<n])"

lemma index_of: "x \<in> set xs \<Longrightarrow> xs ! length (takeWhile (\<lambda>y. y \<noteq> x) xs) = x"
  by (induction xs) auto

lemma indices_of: "set ns \<subseteq> set xs \<Longrightarrow> map (\<lambda>n. xs ! length (takeWhile (\<lambda>m. m \<noteq> n) xs)) ns = ns"
  by (intro map_idI index_of) auto

lemma row_partition_key:
  assumes ok: "ir_ok lb ir" and dg: "from_ir ir = Inr dg"
  shows "row_partition nw dg modulus q = nw_hash nw (row_key (gb_keys ir) q) mod modulus"
proof -
  obtain ds where ds: "decompositions ir = Inr ds" and dist: "distinct (map fst (gb_keys ir) @ piece_names ds)"
    by (rule ir_decompositions [OF ok])
  have sch: "gb_schema (dg_piecewise dg) = dict_names (map fst (gb_keys ir) @ map fst (concat (map dc_piecewise ds)))"
    and ix: "dg_shuffle_indices dg = key_indices (gb_keys ir) (gb_schema (dg_piecewise dg))"
    using dg ds [unfolded decompositions_def] by (auto simp: from_ir_def combine_def Let_def)
  have "map fst (concat (map dc_piecewise ds)) = piece_names ds" by (simp add: piece_names_def map_concat comp_def)
  then have sch: "gb_schema (dg_piecewise dg) = map fst (gb_keys ir) @ piece_names ds"
    using dist by (simp add: sch dict_names_distinct)
  have "map (\<lambda>i. gb_schema (dg_piecewise dg) ! i) (dg_shuffle_indices dg) = map fst (gb_keys ir)"
    unfolding ix sch using indices_of [of "map fst (gb_keys ir)" "map fst (gb_keys ir) @ piece_names ds"]
    by (simp add: key_indices_def Let_def comp_def)
  then have "map (\<lambda>i. case map_of q (gb_schema (dg_piecewise dg) ! i) of None \<Rightarrow> None | Some c \<Rightarrow> c) (dg_shuffle_indices dg)
      = map (\<lambda>n. case map_of q n of None \<Rightarrow> None | Some c \<Rightarrow> c) (map fst (gb_keys ir))"
    by (metis (no_types, lifting) map_map comp_def map_eq_conv)
  then show ?thesis by (simp add: row_partition_def row_key_def case_prod_beta' comp_def)
qed

lemma group_spec_reordered:
  assumes "rows_ok lb ir rs" and "(\<forall>(n, e) \<in> set (gb_aggs ir). order_free e) \<and> \<not> gb_maintain_order ir \<or> rs = []"
    and "mset rs = mset ss" and "group_spec lb ir rs out"
  shows "group_spec lb ir ss out"
proof (cases "rs = []")
  case False
  then show ?thesis using group_spec_perm [OF assms(1) _ _ assms(3,4)] assms(2) by blast
qed (use assms(3,4) in simp)

lemma partition_spec:
  assumes ok: "ir_ok lb ir" "rows_ok lb ir (concat rss)" and pre: "\<not> has_preshuffle ir"
    and st: "list_all2 (stands lb ir) rss ts" and dg: "from_ir ir = Inr dg" and nw: "delivers_all nw"
    and free: "(\<forall>(n, e) \<in> set (gb_aggs ir). order_free e) \<and> \<not> gb_maintain_order ir \<or> concat rss = []"
  shows "\<exists>out. rbind (reduction lb ir (extract_chunk nw dg modulus ts p)) (selection lb ir) = Inr out
     \<and> group_spec lb ir (filter (in_partition lb nw ir modulus p) (concat rss)) out"
proof -
  let ?P = "\<lambda>k. nw_hash nw k mod modulus = p"
  define rs where "rs = filter (in_partition lb nw ir modulus p) (concat rss)"
  have rs: "rs = filter (\<lambda>r. ?P (the_key lb (gb_keys ir) r)) (concat rss)" by (simp add: rs_def in_partition_def [abs_def])
  have keys: "keys_ok lb (gb_keys ir) (concat rss)" using ok(2) by (simp add: rows_ok_def)
  obtain os where os: "list_all2 (\<lambda>g q. stands lb ir g [q]) os (filter (\<lambda>q. ?P (row_key (gb_keys ir) q)) (concat ts))"
    "mset (concat os) = mset rs" using stands_rows_concat [OF st keys, of ?P] by (auto simp: rs)
  define qs where "qs = extract_chunk nw dg modulus ts p"
  have mq: "mset qs = mset (filter (\<lambda>q. ?P (row_key (gb_keys ir) q)) (concat ts))"
    using nw by (simp add: qs_def extract_chunk_def delivers_all_def row_partition_key [OF ok(1) dg])
  obtain os' where os': "list_all2 (\<lambda>g q. stands lb ir g [q]) os' qs" "mset os' = mset os"
    using list_all2_reorder [OF os(1) mq] by blast
  have m: "mset rs = mset (concat os')"
    using os(2) mset_concat_map [of "\<lambda>x. x" os] mset_concat_map [of "\<lambda>x. x" os'] os'(2) by simp
  have rok: "rows_ok lb ir (concat os')" by (rule rows_ok_perm [OF _ m]) (use rows_ok_filter [OF ok(2), of ?P] in \<open>simp only: rs\<close>)
  have "list_all2 (stands lb ir) os' (map (\<lambda>q. [q]) qs)" using os'(1) by (simp add: list_all2_map2)
  then obtain t where t: "reduction lb ir (concat (map (\<lambda>q. [q]) qs)) = Inr t" "stands lb ir (concat os') t"
    using reduction_stands [OF ok(1) rok _ no_preshuffle_apart [OF pre]] by blast
  obtain out where out: "selection lb ir t = Inr out" "group_spec lb ir (concat os') out"
    using selection_spec [OF ok(1) rok t(2)] by blast
  have "(\<forall>(n, e) \<in> set (gb_aggs ir). order_free e) \<and> \<not> gb_maintain_order ir \<or> concat os' = []"
    using free
  proof
    assume "concat rss = []"
    then have "rs = []" by (simp only: rs_def filter.simps)
    then have "mset (concat os') = {#}" using m by (simp only: mset.simps)
    then show ?thesis by (simp only: mset_zero_iff simp_thms)
  qed simp
  then have "group_spec lb ir rs out" by (rule group_spec_reordered [OF rok _ m [symmetric] out(2)])
  moreover have "concat (map (\<lambda>q. [q]) qs) = qs" by (induction qs) auto
  ultimately show ?thesis using t(1) out(1) by (auto simp: rs_def qs_def)
qed

section \<open>Parts with different keys\<close>

lemma group_spec_append:
  assumes a: "group_spec lb ir rs out" and b: "group_spec lb ir ss out'"
    and d: "set (keys_in lb (gb_keys ir) rs) \<inter> set (keys_in lb (gb_keys ir) ss) = {}"
  shows "group_spec lb ir (rs @ ss) (out @ out')"
proof -
  let ?k = "row_key (gb_keys ir)" and ?ks = "keys_in lb (gb_keys ir)"
  have ka: "distinct (map ?k out)" "set (map ?k out) = set (?ks rs)" "gb_maintain_order ir \<Longrightarrow> map ?k out = appearance (?ks rs)"
    "\<forall>p \<in> set out. \<forall>n \<in> fst ` set (gb_keys ir). map_of p n \<noteq> None"
    using a by (auto simp: group_spec_def group_table_def)
  have kb: "distinct (map ?k out')" "set (map ?k out') = set (?ks ss)" "gb_maintain_order ir \<Longrightarrow> map ?k out' = appearance (?ks ss)"
    "\<forall>p \<in> set out'. \<forall>n \<in> fst ` set (gb_keys ir). map_of p n \<noteq> None"
    using b by (auto simp: group_spec_def group_table_def)
  have none: "rows_of lb (gb_keys ir) xs k = []" if "k \<notin> set (?ks xs)" for xs k
    using that rows_of_nonempty by blast
  have ra: "rows_of lb (gb_keys ir) (rs @ ss) (?k p) = rows_of lb (gb_keys ir) rs (?k p)" if "p \<in> set out" for p
  proof -
    have "?k p \<in> set (?ks rs)" using that ka(2) by auto
    then have "rows_of lb (gb_keys ir) ss (?k p) = []" using d by (intro none) blast
    then show ?thesis by (simp add: rows_of_def)
  qed
  have rb: "rows_of lb (gb_keys ir) (rs @ ss) (?k p) = rows_of lb (gb_keys ir) ss (?k p)" if "p \<in> set out'" for p
  proof -
    have "?k p \<in> set (?ks ss)" using that kb(2) by auto
    then have "rows_of lb (gb_keys ir) rs (?k p) = []" using d by (intro none) blast
    then show ?thesis by (simp add: rows_of_def)
  qed
  have app: "appearance (?ks rs @ ?ks ss) = appearance (?ks rs) @ appearance (?ks ss)"
    unfolding appearance_append using d by (auto intro!: filter_True)
  have each: "\<forall>p \<in> set (out @ out'). \<forall>(n, e) \<in> set (gb_aggs ir). part lb n e (rows_of lb (gb_keys ir) (rs @ ss) (?k p)) p"
  proof
    fix p
    assume "p \<in> set (out @ out')"
    then consider "p \<in> set out" | "p \<in> set out'" by auto
    then show "\<forall>(n, e) \<in> set (gb_aggs ir). part lb n e (rows_of lb (gb_keys ir) (rs @ ss) (?k p)) p"
    proof cases
      case 1
      then show ?thesis unfolding ra [OF 1] using group_specD(2) [OF a 1] by blast
    next
      case 2
      then show ?thesis unfolding rb [OF 2] using group_specD(2) [OF b 2] by blast
    qed
  qed
  have "distinct (map ?k (out @ out'))" using ka(1,2) kb(1,2) d by simp
  moreover have "set (map ?k (out @ out')) = set (?ks (rs @ ss))" using ka(2) kb(2) by simp
  moreover have "gb_maintain_order ir \<longrightarrow> map ?k (out @ out') = appearance (?ks (rs @ ss))" using ka(3) kb(3) app by simp
  moreover have "\<forall>p \<in> set (out @ out'). \<forall>n \<in> fst ` set (gb_keys ir). map_of p n \<noteq> None" using ka(4) kb(4) by auto
  ultimately show ?thesis using each unfolding group_spec_def group_table_def by blast
qed

definition keys_apart :: "'f::linordered_field library \<Rightarrow> 'f groupby_ir \<Rightarrow> 'f row list list \<Rightarrow> bool" where
  "keys_apart lb ir rss \<longleftrightarrow>
     sorted_wrt (\<lambda>rs ss. set (keys_in lb (gb_keys ir) rs) \<inter> set (keys_in lb (gb_keys ir) ss) = {}) rss"

lemma group_spec_concat:
  assumes "list_all2 (group_spec lb ir) rss outs" and "keys_apart lb ir rss" and "ir_ok lb ir"
  shows "group_spec lb ir (concat rss) (concat outs)"
  using assms
proof (induction rule: list_all2_induct)
  case (Cons rs rss out outs)
  have "set (keys_in lb (gb_keys ir) rs) \<inter> set (keys_in lb (gb_keys ir) (concat rss)) = {}"
    using Cons.prems(1) by (auto simp: keys_apart_def keys_in_concat)
  then show ?case using group_spec_append [OF Cons.hyps(1)] Cons by (auto simp: keys_apart_def)
qed (simp add: group_spec_nothing)

lemma filter_in_partition_apart:
  assumes keys: "keys_ok lb (gb_keys ir) rs" and d: "distinct ps"
  shows "keys_apart lb ir (map (\<lambda>p. filter (in_partition lb nw ir m p) rs) ps)"
proof -
  have k: "nw_hash nw k mod m = p" if "k \<in> set (keys_in lb (gb_keys ir) (filter (in_partition lb nw ir m p) rs))" for k p
  proof -
    have "keys_ok lb (gb_keys ir) (filter (in_partition lb nw ir m p) rs)" using keys by (auto simp: keys_ok_def)
    then show ?thesis using that by (auto simp: keys_in_the_key in_partition_def)
  qed
  have apart: "set (keys_in lb (gb_keys ir) (filter (in_partition lb nw ir m p) rs))
      \<inter> set (keys_in lb (gb_keys ir) (filter (in_partition lb nw ir m q) rs)) = {}" if "p \<noteq> q" for p q
  proof (rule ccontr)
    assume "\<not> ?thesis"
    then obtain x where "x \<in> set (keys_in lb (gb_keys ir) (filter (in_partition lb nw ir m p) rs))"
      "x \<in> set (keys_in lb (gb_keys ir) (filter (in_partition lb nw ir m q) rs))" by blast
    then have "nw_hash nw x mod m = p" "nw_hash nw x mod m = q" using k by blast+
    then show False using that by simp
  qed
  have "sorted_wrt (\<noteq>) ps" using d by (induction ps) auto
  then show ?thesis unfolding keys_apart_def sorted_wrt_map by (rule sorted_wrt_mono_rel [rotated]) (rule apart)
qed

lemma shuffle_spec:
  assumes ok: "ir_ok lb ir" "rows_ok lb ir (concat rss)" and pre: "\<not> has_preshuffle ir"
    and st: "list_all2 (stands lb ir) rss ts" and dg: "from_ir ir = Inr dg" and nw: "delivers_all nw"
    and free: "(\<forall>(n, e) \<in> set (gb_aggs ir). order_free e) \<and> \<not> gb_maintain_order ir \<or> concat rss = []"
    and ps: "mset (concat pss) = mset [0..<m]" and m: "0 < m"
  shows "\<exists>outss. list_all2 (\<lambda>ps outs. rmap (\<lambda>p. rbind (reduction lb ir (extract_chunk nw dg m ts p)) (selection lb ir)) ps = Inr outs) pss outss
     \<and> group_spec lb ir (concat rss) (concat (concat outss))"
proof -
  define ev where "ev p = rbind (reduction lb ir (extract_chunk nw dg m ts p)) (selection lb ir)" for p
  define out where "out p = (SOME out. ev p = Inr out \<and> group_spec lb ir (filter (in_partition lb nw ir m p) (concat rss)) out)" for p
  have out: "ev p = Inr (out p) \<and> group_spec lb ir (filter (in_partition lb nw ir m p) (concat rss)) (out p)" for p
    unfolding out_def by (rule someI_ex) (unfold ev_def, rule partition_spec [OF ok pre st dg nw free])
  have keys: "keys_ok lb (gb_keys ir) (concat rss)" using ok(2) by (simp add: rows_ok_def)
  have d: "distinct (concat pss)" using ps distinct_upt mset_eq_imp_distinct_iff by blast
  have "list_all2 (\<lambda>ps outs. rmap ev ps = Inr outs) pss (map (map out) pss)"
    unfolding list_all2_map2 using rmap_all_Inr [of _ ev out] out by (intro list.rel_refl_strong) blast
  moreover have "group_spec lb ir (concat rss) (concat (concat (map (map out) pss)))"
  proof (rule group_spec_reordered)
    have parts: "group_spec lb ir (concat (map (\<lambda>p. filter (in_partition lb nw ir m p) (concat rss)) (concat pss))) (concat (map out (concat pss)))"
      by (rule group_spec_concat [OF _ filter_in_partition_apart [OF keys d] ok(1)])
        (use out in \<open>simp add: list_all2_map1 list_all2_map2 list.rel_refl\<close>)
    then show "group_spec lb ir (concat (map (\<lambda>p. filter (in_partition lb nw ir m p) (concat rss)) (concat pss))) (concat (concat (map (map out) pss)))"
      by (simp add: map_concat)
    have s: "set (concat pss) = {0..<m}" using set_perm [OF ps] by simp
    have "mset (concat (map (\<lambda>p. filter (\<lambda>r. nw_hash nw (the_key lb (gb_keys ir) r) mod m = p) (concat rss)) (concat pss)))
        = mset (filter (\<lambda>r. nw_hash nw (the_key lb (gb_keys ir) r) mod m \<in> set (concat pss)) (concat rss))"
      by (rule mset_groups [OF d])
    also have "filter (\<lambda>r. nw_hash nw (the_key lb (gb_keys ir) r) mod m \<in> set (concat pss)) (concat rss) = concat rss"
      unfolding s using m by (intro filter_True) simp
    finally show mm: "mset (concat (map (\<lambda>p. filter (in_partition lb nw ir m p) (concat rss)) (concat pss))) = mset (concat rss)"
      by (simp add: in_partition_def [abs_def])
    show "rows_ok lb ir (concat (map (\<lambda>p. filter (in_partition lb nw ir m p) (concat rss)) (concat pss)))"
      by (rule rows_ok_perm [OF ok(2) mm [symmetric]])
    show "(\<forall>(n, e) \<in> set (gb_aggs ir). order_free e) \<and> \<not> gb_maintain_order ir
        \<or> concat (map (\<lambda>p. filter (in_partition lb nw ir m p) (concat rss)) (concat pss)) = []"
      using free
    proof
      assume none: "concat rss = []"
      show ?thesis unfolding none by simp
    qed simp
  qed
  ultimately show ?thesis unfolding ev_def by blast
qed

end
