(* ===== verification/GroupActorSpec.thy ===== *)
theory GroupActorSpec
  imports GroupShuffle
begin

text \<open>
  The group-by actor: whichever strategy the ranks choose, they choose it together, a tree reduction
  is chosen only when all input has been aggregated and always when the order of the rows matters,
  and the chunks that are sent are the requested group-by.
\<close>

section \<open>Local aggregation on every rank\<close>

definition local_result :: "'f::linordered_field library \<Rightarrow> 'f groupby_ir \<Rightarrow> bool \<Rightarrow> 'f row chunk list \<Rightarrow> 'f row aggregation \<Rightarrow> bool" where
  "local_result lb ir early chs a \<longleftrightarrow>
     (\<exists>used. chs = used @ ag_rest a \<and> stands lb ir (concat used) (ag_chunk a))
     \<and> (ag_drained a \<longrightarrow> ag_rest a = []) \<and> (\<not> early \<longrightarrow> ag_drained a)"

lemma local_result_drained: "local_result lb ir early chs a \<Longrightarrow> ag_drained a \<Longrightarrow> stands lb ir (concat chs) (ag_chunk a)"
  by (auto simp: local_result_def)

lemma local_ranks:
  assumes "from_ir ir = Inr dg" and "\<forall>chs \<in> set data. chunks_ok lb ir chs"
  shows "\<exists>aggs. rmap (local_aggregation alloc (piecewise_evaluation lb dg) (reduction_evaluation lb dg) target early) data = Inr aggs
     \<and> list_all2 (local_result lb ir early) data aggs"
proof -
  have "list_all2 (=) data data" by (rule list.rel_refl) simp
  then show ?thesis
    unfolding evaluations [OF assms(1)]
  proof (rule rmap_ranks)
    fix chs chs'
    assume "chs \<in> set data" "chs = chs'"
    then obtain a used where "local_aggregation alloc (piecewise lb ir) (reduction lb ir) target early chs' = Inr a"
      "chs = used @ ag_rest a" "stands lb ir (concat used) (ag_chunk a)" "if ag_drained a then ag_rest a = [] else early \<and> used \<noteq> []"
      using gb.local_aggregation_stands [of lb ir chs' alloc target early] assms(2) by blast
    then show "\<exists>a. local_aggregation alloc (piecewise lb ir) (reduction lb ir) target early chs' = Inr a \<and> local_result lb ir early chs a"
      by (intro exI [of _ a]) (auto simp: local_result_def split: if_splits)
  qed
qed

lemma rounds_rank:
  assumes dg: "from_ir ir = Inr dg" and ok: "chunks_ok lb ir chs" and a: "local_result lb ir early chs a"
  shows "\<exists>us. rbind (aggregate_rounds alloc (piecewise_evaluation lb dg) (reduction_evaluation lb dg) target (ag_drained a) (ag_rest a))
       (\<lambda>ts. Inr (ag_chunk a # ts)) = Inr us \<and> gb.covers lb ir chs us"
proof -
  obtain used where u: "chs = used @ ag_rest a" "stands lb ir (concat used) (ag_chunk a)" "ag_drained a \<Longrightarrow> ag_rest a = []"
    using a by (auto simp: local_result_def)
  have "chunks_ok lb ir (ag_rest a)" using ok u(1) gb.ok_suffix by blast
  then obtain us where us: "aggregate_rounds alloc (piecewise lb ir) (reduction lb ir) target (ag_drained a) (ag_rest a) = Inr us"
    "gb.covers lb ir (ag_rest a) us" using gb.rounds_cover [OF _ u(3)] by blast
  have "gb.covers lb ir chs (ag_chunk a # us)" using gb.covers_append [OF gb.covers_one [OF u(2)] us(2)] u(1) by simp
  then show ?thesis using us(1) by (simp add: evaluations [OF dg])
qed

section \<open>The choice\<close>

lemma choose_strategy_tree:
  assumes "0 < target"
  shows "\<exists>n. choose_strategy target local_count skip maintain es = Inr n
     \<and> (if use_tree skip maintain es then n = min 1 (if skip then local_count else fst (snd (snd es))) else 2 \<le> n)"
proof -
  obtain bytes rows chunks need where es: "es = (bytes, rows, chunks, need)" by (cases es)
  show ?thesis
  proof (cases "use_tree skip maintain es")
    case True
    then show ?thesis by (simp add: choose_strategy_def es)
  next
    case False
    then have tree: "use_tree skip maintain (bytes, rows, chunks, need) = False" by (simp add: es)
    have target: "(target = 0) = False" using assms by simp
    have "\<exists>n. choose_strategy target local_count skip maintain es = Inr (max 2 n)"
      unfolding choose_strategy_def es prod.case Let_def tree target if_False rbind.simps by (rule exI, rule refl)
    then show ?thesis using False by (auto simp: es)
  qed
qed

lemma choose_strategy_common:
  "choose_strategy target c False maintain es = choose_strategy target c' False maintain es"
  by (simp add: choose_strategy_def)

lemma use_tree_drained: "use_tree skip False (local_estimates alloc c a) \<Longrightarrow> ag_drained a"
  by (auto simp: use_tree_def local_estimates_def Let_def split: if_splits)

lemma use_tree_all_drained:
  assumes "use_tree skip False (allgather_reduce (map (\<lambda>(c, a). local_estimates alloc c a) (zip counts aggs)))"
    and "length counts = length aggs" and "a \<in> set aggs"
  shows "ag_drained a"
proof -
  let ?es = "map (\<lambda>(c, a). local_estimates alloc c a) (zip counts aggs)"
  have "sum_list (map (snd \<circ> snd \<circ> snd) ?es) = 0" using assms(1) by (simp add: use_tree_def allgather_reduce_def)
  moreover have "(snd \<circ> snd \<circ> snd) (local_estimates alloc c a) = of_bool (\<not> ag_drained a)" for c a
    by (simp add: local_estimates_def Let_def)
  ultimately have "\<forall>(c, a) \<in> set (zip counts aggs). ag_drained a" by (auto simp: comp_def)
  moreover obtain c where "(c, a) \<in> set (zip counts aggs)"
    using assms(2,3) by (metis in_set_impl_in_set_zip2)
  ultimately show ?thesis by blast
qed

lemma total_chunk_count:
  assumes "length counts = length aggs"
  shows "fst (snd (snd (allgather_reduce (map (\<lambda>(c, a). local_estimates alloc c a) (zip counts aggs))))) = sum_list counts"
proof -
  have "map ((fst \<circ> snd \<circ> snd) \<circ> (\<lambda>(c, a). local_estimates alloc c a)) (zip counts aggs) = map fst (zip counts aggs)"
    by (auto simp: local_estimates_def Let_def)
  then show ?thesis using assms by (simp add: allgather_reduce_def)
qed

section \<open>One rank\<close>

lemma tree_rank:
  assumes ok: "ir_ok lb ir" "rows_ok lb ir rows" and dg: "from_ir ir = Inr dg" and st: "stands lb ir rows (ts ! rank)"
    and n: "is_local \<or> dup \<or> length ts \<le> 1"
  shows "\<exists>out. tree_reduce lb dg dup is_local ts rank = Inr (dup, [out]) \<and> group_spec lb ir rows out"
proof -
  obtain out where "selection lb ir (ts ! rank) = Inr out" "group_spec lb ir rows out" using selection_spec [OF ok st] by blast
  then show ?thesis using n by (auto simp: tree_reduce_def Let_def evaluations [OF dg])
qed

lemma tree_all_ranks:
  assumes ok: "ir_ok lb ir" "rows_ok lb ir (concat (concat data))" "\<not> has_preshuffle ir" and dg: "from_ir ir = Inr dg"
    and st: "list_all2 (\<lambda>chs t. stands lb ir (concat chs) t) data ts" and n: "length ts > 1"
  shows "\<exists>out. tree_reduce lb dg False False ts rank = Inr (True, [out]) \<and> group_spec lb ir (concat (concat data)) out"
proof -
  have "list_all2 (stands lb ir) (map concat data) ts" using st by (simp add: list_all2_map1)
  then obtain t where t: "reduction lb ir (concat ts) = Inr t" "stands lb ir (concat (concat data)) t"
    using reduction_stands [OF ok(1) _ _ no_preshuffle_apart [OF ok(3)]] ok(2) by (metis concat_map_concat)
  obtain out where "selection lb ir t = Inr out" "group_spec lb ir (concat (concat data)) out" using selection_spec [OF ok(1,2) t(2)] by blast
  then show ?thesis using n t(1) by (simp add: tree_reduce_def Let_def evaluations [OF dg] evaluate_batch_def)
qed

lemma keeps_order_free:
  assumes "\<not> keeps_order ir"
  shows "\<forall>(n, e) \<in> set (gb_aggs ir). order_free e" and "\<not> gb_maintain_order ir"
proof -
  show "\<not> gb_maintain_order ir" using assms by (simp add: keeps_order_def)
  have "order_free e" if "(n, e) \<in> set (gb_aggs ir)" for n e
  proof -
    have "\<not> any_node stable_sorted e" "\<not> any_node order_sensitive e"
      using assms that by (auto simp: keeps_order_def has_stable_sorted_agg_def has_order_sensitive_agg_def list_ex_iff)
    then have "\<not> stable_sorted e" "\<not> order_sensitive e" by (subst (asm) any_node.simps, blast)+
    then show ?thesis by (cases e) auto
  qed
  then show "\<forall>(n, e) \<in> set (gb_aggs ir). order_free e" by blast
qed

lemma shuffle_ranks:
  fixes lb :: "'f::linordered_field library"
  assumes ok: "ir_ok lb ir" "rows_ok lb ir (concat (concat data))" "\<not> has_preshuffle ir" and dg: "from_ir ir = Inr dg"
    and aggs: "list_all2 (local_result lb ir early) data aggs" and nw: "delivers_all nw"
    and free: "\<not> keeps_order ir \<or> concat (concat data) = []" and ne: "data \<noteq> []"
  shows "\<exists>outss. length outss = length data \<and> group_spec lb ir (concat (concat data)) (concat (concat outss))
     \<and> (\<forall>rank < length data. shuffle_reduce lb nw dg target dup n False aggs rank = Inr (dup, outss ! rank))"
proof -
  define m where "m = max (length aggs) n"
  define rounds where "rounds a = rbind (aggregate_rounds (nw_alloc nw) (piecewise_evaluation lb dg) (reduction_evaluation lb dg)
    target (ag_drained a) (ag_rest a)) (\<lambda>ts. Inr (ag_chunk a # ts))" for a :: "'f row aggregation"
  have len: "length aggs = length data" using aggs by (auto dest: list_all2_lengthD)
  have okr: "chunks_ok lb ir chs" if "chs \<in> set data" for chs
    using rows_ok_concat [of lb ir "map concat data" "concat chs"] ok that no_preshuffle_apart
    by (auto simp: chunks_ok_def concat_map_concat)
  obtain inserted where ins: "rmap rounds aggs = Inr inserted" "list_all2 (gb.covers lb ir) data inserted"
    using rmap_ranks [OF aggs, of rounds "gb.covers lb ir"] rounds_rank [OF dg okr] unfolding rounds_def by blast
  obtain gs where gs: "concat gs = concat data" "list_all2 (stands lb ir) (map concat gs) (concat inserted)"
    using gb.covers_concat [OF ins(2)] unfolding gb.covers_def by blast
  have rows: "concat (map concat gs) = concat (concat data)" by (simp add: concat_map_concat gs(1))
  have m0: "0 < m" using ne len by (simp add: m_def less_max_iff_disj)
  have owned: "mset (concat (map (nw_owned nw (length aggs) m) [0..<length aggs])) = mset [0..<m]"
    using nw ne len by (simp add: delivers_all_def)
  obtain outss where o: "list_all2 (\<lambda>ps outs. rmap (\<lambda>p. rbind (reduction lb ir (extract_chunk nw dg m (concat inserted) p)) (selection lb ir)) ps = Inr outs)
      (map (nw_owned nw (length aggs) m) [0..<length aggs]) outss" "group_spec lb ir (concat (concat data)) (concat (concat outss))"
    using shuffle_spec [OF ok(1) _ ok(3) gs(2) dg nw _ owned m0] ok(2) free keeps_order_free unfolding rows by blast
  have "shuffle_reduce lb nw dg target dup n False aggs rank = Inr (dup, outss ! rank)" if r: "rank < length data" for rank
    using list_all2_nthD [OF o(1), of rank] r len ins(1) [unfolded rounds_def evaluations [OF dg]]
    by (simp add: shuffle_reduce_def Let_def evaluations [OF dg] m_def)
  moreover have "length outss = length data" using list_all2_lengthD [OF o(1)] len by simp
  ultimately show ?thesis using o(2) by blast
qed

lemma shuffle_one_rank:
  assumes ok: "ir_ok lb ir" "rows_ok lb ir (concat chs)" "\<not> has_preshuffle ir" and dg: "from_ir ir = Inr dg"
    and a: "local_result lb ir early chs (aggs ! rank)" and nw: "delivers_all nw"
    and free: "\<not> keeps_order ir \<or> concat chs = []"
  shows "\<exists>outs. shuffle_reduce lb nw dg target dup n True aggs rank = Inr (dup, outs) \<and> group_spec lb ir (concat chs) (concat outs)"
proof -
  have "list_all2 (local_result lb ir early) [chs] [aggs ! rank]" using a by simp
  then obtain outss where o: "length outss = 1" "group_spec lb ir (concat (concat [chs])) (concat (concat outss))"
    "\<forall>r < 1. shuffle_reduce lb nw dg target dup n False [aggs ! rank] r = Inr (dup, outss ! r)"
    using shuffle_ranks [OF ok(1) _ ok(3) dg _ nw, of "[chs]" early "[aggs ! rank]" target dup n] ok(2) free by auto
  have "shuffle_reduce lb nw dg target dup n True aggs rank = shuffle_reduce lb nw dg target dup n False [aggs ! rank] 0"
    by (simp add: shuffle_reduce_def Let_def)
  moreover obtain outs where "outss = [outs]" using o(1) by (cases outss) auto
  ultimately show ?thesis using o(2,3) by auto
qed

end
