(* ===== verification/GroupSample.thy ===== *)
theory GroupSample
  imports GroupActorSpec Complex_Main
begin

text \<open>
  A library and a network that keep the promises the group-by relies on, and a group-by of a table
  on two ranks: the number of rows and the mean of \<open>x\<close>, and the \<open>x\<close> of the row with the
  greatest \<open>x\<close>, for every \<open>k\<close>.
\<close>

section \<open>A library\<close>

text \<open>The unstable sort is a stable one, the hash group-by returns the keys in some order without
  repetition, and nothing but the order is ever asked of the rest.\<close>

definition sample_library :: "rat library" where
  "sample_library =
     \<lparr>lb_other = \<lambda>n cs. Inl NotImplementedError, lb_cast = \<lambda>t s a. Inl NotImplementedError, lb_sqrt = \<lambda>x. x, lb_junk = 7, lb_agg = \<lambda>a opt vs. Inl NotImplementedError,
      lb_sort = \<lambda>fs ts. map snd (stable_sort (entry_le fs fst) (zip ts [0..<length ts])),
      lb_key_flags = [(Ascending, NullBefore)], lb_group_order = remdups\<rparr>"

lemma argsort_ok:
  assumes "list_all (\<lambda>t. length t = length fs) ts"
  shows "mset (map snd (stable_sort (entry_le fs fst) (zip ts [0..<length ts]))) = mset [0..<length ts]"
    and "sorted_wrt (tuple_order fs) (map (nth ts) (map snd (stable_sort (entry_le fs fst) (zip ts [0..<length ts]))))"
proof -
  define s where "s = stable_sort (entry_le fs fst) (zip ts [0..<length ts])"
  have "mset (map snd s) = mset (map snd (zip ts [0..<length ts]))" by (simp only: s_def mset_map mset_stable_sort)
  then show "mset (map snd s) = mset [0..<length ts]" by simp
  have el: "ts ! i = t" "length t = length fs" if "(t, i) \<in> set s" for t i
  proof -
    have "(t, i) \<in> set (zip ts [0..<length ts])" using that by (simp add: s_def)
    then show "ts ! i = t" by (auto simp: set_zip)
    from \<open>(t, i) \<in> set (zip ts [0..<length ts])\<close> have "t \<in> set ts" by (rule set_zip_leftD)
    then show "length t = length fs" using assms by (auto simp: list_all_iff)
  qed
  have "map (nth ts) (map snd s) = map fst s" using el(1) by auto
  moreover have "sorted_wrt (tuple_order fs) (map fst s)"
    unfolding sorted_wrt_map
    by (rule sorted_wrt_mono_rel [OF _ entry.sorted_stable_sort [of fs fst "zip ts [0..<length ts]", folded s_def]])
      (use el(2) in \<open>auto simp: entry_le_iff\<close>)
  ultimately show "sorted_wrt (tuple_order fs) (map (nth ts) (map snd s))" by metis
qed

lemma sample_library_ok: "library_ok sample_library"
  using argsort_ok by (auto simp: library_ok_def sort_ok_def order_ok_def sample_library_def)

section \<open>A network\<close>

definition sample_network :: "rat network" where
  "sample_network =
     \<lparr>nw_alloc = length, nw_hash = length, nw_arrange = \<lambda>p xs. rev xs,
      nw_owned = \<lambda>nranks n rank. if rank = 0 then [0..<n] else []\<rparr>"

lemma sample_network_delivers: "delivers_all sample_network"
proof -
  have "concat (map (\<lambda>rank. if rank = 0 then [0..<n] else []) [0..<nranks]) = [0..<n]" if "0 < nranks" for n nranks :: nat
  proof -
    have "concat (map (\<lambda>rank. if rank = 0 then [0..<n] else []) [Suc 0..<nranks]) = []" by simp
    then show ?thesis using that by (simp add: upt_conv_Cons)
  qed
  then show ?thesis by (simp add: delivers_all_def sample_network_def)
qed

section \<open>A table\<close>

definition sample_ir :: "rat groupby_ir" where
  "sample_ir =
     \<lparr>gb_schema = [''k'', ''n'', ''m'', ''g''], gb_keys = [(''k'', Col (IntT 64) ''k'')],
      gb_aggs = [(''n'', Len (UIntT 32)), (''m'', Agg FloatT AggMean NoOptions (Col FloatT ''x'')),
        (''g'', SortedAgg FloatT AggLast \<lparr>so_stable = False, so_nulls_last = [False], so_descending = [False]\<rparr>
           (Col FloatT ''x'') [Col FloatT ''x''])],
      gb_maintain_order = False, gb_zlice = None\<rparr>"

definition sample_row :: "int \<Rightarrow> rat option \<Rightarrow> rat row" where
  "sample_row k x = [(''k'', Some (IntV k)), (''x'', map_option FltV x)]"

definition sample_data :: "rat row chunk list list" where
  "sample_data = [[[sample_row 1 (Some 2), sample_row 2 None], [sample_row 1 (Some 6)]], [[sample_row 1 (Some 4)]]]"

definition sample_metadata :: "rat cell announced" where
  "sample_metadata = \<lparr>an_counts = [2, 1], an_partitioning = None, an_duplicated = False\<rparr>"

lemma sample_ir_ok: "ir_ok sample_library sample_ir"
proof -
  have "case decompositions sample_ir of Inl _ \<Rightarrow> False | Inr _ \<Rightarrow> True"
    by (simp add: decompositions_def sample_ir_def decompose.simps decompose_sorted_agg_def Let_def)
  then show ?thesis
    using sample_library_ok by (simp add: ir_ok_def sample_ir_def sample_library_def)
qed

lemma sample_rows_ok: "rows_ok sample_library sample_ir (concat (concat sample_data))"
  by (simp add: rows_ok_def keys_ok_def sample_data_def sample_row_def sample_ir_def key_of_def keys_in_def rows_of_def
      typed_def cells_def cell_has_type_def numeric_def all_flts_def count_fits_def is_integral_def)

lemma sample_no_preshuffle: "\<not> has_preshuffle sample_ir"
  by (simp add: has_preshuffle_def decompositions_def sample_ir_def decompose.simps decompose_sorted_agg_def Let_def combine_def)

end
