(* ===== verification/GroupActorCorrect.thy ===== *)
theory GroupActorCorrect
  imports GroupSample
begin

text \<open>
  The group-by actor sends the requested group-by: what its input has to satisfy, that the announced
  partitioning keeps the keys of different chunks or ranks apart, and the theorem over all
  strategies.
\<close>

section \<open>The announced partitioning\<close>

text \<open>The columns of a row by their index in the schema of the input.\<close>

definition column_row :: "string list \<Rightarrow> 'f row \<Rightarrow> 'f cell vrow" where
  "column_row columns r = (\<lambda>i. case map_of r (columns ! i) of None \<Rightarrow> None | Some c \<Rightarrow> c)"

definition metadata_true ::
  "('f::linordered_field cell list \<Rightarrow> nat) \<Rightarrow> string list \<Rightarrow> 'f cell announced \<Rightarrow> 'f row chunk list list \<Rightarrow> bool" where
  "metadata_true hash columns metadata data \<longleftrightarrow>
     (\<forall>p. an_partitioning metadata = Some p \<longrightarrow> partitioning_holds hash p (map (map (map (column_row columns))) data))"

lemma key_column:
  "key_of lb keys r = Inr k \<Longrightarrow> key_of lb keys s = Inr k \<Longrightarrow> c \<in> set (concrete_prefix keys) \<Longrightarrow> map_of r c = map_of s c"
proof (induction keys arbitrary: k)
  case (Cons ne keys)
  obtain n e where ne: "ne = (n, e)" by (cases ne)
  obtain v k' where r: "eval lb r e = Inr v" "key_of lb keys r = Inr k'" "k = v # k'"
    using Cons.prems(1) by (auto simp: key_of_def ne res_simps)
  have s: "eval lb s e = Inr v" "key_of lb keys s = Inr k'"
    using Cons.prems(2) by (auto simp: key_of_def ne res_simps r(3))
  show ?case
  proof (cases e)
    case (Col t d)
    then show ?thesis using r s Cons.IH [OF r(2) s(2)] Cons.prems(3) by (auto simp: ne res_simps)
  qed (use Cons.prems(3) in \<open>simp_all add: ne\<close>)
qed simp

lemma names_to_indices_columns:
  "names_to_indices names columns = Inr idx \<Longrightarrow> i \<in> set idx \<Longrightarrow> columns ! i \<in> set names"
proof (induction names arbitrary: idx)
  case (Cons n names)
  then obtain j js where j: "name_index columns n = Some j" "idx = j # js" "names_to_indices names columns = Inr js"
    by (auto simp: names_to_indices_def res_simps of_option_def split: option.splits)
  have "columns ! j = n" using map_of_SomeD [OF j(1) [unfolded name_index_def]] by (auto simp: set_zip)
  then show ?case using Cons j(2,3) by auto
qed (simp add: names_to_indices_def)

lemma keys_in_row: "k \<in> set (keys_in lb keys rs) \<Longrightarrow> \<exists>r \<in> set rs. key_of lb keys r = Inr k"
  by (auto simp: keys_in_def split: sum.splits)

lemma colocated_keys_apart:
  assumes idx: "names_to_indices (concrete_prefix (gb_keys ir)) columns = Inr idx"
    and col: "colocated idx (map (map (column_row columns)) parts)"
  shows "keys_apart lb ir parts"
  unfolding keys_apart_def sorted_wrt_iff_nth_less
proof (intro allI impI)
  fix i j
  assume ij: "i < j" "j < length parts"
  show "set (keys_in lb (gb_keys ir) (parts ! i)) \<inter> set (keys_in lb (gb_keys ir) (parts ! j)) = {}"
  proof (rule ccontr)
    assume "\<not> ?thesis"
    then obtain k where "k \<in> set (keys_in lb (gb_keys ir) (parts ! i))" "k \<in> set (keys_in lb (gb_keys ir) (parts ! j))" by blast
    then obtain r s where rs: "r \<in> set (parts ! i)" "s \<in> set (parts ! j)" "key_of lb (gb_keys ir) r = Inr k" "key_of lb (gb_keys ir) s = Inr k"
      using keys_in_row by meson
    have "map_of r c = map_of s c" if "c \<in> set (concrete_prefix (gb_keys ir))" for c
      using key_column [OF rs(3,4) that] .
    then have same: "map (column_row columns r) idx = map (column_row columns s) idx"
      using names_to_indices_columns [OF idx] by (auto simp: column_row_def)
    have "column_row columns r \<in> set (map (map (column_row columns)) parts ! i)"
      "column_row columns s \<in> set (map (map (column_row columns)) parts ! j)" using rs(1,2) ij by simp_all
    moreover have "i < length (map (map (column_row columns)) parts)" "j < length (map (map (column_row columns)) parts)" using ij by simp_all
    ultimately have "i = j" using col [unfolded colocated_def, rule_format] same by blast
    then show False using ij(1) by simp
  qed
qed

section \<open>Chunk by chunk\<close>

lemma rows_ok_chunk:
  assumes "if dup then \<forall>chs \<in> set data. rows_ok lb ir (concat chs) else rows_ok lb ir (concat (concat data))"
    and "chs \<in> set data"
  shows "rows_ok lb ir (concat chs)"
proof (cases dup)
  case False
  then have "rows_ok lb ir (concat (map concat data))" using assms(1) by (simp add: concat_map_concat)
  then show ?thesis by (rule rows_ok_concat) (use assms(2) in simp)
qed (use assms in simp)

lemma direct_chunks:
  assumes ok: "ir_ok lb ir" and rows: "\<forall>rs \<in> set chs. rows_ok lb ir rs"
  shows "\<exists>out. rmap (group_by lb ir) chs = Inr out \<and> list_all2 (group_spec lb ir) chs out"
proof -
  have "list_all2 (=) chs chs" by (rule list.rel_refl) simp
  then show ?thesis by (rule rmap_ranks) (use direct_spec [OF ok] rows in blast)
qed

lemma chunkwise_ranks:
  assumes ok: "ir_ok lb ir" and rows: "\<forall>chs \<in> set data. \<forall>rs \<in> set chs. rows_ok lb ir rs"
  shows "\<exists>outs. rmap (\<lambda>chunks. rbind (rmap (group_by lb ir) chunks) (\<lambda>out. Inr (dup, out))) data = Inr outs
     \<and> list_all2 (\<lambda>chs o'. fst o' = dup \<and> list_all2 (group_spec lb ir) chs (snd o')) data outs"
proof -
  have "list_all2 (=) data data" by (rule list.rel_refl) simp
  then show ?thesis
  proof (rule rmap_ranks)
    fix chs chs'
    assume "chs \<in> set data" "chs = chs'"
    then show "\<exists>z. rbind (rmap (group_by lb ir) chs') (\<lambda>out. Inr (dup, out)) = Inr z
        \<and> fst z = dup \<and> list_all2 (group_spec lb ir) chs (snd z)"
      using direct_chunks [OF ok, of chs'] rows by auto
  qed
qed

section \<open>Results\<close>

text \<open>What the ranks send: of a duplicated input every rank sends the result of its rows; otherwise
  every rank sends the whole result, announced as duplicated, or the ranks send parts of it.\<close>

definition actor_result ::
  "'f::linordered_field library \<Rightarrow> 'f groupby_ir \<Rightarrow> bool \<Rightarrow> 'f row chunk list list \<Rightarrow> (bool \<times> 'f row chunk list) list \<Rightarrow> bool" where
  "actor_result lb ir duplicated data outs \<longleftrightarrow>
     length outs = length data
     \<and> (if duplicated
        then list_all2 (\<lambda>chs out. fst out \<and> group_spec lb ir (concat chs) (concat (snd out))) data outs
        else list_all (\<lambda>out. fst out \<and> group_spec lb ir (concat (concat data)) (concat (snd out))) outs
          \<or> list_all (\<lambda>out. \<not> fst out) outs \<and> group_spec lb ir (concat (concat data)) (concat (concat (map snd outs))))"

lemma result_by_rank:
  assumes each: "list_all2 (\<lambda>chs out. fst out = dup \<and> group_spec lb ir (concat chs) (concat (snd out))) data outs"
    and apart: "dup \<or> keys_apart lb ir (map concat data)" and ok: "ir_ok lb ir"
  shows "actor_result lb ir dup data outs"
proof (cases dup)
  case True
  then show ?thesis using each by (auto simp: actor_result_def list_all2_lengthD)
next
  case False
  have "list_all2 (group_spec lb ir) (map concat data) (map (concat \<circ> snd) outs)"
    using each by (auto simp: list_all2_map1 list_all2_map2 elim: list_all2_mono)
  then have "group_spec lb ir (concat (map concat data)) (concat (map (concat \<circ> snd) outs))"
    by (rule group_spec_concat) (use apart False ok in simp_all)
  moreover have "concat (map (concat \<circ> snd) outs) = concat (concat (map snd outs))"
    by (induction outs) simp_all
  moreover have "list_all (\<lambda>out. \<not> fst out) outs"
    using each False by (induction rule: list_all2_induct) auto
  ultimately show ?thesis using each False by (auto simp: actor_result_def concat_map_concat list_all2_lengthD)
qed

lemma chunkwise_result:
  assumes each: "list_all2 (\<lambda>chs o'. fst o' = dup \<and> list_all2 (group_spec lb ir) chs (snd o')) data outs"
    and apart: "if dup then \<forall>chs \<in> set data. keys_apart lb ir chs else keys_apart lb ir (concat data)" and ok: "ir_ok lb ir"
  shows "actor_result lb ir dup data outs"
proof (cases dup)
  case True
  have "list_all2 (\<lambda>chs out. fst out = dup \<and> group_spec lb ir (concat chs) (concat (snd out))) data outs"
    unfolding list_all2_conv_all_nth
  proof (intro conjI allI impI)
    show len: "length data = length outs" using each by (rule list_all2_lengthD)
    fix i assume i: "i < length data"
    show "fst (outs ! i) = dup" using list_all2_nthD [OF each i] by simp
    show "group_spec lb ir (concat (data ! i)) (concat (snd (outs ! i)))"
      using group_spec_concat [of lb ir "data ! i" "snd (outs ! i)"] list_all2_nthD [OF each i] apart True ok i by simp
  qed
  then show ?thesis by (rule result_by_rank [OF _ _ ok]) (simp add: True)
next
  case False
  have "list_all2 (group_spec lb ir) (concat data) (concat (map snd outs))"
    using each by (induction rule: list_all2_induct) (auto intro: list_all2_appendI)
  then have "group_spec lb ir (concat (concat data)) (concat (concat (map snd outs)))"
    by (rule group_spec_concat) (use apart False ok in simp_all)
  moreover have "list_all (\<lambda>out. \<not> fst out) outs"
    using each False by (induction rule: list_all2_induct) auto
  ultimately show ?thesis using each False by (auto simp: actor_result_def list_all2_lengthD)
qed


section \<open>Local and global strategies\<close>

lemma use_tree_maintain: "use_tree skip maintain es \<longleftrightarrow> maintain \<or> use_tree skip False es"
  by (cases es) (simp add: use_tree_def)

definition strategy_rank ::
  "'f::linordered_field library \<Rightarrow> 'f network \<Rightarrow> 'f decomposed_groupby \<Rightarrow> nat \<Rightarrow> bool \<Rightarrow> bool \<Rightarrow> nat list
   \<Rightarrow> 'f row aggregation list \<Rightarrow> nat \<Rightarrow> (bool \<times> 'f row chunk list) res" where
  "strategy_rank lb nw dg target dup skip output_counts aggs rank =
     (if output_counts ! rank = 1 then tree_reduce lb dg dup skip (map ag_chunk aggs) rank
      else shuffle_reduce lb nw dg target dup (output_counts ! rank) skip aggs rank)"

lemma list_all2_upt: "list_all2 (\<lambda>x i. i < length xs \<and> x = xs ! i) xs [0..<length xs]"
  by (simp add: list_all2_conv_all_nth)

lemma by_ranks:
  assumes "\<And>i. i < length xs \<Longrightarrow> \<exists>z. f i = Inr z \<and> Q (xs ! i) z"
  shows "\<exists>zs. rmap f [0..<length xs] = Inr zs \<and> list_all2 Q xs zs"
  by (rule rmap_ranks [OF list_all2_upt]) (use assms in auto)

lemma local_strategies:
  assumes ok: "ir_ok lb ir" "\<not> has_preshuffle ir" and dg: "from_ir ir = Inr dg" and nw: "delivers_all nw" and t: "0 < target"
    and rows: "\<forall>chs \<in> set data. rows_ok lb ir (concat chs)"
    and counts: "length counts = length data" "\<forall>i < length data. counts ! i = 0 \<longrightarrow> concat (data ! i) = []"
    and aggs: "list_all2 (local_result lb ir (\<not> keeps_order ir)) data aggs"
    and es: "es = map (\<lambda>(c, a). local_estimates alloc c a) (zip counts aggs)"
  shows "\<exists>ns outs. rmap (\<lambda>rank. choose_strategy target (counts ! rank) True (keeps_order ir) (es ! rank)) [0..<length data] = Inr ns
     \<and> rmap (strategy_rank lb nw dg target dup True ns aggs) [0..<length data] = Inr outs
     \<and> list_all2 (\<lambda>chs out. fst out = dup \<and> group_spec lb ir (concat chs) (concat (snd out))) data outs"
proof -
  have len: "length aggs = length data" using aggs by (auto dest: list_all2_lengthD)
  let ?tree = "\<lambda>r. use_tree True (keeps_order ir) (es ! r)"
  define chosen where "chosen r n \<longleftrightarrow> (if ?tree r then n = min 1 (counts ! r) else 2 \<le> n)" for r n
  have "\<exists>n. choose_strategy target (counts ! r) True (keeps_order ir) (es ! r) = Inr n \<and> chosen r n" for r
    using choose_strategy_tree [OF t, of "counts ! r" True "keeps_order ir" "es ! r"] unfolding chosen_def if_True .
  then have "\<exists>zs. rmap (\<lambda>r. choose_strategy target (counts ! r) True (keeps_order ir) (es ! r)) [0..<length data] = Inr zs
      \<and> list_all2 chosen [0..<length data] zs"
    using by_ranks [of "[0..<length data]" "\<lambda>r. choose_strategy target (counts ! r) True (keeps_order ir) (es ! r)" chosen]
    by simp
  then obtain ns where ns: "rmap (\<lambda>r. choose_strategy target (counts ! r) True (keeps_order ir) (es ! r)) [0..<length data] = Inr ns"
    "list_all2 chosen [0..<length data] ns" by blast
  have "\<exists>z. strategy_rank lb nw dg target dup True ns aggs r = Inr z
      \<and> fst z = dup \<and> group_spec lb ir (concat (data ! r)) (concat (snd z))" if r: "r < length data" for r
  proof -
    have a: "local_result lb ir (\<not> keeps_order ir) (data ! r) (aggs ! r)" using list_all2_nthD [OF aggs r] .
    have rok: "rows_ok lb ir (concat (data ! r))" using rows r by simp
    have n: "if ?tree r then ns ! r = min 1 (counts ! r) else 2 \<le> ns ! r"
      using list_all2_nthD [OF ns(2), of r] r by (simp add: chosen_def)
    have e: "es ! r = local_estimates alloc (counts ! r) (aggs ! r)" using r counts(1) len by (simp add: es)
    show ?thesis
    proof (cases "ns ! r = 1")
      case True
      then have "?tree r" using n by (auto split: if_splits)
      then have "keeps_order ir \<or> use_tree True False (es ! r)" using use_tree_maintain by blast
      then have "ag_drained (aggs ! r)" using a use_tree_drained e by (auto simp: local_result_def)
      then have st: "stands lb ir (concat (data ! r)) (map ag_chunk aggs ! r)" using local_result_drained [OF a] r len by simp
      obtain out where "tree_reduce lb dg dup True (map ag_chunk aggs) r = Inr (dup, [out])" "group_spec lb ir (concat (data ! r)) out"
        using tree_rank [OF ok(1) rok dg st] by blast
      then show ?thesis using True by (simp add: strategy_rank_def)
    next
      case False
      have "\<not> keeps_order ir \<or> concat (data ! r) = []"
      proof (cases "?tree r")
        case True
        then have "counts ! r = 0" using n False by (auto simp: min_def split: if_splits)
        then show ?thesis using counts(2) r by blast
      qed (use use_tree_maintain in blast)
      then obtain outs where "shuffle_reduce lb nw dg target dup (ns ! r) True aggs r = Inr (dup, outs)" "group_spec lb ir (concat (data ! r)) (concat outs)"
        using shuffle_one_rank [OF ok(1) rok ok(2) dg a nw] by blast
      then show ?thesis using False by (simp add: strategy_rank_def)
    qed
  qed
  then have "\<exists>outs. rmap (strategy_rank lb nw dg target dup True ns aggs) [0..<length data] = Inr outs
      \<and> list_all2 (\<lambda>chs out. fst out = dup \<and> group_spec lb ir (concat chs) (concat (snd out))) data outs"
    by (rule by_ranks)
  then show ?thesis using ns(1) by blast
qed

lemma global_strategies:
  assumes ok: "ir_ok lb ir" "\<not> has_preshuffle ir" and dg: "from_ir ir = Inr dg" and nw: "delivers_all nw" and t: "0 < target"
    and rows: "rows_ok lb ir (concat (concat data))" and ne: "data \<noteq> []"
    and counts: "length counts = length data" "\<forall>i < length data. counts ! i = 0 \<longrightarrow> concat (data ! i) = []"
    and aggs: "list_all2 (local_result lb ir (\<not> keeps_order ir)) data aggs"
    and es: "es = map (\<lambda>(c, a). local_estimates alloc c a) (zip counts aggs)"
  shows "\<exists>ns outs. rmap (\<lambda>rank. choose_strategy target (counts ! rank) False (keeps_order ir) (allgather_reduce es)) [0..<length data] = Inr ns
     \<and> rmap (strategy_rank lb nw dg target False False ns aggs) [0..<length data] = Inr outs
     \<and> actor_result lb ir False data outs"
proof -
  have len: "length aggs = length data" using aggs by (auto dest: list_all2_lengthD)
  have chunks: "fst (snd (snd (allgather_reduce es))) = sum_list counts"
    unfolding es by (rule total_chunk_count) (use counts len in auto)
  obtain n where n: "choose_strategy target 0 False (keeps_order ir) (allgather_reduce es) = Inr n"
    "if use_tree False (keeps_order ir) (allgather_reduce es) then n = min 1 (sum_list counts) else 2 \<le> n"
    using choose_strategy_tree [OF t, of 0 False "keeps_order ir" "allgather_reduce es"] chunks by auto
  have same: "choose_strategy target c False (keeps_order ir) (allgather_reduce es) = Inr n" for c
    using n(1) choose_strategy_common by metis
  have ns: "rmap (\<lambda>rank. choose_strategy target (counts ! rank) False (keeps_order ir) (allgather_reduce es)) [0..<length data]
      = Inr (map (\<lambda>_. n) [0..<length data])" by (rule rmap_all_Inr) (rule same)
  have "\<exists>outs. rmap (strategy_rank lb nw dg target False False (map (\<lambda>_. n) [0..<length data]) aggs) [0..<length data] = Inr outs
     \<and> actor_result lb ir False data outs"
  proof (cases "n = 1")
    case True
    have drained: "ag_drained a" if a: "a \<in> set aggs" for a
    proof (cases "keeps_order ir")
      case True
      then show ?thesis using aggs a by (auto simp: list_all2_conv_all_nth in_set_conv_nth local_result_def)
    next
      case False
      then have "use_tree False False (allgather_reduce es)" using n(2) True by (auto split: if_splits)
      then show ?thesis unfolding es by (rule use_tree_all_drained) (use counts(1) len a in auto)
    qed
    have st: "list_all2 (\<lambda>chs t. stands lb ir (concat chs) t) data (map ag_chunk aggs)"
      unfolding list_all2_conv_all_nth
    proof (intro conjI allI impI)
      fix i assume i: "i < length data"
      have "ag_drained (aggs ! i)" by (rule drained) (use i len in simp)
      then show "stands lb ir (concat (data ! i)) (map ag_chunk aggs ! i)"
        using local_result_drained [OF list_all2_nthD [OF aggs i]] i len by simp
    qed (simp add: len)
    show ?thesis
    proof (cases "length data > 1")
      case more: True
      have "length (map ag_chunk aggs) > 1" using more len by simp
      then obtain out where o: "tree_reduce lb dg False False (map ag_chunk aggs) 0 = Inr (True, [out])" "group_spec lb ir (concat (concat data)) out"
        using tree_all_ranks [OF ok(1) rows ok(2) dg st] by blast
      have "tree_reduce lb dg False False (map ag_chunk aggs) r = tree_reduce lb dg False False (map ag_chunk aggs) 0" for r
        using more len by (simp add: tree_reduce_def)
      then have out: "tree_reduce lb dg False False (map ag_chunk aggs) r = Inr (True, [out])" "group_spec lb ir (concat (concat data)) out" for r
        using o by simp_all
      have "rmap (strategy_rank lb nw dg target False False (map (\<lambda>_. n) [0..<length data]) aggs) [0..<length data]
          = Inr (map (\<lambda>_. (True, [out])) [0..<length data])"
        by (rule rmap_all_Inr) (use out(1) True in \<open>simp add: strategy_rank_def\<close>)
      moreover have "actor_result lb ir False data (map (\<lambda>_. (True, [out])) [0..<length data])"
        using out(2) by (simp add: actor_result_def list_all_iff)
      ultimately show ?thesis by blast
    next
      case False
      then obtain chs where chs: "data = [chs]" using ne by (cases data) auto
      have "stands lb ir (concat chs) (map ag_chunk aggs ! 0)" "rows_ok lb ir (concat chs)" using st rows by (auto simp: chs list_all2_Cons1)
      then obtain out where "tree_reduce lb dg False False (map ag_chunk aggs) 0 = Inr (False, [out])" "group_spec lb ir (concat chs) out"
        using tree_rank [OF ok(1) _ dg, of "concat chs" "map ag_chunk aggs" 0 False False] len chs by auto
      then show ?thesis using True by (simp add: chs strategy_rank_def actor_result_def)
    qed
  next
    case False
    have "\<not> keeps_order ir \<or> concat (concat data) = []"
    proof (cases "use_tree False (keeps_order ir) (allgather_reduce es)")
      case True
      then have "n = min 1 (sum_list counts)" using n(2) by simp
      then have "sum_list counts = 0" using False by (cases "sum_list counts") simp_all
      then have "\<forall>i < length data. counts ! i = 0" using counts(1) by simp
      then have "\<forall>i < length data. concat (data ! i) = []" using counts(2) by blast
      then have "\<forall>chs \<in> set data. concat chs = []" by (metis in_set_conv_nth)
      then show ?thesis by auto
    qed (use use_tree_maintain in blast)
    then obtain outss where o: "length outss = length data" "group_spec lb ir (concat (concat data)) (concat (concat outss))"
      "\<forall>rank < length data. shuffle_reduce lb nw dg target False n False aggs rank = Inr (False, outss ! rank)"
      using shuffle_ranks [OF ok(1) rows ok(2) dg aggs nw _ ne] by blast
    have "rmap (strategy_rank lb nw dg target False False (map (\<lambda>_. n) [0..<length data]) aggs) [0..<length data]
        = Inr (map (\<lambda>r. (False, outss ! r)) [0..<length data])"
      by (rule rmap_all_Inr) (use o(3) False in \<open>simp add: strategy_rank_def\<close>)
    moreover have "map (snd \<circ> (\<lambda>r. (False, outss ! r))) [0..<length data] = outss"
      using o(1) by (auto intro: nth_equalityI)
    then have "actor_result lb ir False data (map (\<lambda>r. (False, outss ! r)) [0..<length data])"
      using o(2) by (simp add: actor_result_def list_all_iff)
    ultimately show ?thesis by blast
  qed
  then show ?thesis using ns by blast
qed


section \<open>The actor\<close>

definition actor_input ::
  "'f::linordered_field library \<Rightarrow> ('f cell list \<Rightarrow> nat) \<Rightarrow> 'f groupby_ir \<Rightarrow> bool \<Rightarrow> string list \<Rightarrow> 'f cell announced
   \<Rightarrow> 'f row chunk list list \<Rightarrow> bool" where
  "actor_input lb hash ir child_is_repartition columns metadata data \<longleftrightarrow>
     ir_ok lb ir \<and> data \<noteq> []
     \<and> (if an_duplicated metadata then \<forall>chs \<in> set data. rows_ok lb ir (concat chs) else rows_ok lb ir (concat (concat data)))
     \<and> length (an_counts metadata) = length data
     \<and> (\<forall>i < length data. an_counts metadata ! i = 0 \<longrightarrow> concat (data ! i) = [])
     \<and> (child_is_repartition \<longrightarrow> (\<forall>i < length data. an_counts metadata ! i = 1 \<longrightarrow> length (data ! i) \<le> 1))
     \<and> metadata_true hash columns metadata data"

text \<open>The schemes that the actor derives for the keys: strict enough for chunk by chunk, or with no
  order across ranks.\<close>

definition resolved :: "'f groupby_ir \<Rightarrow> string list \<Rightarrow> 'f cell announced \<Rightarrow> nat \<Rightarrow> 'f cell normalized res" where
  "resolved ir columns metadata nranks =
     rbind (names_to_indices (concrete_prefix (gb_keys ir)) columns) (\<lambda>idx.
       Inr (from_keys (an_partitioning metadata) nranks (Columns idx) True))"

definition strict_level :: "'f cell announced \<Rightarrow> 'f cell normalized \<Rightarrow> bool" where
  "strict_level metadata p \<longleftrightarrow> is_strictly_partitioned p (if an_duplicated metadata then LocalLevel else Flat)"

lemma strict_level_apart:
  fixes lb :: "'f::linordered_field library"
  assumes idx: "names_to_indices (concrete_prefix (gb_keys ir)) columns = Inr idx"
    and md: "metadata_true hash columns metadata data"
    and strict: "is_strictly_partitioned (from_keys (an_partitioning metadata) (length data) (Columns idx) True) level"
    and parts: "map (map (column_row columns)) parts \<in> set (level_parts level (map (map (map (column_row columns))) data))"
  shows "keys_apart lb ir parts"
proof (rule colocated_keys_apart [OF idx])
  have "colocated (requested_columns (Columns idx)) (map (map (column_row columns)) parts)"
    by (rule strict_partitioning_sound [OF _ _ parts, where metadata = "an_partitioning metadata"])
      (use md strict in \<open>auto simp: metadata_true_def\<close>)
  then show "colocated idx (map (map (column_row columns)) parts)" by simp
qed

lemma keys_apart_small: "length rss \<le> 1 \<Longrightarrow> keys_apart lb ir rss"
  by (cases rss) (auto simp: keys_apart_def)


lemma chunkwise_branch:
  assumes inp: "actor_input lb hash ir child_is_repartition columns metadata data"
    and idx: "names_to_indices (concrete_prefix (gb_keys ir)) columns = Inr idx"
    and p: "p = from_keys (an_partitioning metadata) (length data) (Columns idx) True"
    and branch: "strict_level metadata p
      \<or> (\<forall>rank < length data. an_counts metadata ! rank = 1 \<and> (an_duplicated metadata \<or> length data = 1) \<and> child_is_repartition)"
  shows "\<exists>outs. rmap (\<lambda>chunks. rbind (rmap (group_by lb ir) chunks) (\<lambda>out. Inr (an_duplicated metadata, out))) data = Inr outs
     \<and> actor_result lb ir (an_duplicated metadata) data outs"
proof -
  let ?dup = "an_duplicated metadata"
  have ok: "ir_ok lb ir" and rows: "if ?dup then \<forall>chs \<in> set data. rows_ok lb ir (concat chs) else rows_ok lb ir (concat (concat data))"
    and one: "child_is_repartition \<longrightarrow> (\<forall>i < length data. an_counts metadata ! i = 1 \<longrightarrow> length (data ! i) \<le> 1)"
    and md: "metadata_true hash columns metadata data" using inp unfolding actor_input_def by blast+
  have each: "\<forall>chs \<in> set data. \<forall>rs \<in> set chs. rows_ok lb ir rs"
    using rows_ok_chunk [OF rows] rows_ok_concat by blast
  obtain outs where outs: "rmap (\<lambda>chunks. rbind (rmap (group_by lb ir) chunks) (\<lambda>out. Inr (?dup, out))) data = Inr outs"
    "list_all2 (\<lambda>chs o'. fst o' = ?dup \<and> list_all2 (group_spec lb ir) chs (snd o')) data outs"
    using chunkwise_ranks [OF ok each, of "an_duplicated metadata"] by (elim exE conjE)
  have apart: "if ?dup then \<forall>chs \<in> set data. keys_apart lb ir chs else keys_apart lb ir (concat data)"
  proof (cases "strict_level metadata p")
    case True
    then have strict: "is_strictly_partitioned (from_keys (an_partitioning metadata) (length data) (Columns idx) True) (if ?dup then LocalLevel else Flat)"
      by (simp only: strict_level_def p)
    show ?thesis
      using strict_level_apart [OF idx md strict] by (cases ?dup) (auto simp: map_concat)
  next
    case False
    then have f: "\<forall>rank < length data. an_counts metadata ! rank = 1 \<and> (?dup \<or> length data = 1) \<and> child_is_repartition"
      using branch by blast
    have small: "length chs \<le> 1" if c: "chs \<in> set data" for chs
    proof -
      obtain i where i: "i < length data" "data ! i = chs" using c by (auto simp: in_set_conv_nth)
      have "an_counts metadata ! i = 1" "child_is_repartition" using f i(1) by blast+
      then show ?thesis using one i by auto
    qed
    show ?thesis
    proof (cases ?dup)
      case False
      have "data \<noteq> []" using inp by (simp add: actor_input_def)
      then have "length data = 1" using f False by auto
      then obtain chs where "data = [chs]" by (cases data) auto
      then show ?thesis using keys_apart_small [OF small] False by simp
    qed (use keys_apart_small [OF small] in simp)
  qed
  show ?thesis by (rule exI [of _ outs], rule conjI, rule outs(1), rule chunkwise_result [OF outs(2) apart ok])
qed

lemma dynamic_branch:
  fixes lb :: "'f::linordered_field library"
  assumes inp: "actor_input lb hash ir child_is_repartition columns metadata data"
    and idx: "names_to_indices (concrete_prefix (gb_keys ir)) columns = Inr idx"
    and p: "p = from_keys (an_partitioning metadata) (length data) (Columns idx) True"
    and pre: "\<not> has_preshuffle ir" and dg: "from_ir ir = Inr dg" and nw: "delivers_all nw" and t: "0 < target"
    and skip: "skip = (an_duplicated metadata \<or> (case np_inter p of HashScheme cols m \<Rightarrow> True | _ \<Rightarrow> False))"
  shows "\<exists>aggs ns outs. rmap (local_aggregation (nw_alloc nw) (piecewise_evaluation lb dg) (reduction_evaluation lb dg) target (\<not> keeps_order ir)) data = Inr aggs
     \<and> rmap (\<lambda>rank. choose_strategy target (an_counts metadata ! rank) skip (keeps_order ir)
         (if skip then map (\<lambda>(c, a). local_estimates (nw_alloc nw) c a) (zip (an_counts metadata) aggs) ! rank
          else allgather_reduce (map (\<lambda>(c, a). local_estimates (nw_alloc nw) c a) (zip (an_counts metadata) aggs)))) [0..<length data] = Inr ns
     \<and> rmap (strategy_rank lb nw dg target (an_duplicated metadata) skip ns aggs) [0..<length data] = Inr outs
     \<and> actor_result lb ir (an_duplicated metadata) data outs"
proof -
  let ?dup = "an_duplicated metadata"
  have ok: "ir_ok lb ir" and ne: "data \<noteq> []" and rows: "if ?dup then \<forall>chs \<in> set data. rows_ok lb ir (concat chs) else rows_ok lb ir (concat (concat data))"
    and counts: "length (an_counts metadata) = length data"
      "\<forall>i < length data. an_counts metadata ! i = 0 \<longrightarrow> concat (data ! i) = []"
    and md: "metadata_true hash columns metadata data" using inp unfolding actor_input_def by blast+
  have each: "\<forall>chs \<in> set data. rows_ok lb ir (concat chs)" using rows_ok_chunk [OF rows] by blast
  then have "\<forall>chs \<in> set data. chunks_ok lb ir chs" by (simp add: chunks_ok_def ok no_preshuffle_apart [OF pre])
  then obtain aggs where aggs: "rmap (local_aggregation (nw_alloc nw) (piecewise_evaluation lb dg) (reduction_evaluation lb dg) target (\<not> keeps_order ir)) data = Inr aggs"
    "list_all2 (local_result lb ir (\<not> keeps_order ir)) data aggs" using local_ranks [OF dg] by blast
  show ?thesis
  proof (cases skip)
    case True
    obtain ns outs where n: "rmap (\<lambda>rank. choose_strategy target (an_counts metadata ! rank) True (keeps_order ir)
         (map (\<lambda>(c, a). local_estimates (nw_alloc nw) c a) (zip (an_counts metadata) aggs) ! rank)) [0..<length data] = Inr ns"
      "rmap (strategy_rank lb nw dg target ?dup True ns aggs) [0..<length data] = Inr outs"
      "list_all2 (\<lambda>chs out. fst out = ?dup \<and> group_spec lb ir (concat chs) (concat (snd out))) data outs"
      using local_strategies [OF ok pre dg nw t each counts aggs(2) refl] by blast
    have "?dup \<or> keys_apart lb ir (map concat data)"
    proof (cases ?dup)
      case False
      then have strict: "is_strictly_partitioned (from_keys (an_partitioning metadata) (length data) (Columns idx) True) InterRankLevel"
        using skip True unfolding p by (auto simp: is_strictly_partitioned_def split: scheme.splits)
      have "keys_apart lb ir (map concat data)"
        by (rule strict_level_apart [OF idx md strict]) (simp add: comp_def map_concat)
      then show ?thesis ..
    qed simp
    then have "actor_result lb ir ?dup data outs" using result_by_rank [OF n(3) _ ok] by blast
    then show ?thesis using aggs(1) n(1,2) True by auto
  next
    case False
    then have dup: "\<not> ?dup" using skip by blast
    then have r: "rows_ok lb ir (concat (concat data))" using rows by simp
    show ?thesis
      using global_strategies [OF ok pre dg nw t r ne counts aggs(2) refl, of "nw_alloc nw"] aggs(1) False dup by auto
  qed
qed

lemma groupby_actor_result:
  assumes inp: "actor_input lb hash ir child_is_repartition columns metadata data"
    and p: "resolved ir columns metadata (length data) = Inr p"
    and order: "an_duplicated metadata \<or> get_ordering p Flat = None"
    and pre: "has_preshuffle ir \<longrightarrow> strict_level metadata p"
    and nw: "delivers_all nw" and t: "0 < target"
  shows "\<exists>outs. groupby_actor lb nw target adjust ir child_is_repartition columns metadata data = Inr outs
     \<and> actor_result lb ir (an_duplicated metadata) data outs"
proof -
  let ?dup = "an_duplicated metadata"
  obtain idx where idx: "names_to_indices (concrete_prefix (gb_keys ir)) columns = Inr idx"
    and pp: "p = from_keys (an_partitioning metadata) (length data) (Columns idx) True"
    using p by (auto simp: resolved_def res_simps)
  have lev: "is_strictly_partitioned p (if ?dup then LocalLevel else Flat) = strict_level metadata p" by (simp add: strict_level_def)
  show ?thesis
  proof (cases "strict_level metadata p
      \<or> (\<forall>rank < length data. an_counts metadata ! rank = 1 \<and> (?dup \<or> length data = 1) \<and> child_is_repartition)")
    case True
    show ?thesis
      unfolding groupby_actor_def Let_def idx rbind.simps pp [symmetric] lev if_P [OF True]
      by (rule chunkwise_branch [OF inp idx pp True])
  next
    case False
    have ord: "(if ?dup then None else get_ordering p Flat) = None" using order by auto
    have nopre: "\<not> has_preshuffle ir" using pre False by blast
    have "ir_ok lb ir" using inp by (simp add: actor_input_def)
    then obtain ds where ds: "decompositions ir = Inr ds" by (rule ir_decompositions)
    then obtain dg where dg: "from_ir ir = Inr dg" "dg_preshuffle dg = list_ex dc_preshuffle ds" by (rule from_ir_fields)
    have ndg: "dg_preshuffle dg = False" using nopre by (simp add: dg(2) has_preshuffle_def ds)
    define skip where "skip = (?dup \<or> (case np_inter p of HashScheme cols m \<Rightarrow> True | _ \<Rightarrow> False))"
    obtain aggs ns outs where a: "rmap (local_aggregation (nw_alloc nw) (piecewise_evaluation lb dg) (reduction_evaluation lb dg) target (\<not> keeps_order ir)) data = Inr aggs"
      "rmap (\<lambda>rank. choose_strategy target (an_counts metadata ! rank) skip (keeps_order ir)
         (if skip then map (\<lambda>(c, a). local_estimates (nw_alloc nw) c a) (zip (an_counts metadata) aggs) ! rank
          else allgather_reduce (map (\<lambda>(c, a). local_estimates (nw_alloc nw) c a) (zip (an_counts metadata) aggs)))) [0..<length data] = Inr ns"
      "rmap (strategy_rank lb nw dg target ?dup skip ns aggs) [0..<length data] = Inr outs"
      "actor_result lb ir ?dup data outs"
      using dynamic_branch [OF inp idx pp nopre dg(1) nw t skip_def] by blast
    have flags: "(gb_maintain_order ir \<and> (None :: 'a cell key_ordering option) \<noteq> None \<and> \<not> has_stable_sorted_agg (gb_aggs ir)) = False"
      "(\<not> keeps_order ir \<or> False) = (\<not> keeps_order ir)" "(keeps_order ir \<and> \<not> False) = keeps_order ir" by simp_all
    show ?thesis
      unfolding groupby_actor_def Let_def idx rbind.simps pp [symmetric] lev if_not_P [OF False] dg(1) ndg if_False ord flags
        a(1) skip_def [symmetric] a(2) a(3) [unfolded strategy_rank_def [abs_def]]
      using a(4) by simp
  qed
qed

text \<open>C1: The group-by actor computes the requested group-by, whichever strategy it takes.  Given: the
  group-by is decomposable; rows are typed, counts and sums of integers (for \<open>std\<close> and \<open>var\<close> of
  squares too) fit 64 bits, floats are exact; the announced partitioning is true and without order
  of the keys across ranks; a rank that announces no chunk has no rows, and behind a repartition a
  count of 1 is true; if a request needs a shuffle first, the input is strictly partitioned (else the
  code raises \<open>AssertionError\<close>); the target size is positive; the network delivers all.  Then the
  actor ends without an exception, and the ranks send, for a duplicated input, the group-by of
  their rows each, else the whole group-by each, announced as duplicated, or parts that together
  are the group-by of all rows: one row for every key, in the order of appearance if it is maintained,
  with right values for every request.\<close>

theorem groupby_actor_correct:
  assumes inp: "actor_input lb hash ir child_is_repartition columns metadata data"
    and p: "resolved ir columns metadata (length data) = Inr p"
    and order: "an_duplicated metadata \<or> get_ordering p Flat = None"
    and pre: "has_preshuffle ir \<longrightarrow> strict_level metadata p"
    and nw: "delivers_all nw" and t: "0 < target"
  shows "\<exists>outs. groupby_actor lb nw target adjust ir child_is_repartition columns metadata data = Inr outs
     \<and> actor_result lb ir (an_duplicated metadata) data outs"
  by (rule groupby_actor_result [OF assms])

lemma groupby_actor_correct_witness:
  "\<exists>outs. groupby_actor sample_library sample_network 2 (\<lambda>dg aggs. Inr []) sample_ir False [''k'', ''x''] sample_metadata sample_data = Inr outs
     \<and> actor_result sample_library sample_ir (an_duplicated sample_metadata) sample_data outs"
proof (rule groupby_actor_correct)
  show "actor_input sample_library (\<lambda>cs. 0) sample_ir False [''k'', ''x''] sample_metadata sample_data"
    using sample_ir_ok sample_rows_ok by (simp add: actor_input_def sample_metadata_def sample_data_def metadata_true_def less_Suc_eq)
  show "resolved sample_ir [''k'', ''x''] sample_metadata (length sample_data) = Inr \<lparr>np_inter = NoScheme, np_local = NoScheme\<rparr>"
    by (simp add: resolved_def sample_ir_def sample_metadata_def sample_data_def names_to_indices_def name_index_def from_keys_def normalize_schemes_def)
  show "has_preshuffle sample_ir \<longrightarrow> strict_level sample_metadata \<lparr>np_inter = NoScheme, np_local = NoScheme\<rparr>"
    using sample_no_preshuffle by simp
  show "delivers_all sample_network" by (rule sample_network_delivers)
qed (simp_all add: get_ordering_def)

end
