(* ===== verification/GroupClaims.thy ===== *)
theory GroupClaims
  imports GroupActorCorrect
begin

text \<open>
  Further properties of the group-by of the streaming engine: the network without dynamic planning,
  the agreement with a group-by that is evaluated at once, the choice of the strategy, the tree, the
  names of temporaries, the merging of moments, and the requests that cannot be decomposed.
\<close>

section \<open>Without dynamic planning\<close>





section \<open>At once\<close>

lemma group_spec_rows:
  "group_spec lb ir rs out \<Longrightarrow> set (map (row_key (gb_keys ir)) out) = set (keys_in lb (gb_keys ir) rs)"
  by (simp add: group_spec_def group_table_def)

definition same_groups :: "'f groupby_ir \<Rightarrow> 'f row list \<Rightarrow> 'f row list \<Rightarrow> bool" where
  "same_groups ir out direct \<longleftrightarrow>
     distinct (map (row_key (gb_keys ir)) out)
     \<and> set (map (row_key (gb_keys ir)) out) = set (map (row_key (gb_keys ir)) direct)
     \<and> (gb_maintain_order ir \<longrightarrow> map (row_key (gb_keys ir)) out = map (row_key (gb_keys ir)) direct)
     \<and> (\<forall>p \<in> set out. \<forall>q \<in> set direct. row_key (gb_keys ir) p = row_key (gb_keys ir) q \<longrightarrow>
          (\<forall>(n, e) \<in> set (gb_aggs ir). determined e \<longrightarrow> map_of p n = map_of q n))"

lemma group_spec_same:
  assumes "rows_ok lb ir rs" and a: "group_spec lb ir rs out" and b: "group_spec lb ir rs direct"
  shows "same_groups ir out direct"
  unfolding same_groups_def
proof (intro conjI impI ballI)
  show "distinct (map (row_key (gb_keys ir)) out)" using a by (simp add: group_spec_def group_table_def)
  show "set (map (row_key (gb_keys ir)) out) = set (map (row_key (gb_keys ir)) direct)"
    using group_spec_rows [OF a] group_spec_rows [OF b] by simp
  show "map (row_key (gb_keys ir)) out = map (row_key (gb_keys ir)) direct" if "gb_maintain_order ir"
    using a b that by (simp add: group_spec_def group_table_def)
  fix p q x
  assume "p \<in> set out" "q \<in> set direct" "row_key (gb_keys ir) p = row_key (gb_keys ir) q" "x \<in> set (gb_aggs ir)"
  then show "case x of (n, e) \<Rightarrow> determined e \<longrightarrow> map_of p n = map_of q n"
    using group_spec_agree [OF assms] by (cases x) blast
qed

text \<open>C3: The actor agrees with the group-by that is evaluated at once.  For an input that is not
  duplicated, under all the conditions that the actor is correct under (typed rows whose integer sums,
  sums of squares for \<open>std\<close> and \<open>var\<close>, and counts fit 64 bits; true metadata without order across
  ranks; a strict partitioning if a request needs a shuffle first; a positive target), the group-by of
  all rows has a value, and the actor sends the same groups: every rank all of them, or the ranks
  between them, each once, in the same order if it is maintained.  In every cell, counts, lengths,
  minima, maxima, distinct counts, sums that are not of floats, first, last and stable sorted requests
  have the same value.  Nothing is said of sums and means of floats, deviations and variances,
  which the code rounds in the order of the chunks, nor of \<open>item\<close> and unstable sorted requests.\<close>

theorem groupby_actor_at_once:
  assumes inp: "actor_input lb hash ir child_is_repartition columns metadata data"
    and p: "resolved ir columns metadata (length data) = Inr p"
    and dup: "\<not> an_duplicated metadata" and order: "get_ordering p Flat = None"
    and pre: "has_preshuffle ir \<longrightarrow> strict_level metadata p"
    and nw: "delivers_all nw" and t: "0 < target"
  shows "\<exists>outs direct. groupby_actor lb nw target adjust ir child_is_repartition columns metadata data = Inr outs
     \<and> group_by lb ir (concat (concat data)) = Inr direct
     \<and> (list_all (\<lambda>out. fst out \<and> same_groups ir (concat (snd out)) direct) outs
        \<or> list_all (\<lambda>out. \<not> fst out) outs \<and> same_groups ir (concat (concat (map snd outs))) direct)"
proof -
  have order': "an_duplicated metadata \<or> get_ordering p Flat = None" using order ..
  obtain outs where outs: "groupby_actor lb nw target adjust ir child_is_repartition columns metadata data = Inr outs"
    "actor_result lb ir (an_duplicated metadata) data outs"
    using groupby_actor_result [OF inp p order' pre nw t] by blast
  have ok: "ir_ok lb ir" "rows_ok lb ir (concat (concat data))" using inp dup by (simp_all add: actor_input_def)
  obtain direct where direct: "group_by lb ir (concat (concat data)) = Inr direct" "group_spec lb ir (concat (concat data)) direct"
    using direct_spec [OF ok] by blast
  have "list_all (\<lambda>out. fst out \<and> same_groups ir (concat (snd out)) direct) outs
        \<or> list_all (\<lambda>out. \<not> fst out) outs \<and> same_groups ir (concat (concat (map snd outs))) direct"
    using outs(2) dup group_spec_same [OF ok(2) _ direct(2)] by (auto simp: actor_result_def list_all_iff)
  then show ?thesis using outs(1) direct(1) by blast
qed

lemma groupby_actor_at_once_witness:
  "\<exists>outs direct. groupby_actor sample_library sample_network 2 (\<lambda>dg aggs. Inr []) sample_ir False [''k'', ''x''] sample_metadata sample_data = Inr outs
     \<and> group_by sample_library sample_ir (concat (concat sample_data)) = Inr direct
     \<and> (list_all (\<lambda>out. fst out \<and> same_groups sample_ir (concat (snd out)) direct) outs
        \<or> list_all (\<lambda>out. \<not> fst out) outs \<and> same_groups sample_ir (concat (concat (map snd outs))) direct)"
proof (rule groupby_actor_at_once)
  show "actor_input sample_library (\<lambda>cs. 0) sample_ir False [''k'', ''x''] sample_metadata sample_data"
    using sample_ir_ok sample_rows_ok by (simp add: actor_input_def sample_metadata_def sample_data_def metadata_true_def less_Suc_eq)
  show "resolved sample_ir [''k'', ''x''] sample_metadata (length sample_data) = Inr \<lparr>np_inter = NoScheme, np_local = NoScheme\<rparr>"
    by (simp add: resolved_def sample_ir_def sample_metadata_def sample_data_def names_to_indices_def name_index_def from_keys_def normalize_schemes_def)
  show "has_preshuffle sample_ir \<longrightarrow> strict_level sample_metadata \<lparr>np_inter = NoScheme, np_local = NoScheme\<rparr>"
    using sample_no_preshuffle by simp
  show "delivers_all sample_network" by (rule sample_network_delivers)
qed (simp_all add: get_ordering_def sample_metadata_def)

section \<open>The choice of a strategy\<close>

lemma ceil_rows: "rows \<le> max k ((rows + m - 1) div m) * m" if "0 < m" for rows m k :: nat
proof -
  have "rows \<le> (rows + m - 1) div m * m"
    using that dividend_less_times_div [of m "rows + m - 1"] by (simp add: mult.commute)
  also have "\<dots> \<le> max k ((rows + m - 1) div m) * m" by (rule mult_le_mono1) simp
  finally show ?thesis .
qed

lemma choose_strategy_rows:
  assumes "choose_strategy target c skip maintain es = Inr n" and "\<not> use_tree skip maintain es"
  shows "2 \<le> n" and "fst (snd es) \<le> n * max_rows_per_partition"
proof -
  obtain bytes rows chunks need where es: "es = (bytes, rows, chunks, need)" by (cases es)
  define k where "k = (if rows > 0 then (rows + max_rows_per_partition - 1) div max_rows_per_partition else 1)"
  have tree: "use_tree skip maintain (bytes, rows, chunks, need) = False" using assms(2) by (simp add: es)
  have "target \<noteq> 0"
  proof
    assume "target = 0"
    then have "choose_strategy target c skip maintain es = Inl ZeroDivisionError"
      unfolding choose_strategy_def es prod.case Let_def tree if_False by simp
    then show False using assms(1) by simp
  qed
  then have target: "(target = 0) = False" by simp
  then have n: "n = max 2 (max (min (max 2 (max (bytes div target) k)) (if skip then c else chunks)) k)"
    using assms(1) unfolding choose_strategy_def es prod.case Let_def tree target if_False k_def [symmetric] rbind.simps
    by (simp only: sum.inject)
  show "2 \<le> n" unfolding n by (rule max.cobounded1)
  have "k \<le> n" unfolding n by (simp only: le_max_iff_disj order_refl simp_thms)
  moreover have "rows \<le> k * max_rows_per_partition"
    using ceil_rows [of max_rows_per_partition rows 0] by (simp add: k_def max_rows_per_partition_def)
  ultimately have "rows \<le> n * max_rows_per_partition" by (meson mult_le_mono1 order.trans)
  then show "fst (snd es) \<le> n * max_rows_per_partition" by (simp add: es)
qed

text \<open>C6: The ranks choose the strategy together, and safely.  From the estimates gathered from all
  ranks every rank chooses the same count, whatever its local count is.  A count below two is chosen
  only when every rank has drained its input, so that no chunk is left behind, and always when the
  order of the rows matters (then no rank has stopped early): it is one, a tree reduction, if some rank
  announced a chunk, and zero, a shuffle into one partition per rank, if every rank announced none.  Otherwise at least two
  partitions are made, and enough of them that the estimated rows fit the row limit of a partition.\<close>

theorem choose_strategy_safe:
  assumes "0 < target" and "length counts = length aggs"
    and "keep \<longrightarrow> (\<forall>a \<in> set aggs. ag_drained a)"
    and "es = allgather_reduce (map (\<lambda>(c, a). local_estimates alloc c a) (zip counts aggs))"
  shows "\<exists>n. (\<forall>c. choose_strategy target c False keep es = Inr n)
     \<and> (n < 2 \<longrightarrow> (\<forall>a \<in> set aggs. ag_drained a) \<and> n = (if \<forall>c \<in> set counts. c = 0 then 0 else 1))
     \<and> (keep \<longrightarrow> n < 2)
     \<and> (2 \<le> n \<longrightarrow> fst (snd es) \<le> n * max_rows_per_partition)"
proof -
  have chunks: "fst (snd (snd es)) = sum_list counts" unfolding assms(4) by (rule total_chunk_count [OF assms(2)])
  obtain n where n: "choose_strategy target 0 False keep es = Inr n"
    "if use_tree False keep es then n = min 1 (sum_list counts) else 2 \<le> n"
    using choose_strategy_tree [OF assms(1), of 0 False keep es] chunks by auto
  have all: "choose_strategy target c False keep es = Inr n" for c using n(1) choose_strategy_common by metis
  have tree: "n < 2 \<longleftrightarrow> use_tree False keep es" using n(2) by (auto split: if_splits)
  have "ag_drained a" if "use_tree False keep es" "a \<in> set aggs" for a
  proof (cases keep)
    case False
    then have "use_tree False False es" using that(1) by simp
    then show ?thesis unfolding assms(4) by (rule use_tree_all_drained [OF _ assms(2) that(2)])
  qed (use assms(3) that in blast)
  moreover have "n = (if \<forall>c \<in> set counts. c = 0 then 0 else 1)" if "n < 2"
  proof -
    have "n = min 1 (sum_list counts)" using n(2) that tree by simp
    moreover have "sum_list counts = 0 \<longleftrightarrow> (\<forall>c \<in> set counts. c = 0)" by (rule sum_list_eq_0_iff)
    ultimately show ?thesis by (cases "sum_list counts = 0") auto
  qed
  moreover have "keep \<Longrightarrow> use_tree False keep es" using use_tree_maintain by blast
  moreover have "2 \<le> n \<Longrightarrow> fst (snd es) \<le> n * max_rows_per_partition"
    using choose_strategy_rows(2) [OF n(1)] tree by simp
  ultimately show ?thesis using all tree by blast
qed

definition sample_aggs :: "nat aggregation list" where
  "sample_aggs = [\<lparr>ag_chunk = [1, 2], ag_drained = True, ag_received = 3, ag_rest = []\<rparr>,
     \<lparr>ag_chunk = [3], ag_drained = False, ag_received = 1, ag_rest = [[4]]\<rparr>]"

lemma choose_strategy_safe_witness:
  "\<exists>n. (\<forall>c. choose_strategy 5 c False False (allgather_reduce (map (\<lambda>(c, a). local_estimates length c a) (zip [3, 0] sample_aggs))) = Inr n)
     \<and> (n < 2 \<longrightarrow> (\<forall>a \<in> set sample_aggs. ag_drained a) \<and> n = (if \<forall>c \<in> set [3, 0 :: nat]. c = 0 then 0 else 1))
     \<and> (False \<longrightarrow> n < 2)
     \<and> (2 \<le> n \<longrightarrow> fst (snd (allgather_reduce (map (\<lambda>(c, a). local_estimates length c a) (zip [3, 0] sample_aggs)))) \<le> n * max_rows_per_partition)"
  by (rule choose_strategy_safe [where counts = "[3, 0]" and aggs = sample_aggs and alloc = length])
    (simp_all add: sample_aggs_def)


section \<open>The tree\<close>

lemma levels_decrease: "sorted_wrt (>) (count # repartitions (tree_levels count))" for count :: nat
proof (induction count rule: tree_levels.induct)
  case (1 count)
  show ?case
  proof (cases "count > 1")
    case True
    define c where "c = max (ceil_div count n_ary) 1"
    have c: "c < count" using True ceil_div_less [of n_ary count] by (simp add: c_def n_ary_def)
    have "sorted_wrt (>) (c # repartitions (tree_levels c))" by (rule "1.IH" [OF True c_def])
    then show ?thesis using c by (auto simp: tree_levels_step [OF True c_def])
  qed (simp add: tree_levels_done)
qed

text \<open>C9: The loop that builds the tree of a group-by ends.  From any partition count above one, the
  counts of the repartitions strictly decrease until the last of them is one, and there are at most
  \<open>n\<close> of them when the count is at most 32 to the power \<open>n\<close>.\<close>

theorem tree_levels_end:
  fixes count :: nat
  assumes "1 < count" and "count \<le> 32 ^ n"
  shows "sorted_wrt (>) (count # repartitions (tree_levels count))
     \<and> last (repartitions (tree_levels count)) = 1 \<and> length (repartitions (tree_levels count)) \<le> n"
  using levels_decrease levels_reach_one [OF assms(1)] levels_bound [of count n] assms(2) by (simp add: n_ary_def)

lemma tree_levels_end_witness:
  "sorted_wrt (>) ((1000::nat) # repartitions (tree_levels 1000))
     \<and> last (repartitions (tree_levels 1000)) = 1 \<and> length (repartitions (tree_levels 1000)) \<le> 2"
  by (rule tree_levels_end) simp_all

section \<open>Temporaries\<close>

lemma list_all2_set2: "list_all2 P xs ys \<Longrightarrow> y \<in> set ys \<Longrightarrow> \<exists>x \<in> set xs. P x y"
  by (induction rule: list_all2_induct) auto

lemma decompose_selection_name: "decompose prefix n e i = Inr (d, j) \<Longrightarrow> map fst (dc_selections d) = [n]"
  by (erule decompose_cases) (simp_all add: decompose_sorted_agg_def Let_def)

text \<open>C8: The three phases of a decomposed group-by do not confuse columns.  For a group-by with
  distinct column names that is decomposable, the columns of the partial tables have distinct names,
  the keys before the others, the reductions keep exactly these names, a column that is named like a
  column of the group-by is that of a request and never a key, and the selection yields the columns
  of the group-by in their order.\<close>

theorem temporaries_distinct:
  assumes "ir_ok lb ir" and "from_ir ir = Inr dg"
  shows "distinct (map fst (gb_keys (dg_piecewise dg)) @ map fst (gb_aggs (dg_piecewise dg)))
     \<and> gb_schema (dg_piecewise dg) = map fst (gb_keys (dg_piecewise dg)) @ map fst (gb_aggs (dg_piecewise dg))
     \<and> map fst (gb_aggs (dg_reduction dg)) = map fst (gb_aggs (dg_piecewise dg))
     \<and> (\<forall>n \<in> set (map fst (gb_aggs (dg_piecewise dg))). n \<in> set (gb_schema ir) \<longrightarrow> n \<in> set (map fst (gb_aggs ir)))
     \<and> map fst (dg_select dg) = gb_schema ir"
proof -
  obtain ds where ds: "decompositions ir = Inr ds" and dist: "distinct (map fst (gb_keys ir) @ piece_names ds)"
    and each: "list_all2 (\<lambda>(n, e) d. \<exists>i j. decompose (unique_prefix (gb_schema ir)) n e i = Inr (d, j)) (gb_aggs ir) ds"
    by (rule ir_decompositions [OF assms(1)])
  have sch: "gb_schema ir = map fst (gb_keys ir) @ map fst (gb_aggs ir)" using assms(1) by (simp add: ir_ok_def)
  have new: "n \<notin> numbered (unique_prefix (gb_schema ir)) i j" if "(n, e) \<in> set (gb_aggs ir)" for n e i j
  proof -
    have "n \<in> set (gb_schema ir)" using imageI [OF that, of fst] by (simp add: sch)
    then show ?thesis using fresh_new [of "gb_schema ir"] by (auto simp: numbered_def)
  qed
  have names: "map fst (dc_reductions d) = map fst (dc_piecewise d)" if d: "d \<in> set ds" for d
  proof -
    obtain x where x: "x \<in> set (gb_aggs ir)" "case x of (n, e) \<Rightarrow> \<exists>i j. decompose (unique_prefix (gb_schema ir)) n e i = Inr (d, j)"
      using list_all2_set2 [OF each d] by blast
    obtain n e where "x = (n, e)" by (cases x)
    then obtain i j where e: "(n, e) \<in> set (gb_aggs ir)" "decompose (unique_prefix (gb_schema ir)) n e i = Inr (d, j)" using x by auto
    show ?thesis by (rule decompose_names(4) [OF e(2) new [OF e(1)]])
  qed
  have sel: "map fst (concat (map dc_selections ds)) = map fst (gb_aggs ir)"
    using each
  proof (induction rule: list_all2_induct)
    case (Cons ne es d ds)
    then have "map fst (dc_selections d) = [fst ne]" using decompose_selection_name by (cases ne) auto
    then show ?case using Cons by simp
  qed simp
  have pn: "map fst (concat (map dc_piecewise ds)) = piece_names ds" by (simp add: piece_names_def map_concat comp_def)
  have "map fst (concat (map dc_reductions ds)) = piece_names ds"
    using names by (simp add: piece_names_def map_concat comp_def cong: map_cong)
  moreover have "gb_schema (dg_piecewise dg) = dict_names (map fst (gb_keys ir) @ map fst (concat (map dc_piecewise ds)))"
    "gb_keys (dg_piecewise dg) = gb_keys ir" "gb_aggs (dg_piecewise dg) = concat (map dc_piecewise ds)"
    "gb_aggs (dg_reduction dg) = concat (map dc_reductions ds)"
    "dg_select dg = groupby_keys (gb_keys ir) @ concat (map dc_selections ds)"
    using assms(2) ds [unfolded decompositions_def] by (auto simp: from_ir_def combine_def Let_def)
  moreover have "n \<in> set (map fst (gb_aggs ir))" if "n \<in> set (piece_names ds)" "n \<in> set (gb_schema ir)" for n
    using that dist by (auto simp: sch)
  ultimately show ?thesis using dist sel pn sch by (simp add: dict_names_distinct) blast
qed

lemma temporaries_distinct_witness:
  "\<exists>dg. from_ir sample_ir = Inr dg \<and> distinct (map fst (gb_keys (dg_piecewise dg)) @ map fst (gb_aggs (dg_piecewise dg)))
     \<and> map fst (gb_aggs (dg_reduction dg)) = map fst (gb_aggs (dg_piecewise dg))
     \<and> map fst (dg_select dg) = [''k'', ''n'', ''m'', ''g'']"
proof -
  obtain ds where "decompositions sample_ir = Inr ds" by (rule ir_decompositions [OF sample_ir_ok])
  then obtain dg where "from_ir sample_ir = Inr dg" by (rule from_ir_fields)
  then show ?thesis using temporaries_distinct [OF sample_ir_ok, of dg] by (auto simp: sample_ir_def)
qed

section \<open>Moments\<close>

text \<open>Partials whose count is not zero.\<close>

definition counted :: "(int \<times> 'd \<times> 'd) list \<Rightarrow> (int \<times> 'd \<times> 'd) list" where
  "counted = filter (\<lambda>m. fst m \<noteq> 0)"

lemma merge_step_uncounted: "fst m = 0 \<Longrightarrow> merge_step ar s m = s"
  by (cases s; cases m) (simp add: merge_step.simps)

lemma merge_step_first: "merge_step ar (0, x, y) m = (if fst m = 0 then (0, x, y) else m)"
  by (cases m) (simp add: merge_step.simps)

lemma merge_partials_counted: "merge_partials ar (counted ms) = merge_partials ar ms"
proof -
  have "foldl (merge_step ar) s (counted ms) = foldl (merge_step ar) s ms" for s
    by (induction ms arbitrary: s) (simp_all add: counted_def merge_step_uncounted)
  then show ?thesis by (simp add: merge_partials_def)
qed

lemma merge_partials_none: "counted ms = [] \<Longrightarrow> merge_partials ar ms = (0, fp_of_int ar 0, fp_of_int ar 0)"
  using merge_partials_counted [of ar ms] by (simp add: merge_partials_def)

lemma merge_partials_first:
  assumes "counted ms = m # rest"
  shows "merge_partials ar ms = foldl (merge_step ar) m rest"
proof -
  have "m \<in> set (counted ms)" by (simp add: assms)
  then have "fst m \<noteq> 0" by (simp add: counted_def)
  then show ?thesis
    using merge_partials_counted [of ar ms] by (simp add: assms merge_partials_def merge_step_first)
qed

lemma merge_chunks:
  "length (concat xss) < 2 ^ 63
   \<Longrightarrow> merge_m2 exact (map (\<lambda>xs. moments_cell (moments xs)) xss) = Inr (moments_cell (moments (concat xss)))"
  using merge_m2_moments [of xss "map moments xss"] by (simp add: list_all2_map2 list.rel_refl comp_def)

lemma length_concat_member: "xs \<in> set xss \<Longrightarrow> length xs \<le> length (concat xss)"
  by (induction xss) auto

text \<open>C7: Merging moments.  In any arithmetic, so for the doubles of the code with their rounding,
  infinities and NaN too: what a partial of count 0 holds is never read, the result of no other
  partial is zero, and one other partial is returned as it is, untouched by the formula of the merge.
  In exact arithmetic, from the moments of any chunks of fewer than 2 to the power 63 numbers in all
  (their count, their mean, and the sum of the squared differences from the mean), empty chunks
  included, \<open>MERGE_M2\<close> computes the moments of all the numbers, and merging the merged moments of any
  batches of the chunks gives the same.\<close>

theorem merge_m2_correct:
  assumes "length (concat (concat xsss)) < 2 ^ 63"
  shows "merge_partials ar ms = merge_partials ar (filter (\<lambda>(n, mean, m2). n \<noteq> 0) ms)
     \<and> (filter (\<lambda>(n, mean, m2). n \<noteq> 0) ms = [] \<longrightarrow> merge_partials ar ms = (0, fp_of_int ar 0, fp_of_int ar 0))
     \<and> (\<forall>m. filter (\<lambda>(n, mean, m2). n \<noteq> 0) ms = [m] \<longrightarrow> merge_partials ar ms = m)
     \<and> merge_m2 exact (map (\<lambda>xs. moments_cell (moments xs)) (concat xsss)) = Inr (moments_cell (moments (concat (concat xsss))))
     \<and> rbind (rmap (\<lambda>xss. merge_m2 exact (map (\<lambda>xs. moments_cell (moments xs)) xss)) xsss) (merge_m2 exact)
       = Inr (moments_cell (moments (concat (concat xsss))))"
proof (intro conjI allI impI)
  have c: "filter (\<lambda>(n, mean, m2). n \<noteq> 0) ms = counted ms" by (simp add: counted_def case_prod_unfold)
  show "merge_partials ar ms = merge_partials ar (filter (\<lambda>(n, mean, m2). n \<noteq> 0) ms)"
    by (simp add: c merge_partials_counted)
  show "merge_partials ar ms = (0, fp_of_int ar 0, fp_of_int ar 0)" if "filter (\<lambda>(n, mean, m2). n \<noteq> 0) ms = []"
    using that by (simp add: c merge_partials_none)
  show "merge_partials ar ms = m" if "filter (\<lambda>(n, mean, m2). n \<noteq> 0) ms = [m]" for m
    using that by (simp add: c merge_partials_first)
  show "merge_m2 exact (map (\<lambda>xs. moments_cell (moments xs)) (concat xsss)) = Inr (moments_cell (moments (concat (concat xsss))))"
    using assms by (rule merge_chunks)
  have small: "length (concat xss) < 2 ^ 63" if "xss \<in> set xsss" for xss
    using length_concat_member [of "concat xss" "map concat xsss"] that assms by (simp add: concat_map_concat)
  have "rmap (\<lambda>xss. merge_m2 exact (map (\<lambda>xs. moments_cell (moments xs)) xss)) xsss = Inr (map (\<lambda>xss. moments_cell (moments (concat xss))) xsss)"
    by (rule rmap_all_Inr) (rule merge_chunks [OF small])
  moreover have "merge_m2 exact (map (\<lambda>xss. moments_cell (moments (concat xss))) xsss) = Inr (moments_cell (moments (concat (concat xsss))))"
    using merge_chunks [of "map concat xsss"] assms by (simp add: comp_def concat_map_concat)
  ultimately show "rbind (rmap (\<lambda>xss. merge_m2 exact (map (\<lambda>xs. moments_cell (moments xs)) xss)) xsss) (merge_m2 exact)
       = Inr (moments_cell (moments (concat (concat xsss))))" by simp
qed

lemma merge_m2_correct_witness:
  "merge_partials (exact\<lparr>fp_add := (\<lambda>x y. 0)\<rparr>) [(0, 7, 7), (2, 3, 1), (0, 8, 8)] = (2, 3, 1 :: rat)
     \<and> merge_m2 exact (map (\<lambda>xs. moments_cell (moments xs)) [[1 :: rat, 2], [], [3], [4, 5]]) = Inr (moments_cell (moments [1, 2, 3, 4, 5]))
     \<and> rbind (rmap (\<lambda>xss. merge_m2 exact (map (\<lambda>xs. moments_cell (moments xs)) xss)) [[[1 :: rat, 2], []], [[3], [4, 5]]]) (merge_m2 exact)
       = Inr (moments_cell (moments [1, 2, 3, 4, 5]))"
proof -
  have small: "length (concat (concat [[[1 :: rat, 2], []], [[3], [4, 5]]])) < 2 ^ 63" by simp
  note all = merge_m2_correct [OF small, of "exact\<lparr>fp_add := (\<lambda>x y. 0)\<rparr>" "[(0, 7, 7), (2, 3, 1 :: rat), (0, 8, 8)]"]
  have nested: "concat [[[1 :: rat, 2], []], [[3], [4, 5]]] = [[1, 2], [], [3], [4, 5]]"
    "concat [[1 :: rat, 2], [], [3], [4, 5]] = [1, 2, 3, 4, 5]" by simp_all
  show ?thesis
  proof (intro conjI)
    have "filter (\<lambda>(n, mean, m2). n \<noteq> 0) [(0, 7, 7), (2, 3, 1 :: rat), (0, 8, 8)] = [(2 :: int, 3, 1)]" by simp
    then show "merge_partials (exact\<lparr>fp_add := (\<lambda>x y. 0)\<rparr>) [(0, 7, 7), (2, 3, 1), (0, 8, 8)] = (2, 3, 1 :: rat)"
      using all by blast
  qed (use all in \<open>unfold nested, blast+\<close>)
qed

section \<open>Requests that cannot be decomposed\<close>

definition gb_agg_supported :: "agg_name list" where
  "gb_agg_supported =
     [AggSum, AggCount, AggMean, AggMin, AggMax, AggNUnique, AggStd, AggVar, AggItem, AggFirst, AggLast, AggFirstNonNull]"

text \<open>A request that is an aggregation, with the options it is built with: \<open>std\<close> and \<open>var\<close> have
  their \<open>ddof\<close>.\<close>

fun request_ok :: "'f expr \<Rightarrow> bool" where
  "request_ok (Len t) \<longleftrightarrow> True"
| "request_ok (SortedAgg t a so e bs) \<longleftrightarrow> True"
| "request_ok (Agg t a opt e) \<longleftrightarrow> (a = AggStd \<or> a = AggVar \<longrightarrow> (\<exists>d. opt = Ddof d))"
| "request_ok _ \<longleftrightarrow> False"

fun unsupported :: "'f expr \<Rightarrow> bool" where
  "unsupported (Agg t a opt e) \<longleftrightarrow> a \<notin> set gb_agg_supported"
| "unsupported _ \<longleftrightarrow> False"

lemma decompose_error:
  assumes "request_ok e"
  shows "decompose prefix n e i = Inl err \<longleftrightarrow> unsupported e \<and> err = NotImplementedError"
proof (cases e)
  case (Agg t a opt c)
  have sum: "\<exists>d j. decompose prefix m (Agg u AggSum NoOptions c) k = Inr (d, j)" for m u k
    by (simp add: decompose.simps)
  have cnt: "\<exists>d j. decompose prefix m (Agg u AggCount (Flag False) c) k = Inr (d, j)" for m u k
    by (simp add: decompose.simps Let_def)
  show ?thesis
  proof (cases "a = AggMean")
    case True
    obtain s j where s: "decompose prefix (fresh prefix i ''__mean_sum'') (Agg t AggSum NoOptions c) (i + 1) = Inr (s, j)"
      using sum by blast
    obtain q k where q: "decompose prefix (fresh prefix j ''__mean_count'') (Agg i64 AggCount (Flag False) c) (j + 1) = Inr (q, k)"
      using cnt by blast
    have "\<exists>r. decompose prefix n (Agg t AggMean opt c) i = Inr r"
      by (subst decompose.simps) (simp add: s [simplified] q [simplified])
    then show ?thesis using True by (auto simp: Agg gb_agg_supported_def)
  next
    case False
    then show ?thesis using assms
      by (cases a) (auto simp: Agg decompose.simps [of _ _ "Agg t _ opt c"] gb_agg_supported_def Let_def split: agg_options.splits)
  qed
qed (use assms in \<open>auto simp: decompose.simps decompose_sorted_agg_def\<close>)

lemma decompose_all_error:
  "\<forall>(n, e) \<in> set es. request_ok e
   \<Longrightarrow> decompose_all prefix es i = Inl err \<longleftrightarrow> err = NotImplementedError \<and> (\<exists>(n, e) \<in> set es. unsupported e)"
proof (induction es arbitrary: i)
  case (Cons ne es)
  obtain n e where ne: "ne = (n, e)" by (cases ne)
  then have "request_ok e" using Cons.prems by simp
  show ?case
  proof (cases "decompose prefix n e i")
    case (Inl e')
    then have "unsupported e" "e' = NotImplementedError"
      using decompose_error [OF \<open>request_ok e\<close>, of prefix n i e'] by simp_all
    then show ?thesis using Inl by (auto simp: ne)
  next
    case (Inr dj)
    obtain d j where dj: "dj = (d, j)" by (cases dj)
    have "\<not> unsupported e" using decompose_error [OF \<open>request_ok e\<close>, of prefix n i NotImplementedError] Inr by simp
    then show ?thesis using Cons.IH [of j] Cons.prems Inr dj by (auto simp: ne rbind_Inl_iff)
  qed
qed simp

text \<open>C10: The decomposition of a group-by fails only for the aggregations that the error message
  excludes.  When every request is an aggregation with the options it is built with, the
  decomposition raises exactly when some request aggregates with a function that is not in the list
  of supported ones that the message prints, and what it raises is \<open>NotImplementedError\<close>, on which
  the lowering falls back to one partition.\<close>

theorem from_ir_unsupported:
  assumes "\<forall>(n, e) \<in> set (gb_aggs ir). request_ok e"
  shows "from_ir ir = Inl err \<longleftrightarrow> err = NotImplementedError \<and> (\<exists>(n, e) \<in> set (gb_aggs ir). unsupported e)"
proof -
  have "from_ir ir = Inl err \<longleftrightarrow> decompose_all (unique_prefix (gb_schema ir)) (gb_aggs ir) 0 = Inl err"
    by (auto simp: from_ir_def rbind_Inl_iff Let_def)
  then show ?thesis using decompose_all_error [OF assms] by simp
qed

lemma from_ir_unsupported_witness:
  "from_ir (sample_ir\<lparr>gb_aggs := [(''n'', Len (IntT 64)), (''m'', Agg FloatT AggMedian NoOptions (Col FloatT ''x''))]\<rparr>) = Inl NotImplementedError"
  using from_ir_unsupported [of "sample_ir\<lparr>gb_aggs := [(''n'', Len (IntT 64)), (''m'', Agg FloatT AggMedian NoOptions (Col FloatT ''x''))]\<rparr>"
      NotImplementedError]
  by (simp add: gb_agg_supported_def)

end
