(* ===== verification/Spec2Isabelle.thy ===== *)
theory Spec2Isabelle
  imports RangeIndexModel ColumnAccessorModel OptionsModel IndexingModel BufferModel SpillModel TraversalModel SortActor TruncateFacts GroupClaims
begin

text \<open>
  A verification development for the Python packages of cuDF: \<open>cudf\<close>, the data frames, and
  \<open>cudf_polars\<close>, the GPU engine for Polars.

  \<^bold>\<open>The program.\<close>  A frame of \<open>cudf\<close> is a column accessor (labels and columns) and a row index over
  device buffers; indexing turns a key into positions; buffers share memory by copy-on-write and may
  be spilled to the host when the device is full; options change all of this for a while.
  \<open>cudf_polars\<close> translates a Polars query into a tree of IR nodes, walks it by cached visitors,
  and runs it on a streaming engine: every operator is an actor on every rank, which receives chunks
  of rows and metadata saying how the chunks are partitioned and ordered, and sends chunks and
  metadata on.  What an actor concludes from the metadata decides whether rows meet that have to
  meet.  The two actors modelled in full, the sort and the group-by, stand on that metadata.

  \<^bold>\<open>Conventions.\<close>  An operation that may raise returns \<open>'a res\<close>, \<open>Inl e\<close> for the exception and
  \<open>Inr x\<close> for the value; an operation that mutates an object returns the new object.  Python's
  integers are \<open>int\<close>; timestamps, the 16- and 32-bit calendar fields and the sums of libcudf wrap at
  their width.  A dict is an association list in insertion order.  A channel is the list of its
  messages and the ranks of a job are the positions of a list.  Third-party code and device kernels
  are parameters; their laws are named definitions in the hypotheses, and every property that has
  hypotheses is applied at a concrete input in the theorem \<open>_witness\<close> after it.

  \<^bold>\<open>Theories and code.\<close>

  \<^item> \<^bold>\<open>Prelude\<close>: exceptions, ordered dictionaries (locale \<open>ordered_dict\<close>, interpreted on association
    lists), runs of a step function (locale \<open>step_system\<close>, interpreted by the accessor, the options,
    the buffers and the spilling), facts about lists.

  \<^item> \<^bold>\<open>PyRange, RangeIndexModel\<close> (\<open>cudf/core/index.py\<close>): Python's range and slices, and
    \<open>RangeIndex\<close>: construction, lookup, searching, arithmetic, set operations, concatenation,
    serialisation.  An operation that leaves the range representation is the value \<open>Fallback\<close>.
    Shown: slices, arithmetic, search, union and the intersection by the extended Euclidean algorithm
    agree with the list of values of the index.  \<open>get_indexer\<close> computes in the integer type of its
    target: it agrees where that type is signed and no step overflows, and for an unsigned target it
    wraps (\<open>get_indexer_unsigned_wraps\<close>).

  \<^item> \<^bold>\<open>ColumnAccessorModel\<close> (\<open>cudf/core/column_accessor.py\<close>): the record of data and cached
    properties, and all operations on it.  Shown: no sequence of mutations and reads, raising or not,
    leaves a stale cache, the pandas index with its class, names and dtype included; insertion, with the
    range of its location; selection below a label of several levels.

  \<^item> \<^bold>\<open>OptionsModel\<close> (\<open>cudf/options.py\<close>): registry, validators, environment, context manager.
    Shown: entering is atomic, leaving restores.

  \<^item> \<^bold>\<open>IndexingModel\<close> (\<open>cudf/core/indexing_utils.py\<close>, \<open>copy_types.py\<close>): keys are destructured and
    become row indexers.  Shown: the ordered label lookup casts the needles to a
    common type with the index and finds every position of the cast needles, in order.

  \<^item> \<^bold>\<open>BufferModel\<close> (\<open>cudf/core/buffer/buffer.py\<close>, \<open>utils.py\<close>): owners, slices, weak sets, access
    modes.  Shown: a write through one buffer is seen by no other, over any history, also
    through a pointer kept from an earlier access.  The histories leave out a shallow copy of a buffer
    whose pointer is out: the code then shares the memory (\<open>exposed_copy_shares\<close>), which
    \<open>library_design.md\<close> says it does not.

  \<^item> \<^bold>\<open>SpillModel\<close> (\<open>spillable_buffer.py\<close>, \<open>spill_manager.py\<close>): owners and manager in one state.
    Shown: a pointer that was handed out stays valid, bytes survive, rounds are least recently used
    first and as short as possible, limits are reached, and the callback for a failing allocation
    answers truthfully and cannot be called for ever with the answer True.  How often RMM calls it, and
    whether it serves the allocation, is the environment.

  \<^item> \<^bold>\<open>TraversalModel\<close> (\<open>cudf_polars/dsl/nodebase.py\<close>, \<open>traversal.py\<close>): nodes, traversals, reference
    counts, plain and caching visitors (fuel is the depth of the recursion; a visitor that descends to
    children returns with the height of the node as fuel).  Shown: caching does not change a result.

  \<^item> \<^bold>\<open>PartitioningModel\<close> (\<open>streaming/partitioning_requests.py\<close>, \<open>dsl/utils/column_domain.py\<close>,
    \<open>utils/sorting.py\<close>): what operators ask of the partitioning of their inputs, propagated and merged.

  \<^item> \<^bold>\<open>KeyOrder\<close>: the order of nullable sort keys and of tuples (locale \<open>key_order\<close>, interpreted on
    nullable values).  \<^bold>\<open>MetadataModel\<close> (\<open>streaming/actor_graph/partitioning.py\<close>, the classes of
    \<open>cudf_streaming/channel_metadata.pyx\<close>): hash and order schemes, row orderings, their remapping
    through operators, resolution for requested keys, alignment.  The theory says when metadata is
    \<^emph>\<open>true of\<close> the rows of a stream.  Shown: what is concluded from true metadata is true, and
    metadata stays true through an operator.

  \<^item> \<^bold>\<open>TruncateModel, TruncateFacts\<close> (\<open>dsl/expressions/datetime.py\<close>): duration strings, plans for
    \<open>dt.truncate\<close> and their evaluation on 64-bit ticks with C's division.  Shown: bucket starts of the
    proleptic Gregorian calendar over the whole range, and parsing of what was printed.

  \<^item> \<^bold>\<open>StableSort\<close> (locales \<open>total_preorder\<close> and its extension \<open>row_order\<close>, which passes its laws on
    to rows with sequence numbers by a sublocale), \<^bold>\<open>SortModel, SortFacts, TopK, SortActor\<close>
    (\<open>streaming/actor_graph/collectives/sort.py\<close>, \<open>sort_utils.py\<close>, \<open>streaming/sort.py\<close>): boundaries, splits,
    shuffle, the shorter ways.  Shown: whatever way the actor takes, it sends the sorted input and
    metadata that is true of it; a head or tail is that of the whole.

  \<^item> The group-by of the streaming engine (\<open>streaming/groupby.py\<close>,
    \<open>streaming/actor_graph/groupby.py\<close>, \<open>repartition.py\<close>, \<open>utils.py\<close>, \<open>dsl/ir.py\<close>, \<open>dsl/expressions/\<close>):

      \<^item> \<^bold>\<open>GroupExpr\<close>: values, expressions and their evaluation on a row.  \<^bold>\<open>GroupAgg\<close>: the aggregations
        of libcudf on the cells of a group (the merging of moments of \<open>group_merge_m2.cu\<close> among them),
        the group-by node with sorted aggregations, the selection, and \<open>agg_spec\<close>, which says what
        a request may return for a group.
      \<^item> \<^bold>\<open>GroupDecompose\<close>: \<open>unique_names\<close>, \<open>decompose\<close>, \<open>DecomposedGroupBy.from_ir\<close>.
      \<^item> \<^bold>\<open>GroupFacts, GroupReduce, GroupSorted, GroupPhases\<close>: each request alone: piecewise,
        reduction and selection return right values for the union of the chunks.
        \<^bold>\<open>GroupNames, GroupTable, GroupSpec, GroupPerm\<close>: all requests together, as tables:
        \<open>stands lb ir rs t\<close>, the partial table \<open>t\<close> stands for the rows \<open>rs\<close>; names of
        temporaries are apart; results do not depend on the order of the rows where none is kept.
      \<^item> \<^bold>\<open>PartialAggregation\<close>: the loops, over any evaluation of chunks: local aggregation with
        early exit, the rounds until the input is drained, the repartitioning tree.  The locale
        \<open>partial_aggregation\<close> states what the loops need (partial tables may be concatenated and
        reduced) and proves once what they return; \<^bold>\<open>GroupActorFacts\<close> interprets it on the model of
        the group-by, whose laws are \<open>stands\<close> above.
      \<^item> \<^bold>\<open>GroupActor\<close>: strategy, tree, shuffle, the actor, and the network without dynamic planning.
        \<^bold>\<open>GroupShuffle, GroupActorSpec, GroupActorCorrect\<close>: the shuffle keeps groups together, each
        strategy returns the group-by, and chunkwise evaluation is right where the metadata says
        so, by the soundness of strict partitioning.  \<^bold>\<open>GroupSample\<close>: a concrete input.
        \<^bold>\<open>GroupClaims\<close>: the remaining properties.

  \<^bold>\<open>Parameters and their laws.\<close>  \<open>library_ok\<close>: the unstable sort of libcudf returns a sorted
  permutation and the hash group-by every distinct key once.  \<open>sorts\<close>, \<open>delivers\<close>, \<open>owns\<close> (in \<open>SortFacts\<close>): the
  same for the sort actor and its shuffler.  \<open>delivers_all\<close>: the shuffler delivers the rows of a partition, once, in
  some order, and every partition is owned by one rank.  \<open>metadata_true\<close>: the announced
  partitioning holds of the input, the hash being any function of the keys.  \<open>truncation_monotone\<close>: a truncated column is
  monotone in its source; this is where \<open>truncate_wraps_first_day\<close> shows that the code
  relies on more than it has.  In \<open>SpillModel\<close> the allocator, the garbage collector and the locks of
  other threads are the environment of a step.

  \<^bold>\<open>Termination and bounds.\<close>  Loops are total functions: the rounds of the group-by end because a
  round that does not drain its input receives a chunk; the tree because a partition count above one
  shrinks; the failure callback because it collects garbage at most once, and repeated calls because each
  True moves an owner to the host.  Integer sums and the counts of merged moments
  are accumulated in 64 bits and wrap; \<open>agg_ok\<close> asks that counts fit their type and that sums of
  squares or means do not overflow.  \<open>RangeIndex\<close> divides exactly, which a float does below \<open>2 ^ 53\<close>.

  \<^bold>\<open>Not modelled.\<close>  The merging of moments takes any arithmetic: that empty partials are never read holds of
  rounded doubles, infinities and NaN too, and only the equality with the moments of all rows asks for
  exact arithmetic.  The other floating-point numbers of the group-by are an ordered field, so rounding,
  infinities and NaN are absent from it.  The agreement of the actor with the group-by evaluated at once is
  therefore stated for the \<open>determined\<close> requests only, which leave out sums of floats, means,
  deviations and variances; a rank may announce no chunks where it has no rows.  Of the group-by: the branch for input that is ordered by the keys (an argument of
  \<open>groupby_actor\<close>; the theorems exclude it), \<open>Distinct\<close>, the schema casts of empty
  chunks (the identity on well-typed ones), the metadata it announces, and the fallbacks and slices
  of the lowering.  Of the sort: the number of partitions that is sampled from chunk sizes.  Of the
  buffers: the slices of spillable owners.  The front ends of \<open>cudf\<close> (frames, series, columns,
  accessors, readers), \<open>cudf.pandas\<close>, the translation from Polars and the bindings call a third party
  or one libcudf kernel each and have little logic to verify apart from that; the C++ and Java
  libraries are other languages.  Joins, windows, distinct and scans of the streaming engine have
  such logic and are next: the join actor reads the same metadata (\<open>aligned_rows_meet\<close>), \<open>Distinct\<close> is
  another instance of \<open>partial_aggregation\<close>.
\<close>

end
